(* ===== verification/Prelude.thy ===== *)
theory Prelude
  imports Main "HOL-Library.Word"
begin

unbundle bit_operations_syntax

text \<open>
  Shared vocabulary of the development: the machine types of the kernel's
  \<^verbatim>\<open>types.h\<close>, byte memory with the specification functions
  that describe block reads and writes, NUL-terminated strings in memory, and
  the fact collections the component theories add to.
\<close>

section \<open>Machine types\<close>

type_synonym u8 = "8 word"
type_synonym u16 = "16 word"
type_synonym u32 = "32 word"
type_synonym u64 = "64 word"
type_synonym byte = "8 word"

text \<open>
  An address is a natural number: pointer arithmetic inside a C object never
  wraps, and the theorems below talk about objects. A memory maps every
  address to a byte; accesses that a component must not make are ruled out by
  the frame parts of its theorems.
\<close>

type_synonym addr = nat
type_synonym mem = "addr \<Rightarrow> byte"

text \<open>
  A \<^verbatim>\<open>struct\<close> pointer is optional, \<^verbatim>\<open>NULL\<close> being
  \<^const>\<open>None\<close>.
\<close>

type_synonym ptr = "nat option"

named_theorems mem_simps \<open>block reads and writes of byte memory\<close>
named_theorems inv_intros \<open>operations that keep a component invariant\<close>

section \<open>Rounding to a power of two\<close>

text \<open>
  The C idioms \<^verbatim>\<open>x & ~(a - 1)\<close> and \<^verbatim>\<open>(x + a - 1) & ~(a - 1)\<close>, read as arithmetic.
\<close>

lemma and_not_mask_eq: "x AND NOT (mask n) = push_bit n (drop_bit n (x :: 'a::len word))"
  by (rule bit_eqI) (auto simp: bit_simps)

lemma unat_and_not_mask: "unat (x AND NOT (mask n)) = unat x div 2 ^ n * 2 ^ n"
  for x :: "'a::len word"
proof -
  have "unat x div 2 ^ n * 2 ^ n < 2 ^ LENGTH('a)"
    using div_times_less_eq_dividend [of "unat x" "2 ^ n"] unsigned_less [of x] by (rule le_less_trans)
  moreover have "unat (drop_bit n x) = unat x div 2 ^ n"
    unfolding unat_drop_bit_eq by (rule drop_bit_eq_div)
  moreover have "unat (push_bit n (drop_bit n x)) = unat (drop_bit n x) * 2 ^ n mod 2 ^ LENGTH('a)"
    unfolding unsigned_push_bit_eq take_bit_eq_mod push_bit_eq_mult [of n "unat _"] ..
  ultimately show ?thesis
    by (simp only: and_not_mask_eq mod_less)
qed

lemma u64_of_nat_eq:
  "x < 18446744073709551616 \<Longrightarrow> y < 18446744073709551616 \<Longrightarrow> (of_nat x :: u64) = of_nat y \<longleftrightarrow> x = y"
  unfolding word_of_nat_eq_iff by (simp add: take_bit_nat_eq_self)

lemma u64_unat_of_nat: "x < 2 ^ 64 \<Longrightarrow> unat (of_nat x :: u64) = x"
  by (simp add: unat_of_nat take_bit_nat_eq_self)

lemma u64_unat_add: "unat x + unat y < 2 ^ 64 \<Longrightarrow> unat (x + y) = unat x + unat (y :: u64)"
  by (subst unat_add_lem [symmetric]) simp

lemma u64_unat_diff: "y \<le> x \<Longrightarrow> unat (x - y) = unat x - unat (y :: u64)"
  by (rule unat_sub)

lemma round_up_bounds:
  assumes "0 < (a :: nat)"
  shows "x \<le> (x + a - 1) div a * a" and "(x + a - 1) div a * a < x + a"
proof -
  have "(x + a - 1) div a * a + (x + a - 1) mod a = x + a - 1"
    by simp
  moreover have "(x + a - 1) mod a < a"
    using assms by simp
  ultimately show "x \<le> (x + a - 1) div a * a" and "(x + a - 1) div a * a < x + a"
    using assms by linarith+
qed

section \<open>Error numbers\<close>

text \<open>The error codes of \<^verbatim>\<open>vfs.h\<close>, returned negated.\<close>

abbreviation (input) "EPERM \<equiv> (1 :: int)"
abbreviation (input) "ENOENT \<equiv> (2 :: int)"
abbreviation (input) "EIO \<equiv> (5 :: int)"
abbreviation (input) "EBADF \<equiv> (9 :: int)"
abbreviation (input) "ENOMEM \<equiv> (12 :: int)"
abbreviation (input) "EEXIST \<equiv> (17 :: int)"
abbreviation (input) "ENOTDIR \<equiv> (20 :: int)"
abbreviation (input) "EISDIR \<equiv> (21 :: int)"
abbreviation (input) "EINVAL \<equiv> (22 :: int)"
abbreviation (input) "EPIPE \<equiv> (32 :: int)"
abbreviation (input) "ENOTEMPTY \<equiv> (39 :: int)"

section \<open>Block reads and writes\<close>

definition read_bytes :: "mem \<Rightarrow> addr \<Rightarrow> nat \<Rightarrow> byte list" where
  "read_bytes m p n = map (\<lambda>i. m (p + i)) [0..<n]"

definition write_bytes :: "mem \<Rightarrow> addr \<Rightarrow> byte list \<Rightarrow> mem" where
  "write_bytes m p xs = (\<lambda>a. if p \<le> a \<and> a < p + length xs then xs ! (a - p) else m a)"

definition disjoint_ranges :: "addr \<Rightarrow> nat \<Rightarrow> addr \<Rightarrow> nat \<Rightarrow> bool" where
  "disjoint_ranges p n q k \<longleftrightarrow> p + n \<le> q \<or> q + k \<le> p"

lemma length_read_bytes [simp, mem_simps]: "length (read_bytes m p n) = n"
  by (simp add: read_bytes_def)

lemma nth_read_bytes [simp, mem_simps]: "i < n \<Longrightarrow> read_bytes m p n ! i = m (p + i)"
  by (simp add: read_bytes_def)

lemma read_bytes_0 [simp, mem_simps]: "read_bytes m p 0 = []"
  by (simp add: read_bytes_def)

lemma read_bytes_Suc [mem_simps]: "read_bytes m p (Suc n) = m p # read_bytes m (Suc p) n"
  by (simp add: read_bytes_def upt_conv_Cons map_Suc_upt [symmetric] del: upt_Suc)

lemma read_bytes_add: "read_bytes m p (j + k) = read_bytes m p j @ read_bytes m (p + j) k"
  by (auto intro!: nth_equalityI simp: nth_append)

lemma take_read_bytes [simp, mem_simps]: "take k (read_bytes m p n) = read_bytes m p (min k n)"
  by (auto intro!: nth_equalityI)

lemma read_bytes_cong:
  "(\<And>i. i < n \<Longrightarrow> m (p + i) = m' (q + i)) \<Longrightarrow> read_bytes m p n = read_bytes m' q n"
  by (auto intro!: nth_equalityI)

lemma write_bytes_Nil [simp, mem_simps]: "write_bytes m p [] = m"
  by (rule ext) (auto simp: write_bytes_def)

lemma write_bytes_Cons [mem_simps]:
  "write_bytes m p (x # xs) = write_bytes (m(p := x)) (Suc p) xs"
  by (rule ext) (auto simp: write_bytes_def nth_Cons')

lemma write_bytes_snoc:
  "write_bytes m p (xs @ [x]) = (write_bytes m p xs)(p + length xs := x)"
  by (rule ext) (auto simp: write_bytes_def nth_append)

lemma write_bytes_append:
  "write_bytes m p (xs @ ys) = write_bytes (write_bytes m p xs) (p + length xs) ys"
  by (rule ext) (auto simp: write_bytes_def nth_append)

lemma write_bytes_outside [mem_simps]:
  "a < p \<or> p + length xs \<le> a \<Longrightarrow> write_bytes m p xs a = m a"
  by (auto simp: write_bytes_def)

lemma write_bytes_inside [mem_simps]:
  "i < length xs \<Longrightarrow> write_bytes m p xs (p + i) = xs ! i"
  by (simp add: write_bytes_def)

lemma read_write_same [simp, mem_simps]:
  "read_bytes (write_bytes m p xs) p (length xs) = xs"
  by (auto intro!: nth_equalityI simp: write_bytes_inside)

lemma read_write_disjoint [mem_simps]:
  "disjoint_ranges p (length xs) q k \<Longrightarrow>
     read_bytes (write_bytes m p xs) q k = read_bytes m q k"
  by (auto intro!: nth_equalityI simp: write_bytes_outside disjoint_ranges_def)

lemma write_read_same [simp, mem_simps]: "write_bytes m p (read_bytes m p n) = m"
  by (rule ext) (auto simp: write_bytes_def)

section \<open>NUL-terminated strings in memory\<close>

text \<open>
  \<open>cstr m p xs\<close>: the bytes \<open>xs\<close>, none of them NUL, stand at \<open>p\<close>, followed by a NUL.
\<close>

fun cstr :: "mem \<Rightarrow> addr \<Rightarrow> byte list \<Rightarrow> bool" where
  "cstr m p [] \<longleftrightarrow> m p = 0"
| "cstr m p (x # xs) \<longleftrightarrow> x \<noteq> 0 \<and> m p = x \<and> cstr m (Suc p) xs"

lemma cstr_iff:
  "cstr m p xs \<longleftrightarrow> 0 \<notin> set xs \<and> read_bytes m p (length xs) = xs \<and> m (p + length xs) = 0"
  by (induction xs arbitrary: p) (auto simp: read_bytes_Suc)

lemma write_cstr_same: "cstr m p xs \<Longrightarrow> write_bytes m p xs = m"
  by (metis cstr_iff write_read_same)

lemma cstr_nz: "cstr m p xs \<Longrightarrow> 0 \<notin> set xs"
  by (simp add: cstr_iff)

lemma cstr_end: "cstr m p xs \<Longrightarrow> m (p + length xs) = 0"
  by (simp add: cstr_iff)

lemma cstr_nth: "cstr m p xs \<Longrightarrow> i < length xs \<Longrightarrow> m (p + i) = xs ! i \<and> xs ! i \<noteq> 0"
  by (metis cstr_iff nth_mem nth_read_bytes)

lemma cstr_unique: "cstr m p xs \<Longrightarrow> cstr m p ys \<Longrightarrow> xs = ys"
proof (induction xs arbitrary: p ys)
  case Nil
  then show ?case by (cases ys) auto
next
  case (Cons x xs)
  then show ?case by (cases ys) auto
qed

lemma cstr_cong:
  "(\<And>i. i \<le> length xs \<Longrightarrow> m (p + i) = m' (p + i)) \<Longrightarrow> cstr m p xs = cstr m' p xs"
proof (induction xs arbitrary: p)
  case Nil
  then show ?case by (metis add.right_neutral cstr.simps(1) le0)
next
  case (Cons x xs)
  have "m (Suc p + i) = m' (Suc p + i)" if "i \<le> length xs" for i
    using Cons.prems [of "Suc i"] that by simp
  moreover have "m p = m' p"
    using Cons.prems [of 0] by simp
  ultimately show ?case
    using Cons.IH [of "Suc p"] by simp
qed

lemma cstr_drop: "cstr m p xs \<Longrightarrow> k \<le> length xs \<Longrightarrow> cstr m (p + k) (drop k xs)"
proof (induction k arbitrary: p xs)
  case 0
  then show ?case by simp
next
  case (Suc k)
  then obtain x ys where "xs = x # ys" by (cases xs) auto
  with Suc.prems Suc.IH [of "Suc p" ys] show ?case by simp
qed

lemma cstr_write:
  "0 \<notin> set xs \<Longrightarrow> cstr (write_bytes m p (xs @ [0])) p xs"
  using read_write_same [of m p "xs @ [0]"]
  by (auto simp: cstr_iff write_bytes_append write_bytes_def nth_append intro!: nth_equalityI)

lemma cstr_write_disjoint:
  "disjoint_ranges q (length ys) p (Suc (length xs)) \<Longrightarrow>
     cstr (write_bytes m q ys) p xs = cstr m p xs"
  by (rule cstr_cong) (auto simp: disjoint_ranges_def write_bytes_def)

section \<open>Little-endian words in memory\<close>

fun le_word :: "byte list \<Rightarrow> 'a::len word" where
  "le_word [] = 0"
| "le_word (b # bs) = ucast b OR push_bit 8 (le_word bs)"

definition le_bytes :: "nat \<Rightarrow> 'a::len word \<Rightarrow> byte list" where
  "le_bytes n w = map (\<lambda>i. ucast (drop_bit (8 * i) w)) [0..<n]"

definition read16 :: "mem \<Rightarrow> addr \<Rightarrow> u16" where "read16 m a = le_word (read_bytes m a 2)"
definition read32 :: "mem \<Rightarrow> addr \<Rightarrow> u32" where "read32 m a = le_word (read_bytes m a 4)"
definition read64 :: "mem \<Rightarrow> addr \<Rightarrow> u64" where "read64 m a = le_word (read_bytes m a 8)"

lemma length_le_bytes [simp]: "length (le_bytes n w) = n"
  by (simp add: le_bytes_def)

lemma reads_cong:
  assumes "\<And>i. i < n \<Longrightarrow> m' (a + i) = m (a + i)"
  shows "2 \<le> n \<Longrightarrow> read16 m' a = read16 m a" and "4 \<le> n \<Longrightarrow> read32 m' a = read32 m a"
    and "8 \<le> n \<Longrightarrow> read64 m' a = read64 m a"
  unfolding read16_def read32_def read64_def
  using assms by (auto intro!: arg_cong [where f = le_word] read_bytes_cong)

end
