(* ===== verification/Kernel_String.thy ===== *)
theory Kernel_String
  imports Prelude
begin

text \<open>
  The kernel's memory and string routines, \<^verbatim>\<open>kernel/lib/string.c\<close>, over the
  byte memory of the prelude. Each loop is a recursive function: on its counter
  where the C code counts down, and \<^theory_text>\<open>partial_function (option)\<close> where the code runs
  until it meets a NUL, so that a string with no terminator gives \<^const>\<open>None\<close>.
  The locale \<open>block_copy\<close> states what every block-copy routine of the system
  promises; it is interpreted here on \<open>memcpy\<close> and \<open>memmove\<close>, and on the copies
  of the C library and of the ELF loader in their own theories.
\<close>

section \<open>Memory routines\<close>

fun memcpy_loop :: "mem \<Rightarrow> addr \<Rightarrow> addr \<Rightarrow> nat \<Rightarrow> mem" where
  "memcpy_loop m d s 0 = m"
| "memcpy_loop m d s (Suc n) = memcpy_loop (m(d := m s)) (d + 1) (s + 1) n"

definition memcpy :: "mem \<Rightarrow> addr \<Rightarrow> addr \<Rightarrow> nat \<Rightarrow> mem \<times> addr" where
  "memcpy m dest src n = (memcpy_loop m dest src n, dest)"

fun memset_loop :: "mem \<Rightarrow> addr \<Rightarrow> byte \<Rightarrow> nat \<Rightarrow> mem" where
  "memset_loop m p c 0 = m"
| "memset_loop m p c (Suc n) = memset_loop (m(p := c)) (p + 1) c n"

text \<open>The \<^verbatim>\<open>int\<close> argument is cast to \<^verbatim>\<open>uint8_t\<close>.\<close>

definition memset :: "mem \<Rightarrow> addr \<Rightarrow> int \<Rightarrow> nat \<Rightarrow> mem \<times> addr" where
  "memset m s c n = (memset_loop m s (word_of_int c) n, s)"

text \<open>The downward loop of \<open>memmove\<close>: both pointers are decremented before the access.\<close>

fun memmove_down :: "mem \<Rightarrow> addr \<Rightarrow> addr \<Rightarrow> nat \<Rightarrow> mem" where
  "memmove_down m d s 0 = m"
| "memmove_down m d s (Suc n) =
     (let d = d - 1; s = s - 1 in memmove_down (m(d := m s)) d s n)"

definition memmove :: "mem \<Rightarrow> addr \<Rightarrow> addr \<Rightarrow> nat \<Rightarrow> mem \<times> addr" where
  "memmove m dest src n =
     (if dest < src then memcpy_loop m dest src n
      else memmove_down m (dest + n) (src + n) n, dest)"

fun memcmp :: "mem \<Rightarrow> addr \<Rightarrow> addr \<Rightarrow> nat \<Rightarrow> int" where
  "memcmp m s1 s2 0 = 0"
| "memcmp m s1 s2 (Suc n) =
     (if m s1 \<noteq> m s2 then uint (m s1) - uint (m s2)
      else memcmp m (s1 + 1) (s2 + 1) n)"

section \<open>String routines\<close>

partial_function (option) strlen_loop :: "mem \<Rightarrow> addr \<Rightarrow> nat \<Rightarrow> nat option" where
  "strlen_loop m s len = (if m (s + len) \<noteq> 0 then strlen_loop m s (len + 1) else Some len)"

definition strlen :: "mem \<Rightarrow> addr \<Rightarrow> nat option" where
  "strlen m s = strlen_loop m s 0"

text \<open>
  \<open>strncpy\<close> has two \<^verbatim>\<open>for\<close> loops over the same index; the first argument counts the
  iterations the bound \<open>n\<close> still allows.
\<close>

fun strncpy_copy :: "nat \<Rightarrow> mem \<Rightarrow> addr \<Rightarrow> addr \<Rightarrow> nat \<Rightarrow> mem \<times> nat" where
  "strncpy_copy 0 m dest src i = (m, i)"
| "strncpy_copy (Suc k) m dest src i =
     (if m (src + i) \<noteq> 0
      then strncpy_copy k (m(dest + i := m (src + i))) dest src (i + 1)
      else (m, i))"

fun strncpy_pad :: "nat \<Rightarrow> mem \<Rightarrow> addr \<Rightarrow> nat \<Rightarrow> mem" where
  "strncpy_pad 0 m dest i = m"
| "strncpy_pad (Suc k) m dest i = strncpy_pad k (m(dest + i := 0)) dest (i + 1)"

definition strncpy :: "mem \<Rightarrow> addr \<Rightarrow> addr \<Rightarrow> nat \<Rightarrow> mem \<times> addr" where
  "strncpy m dest src n =
     (case strncpy_copy n m dest src 0 of
        (m', i) \<Rightarrow> (strncpy_pad (n - i) m' dest i, dest))"

definition strcpy :: "mem \<Rightarrow> addr \<Rightarrow> addr \<Rightarrow> (mem \<times> addr) option" where
  "strcpy m dest src =
     (case strlen m src of
        None \<Rightarrow> None
      | Some src_len \<Rightarrow>
          let src_len = (if src_len > 4095 then 4095 else src_len)
          in Some (fst (strncpy m dest src (src_len + 1)), dest))"

partial_function (option) strcmp :: "mem \<Rightarrow> addr \<Rightarrow> addr \<Rightarrow> int option" where
  "strcmp m s1 s2 =
     (if m s1 \<noteq> 0 \<and> m s1 = m s2 then strcmp m (s1 + 1) (s2 + 1)
      else Some (uint (m s1) - uint (m s2)))"

text \<open>
  \<open>strncmp\<close> leaves its loop in one of two ways: \<open>n--\<close> was zero, and then \<open>n\<close> has wrapped
  to \<^verbatim>\<open>(size_t)-1\<close> and the result is 0, or the bytes at the pointers stopped it.
\<close>

fun strncmp_loop :: "mem \<Rightarrow> addr \<Rightarrow> addr \<Rightarrow> nat \<Rightarrow> int" where
  "strncmp_loop m s1 s2 0 = 0"
| "strncmp_loop m s1 s2 (Suc n) =
     (if m s1 \<noteq> 0 \<and> m s1 = m s2 then strncmp_loop m (s1 + 1) (s2 + 1) n
      else uint (m s1) - uint (m s2))"

definition strncmp :: "mem \<Rightarrow> addr \<Rightarrow> addr \<Rightarrow> nat \<Rightarrow> int" where
  "strncmp m s1 s2 n = (if n = 0 then 0 else strncmp_loop m s1 s2 n)"

section \<open>The contract of block-copy routines\<close>

text \<open>
  A routine that copies \<open>n\<close> bytes from \<open>src\<close> to \<open>dest\<close> writes exactly the destination
  range and, when the ranges do not overlap, leaves there the bytes of the source.
\<close>

locale block_copy =
  fixes copy :: "mem \<Rightarrow> addr \<Rightarrow> addr \<Rightarrow> nat \<Rightarrow> mem \<times> addr"
  assumes copy_disjoint: "disjoint_ranges d n s n \<Longrightarrow>
      fst (copy m d s n) = write_bytes m d (read_bytes m s n)"
    and copy_returns: "snd (copy m d s n) = d"
begin

lemma copy_reads_back:
  "disjoint_ranges d n s n \<Longrightarrow> read_bytes (fst (copy m d s n)) d n = read_bytes m s n"
  using read_write_same [of m d "read_bytes m s n"] by (simp add: copy_disjoint)

lemma copy_source_kept:
  "disjoint_ranges d n s n \<Longrightarrow> read_bytes (fst (copy m d s n)) s n = read_bytes m s n"
  by (simp add: copy_disjoint read_write_disjoint)

lemma copy_cstr:
  assumes "cstr m s xs" and "disjoint_ranges d (Suc (length xs)) s (Suc (length xs))"
  shows "cstr (fst (copy m d s (Suc (length xs)))) d xs"
proof -
  have "read_bytes m s (Suc (length xs)) = xs @ [0]"
    using assms(1) read_bytes_add [of m s "length xs" 1]
    by (simp add: cstr_iff read_bytes_Suc)
  then show ?thesis
    using assms cstr_write [of xs m d] by (simp add: copy_disjoint cstr_nz)
qed

lemma copy_keeps_cstr:
  "disjoint_ranges d n s n \<Longrightarrow> disjoint_ranges d n q (Suc (length xs)) \<Longrightarrow>
     cstr (fst (copy m d s n)) q xs = cstr m q xs"
  by (simp add: copy_disjoint cstr_write_disjoint)

end

text \<open>A move copies correctly whether or not the ranges overlap.\<close>

locale block_move =
  fixes move :: "mem \<Rightarrow> addr \<Rightarrow> addr \<Rightarrow> nat \<Rightarrow> mem \<times> addr"
  assumes move_any: "fst (move m d s n) = write_bytes m d (read_bytes m s n)"
    and move_returns: "snd (move m d s n) = d"
begin

sublocale copies: block_copy move
  by unfold_locales (simp_all add: move_any move_returns)

end

section \<open>Copying and filling\<close>

lemma memcpy_loop_upward:
  "d + n \<le> s \<or> s + n \<le> d \<or> d \<le> s \<Longrightarrow>
     memcpy_loop m d s n = write_bytes m d (read_bytes m s n)"
proof (induction n arbitrary: m d s)
  case 0
  then show ?case by simp
next
  case (Suc n)
  have same: "read_bytes (m(d := m s)) (Suc s) n = read_bytes m (Suc s) n"
    using Suc.prems by (intro read_bytes_cong) auto
  have "memcpy_loop (m(d := m s)) (Suc d) (Suc s) n
      = write_bytes (m(d := m s)) (Suc d) (read_bytes (m(d := m s)) (Suc s) n)"
    using Suc.prems by (intro Suc.IH) auto
  then show ?case
    by (simp add: same read_bytes_Suc write_bytes_Cons)
qed

lemma read_bytes_snoc: "read_bytes m p (Suc n) = read_bytes m p n @ [m (p + n)]"
  using read_bytes_add [of m p n 1] by (simp add: read_bytes_Suc)

lemma memmove_down_eq:
  "s \<le> d \<Longrightarrow> memmove_down m (d + n) (s + n) n = write_bytes m d (read_bytes m s n)"
proof (induction n arbitrary: m)
  case 0
  then show ?case by simp
next
  case (Suc n)
  have same: "read_bytes (m(d + n := m (s + n))) s n = read_bytes m s n"
    using Suc.prems by (intro read_bytes_cong) auto
  have "memmove_down m (d + Suc n) (s + Suc n) (Suc n)
      = memmove_down (m(d + n := m (s + n))) (d + n) (s + n) n"
    by (simp add: Let_def)
  also have "\<dots> = write_bytes (m(d + n := m (s + n))) d (read_bytes m s n)"
    using Suc by (simp add: same)
  also have "\<dots> = write_bytes m d (read_bytes m s (Suc n))"
    by (rule ext) (auto simp: write_bytes_def read_bytes_snoc nth_append)
  finally show ?case .
qed

interpretation kernel_memcpy: block_copy memcpy
  by unfold_locales (auto simp: memcpy_def memcpy_loop_upward disjoint_ranges_def)

interpretation kernel_memmove: block_move memmove
  by unfold_locales (auto simp: memmove_def memcpy_loop_upward memmove_down_eq)

lemma memset_loop_eq: "memset_loop m p c n = write_bytes m p (replicate n c)"
  by (induction n arbitrary: m p) (simp_all add: write_bytes_Cons)

lemma memset_eq: "fst (memset m s c n) = write_bytes m s (replicate n (word_of_int c))"
  by (simp add: memset_def memset_loop_eq)

section \<open>Lengths and comparisons\<close>

lemma strlen_loop_cstr: "cstr m (s + len) xs \<Longrightarrow> strlen_loop m s len = Some (len + length xs)"
proof (induction xs arbitrary: len)
  case Nil
  then show ?case by (simp add: strlen_loop.simps)
next
  case (Cons x xs)
  then have "strlen_loop m s (len + 1) = Some (len + 1 + length xs)"
    by (intro Cons.IH) simp
  with Cons.prems show ?case by (simp add: strlen_loop.simps [of m s len])
qed

lemma strlen_cstr: "cstr m s xs \<Longrightarrow> strlen m s = Some (length xs)"
  using strlen_loop_cstr [of m s 0 xs] by (simp add: strlen_def)

lemma strlen_loop_Some:
  assumes "strlen_loop m s len = Some k"
  shows "len \<le> k \<and> m (s + k) = 0 \<and> (\<forall>j. len \<le> j \<and> j < k \<longrightarrow> m (s + j) \<noteq> 0)"
proof (rule strlen_loop.raw_induct
    [where P = "\<lambda>m s len k. len \<le> k \<and> m (s + k) = 0 \<and> (\<forall>j. len \<le> j \<and> j < k \<longrightarrow> m (s + j) \<noteq> 0)",
      OF _ assms])
  fix f :: "mem \<Rightarrow> addr \<Rightarrow> nat \<Rightarrow> nat option" and m s len k
  assume IH: "\<And>m s len k. f m s len = Some k \<Longrightarrow>
      len \<le> k \<and> m (s + k) = 0 \<and> (\<forall>j. len \<le> j \<and> j < k \<longrightarrow> m (s + j) \<noteq> 0)"
    and eq: "(if m (s + len) \<noteq> 0 then f m s (len + 1) else Some len) = Some k"
  show "len \<le> k \<and> m (s + k) = 0 \<and> (\<forall>j. len \<le> j \<and> j < k \<longrightarrow> m (s + j) \<noteq> 0)"
  proof (cases "m (s + len) = 0")
    case True
    with eq show ?thesis by auto
  next
    case False
    with eq IH [of m s "len + 1" k] show ?thesis
      by (auto simp: Suc_le_eq) (metis le_neq_implies_less)
  qed
qed

text \<open>The reference comparison: the difference at the first position where the strings differ.\<close>

fun byte_cmp :: "byte list \<Rightarrow> byte list \<Rightarrow> int" where
  "byte_cmp [] [] = 0"
| "byte_cmp [] (y # ys) = - uint y"
| "byte_cmp (x # xs) [] = uint x"
| "byte_cmp (x # xs) (y # ys) = (if x = y then byte_cmp xs ys else uint x - uint y)"

lemma uint_diff_0 [simp]: "uint (x :: byte) = uint y \<longleftrightarrow> x = y"
  by (simp add: word_uint_eq_iff)

lemma byte_cmp_0: "0 \<notin> set xs \<Longrightarrow> 0 \<notin> set ys \<Longrightarrow> byte_cmp xs ys = 0 \<longleftrightarrow> xs = ys"
  by (induction xs ys rule: byte_cmp.induct) (auto simp: uint_0_iff)

lemma byte_cmp_sym: "byte_cmp ys xs = - byte_cmp xs ys"
  by (induction xs ys rule: byte_cmp.induct) auto

lemma strcmp_cstr: "cstr m p xs \<Longrightarrow> cstr m q ys \<Longrightarrow> strcmp m p q = Some (byte_cmp xs ys)"
proof (induction xs ys arbitrary: p q rule: byte_cmp.induct)
  case (4 x xs y ys)
  then show ?case
    by (cases "x = y") (auto simp: strcmp.simps [of m p q])
qed (auto simp: strcmp.simps)

lemma strncmp_loop_cstr:
  "cstr m p xs \<Longrightarrow> cstr m q ys \<Longrightarrow> strncmp_loop m p q n = byte_cmp (take n xs) (take n ys)"
proof (induction xs ys arbitrary: p q n rule: byte_cmp.induct)
  case (4 x xs y ys)
  then show ?case by (cases n; cases "x = y") auto
qed (auto split: nat.splits intro: nat.exhaust; case_tac n; auto)+

section \<open>String copies\<close>

lemma strncpy_copy_cstr:
  "cstr m (s + i) ys \<Longrightarrow> disjoint_ranges (d + i) k (s + i) (Suc (length ys)) \<Longrightarrow>
     strncpy_copy k m d s i = (write_bytes m (d + i) (take k ys), i + min k (length ys))"
proof (induction k arbitrary: m i ys)
  case 0
  then show ?case by simp
next
  case (Suc k)
  show ?case
  proof (cases ys)
    case Nil
    with Suc.prems show ?thesis by simp
  next
    case (Cons y zs)
    let ?m = "m(d + i := y)"
    have "m (s + i + j) = ?m (s + i + j)" if "j \<le> length ys" for j
      using Suc.prems(2) that by (auto simp: disjoint_ranges_def)
    then have "cstr ?m (s + i) ys"
      using Suc.prems(1) cstr_cong [of ys m "s + i" ?m] by blast
    then have "cstr ?m (s + (i + 1)) zs"
      using Cons by simp
    moreover have "disjoint_ranges (d + (i + 1)) k (s + (i + 1)) (Suc (length zs))"
      using Cons Suc.prems(2) by (auto simp: disjoint_ranges_def)
    ultimately have "strncpy_copy k ?m d s (i + 1)
        = (write_bytes ?m (d + (i + 1)) (take k zs), i + 1 + min k (length zs))"
      by (rule Suc.IH)
    with Cons Suc.prems(1) show ?thesis by (simp add: write_bytes_Cons)
  qed
qed

lemma strncpy_pad_eq: "strncpy_pad k m d i = write_bytes m (d + i) (replicate k 0)"
  by (induction k arbitrary: m i) (simp_all add: write_bytes_Cons)

lemma strncpy_cstr:
  assumes "cstr m src xs" and "disjoint_ranges dest n src (Suc (length xs))"
  shows "strncpy m dest src n
       = (write_bytes m dest (take n xs @ replicate (n - length xs) 0), dest)"
proof -
  have "strncpy_copy n m dest src 0 = (write_bytes m dest (take n xs), min n (length xs))"
    using strncpy_copy_cstr [of m src 0 xs dest n] assms by simp
  then show ?thesis
    by (cases "n \<le> length xs")
      (simp_all add: strncpy_def strncpy_pad_eq write_bytes_append min_def)
qed

lemma strcpy_cstr:
  assumes "cstr m src xs"
    and "disjoint_ranges dest (min (Suc (length xs)) 4096) src (Suc (length xs))"
  shows "strcpy m dest src = Some (write_bytes m dest (take 4096 (xs @ [0])), dest)"
proof (cases "length xs > 4095")
  case True
  with assms have "strncpy m dest src 4096 = (write_bytes m dest (take 4096 xs), dest)"
    by (subst strncpy_cstr [OF assms(1)]) auto
  with True assms(1) show ?thesis by (simp add: strcpy_def strlen_cstr Let_def)
next
  case False
  with assms have "strncpy m dest src (Suc (length xs)) = (write_bytes m dest (xs @ [0]), dest)"
    by (subst strncpy_cstr [OF assms(1)]) auto
  with False assms(1) show ?thesis by (simp add: strcpy_def strlen_cstr Let_def)
qed

section \<open>Properties\<close>

text \<open>C23. \<open>memmove\<close> moves \<open>n\<close> bytes correctly for every pair of ranges, overlapping or
  not: the destination ends up with the bytes the source had, no other byte changes, and the
  destination pointer is returned.\<close>

theorem memmove_correct:
  "memmove m dest src n = (write_bytes m dest (read_bytes m src n), dest)"
  using kernel_memmove.move_any kernel_memmove.move_returns by (metis prod.collapse)

text \<open>On two NUL-terminated strings \<open>strcmp\<close> returns, its result is zero exactly when
  the strings are equal, and swapping the arguments negates it.\<close>

theorem strcmp_decides_equality:
  assumes "cstr m p xs" and "cstr m q ys"
  shows "\<exists>r. strcmp m p q = Some r \<and> strcmp m q p = Some (- r) \<and> (r = 0 \<longleftrightarrow> xs = ys)"
  using strcmp_cstr [OF assms] strcmp_cstr [OF assms(2,1)] byte_cmp_sym [of ys xs]
    byte_cmp_0 [OF cstr_nz [OF assms(1)] cstr_nz [OF assms(2)]]
  by auto

definition sample_strings :: mem where
  "sample_strings = write_bytes (\<lambda>_. 0) 100 [97, 98, 0, 97, 99, 0]"

lemma strcmp_decides_equality_witness:
  "cstr sample_strings 100 [97, 98] \<and> cstr sample_strings 103 [97, 99] \<and>
   (\<exists>r. strcmp sample_strings 100 103 = Some r \<and> strcmp sample_strings 103 100 = Some (- r) \<and>
        (r = 0 \<longleftrightarrow> [97, 98] = [97, 99 :: byte]))"
proof -
  have "cstr sample_strings 100 [97, 98]" "cstr sample_strings 103 [97, 99]"
    by (simp_all add: sample_strings_def write_bytes_def)
  then show ?thesis using strcmp_decides_equality by blast
qed

text \<open>\<open>strcpy\<close> copies a string of up to 4095 bytes with its terminator; a longer one
  is cut to its first 4096 bytes and the copy has no terminator inside the bytes written.\<close>

theorem strcpy_limits:
  assumes "cstr m src xs"
    and "disjoint_ranges dest (min (Suc (length xs)) 4096) src (Suc (length xs))"
  shows "\<exists>m'. strcpy m dest src = Some (m', dest) \<and>
     (\<forall>a. a < dest \<or> dest + 4096 \<le> a \<longrightarrow> m' a = m a) \<and>
     (if length xs \<le> 4095 then cstr m' dest xs
      else read_bytes m' dest 4096 = take 4096 xs \<and> 0 \<notin> set (read_bytes m' dest 4096))"
proof -
  let ?m = "write_bytes m dest (take 4096 (xs @ [0]))"
  have "read_bytes ?m dest 4096 = take 4096 xs" if "length xs > 4095"
    using read_write_same [of m dest "take 4096 xs"] that by simp
  moreover have "0 \<notin> set (take 4096 xs)"
    using cstr_nz [OF assms(1)] by (meson in_set_takeD)
  moreover have "cstr ?m dest xs" if "length xs \<le> 4095"
    using that cstr_write [OF cstr_nz [OF assms(1)]] by simp
  ultimately show ?thesis
    using strcpy_cstr [OF assms] by (auto simp: write_bytes_outside)
qed

lemma strcpy_limits_witness:
  "\<exists>m'. strcpy sample_strings 200 100 = Some (m', 200) \<and> cstr m' 200 [97, 98]"
proof -
  have "cstr sample_strings 100 [97, 98]"
    by (simp add: sample_strings_def write_bytes_def)
  from strcpy_limits [OF this, of 200] show ?thesis
    by (auto simp: disjoint_ranges_def)
qed

end
