(* ===== verification/Libc_String.thy ===== *)
theory Libc_String
  imports Kernel_String
begin

text \<open>
  The user-space C library's string functions, \<^verbatim>\<open>libc/src/string.c\<close>. The names carry the
  prefix \<open>libc_\<close> where the kernel has a function of the same name. The block routines are
  further instances of the contracts of \<^verbatim>\<open>Kernel_String\<close>; the string routines are proved
  against list functions on the strings the pointers stand for.
\<close>

section \<open>Memory functions\<close>

definition libc_memcpy :: "mem \<Rightarrow> addr \<Rightarrow> addr \<Rightarrow> nat \<Rightarrow> mem \<times> addr" where
  "libc_memcpy m dest src n = (memcpy_loop m dest src n, dest)"

definition libc_memmove :: "mem \<Rightarrow> addr \<Rightarrow> addr \<Rightarrow> nat \<Rightarrow> mem \<times> addr" where
  "libc_memmove m dest src n =
     (if dest < src then memcpy_loop m dest src n
      else memmove_down m (dest + n) (src + n) n, dest)"

definition libc_memset :: "mem \<Rightarrow> addr \<Rightarrow> int \<Rightarrow> nat \<Rightarrow> mem \<times> addr" where
  "libc_memset m s c n = (memset_loop m s (word_of_int c) n, s)"

fun libc_memcmp :: "mem \<Rightarrow> addr \<Rightarrow> addr \<Rightarrow> nat \<Rightarrow> int" where
  "libc_memcmp m p1 p2 0 = 0"
| "libc_memcmp m p1 p2 (Suc n) =
     (if m p1 \<noteq> m p2 then uint (m p1) - uint (m p2)
      else libc_memcmp m (p1 + 1) (p2 + 1) n)"

fun memchr_loop :: "mem \<Rightarrow> addr \<Rightarrow> byte \<Rightarrow> nat \<Rightarrow> addr option" where
  "memchr_loop m p c 0 = None"
| "memchr_loop m p c (Suc n) = (if m p = c then Some p else memchr_loop m (p + 1) c n)"

definition memchr :: "mem \<Rightarrow> addr \<Rightarrow> int \<Rightarrow> nat \<Rightarrow> addr option" where
  "memchr m s c n = memchr_loop m s (word_of_int c) n"

definition bzero :: "mem \<Rightarrow> addr \<Rightarrow> nat \<Rightarrow> mem" where
  "bzero m s n = fst (libc_memset m s 0 n)"

section \<open>Lengths and copies\<close>

text \<open>\<^verbatim>\<open>while (*p) p++;\<close> shared by \<open>strlen\<close>, \<open>strcat\<close> and \<open>strncat\<close>.\<close>

partial_function (option) skip_to_nul :: "mem \<Rightarrow> addr \<Rightarrow> addr option" where
  "skip_to_nul m p = (if m p \<noteq> 0 then skip_to_nul m (p + 1) else Some p)"

definition libc_strlen :: "mem \<Rightarrow> addr \<Rightarrow> nat option" where
  "libc_strlen m s = map_option (\<lambda>p. p - s) (skip_to_nul m s)"

fun strnlen_loop :: "nat \<Rightarrow> mem \<Rightarrow> addr \<Rightarrow> nat \<Rightarrow> nat" where
  "strnlen_loop 0 m s len = len"
| "strnlen_loop (Suc k) m s len = (if m (s + len) \<noteq> 0 then strnlen_loop k m s (len + 1) else len)"

definition strnlen :: "mem \<Rightarrow> addr \<Rightarrow> nat \<Rightarrow> nat" where
  "strnlen m s maxlen = strnlen_loop maxlen m s 0"

text \<open>\<^verbatim>\<open>while ((*d++ = *src++));\<close> the byte is stored before it is tested.\<close>

partial_function (option) copy_to_nul :: "mem \<Rightarrow> addr \<Rightarrow> addr \<Rightarrow> mem option" where
  "copy_to_nul m d s =
     (if m s \<noteq> 0 then copy_to_nul (m(d := m s)) (d + 1) (s + 1) else Some (m(d := 0)))"

definition libc_strcpy :: "mem \<Rightarrow> addr \<Rightarrow> addr \<Rightarrow> (mem \<times> addr) option" where
  "libc_strcpy m dest src = map_option (\<lambda>m'. (m', dest)) (copy_to_nul m dest src)"

text \<open>
  The first loop of \<open>strncpy\<close>, \<^verbatim>\<open>while (n && (*d++ = *src++)) n--;\<close>: when the terminator is
  stored, \<open>d\<close> has moved past it but \<open>n\<close> is not decremented.
\<close>

fun libc_strncpy_copy :: "nat \<Rightarrow> mem \<Rightarrow> addr \<Rightarrow> addr \<Rightarrow> mem \<times> addr \<times> nat" where
  "libc_strncpy_copy 0 m d s = (m, d, 0)"
| "libc_strncpy_copy (Suc n) m d s =
     (if m s \<noteq> 0 then libc_strncpy_copy n (m(d := m s)) (d + 1) (s + 1)
      else (m(d := 0), d + 1, Suc n))"

definition libc_strncpy :: "mem \<Rightarrow> addr \<Rightarrow> addr \<Rightarrow> nat \<Rightarrow> mem \<times> addr" where
  "libc_strncpy m dest src n =
     (case libc_strncpy_copy n m dest src of
        (m', d, n') \<Rightarrow> (memset_loop m' d 0 n', dest))"

definition libc_strcat :: "mem \<Rightarrow> addr \<Rightarrow> addr \<Rightarrow> (mem \<times> addr) option" where
  "libc_strcat m dest src =
     (case skip_to_nul m dest of
        None \<Rightarrow> None
      | Some d \<Rightarrow> map_option (\<lambda>m'. (m', dest)) (copy_to_nul m d src))"

fun strncat_loop :: "nat \<Rightarrow> mem \<Rightarrow> addr \<Rightarrow> addr \<Rightarrow> mem" where
  "strncat_loop 0 m d s = m"
| "strncat_loop (Suc n) m d s =
     (if m s \<noteq> 0
      then let m' = m(d := m s);
               m'' = (if n = 0 then m'(d + 1 := 0) else m')
           in strncat_loop n m'' (d + 1) (s + 1)
      else m(d := 0))"

definition libc_strncat :: "mem \<Rightarrow> addr \<Rightarrow> addr \<Rightarrow> nat \<Rightarrow> (mem \<times> addr) option" where
  "libc_strncat m dest src n =
     map_option (\<lambda>d. (strncat_loop n m d src, dest)) (skip_to_nul m dest)"

section \<open>Comparisons\<close>

partial_function (option) libc_strcmp :: "mem \<Rightarrow> addr \<Rightarrow> addr \<Rightarrow> int option" where
  "libc_strcmp m s1 s2 =
     (if m s1 \<noteq> 0 \<and> m s1 = m s2 then libc_strcmp m (s1 + 1) (s2 + 1)
      else Some (uint (m s1) - uint (m s2)))"

text \<open>\<^verbatim>\<open>while (--n && ...)\<close>: the counter is decremented before it is tested.\<close>

fun libc_strncmp :: "mem \<Rightarrow> addr \<Rightarrow> addr \<Rightarrow> nat \<Rightarrow> int" where
  "libc_strncmp m s1 s2 0 = 0"
| "libc_strncmp m s1 s2 (Suc n) =
     (if n \<noteq> 0 \<and> m s1 \<noteq> 0 \<and> m s1 = m s2 then libc_strncmp m (s1 + 1) (s2 + 1) n
      else uint (m s1) - uint (m s2))"

definition tolower :: "int \<Rightarrow> int" where
  "tolower c = (if c \<ge> 65 \<and> c \<le> 90 then c + (97 - 65) else c)"

text \<open>
  The loop applies \<open>tolower\<close> to plain \<^verbatim>\<open>char\<close> values; whether they are read as signed or
  unsigned does not matter, because \<open>tolower\<close> moves only the ASCII capitals.
\<close>

partial_function (option) strcasecmp :: "mem \<Rightarrow> addr \<Rightarrow> addr \<Rightarrow> int option" where
  "strcasecmp m s1 s2 =
     (if m s1 \<noteq> 0 \<and> tolower (uint (m s1)) = tolower (uint (m s2))
      then strcasecmp m (s1 + 1) (s2 + 1)
      else Some (tolower (uint (m s1)) - tolower (uint (m s2))))"

fun strncasecmp :: "mem \<Rightarrow> addr \<Rightarrow> addr \<Rightarrow> nat \<Rightarrow> int" where
  "strncasecmp m s1 s2 0 = 0"
| "strncasecmp m s1 s2 (Suc n) =
     (if n \<noteq> 0 \<and> m s1 \<noteq> 0 \<and> tolower (uint (m s1)) = tolower (uint (m s2))
      then strncasecmp m (s1 + 1) (s2 + 1) n
      else tolower (uint (m s1)) - tolower (uint (m s2)))"

section \<open>Searches\<close>

text \<open>The outer option is "does not return", the inner one the returned pointer.\<close>

partial_function (option) strchr :: "mem \<Rightarrow> addr \<Rightarrow> int \<Rightarrow> addr option option" where
  "strchr m s c =
     (if m s \<noteq> 0 then (if m s = word_of_int c then Some (Some s) else strchr m (s + 1) c)
      else Some (if c = 0 then Some s else None))"

partial_function (option) strrchr_loop ::
    "mem \<Rightarrow> addr \<Rightarrow> int \<Rightarrow> addr option \<Rightarrow> addr option option" where
  "strrchr_loop m s c found =
     (if m s \<noteq> 0 then strrchr_loop m (s + 1) c (if m s = word_of_int c then Some s else found)
      else Some (if c = 0 then Some s else found))"

definition strrchr :: "mem \<Rightarrow> addr \<Rightarrow> int \<Rightarrow> addr option option" where
  "strrchr m s c = strrchr_loop m s c None"

partial_function (option) strstr_loop ::
    "mem \<Rightarrow> addr \<Rightarrow> addr \<Rightarrow> nat \<Rightarrow> addr option option" where
  "strstr_loop m haystack needle needle_len =
     (if m haystack \<noteq> 0
      then if libc_strncmp m haystack needle needle_len = 0 then Some (Some haystack)
           else strstr_loop m (haystack + 1) needle needle_len
      else Some None)"

definition strstr :: "mem \<Rightarrow> addr \<Rightarrow> addr \<Rightarrow> addr option option" where
  "strstr m haystack needle =
     (case libc_strlen m needle of
        None \<Rightarrow> None
      | Some needle_len \<Rightarrow>
          if needle_len = 0 then Some (Some haystack)
          else strstr_loop m haystack needle needle_len)"

section \<open>Error strings\<close>

definition error_strings :: "string list" where
  "error_strings =
     [''Success'', ''Operation not permitted'', ''No such file or directory'',
      ''No such process'', ''Interrupted system call'', ''I/O error'',
      ''No such device or address'', ''Argument list too long'', ''Exec format error'',
      ''Bad file number'', ''No child processes'', ''Try again'', ''Out of memory'',
      ''Permission denied'']"

text \<open>The \<^verbatim>\<open>do ... while\<close> loop that fills \<open>num\<close>, least significant digit first.\<close>

function num_digits :: "nat \<Rightarrow> char list" where
  "num_digits n =
     char_of (48 + n mod 10) # (if n div 10 > 0 then num_digits (n div 10) else [])"
  by pat_completeness auto
termination by (relation "measure id") auto

declare num_digits.simps [simp del]

definition strerror :: "int \<Rightarrow> string" where
  "strerror errnum =
     (if errnum \<ge> 0 \<and> errnum < int (length error_strings) then error_strings ! nat errnum
      else ''Unknown error '' @ (if errnum < 0 then ''-'' else []) @ rev (num_digits (nat \<bar>errnum\<bar>)))"

section \<open>Block routines meet the shared contracts\<close>

interpretation user_memcpy: block_copy libc_memcpy
  by unfold_locales (auto simp: libc_memcpy_def memcpy_loop_upward disjoint_ranges_def)

interpretation user_memmove: block_move libc_memmove
  by unfold_locales (auto simp: libc_memmove_def memcpy_loop_upward memmove_down_eq)

lemma bzero_eq: "bzero m s n = write_bytes m s (replicate n 0)"
  by (simp add: bzero_def libc_memset_def memset_loop_eq)

lemma libc_memcmp_kernel: "libc_memcmp m p q n = memcmp m p q n"
  by (induction n arbitrary: p q) auto

lemma memcmp_0: "memcmp m p q n = 0 \<longleftrightarrow> read_bytes m p n = read_bytes m q n"
  by (induction n arbitrary: p q) (auto simp: read_bytes_Suc)

lemma memchr_loop_eq:
  "memchr_loop m p c n =
     (if c \<in> set (read_bytes m p n)
      then Some (p + length (takeWhile (\<lambda>x. x \<noteq> c) (read_bytes m p n))) else None)"
  by (induction n arbitrary: p) (auto simp: read_bytes_Suc)

section \<open>String routines against list functions\<close>

lemma skip_to_nul_cstr: "cstr m p xs \<Longrightarrow> skip_to_nul m p = Some (p + length xs)"
proof (induction xs arbitrary: p)
  case Nil
  then show ?case by (simp add: skip_to_nul.simps)
next
  case (Cons x xs)
  then show ?case by (simp add: skip_to_nul.simps [of m p])
qed

lemma libc_strlen_cstr: "cstr m s xs \<Longrightarrow> libc_strlen m s = Some (length xs)"
  by (simp add: libc_strlen_def skip_to_nul_cstr)

lemma strnlen_loop_cstr: "cstr m (s + len) xs \<Longrightarrow> strnlen_loop k m s len = len + min k (length xs)"
proof (induction k arbitrary: len xs)
  case 0
  then show ?case by simp
next
  case (Suc k)
  then show ?case by (cases xs) auto
qed

lemma strnlen_cstr: "cstr m s xs \<Longrightarrow> strnlen m s maxlen = min maxlen (length xs)"
  using strnlen_loop_cstr [of m s 0] by (simp add: strnlen_def)

lemma cstr_upd_outside:
  "a < p \<or> p + length xs < a \<Longrightarrow> cstr (m(a := b)) p xs = cstr m p xs"
  by (rule cstr_cong) auto

lemma copy_to_nul_cstr:
  "cstr m s xs \<Longrightarrow> d + length xs < s \<or> s + length xs < d \<Longrightarrow>
     copy_to_nul m d s = Some (write_bytes m d (xs @ [0]))"
proof (induction xs arbitrary: m d s)
  case Nil
  then show ?case by (simp add: copy_to_nul.simps write_bytes_Cons fun_upd_def)
next
  case (Cons x xs)
  have "cstr (m(d := x)) (s + 1) xs"
    using Cons.prems by (subst cstr_upd_outside) auto
  then have "copy_to_nul (m(d := x)) (d + 1) (s + 1) = Some (write_bytes (m(d := x)) (d + 1) (xs @ [0]))"
    using Cons.prems by (intro Cons.IH) (auto simp: fun_upd_def)
  with Cons.prems show ?case
    by (simp add: copy_to_nul.simps [of m d s] write_bytes_Cons)
qed

lemma libc_strncpy_copy_cstr:
  "cstr m s xs \<Longrightarrow> disjoint_ranges d n s (Suc (length xs)) \<Longrightarrow>
     libc_strncpy_copy n m d s =
       (if n \<le> length xs then (write_bytes m d (take n xs), d + n, 0)
        else (write_bytes m d (xs @ [0]), d + length xs + 1, n - length xs))"
proof (induction n arbitrary: m d s xs)
  case 0
  then show ?case by simp
next
  case (Suc n)
  show ?case
  proof (cases xs)
    case Nil
    with Suc.prems show ?thesis by (simp add: write_bytes_Cons)
  next
    case (Cons x ys)
    have "cstr (m(d := x)) (s + 1) ys"
      using Suc.prems Cons by (subst cstr_upd_outside) (auto simp: disjoint_ranges_def)
    moreover have "disjoint_ranges (d + 1) n (s + 1) (Suc (length ys))"
      using Suc.prems Cons by (auto simp: disjoint_ranges_def)
    ultimately have "libc_strncpy_copy n (m(d := x)) (d + 1) (s + 1) =
       (if n \<le> length ys then (write_bytes (m(d := x)) (d + 1) (take n ys), d + 1 + n, 0)
        else (write_bytes (m(d := x)) (d + 1) (ys @ [0]), d + 1 + length ys + 1, n - length ys))"
      by (rule Suc.IH)
    with Cons Suc.prems(1) show ?thesis by (simp add: write_bytes_Cons)
  qed
qed

lemma libc_strncpy_cstr:
  assumes "cstr m src xs" and "disjoint_ranges dest n src (Suc (length xs))"
  shows "libc_strncpy m dest src n =
    (if n \<le> length xs then (write_bytes m dest (take n xs), dest)
     else (write_bytes m dest (xs @ replicate (n - length xs + 1) 0), dest))"
proof (cases "n \<le> length xs")
  case True
  with libc_strncpy_copy_cstr [OF assms] show ?thesis by (simp add: libc_strncpy_def)
next
  case False
  have "write_bytes m dest (xs @ 0 # replicate (n - length xs) 0)
      = write_bytes (write_bytes m dest (xs @ [0])) (dest + length xs + 1) (replicate (n - length xs) 0)"
    using write_bytes_append [of m dest "xs @ [0]" "replicate (n - length xs) 0"] by simp
  with False libc_strncpy_copy_cstr [OF assms] show ?thesis
    by (simp add: libc_strncpy_def memset_loop_eq)
qed

lemma strncat_loop_pos:
  "n \<noteq> 0 \<Longrightarrow> cstr m s xs \<Longrightarrow> disjoint_ranges d (Suc n) s (Suc (length xs)) \<Longrightarrow>
     strncat_loop n m d s = write_bytes m d (take n xs @ [0])"
proof (induction n arbitrary: m d s xs)
  case 0
  then show ?case by simp
next
  case (Suc k)
  show ?case
  proof (cases xs)
    case Nil
    with Suc.prems show ?thesis by (simp add: write_bytes_Cons)
  next
    case (Cons z zs)
    have "cstr (m(d := z)) (s + 1) zs"
      using Suc.prems Cons by (subst cstr_upd_outside) (auto simp: disjoint_ranges_def)
    moreover have "disjoint_ranges (d + 1) (Suc k) (s + 1) (Suc (length zs))"
      using Suc.prems Cons by (auto simp: disjoint_ranges_def)
    ultimately show ?thesis
      using Suc.IH [of "m(d := z)" "s + 1" zs "d + 1"] Suc.prems(2) Cons
      by (cases "k = 0") (simp_all add: Let_def write_bytes_Cons fun_upd_def)
  qed
qed

lemma strncat_loop_cstr:
  "m d = 0 \<Longrightarrow> cstr m s xs \<Longrightarrow> disjoint_ranges d (Suc n) s (Suc (length xs)) \<Longrightarrow>
     strncat_loop n m d s = write_bytes m d (take n xs @ [0])"
  using strncat_loop_pos [of n m s xs d]
  by (cases "n = 0") (simp_all add: write_bytes_Cons fun_upd_idem)

lemma libc_strncmp_kernel: "libc_strncmp m p q n = strncmp m p q n"
proof -
  have "libc_strncmp m p q (Suc n) = strncmp_loop m p q (Suc n)" for n
  proof (induction n arbitrary: p q)
    case 0
    then show ?case by simp
  next
    case (Suc n)
    show ?case
      using Suc.IH [of "p + 1" "q + 1"]
      by (simp only: libc_strncmp.simps(2) [of m p q] strncmp_loop.simps(2) [of m p q]) simp
  qed
  then show ?thesis by (cases n) (auto simp: strncmp_def)
qed

lemma strncmp_0:
  assumes "cstr m p xs" and "cstr m q ys"
  shows "libc_strncmp m p q n = 0 \<longleftrightarrow> take n xs = take n ys"
proof -
  have "0 \<notin> set (take n xs)" "0 \<notin> set (take n ys)"
    using assms by (meson cstr_nz in_set_takeD)+
  with assms show ?thesis
    by (cases "n = 0") (simp_all add: libc_strncmp_kernel strncmp_def strncmp_loop_cstr byte_cmp_0)
qed

text \<open>
  The reference search: the first position whose suffix starts with the needle.
\<close>

fun find_sub :: "byte list \<Rightarrow> byte list \<Rightarrow> nat option" where
  "find_sub [] ys = None"
| "find_sub (x # xs) ys =
     (if take (length ys) (x # xs) = ys then Some 0 else map_option Suc (find_sub xs ys))"

lemma find_sub_Some:
  "find_sub xs ys = Some k \<Longrightarrow>
     k < length xs \<and> take (length ys) (drop k xs) = ys \<and>
     (\<forall>j < k. take (length ys) (drop j xs) \<noteq> ys)"
proof (induction xs arbitrary: k)
  case Nil
  then show ?case by simp
next
  case (Cons x xs)
  show ?case
  proof (cases k)
    case 0
    with Cons.prems show ?thesis by (auto split: if_splits)
  next
    case (Suc i)
    with Cons.prems have no: "take (length ys) (x # xs) \<noteq> ys" and "find_sub xs ys = Some i"
      by (auto split: if_splits)
    then have "i < length xs \<and> take (length ys) (drop i xs) = ys \<and>
        (\<forall>j < i. take (length ys) (drop j xs) \<noteq> ys)"
      by (intro Cons.IH)
    moreover have "take (length ys) (drop j (x # xs)) \<noteq> ys" if "j < k" "\<forall>j < i. take (length ys) (drop j xs) \<noteq> ys" for j
      using that no Suc by (cases j) auto
    ultimately show ?thesis using Suc by auto
  qed
qed

lemma find_sub_None:
  "ys \<noteq> [] \<Longrightarrow> find_sub xs ys = None \<Longrightarrow> take (length ys) (drop k xs) \<noteq> ys"
proof (induction xs arbitrary: k)
  case Nil
  then show ?case by simp
next
  case (Cons x xs)
  then show ?case by (cases k) (auto split: if_splits)
qed

lemma strstr_loop_cstr:
  assumes "cstr m needle ys"
  shows "cstr m h xs \<Longrightarrow>
    strstr_loop m h needle (length ys) = Some (map_option (\<lambda>k. h + k) (find_sub xs ys))"
proof (induction xs arbitrary: h)
  case Nil
  then show ?case by (simp add: strstr_loop.simps)
next
  case (Cons x xs)
  have "libc_strncmp m h needle (length ys) = 0 \<longleftrightarrow> take (length ys) (x # xs) = ys"
    using strncmp_0 [OF Cons.prems assms, of "length ys"] by simp
  then show ?case
    using Cons by (auto simp: strstr_loop.simps [of m h] option.map_comp comp_def)
qed

section \<open>Properties\<close>

text \<open>\<open>strcat\<close> returns on NUL-terminated strings, leaves at the destination the
  concatenation of the two strings and writes no byte outside the appended part.\<close>

theorem strcat_appends:
  assumes "cstr m dest xs" and "cstr m src ys"
    and "disjoint_ranges dest (length xs + Suc (length ys)) src (Suc (length ys))"
  shows "\<exists>m'. libc_strcat m dest src = Some (m', dest) \<and> cstr m' dest (xs @ ys) \<and>
    (\<forall>a. a < dest + length xs \<or> dest + length xs + length ys < a \<longrightarrow> m' a = m a)"
proof -
  let ?d = "dest + length xs"
  let ?m = "write_bytes m ?d (ys @ [0])"
  have "copy_to_nul m ?d src = Some ?m"
    using assms by (intro copy_to_nul_cstr) (auto simp: disjoint_ranges_def)
  then have "libc_strcat m dest src = Some (?m, dest)"
    by (simp add: libc_strcat_def skip_to_nul_cstr [OF assms(1)])
  moreover have "cstr ?m dest (xs @ ys)"
    using cstr_write [of "xs @ ys" m dest] assms(1,2)
    by (simp add: write_bytes_append write_cstr_same [OF assms(1)] cstr_nz)
  moreover have "?m a = m a" if "a < ?d \<or> ?d + length ys < a" for a
    using that by (intro write_bytes_outside) auto
  ultimately show ?thesis by blast
qed

lemma strcat_appends_witness:
  "\<exists>m'. libc_strcat (write_bytes sample_strings 200 [100]) 200 100 = Some (m', 200) \<and>
     cstr m' 200 [100, 97, 98]"
proof -
  let ?m = "write_bytes sample_strings 200 [100]"
  have "cstr ?m 200 [100]" "cstr ?m 100 [97, 98]"
    by (simp_all add: sample_strings_def write_bytes_def)
  from strcat_appends [OF this] show ?thesis by (auto simp: disjoint_ranges_def)
qed

text \<open>When the source string is shorter than \<open>n\<close>, \<open>strncpy\<close> of the C library stores
  \<open>n + 1\<close> bytes: the byte just behind the destination array of \<open>n\<close> bytes is overwritten
  with NUL, whatever it held.\<close>

theorem libc_strncpy_overrun:
  assumes "cstr m src xs" and "length xs < n"
    and "disjoint_ranges dest n src (Suc (length xs))"
  shows "fst (libc_strncpy m dest src n) (dest + n) = 0"
  using libc_strncpy_cstr [OF assms(1,3)] assms(2)
  by (simp add: write_bytes_def nth_append)

lemma libc_strncpy_overrun_witness:
  "write_bytes sample_strings 204 [7] 204 = 7 \<and>
   fst (libc_strncpy (write_bytes sample_strings 204 [7]) 200 100 4) (200 + 4) = 0"
proof -
  let ?m = "write_bytes sample_strings 204 [7]"
  have "cstr ?m 100 [97, 98]"
    by (simp add: sample_strings_def write_bytes_def)
  from libc_strncpy_overrun [OF this, of 4 200] show ?thesis
    by (simp add: disjoint_ranges_def write_bytes_def)
qed

text \<open>\<open>strstr\<close> returns on NUL-terminated strings; a returned pointer is the first
  position of the haystack at which the needle occurs, and a null result means that a
  non-empty needle occurs nowhere.\<close>

theorem strstr_first_occurrence:
  assumes "cstr m haystack xs" and "cstr m needle ys"
  shows "\<exists>r. strstr m haystack needle = Some r \<and>
    (case r of
       Some p \<Rightarrow> haystack \<le> p \<and> take (length ys) (drop (p - haystack) xs) = ys \<and>
         (\<forall>j < p - haystack. take (length ys) (drop j xs) \<noteq> ys)
     | None \<Rightarrow> ys \<noteq> [] \<and> (\<forall>j. take (length ys) (drop j xs) \<noteq> ys))"
proof (cases "ys = []")
  case True
  then show ?thesis by (simp add: strstr_def libc_strlen_cstr [OF assms(2)])
next
  case False
  then have eq: "strstr m haystack needle = Some (map_option (\<lambda>k. haystack + k) (find_sub xs ys))"
    using assms by (simp add: strstr_def libc_strlen_cstr strstr_loop_cstr)
  show ?thesis
    using find_sub_Some [of xs ys] find_sub_None [OF False, of xs] False
    by (cases "find_sub xs ys") (auto simp: eq)
qed

lemma strstr_first_occurrence_witness:
  "cstr sample_strings 100 [97, 98] \<and> cstr sample_strings 101 [98] \<and>
   strstr sample_strings 100 101 = Some (Some 101)"
proof -
  have c: "cstr sample_strings 100 [97, 98]" "cstr sample_strings 101 [98]"
    by (simp_all add: sample_strings_def write_bytes_def)
  from strstr_first_occurrence [OF this] obtain r where
    r: "strstr sample_strings 100 101 = Some r" and
    ok: "case r of Some p \<Rightarrow> 100 \<le> p \<and> take 1 (drop (p - 100) [97, 98]) = [98 :: byte]
         | None \<Rightarrow> (\<forall>j. take 1 (drop j [97, 98]) \<noteq> [98 :: byte])"
    by (auto split: option.splits)
  have "r \<noteq> None"
    using ok by (auto split: option.splits dest: spec [of _ "1 :: nat"])
  moreover have "p = 101" if "r = Some p" for p
  proof -
    have "p - 100 < 2 \<Longrightarrow> p - 100 = 0 \<or> p - 100 = 1" by linarith
    with ok that show ?thesis by (cases "p - 100 < 2") auto
  qed
  ultimately show ?thesis using r c by auto
qed

end
