(* ===== verification/Libc_Stdlib.thy ===== *)
theory Libc_Stdlib
  imports Libc_String "HOL-Library.Signed_Division"
begin

text \<open>
  The user-space C library's \<^verbatim>\<open>libc/src/stdlib.c\<close>: the bump allocator, \<open>atexit\<close>
  and \<open>exit\<close>, the conversions from strings to numbers, the random numbers and integer
  division. Sizes and results keep their machine width, because the allocator's checks and
  the conversions depend on it.
\<close>

section \<open>The bump allocator\<close>

record malloc_header =
  mh_size :: u64
  mh_used :: int

text \<open>
  A pointer into the static array \<open>heap\<close> is its offset. \<open>headers\<close> holds the block headers
  by the offset they are written at, \<open>heap_bytes\<close> the bytes of the array.
\<close>

record user_heap =
  heap_used :: u64
  headers :: "u64 \<rightharpoonup> malloc_header"
  heap_bytes :: mem

definition HEAP_SIZE :: u64 where
  "HEAP_SIZE = 16 * 1024 * 1024"

abbreviation malloc_header_size :: u64 where
  "malloc_header_size \<equiv> 16"

definition ALIGN16 :: "u64 \<Rightarrow> u64" where
  "ALIGN16 x = (x + 15) AND NOT 15"

definition malloc :: "user_heap \<Rightarrow> u64 \<Rightarrow> user_heap \<times> u64 option" where
  "malloc h sz =
     (if sz = 0 then (h, None)
      else let total = ALIGN16 (malloc_header_size + sz) in
        if heap_used h + total > HEAP_SIZE then (h, None)
        else (h\<lparr>headers := (headers h)(heap_used h \<mapsto> \<lparr>mh_size = sz, mh_used = 1\<rparr>),
                heap_used := heap_used h + total\<rparr>,
              Some (heap_used h + malloc_header_size)))"

definition calloc :: "user_heap \<Rightarrow> u64 \<Rightarrow> u64 \<Rightarrow> user_heap \<times> u64 option" where
  "calloc h nmemb sz =
     (let total = nmemb * sz in
      case malloc h total of
        (h', None) \<Rightarrow> (h', None)
      | (h', Some p) \<Rightarrow>
          (h'\<lparr>heap_bytes := fst (libc_memset (heap_bytes h') (unat p) 0 (unat total))\<rparr>, Some p))"

text \<open>Reading the header of a pointer that no \<open>malloc\<close> returned is \<^const>\<open>None\<close>.\<close>

definition free :: "user_heap \<Rightarrow> u64 option \<Rightarrow> user_heap option" where
  "free h ptr =
     (case ptr of
        None \<Rightarrow> Some h
      | Some p \<Rightarrow> map_option
          (\<lambda>hdr. h\<lparr>headers := (headers h)(p - malloc_header_size \<mapsto> hdr\<lparr>mh_used := 0\<rparr>)\<rparr>)
          (headers h (p - malloc_header_size)))"

definition realloc :: "user_heap \<Rightarrow> u64 option \<Rightarrow> u64 \<Rightarrow> (user_heap \<times> u64 option) option" where
  "realloc h ptr sz =
     (case ptr of
        None \<Rightarrow> Some (malloc h sz)
      | Some p \<Rightarrow>
          if sz = 0 then map_option (\<lambda>h'. (h', None)) (free h ptr)
          else (case headers h (p - malloc_header_size) of
            None \<Rightarrow> None
          | Some hdr \<Rightarrow>
              if sz \<le> mh_size hdr then Some (h, ptr)
              else (case malloc h sz of
                (h', None) \<Rightarrow> Some (h', None)
              | (h', Some q) \<Rightarrow>
                  map_option (\<lambda>h''. (h'', Some q))
                    (free (h'\<lparr>heap_bytes :=
                        fst (libc_memcpy (heap_bytes h') (unat q) (unat p) (unat (mh_size hdr)))\<rparr>) ptr))))"

section \<open>Process control\<close>

text \<open>
  A handler is a token of \<open>nat\<close>; \<open>body\<close> is what it does to the table of handlers when it is
  called (it may register further ones). \<open>exit\<close> records the handlers it calls, in order.
\<close>

record atexit_state =
  atexit_funcs :: "nat list"
  atexit_count :: nat

definition atexit :: "atexit_state \<Rightarrow> nat \<Rightarrow> atexit_state \<times> int" where
  "atexit st f =
     (if atexit_count st \<ge> 32 then (st, -1)
      else (st\<lparr>atexit_funcs := (atexit_funcs st)[atexit_count st := f],
               atexit_count := atexit_count st + 1\<rparr>, 0))"

partial_function (option) exit_handlers ::
    "(nat \<Rightarrow> atexit_state \<Rightarrow> atexit_state) \<Rightarrow> atexit_state \<Rightarrow> nat list \<Rightarrow> nat list option" where
  "exit_handlers body st called =
     (if atexit_count st > 0
      then let st' = st\<lparr>atexit_count := atexit_count st - 1\<rparr>;
               f = atexit_funcs st ! (atexit_count st - 1)
           in exit_handlers body (body f st') (called @ [f])
      else Some called)"

section \<open>String conversion\<close>

abbreviation is_digit_byte :: "byte \<Rightarrow> bool" where
  "is_digit_byte c \<equiv> 48 \<le> c \<and> c \<le> 57"

partial_function (option) skip_space :: "mem \<Rightarrow> addr \<Rightarrow> addr option" where
  "skip_space m p =
     (if m p = 32 \<or> m p = 9 \<or> m p = 10 then skip_space m (p + 1) else Some p)"

partial_function (option) atol_digits :: "mem \<Rightarrow> addr \<Rightarrow> u64 \<Rightarrow> u64 option" where
  "atol_digits m p result =
     (if is_digit_byte (m p) then atol_digits m (p + 1) (result * 10 + (ucast (m p) - 48))
      else Some result)"

definition atol :: "mem \<Rightarrow> addr \<Rightarrow> u64 option" where
  "atol m nptr =
     (case skip_space m nptr of
        None \<Rightarrow> None
      | Some p \<Rightarrow>
          (let (sign, p) = (if m p = 45 then (-1, p + 1) else if m p = 43 then (1, p + 1) else (1, p))
           in map_option (\<lambda>result. result * sign) (atol_digits m p 0)))"

definition atoi :: "mem \<Rightarrow> addr \<Rightarrow> u32 option" where
  "atoi m nptr = map_option ucast (atol m nptr)"

definition atoll :: "mem \<Rightarrow> addr \<Rightarrow> u64 option" where
  "atoll m nptr = atol m nptr"

text \<open>\<open>strtol\<close> skips blanks and tabs but not newlines, unlike \<open>atol\<close>.\<close>

partial_function (option) skip_blank :: "mem \<Rightarrow> addr \<Rightarrow> addr option" where
  "skip_blank m p = (if m p = 32 \<or> m p = 9 then skip_blank m (p + 1) else Some p)"

definition strtol_prefix :: "mem \<Rightarrow> addr \<Rightarrow> int \<Rightarrow> int \<times> addr" where
  "strtol_prefix m p base =
     (if base = 0
      then if m p = 48
           then if m (p + 1) = 120 \<or> m (p + 1) = 88 then (16, p + 2) else (8, p + 1)
           else (10, p)
      else if base = 16 \<and> m p = 48 \<and> (m (p + 1) = 120 \<or> m (p + 1) = 88) then (base, p + 2)
      else (base, p))"

definition digit_value :: "byte \<Rightarrow> int option" where
  "digit_value c =
     (if 48 \<le> c \<and> c \<le> 57 then Some (uint c - 48)
      else if 97 \<le> c \<and> c \<le> 122 then Some (uint c - 97 + 10)
      else if 65 \<le> c \<and> c \<le> 90 then Some (uint c - 65 + 10)
      else None)"

partial_function (option) strtol_digits ::
    "mem \<Rightarrow> addr \<Rightarrow> int \<Rightarrow> u64 \<Rightarrow> (u64 \<times> addr) option" where
  "strtol_digits m p base result =
     (if m p \<noteq> 0
      then case digit_value (m p) of
             None \<Rightarrow> Some (result, p)
           | Some digit \<Rightarrow>
               if digit \<ge> base then Some (result, p)
               else strtol_digits m (p + 1) base (result * word_of_int base + word_of_int digit)
      else Some (result, p))"

text \<open>The result and the address stored through \<open>endptr\<close>.\<close>

definition strtol :: "mem \<Rightarrow> addr \<Rightarrow> int \<Rightarrow> (u64 \<times> addr) option" where
  "strtol m nptr base =
     (case skip_blank m nptr of
        None \<Rightarrow> None
      | Some p \<Rightarrow>
          (let (sign, p) = (if m p = 45 then (-1, p + 1) else if m p = 43 then (1, p + 1) else (1, p));
               (base, p) = strtol_prefix m p base
           in map_option (\<lambda>(result, e). (result * sign, e)) (strtol_digits m p base 0)))"

definition strtoul :: "mem \<Rightarrow> addr \<Rightarrow> int \<Rightarrow> (u64 \<times> addr) option" where
  "strtoul m nptr base = strtol m nptr base"

section \<open>Random numbers and integer arithmetic\<close>

abbreviation RAND_MAX :: u32 where
  "RAND_MAX \<equiv> 2147483647"

definition rand :: "u32 \<Rightarrow> u32 \<times> u32" where
  "rand rand_seed =
     (let rand_seed = rand_seed * 1103515245 + 12345
      in (rand_seed, drop_bit 16 rand_seed AND RAND_MAX))"

definition srand :: "u32 \<Rightarrow> u32" where
  "srand seed = seed"

definition c_abs :: "u32 \<Rightarrow> u32" where
  "c_abs j = (if sint j < 0 then - j else j)"

text \<open>A zero divisor traps: \<^const>\<open>None\<close>.\<close>

definition c_div :: "int \<Rightarrow> int \<Rightarrow> (int \<times> int) option" where
  "c_div numer denom = (if denom = 0 then None else Some (numer sdiv denom, numer smod denom))"

section \<open>The allocator invariant\<close>

definition user_heap_inv :: "user_heap \<Rightarrow> bool" where
  "user_heap_inv h \<longleftrightarrow>
     unat (heap_used h) \<le> unat HEAP_SIZE \<and> unat (heap_used h) mod 16 = 0 \<and>
     (\<forall>q hd. headers h q = Some hd \<longrightarrow>
        unat q mod 16 = 0 \<and> unat q + 16 + unat (mh_size hd) \<le> unat (heap_used h)) \<and>
     (\<forall>q hd q'. headers h q = Some hd \<and> q' \<in> dom (headers h) \<and> unat q < unat q' \<longrightarrow>
        unat q + 16 + unat (mh_size hd) \<le> unat q')"

lemma unat_HEAP_SIZE [simp]: "unat HEAP_SIZE = 16777216"
  by (simp add: HEAP_SIZE_def)

lemma ALIGN16_unat:
  assumes "unat x + 15 < 2 ^ 64"
  shows "unat (ALIGN16 x) = (unat x + 15) div 16 * 16"
proof -
  have m15: "(15 :: u64) = mask 4"
    by (simp add: mask_eq_exp_minus_1)
  have "unat (x + mask 4) = unat x + 15"
    using assms by (simp add: unat_word_ariths mask_eq_exp_minus_1)
  then show ?thesis
    unfolding ALIGN16_def m15 by (simp add: unat_and_not_mask)
qed

lemma malloc_total:
  assumes "unat sz \<le> 2 ^ 64 - 2 ^ 25"
  shows "unat sz + 16 \<le> unat (ALIGN16 (16 + sz))" and "unat (ALIGN16 (16 + sz)) mod 16 = 0"
    and "unat (ALIGN16 (16 + sz)) \<le> unat sz + 31"
proof -
  have "unat (16 + sz) = unat sz + 16"
    using assms by (simp add: unat_word_ariths)
  then have eq: "unat (ALIGN16 (16 + sz)) = (unat sz + 16 + 16 - 1) div 16 * 16"
    using assms by (subst ALIGN16_unat) (simp_all add: add.commute)
  show "unat sz + 16 \<le> unat (ALIGN16 (16 + sz))" and "unat (ALIGN16 (16 + sz)) \<le> unat sz + 31"
    using round_up_bounds [of 16 "unat sz + 16"] unfolding eq by linarith+
  show "unat (ALIGN16 (16 + sz)) mod 16 = 0"
    unfolding eq by simp
qed

lemma malloc_success:
  assumes inv: "user_heap_inv h" and small: "unat sz \<le> 2 ^ 64 - 2 ^ 25"
    and ok: "malloc h sz = (h', Some p)"
  shows "unat p = unat (heap_used h) + 16" and "unat p + unat sz \<le> unat (heap_used h')"
    and "unat (heap_used h) < unat (heap_used h')" and "unat (heap_used h') \<le> unat HEAP_SIZE"
    and "unat (heap_used h') mod 16 = 0"
    and "headers h' = (headers h)(heap_used h \<mapsto> \<lparr>mh_size = sz, mh_used = 1\<rparr>)"
    and "heap_bytes h' = heap_bytes h"
proof -
  let ?t = "ALIGN16 (16 + sz)"
  from ok have fits: "\<not> heap_used h + ?t > HEAP_SIZE" and p: "p = heap_used h + 16"
    and used: "heap_used h' = heap_used h + ?t"
    and hd: "headers h' = (headers h)(heap_used h \<mapsto> \<lparr>mh_size = sz, mh_used = 1\<rparr>)"
    and bytes: "heap_bytes h' = heap_bytes h"
    by (auto simp: malloc_def Let_def split: if_splits)
  have le: "unat (heap_used h) \<le> 16777216"
    using inv by (simp add: user_heap_inv_def)
  note t = malloc_total [OF small]
  have sum: "unat (heap_used h + ?t) = unat (heap_used h) + unat ?t"
    using le t(3) small by (simp add: unat_word_ariths)
  show "unat p = unat (heap_used h) + 16"
    using le by (simp add: p unat_word_ariths)
  then show "unat p + unat sz \<le> unat (heap_used h')"
    using t(1) by (simp add: used sum)
  show "unat (heap_used h) < unat (heap_used h')"
    using t(1) by (simp add: used sum)
  show "unat (heap_used h') \<le> unat HEAP_SIZE"
    using fits by (simp add: used word_less_nat_alt)
  show "unat (heap_used h') mod 16 = 0"
    using inv t(2) by (simp add: used sum user_heap_inv_def mod_add_eq [symmetric])
  show "headers h' = (headers h)(heap_used h \<mapsto> \<lparr>mh_size = sz, mh_used = 1\<rparr>)" by (rule hd)
  show "heap_bytes h' = heap_bytes h" by (rule bytes)
qed

lemma malloc_fail: "malloc h sz = (h', None) \<Longrightarrow> h' = h"
  by (auto simp: malloc_def Let_def split: if_splits)

lemma malloc_inv [inv_intros]:
  assumes inv: "user_heap_inv h" and small: "unat sz \<le> 2 ^ 64 - 2 ^ 25"
    and ok: "malloc h sz = (h', r)"
  shows "user_heap_inv h'"
proof (cases r)
  case None
  with inv ok show ?thesis by (auto dest: malloc_fail)
next
  case (Some p)
  note s = malloc_success [OF inv small ok [unfolded Some]]
  have old: "unat q + 16 + unat (mh_size hd) \<le> unat (heap_used h) \<and> unat q mod 16 = 0"
    if "headers h q = Some hd" for q hd
    using inv that by (auto simp: user_heap_inv_def)
  have new_last: "\<not> unat (heap_used h) < unat q" if "q \<in> dom (headers h)" for q
    using old that by fastforce
  show ?thesis
    unfolding user_heap_inv_def
  proof (intro conjI allI impI)
    fix q hd assume q: "headers h' q = Some hd"
    show "unat q mod 16 = 0" and "unat q + 16 + unat (mh_size hd) \<le> unat (heap_used h')"
      using q s(1,2,3,6) old [of q hd] inv
      by (cases "q = heap_used h"; force simp: user_heap_inv_def)+
  next
    fix q hd q'
    assume a: "headers h' q = Some hd \<and> q' \<in> dom (headers h') \<and> unat q < unat q'"
    show "unat q + 16 + unat (mh_size hd) \<le> unat q'"
    proof (cases "q = heap_used h")
      case True
      with a s(6) new_last [of q'] show ?thesis by auto
    next
      case False
      with a s(6) have q: "headers h q = Some hd" by simp
      show ?thesis
      proof (cases "q' = heap_used h")
        case True
        with old [OF q] show ?thesis by simp
      next
        case False
        with a s(6) q inv show ?thesis by (auto simp: user_heap_inv_def)
      qed
    qed
  qed (use s in auto)
qed

section \<open>Conversions\<close>

text \<open>The bytes of a decimal numeral, with a minus sign when it is negative.\<close>

definition digit_bytes :: "nat \<Rightarrow> byte list" where
  "digit_bytes n = map (\<lambda>c. of_nat (of_char c)) (rev (num_digits n))"

definition decimal_bytes :: "int \<Rightarrow> byte list" where
  "decimal_bytes v = (if v < 0 then [45] else []) @ digit_bytes (nat \<bar>v\<bar>)"

abbreviation digit_step :: "u64 \<Rightarrow> byte \<Rightarrow> u64" where
  "digit_step r c \<equiv> r * 10 + (ucast c - 48)"

lemma digit_byte: "d < 10 \<Longrightarrow> of_nat (of_char (char_of (48 + d :: nat))) = (48 + of_nat d :: byte)"
  by (simp add: of_char_of)

lemma small_digit_byte:
  assumes "d < 10"
  shows "is_digit_byte (48 + of_nat d)" and "ucast (48 + of_nat d :: byte) = (48 + of_nat d :: u64)"
proof -
  have "d \<in> {0, 1, 2, 3, 4, 5, 6, 7, 8, 9}"
    using assms by auto
  then show "is_digit_byte (48 + of_nat d)" and "ucast (48 + of_nat d :: byte) = (48 + of_nat d :: u64)"
    by auto
qed

lemma digit_bytes_unfold:
  "digit_bytes n = (if n div 10 > 0 then digit_bytes (n div 10) else []) @ [48 + of_nat (n mod 10)]"
  by (subst digit_bytes_def, subst num_digits.simps) (simp add: digit_bytes_def of_char_of)

lemma digit_bytes_digits: "c \<in> set (digit_bytes n) \<Longrightarrow> is_digit_byte c"
proof (induction n rule: less_induct)
  case (less n)
  from less.prems consider "c = 48 + of_nat (n mod 10)"
    | "n div 10 > 0" and "c \<in> set (digit_bytes (n div 10))"
    by (auto simp: digit_bytes_unfold [of n] split: if_splits)
  then show ?case
  proof cases
    case 1
    then show ?thesis using small_digit_byte(1) [of "n mod 10"] by simp
  next
    case 2
    then show ?thesis using less.IH [of "n div 10"] by simp
  qed
qed

lemma digit_bytes_not_Nil: "digit_bytes n \<noteq> []"
  by (subst digit_bytes_unfold) simp

lemma digit_bytes_value: "foldl digit_step 0 (digit_bytes n) = of_nat n"
proof (induction n rule: less_induct)
  case (less n)
  have "foldl digit_step 0 (digit_bytes n)
      = of_nat (n div 10) * 10 + (ucast (48 + of_nat (n mod 10) :: byte) - 48)"
    using less [of "n div 10"] by (cases "n div 10 > 0") (simp_all add: digit_bytes_unfold [of n])
  also have "\<dots> = of_nat (n div 10 * 10 + n mod 10)"
    by (simp only: small_digit_byte(2) [of "n mod 10"] mod_less_divisor of_nat_add of_nat_mult) simp
  finally show ?case by simp
qed

lemma atol_digits_run:
  "(\<And>c. c \<in> set ds \<Longrightarrow> is_digit_byte c) \<Longrightarrow> read_bytes m p (length ds) = ds \<Longrightarrow>
     \<not> is_digit_byte (m (p + length ds)) \<Longrightarrow> atol_digits m p r = Some (foldl digit_step r ds)"
proof (induction ds arbitrary: p r)
  case Nil
  then show ?case by (subst atol_digits.simps) auto
next
  case (Cons d ds)
  then have "atol_digits m (p + 1) (digit_step r d) = Some (foldl digit_step (digit_step r d) ds)"
    by (intro Cons.IH) (auto simp: read_bytes_Suc)
  with Cons.prems show ?case
    by (simp add: atol_digits.simps [of m p r] read_bytes_Suc)
qed

lemma digit_not_sign: "is_digit_byte c \<Longrightarrow> c \<noteq> 45 \<and> c \<noteq> 43 \<and> c \<noteq> 32 \<and> c \<noteq> 9 \<and> c \<noteq> 10 \<and> c \<noteq> 0"
  by auto

lemma atol_digits_cstr:
  assumes "cstr m p (digit_bytes n)"
  shows "atol_digits m p 0 = Some (of_nat n)"
  using assms digit_bytes_digits [of _ n] digit_bytes_value [of n]
  by (subst atol_digits_run [of "digit_bytes n"]) (auto simp: cstr_iff)

lemma skip_space_here: "m p \<noteq> 32 \<and> m p \<noteq> 9 \<and> m p \<noteq> 10 \<Longrightarrow> skip_space m p = Some p"
  by (subst skip_space.simps) simp

lemma skip_blank_here: "m p \<noteq> 32 \<and> m p \<noteq> 9 \<Longrightarrow> skip_blank m p = Some p"
  by (subst skip_blank.simps) simp

lemma cstr_first: "cstr m p xs \<Longrightarrow> xs \<noteq> [] \<Longrightarrow> m p = hd xs"
  by (cases xs) auto

lemma digit_bytes_first:
  assumes "cstr m p (digit_bytes n)"
  shows "is_digit_byte (m p)"
  using cstr_first [OF assms digit_bytes_not_Nil] digit_bytes_digits [of "hd (digit_bytes n)" n]
    digit_bytes_not_Nil [of n] by simp

lemma digit_value_digit: "is_digit_byte c \<Longrightarrow> digit_value c = Some (uint c - 48)"
  by (simp add: digit_value_def)

lemma uint_digit: "is_digit_byte c \<Longrightarrow> uint c - 48 < 10 \<and> word_of_int (uint c - 48) = (ucast c - 48 :: u64)"
proof -
  assume "is_digit_byte c"
  then have "uint c \<le> 57"
    by (simp add: word_le_def)
  then show ?thesis
    by (simp add: unsigned_ucast_eq word_uint_eq_iff uint_word_of_int take_bit_eq_mod)
qed

lemma strtol_digits_run:
  "(\<And>c. c \<in> set ds \<Longrightarrow> is_digit_byte c) \<Longrightarrow> read_bytes m p (length ds) = ds \<Longrightarrow>
     m (p + length ds) = 0 \<Longrightarrow>
     strtol_digits m p 10 r = Some (foldl digit_step r ds, p + length ds)"
proof (induction ds arbitrary: p r)
  case Nil
  then show ?case by (subst strtol_digits.simps) simp
next
  case (Cons d ds)
  from Cons.prems(1) have d: "is_digit_byte d" by simp
  have "strtol_digits m (p + 1) 10 (digit_step r d)
      = Some (foldl digit_step (digit_step r d) ds, p + 1 + length ds)"
    using Cons.prems by (intro Cons.IH) (auto simp: read_bytes_Suc)
  with Cons.prems(2) uint_digit [OF d] digit_not_sign [OF d] show ?case
    by (simp add: strtol_digits.simps [of m p] read_bytes_Suc digit_value_digit [OF d])
qed

lemma strtol_digits_cstr:
  assumes "cstr m p (digit_bytes n)"
  shows "strtol_digits m p 10 0 = Some (of_nat n, p + length (digit_bytes n))"
  using assms digit_bytes_digits [of _ n] digit_bytes_value [of n]
  by (subst strtol_digits_run [of "digit_bytes n"]) (auto simp: cstr_iff)

lemma decimal_cases:
  assumes "cstr m p (decimal_bytes v)"
  obtains (neg) "v < 0" "m p = 45" "cstr m (p + 1) (digit_bytes (nat \<bar>v\<bar>))"
  | (pos) "0 \<le> v" "cstr m p (digit_bytes (nat \<bar>v\<bar>))" "is_digit_byte (m p)"
  using assms digit_bytes_first [of m p "nat \<bar>v\<bar>"] that
  by (cases "v < 0") (auto simp: decimal_bytes_def)

lemma atol_decimal:
  assumes "cstr m p (decimal_bytes v)"
  shows "atol m p = Some (word_of_int v)"
  using assms
proof (cases rule: decimal_cases)
  case neg
  then show ?thesis
    by (simp add: atol_def skip_space_here atol_digits_cstr digit_not_sign of_nat_nat)
next
  case pos
  then show ?thesis
    by (simp add: atol_def skip_space_here atol_digits_cstr digit_not_sign of_nat_nat)
qed

lemma strtol_decimal:
  assumes "cstr m p (decimal_bytes v)"
  shows "strtol m p 10 = Some (word_of_int v, p + length (decimal_bytes v))"
  using assms
proof (cases rule: decimal_cases)
  case neg
  then show ?thesis
    by (simp add: strtol_def skip_blank_here strtol_prefix_def strtol_digits_cstr decimal_bytes_def
        digit_not_sign of_nat_nat)
next
  case pos
  then show ?thesis
    by (simp add: strtol_def skip_blank_here strtol_prefix_def strtol_digits_cstr decimal_bytes_def
        digit_not_sign of_nat_nat)
qed

lemma exit_handlers_keep:
  "atexit_count st = n \<Longrightarrow> n \<le> length (atexit_funcs st) \<Longrightarrow>
     exit_handlers (\<lambda>_ s. s) st called = Some (called @ rev (take n (atexit_funcs st)))"
proof (induction n arbitrary: st called)
  case 0
  then show ?case by (subst exit_handlers.simps) simp
next
  case (Suc n)
  have "exit_handlers (\<lambda>_ s. s) (st\<lparr>atexit_count := n\<rparr>) (called @ [atexit_funcs st ! n])
      = Some ((called @ [atexit_funcs st ! n]) @ rev (take n (atexit_funcs st)))"
    using Suc.IH [of "st\<lparr>atexit_count := n\<rparr>"] Suc.prems by simp
  moreover have "take (Suc n) (atexit_funcs st) = take n (atexit_funcs st) @ [atexit_funcs st ! n]"
    using Suc.prems by (intro take_Suc_conv_app_nth) simp
  ultimately show ?case
    by (subst exit_handlers.simps) (simp add: Let_def Suc.prems(1))
qed

section \<open>Properties\<close>

text \<open>A successful \<open>malloc\<close> of a size that does not come near the top of the address
  range returns a 16-byte aligned block of the static heap that is disjoint from every block
  handed out before, records its size, and keeps the allocator's invariant.\<close>

theorem malloc_sound:
  assumes "user_heap_inv h" and "unat sz \<le> 2 ^ 64 - 2 ^ 25" and "malloc h sz = (h', Some p)"
  shows "user_heap_inv h' \<and> unat p mod 16 = 0 \<and> unat p + unat sz \<le> unat HEAP_SIZE \<and>
    map_option mh_size (headers h' (p - 16)) = Some sz \<and>
    (\<forall>q hd. headers h q = Some hd \<longrightarrow> unat q + 16 + unat (mh_size hd) \<le> unat p - 16)"
proof -
  note s = malloc_success [OF assms]
  have "p - 16 = heap_used h"
    using assms(3) by (auto simp: malloc_def Let_def split: if_splits)
  with s assms(1) show ?thesis
    using malloc_inv [OF assms] by (auto simp: user_heap_inv_def mod_add_eq [symmetric])
qed

definition empty_user_heap :: user_heap where
  "empty_user_heap = \<lparr>heap_used = 0, headers = Map.empty, heap_bytes = (\<lambda>_. 0)\<rparr>"

lemma empty_user_heap_inv: "user_heap_inv empty_user_heap"
  by (simp add: user_heap_inv_def empty_user_heap_def)

lemma malloc_sound_witness:
  "\<exists>h' p. malloc empty_user_heap 100 = (h', Some p) \<and> user_heap_inv h' \<and> unat p + 100 \<le> unat HEAP_SIZE"
proof -
  have "ALIGN16 116 = 128"
    by (simp add: ALIGN16_def)
  then obtain h' p where m: "malloc empty_user_heap 100 = (h', Some p)"
    by (simp add: malloc_def empty_user_heap_def Let_def HEAP_SIZE_def)
  from malloc_sound [OF empty_user_heap_inv _ this] m show ?thesis by simp
qed

text \<open>\<open>malloc\<close> does not check that adding the header and rounding up stay within
  \<^verbatim>\<open>size_t\<close>: a request of \<open>2^64 - 32\<close> bytes succeeds and moves the top of the heap 16 bytes
  down, into the block allocated last.\<close>

theorem malloc_overflow:
  assumes "16 \<le> unat (heap_used h)" and "unat (heap_used h) \<le> unat HEAP_SIZE"
  shows "\<exists>h' p. malloc h (2 ^ 64 - 32) = (h', Some p) \<and>
    unat (heap_used h') = unat (heap_used h) - 16"
proof -
  have t: "ALIGN16 (16 + (2 ^ 64 - 32)) = - 16"
    by (simp add: ALIGN16_def)
  have dec: "unat (heap_used h + - 16) = unat (heap_used h) - 16"
    using assms by (simp add: unat_sub_if' word_le_nat_alt flip: diff_conv_add_uminus)
  then have "\<not> heap_used h + - 16 > HEAP_SIZE"
    using assms by (simp add: word_less_nat_alt)
  with t dec show ?thesis by (simp add: malloc_def Let_def)
qed

lemma malloc_overflow_witness:
  "\<exists>h' p. malloc (empty_user_heap\<lparr>heap_used := 128\<rparr>) (2 ^ 64 - 32) = (h', Some p) \<and>
     unat (heap_used h') = 112"
  using malloc_overflow [of "empty_user_heap\<lparr>heap_used := 128\<rparr>"] by simp

text \<open>The decimal numerals the library prints are read back: on the decimal text of
  \<open>v\<close> both \<open>atol\<close> and \<open>strtol\<close> with base 10 return \<open>v\<close> modulo \<open>2^64\<close>, hence \<open>v\<close> itself
  when it fits a \<^verbatim>\<open>long\<close>, and \<open>strtol\<close> leaves its end pointer at the terminator.\<close>

theorem decimal_round_trip:
  assumes "cstr m p (decimal_bytes v)"
  shows "atol m p = Some (word_of_int v) \<and>
    strtol m p 10 = Some (word_of_int v, p + length (decimal_bytes v)) \<and>
    (- (2 ^ 63) \<le> v \<and> v < 2 ^ 63 \<longrightarrow> map_option sint (atol m p) = Some v)"
  using atol_decimal [OF assms] strtol_decimal [OF assms]
  by (simp add: signed_of_int signed_take_bit_int_eq_self)

lemma decimal_round_trip_witness:
  "map_option sint (atol (write_bytes (\<lambda>_. 0) 10 [45, 52, 50]) 10) = Some (- 42)"
proof -
  have "cstr (write_bytes (\<lambda>_. 0) 10 [45, 52, 50]) 10 (decimal_bytes (- 42))"
    by (simp add: decimal_bytes_def digit_bytes_unfold write_bytes_def)
  from decimal_round_trip [OF this] show ?thesis by simp
qed

text \<open>\<open>exit\<close> calls the registered handlers exactly once each, in the reverse of the
  order in which \<open>atexit\<close> recorded them.\<close>

theorem exit_reverse_order:
  assumes "atexit_count st \<le> length (atexit_funcs st)"
  shows "exit_handlers (\<lambda>_ s. s) st [] = Some (rev (take (atexit_count st) (atexit_funcs st)))"
  using exit_handlers_keep [OF refl assms, of "[]"] by simp

lemma exit_reverse_order_witness:
  "exit_handlers (\<lambda>_ s. s) \<lparr>atexit_funcs = [11, 12, 13, 0], atexit_count = 3\<rparr> [] = Some [13, 12, 11]"
  using exit_reverse_order [of "\<lparr>atexit_funcs = [11, 12, 13, 0], atexit_count = 3\<rparr>"] by simp

text \<open>\<open>rand\<close> never returns more than 65535, far below the \<^verbatim>\<open>RAND_MAX\<close> of the header.\<close>

theorem rand_range: "unat (snd (rand seed)) \<le> 65535"
proof -
  let ?s = "seed * 1103515245 + 12345 :: u32"
  have "snd (rand seed) \<le> drop_bit 16 ?s"
    by (simp add: rand_def Let_def word_and_le2)
  moreover have "unat (drop_bit 16 ?s) = unat ?s div 65536"
    unfolding unat_drop_bit_eq by (simp add: drop_bit_eq_div)
  moreover have "unat ?s < 4294967296"
    using unsigned_less [of ?s] by simp
  ultimately show ?thesis by (simp add: word_le_nat_alt)
qed

end
