(* ===== verification/Linked_Lists.thy ===== *)
theory Linked_Lists
  imports Prelude
begin

text \<open>
  Doubly linked lists in a store, the data structure behind the heap's free list and the
  scheduler's run queue. \<open>nx\<close> and \<open>pv\<close> read the two link fields of a node; the facts below
  say what the usual pointer surgery does to the list of nodes a head pointer stands for.
\<close>

section \<open>Segments\<close>

text \<open>
  \<open>dseg nx pv p x as q y\<close>: starting with predecessor \<open>p\<close> and current pointer \<open>x\<close>, the
  nodes \<open>as\<close> follow one another in both directions; behind them the predecessor is \<open>q\<close> and the
  pointer is \<open>y\<close>.
\<close>

fun dseg :: "('a \<Rightarrow> 'a option) \<Rightarrow> ('a \<Rightarrow> 'a option) \<Rightarrow> 'a option \<Rightarrow> 'a option \<Rightarrow> 'a list \<Rightarrow>
    'a option \<Rightarrow> 'a option \<Rightarrow> bool" where
  "dseg nx pv p x [] q y \<longleftrightarrow> p = q \<and> x = y"
| "dseg nx pv p x (a # as) q y \<longleftrightarrow> x = Some a \<and> pv a = p \<and> dseg nx pv (Some a) (nx a) as q y"

lemma dseg_append:
  "dseg nx pv p x (as @ bs) q y \<longleftrightarrow> (\<exists>m n. dseg nx pv p x as m n \<and> dseg nx pv m n bs q y)"
  by (induction as arbitrary: p x) auto

lemma dseg_cong:
  "(\<And>a. a \<in> set as \<Longrightarrow> nx a = nx' a \<and> pv a = pv' a) \<Longrightarrow>
     dseg nx pv p x as q y = dseg nx' pv' p x as q y"
  by (induction as arbitrary: p x) auto

lemma dseg_transfer:
  "dseg nx pv p x as q y \<Longrightarrow> (\<And>a. a \<in> set as \<Longrightarrow> nx' a = nx a \<and> pv' a = pv a) \<Longrightarrow>
     dseg nx' pv' p x as q y"
  using dseg_cong [of as nx' nx pv' pv p x q y] by blast

lemma dseg_last: "dseg nx pv p x as q y \<Longrightarrow> as \<noteq> [] \<Longrightarrow> q = Some (last as)"
  by (induction as arbitrary: p x) auto

lemma dseg_first: "dseg nx pv p x as q y \<Longrightarrow> as \<noteq> [] \<Longrightarrow> x = Some (hd as)"
  by (cases as) auto

lemma dseg_unique:
  "dseg nx pv p x as q None \<Longrightarrow> dseg nx pv' p' x bs q' None \<Longrightarrow> as = bs"
proof (induction as arbitrary: p p' x bs)
  case Nil
  then show ?case by (cases bs) auto
next
  case (Cons a as)
  then obtain bs' where "bs = a # bs'" by (cases bs) auto
  with Cons.prems Cons.IH show ?case by auto
qed

lemma dseg_distinct: "dseg nx pv p x as q None \<Longrightarrow> distinct as"
proof (induction as arbitrary: p x)
  case Nil
  then show ?case by simp
next
  case (Cons a as)
  have "a \<notin> set as"
  proof
    assume "a \<in> set as"
    then obtain us vs where as: "as = us @ a # vs" by (auto dest: split_list)
    from Cons.prems have "dseg nx pv (Some a) (nx a) as q None" by simp
    moreover from this have "dseg nx pv (Some a) (nx a) vs q None"
      by (auto simp: as dseg_append)
    ultimately have "as = vs" by (rule dseg_unique)
    with as show False by (metis append_is_Nil_conv length_append length_Cons less_add_Suc2
        less_irrefl_nat add_Suc_right list.distinct(1))
  qed
  with Cons show ?case by auto
qed

section \<open>Whole lists\<close>

abbreviation dlist :: "('a \<Rightarrow> 'a option) \<Rightarrow> ('a \<Rightarrow> 'a option) \<Rightarrow> 'a option \<Rightarrow> 'a list \<Rightarrow>
    'a option \<Rightarrow> bool" where
  "dlist nx pv hp as tp \<equiv> dseg nx pv None hp as tp None"

lemma dlist_head: "dlist nx pv hp as tp \<Longrightarrow> hp = (if as = [] then None else Some (hd as))"
  by (cases as) auto

lemma dlist_tail: "dlist nx pv hp as tp \<Longrightarrow> tp = (if as = [] then None else Some (last as))"
  using dseg_last by fastforce

text \<open>Pushing a new node in front, as \<open>kfree\<close> does.\<close>

lemma dlist_push:
  assumes "dlist nx pv hp as tp" and "b \<notin> set as"
    and "nx' b = hp" and "pv' b = None"
    and "\<And>a. a \<in> set as \<Longrightarrow> nx' a = nx a"
    and "\<And>a. a \<in> set as \<Longrightarrow> pv' a = (if hp = Some a then Some b else pv a)"
  shows "dlist nx' pv' (Some b) (b # as) (if as = [] then Some b else tp)"
proof (cases as)
  case Nil
  with assms show ?thesis by auto
next
  case (Cons c cs)
  with assms(1) have c: "hp = Some c" "pv c = None" "dseg nx pv (Some c) (nx c) cs tp None"
    by auto
  have "nx' a = nx a \<and> pv' a = pv a" if "a \<in> set cs" for a
    using that Cons c(1) assms(5,6) [of a] dseg_distinct [OF assms(1)] by auto
  then have "dseg nx' pv' (Some c) (nx c) cs tp None"
    by (rule dseg_transfer [OF c(3)])
  moreover have "nx' c = nx c" "pv' c = Some b"
    using Cons c(1) assms(5,6) [of c] by auto
  ultimately show ?thesis
    using Cons c(1) assms(3,4) by auto
qed

text \<open>Appending a node at the end, as the run queue does.\<close>

lemma dlist_append_last:
  assumes "dlist nx pv hp as tp" and "b \<notin> set as"
    and "nx' b = None" and "pv' b = tp"
    and "\<And>a. a \<in> set as \<Longrightarrow> nx' a = (if tp = Some a then Some b else nx a)"
    and "\<And>a. a \<in> set as \<Longrightarrow> pv' a = pv a"
  shows "dlist nx' pv' (if as = [] then Some b else hp) (as @ [b]) (Some b)"
proof (cases as rule: rev_cases)
  case Nil
  with assms show ?thesis by auto
next
  case (snoc cs c)
  from assms(1) obtain m where seg: "dseg nx pv None hp cs m (Some c)" and c: "pv c = m"
      "tp = Some c"
    unfolding snoc dseg_append dseg.simps by blast
  have "distinct as"
    using assms(1) by (rule dseg_distinct)
  then have "nx' a = nx a \<and> pv' a = pv a" if "a \<in> set cs" for a
    using that snoc c assms(5,6) [of a] by auto
  then have "dseg nx' pv' None hp cs m (Some c)"
    by (rule dseg_transfer [OF seg])
  moreover have "nx' c = Some b" "pv' c = m"
    using snoc c assms(5,6) [of c] by auto
  ultimately show ?thesis
    using snoc assms(3,4) c by (auto simp: dseg_append)
qed

text \<open>
  Taking a node out: its neighbours (or the head and tail pointers) are linked together.
\<close>

lemma dlist_remove:
  assumes l: "dlist nx pv hp (as @ b # cs) tp"
    and nx': "\<And>a. a \<in> set (as @ cs) \<Longrightarrow> nx' a = (if pv b = Some a then nx b else nx a)"
    and pv': "\<And>a. a \<in> set (as @ cs) \<Longrightarrow> pv' a = (if nx b = Some a then pv b else pv a)"
  shows "dlist nx' pv' (if pv b = None then nx b else hp) (as @ cs)
    (if nx b = None then pv b else tp)"
proof -
  have dist: "distinct (as @ b # cs)"
    using l by (rule dseg_distinct)
  from l obtain m where left: "dseg nx pv None hp as m (Some b)" and pb: "pv b = m"
    and right: "dseg nx pv (Some b) (nx b) cs tp None"
    by (auto simp: dseg_append)
  have left': "dseg nx' pv' None (if pv b = None then nx b else hp) as m (nx b)"
  proof (cases as rule: rev_cases)
    case Nil
    with left pb show ?thesis by auto
  next
    case (snoc us u)
    from left obtain k where seg: "dseg nx pv None hp us k (Some u)" "pv u = k" "m = Some u"
      unfolding snoc dseg_append dseg.simps by blast
    have nxb: "nx b \<noteq> Some a" if "a \<in> set as" for a
      using that right dist by (cases cs) auto
    have "nx' a = nx a \<and> pv' a = pv a" if "a \<in> set us" for a
      using that snoc nx' [of a] pv' [of a] nxb [of a] dist pb seg(3) by auto
    then have "dseg nx' pv' None hp us k (Some u)"
      by (rule dseg_transfer [OF seg(1)])
    moreover have "nx' u = nx b" "pv' u = k"
      using snoc nx' [of u] pv' [of u] nxb [of u] pb seg(2,3) by auto
    ultimately show ?thesis
      using seg(3) snoc pb by (auto simp: dseg_append)
  qed
  have right': "dseg nx' pv' m (nx b) cs (if nx b = None then pv b else tp) None"
  proof (cases cs)
    case Nil
    with right pb show ?thesis by auto
  next
    case (Cons c ds)
    have pbn: "pv b \<noteq> Some a" if "a \<in> set cs" for a
      using that dist left pb dseg_last [OF left] by (cases as rule: rev_cases) auto
    have nxb: "nx b = Some c" and rest: "dseg nx pv (Some c) (nx c) ds tp None"
      using right Cons by auto
    have "nx' a = nx a \<and> pv' a = pv a" if "a \<in> set ds" for a
      using that Cons nx' [of a] pv' [of a] pbn [of a] dist nxb by auto
    then have "dseg nx' pv' (Some c) (nx c) ds tp None"
      by (rule dseg_transfer [OF rest])
    moreover have "nx' c = nx c" "pv' c = m"
      using Cons nx' [of c] pv' [of c] pbn [of c] nxb pb by auto
    ultimately show ?thesis
      using Cons nxb by auto
  qed
  from left' right' show ?thesis unfolding dseg_append by blast
qed

lemma dlist_next: "dlist nx pv hp (as @ b # cs) tp \<Longrightarrow> nx b = (if cs = [] then None else Some (hd cs))"
  by (cases cs) (auto simp: dseg_append)

lemma dlist_prev: "dlist nx pv hp (as @ b # cs) tp \<Longrightarrow> pv b = (if as = [] then None else Some (last as))"
  by (cases as rule: rev_cases) (auto simp: dseg_append)

lemma dlist_neighbours:
  assumes "dlist nx pv hp (as @ b # cs) tp"
  shows "nx b \<noteq> Some b" and "pv b \<noteq> Some b" and "nx b = Some x \<Longrightarrow> x \<in> set cs"
    and "pv b = Some x \<Longrightarrow> x \<in> set as" and "nx b = Some x \<Longrightarrow> pv b \<noteq> Some x"
proof -
  have "distinct (as @ b # cs)"
    using assms by (rule dseg_distinct)
  then show "nx b \<noteq> Some b" and "pv b \<noteq> Some b" and "nx b = Some x \<Longrightarrow> x \<in> set cs"
    and "pv b = Some x \<Longrightarrow> x \<in> set as" and "nx b = Some x \<Longrightarrow> pv b \<noteq> Some x"
    unfolding dlist_next [OF assms] dlist_prev [OF assms]
    by (cases cs; cases as rule: rev_cases; auto split: if_splits)+
qed

section \<open>Singly linked lists\<close>

text \<open>\<open>slist nx x as\<close>: the links lead from the pointer \<open>x\<close> through the nodes \<open>as\<close> to \<^verbatim>\<open>NULL\<close>.\<close>

fun slist :: "('a \<Rightarrow> 'a option) \<Rightarrow> 'a option \<Rightarrow> 'a list \<Rightarrow> bool" where
  "slist nx x [] \<longleftrightarrow> x = None"
| "slist nx x (a # as) \<longleftrightarrow> x = Some a \<and> slist nx (nx a) as"

lemma slist_None [simp]: "slist nx None as \<longleftrightarrow> as = []"
  by (cases as) auto

lemma slist_Some: "slist nx (Some a) as \<longleftrightarrow> (\<exists>bs. as = a # bs \<and> slist nx (nx a) bs)"
  by (cases as) auto

lemma slist_unique: "slist nx x as \<Longrightarrow> slist nx x bs \<Longrightarrow> as = bs"
proof (induction as arbitrary: x bs)
  case (Cons a as)
  then obtain bs' where "bs = a # bs'" by (cases bs) auto
  with Cons show ?case by auto
qed simp

lemma slist_cong: "(\<And>a. a \<in> set as \<Longrightarrow> nx a = nx' a) \<Longrightarrow> slist nx x as = slist nx' x as"
  by (induction as arbitrary: x) auto

lemma slist_suffix: "slist nx x (as @ b # bs) \<Longrightarrow> slist nx (nx b) bs"
  by (induction as arbitrary: x) auto

lemma slist_distinct: "slist nx x as \<Longrightarrow> distinct as"
proof (induction as arbitrary: x)
  case (Cons a as)
  have "a \<notin> set as"
  proof
    assume "a \<in> set as"
    then obtain us vs where as: "as = us @ a # vs" by (auto dest: split_list)
    from Cons.prems have "slist nx (nx a) as" by simp
    moreover from this have "slist nx (nx a) vs"
      unfolding as by (rule slist_suffix)
    ultimately have "as = vs" by (rule slist_unique)
    with as show False
      by (metis append_Cons append_assoc append_self_conv2 list.distinct(1) append_is_Nil_conv)
  qed
  with Cons show ?case by auto
qed simp

text \<open>
  Taking out the first node, or a later one by redirecting the link of its predecessor; redirecting
  a link of a node off the list changes nothing.
\<close>

lemma slist_remove:
  assumes "slist nx x (as @ p # b # cs)"
  shows "slist (nx(p := nx b)) x (as @ p # cs)"
  using assms
proof (induction as arbitrary: x)
  case Nil
  then have "distinct (p # b # cs)"
    using slist_distinct by fastforce
  then have "slist (nx(p := nx b)) (nx b) cs = slist nx (nx b) cs"
    by (intro slist_cong) auto
  with Nil show ?case by (simp add: fun_upd_def)
next
  case (Cons a as)
  then have "a \<noteq> p"
    using slist_distinct by fastforce
  with Cons show ?case by (auto simp: fun_upd_def)
qed

lemma slist_link: "slist nx x (as @ p # b # cs) \<Longrightarrow> nx p = Some b"
  by (induction as arbitrary: x) auto

lemma slist_off: "b \<notin> set as \<Longrightarrow> slist (nx(b := y)) x as = slist nx x as"
  by (rule slist_cong) auto

end
