(* ===== verification/Kmalloc.thy ===== *)
theory Kmalloc
  imports Kernel_String Linked_Lists
begin

text \<open>
  The kernel heap, \<^verbatim>\<open>kernel/mm/kmalloc.c\<close>: a first-fit allocator over one region that is
  tiled by blocks, each starting with a header; the free blocks are chained in a doubly linked
  list. The invariant \<open>heap_inv\<close> says that the blocks tile the region, that the free list holds
  exactly the blocks marked free, and that the usage counter is the sum of the used blocks.
\<close>

section \<open>State\<close>

record block_header =
  bsize :: nat
  bmagic :: u32
  bflags :: u32
  bnext :: ptr
  bprev :: ptr

text \<open>
  \<open>hdr\<close> is memory read as block headers, \<open>kbytes\<close> the bytes of the data areas;
  \<open>phys_total\<close> is what \<^verbatim>\<open>pmm_get_total_memory\<close> returns.
\<close>

record kheap =
  heap_start :: addr
  heap_end :: addr
  free_list :: ptr
  heap_total :: nat
  kheap_used :: nat
  heap_initialized :: bool
  heap_lock :: bool
  hdr :: "addr \<Rightarrow> block_header"
  kbytes :: mem
  phys_total :: nat

definition BLOCK_MAGIC_FREE :: u32 where "BLOCK_MAGIC_FREE = 0xDEADBEEF"
definition BLOCK_MAGIC_USED :: u32 where "BLOCK_MAGIC_USED = 0xCAFEBABE"

abbreviation (input) "BLOCK_FLAG_FREE \<equiv> (1 :: u32)"
abbreviation (input) "GFP_KERNEL \<equiv> (0 :: u32)"
abbreviation (input) "GFP_ZERO \<equiv> (2 :: u32)"
abbreviation (input) "header_size \<equiv> (40 :: nat)"
abbreviation (input) "MIN_ALLOC \<equiv> (32 :: nat)"

definition MAX_ALLOC :: nat where "MAX_ALLOC = 64 * 1024 * 1024"
definition DEFAULT_HEAP_SIZE :: nat where "DEFAULT_HEAP_SIZE = 512 * 1024 * 1024"
definition MIN_HEAP_SIZE :: nat where "MIN_HEAP_SIZE = 64 * 1024 * 1024"
definition HEAP_BASE :: nat where "HEAP_BASE = 0x42000000"
definition PMM_MEMORY_BASE :: nat where "PMM_MEMORY_BASE = 0x40000000"

section \<open>Operations\<close>

text \<open>
  \<open>lock_heap\<close> spins while another holder has the lock; with no other holder to release it,
  spinning never ends, which is \<^const>\<open>None\<close>.
\<close>

definition lock_heap :: "kheap \<Rightarrow> kheap option" where
  "lock_heap s = (if heap_lock s then None else Some (s\<lparr>heap_lock := True\<rparr>))"

definition unlock_heap :: "kheap \<Rightarrow> kheap" where
  "unlock_heap s = s\<lparr>heap_lock := False\<rparr>"

definition align_up :: "u64 \<Rightarrow> u64 \<Rightarrow> u64" where
  "align_up val align = (val + align - 1) AND NOT (align - 1)"

definition block_data :: "addr \<Rightarrow> addr" where
  "block_data block = block + header_size"

definition data_to_block :: "addr \<Rightarrow> addr" where
  "data_to_block p = p - header_size"

definition kmalloc_init :: "kheap \<Rightarrow> kheap" where
  "kmalloc_init s =
     (let total_memory = phys_total s;
          heap_ceiling =
            (if total_memory > HEAP_BASE - PMM_MEMORY_BASE
             then total_memory - (HEAP_BASE - PMM_MEMORY_BASE) else 0);
          total = DEFAULT_HEAP_SIZE;
          total = (if heap_ceiling \<noteq> 0 \<and> total > heap_ceiling then heap_ceiling else total);
          total = (if total < MIN_HEAP_SIZE then MIN_HEAP_SIZE else total)
      in s\<lparr>heap_start := HEAP_BASE,
           heap_total := total,
           heap_end := HEAP_BASE + total,
           kheap_used := 0,
           free_list := Some HEAP_BASE,
           hdr := (hdr s)(HEAP_BASE :=
             \<lparr>bsize = total, bmagic = BLOCK_MAGIC_FREE, bflags = BLOCK_FLAG_FREE,
              bnext = None, bprev = None\<rparr>),
           heap_initialized := True\<rparr>)"

text \<open>The first-fit search: the previous free block and the block that fits.\<close>

datatype fit = Fit ptr addr | No_fit | Corrupted

partial_function (option) find_fit ::
    "(addr \<Rightarrow> block_header) \<Rightarrow> nat \<Rightarrow> ptr \<Rightarrow> ptr \<Rightarrow> fit option" where
  "find_fit h total_size prev_free block =
     (if block = None then Some No_fit
      else if bmagic (h (the block)) \<noteq> BLOCK_MAGIC_FREE then Some Corrupted
      else if bsize (h (the block)) \<ge> total_size then Some (Fit prev_free (the block))
      else find_fit h total_size block (bnext (h (the block))))"

definition split_block :: "(addr \<Rightarrow> block_header) \<Rightarrow> addr \<Rightarrow> nat \<Rightarrow> (addr \<Rightarrow> block_header)" where
  "split_block h block total_size =
     (if bsize (h block) \<ge> total_size + header_size + MIN_ALLOC
      then let new_block = block + total_size;
               h1 = h(new_block :=
                 \<lparr>bsize = bsize (h block) - total_size, bmagic = BLOCK_MAGIC_FREE,
                  bflags = BLOCK_FLAG_FREE, bnext = bnext (h block), bprev = Some block\<rparr>);
               h2 = (case bnext (h1 block) of
                       None \<Rightarrow> h1
                     | Some n \<Rightarrow> h1(n := (h1 n)\<lparr>bprev := Some new_block\<rparr>))
           in h2(block := (h2 block)\<lparr>bsize := total_size, bnext := Some new_block\<rparr>)
      else h)"

text \<open>Unlinking the chosen block from the free list and marking it used.\<close>

definition take_block ::
    "(addr \<Rightarrow> block_header) \<Rightarrow> ptr \<Rightarrow> ptr \<Rightarrow> addr \<Rightarrow> (addr \<Rightarrow> block_header) \<times> ptr" where
  "take_block h fl prev_free block =
     (let (h1, fl1) = (case prev_free of
                 Some p \<Rightarrow> (h(p := (h p)\<lparr>bnext := bnext (h block)\<rparr>), fl)
               | None \<Rightarrow> (h, bnext (h block)));
          h2 = (case bnext (h1 block) of
                  Some n \<Rightarrow> h1(n := (h1 n)\<lparr>bprev := prev_free\<rparr>)
                | None \<Rightarrow> h1)
      in (h2(block := (h2 block)\<lparr>bmagic := BLOCK_MAGIC_USED, bflags := 0, bnext := None\<rparr>), fl1))"

text \<open>\<open>_kmalloc\<close> of the source, which the macro \<^verbatim>\<open>kmalloc\<close> expands to.\<close>

definition kmalloc :: "kheap \<Rightarrow> nat \<Rightarrow> u32 \<Rightarrow> (kheap \<times> ptr) option" where
  "kmalloc s0 sz flags =
     (let s = (if heap_initialized s0 then s0 else kmalloc_init s0) in
      if sz = 0 \<or> sz > MAX_ALLOC then Some (s, None)
      else
        let total_size = unat (align_up (of_nat (sz + header_size)) (of_nat MIN_ALLOC)) in
        (case lock_heap s of
          None \<Rightarrow> None
        | Some s1 \<Rightarrow>
            (case find_fit (hdr s1) total_size None (free_list s1) of
               None \<Rightarrow> None
             | Some Corrupted \<Rightarrow> Some (unlock_heap s1, None)
             | Some No_fit \<Rightarrow> Some (unlock_heap s1, None)
             | Some (Fit prev_free block) \<Rightarrow>
                 let h1 = split_block (hdr s1) block total_size;
                     (h2, fl) = take_block h1 (free_list s1) prev_free block;
                     s2 = unlock_heap (s1\<lparr>hdr := h2, free_list := fl,
                            kheap_used := kheap_used s1 + bsize (h2 block)\<rparr>);
                     p = block_data block
                 in Some (if flags AND GFP_ZERO \<noteq> 0
                          then s2\<lparr>kbytes := memset_loop (kbytes s2) p 0 sz\<rparr> else s2,
                          Some p))))"

definition kzalloc :: "kheap \<Rightarrow> nat \<Rightarrow> u32 \<Rightarrow> (kheap \<times> ptr) option" where
  "kzalloc s sz flags = kmalloc s sz (flags OR GFP_ZERO)"

text \<open>Putting a block in front of the free list.\<close>

definition push_free ::
    "(addr \<Rightarrow> block_header) \<Rightarrow> ptr \<Rightarrow> addr \<Rightarrow> (addr \<Rightarrow> block_header)" where
  "push_free h fl block =
     (let h1 = h(block := (h block)\<lparr>bmagic := BLOCK_MAGIC_FREE, bflags := BLOCK_FLAG_FREE,
                                 bnext := fl, bprev := None\<rparr>)
      in case fl of None \<Rightarrow> h1 | Some f \<Rightarrow> h1(f := (h1 f)\<lparr>bprev := Some block\<rparr>))"

text \<open>Merging a freed block with the next physical block when that is free.\<close>

definition coalesce_next ::
    "(addr \<Rightarrow> block_header) \<Rightarrow> addr \<Rightarrow> addr \<Rightarrow> (addr \<Rightarrow> block_header)" where
  "coalesce_next h limit block =
     (let np = block + bsize (h block) in
      if np < limit \<and> bmagic (h np) = BLOCK_MAGIC_FREE
      then let h1 = (case bprev (h np) of
                       Some q \<Rightarrow> h(q := (h q)\<lparr>bnext := bnext (h np)\<rparr>) | None \<Rightarrow> h);
               h2 = (case bnext (h1 np) of
                       Some n \<Rightarrow> h1(n := (h1 n)\<lparr>bprev := bprev (h1 np)\<rparr>) | None \<Rightarrow> h1);
               h3 = h2(block := (h2 block)\<lparr>bsize := bsize (h2 block) + bsize (h2 np)\<rparr>)
           in h3(np := (h3 np)\<lparr>bmagic := 0\<rparr>)
      else h)"

definition kfree :: "kheap \<Rightarrow> ptr \<Rightarrow> kheap option" where
  "kfree s p =
     (case p of
        None \<Rightarrow> Some s
      | Some a \<Rightarrow>
          let block = data_to_block a in
          if bmagic (hdr s block) \<noteq> BLOCK_MAGIC_USED then Some s
          else (case lock_heap s of
            None \<Rightarrow> None
          | Some s1 \<Rightarrow>
              let used = kheap_used s1 - bsize (hdr s1 block);
                  h1 = push_free (hdr s1) (free_list s1) block;
                  h2 = coalesce_next h1 (heap_end s1) block
              in Some (unlock_heap (s1\<lparr>kheap_used := used, hdr := h2, free_list := Some block\<rparr>))))"

definition krealloc :: "kheap \<Rightarrow> ptr \<Rightarrow> nat \<Rightarrow> u32 \<Rightarrow> (kheap \<times> ptr) option" where
  "krealloc s p new_size flags =
     (case p of
        None \<Rightarrow> kmalloc s new_size flags
      | Some a \<Rightarrow>
          if new_size = 0 then map_option (\<lambda>s'. (s', None)) (kfree s p)
          else
            let block = data_to_block a;
                old_size = bsize (hdr s block) - header_size in
            if new_size \<le> old_size then Some (s, p)
            else (case kmalloc s new_size flags of
              None \<Rightarrow> None
            | Some (s1, None) \<Rightarrow> Some (s1, None)
            | Some (s1, Some q) \<Rightarrow>
                map_option (\<lambda>s2. (s2, Some q))
                  (kfree (s1\<lparr>kbytes := memcpy_loop (kbytes s1) q a old_size\<rparr>) p)))"

definition kmalloc_get_stats :: "kheap \<Rightarrow> nat \<times> nat \<times> nat" where
  "kmalloc_get_stats s = (heap_total s, kheap_used s, heap_total s - kheap_used s)"

text \<open>
  The heap is seen in two ways, as block headers and as bytes. A program load that writes into the heap
  (\<open>m\<close> is the memory after it) destroys the headers of its blocks, which the two
  views cannot show; such a call has no result.
\<close>

definition loads_into_heap :: "kheap \<Rightarrow> mem \<Rightarrow> bool" where
  "loads_into_heap h m \<longleftrightarrow> (\<exists>a \<in> {heap_start h..<heap_end h}. m a \<noteq> kbytes h a)"

section \<open>Tilings\<close>

text \<open>\<open>tiles h a e ts\<close>: the blocks \<open>ts\<close> follow one another from \<open>a\<close> up to \<open>e\<close>.\<close>

fun tiles :: "(addr \<Rightarrow> block_header) \<Rightarrow> addr \<Rightarrow> addr \<Rightarrow> addr list \<Rightarrow> bool" where
  "tiles h a e [] \<longleftrightarrow> a = e"
| "tiles h a e (b # bs) \<longleftrightarrow>
     a = b \<and> header_size \<le> bsize (h b) \<and> 32 dvd bsize (h b) \<and> tiles h (b + bsize (h b)) e bs"

lemma tiles_append: "tiles h a e (us @ vs) \<longleftrightarrow> (\<exists>m. tiles h a m us \<and> tiles h m e vs)"
  by (induction us arbitrary: a) auto

lemma tiles_cong:
  "(\<And>b. b \<in> set ts \<Longrightarrow> bsize (h' b) = bsize (h b)) \<Longrightarrow> tiles h' a e ts = tiles h a e ts"
  by (induction ts arbitrary: a) auto

lemma tiles_le: "tiles h a e ts \<Longrightarrow> a \<le> e"
  by (induction ts arbitrary: a) fastforce+

lemma tiles_total: "tiles h a e ts \<Longrightarrow> e = a + sum_list (map (\<lambda>b. bsize (h b)) ts)"
proof (induction ts arbitrary: a)
  case (Cons b ts)
  from Cons.prems have "tiles h (b + bsize (h b)) e ts" and "a = b"
    by simp_all
  with Cons.IH show ?case by (fastforce simp: add.assoc)
qed simp

lemma tiles_member:
  assumes "tiles h a e ts" and "b \<in> set ts"
  shows "a \<le> b" and "b + bsize (h b) \<le> e" and "header_size \<le> bsize (h b)" and "32 dvd bsize (h b)"
proof -
  obtain us vs where "ts = us @ b # vs"
    using assms(2) by (auto dest: split_list)
  with assms(1) show "a \<le> b" and "b + bsize (h b) \<le> e" and "header_size \<le> bsize (h b)"
      and "32 dvd bsize (h b)"
    by (auto simp: tiles_append dest: tiles_le)
qed

lemma tiles_next:
  "tiles h a e (us @ b # vs) \<Longrightarrow> c \<in> set vs \<Longrightarrow> b + bsize (h b) \<le> c"
  by (auto simp: tiles_append dest: tiles_member(1))

lemma tiles_before:
  "tiles h a e (us @ b # vs) \<Longrightarrow> c \<in> set us \<Longrightarrow> c + bsize (h c) \<le> b"
  by (auto simp: tiles_append dest: tiles_member(2))

lemma tiles_distinct: "tiles h a e ts \<Longrightarrow> distinct ts"
proof (induction ts arbitrary: a)
  case (Cons b bs)
  then show ?case
    using tiles_next [of h a e "[]" b bs b] by fastforce
qed simp

lemma tiles_aligned: "tiles h a e ts \<Longrightarrow> b \<in> set ts \<Longrightarrow> 32 dvd a \<Longrightarrow> 32 dvd b"
  by (induction ts arbitrary: a) auto

text \<open>Two different blocks do not overlap.\<close>

lemma tiles_disjoint:
  assumes "tiles h a e ts" and "b \<in> set ts" and "c \<in> set ts" and "b \<noteq> c"
  shows "disjoint_ranges b (bsize (h b)) c (bsize (h c))"
proof -
  obtain us vs where ts: "ts = us @ b # vs"
    using assms(2) by (auto dest: split_list)
  with assms show ?thesis
    using tiles_next [of h a e us b vs c] tiles_before [of h a e us b vs c]
    by (auto simp: disjoint_ranges_def)
qed

text \<open>An address strictly inside a block is not the start of another block.\<close>

lemma tiles_inside:
  assumes "tiles h a e ts" and "b \<in> set ts" and "b < x" and "x < b + bsize (h b)"
  shows "x \<notin> set ts"
proof
  assume "x \<in> set ts"
  with assms have "disjoint_ranges b (bsize (h b)) x (bsize (h x))" and "header_size \<le> bsize (h x)"
    by (auto intro: tiles_disjoint dest: tiles_member(3))
  with assms(3,4) show False by (auto simp: disjoint_ranges_def)
qed

section \<open>Tiling and free list together\<close>

abbreviation "nextf h \<equiv> (\<lambda>a. bnext (h a))"
abbreviation "prevf h \<equiv> (\<lambda>a. bprev (h a))"

definition free_structure ::
    "(addr \<Rightarrow> block_header) \<Rightarrow> addr \<Rightarrow> addr \<Rightarrow> ptr \<Rightarrow> addr list \<Rightarrow> addr list \<Rightarrow> bool" where
  "free_structure h lo hi fl ts fs \<longleftrightarrow>
     tiles h lo hi ts \<and> (\<exists>tp. dlist (nextf h) (prevf h) fl fs tp) \<and> set fs \<subseteq> set ts \<and>
     (\<forall>b \<in> set ts. bmagic (h b) = (if b \<in> set fs then BLOCK_MAGIC_FREE else BLOCK_MAGIC_USED))"

definition used_size :: "(addr \<Rightarrow> block_header) \<Rightarrow> addr list \<Rightarrow> addr list \<Rightarrow> nat" where
  "used_size h ts fs = sum_list (map (\<lambda>b. bsize (h b)) (filter (\<lambda>b. b \<notin> set fs) ts))"

lemma magics_differ [simp]: "BLOCK_MAGIC_FREE \<noteq> BLOCK_MAGIC_USED" "BLOCK_MAGIC_USED \<noteq> BLOCK_MAGIC_FREE"
    "BLOCK_MAGIC_USED \<noteq> 0" "BLOCK_MAGIC_FREE \<noteq> 0"
  by (simp_all add: BLOCK_MAGIC_FREE_def BLOCK_MAGIC_USED_def)

lemma free_structure_distinct:
  "free_structure h lo hi fl ts fs \<Longrightarrow> distinct ts \<and> distinct fs"
  by (auto simp: free_structure_def dest: tiles_distinct dseg_distinct)

lemma find_fit_spec:
  assumes "dseg (nextf h) (prevf h) p x fs tp None"
    and "\<forall>b \<in> set fs. bmagic (h b) = BLOCK_MAGIC_FREE"
  shows "(\<exists>as b cs. fs = as @ b # cs \<and> (\<forall>a \<in> set as. bsize (h a) < t) \<and> t \<le> bsize (h b) \<and>
            find_fit h t p x = Some (Fit (if as = [] then p else Some (last as)) b)) \<or>
         (\<forall>a \<in> set fs. bsize (h a) < t) \<and> find_fit h t p x = Some No_fit"
  using assms
proof (induction fs arbitrary: p x)
  case Nil
  then show ?case by (simp add: find_fit.simps)
next
  case (Cons c fs)
  then have x: "x = Some c" and seg: "dseg (nextf h) (prevf h) (Some c) (bnext (h c)) fs tp None"
    and free: "bmagic (h c) = BLOCK_MAGIC_FREE"
    by auto
  show ?case
  proof (cases "t \<le> bsize (h c)")
    case True
    then have "find_fit h t p x = Some (Fit p c)"
      by (simp add: find_fit.simps x free)
    with True show ?thesis by (intro disjI1 exI [of _ "[]"]) auto
  next
    case False
    then have step: "find_fit h t p x = find_fit h t (Some c) (bnext (h c))"
      by (subst find_fit.simps) (simp add: x free)
    have free': "\<forall>b \<in> set fs. bmagic (h b) = BLOCK_MAGIC_FREE"
      using Cons.prems(2) by simp
    from Cons.IH [OF seg free'] show ?thesis
    proof (elim disjE exE conjE)
      fix as b cs
      assume "fs = as @ b # cs" "\<forall>a \<in> set as. bsize (h a) < t" "t \<le> bsize (h b)"
        "find_fit h t (Some c) (bnext (h c)) = Some (Fit (if as = [] then Some c else Some (last as)) b)"
      with False step show ?thesis
        by (intro disjI1 exI [of _ "c # as"] exI [of _ b] exI [of _ cs]) auto
    next
      assume "\<forall>a \<in> set fs. bsize (h a) < t" "find_fit h t (Some c) (bnext (h c)) = Some No_fit"
      with False step show ?thesis by auto
    qed
  qed
qed

section \<open>Splitting, taking, freeing, merging\<close>

subsection \<open>Splitting\<close>

lemma split_block_fields:
  assumes dl: "dlist (nextf h) (prevf h) fl (as @ b # cs) tp" and "b + t \<notin> set (as @ b # cs)"
    and "t + header_size + MIN_ALLOC \<le> bsize (h b)" and "0 < t"
  shows "split_block h b t x =
    (if x = b then (h b)\<lparr>bsize := t, bnext := Some (b + t)\<rparr>
     else if x = b + t then \<lparr>bsize = bsize (h b) - t, bmagic = BLOCK_MAGIC_FREE,
            bflags = BLOCK_FLAG_FREE, bnext = bnext (h b), bprev = Some b\<rparr>
     else if bnext (h b) = Some x then (h x)\<lparr>bprev := Some (b + t)\<rparr> else h x)"
  using assms dlist_neighbours(1,3) [OF dl]
  by (cases "bnext (h b)") (auto simp: split_block_def Let_def)

lemma split_block_dlist:
  assumes dl: "dlist (nextf h) (prevf h) fl (as @ b # cs) tp" and new: "b + t \<notin> set (as @ b # cs)"
    and big: "t + header_size + MIN_ALLOC \<le> bsize (h b)" and t: "0 < t"
  shows "\<exists>tp. dlist (nextf (split_block h b t)) (prevf (split_block h b t)) fl (as @ b # (b + t) # cs) tp"
proof -
  let ?n = "b + t" and ?h = "split_block h b t"
  note fields = split_block_fields [OF dl new big t]
  have dist: "distinct (as @ b # cs)" and nb: "bnext (h b) = (if cs = [] then None else Some (hd cs))"
    using dseg_distinct [OF dl] dlist_next [OF dl] by auto
  have links: "bnext (?h b) = Some ?n" "bprev (?h b) = bprev (h b)"
      "bnext (?h ?n) = bnext (h b)" "bprev (?h ?n) = Some b"
    using t by (simp_all add: fields)
  from dl obtain m where left: "dseg (nextf h) (prevf h) None fl as m (Some b)" "bprev (h b) = m"
    and right: "dseg (nextf h) (prevf h) (Some b) (bnext (h b)) cs tp None"
    by (auto simp: dseg_append)
  have "dseg (nextf ?h) (prevf ?h) None fl as m (Some b)"
    by (rule dseg_transfer [OF left(1)]) (use new dist nb in \<open>cases cs; auto simp: fields\<close>)
  moreover have "\<exists>tp. dseg (nextf ?h) (prevf ?h) (Some ?n) (bnext (h b)) cs tp None"
  proof (cases cs)
    case Nil
    with nb show ?thesis by simp
  next
    case (Cons c ds)
    with right have "dseg (nextf h) (prevf h) (Some c) (bnext (h c)) ds tp None"
      by simp
    then have "dseg (nextf ?h) (prevf ?h) (Some c) (bnext (h c)) ds tp None"
      by (rule dseg_transfer) (use new dist nb Cons in \<open>auto simp: fields\<close>)
    moreover have "bprev (?h c) = Some ?n" "bnext (?h c) = bnext (h c)"
      using Cons nb new dist by (auto simp: fields)
    ultimately show ?thesis
      using Cons nb by auto
  qed
  ultimately show ?thesis
    unfolding dseg_append dseg.simps using left(2) links by auto
qed

lemma split_block_tiles:
  assumes til: "tiles h lo hi (us @ b # vs)" and new: "b + t \<notin> set (us @ b # vs)"
    and sz: "bsize (h' b) = t" "bsize (h' (b + t)) = bsize (h b) - t"
      "\<And>x. x \<noteq> b \<Longrightarrow> x \<noteq> b + t \<Longrightarrow> bsize (h' x) = bsize (h x)"
    and big: "t + header_size + MIN_ALLOC \<le> bsize (h b)" and t: "header_size \<le> t" "32 dvd t"
  shows "tiles h' lo hi (us @ b # (b + t) # vs)"
proof -
  have dist: "distinct (us @ b # vs)"
    using til by (rule tiles_distinct)
  from til obtain m where 1: "tiles h lo m us" "m = b" "32 dvd bsize (h b)"
      "tiles h (b + bsize (h b)) hi vs"
    by (auto simp: tiles_append)
  moreover have "tiles h' lo m us = tiles h lo m us"
      "tiles h' (b + bsize (h b)) hi vs = tiles h (b + bsize (h b)) hi vs"
    using new dist by (intro tiles_cong sz(3); auto)+
  moreover have "32 dvd bsize (h b) - t"
    using 1(3) t(2) by (simp add: dvd_diff_nat)
  ultimately show ?thesis
    using big t by (auto simp: tiles_append sz)
qed

lemma split_block_structure:
  assumes fs: "free_structure h lo hi fl (us @ b # vs) (as @ b # cs)"
    and big: "t + header_size + MIN_ALLOC \<le> bsize (h b)" and t: "header_size \<le> t" "32 dvd t"
  shows "free_structure (split_block h b t) lo hi fl (us @ b # (b + t) # vs) (as @ b # (b + t) # cs)"
    and "bsize (split_block h b t b) = t"
    and "\<And>x. x \<noteq> b \<Longrightarrow> x \<noteq> b + t \<Longrightarrow> bsize (split_block h b t x) = bsize (h x)"
    and "b + t \<notin> set (us @ b # vs)"
    and "bsize (split_block h b t (b + t)) = bsize (h b) - t"
proof -
  let ?n = "b + t" and ?h = "split_block h b t"
  from fs obtain tp where til: "tiles h lo hi (us @ b # vs)"
    and dl: "dlist (nextf h) (prevf h) fl (as @ b # cs) tp" and sub: "set (as @ b # cs) \<subseteq> set (us @ b # vs)"
    and mag: "\<forall>x \<in> set (us @ b # vs).
        bmagic (h x) = (if x \<in> set (as @ b # cs) then BLOCK_MAGIC_FREE else BLOCK_MAGIC_USED)"
    unfolding free_structure_def by blast
  show new: "?n \<notin> set (us @ b # vs)"
    using big t by (intro tiles_inside [OF til, of b]) auto
  then have newf: "?n \<notin> set (as @ b # cs)"
    using sub by blast
  have t0: "0 < t"
    using t(1) by simp
  note fields = split_block_fields [OF dl newf big t0]
  show sz: "bsize (?h b) = t" by (simp add: fields)
  show other: "\<And>x. x \<noteq> b \<Longrightarrow> x \<noteq> ?n \<Longrightarrow> bsize (?h x) = bsize (h x)" by (simp add: fields)
  show "bsize (?h ?n) = bsize (h b) - t" using t0 by (simp add: fields)
  have "tiles ?h lo hi (us @ b # ?n # vs)"
    using t0 by (intro split_block_tiles [OF til new sz _ other big t]) (simp_all add: fields)
  moreover have "\<forall>x \<in> set (us @ b # ?n # vs).
      bmagic (?h x) = (if x \<in> set (as @ b # ?n # cs) then BLOCK_MAGIC_FREE else BLOCK_MAGIC_USED)"
    using mag by (auto simp: fields)
  moreover have "set (as @ b # ?n # cs) \<subseteq> set (us @ b # ?n # vs)"
    using sub by auto
  ultimately show "free_structure ?h lo hi fl (us @ b # ?n # vs) (as @ b # ?n # cs)"
    using split_block_dlist [OF dl newf big t0] unfolding free_structure_def by blast
qed

subsection \<open>Taking a block\<close>

lemma take_block_fields:
  assumes dl: "dlist (nextf h) (prevf h) fl (as @ b # cs) tp"
  shows "fst (take_block h fl (bprev (h b)) b) x =
      (if x = b then (h b)\<lparr>bmagic := BLOCK_MAGIC_USED, bflags := 0, bnext := None\<rparr>
       else if bprev (h b) = Some x then (h x)\<lparr>bnext := bnext (h b)\<rparr>
       else if bnext (h b) = Some x then (h x)\<lparr>bprev := bprev (h b)\<rparr> else h x)"
    and "snd (take_block h fl (bprev (h b)) b) = (if bprev (h b) = None then bnext (h b) else fl)"
  using dlist_neighbours [OF dl]
  by (cases "bprev (h b)"; cases "bnext (h b)"; auto simp: take_block_def Let_def)+

lemma take_block_structure:
  assumes fs: "free_structure h lo hi fl ts (as @ b # cs)"
    and tb: "take_block h fl (if as = [] then None else Some (last as)) b = (h', fl')"
  shows "free_structure h' lo hi fl' ts (as @ cs)" and "\<And>x. bsize (h' x) = bsize (h x)"
proof -
  from fs obtain tp where til: "tiles h lo hi ts"
    and dl: "dlist (nextf h) (prevf h) fl (as @ b # cs) tp" and sub: "set (as @ b # cs) \<subseteq> set ts"
    and mag: "\<forall>x \<in> set ts.
        bmagic (h x) = (if x \<in> set (as @ b # cs) then BLOCK_MAGIC_FREE else BLOCK_MAGIC_USED)"
    unfolding free_structure_def by blast
  have fields: "h' x =
      (if x = b then (h b)\<lparr>bmagic := BLOCK_MAGIC_USED, bflags := 0, bnext := None\<rparr>
       else if bprev (h b) = Some x then (h x)\<lparr>bnext := bnext (h b)\<rparr>
       else if bnext (h b) = Some x then (h x)\<lparr>bprev := bprev (h b)\<rparr> else h x)" for x
    using take_block_fields(1) [OF dl, of x] tb [folded dlist_prev [OF dl]] by simp
  have fl': "fl' = (if bprev (h b) = None then bnext (h b) else fl)"
    using take_block_fields(2) [OF dl] tb [folded dlist_prev [OF dl]] by simp
  show sz: "\<And>x. bsize (h' x) = bsize (h x)" by (simp add: fields)
  have nb: "b \<notin> set (as @ cs)"
    using dseg_distinct [OF dl] by auto
  have "dlist (nextf h') (prevf h') fl' (as @ cs) (if bnext (h b) = None then bprev (h b) else tp)"
    unfolding fl'
  proof (rule dlist_remove [OF dl])
    fix a assume a: "a \<in> set (as @ cs)"
    then show "bnext (h' a) = (if bprev (h b) = Some a then bnext (h b) else bnext (h a))"
      using nb by (auto simp: fields)
    show "bprev (h' a) = (if bnext (h b) = Some a then bprev (h b) else bprev (h a))"
      using a nb dlist_neighbours(5) [OF dl, of a] by (auto simp: fields)
  qed
  moreover have "\<forall>x \<in> set ts.
      bmagic (h' x) = (if x \<in> set (as @ cs) then BLOCK_MAGIC_FREE else BLOCK_MAGIC_USED)"
    using mag nb by (auto simp: fields)
  moreover have "tiles h' lo hi ts" "set (as @ cs) \<subseteq> set ts"
    using til sub tiles_cong [of ts h' h lo hi] sz by auto
  ultimately show "free_structure h' lo hi fl' ts (as @ cs)"
    unfolding free_structure_def by blast
qed

subsection \<open>Freeing\<close>

lemma push_free_structure:
  assumes fs: "free_structure h lo hi fl ts fs" and b: "b \<in> set ts" "b \<notin> set fs"
  shows "free_structure (push_free h fl b) lo hi (Some b) ts (b # fs)"
    and "\<And>x. bsize (push_free h fl b x) = bsize (h x)"
proof -
  let ?h = "push_free h fl b"
  from fs obtain tp where til: "tiles h lo hi ts"
    and dl: "dlist (nextf h) (prevf h) fl fs tp" and sub: "set fs \<subseteq> set ts"
    and mag: "\<forall>x \<in> set ts. bmagic (h x) = (if x \<in> set fs then BLOCK_MAGIC_FREE else BLOCK_MAGIC_USED)"
    unfolding free_structure_def by blast
  have "fl \<noteq> Some b"
    using dl b(2) by (cases fs) auto
  then have fields: "?h x =
      (if x = b then (h b)\<lparr>bmagic := BLOCK_MAGIC_FREE, bflags := BLOCK_FLAG_FREE, bnext := fl, bprev := None\<rparr>
       else if fl = Some x then (h x)\<lparr>bprev := Some b\<rparr> else h x)" for x
    by (cases fl) (auto simp: push_free_def Let_def)
  show sz: "\<And>x. bsize (?h x) = bsize (h x)" by (simp add: fields)
  have "dlist (nextf ?h) (prevf ?h) (Some b) (b # fs) (if fs = [] then Some b else tp)"
    using b(2) by (intro dlist_push [OF dl]) (auto simp: fields)
  moreover have "\<forall>x \<in> set ts.
      bmagic (?h x) = (if x \<in> set (b # fs) then BLOCK_MAGIC_FREE else BLOCK_MAGIC_USED)"
    using mag by (auto simp: fields)
  moreover have "tiles ?h lo hi ts" "set (b # fs) \<subseteq> set ts"
    using til sub b(1) tiles_cong [of ts ?h h lo hi] sz by auto
  ultimately show "free_structure ?h lo hi (Some b) ts (b # fs)"
    unfolding free_structure_def by blast
qed

lemma coalesce_fields:
  assumes dl: "dlist (nextf h) (prevf h) (Some b) ((b # as) @ n # cs) tp"
    and n: "n = b + bsize (h b)" "n < limit" "bmagic (h n) = BLOCK_MAGIC_FREE"
  shows "coalesce_next h limit b x =
    (let y = (if bprev (h n) = Some x then (h x)\<lparr>bnext := bnext (h n)\<rparr>
              else if bnext (h n) = Some x then (h x)\<lparr>bprev := bprev (h n)\<rparr> else h x)
     in if x = b then y\<lparr>bsize := bsize (h b) + bsize (h n)\<rparr>
        else if x = n then y\<lparr>bmagic := 0\<rparr> else y)"
proof -
  have nb: "n \<noteq> b" "b \<noteq> n"
    using dseg_distinct [OF dl] by auto
  obtain q where q: "bprev (h n) = Some q"
    using dlist_prev [OF dl] by simp
  have qn: "q \<noteq> n" and nn: "bnext (h n) \<noteq> Some n" and nq: "bnext (h n) \<noteq> Some q"
    using dlist_neighbours [OF dl] q by auto
  show ?thesis
  proof (cases "bnext (h n)")
    case None
    with nb qn q n(2,3) show ?thesis
      by (simp add: coalesce_next_def Let_def n(1) [symmetric])
  next
    case (Some c)
    with nb qn nn nq q n(2,3) show ?thesis
      by (simp add: coalesce_next_def Let_def n(1) [symmetric])
  qed
qed

lemma tiles_merge:
  assumes til: "tiles h lo hi (us @ b # n # vs)"
    and sz: "bsize (h' b) = bsize (h b) + bsize (h n)" "\<And>x. x \<noteq> b \<Longrightarrow> bsize (h' x) = bsize (h x)"
  shows "tiles h' lo hi (us @ b # vs)"
proof -
  have dist: "distinct (us @ b # n # vs)"
    using til by (rule tiles_distinct)
  from til obtain m where "tiles h lo m us" "m = b" "32 dvd bsize (h b)" "header_size \<le> bsize (h b)"
      "32 dvd bsize (h n)" "b + bsize (h b) = n" "tiles h (n + bsize (h n)) hi vs"
    unfolding tiles_append tiles.simps by blast
  moreover have "tiles h' lo m us = tiles h lo m us"
      "tiles h' (n + bsize (h n)) hi vs = tiles h (n + bsize (h n)) hi vs"
    using dist by (intro tiles_cong sz(2); auto)+
  ultimately show ?thesis
    unfolding tiles_append tiles.simps sz(1) add.assoc [symmetric] by auto
qed

lemma coalesce_structure:
  assumes fs: "free_structure h lo hi (Some b) (us @ b # n # vs) ((b # as) @ n # cs)"
  shows "free_structure (coalesce_next h hi b) lo hi (Some b) (us @ b # vs) (b # as @ cs)"
    and "\<And>x. x \<noteq> b \<Longrightarrow> bsize (coalesce_next h hi b x) = bsize (h x)"
proof -
  let ?h = "coalesce_next h hi b"
  from fs obtain tp where til: "tiles h lo hi (us @ b # n # vs)"
    and dl: "dlist (nextf h) (prevf h) (Some b) ((b # as) @ n # cs) tp"
    and sub: "set ((b # as) @ n # cs) \<subseteq> set (us @ b # n # vs)"
    and mag: "\<forall>x \<in> set (us @ b # n # vs).
      bmagic (h x) = (if x \<in> set ((b # as) @ n # cs) then BLOCK_MAGIC_FREE else BLOCK_MAGIC_USED)"
    unfolding free_structure_def by blast
  have dist: "distinct (us @ b # n # vs)" "distinct ((b # as) @ n # cs)"
    using free_structure_distinct [OF fs] by auto
  have n: "n = b + bsize (h b)" "n < hi" "bmagic (h n) = BLOCK_MAGIC_FREE"
    using til mag tiles_member(2,3) [OF til, of n] by (auto simp: tiles_append)
  note fields = coalesce_fields [OF dl n, unfolded Let_def]
  have nb: "n \<notin> set ((b # as) @ cs)"
    using dist(2) by auto
  show sz: "\<And>x. x \<noteq> b \<Longrightarrow> bsize (?h x) = bsize (h x)" by (simp add: fields)
  have "tiles ?h lo hi (us @ b # vs)"
    by (rule tiles_merge [OF til _ sz]) (simp add: fields)
  moreover have "dlist (nextf ?h) (prevf ?h) (if bprev (h n) = None then bnext (h n) else Some b)
      ((b # as) @ cs) (if bnext (h n) = None then bprev (h n) else tp)"
  proof (rule dlist_remove [OF dl])
    fix a assume a: "a \<in> set ((b # as) @ cs)"
    show "bnext (?h a) = (if bprev (h n) = Some a then bnext (h n) else bnext (h a))"
      using a nb by (auto simp: fields)
    show "bprev (?h a) = (if bnext (h n) = Some a then bprev (h n) else bprev (h a))"
      using a nb dlist_neighbours(5) [OF dl, of a] by (auto simp: fields)
  qed
  moreover have "bprev (h n) \<noteq> None"
    using dlist_prev [OF dl] by simp
  moreover have "\<forall>x \<in> set (us @ b # vs).
      bmagic (?h x) = (if x \<in> set (b # as @ cs) then BLOCK_MAGIC_FREE else BLOCK_MAGIC_USED)"
    using mag dist nb by (auto simp: fields)
  moreover have "set (b # as @ cs) \<subseteq> set (us @ b # vs)"
    using sub nb by auto
  ultimately show "free_structure ?h lo hi (Some b) (us @ b # vs) (b # as @ cs)"
    unfolding free_structure_def by auto
qed

section \<open>The heap invariant and the live blocks\<close>

definition heap_wf :: "kheap \<Rightarrow> addr list \<Rightarrow> addr list \<Rightarrow> bool" where
  "heap_wf s ts fs \<longleftrightarrow>
     free_structure (hdr s) (heap_start s) (heap_end s) (free_list s) ts fs \<and>
     kheap_used s = used_size (hdr s) ts fs \<and>
     heap_end s = heap_start s + heap_total s \<and> 32 dvd heap_start s \<and>
     heap_initialized s \<and> \<not> heap_lock s"

definition heap_inv :: "kheap \<Rightarrow> bool" where
  "heap_inv s \<longleftrightarrow> (\<exists>ts fs. heap_wf s ts fs)"

text \<open>The abstract view of the heap: start and capacity of every block in use.\<close>

definition live :: "kheap \<Rightarrow> (addr \<times> nat) set" where
  "live s = {(block_data b, bsize (hdr s b) - header_size) | b.
     \<exists>ts fs. heap_wf s ts fs \<and> b \<in> set ts \<and> b \<notin> set fs}"

lemma tiles_unique: "tiles h a e ts \<Longrightarrow> tiles h a e us \<Longrightarrow> ts = us"
proof (induction ts arbitrary: a us)
  case Nil
  show ?case
  proof (cases us)
    case (Cons b us')
    with Nil show ?thesis using tiles_member(1,2,3) [of h a e us b] by force
  qed simp
next
  case (Cons b ts)
  show ?case
  proof (cases us)
    case Nil
    with Cons.prems show ?thesis using tiles_member(1,2,3) [of h a e "b # ts" b] by force
  next
    case (Cons c us')
    with Cons.prems Cons.IH show ?thesis by auto
  qed
qed

lemma heap_wf_unique: "heap_wf s ts fs \<Longrightarrow> heap_wf s ts' fs' \<Longrightarrow> ts' = ts \<and> fs' = fs"
  by (auto simp: heap_wf_def free_structure_def dest: tiles_unique dseg_unique)

lemma live_eq:
  "heap_wf s ts fs \<Longrightarrow>
     live s = (\<lambda>b. (block_data b, bsize (hdr s b) - header_size)) ` (set ts - set fs)"
  by (auto simp: live_def dest: heap_wf_unique)

lemma heap_wf_tiles: "heap_wf s ts fs \<Longrightarrow> tiles (hdr s) (heap_start s) (heap_end s) ts"
  unfolding heap_wf_def free_structure_def by blast

lemma used_size_split:
  assumes "distinct ts" and "b \<in> set ts" and "b \<notin> set fs" and "set fs' = insert b (set fs)"
  shows "used_size h ts fs = bsize (h b) + used_size h ts fs'"
proof -
  obtain us vs where ts: "ts = us @ b # vs"
    using assms(2) by (auto dest: split_list)
  have "filter (\<lambda>x. x \<notin> set fs') us = filter (\<lambda>x. x \<notin> set fs) us"
    and "filter (\<lambda>x. x \<notin> set fs') vs = filter (\<lambda>x. x \<notin> set fs) vs"
    using assms(1,4) ts by (auto intro!: filter_cong)
  with assms(3,4) ts show ?thesis by (simp add: used_size_def)
qed

lemma used_size_cong:
  "(\<And>b. b \<in> set ts \<Longrightarrow> b \<notin> set fs \<Longrightarrow> bsize (h' b) = bsize (h b)) \<Longrightarrow> used_size h' ts fs = used_size h ts fs"
  unfolding used_size_def by (intro arg_cong [where f = sum_list] map_cong) auto

subsection \<open>Initialisation\<close>

lemma kmalloc_init_total:
  assumes "32 dvd phys_total s"
  shows "32 dvd heap_total (kmalloc_init s)" and "MIN_HEAP_SIZE \<le> heap_total (kmalloc_init s)"
  using assms
  by (auto simp: kmalloc_init_def Let_def MIN_HEAP_SIZE_def DEFAULT_HEAP_SIZE_def HEAP_BASE_def
      PMM_MEMORY_BASE_def dvd_diff_nat)

lemma kmalloc_init_wf:
  assumes "32 dvd phys_total s" and "\<not> heap_lock s"
  shows "heap_wf (kmalloc_init s) [HEAP_BASE] [HEAP_BASE]"
proof -
  let ?s = "kmalloc_init s"
  have "hdr ?s HEAP_BASE = \<lparr>bsize = heap_total ?s, bmagic = BLOCK_MAGIC_FREE,
      bflags = BLOCK_FLAG_FREE, bnext = None, bprev = None\<rparr>"
    and "heap_start ?s = HEAP_BASE" "heap_end ?s = HEAP_BASE + heap_total ?s"
      "free_list ?s = Some HEAP_BASE" "kheap_used ?s = 0" "heap_initialized ?s" "\<not> heap_lock ?s"
    using assms(2) by (simp_all add: kmalloc_init_def Let_def)
  moreover have "32 dvd HEAP_BASE" "header_size \<le> heap_total ?s" "32 dvd heap_total ?s"
    using kmalloc_init_total [OF assms(1)] by (simp_all add: HEAP_BASE_def MIN_HEAP_SIZE_def)
  ultimately show ?thesis
    by (simp add: heap_wf_def free_structure_def used_size_def)
qed

subsection \<open>Allocation\<close>

lemma alloc_total:
  assumes "sz \<le> MAX_ALLOC"
  defines "t \<equiv> unat (align_up (of_nat (sz + header_size)) (of_nat MIN_ALLOC))"
  shows "sz + header_size \<le> t" and "32 dvd t" and "t < sz + header_size + MIN_ALLOC"
proof -
  have m31: "(32 - 1 :: u64) = mask 5"
    by (simp add: mask_eq_exp_minus_1)
  have sz: "unat (of_nat (sz + 40) :: u64) = sz + 40"
    using assms(1) by (simp only: unat_of_nat) (simp add: MAX_ALLOC_def take_bit_nat_eq_self)
  have "unat (of_nat (sz + 40) + 31 :: u64) = sz + 40 + 31"
    using assms(1) by (subst unat_add_lem [THEN iffD1]) (simp_all only: sz, simp_all add: MAX_ALLOC_def)
  then have "t = (sz + 40 + 32 - 1) div 32 * 32"
    unfolding t_def align_up_def add_diff_eq [symmetric] of_nat_numeral m31
    unfolding unat_and_not_mask by (simp add: mask_eq_exp_minus_1)
  then show "sz + header_size \<le> t" and "32 dvd t" and "t < sz + header_size + MIN_ALLOC"
    using round_up_bounds [of 32 "sz + 40"] by simp_all
qed

lemma used_size_sum:
  "free_structure h lo hi fl ts fs \<Longrightarrow> used_size h ts fs = (\<Sum>b \<in> set ts - set fs. bsize (h b))"
  unfolding used_size_def using free_structure_distinct(1)
  by (subst sum_list_distinct_conv_sum_set) (auto intro!: sum.cong)

lemma carve_block:
  assumes fs: "free_structure h lo hi fl ts (as @ b # cs)"
    and t: "header_size \<le> t" "32 dvd t" "t \<le> bsize (h b)"
    and tk: "take_block (split_block h b t) fl (if as = [] then None else Some (last as)) b = (h', fl')"
  obtains ts' fs' where "free_structure h' lo hi fl' ts' fs'"
    and "set ts' - set fs' = insert b (set ts - set (as @ b # cs))"
    and "t \<le> bsize (h' b)"
    and "\<forall>x \<in> set ts - set (as @ b # cs). bsize (h' x) = bsize (h x)"
    and "\<forall>x \<in> set (as @ cs). x \<in> set fs' \<and> bsize (h' x) = bsize (h x)"
    and "t + header_size + MIN_ALLOC \<le> bsize (h b) \<longrightarrow> (\<exists>x \<in> set fs'. bsize (h' x) = bsize (h b) - t)"
proof (cases "t + header_size + MIN_ALLOC \<le> bsize (h b)")
  case False
  have dist: "distinct (as @ b # cs)" and sub: "set (as @ b # cs) \<subseteq> set ts"
    using fs free_structure_distinct [OF fs] unfolding free_structure_def by auto
  have "split_block h b t = h"
    using False by (simp add: split_block_def)
  note tb = take_block_structure [OF fs tk [unfolded this]]
  show ?thesis
    by (rule that [OF tb(1)]) (use dist sub t(3) False in \<open>auto simp: tb(2)\<close>)
next
  case True
  from fs have "b \<in> set ts"
    unfolding free_structure_def by auto
  then obtain us vs where ts: "ts = us @ b # vs"
    by (auto dest: split_list)
  note sp = split_block_structure [OF fs [unfolded ts] True t(1,2)]
  note tb = take_block_structure [OF sp(1) tk]
  have dist: "distinct (as @ b # (b + t) # cs)" "distinct (us @ b # (b + t) # vs)"
    using free_structure_distinct [OF sp(1)] by auto
  have same: "\<forall>x \<in> set ts - set (as @ b # cs). bsize (h' x) = bsize (h x)"
  proof
    fix x assume "x \<in> set ts - set (as @ b # cs)"
    then have "x \<noteq> b" "x \<noteq> b + t"
      using dist(2) unfolding ts by auto
    then show "bsize (h' x) = bsize (h x)" by (simp add: tb(2) sp(3))
  qed
  have sub: "set (as @ b # cs) \<subseteq> set ts"
    using fs unfolding free_structure_def by blast
  have "\<forall>x \<in> set (as @ cs). x \<in> set (as @ (b + t) # cs) \<and> bsize (h' x) = bsize (h x)"
  proof
    fix x assume x: "x \<in> set (as @ cs)"
    then have "x \<noteq> b" "x \<noteq> b + t"
      using dist(1) by auto
    with x show "x \<in> set (as @ (b + t) # cs) \<and> bsize (h' x) = bsize (h x)"
      by (auto simp: tb(2) sp(3))
  qed
  moreover have "bsize (h' (b + t)) = bsize (h b) - t"
    using sp(5) by (simp add: tb(2))
  ultimately show ?thesis
    by (intro that [OF tb(1) _ _ same]) (use dist in \<open>auto simp: tb(2) sp(2) ts\<close>)
qed

text \<open>What an allocation does to a well-formed heap: nothing, or one block joins the blocks in use.\<close>

lemma relock:
  "\<not> heap_lock s \<Longrightarrow> s\<lparr>heap_lock := False\<rparr> = s"
  by simp

lemma kmalloc_cases:
  assumes wf: "heap_wf s ts fs"
  obtains (invalid) "sz = 0 \<or> sz > MAX_ALLOC" and "kmalloc s sz flags = Some (s, None)"
  | (full) "0 < sz" and "sz \<le> MAX_ALLOC" and "kmalloc s sz flags = Some (s, None)"
      and "\<forall>b \<in> set fs. bsize (hdr s b) < sz + header_size + MIN_ALLOC"
  | (carved) as b cs h' fl' t where "0 < sz" and "sz \<le> MAX_ALLOC" and "fs = as @ b # cs"
      and "sz + header_size \<le> t" and "32 dvd t" and "t \<le> bsize (hdr s b)" and "t < sz + header_size + MIN_ALLOC"
      and "take_block (split_block (hdr s) b t) (free_list s)
             (if as = [] then None else Some (last as)) b = (h', fl')"
      and "kmalloc s sz flags = Some (s\<lparr>hdr := h', free_list := fl',
             kheap_used := kheap_used s + bsize (h' b),
             kbytes := (if flags AND GFP_ZERO \<noteq> 0
                        then memset_loop (kbytes s) (block_data b) 0 sz else kbytes s)\<rparr>,
             Some (block_data b))"
proof (cases "sz = 0 \<or> sz > MAX_ALLOC")
  case True
  with wf show ?thesis
    by (intro invalid) (auto simp: kmalloc_def heap_wf_def)
next
  case False
  define t where "t = unat (align_up (of_nat (sz + header_size)) (of_nat MIN_ALLOC))"
  have t: "sz + header_size \<le> t" "32 dvd t" "t < sz + header_size + MIN_ALLOC"
    using alloc_total [of sz] False by (simp_all add: t_def)
  from wf have st: "heap_initialized s" "\<not> heap_lock s"
    unfolding heap_wf_def by blast+
  have t': "unat (align_up (of_nat sz + 40) 32) = t"
    by (simp add: t_def)
  have lock: "lock_heap s = Some (s\<lparr>heap_lock := True\<rparr>)"
    using st(2) by (simp add: lock_heap_def)
  from wf obtain tp where dl: "dlist (nextf (hdr s)) (prevf (hdr s)) (free_list s) fs tp"
    and free: "\<forall>b \<in> set fs. bmagic (hdr s b) = BLOCK_MAGIC_FREE"
    unfolding heap_wf_def free_structure_def by (metis subsetD)
  from find_fit_spec [OF dl free, of t] show ?thesis
  proof (elim disjE exE conjE)
    fix as b cs
    assume f: "fs = as @ b # cs" "t \<le> bsize (hdr s b)"
      "find_fit (hdr s) t None (free_list s) = Some (Fit (if as = [] then None else Some (last as)) b)"
    obtain h' fl' where tk: "take_block (split_block (hdr s) b t) (free_list s)
        (if as = [] then None else Some (last as)) b = (h', fl')"
      by fastforce
    show ?thesis
      by (rule carved [OF _ _ f(1) t(1,2) f(2) t(3) tk])
        (use False in \<open>auto simp: kmalloc_def Let_def st lock t' f(3) tk unlock_heap_def
           relock [OF st(2)]\<close>)
  next
    assume f: "\<forall>a \<in> set fs. bsize (hdr s a) < t" "find_fit (hdr s) t None (free_list s) = Some No_fit"
    show ?thesis
      by (rule full) (use False f(1) t(3) in
        \<open>auto simp: kmalloc_def Let_def st lock t' f(2) unlock_heap_def relock [OF st(2)]\<close>)
  qed
qed

lemma kmalloc_carved:
  fixes m :: mem
  assumes wf: "heap_wf s ts (as @ b # cs)"
    and t: "sz + header_size \<le> t" "32 dvd t" "t \<le> bsize (hdr s b)"
    and tk: "take_block (split_block (hdr s) b t) (free_list s)
               (if as = [] then None else Some (last as)) b = (h', fl')"
  defines "s' \<equiv> s\<lparr>hdr := h', free_list := fl', kheap_used := kheap_used s + bsize (h' b), kbytes := m\<rparr>"
  obtains ts' fs' where "heap_wf s' ts' fs'" and "b \<in> set ts'" and "sz + header_size \<le> bsize (h' b)"
    and "b \<notin> set ts - set (as @ b # cs)"
    and "live s' = insert (block_data b, bsize (h' b) - header_size) (live s)"
    and "\<forall>x \<in> set (as @ cs). x \<in> set fs' \<and> bsize (h' x) = bsize (hdr s x)"
    and "t + header_size + MIN_ALLOC \<le> bsize (hdr s b) \<longrightarrow> (\<exists>x \<in> set fs'. bsize (h' x) = bsize (hdr s b) - t)"
proof -
  from wf have fs: "free_structure (hdr s) (heap_start s) (heap_end s) (free_list s) ts (as @ b # cs)"
    unfolding heap_wf_def by blast
  have t40: "header_size \<le> t"
    using t(1) by simp
  from carve_block [OF fs t40 t(2,3) tk] obtain ts' fs' where
      fs': "free_structure h' (heap_start s) (heap_end s) fl' ts' fs'"
    and used: "set ts' - set fs' = insert b (set ts - set (as @ b # cs))"
    and big: "t \<le> bsize (h' b)"
    and same: "\<forall>x \<in> set ts - set (as @ b # cs). bsize (h' x) = bsize (hdr s x)"
    and rest: "\<forall>x \<in> set (as @ cs). x \<in> set fs' \<and> bsize (h' x) = bsize (hdr s x)"
      "t + header_size + MIN_ALLOC \<le> bsize (hdr s b) \<longrightarrow> (\<exists>x \<in> set fs'. bsize (h' x) = bsize (hdr s b) - t)" .
  have "used_size h' ts' fs' = bsize (h' b) + used_size (hdr s) ts (as @ b # cs)"
    unfolding used_size_sum [OF fs'] used_size_sum [OF fs] used
    using same by (subst sum.insert) (auto intro!: sum.cong)
  with wf fs' have wf': "heap_wf s' ts' fs'"
    unfolding heap_wf_def s'_def by simp
  moreover have "live s' = insert (block_data b, bsize (h' b) - header_size) (live s)"
    unfolding live_eq [OF wf'] live_eq [OF wf] used using same by (auto simp: s'_def)
  moreover have "b \<in> set ts'"
    using used by blast
  ultimately show ?thesis
    using that rest t(1) big by simp
qed

text \<open>The blocks in use lie inside the region, are aligned and do not overlap.\<close>

lemma live_bounds:
  assumes "heap_inv s" and "(p, n) \<in> live s"
  shows "heap_start s + header_size \<le> p" and "p + n \<le> heap_end s" and "8 dvd p"
proof -
  from assms(1) obtain ts fs where wf: "heap_wf s ts fs"
    unfolding heap_inv_def by blast
  with assms(2) obtain b where b: "b \<in> set ts" "p = b + 40" "n = bsize (hdr s b) - 40"
    by (auto simp: live_eq block_data_def)
  note til = heap_wf_tiles [OF wf]
  have "32 dvd b"
    using tiles_aligned [OF til b(1)] wf unfolding heap_wf_def by blast
  then have "8 dvd b"
    using dvd_trans [of 8 32 b] by simp
  with b tiles_member [OF til b(1)]
  show "heap_start s + header_size \<le> p" and "p + n \<le> heap_end s" and "8 dvd p"
    by auto
qed

lemma live_disjoint:
  assumes "heap_inv s" and "(p, n) \<in> live s" and "(q, k) \<in> live s" and "(p, n) \<noteq> (q, k)"
  shows "disjoint_ranges p n q k"
proof -
  from assms(1) obtain ts fs where wf: "heap_wf s ts fs"
    unfolding heap_inv_def by blast
  with assms(2,3) obtain b c where "b \<in> set ts" "p = b + 40" "n = bsize (hdr s b) - 40"
      "c \<in> set ts" "q = c + 40" "k = bsize (hdr s c) - 40"
    by (auto simp: live_eq block_data_def)
  with assms(4) show ?thesis
    using tiles_disjoint [OF heap_wf_tiles [OF wf], of b c]
    by (auto simp: disjoint_ranges_def)
qed

lemma live_functional: "heap_inv s \<Longrightarrow> (p, n) \<in> live s \<Longrightarrow> (p, k) \<in> live s \<Longrightarrow> n = k"
  unfolding heap_inv_def by (auto simp: live_eq block_data_def)

text \<open>The free blocks, with their whole size.\<close>

definition free_blocks :: "kheap \<Rightarrow> (addr \<times> nat) set" where
  "free_blocks s = {(b, bsize (hdr s b)) | b. \<exists>ts fs. heap_wf s ts fs \<and> b \<in> set fs}"

lemma free_blocks_eq: "heap_wf s ts fs \<Longrightarrow> free_blocks s = (\<lambda>b. (b, bsize (hdr s b))) ` set fs"
  by (auto simp: free_blocks_def dest: heap_wf_unique)

text \<open>There is a free block of at least \<open>n\<close> bytes.\<close>

definition room :: "kheap \<Rightarrow> nat \<Rightarrow> bool" where
  "room s n \<longleftrightarrow> (\<exists>(b, k) \<in> free_blocks s. n \<le> k)"

lemma kmalloc_result:
  assumes "heap_inv s"
  obtains (none) "kmalloc s sz flags = Some (s, None)"
      and "sz = 0 \<or> sz > MAX_ALLOC \<or> (\<forall>(b, n) \<in> free_blocks s. n < sz + header_size + MIN_ALLOC)"
  | (some) s' p n where "kmalloc s sz flags = Some (s', Some p)" and "heap_inv s'" and "sz \<le> n"
      and "live s' = insert (p, n) (live s)" and "(p, n) \<notin> live s" and "0 < sz" and "sz \<le> MAX_ALLOC"
      and "kbytes s' = (if flags AND GFP_ZERO \<noteq> 0 then memset_loop (kbytes s) p 0 sz else kbytes s)"
      and "heap_start s' = heap_start s" and "heap_end s' = heap_end s"
      and "heap_total s' = heap_total s" and "kheap_used s' = kheap_used s + (n + header_size)"
      and "\<And>j. header_size + MIN_ALLOC \<le> j \<Longrightarrow> room s (j + sz + header_size + MIN_ALLOC) \<Longrightarrow> room s' j"
proof -
  from assms obtain ts fs where wf: "heap_wf s ts fs"
    unfolding heap_inv_def by blast
  from wf show ?thesis
  proof (cases rule: kmalloc_cases [where sz = sz and flags = flags])
    case invalid
    then show ?thesis by (intro none) auto
  next
    case full
    then have "\<forall>(b, n) \<in> free_blocks s. n < sz + header_size + MIN_ALLOC"
      by (auto simp: free_blocks_eq [OF wf])
    with full show ?thesis by (intro none) auto
  next
    case (carved as b cs h' fl' t)
    note c = carved
    let ?m = "if flags AND GFP_ZERO \<noteq> 0 then memset_loop (kbytes s) (block_data b) 0 sz else kbytes s"
    let ?s = "s\<lparr>hdr := h', free_list := fl', kheap_used := kheap_used s + bsize (h' b), kbytes := ?m\<rparr>"
    note wf0 = wf [unfolded c(3)]
    from kmalloc_carved [OF wf0 c(4-6,8), of ?m] obtain ts' fs' where
      wf': "heap_wf ?s ts' fs'"
      and k: "sz + header_size \<le> bsize (h' b)" "b \<notin> set ts - set (as @ b # cs)"
        "live ?s = insert (block_data b, bsize (h' b) - header_size) (live s)"
      and rest: "\<forall>x \<in> set (as @ cs). x \<in> set fs' \<and> bsize (h' x) = bsize (hdr s x)"
        "t + header_size + MIN_ALLOC \<le> bsize (hdr s b) \<longrightarrow> (\<exists>x \<in> set fs'. bsize (h' x) = bsize (hdr s b) - t)" .
    have room: "room ?s j" if j: "header_size + MIN_ALLOC \<le> j" "room s (j + sz + header_size + MIN_ALLOC)" for j
    proof -
      from j(2) obtain x where x: "x \<in> set (as @ b # cs)" "j + sz + header_size + MIN_ALLOC \<le> bsize (hdr s x)"
        by (auto simp: room_def free_blocks_eq [OF wf0])
      have "\<exists>y \<in> set fs'. j \<le> bsize (h' y)"
      proof (cases "x = b")
        case True
        with x(2) rest(2) c(7) j(1) show ?thesis by force
      next
        case False
        with x rest(1) have "x \<in> set fs'" "j \<le> bsize (h' x)" by auto
        then show ?thesis by blast
      qed
      then show ?thesis
        by (auto simp: room_def free_blocks_eq [OF wf'])
    qed
    have new: "(block_data b, n) \<notin> live s" for n
      unfolding live_eq [OF wf0] using k(2) by (auto simp: block_data_def)
    have inv: "heap_inv ?s"
      using wf' unfolding heap_inv_def by (intro exI)
    show ?thesis
      by (rule some [OF c(9) inv _ k(3) new]) (use c(1,2) k(1) room in auto)
  qed
qed

subsection \<open>Release\<close>

text \<open>After the push, the block behind the freed one is merged when it is free.\<close>

lemma kmalloc_room:
  assumes "heap_inv s" and "0 < sz" and "sz \<le> MAX_ALLOC" and "room s (sz + header_size + MIN_ALLOC)"
  shows "\<exists>s' p. kmalloc s sz flags = Some (s', Some p)"
  using assms(1)
proof (cases rule: kmalloc_result [where sz = sz and flags = flags])
  case none
  with assms(2-4) show ?thesis by (fastforce simp: room_def)
qed blast

lemma room_bytes: "room (s\<lparr>kbytes := m\<rparr>) n = room s n"
  by (simp add: room_def free_blocks_def heap_wf_def)

lemma coalesce_cases:
  assumes fs: "free_structure h lo hi (Some b) ts (b # fs)"
  obtains ts' fs' where "free_structure (coalesce_next h hi b) lo hi (Some b) ts' fs'"
    and "set ts' - set fs' = set ts - set (b # fs)"
    and "\<forall>x \<in> set ts - set (b # fs). bsize (coalesce_next h hi b x) = bsize (h x)"
    and "\<forall>x \<in> set fs. \<exists>y \<in> set fs'. bsize (h x) \<le> bsize (coalesce_next h hi b y)"
proof -
  from fs have til: "tiles h lo hi ts" and sub: "set (b # fs) \<subseteq> set ts"
    and mag: "\<forall>x \<in> set ts. bmagic (h x) = (if x \<in> set (b # fs) then BLOCK_MAGIC_FREE else BLOCK_MAGIC_USED)"
    unfolding free_structure_def by blast+
  then obtain us vs where ts: "ts = us @ b # vs"
    by (auto dest: split_list)
  show ?thesis
  proof (cases "vs = [] \<or> hd vs \<notin> set fs")
    case True
    have "coalesce_next h hi b = h"
    proof (cases vs)
      case Nil
      with til show ?thesis by (auto simp: ts tiles_append coalesce_next_def)
    next
      case (Cons n ws)
      with til have "b + bsize (h b) = n" "n \<noteq> b"
        using tiles_distinct [OF til] by (auto simp: ts tiles_append)
      with True Cons mag show ?thesis by (auto simp: ts coalesce_next_def Let_def)
    qed
    with fs show ?thesis by (intro that [of ts "b # fs"]) auto
  next
    case False
    then obtain n ws as cs where vs: "vs = n # ws" and fn: "fs = as @ n # cs"
      by (cases vs) (auto dest: split_list)
    have fs1: "free_structure h lo hi (Some b) (us @ b # n # ws) ((b # as) @ n # cs)"
      using fs by (simp add: ts vs fn)
    note c = coalesce_structure [OF fs1]
    have dist: "distinct (us @ b # n # ws)" "distinct ((b # as) @ n # cs)"
      using free_structure_distinct [OF fs1] by auto
    moreover have "\<exists>y \<in> set (b # as @ cs). bsize (h x) \<le> bsize (coalesce_next h hi b y)" if x: "x \<in> set fs" for x
    proof (cases "x = n")
      case True
      have "sum_list (map (\<lambda>y. bsize (coalesce_next h hi b y)) (us @ b # ws)) = sum_list (map (\<lambda>y. bsize (h y)) (us @ b # n # ws))"
        using tiles_total [OF conjunct1 [OF c(1) [unfolded free_structure_def]]] tiles_total [OF til] by (simp add: ts vs)
      moreover have "map (\<lambda>y. bsize (coalesce_next h hi b y)) us = map (\<lambda>y. bsize (h y)) us"
          "map (\<lambda>y. bsize (coalesce_next h hi b y)) ws = map (\<lambda>y. bsize (h y)) ws"
        using dist(1) by (auto intro!: c(2))
      ultimately have "bsize (h n) \<le> bsize (coalesce_next h hi b b)"
        by simp
      with True show ?thesis by simp
    next
      case False
      then have "x \<in> set (b # as @ cs)" "x \<noteq> b"
        using x dist(2) by (auto simp: fn)
      with c(2) [of x] show ?thesis by (intro bexI [of _ x]) simp_all
    qed
    ultimately show ?thesis
      by (intro that [OF c(1)] ballI c(2)) (auto simp: ts vs fn)
  qed
qed

lemma kfree_live:
  assumes inv: "heap_inv s" and p: "(p, n) \<in> live s"
  obtains s' where "kfree s (Some p) = Some s'" and "heap_inv s'" and "live s' = live s - {(p, n)}"
    and "kbytes s' = kbytes s" and "bmagic (hdr s' (data_to_block p)) = BLOCK_MAGIC_FREE"
    and "heap_start s' = heap_start s" and "heap_end s' = heap_end s" and "heap_total s' = heap_total s"
    and "kheap_used s' + (n + header_size) = kheap_used s"
proof -
  from inv obtain ts fs where wf: "heap_wf s ts fs"
    unfolding heap_inv_def by blast
  with p obtain b where b: "b \<in> set ts" "b \<notin> set fs" "p = block_data b" "n = bsize (hdr s b) - 40"
    by (auto simp: live_eq)
  from wf have fs: "free_structure (hdr s) (heap_start s) (heap_end s) (free_list s) ts fs"
    and st: "\<not> heap_lock s" "kheap_used s = used_size (hdr s) ts fs"
    unfolding heap_wf_def by blast+
  then have used: "bmagic (hdr s b) = BLOCK_MAGIC_USED" and b40: "40 \<le> bsize (hdr s b)"
    using b(1,2) tiles_member(3) [of "hdr s"] unfolding free_structure_def by auto
  define h where "h = coalesce_next (push_free (hdr s) (free_list s) b) (heap_end s) b"
  define s' where "s' = s\<lparr>kheap_used := kheap_used s - bsize (hdr s b), hdr := h, free_list := Some b\<rparr>"
  have db: "data_to_block p = b"
    by (simp add: b(3) block_data_def data_to_block_def)
  have kf: "kfree s (Some p) = Some s'"
    using st(1) used by (simp add: kfree_def Let_def db lock_heap_def unlock_heap_def s'_def h_def)
  note pf = push_free_structure [OF fs b(1,2)]
  from coalesce_cases [OF pf(1)] obtain ts' fs' where
      fs': "free_structure h (heap_start s) (heap_end s) (Some b) ts' fs'"
    and eq: "set ts' - set fs' = set ts - set (b # fs)"
    and same: "\<forall>x \<in> set ts - set (b # fs). bsize (h x) = bsize (hdr s x)"
    unfolding h_def pf(2) by metis
  have diff: "set ts - set fs = insert b (set ts - set (b # fs))"
    using b(1,2) by auto
  have "used_size (hdr s) ts fs = bsize (hdr s b) + used_size h ts' fs'"
    unfolding used_size_sum [OF fs'] used_size_sum [OF fs] eq diff
    using same by (subst sum.insert) (auto intro!: sum.cong)
  note usz = this
  have wf': "heap_wf s' ts' fs'"
    using wf fs' usz unfolding heap_wf_def s'_def by simp
  have "live s' = live s - {(p, n)}"
    unfolding live_eq [OF wf'] live_eq [OF wf] eq diff b(3,4)
    using same by (auto simp: s'_def block_data_def)
  moreover have "bmagic (h b) = BLOCK_MAGIC_FREE"
    using fs' unfolding free_structure_def by (metis dseg_first list.distinct(1) list.set_sel(1) option.inject
        dseg.simps(1) option.distinct(1) subsetD)
  ultimately show ?thesis
    using that [OF kf] wf' usz b40 b(4) st(2) unfolding heap_inv_def db by (auto simp: s'_def)
qed

text \<open>Releasing a block leaves at least the room that was there.\<close>

lemma kfree_room:
  assumes inv: "heap_inv s" and p: "(p, n) \<in> live s" and kf: "kfree s (Some p) = Some s'" and room: "room s k"
  shows "room s' k"
proof -
  from inv obtain ts fs where wf: "heap_wf s ts fs"
    unfolding heap_inv_def by blast
  with p obtain b where b: "b \<in> set ts" "b \<notin> set fs" "p = block_data b"
    by (auto simp: live_eq)
  from wf have fs: "free_structure (hdr s) (heap_start s) (heap_end s) (free_list s) ts fs" and lock: "\<not> heap_lock s"
    unfolding heap_wf_def by blast+
  then have used: "bmagic (hdr s b) = BLOCK_MAGIC_USED"
    using b(1,2) unfolding free_structure_def by auto
  define h where "h = coalesce_next (push_free (hdr s) (free_list s) b) (heap_end s) b"
  have db: "data_to_block p = b"
    by (simp add: b(3) block_data_def data_to_block_def)
  define t where "t = s\<lparr>kheap_used := kheap_used s - bsize (hdr s b), hdr := h, free_list := Some b\<rparr>"
  have "kfree s (Some p) = Some t"
    using lock used by (simp add: kfree_def Let_def db lock_heap_def unlock_heap_def t_def h_def)
  with kf have s': "s' = s\<lparr>kheap_used := kheap_used s - bsize (hdr s b), hdr := h, free_list := Some b\<rparr>"
    by (simp add: t_def)
  note pf = push_free_structure [OF fs b(1,2)]
  obtain ts' fs' where fs': "free_structure h (heap_start s) (heap_end s) (Some b) ts' fs'"
      and keep: "\<forall>x \<in> set fs. \<exists>y \<in> set fs'. bsize (hdr s x) \<le> bsize (h y)"
    by (rule coalesce_cases [OF pf(1)]) (simp add: h_def pf(2))
  obtain us gs where wf': "heap_wf s' us gs"
    by (rule kfree_live [OF inv p]) (use kf in \<open>auto simp: heap_inv_def\<close>)
  then have "gs = fs'"
    using fs' by (auto simp: heap_wf_def free_structure_def s' dest: dseg_unique)
  from room obtain x where x: "x \<in> set fs" "k \<le> bsize (hdr s x)"
    by (auto simp: room_def free_blocks_eq [OF wf])
  with keep obtain y where "y \<in> set fs'" "k \<le> bsize (h y)"
    by (meson le_trans)
  then show ?thesis
    unfolding room_def free_blocks_eq [OF wf'] \<open>gs = fs'\<close> by (auto simp: s')
qed

text \<open>The header of a block in use holds its size, and the data bytes do not matter to the structure.\<close>

lemma live_header: "heap_inv s \<Longrightarrow> (p, n) \<in> live s \<Longrightarrow> bsize (hdr s (data_to_block p)) - header_size = n"
  unfolding heap_inv_def by (auto simp: live_eq block_data_def data_to_block_def)

lemma heap_wf_bytes: "heap_wf (s\<lparr>kbytes := m\<rparr>) ts fs = heap_wf s ts fs"
  by (simp add: heap_wf_def)

lemma heap_inv_bytes: "heap_inv (s\<lparr>kbytes := m\<rparr>) = heap_inv s"
  by (simp add: heap_inv_def heap_wf_bytes)

lemma live_bytes: "live (s\<lparr>kbytes := m\<rparr>) = live s"
  by (simp add: live_def heap_wf_bytes)

section \<open>The contract of an allocator\<close>

text \<open>
  What the kernel's other components rely on: an allocation returns, leaves the heap alone when it
  fails and otherwise adds one block of at least the wanted size that overlaps no other; releasing a
  block in use takes exactly that block away.
\<close>

locale heap_allocator =
  fixes inv :: "'s \<Rightarrow> bool" and blocks :: "'s \<Rightarrow> (addr \<times> nat) set"
    and alloc :: "'s \<Rightarrow> nat \<Rightarrow> ('s \<times> ptr) option" and release :: "'s \<Rightarrow> ptr \<Rightarrow> 's option"
  assumes alloc_total_fun: "inv s \<Longrightarrow> alloc s n \<noteq> None"
    and alloc_fail: "inv s \<Longrightarrow> alloc s n = Some (s', None) \<Longrightarrow> s' = s"
    and alloc_ok: "inv s \<Longrightarrow> alloc s n = Some (s', Some p) \<Longrightarrow>
      inv s' \<and> (\<exists>k \<ge> n. blocks s' = insert (p, k) (blocks s) \<and> (p, k) \<notin> blocks s)"
    and blocks_disjoint: "inv s \<Longrightarrow> (p, n) \<in> blocks s \<Longrightarrow> (q, k) \<in> blocks s \<Longrightarrow> (p, n) \<noteq> (q, k) \<Longrightarrow>
      disjoint_ranges p n q k"
    and release_null: "release s None = Some s"
    and release_ok: "inv s \<Longrightarrow> (p, n) \<in> blocks s \<Longrightarrow>
      \<exists>s'. release s (Some p) = Some s' \<and> inv s' \<and> blocks s' = blocks s - {(p, n)}"
begin

lemma alloc_returns:
  assumes "inv s"
  obtains (failed) "alloc s n = Some (s, None)"
  | (granted) s' p k where "alloc s n = Some (s', Some p)" and "inv s'" and "n \<le> k"
      and "blocks s' = insert (p, k) (blocks s)" and "(p, k) \<notin> blocks s"
      and "\<forall>(q, l) \<in> blocks s. disjoint_ranges p k q l"
proof -
  obtain s' r where r: "alloc s n = Some (s', r)"
    using alloc_total_fun [OF assms, of n] by auto
  show ?thesis
  proof (cases r)
    case None
    with r alloc_fail [OF assms] failed show ?thesis by blast
  next
    case (Some p)
    from alloc_ok [OF assms r [unfolded Some]] obtain k where
        k: "inv s'" "n \<le> k" "blocks s' = insert (p, k) (blocks s)" "(p, k) \<notin> blocks s"
      by blast
    moreover have "\<forall>(q, l) \<in> blocks s. disjoint_ranges p k q l"
      using blocks_disjoint [OF k(1), of p k] k(3,4) by auto
    ultimately show ?thesis
      using granted r Some by blast
  qed
qed

lemma alloc_release:
  assumes "inv s" and "alloc s n = Some (s', Some p)"
  obtains s'' where "release s' (Some p) = Some s''" and "inv s''" and "blocks s'' = blocks s"
proof -
  from alloc_ok [OF assms] obtain k where
      k: "inv s'" "blocks s' = insert (p, k) (blocks s)" "(p, k) \<notin> blocks s"
    by blast
  from release_ok [OF k(1), of p k] k(2) obtain s'' where
      "release s' (Some p) = Some s''" "inv s''" "blocks s'' = blocks s' - {(p, k)}"
    by blast
  with k that show ?thesis by auto
qed

end

interpretation kernel_heap: heap_allocator heap_inv live "\<lambda>s n. kmalloc s n flags" kfree
  for flags
proof
  show "heap_inv s \<Longrightarrow> kmalloc s n flags \<noteq> None" for s n
    by (cases rule: kmalloc_result [of s n flags]) auto
  show "heap_inv s \<Longrightarrow> kmalloc s n flags = Some (s', None) \<Longrightarrow> s' = s" for s s' n
    by (cases rule: kmalloc_result [of s n flags]) auto
  show "heap_inv s \<Longrightarrow> kmalloc s n flags = Some (s', Some p) \<Longrightarrow>
      heap_inv s' \<and> (\<exists>k \<ge> n. live s' = insert (p, k) (live s) \<and> (p, k) \<notin> live s)" for s s' n p
    by (cases rule: kmalloc_result [of s n flags]) auto
  show "heap_inv s \<Longrightarrow> (p, n) \<in> live s \<Longrightarrow>
      \<exists>s'. kfree s (Some p) = Some s' \<and> heap_inv s' \<and> live s' = live s - {(p, n)}" for s p n
    by (blast elim: kfree_live)
qed (auto simp: kfree_def intro: live_disjoint)

section \<open>Properties of the kernel heap\<close>

lemma kmalloc_bytes:
  "kbytes s' = (if f then memset_loop (kbytes s) p 0 sz else kbytes s) \<Longrightarrow>
     (\<forall>a. a < p \<or> p + sz \<le> a \<longrightarrow> kbytes s' a = kbytes s a) \<and>
     (f \<longrightarrow> read_bytes (kbytes s') p sz = replicate sz 0)"
  using read_write_same [of "kbytes s" p "replicate sz 0"]
  by (auto simp: memset_loop_eq write_bytes_outside)



text \<open>The usage counter is the total of the blocks in use with their headers, never exceeds the
  heap, and the statistics report it.\<close>

theorem heap_accounting:
  assumes "heap_inv s"
  shows "kheap_used s = (\<Sum>(p, n) \<in> live s. n + header_size) \<and> kheap_used s \<le> heap_total s \<and>
    kmalloc_get_stats s =
      (heap_total s, kheap_used s, heap_total s - (\<Sum>(p, n) \<in> live s. n + header_size))"
proof -
  from assms obtain ts fs where wf: "heap_wf s ts fs"
    unfolding heap_inv_def by blast
  then have fs: "free_structure (hdr s) (heap_start s) (heap_end s) (free_list s) ts fs"
    and used: "kheap_used s = used_size (hdr s) ts fs" and tot: "heap_end s = heap_start s + heap_total s"
    unfolding heap_wf_def by blast+
  note til = heap_wf_tiles [OF wf]
  have inj: "inj_on (\<lambda>b. (block_data b, bsize (hdr s b) - header_size)) (set ts - set fs)"
    by (auto simp: inj_on_def block_data_def)
  have "(\<Sum>(p, n) \<in> live s. n + header_size) = (\<Sum>b \<in> set ts - set fs. bsize (hdr s b))"
    unfolding live_eq [OF wf] sum.reindex [OF inj]
    using tiles_member(3) [OF til] by (intro sum.cong) auto
  then have "kheap_used s = (\<Sum>(p, n) \<in> live s. n + header_size)"
    using used used_size_sum [OF fs] by simp
  moreover have "sum_list (map (\<lambda>b. bsize (hdr s b)) ts) = heap_total s"
    using tiles_total [OF til] tot by simp
  then have "kheap_used s \<le> heap_total s"
    unfolding used used_size_def using sum_list_filter_le_nat [of "\<lambda>b. bsize (hdr s b)" "\<lambda>b. b \<notin> set fs" ts]
    by simp
  ultimately show ?thesis
    by (simp add: kmalloc_get_stats_def)
qed

text \<open>\<open>krealloc\<close> of a block in use to a positive size returns. A block that is already large enough
  is kept; when the allocation of a larger block fails, nothing changes; otherwise the old block is
  released and the new block starts with the old contents.\<close>

theorem krealloc_correct:
  assumes inv: "heap_inv s" and p: "(p, n) \<in> live s" and sz: "0 < sz"
  shows "\<exists>s' r. krealloc s (Some p) sz flags = Some (s', r) \<and> heap_inv s' \<and>
    (if sz \<le> n then s' = s \<and> r = Some p
     else r = None \<and> s' = s \<or>
       (\<exists>q k. r = Some q \<and> sz \<le> k \<and> live s' = insert (q, k) (live s - {(p, n)}) \<and>
          (\<forall>(x, l) \<in> live s. disjoint_ranges q k x l) \<and>
          read_bytes (kbytes s') q n = read_bytes (kbytes s) p n))"
proof -
  from live_header [OF inv p] have n: "bsize (hdr s (data_to_block p)) - header_size = n" .
  show ?thesis
  proof (cases "sz \<le> n")
    case True
    with inv sz n show ?thesis by (simp add: krealloc_def Let_def)
  next
    case False
    from inv show ?thesis
    proof (cases rule: kmalloc_result [where sz = sz and flags = flags])
      case none
      with inv sz False n show ?thesis by (simp add: krealloc_def Let_def)
    next
      case (some s1 q k)
      have dj: "\<forall>(x, l) \<in> live s. disjoint_ranges q k x l"
        using live_disjoint [OF some(2)] some(4,5) by auto
      define m where "m = memcpy_loop (kbytes s1) q p n"
      have "disjoint_ranges q k p n"
        using dj p by auto
      then have dj': "disjoint_ranges q n p n" "disjoint_ranges q sz p n"
        using False some(3) by (auto simp: disjoint_ranges_def)
      have old: "read_bytes (kbytes s1) p n = read_bytes (kbytes s) p n"
        using dj'(2) by (simp add: some(8) memset_loop_eq read_write_disjoint)
      have copied: "read_bytes m q n = read_bytes (kbytes s) p n"
        using kernel_memcpy.copy_reads_back [OF dj'(1), of "kbytes s1"] by (simp add: m_def memcpy_def old)
      have inv1: "heap_inv (s1\<lparr>kbytes := m\<rparr>)" and live1: "live (s1\<lparr>kbytes := m\<rparr>) = live s1"
        using some(2) by (simp_all add: heap_inv_bytes live_bytes)
      have "(p, n) \<in> live (s1\<lparr>kbytes := m\<rparr>)"
        using p some(4) live1 by simp
      with inv1 show ?thesis
      proof (cases rule: kfree_live)
        case (1 s')
        have "live s' = insert (q, k) (live s - {(p, n)})"
          using 1(3) p some(4,5) live1 by auto
        with 1 some(1,3) sz False n dj copied show ?thesis
          by (auto simp: krealloc_def Let_def m_def)
      qed
    qed
  qed
qed

text \<open>Initialisation gives a well-formed heap with no block in use and one free block over the whole
  region. The region lies inside physical memory exactly when there are at least 96 MB; with less, the
  minimum heap size takes it past the end of memory.\<close>

theorem kmalloc_init_correct:
  assumes "32 dvd phys_total s" and "\<not> heap_lock s"
  shows "heap_inv (kmalloc_init s) \<and> live (kmalloc_init s) = {} \<and>
    free_blocks (kmalloc_init s) = {(HEAP_BASE, heap_total (kmalloc_init s))} \<and>
    (heap_end (kmalloc_init s) \<le> PMM_MEMORY_BASE + phys_total s \<longleftrightarrow> 96 * 1024 * 1024 \<le> phys_total s)"
proof -
  note wf = kmalloc_init_wf [OF assms]
  have "heap_inv (kmalloc_init s)" "live (kmalloc_init s) = {}"
    using wf by (auto simp: heap_inv_def live_eq)
  moreover have "free_blocks (kmalloc_init s) = {(HEAP_BASE, heap_total (kmalloc_init s))}"
    unfolding free_blocks_eq [OF wf] by (simp add: kmalloc_init_def Let_def)
  moreover have "heap_end (kmalloc_init s) \<le> PMM_MEMORY_BASE + phys_total s \<longleftrightarrow>
      96 * 1024 * 1024 \<le> phys_total s"
    by (auto simp: kmalloc_init_def Let_def HEAP_BASE_def PMM_MEMORY_BASE_def DEFAULT_HEAP_SIZE_def
        MIN_HEAP_SIZE_def)
  ultimately show ?thesis by blast
qed

section \<open>Witnesses\<close>

definition raw_heap :: "nat \<Rightarrow> kheap" where
  "raw_heap ram = \<lparr>heap_start = 0, heap_end = 0, free_list = None, heap_total = 0, kheap_used = 0,
     heap_initialized = False, heap_lock = False,
     hdr = (\<lambda>_. \<lparr>bsize = 0, bmagic = 0, bflags = 0, bnext = None, bprev = None\<rparr>),
     kbytes = (\<lambda>_. 7), phys_total = ram\<rparr>"

definition boot_heap :: kheap where
  "boot_heap = kmalloc_init (raw_heap (256 * 1024 * 1024))"

lemma boot_heap_wf: "heap_wf boot_heap [HEAP_BASE] [HEAP_BASE]"
  unfolding boot_heap_def by (rule kmalloc_init_wf) (simp_all add: raw_heap_def)

lemma boot_heap_inv: "heap_inv boot_heap"
  using boot_heap_wf unfolding heap_inv_def by blast

lemma boot_heap_live: "live boot_heap = {}"
  by (simp add: live_eq [OF boot_heap_wf])

lemma boot_heap_alloc:
  assumes "0 < sz" and "sz \<le> MAX_ALLOC"
  obtains s p n where "kmalloc boot_heap sz flags = Some (s, Some p)" and "heap_inv s"
    and "live s = {(p, n)}" and "sz \<le> n"
  using boot_heap_inv
proof (cases rule: kmalloc_result [where sz = sz and flags = flags])
  case none
  have "(HEAP_BASE, bsize (hdr boot_heap HEAP_BASE)) \<in> free_blocks boot_heap"
    by (simp add: free_blocks_eq [OF boot_heap_wf])
  with none assms have "bsize (hdr boot_heap HEAP_BASE) < sz + header_size + MIN_ALLOC"
    by force
  with assms(2) show ?thesis
    by (simp add: boot_heap_def kmalloc_init_def raw_heap_def Let_def HEAP_BASE_def PMM_MEMORY_BASE_def
        DEFAULT_HEAP_SIZE_def MIN_HEAP_SIZE_def MAX_ALLOC_def)
next
  case (some s' p n)
  with that boot_heap_live show ?thesis by auto
qed



lemma krealloc_correct_witness:
  "\<exists>s p n s' r. kmalloc boot_heap 100 0 = Some (s, Some p) \<and> live s = {(p, n)} \<and>
     krealloc s (Some p) 5000 0 = Some (s', r) \<and> heap_inv s'"
proof -
  obtain s p n where k: "kmalloc boot_heap 100 0 = Some (s, Some p)" "heap_inv s" "live s = {(p, n)}"
    by (rule boot_heap_alloc [of 100 0]) (simp_all add: MAX_ALLOC_def)
  have "(p, n) \<in> live s"
    using k(3) by simp
  from krealloc_correct [OF k(2) this, of 5000 0] k show ?thesis
    by (metis zero_less_numeral)
qed

lemma heap_accounting_witness:
  "heap_inv boot_heap \<and> kheap_used boot_heap = 0 \<and> kheap_used boot_heap \<le> heap_total boot_heap"
  using heap_accounting [OF boot_heap_inv] boot_heap_inv boot_heap_live by simp

lemma kmalloc_init_correct_witness:
  "heap_inv (kmalloc_init (raw_heap (64 * 1024 * 1024))) \<and>
   \<not> heap_end (kmalloc_init (raw_heap (64 * 1024 * 1024))) \<le> PMM_MEMORY_BASE + 64 * 1024 * 1024"
  using kmalloc_init_correct [of "raw_heap (64 * 1024 * 1024)"] by (simp add: raw_heap_def)

end
