(* ===== verification/Pipe.thy ===== *)
theory Pipe
  imports Kmalloc "HOL-Library.Monad_Syntax"
begin

text \<open>
  Pipes, \<^verbatim>\<open>kernel/ipc/pipe.c\<close>: a ring buffer of 4096 bytes with counts of its readers and writers.
  The busy-waiting calls are modelled twice: as functions of one thread, which do not return
  (\<^const>\<open>None\<close>) when nobody else can change the pipe, and as a step relation between threads that
  interleave at the points where the source drops the lock. The pipe refines a queue of bytes.
\<close>

section \<open>State\<close>

definition PIPE_SIZE :: nat where "PIPE_SIZE = 4096"

record pipe =
  pbuffer :: ptr
  read_pos :: nat
  write_pos :: nat
  pcount :: nat
  readers :: int
  writers :: int
  plock :: bool

datatype pipe_ops = Pipe_read_ops | Pipe_write_ops

record pipe_file =
  f_op :: pipe_ops
  f_flags :: u32
  f_count :: int
  private_data :: ptr

text \<open>Pipe and file structures live at the addresses the heap gave out.\<close>

record pipe_sys =
  pheap :: kheap
  pipes :: "addr \<Rightarrow> pipe"
  pfiles :: "addr \<Rightarrow> pipe_file"

abbreviation (input) "sizeof_pipe \<equiv> (48 :: nat)"
abbreviation (input) "sizeof_file \<equiv> (48 :: nat)"

section \<open>Operations\<close>

definition pipe_lock :: "pipe \<Rightarrow> pipe option" where
  "pipe_lock p = (if plock p then None else Some (p\<lparr>plock := True\<rparr>))"

definition pipe_unlock :: "pipe \<Rightarrow> pipe" where
  "pipe_unlock p = p\<lparr>plock := False\<rparr>"

text \<open>The copying loops of \<open>pipe_read\<close> and \<open>pipe_write\<close>.\<close>

fun pipe_copy_out :: "nat \<Rightarrow> mem \<Rightarrow> addr \<Rightarrow> pipe \<Rightarrow> mem \<times> pipe" where
  "pipe_copy_out 0 m buf p = (m, p)"
| "pipe_copy_out (Suc n) m buf p =
     pipe_copy_out n (m(buf := m (the (pbuffer p) + read_pos p))) (buf + 1)
       (p\<lparr>read_pos := (read_pos p + 1) mod PIPE_SIZE\<rparr>)"

fun pipe_copy_in :: "nat \<Rightarrow> mem \<Rightarrow> addr \<Rightarrow> pipe \<Rightarrow> mem \<times> pipe" where
  "pipe_copy_in 0 m buf p = (m, p)"
| "pipe_copy_in (Suc n) m buf p =
     pipe_copy_in n (m(the (pbuffer p) + write_pos p := m buf)) (buf + 1)
       (p\<lparr>write_pos := (write_pos p + 1) mod PIPE_SIZE\<rparr>)"

text \<open>
  What a call does while it holds the lock: it returns, or it drops the lock to wait for the other
  side, having written so many bytes, or it loops for ever with the lock held.
\<close>

datatype section_end = Returns int | Waits nat | Spins

definition pipe_read_resume :: "mem \<Rightarrow> pipe \<Rightarrow> addr \<Rightarrow> nat \<Rightarrow> mem \<times> pipe \<times> section_end" where
  "pipe_read_resume m p buf cnt =
     (if pcount p = 0 \<and> writers p > 0 then (m, p, Waits 0)
      else let to_read = (if cnt < pcount p then cnt else pcount p);
               (m1, p1) = pipe_copy_out to_read m buf p
           in (m1, p1\<lparr>pcount := pcount p1 - to_read\<rparr>, Returns (int to_read)))"

definition pipe_read_enter :: "mem \<Rightarrow> pipe \<Rightarrow> addr \<Rightarrow> nat \<Rightarrow> mem \<times> pipe \<times> section_end" where
  "pipe_read_enter m p buf cnt =
     (if writers p = 0 \<and> pcount p = 0 then (m, p, Returns 0) else pipe_read_resume m p buf cnt)"

lemma pipe_copy_out_fields [simp]:
  "pcount (snd (pipe_copy_out n m buf p)) = pcount p"
  "readers (snd (pipe_copy_out n m buf p)) = readers p"
  "writers (snd (pipe_copy_out n m buf p)) = writers p"
  "pbuffer (snd (pipe_copy_out n m buf p)) = pbuffer p"
  "write_pos (snd (pipe_copy_out n m buf p)) = write_pos p"
  "plock (snd (pipe_copy_out n m buf p)) = plock p"
  by (induction n arbitrary: m buf p) auto

lemma pipe_copy_in_fields [simp]:
  "pcount (snd (pipe_copy_in n m buf p)) = pcount p"
  "readers (snd (pipe_copy_in n m buf p)) = readers p"
  "writers (snd (pipe_copy_in n m buf p)) = writers p"
  "pbuffer (snd (pipe_copy_in n m buf p)) = pbuffer p"
  "read_pos (snd (pipe_copy_in n m buf p)) = read_pos p"
  "plock (snd (pipe_copy_in n m buf p)) = plock p"
  by (induction n arbitrary: m buf p) auto

text \<open>The unsigned difference \<^verbatim>\<open>PIPE_SIZE - p->count\<close>.\<close>

definition pipe_space :: "pipe \<Rightarrow> nat" where
  "pipe_space p = (PIPE_SIZE + 2 ^ 64 - pcount p) mod 2 ^ 64"

function pipe_write_loop :: "mem \<Rightarrow> pipe \<Rightarrow> addr \<Rightarrow> nat \<Rightarrow> nat \<Rightarrow> mem \<times> pipe \<times> section_end" where
  "pipe_write_loop m p buf cnt written =
     (if written < cnt
      then if pcount p \<ge> PIPE_SIZE \<and> readers p > 0 then (m, p, Waits written)
           else if readers p = 0 then (m, p, Returns (if written > 0 then int written else - EPIPE))
           else let space = pipe_space p;
                    to_write = (if cnt - written < space then cnt - written else space);
                    (m1, p1) = pipe_copy_in to_write m (buf + written) p
                in if to_write = 0 then (m, p, Spins)
                   else pipe_write_loop m1 (p1\<lparr>pcount := pcount p1 + to_write\<rparr>) buf cnt (written + to_write)
      else (m, p, Returns (int written)))"
  by pat_completeness auto
termination
  by (relation "measure (\<lambda>(m, p, buf, cnt, written). cnt - written)") auto

declare pipe_write_loop.simps [simp del]

definition pipe_write_enter :: "mem \<Rightarrow> pipe \<Rightarrow> addr \<Rightarrow> nat \<Rightarrow> mem \<times> pipe \<times> section_end" where
  "pipe_write_enter m p buf cnt =
     (if readers p = 0 then (m, p, Returns (- EPIPE)) else pipe_write_loop m p buf cnt 0)"

text \<open>
  A section on the system: take the lock of the pipe at \<open>pa\<close>, run, drop the lock. \<^const>\<open>None\<close>
  is a section that never ends: the lock is never given back.
\<close>

definition locked_section ::
    "(mem \<Rightarrow> pipe \<Rightarrow> mem \<times> pipe \<times> section_end) \<Rightarrow> pipe_sys \<Rightarrow> addr \<Rightarrow> (pipe_sys \<times> section_end) option" where
  "locked_section body s pa =
     do {
       p \<leftarrow> pipe_lock (pipes s pa);
       let (m, p1, r) = body (kbytes (pheap s)) p;
       if r = Spins then None
       else Some (s\<lparr>pheap := (pheap s)\<lparr>kbytes := m\<rparr>, pipes := (pipes s)(pa := pipe_unlock p1)\<rparr>, r)
     }"

text \<open>The calls of a thread that runs alone.\<close>

definition pipe_read :: "pipe_sys \<Rightarrow> addr \<Rightarrow> addr \<Rightarrow> nat \<Rightarrow> (pipe_sys \<times> int) option" where
  "pipe_read s file buf cnt =
     (case private_data (pfiles s file) of
        None \<Rightarrow> Some (s, - EIO)
      | Some pa \<Rightarrow>
          (case locked_section (\<lambda>m p. pipe_read_enter m p buf cnt) s pa of
             Some (s', Returns r) \<Rightarrow> Some (s', r)
           | _ \<Rightarrow> None))"

definition pipe_write :: "pipe_sys \<Rightarrow> addr \<Rightarrow> addr \<Rightarrow> nat \<Rightarrow> (pipe_sys \<times> int) option" where
  "pipe_write s file buf cnt =
     (case private_data (pfiles s file) of
        None \<Rightarrow> Some (s, - EIO)
      | Some pa \<Rightarrow>
          (case locked_section (\<lambda>m p. pipe_write_enter m p buf cnt) s pa of
             Some (s', Returns r) \<Rightarrow> Some (s', r)
           | _ \<Rightarrow> None))"

text \<open>The common tail of the two release operations: free the pipe when it has no users.\<close>

definition pipe_put :: "pipe_sys \<Rightarrow> addr \<Rightarrow> pipe \<Rightarrow> pipe_sys option" where
  "pipe_put s pa p =
     (let s1 = s\<lparr>pipes := (pipes s)(pa := pipe_unlock p)\<rparr> in
      if readers p = 0 \<and> writers p = 0
      then do {
        h1 \<leftarrow> kfree (pheap s1) (pbuffer p);
        h2 \<leftarrow> kfree h1 (Some pa);
        Some (s1\<lparr>pheap := h2\<rparr>)
      }
      else Some s1)"

definition pipe_release_read :: "pipe_sys \<Rightarrow> addr \<Rightarrow> (pipe_sys \<times> int) option" where
  "pipe_release_read s file =
     (case private_data (pfiles s file) of
        None \<Rightarrow> Some (s, 0)
      | Some pa \<Rightarrow> do {
          p \<leftarrow> pipe_lock (pipes s pa);
          s' \<leftarrow> pipe_put s pa (p\<lparr>readers := readers p - 1\<rparr>);
          Some (s', 0)
        })"

definition pipe_release_write :: "pipe_sys \<Rightarrow> addr \<Rightarrow> (pipe_sys \<times> int) option" where
  "pipe_release_write s file =
     (case private_data (pfiles s file) of
        None \<Rightarrow> Some (s, 0)
      | Some pa \<Rightarrow> do {
          p \<leftarrow> pipe_lock (pipes s pa);
          s' \<leftarrow> pipe_put s pa (p\<lparr>writers := writers p - 1\<rparr>);
          Some (s', 0)
        })"

text \<open>
  \<open>do_pipe\<close> returns the error code and the two file structures. Setting up the pipe writes the
  fields the source assigns; the rest of each file structure is zero from \<open>kzalloc\<close>.
\<close>

definition new_pipe :: "addr \<Rightarrow> pipe" where
  "new_pipe b = \<lparr>pbuffer = Some b, read_pos = 0, write_pos = 0, pcount = 0, readers = 1, writers = 1,
     plock = False\<rparr>"

abbreviation (input) "O_RDONLY \<equiv> (0 :: u32)"
abbreviation (input) "O_WRONLY \<equiv> (1 :: u32)"

definition do_pipe :: "pipe_sys \<Rightarrow> (pipe_sys \<times> int \<times> (addr \<times> addr) option) option" where
  "do_pipe s = do {
     (h1, r1) \<leftarrow> kzalloc (pheap s) sizeof_pipe GFP_KERNEL;
     (case r1 of
        None \<Rightarrow> Some (s\<lparr>pheap := h1\<rparr>, - ENOMEM, None)
      | Some p \<Rightarrow> do {
          (h2, r2) \<leftarrow> kmalloc h1 PIPE_SIZE GFP_KERNEL;
          (case r2 of
             None \<Rightarrow> do {
               h3 \<leftarrow> kfree h2 (Some p);
               Some (s\<lparr>pheap := h3\<rparr>, - ENOMEM, None)
             }
           | Some b \<Rightarrow> do {
               (h3, rf) \<leftarrow> kzalloc h2 sizeof_file GFP_KERNEL;
               (h4, wf) \<leftarrow> kzalloc h3 sizeof_file GFP_KERNEL;
               if rf = None \<or> wf = None
               then do {
                 h5 \<leftarrow> kfree h4 rf;
                 h6 \<leftarrow> kfree h5 wf;
                 h7 \<leftarrow> kfree h6 (Some b);
                 h8 \<leftarrow> kfree h7 (Some p);
                 Some (s\<lparr>pheap := h8, pipes := (pipes s)(p := new_pipe b)\<rparr>, - ENOMEM, None)
               }
               else
                 Some (s\<lparr>pheap := h4, pipes := (pipes s)(p := new_pipe b),
                         pfiles := (pfiles s)(
                           the rf := \<lparr>f_op = Pipe_read_ops, f_flags = O_RDONLY, f_count = 1, private_data = Some p\<rparr>,
                           the wf := \<lparr>f_op = Pipe_write_ops, f_flags = O_WRONLY, f_count = 1, private_data = Some p\<rparr>)\<rparr>,
                       0, Some (the rf, the wf))
             })
        })
   }"

section \<open>The ring buffer as a queue\<close>

definition pipe_wf :: "pipe \<Rightarrow> bool" where
  "pipe_wf p \<longleftrightarrow> pbuffer p \<noteq> None \<and> read_pos p < PIPE_SIZE \<and> pcount p \<le> PIPE_SIZE \<and>
     write_pos p = (read_pos p + pcount p) mod PIPE_SIZE"

text \<open>The bytes in a pipe, oldest first.\<close>

definition contents :: "mem \<Rightarrow> pipe \<Rightarrow> byte list" where
  "contents m p = map (\<lambda>i. m (the (pbuffer p) + (read_pos p + i) mod PIPE_SIZE)) [0..<pcount p]"

lemma ring_pos_inj:
  assumes "(a + i) mod S = (a + j) mod S" and "i < S" and "j < (S :: nat)"
  shows "i = j"
proof -
  have "i = j" if "i \<le> j" "(a + j) mod S = (a + i) mod S" "j < S" for i j
    using that mod_eq_dvd_iff_nat [of "a + i" "a + j" S] by (auto dest: dvd_imp_le)
  with assms show ?thesis by (metis linear)
qed

lemma PIPE_SIZE_pos [simp]: "0 < PIPE_SIZE" "x mod PIPE_SIZE < PIPE_SIZE" "PIPE_SIZE \<noteq> 0"
    "\<not> PIPE_SIZE \<le> x mod PIPE_SIZE"
  by (simp_all add: PIPE_SIZE_def not_le)

lemma length_contents [simp]: "length (contents m p) = pcount p"
  by (simp add: contents_def)

lemma nth_contents: "i < pcount p \<Longrightarrow> contents m p ! i = m (the (pbuffer p) + (read_pos p + i) mod PIPE_SIZE)"
  by (simp add: contents_def)

lemma contents_cong:
  "(\<And>j. j < PIPE_SIZE \<Longrightarrow> m' (the (pbuffer p) + j) = m (the (pbuffer p) + j)) \<Longrightarrow>
     contents m' p = contents m p"
  by (simp add: contents_def)

text \<open>The user's buffer lies outside the ring.\<close>

abbreviation outside_ring :: "pipe \<Rightarrow> addr \<Rightarrow> nat \<Rightarrow> bool" where
  "outside_ring p buf n \<equiv> disjoint_ranges buf n (the (pbuffer p)) PIPE_SIZE"

lemma pipe_copy_out_eq:
  assumes "outside_ring p buf n" and "read_pos p < PIPE_SIZE"
  shows "pipe_copy_out n m buf p =
    (write_bytes m buf (map (\<lambda>i. m (the (pbuffer p) + (read_pos p + i) mod PIPE_SIZE)) [0..<n]),
     p\<lparr>read_pos := (read_pos p + n) mod PIPE_SIZE\<rparr>)"
  using assms
proof (induction n arbitrary: m buf p)
  case (Suc n)
  let ?m = "m(buf := m (the (pbuffer p) + read_pos p))"
  let ?p = "p\<lparr>read_pos := (read_pos p + 1) mod PIPE_SIZE\<rparr>"
  let ?f = "\<lambda>i. m (the (pbuffer p) + (read_pos p + i) mod PIPE_SIZE)"
  have "outside_ring ?p (buf + 1) n"
    using Suc.prems(1) by (auto simp: disjoint_ranges_def)
  from Suc.IH [OF this, of ?m] have "pipe_copy_out (Suc n) m buf p =
      (write_bytes ?m (buf + 1) (map (\<lambda>i. ?m (the (pbuffer p) + (Suc (read_pos p + i)) mod PIPE_SIZE)) [0..<n]),
       p\<lparr>read_pos := Suc (read_pos p + n) mod PIPE_SIZE\<rparr>)"
    by (simp add: mod_simps fun_upd_def)
  moreover have "?m (the (pbuffer p) + x mod PIPE_SIZE) = m (the (pbuffer p) + x mod PIPE_SIZE)" for x
    using Suc.prems(1) by (auto simp: disjoint_ranges_def)
  moreover have "map ?f [0..<Suc n] = ?f 0 # map (\<lambda>i. ?f (Suc i)) [0..<n]"
    by (simp add: upt_conv_Cons map_Suc_upt [symmetric] del: upt_Suc)
  ultimately show ?case
    using Suc.prems(2) by (simp add: write_bytes_Cons del: upt_Suc)
qed simp

lemma pipe_copy_in_pos:
  "write_pos p < PIPE_SIZE \<Longrightarrow>
     snd (pipe_copy_in n m buf p) = p\<lparr>write_pos := (write_pos p + n) mod PIPE_SIZE\<rparr>"
  by (induction n arbitrary: m buf p) (simp_all add: mod_simps del: fun_upd_apply)

lemma pipe_copy_in_outside:
  assumes "write_pos p < PIPE_SIZE" and "a < the (pbuffer p) \<or> the (pbuffer p) + PIPE_SIZE \<le> a"
  shows "fst (pipe_copy_in n m buf p) a = m a"
  using assms
proof (induction n arbitrary: m buf p)
  case (Suc n)
  let ?m = "m(the (pbuffer p) + write_pos p := m buf)"
  from Suc.IH [of "p\<lparr>write_pos := (write_pos p + 1) mod PIPE_SIZE\<rparr>" ?m] Suc.prems show ?case
    by (auto simp: fun_upd_def)
qed simp

lemma pipe_copy_in_kept:
  assumes "write_pos p < PIPE_SIZE" and "\<forall>i < n. j \<noteq> (write_pos p + i) mod PIPE_SIZE"
  shows "fst (pipe_copy_in n m buf p) (the (pbuffer p) + j) = m (the (pbuffer p) + j)"
  using assms
proof (induction n arbitrary: m buf p)
  case (Suc n)
  let ?m = "m(the (pbuffer p) + write_pos p := m buf)"
  let ?p = "p\<lparr>write_pos := (write_pos p + 1) mod PIPE_SIZE\<rparr>"
  have "\<forall>i < n. j \<noteq> (write_pos ?p + i) mod PIPE_SIZE" and "j \<noteq> write_pos p"
    using Suc.prems(2)[rule_format, of "Suc _"] Suc.prems(1) Suc.prems(2)[rule_format, of 0]
    by (auto simp: mod_simps)
  with Suc.IH [of ?p ?m "buf + 1"] show ?case by (simp add: fun_upd_def)
qed simp

lemma pipe_copy_in_stored:
  assumes "write_pos p < PIPE_SIZE" and "n \<le> PIPE_SIZE" and "outside_ring p buf n" and "i < n"
  shows "fst (pipe_copy_in n m buf p) (the (pbuffer p) + (write_pos p + i) mod PIPE_SIZE) = m (buf + i)"
  using assms
proof (induction n arbitrary: m buf p i)
  case (Suc n)
  let ?m = "m(the (pbuffer p) + write_pos p := m buf)"
  let ?p = "p\<lparr>write_pos := (write_pos p + 1) mod PIPE_SIZE\<rparr>"
  show ?case
  proof (cases i)
    case 0
    have "\<forall>k < n. write_pos p \<noteq> (write_pos ?p + k) mod PIPE_SIZE"
    proof (intro allI impI)
      fix k assume "k < n"
      with ring_pos_inj [of "write_pos p" 0 PIPE_SIZE "Suc k"] Suc.prems(1,2)
      show "write_pos p \<noteq> (write_pos ?p + k) mod PIPE_SIZE" by (auto simp: mod_simps)
    qed
    from pipe_copy_in_kept [OF _ this, of ?m "buf + 1"] 0 Suc.prems(1) show ?thesis
      by (simp add: fun_upd_def)
  next
    case (Suc k)
    have "outside_ring ?p (buf + 1) n"
      using Suc.prems(3) by (auto simp: disjoint_ranges_def)
    then have "fst (pipe_copy_in n ?m (buf + 1) ?p) (the (pbuffer p) + (write_pos ?p + k) mod PIPE_SIZE)
        = ?m (buf + 1 + k)"
      using Suc Suc.prems Suc.IH [of ?p "buf + 1" k ?m] by (simp add: fun_upd_def)
    moreover have "?m (buf + 1 + k) = m (buf + i)"
      using Suc Suc.prems(1,3,4) by (auto simp: disjoint_ranges_def)
    ultimately show ?thesis
      using Suc by (simp add: mod_simps fun_upd_def)
  qed
qed simp

text \<open>Taking bytes out of the ring and putting bytes in, as the two calls do under the lock.\<close>

definition ring_get :: "mem \<Rightarrow> pipe \<Rightarrow> addr \<Rightarrow> nat \<Rightarrow> mem \<times> pipe" where
  "ring_get m p buf n = (case pipe_copy_out n m buf p of (m1, p1) \<Rightarrow> (m1, p1\<lparr>pcount := pcount p1 - n\<rparr>))"

definition ring_put :: "mem \<Rightarrow> pipe \<Rightarrow> addr \<Rightarrow> nat \<Rightarrow> mem \<times> pipe" where
  "ring_put m p buf n = (case pipe_copy_in n m buf p of (m1, p1) \<Rightarrow> (m1, p1\<lparr>pcount := pcount p1 + n\<rparr>))"

lemma ring_get_spec:
  assumes wf: "pipe_wf p" and n: "n \<le> pcount p" and out: "outside_ring p buf n"
    and get: "ring_get m p buf n = (m', p')"
  shows "pipe_wf p'" and "contents m' p' = drop n (contents m p)"
    and "m' = write_bytes m buf (take n (contents m p))" and "pbuffer p' = pbuffer p"
    and "pcount p' = pcount p - n" and "readers p' = readers p" and "writers p' = writers p"
    and "plock p' = plock p"
proof -
  have rp: "read_pos p < PIPE_SIZE"
    using wf by (simp add: pipe_wf_def)
  have p': "p' = p\<lparr>read_pos := (read_pos p + n) mod PIPE_SIZE, pcount := pcount p - n\<rparr>"
    and m': "m' = write_bytes m buf (map (\<lambda>i. m (the (pbuffer p) + (read_pos p + i) mod PIPE_SIZE)) [0..<n])"
    using get unfolding ring_get_def pipe_copy_out_eq [OF out rp] by auto
  obtain k where k: "pcount p = n + k"
    using n by (auto simp: le_iff_add)
  show "pipe_wf p'"
    using wf by (auto simp: p' pipe_wf_def mod_simps k add.assoc)
  show "m' = write_bytes m buf (take n (contents m p))"
    using n unfolding m' contents_def by (simp add: take_map min_def)
  have "m' (the (pbuffer p) + j) = m (the (pbuffer p) + j)" if "j < PIPE_SIZE" for j
    using out that by (auto simp: m' disjoint_ranges_def intro: write_bytes_outside)
  then have "contents m' p' = contents m p'"
    by (intro contents_cong) (simp add: p')
  also have "\<dots> = drop n (contents m p)"
    using n by (auto intro!: nth_equalityI simp: nth_contents p' mod_simps add.assoc)
  finally show "contents m' p' = drop n (contents m p)" .
  show "pbuffer p' = pbuffer p" and "pcount p' = pcount p - n" and "readers p' = readers p"
    and "writers p' = writers p" and "plock p' = plock p"
    by (simp_all add: p')
qed

lemma ring_put_spec:
  assumes wf: "pipe_wf p" and n: "pcount p + n \<le> PIPE_SIZE" and out: "outside_ring p buf n"
    and put: "ring_put m p buf n = (m', p')"
  shows "pipe_wf p'" and "contents m' p' = contents m p @ read_bytes m buf n"
    and "\<And>a. a < the (pbuffer p) \<or> the (pbuffer p) + PIPE_SIZE \<le> a \<Longrightarrow> m' a = m a"
    and "pbuffer p' = pbuffer p" and "pcount p' = pcount p + n" and "readers p' = readers p"
    and "writers p' = writers p" and "plock p' = plock p"
proof -
  have wp: "write_pos p = (read_pos p + pcount p) mod PIPE_SIZE" "write_pos p < PIPE_SIZE"
    using wf by (auto simp: pipe_wf_def)
  have p': "p' = p\<lparr>write_pos := (write_pos p + n) mod PIPE_SIZE, pcount := pcount p + n\<rparr>"
    and m': "m' = fst (pipe_copy_in n m buf p)"
    using put pipe_copy_in_pos [OF wp(2), of n m buf] unfolding ring_put_def by (auto split: prod.splits)
  show "pipe_wf p'"
    using wf n by (auto simp: p' pipe_wf_def mod_simps add.assoc)
  show "\<And>a. a < the (pbuffer p) \<or> the (pbuffer p) + PIPE_SIZE \<le> a \<Longrightarrow> m' a = m a"
    unfolding m' by (rule pipe_copy_in_outside [OF wp(2)])
  have old: "m' (the (pbuffer p) + (read_pos p + i) mod PIPE_SIZE) = m (the (pbuffer p) + (read_pos p + i) mod PIPE_SIZE)"
    if "i < pcount p" for i
    unfolding m'
  proof (rule pipe_copy_in_kept [OF wp(2)], intro allI impI)
    fix k assume "k < n"
    with n that ring_pos_inj [of "read_pos p" i PIPE_SIZE "pcount p + k"]
    show "(read_pos p + i) mod PIPE_SIZE \<noteq> (write_pos p + k) mod PIPE_SIZE"
      by (auto simp: wp(1) mod_simps add.assoc)
  qed
  have new: "m' (the (pbuffer p) + (read_pos p + (pcount p + k)) mod PIPE_SIZE) = m (buf + k)" if "k < n" for k
    using pipe_copy_in_stored [OF wp(2) _ out that, of m] n
    by (simp add: m' wp(1) mod_simps add.assoc)
  show "contents m' p' = contents m p @ read_bytes m buf n"
  proof (rule nth_equalityI)
    fix i assume "i < length (contents m' p')"
    then show "contents m' p' ! i = (contents m p @ read_bytes m buf n) ! i"
      using old [of i] new [of "i - pcount p"] by (auto simp: nth_contents nth_append p')
  qed (simp add: p')
  show "pbuffer p' = pbuffer p" and "pcount p' = pcount p + n" and "readers p' = readers p"
    and "writers p' = writers p" and "plock p' = plock p"
    by (simp_all add: p')
qed

section \<open>The contract of a byte queue\<close>

text \<open>
  The two loops are the only code that touches the ring. What the rest relies on is a queue: putting
  appends the bytes of the caller's buffer, getting moves the oldest bytes there.
\<close>

locale byte_queue =
  fixes wf :: "'p \<Rightarrow> bool" and view :: "mem \<Rightarrow> 'p \<Rightarrow> byte list" and capacity :: nat
    and apart :: "'p \<Rightarrow> addr \<Rightarrow> nat \<Rightarrow> bool"
    and put :: "mem \<Rightarrow> 'p \<Rightarrow> addr \<Rightarrow> nat \<Rightarrow> mem \<times> 'p"
    and get :: "mem \<Rightarrow> 'p \<Rightarrow> addr \<Rightarrow> nat \<Rightarrow> mem \<times> 'p"
  assumes put_law: "wf p \<Longrightarrow> length (view m p) + n \<le> capacity \<Longrightarrow> apart p buf n \<Longrightarrow>
      put m p buf n = (m', p') \<Longrightarrow>
      wf p' \<and> view m' p' = view m p @ read_bytes m buf n \<and> apart p' = apart p \<and>
      (\<forall>q k. apart p q k \<longrightarrow> read_bytes m' q k = read_bytes m q k)"
    and get_law: "wf p \<Longrightarrow> n \<le> length (view m p) \<Longrightarrow> apart p buf n \<Longrightarrow>
      get m p buf n = (m', p') \<Longrightarrow>
      wf p' \<and> view m' p' = drop n (view m p) \<and> apart p' = apart p \<and>
      m' = write_bytes m buf (take n (view m p))"
begin

lemma get_delivers:
  assumes "wf p" and "n \<le> length (view m p)" and "apart p buf n" and "get m p buf n = (m', p')"
  shows "read_bytes m' buf n = take n (view m p)" and "view m p = read_bytes m' buf n @ view m' p'"
proof -
  note g = get_law [OF assms]
  show "read_bytes m' buf n = take n (view m p)"
    using g read_write_same [of m buf "take n (view m p)"] assms(2) by (simp add: min_absorb2)
  with g show "view m p = read_bytes m' buf n @ view m' p'"
    by (metis append_take_drop_id)
qed

text \<open>What is put into an empty queue comes out again.\<close>

lemma put_get_round_trip:
  assumes wf: "wf p" and empty: "view m p = []" and n: "n \<le> capacity"
    and ap: "apart p src n" "apart p dst n"
    and put: "put m p src n = (m1, p1)" and get: "get m1 p1 dst n = (m2, p2)"
  shows "read_bytes m2 dst n = read_bytes m src n" and "view m2 p2 = []"
proof -
  have 1: "wf p1" "view m1 p1 = read_bytes m src n" "apart p1 dst n"
    using put_law [OF wf _ ap(1) put] empty n ap(2) by auto
  then show "read_bytes m2 dst n = read_bytes m src n" and "view m2 p2 = []"
    using get_delivers [OF 1(1) _ 1(3) get] by simp_all
qed

text \<open>The stream law: what has gone in is what has come out followed by what is queued.\<close>

lemma put_stream:
  assumes "wf p" and "length (view m p) + n \<le> capacity" and "apart p buf n" and "put m p buf n = (m', p')"
    and "sent = received @ view m p"
  shows "sent @ read_bytes m buf n = received @ view m' p'"
  using put_law [OF assms(1-4)] assms(5) by simp

lemma get_stream:
  assumes "wf p" and "n \<le> length (view m p)" and "apart p buf n" and "get m p buf n = (m', p')"
    and "sent = received @ view m p"
  shows "sent = (received @ read_bytes m' buf n) @ view m' p'"
  using get_delivers(2) [OF assms(1-4)] assms(5) by simp

end

interpretation ring: byte_queue pipe_wf contents PIPE_SIZE outside_ring ring_put ring_get
proof
  fix p m n buf m' p'
  assume "pipe_wf p" and "length (contents m p) + n \<le> PIPE_SIZE" and "outside_ring p buf n"
    and "ring_put m p buf n = (m', p')"
  then show "pipe_wf p' \<and> contents m' p' = contents m p @ read_bytes m buf n \<and>
      outside_ring p' = outside_ring p \<and>
      (\<forall>q k. outside_ring p q k \<longrightarrow> read_bytes m' q k = read_bytes m q k)"
    using ring_put_spec [of p n buf m m' p']
    by (auto intro!: read_bytes_cong simp: disjoint_ranges_def fun_eq_iff)
next
  fix p m n buf m' p'
  assume "pipe_wf p" and "n \<le> length (contents m p)" and "outside_ring p buf n"
    and "ring_get m p buf n = (m', p')"
  then show "pipe_wf p' \<and> contents m' p' = drop n (contents m p) \<and> outside_ring p' = outside_ring p \<and>
      m' = write_bytes m buf (take n (contents m p))"
    using ring_get_spec [of p n buf m m' p'] by (simp add: fun_eq_iff)
qed

section \<open>The sections in terms of the queue\<close>

lemma pipe_read_resume_eq:
  "pipe_read_resume m p buf cnt =
     (if pcount p = 0 \<and> writers p > 0 then (m, p, Waits 0)
      else case ring_get m p buf (min cnt (pcount p)) of
             (m', p') \<Rightarrow> (m', p', Returns (int (min cnt (pcount p)))))"
  by (auto simp: pipe_read_resume_def ring_get_def min_def split: prod.splits)

lemma pipe_read_enter_eq:
  "pipe_wf p \<Longrightarrow> pipe_read_enter m p buf cnt = pipe_read_resume m p buf cnt"
  by (auto simp: pipe_read_enter_def pipe_read_resume_eq ring_get_def)

lemma unsigned_diff: "c \<le> S \<Longrightarrow> S < N \<Longrightarrow> (S + N - c) mod N = S - (c :: nat)"
proof -
  assume "c \<le> S" and "S < N"
  then have "S + N - c = (S - c) + N" and "S - c < N" by simp_all
  then show ?thesis by (metis mod_add_self2 mod_less)
qed

lemma pipe_space_eq: "pcount p \<le> PIPE_SIZE \<Longrightarrow> pipe_space p = PIPE_SIZE - pcount p"
  unfolding pipe_space_def by (rule unsigned_diff) (simp_all add: PIPE_SIZE_def)

lemma ring_put_0: "ring_put m p buf 0 = (m, p)"
  by (simp add: ring_put_def)

lemma pipe_write_loop_eq:
  assumes wf: "pipe_wf p" and r: "readers p \<noteq> 0" and w: "written \<le> cnt"
  defines "k \<equiv> min (cnt - written) (PIPE_SIZE - pcount p)"
  shows "pipe_write_loop m p buf cnt written =
    (case ring_put m p (buf + written) k of (m', p') \<Rightarrow>
       (m', p', if written + k = cnt then Returns (int cnt)
                else if readers p > 0 then Waits (written + k) else Spins))"
proof -
  have c: "pcount p \<le> PIPE_SIZE"
    using wf by (simp add: pipe_wf_def)
  show ?thesis
  proof (cases "k = 0")
    case True
    then have "written = cnt \<or> written < cnt \<and> pcount p = PIPE_SIZE"
      using w c by (auto simp: k_def min_def split: if_splits)
    with True r show ?thesis
      by (subst pipe_write_loop.simps) (auto simp: ring_put_0 Let_def pipe_space_eq split: prod.splits)
  next
    case False
    then have lt: "written < cnt" "pcount p < PIPE_SIZE"
      by (auto simp: k_def)
    obtain m' p' where put: "ring_put m p (buf + written) k = (m', p')"
      by fastforce
    have step: "pipe_write_loop m p buf cnt written = pipe_write_loop m' p' buf cnt (written + k)"
    proof -
      have "k = (if cnt - written < pipe_space p then cnt - written else pipe_space p)"
        using c by (simp add: k_def pipe_space_eq min_def)
      then show ?thesis
        using lt r False put by (subst pipe_write_loop.simps) (auto simp: Let_def ring_put_def split: prod.splits)
    qed
    have cnt': "pcount p' = pcount p + k" "readers p' = readers p"
      using put by (auto simp: ring_put_def split: prod.splits
          dest!: arg_cong [where f = "\<lambda>x. (pcount (snd x), readers (snd x))"])
    have "written + k = cnt \<or> written + k < cnt \<and> pcount p' = PIPE_SIZE"
      using lt by (auto simp: k_def cnt' min_def)
    with put r show ?thesis
      unfolding step
      by (subst pipe_write_loop.simps) (auto simp: cnt' Let_def pipe_space_eq split: prod.splits)
  qed
qed

abbreviation pmem :: "pipe_sys \<Rightarrow> mem" where
  "pmem s \<equiv> kbytes (pheap s)"

abbreviation queued :: "pipe_sys \<Rightarrow> addr \<Rightarrow> byte list" where
  "queued s pa \<equiv> contents (pmem s) (pipes s pa)"

definition pipe_ok :: "pipe_sys \<Rightarrow> addr \<Rightarrow> bool" where
  "pipe_ok s pa \<longleftrightarrow> pipe_wf (pipes s pa) \<and> \<not> plock (pipes s pa)"

text \<open>What a section leaves alone: other pipes, files, the heap's structure, the users of the pipe.\<close>

definition pipe_frame :: "pipe_sys \<Rightarrow> pipe_sys \<Rightarrow> addr \<Rightarrow> bool" where
  "pipe_frame s s' pa \<longleftrightarrow>
     pfiles s' = pfiles s \<and> (\<forall>q. q \<noteq> pa \<longrightarrow> pipes s' q = pipes s q) \<and>
     pheap s' = (pheap s)\<lparr>kbytes := pmem s'\<rparr> \<and> pbuffer (pipes s' pa) = pbuffer (pipes s pa) \<and>
     readers (pipes s' pa) = readers (pipes s pa) \<and> writers (pipes s' pa) = writers (pipes s pa)"

lemma plock_irrelevant [simp]:
  "pipe_wf (p\<lparr>plock := b\<rparr>) = pipe_wf p" "contents m (p\<lparr>plock := b\<rparr>) = contents m p"
  by (simp_all add: pipe_wf_def contents_def)

lemma locked_section_free:
  "\<not> plock (pipes s pa) \<Longrightarrow> locked_section body s pa =
     (case body (pmem s) ((pipes s pa)\<lparr>plock := True\<rparr>) of (m, p1, r) \<Rightarrow>
        if r = Spins then None
        else Some (s\<lparr>pheap := (pheap s)\<lparr>kbytes := m\<rparr>, pipes := (pipes s)(pa := pipe_unlock p1)\<rparr>, r))"
  by (simp add: locked_section_def pipe_lock_def)

lemma locked_section_not_Spins: "locked_section body s pa = Some (s', e) \<Longrightarrow> e \<noteq> Spins"
  unfolding locked_section_def bind_eq_Some_conv Let_def
  by (cases "body (pmem s) (the (pipe_lock (pipes s pa)))") (auto split: if_splits)

lemma pipe_sys_unchanged:
  "\<not> plock (pipes s pa) \<Longrightarrow>
     s\<lparr>pipes := (pipes s)(pa := (pipes s pa)\<lparr>plock := False\<rparr>)\<rparr> = s"
proof -
  assume "\<not> plock (pipes s pa)"
  then have "(pipes s pa)\<lparr>plock := False\<rparr> = pipes s pa" by simp
  then show ?thesis by simp
qed

lemma read_section:
  assumes ok: "pipe_ok s pa" and out: "outside_ring (pipes s pa) buf cnt"
  obtains (wait) "locked_section (\<lambda>m p. pipe_read_resume m p buf cnt) s pa = Some (s, Waits 0)"
      and "queued s pa = []" and "writers (pipes s pa) > 0"
  | (got) s' k where "locked_section (\<lambda>m p. pipe_read_resume m p buf cnt) s pa = Some (s', Returns (int k))"
      and "k = min cnt (length (queued s pa))" and "queued s pa = [] \<longrightarrow> writers (pipes s pa) \<le> 0"
      and "pipe_ok s' pa" and "pipe_frame s s' pa"
      and "pmem s' = write_bytes (pmem s) buf (take k (queued s pa))"
      and "queued s pa = read_bytes (pmem s') buf k @ queued s' pa"
proof -
  let ?p = "(pipes s pa)\<lparr>plock := True\<rparr>" and ?k = "min cnt (pcount (pipes s pa))"
  have wf: "pipe_wf ?p" and free: "\<not> plock (pipes s pa)"
    using ok by (simp_all add: pipe_ok_def)
  show ?thesis
  proof (cases "pcount (pipes s pa) = 0 \<and> writers (pipes s pa) > 0")
    case True
    with free show ?thesis
      by (intro wait)
        (simp_all add: locked_section_free pipe_read_resume_eq pipe_unlock_def contents_def pipe_sys_unchanged)
  next
    case False
    obtain m' p' where get: "ring_get (pmem s) ?p buf ?k = (m', p')"
      by fastforce
    have out': "outside_ring ?p buf ?k"
      using out by (auto simp: disjoint_ranges_def)
    have k: "?k \<le> pcount ?p" by simp
    note spec = ring_get_spec [OF wf k out' get]
    have del: "contents (pmem s) ?p = read_bytes m' buf ?k @ contents m' p'"
      by (rule ring.get_delivers(2) [OF wf _ out' get]) simp
    show ?thesis
      by (rule got [of "s\<lparr>pheap := (pheap s)\<lparr>kbytes := m'\<rparr>, pipes := (pipes s)(pa := pipe_unlock p')\<rparr>" ?k])
        (use False free get spec del in \<open>auto simp: locked_section_free pipe_read_resume_eq pipe_ok_def
           pipe_frame_def pipe_unlock_def contents_def [of _ "pipes s pa"] split: if_splits\<close>)
  qed
qed

lemma write_section:
  assumes ok: "pipe_ok s pa" and out: "outside_ring (pipes s pa) (buf + written) (cnt - written)"
    and w: "written \<le> cnt" and r: "readers (pipes s pa) \<noteq> 0"
    and sec: "locked_section (\<lambda>m p. pipe_write_loop m p buf cnt written) s pa = Some (s', e)"
  obtains k where "k = min (cnt - written) (PIPE_SIZE - length (queued s pa))"
    and "e = (if written + k = cnt then Returns (int cnt) else Waits (written + k))"
    and "pipe_ok s' pa" and "pipe_frame s s' pa"
    and "queued s' pa = queued s pa @ read_bytes (pmem s) (buf + written) k"
    and "\<forall>q n. outside_ring (pipes s pa) q n \<longrightarrow> read_bytes (pmem s') q n = read_bytes (pmem s) q n"
proof -
  let ?p = "(pipes s pa)\<lparr>plock := True\<rparr>"
  let ?k = "min (cnt - written) (PIPE_SIZE - pcount (pipes s pa))"
  have wf: "pipe_wf ?p" and free: "\<not> plock (pipes s pa)" and le: "pcount (pipes s pa) \<le> PIPE_SIZE"
    using ok by (simp_all add: pipe_ok_def pipe_wf_def)
  obtain m' p' where put: "ring_put (pmem s) ?p (buf + written) ?k = (m', p')"
    by fastforce
  have out': "outside_ring ?p (buf + written) ?k"
    using out by (auto simp: disjoint_ranges_def)
  have k: "pcount ?p + ?k \<le> PIPE_SIZE"
    using le by (auto simp: min_def)
  note spec = ring_put_spec [OF wf k out' put]
  have law: "\<forall>q n. outside_ring ?p q n \<longrightarrow> read_bytes m' q n = read_bytes (pmem s) q n"
    using ring.put_law [OF wf _ out' put] k by simp
  have s': "s' = s\<lparr>pheap := (pheap s)\<lparr>kbytes := m'\<rparr>, pipes := (pipes s)(pa := pipe_unlock p')\<rparr>"
    and e: "e = (if written + ?k = cnt then Returns (int cnt) else Waits (written + ?k))"
    using sec r put pipe_write_loop_eq [OF wf _ w, of "pmem s" buf]
    by (auto simp: locked_section_free [OF free] split: if_splits)
  show ?thesis
    by (rule that [OF _ e])
      (use spec law in \<open>simp_all add: s' pipe_ok_def pipe_frame_def pipe_unlock_def\<close>)
qed

text \<open>With a reader present the section always ends.\<close>

lemma write_section_returns:
  "pipe_ok s pa \<Longrightarrow> readers (pipes s pa) > 0 \<Longrightarrow> written \<le> cnt \<Longrightarrow>
     locked_section (\<lambda>m p. pipe_write_loop m p buf cnt written) s pa \<noteq> None"
  using pipe_write_loop_eq [of "(pipes s pa)\<lparr>plock := True\<rparr>" written cnt "pmem s" buf]
  by (auto simp: pipe_ok_def locked_section_free split: prod.splits)

section \<open>Threads\<close>

text \<open>
  A thread is where it stands in its call: about to enter, waiting for the other side with the lock
  dropped, or finished with a result.
\<close>

datatype thread =
    Read_call addr addr nat
  | Read_wait addr addr nat
  | Write_call addr addr nat
  | Write_wait addr addr nat nat
  | Close_read addr
  | Close_write addr
  | Finished int

definition read_continue :: "addr \<Rightarrow> addr \<Rightarrow> nat \<Rightarrow> pipe_sys \<times> section_end \<Rightarrow> (pipe_sys \<times> thread) option" where
  "read_continue pa buf cnt = (\<lambda>(s, e). case e of
     Returns r \<Rightarrow> Some (s, Finished r) | Waits _ \<Rightarrow> Some (s, Read_wait pa buf cnt) | Spins \<Rightarrow> None)"

definition write_continue :: "addr \<Rightarrow> addr \<Rightarrow> nat \<Rightarrow> pipe_sys \<times> section_end \<Rightarrow> (pipe_sys \<times> thread) option" where
  "write_continue pa buf cnt = (\<lambda>(s, e). case e of
     Returns r \<Rightarrow> Some (s, Finished r) | Waits w \<Rightarrow> Some (s, Write_wait pa buf cnt w) | Spins \<Rightarrow> None)"

fun thread_step :: "pipe_sys \<Rightarrow> thread \<Rightarrow> (pipe_sys \<times> thread) option" where
  "thread_step s (Read_call f buf cnt) =
     (case private_data (pfiles s f) of
        None \<Rightarrow> Some (s, Finished (- EIO))
      | Some pa \<Rightarrow> locked_section (\<lambda>m p. pipe_read_enter m p buf cnt) s pa \<bind> read_continue pa buf cnt)"
| "thread_step s (Read_wait pa buf cnt) =
     locked_section (\<lambda>m p. pipe_read_resume m p buf cnt) s pa \<bind> read_continue pa buf cnt"
| "thread_step s (Write_call f buf cnt) =
     (case private_data (pfiles s f) of
        None \<Rightarrow> Some (s, Finished (- EIO))
      | Some pa \<Rightarrow> locked_section (\<lambda>m p. pipe_write_enter m p buf cnt) s pa \<bind> write_continue pa buf cnt)"
| "thread_step s (Write_wait pa buf cnt written) =
     locked_section (\<lambda>m p. pipe_write_loop m p buf cnt written) s pa \<bind> write_continue pa buf cnt"
| "thread_step s (Close_read f) = pipe_release_read s f \<bind> (\<lambda>(s', r). Some (s', Finished r))"
| "thread_step s (Close_write f) = pipe_release_write s f \<bind> (\<lambda>(s', r). Some (s', Finished r))"
| "thread_step s (Finished r) = None"

text \<open>The bytes a step takes from its caller's buffer into the pipe, and those it delivers.\<close>

fun step_sent :: "pipe_sys \<Rightarrow> thread \<Rightarrow> thread \<Rightarrow> byte list" where
  "step_sent s (Write_call f buf cnt) (Finished r) = read_bytes (pmem s) buf (nat r)"
| "step_sent s (Write_call f buf cnt) (Write_wait pa _ _ w) = read_bytes (pmem s) buf w"
| "step_sent s (Write_wait pa buf cnt w) (Finished r) = read_bytes (pmem s) (buf + w) (nat r - w)"
| "step_sent s (Write_wait pa buf cnt w) (Write_wait _ _ _ w') = read_bytes (pmem s) (buf + w) (w' - w)"
| "step_sent s _ _ = []"

fun step_received :: "pipe_sys \<Rightarrow> thread \<Rightarrow> thread \<Rightarrow> byte list" where
  "step_received s' (Read_call f buf cnt) (Finished r) = read_bytes (pmem s') buf (nat r)"
| "step_received s' (Read_wait pa buf cnt) (Finished r) = read_bytes (pmem s') buf (nat r)"
| "step_received s' _ _ = []"

text \<open>Runs of several threads, with all bytes sent and received so far.\<close>

inductive pipe_run :: "pipe_sys \<times> thread list \<Rightarrow> byte list \<Rightarrow> byte list \<Rightarrow> pipe_sys \<times> thread list \<Rightarrow> bool"
  for c where
  start: "pipe_run c [] [] c"
| step: "pipe_run c sent received (s, ts) \<Longrightarrow> i < length ts \<Longrightarrow> thread_step s (ts ! i) = Some (s', t') \<Longrightarrow>
    pipe_run c (sent @ step_sent s (ts ! i) t') (received @ step_received s' (ts ! i) t') (s', ts[i := t'])"

fun thread_ok :: "pipe_sys \<Rightarrow> addr \<Rightarrow> thread \<Rightarrow> bool" where
  "thread_ok s pa (Read_call f buf cnt) \<longleftrightarrow>
     private_data (pfiles s f) = Some pa \<and> outside_ring (pipes s pa) buf cnt"
| "thread_ok s pa (Read_wait q buf cnt) \<longleftrightarrow> q = pa \<and> outside_ring (pipes s pa) buf cnt"
| "thread_ok s pa (Write_call f buf cnt) \<longleftrightarrow>
     private_data (pfiles s f) = Some pa \<and> outside_ring (pipes s pa) buf cnt"
| "thread_ok s pa (Write_wait q buf cnt w) \<longleftrightarrow> q = pa \<and> w \<le> cnt \<and> outside_ring (pipes s pa) buf cnt"
| "thread_ok s pa (Close_read f) \<longleftrightarrow> private_data (pfiles s f) = Some pa"
| "thread_ok s pa (Close_write f) \<longleftrightarrow> private_data (pfiles s f) = Some pa"
| "thread_ok s pa (Finished r) \<longleftrightarrow> True"

lemma thread_ok_cong:
  "pfiles s' = pfiles s \<Longrightarrow> pbuffer (pipes s' pa) = pbuffer (pipes s pa) \<Longrightarrow> thread_ok s' pa t = thread_ok s pa t"
  by (cases t) auto

text \<open>What one step keeps and moves.\<close>

definition step_fine :: "pipe_sys \<Rightarrow> addr \<Rightarrow> thread \<Rightarrow> pipe_sys \<Rightarrow> thread \<Rightarrow> bool" where
  "step_fine s pa t s' t' \<longleftrightarrow>
     pipe_ok s' pa \<and> pbuffer (pipes s' pa) = pbuffer (pipes s pa) \<and> pfiles s' = pfiles s \<and>
     thread_ok s' pa t' \<and>
     queued s pa @ step_sent s t t' = step_received s' t t' @ queued s' pa"

lemma read_step_fine:
  assumes ok: "pipe_ok s pa" and out: "outside_ring (pipes s pa) buf cnt"
    and step: "locked_section (\<lambda>m p. pipe_read_resume m p buf cnt) s pa \<bind> read_continue pa buf cnt = Some (s', t')"
    and t: "t = Read_wait pa buf cnt \<or> t = Read_call f buf cnt"
  shows "step_fine s pa t s' t'"
  using ok out
proof (cases rule: read_section)
  case wait
  with step t ok out show ?thesis
    by (auto simp: read_continue_def step_fine_def)
next
  case (got s'' k)
  have st: "s'' = s'" "t' = Finished (int k)"
    using step unfolding got(1) by (simp_all add: read_continue_def)
  have "step_sent s t t' = []" and "step_received s' t t' = read_bytes (pmem s') buf k"
    using t by (auto simp: st)
  then have "queued s pa @ step_sent s t t' = step_received s' t t' @ queued s' pa"
    using got(7) unfolding st by (metis append_Nil2)
  with got(4,5) show ?thesis
    unfolding step_fine_def pipe_frame_def st by simp
qed

lemma write_step_fine:
  assumes ok: "pipe_ok s pa" and out: "outside_ring (pipes s pa) buf cnt" and w: "w \<le> cnt"
    and r: "readers (pipes s pa) \<noteq> 0"
    and step: "locked_section (\<lambda>m p. pipe_write_loop m p buf cnt w) s pa \<bind> write_continue pa buf cnt = Some (s', t')"
    and t: "t = Write_wait pa buf cnt w \<or> t = Write_call f buf cnt \<and> w = 0"
  shows "step_fine s pa t s' t'"
proof -
  from step obtain e where sec: "locked_section (\<lambda>m p. pipe_write_loop m p buf cnt w) s pa = Some (s', e)"
    and cont: "write_continue pa buf cnt (s', e) = Some (s', t')"
    unfolding bind_eq_Some_conv write_continue_def by (fastforce split: section_end.splits prod.splits)
  have out': "outside_ring (pipes s pa) (buf + w) (cnt - w)"
    using out w by (auto simp: disjoint_ranges_def)
  from write_section [OF ok out' w r sec] obtain k where
      k: "k = min (cnt - w) (PIPE_SIZE - length (queued s pa))"
        "e = (if w + k = cnt then Returns (int cnt) else Waits (w + k))"
    and st: "pipe_ok s' pa" "pipe_frame s s' pa"
        "queued s' pa = queued s pa @ read_bytes (pmem s) (buf + w) k" .
  have "w + k \<le> cnt" and "w + k = cnt \<Longrightarrow> k = cnt - w"
    using w k(1) by auto
  with cont k(2) st t out show ?thesis
    by (auto simp: write_continue_def step_fine_def pipe_frame_def split: if_splits)
qed

lemma kfree_bytes: "kfree s p = Some s' \<Longrightarrow> kbytes s' = kbytes s"
  by (auto simp: kfree_def lock_heap_def unlock_heap_def Let_def split: option.splits if_splits)

lemma pipe_put_fine:
  assumes "pipe_put s pa p = Some s'" and "pipe_wf p"
  shows "pipe_ok s' pa" and "pipes s' = (pipes s)(pa := pipe_unlock p)" and "pfiles s' = pfiles s"
    and "pmem s' = pmem s"
  using assms
  by (auto simp: pipe_put_def Let_def pipe_ok_def pipe_unlock_def bind_eq_Some_conv dest!: kfree_bytes
      split: if_splits)

lemma no_reader_section:
  assumes "pipe_ok s pa" and "readers (pipes s pa) = 0" and "w < cnt"
  shows "locked_section (\<lambda>m p. pipe_write_loop m p buf cnt w) s pa =
    Some (s, Returns (if w > 0 then int w else - EPIPE))"
  using assms
  by (simp add: pipe_ok_def locked_section_free pipe_write_loop.simps pipe_unlock_def pipe_sys_unchanged)

lemma enter_section:
  assumes "pipe_ok s pa"
  shows "locked_section (\<lambda>m p. pipe_write_enter m p buf cnt) s pa =
      (if readers (pipes s pa) = 0 then Some (s, Returns (- EPIPE))
       else locked_section (\<lambda>m p. pipe_write_loop m p buf cnt 0) s pa)"
    and "locked_section (\<lambda>m p. pipe_read_enter m p buf cnt) s pa =
      locked_section (\<lambda>m p. pipe_read_resume m p buf cnt) s pa"
  using assms
  by (simp_all add: pipe_ok_def locked_section_free pipe_write_enter_def pipe_read_enter_eq pipe_unlock_def
      pipe_sys_unchanged)

lemma release_step_fine:
  assumes "pipe_ok s pa" and "thread_ok s pa t" and "thread_step s t = Some (s', t')"
    and "t = Close_read f \<or> t = Close_write f"
  shows "step_fine s pa t s' t'"
proof -
  have wf: "pipe_wf (pipes s pa)" "\<not> plock (pipes s pa)"
    using assms(1) by (simp_all add: pipe_ok_def)
  obtain p where put: "pipe_put s pa p = Some s'" and t': "t' = Finished 0"
    and p: "pipe_wf p" "pbuffer p = pbuffer (pipes s pa)" "contents (pmem s) p = queued s pa"
    using assms(2-4) wf
    by (auto simp: pipe_release_read_def pipe_release_write_def pipe_lock_def bind_eq_Some_conv
        pipe_wf_def contents_def)
  note fine = pipe_put_fine [OF put p(1)]
  with p t' assms(4) show ?thesis
    by (auto simp: step_fine_def pipe_unlock_def)
qed

lemma thread_step_fine:
  assumes ok: "pipe_ok s pa" and t: "thread_ok s pa t" and step: "thread_step s t = Some (s', t')"
  shows "step_fine s pa t s' t'"
proof (cases t)
  case (Read_call f buf cnt)
  with t step show ?thesis
    by (intro read_step_fine [OF ok, of buf cnt _ _ _ f]) (simp_all add: enter_section [OF ok])
next
  case (Read_wait q buf cnt)
  with t step show ?thesis
    by (intro read_step_fine [OF ok, of buf cnt]) simp_all
next
  case (Write_call f buf cnt)
  show ?thesis
  proof (cases "readers (pipes s pa) = 0")
    case True
    with Write_call t step ok show ?thesis
      by (auto simp: enter_section [OF ok] write_continue_def step_fine_def)
  next
    case False
    with Write_call t step show ?thesis
      by (intro write_step_fine [OF ok, of buf cnt 0 _ _ _ f]) (simp_all add: enter_section [OF ok])
  qed
next
  case (Write_wait q buf cnt w)
  show ?thesis
  proof (cases "readers (pipes s pa) = 0 \<and> w < cnt")
    case True
    with Write_wait t step ok show ?thesis
      by (auto simp: no_reader_section [OF ok] write_continue_def step_fine_def)
  next
    case False
    show ?thesis
    proof (cases "readers (pipes s pa) = 0")
      case True
      with False Write_wait t have "w = cnt" by simp
      with True Write_wait t step ok show ?thesis
        by (auto simp: pipe_ok_def locked_section_free pipe_write_loop.simps pipe_unlock_def
            pipe_sys_unchanged write_continue_def step_fine_def)
    next
      case False
      with Write_wait t step show ?thesis
        by (intro write_step_fine [OF ok, of buf cnt w]) simp_all
    qed
  qed
qed (use assms in \<open>auto intro: release_step_fine\<close>)

section \<open>Properties of pipes\<close>

text \<open>C6. However the calls of any number of reading, writing and closing threads on a pipe are
  interleaved, the pipe is a first-in first-out stream: the bytes sent, after those queued at the
  start, are the bytes received so far followed by the bytes still queued, and the pipe stays
  well-formed with its lock free.\<close>

theorem pipe_stream:
  assumes "pipe_ok s pa" and "\<forall>t \<in> set ts. thread_ok s pa t"
    and "pipe_run (s, ts) sent received (s', ts')"
  shows "queued s pa @ sent = received @ queued s' pa \<and> pipe_ok s' pa"
proof -
  have "queued s pa @ sent = received @ queued s' pa \<and> pipe_ok s' pa \<and> (\<forall>t \<in> set ts'. thread_ok s' pa t)"
    using assms(3)
  proof (induction "(s', ts')" arbitrary: s' ts' rule: pipe_run.induct)
    case start
    with assms(1,2) show ?case by simp
  next
    case (step sent received s1 ts1 i s' t')
    then have "thread_ok s1 pa (ts1 ! i)" by simp
    then have fine: "step_fine s1 pa (ts1 ! i) s' t'"
      using step by (intro thread_step_fine) auto
    then have "\<forall>t \<in> set ts1. thread_ok s' pa t"
      using step.hyps(2) thread_ok_cong [of s' s1 pa] unfolding step_fine_def by blast
    then have "\<forall>t \<in> set (ts1[i := t']). thread_ok s' pa t"
      using fine set_update_subset_insert [of ts1 i t'] unfolding step_fine_def by blast
    moreover have "queued s pa @ sent @ step_sent s1 (ts1 ! i) t' =
        (received @ step_received s' (ts1 ! i) t') @ queued s' pa"
      using fine step.hyps(2) unfolding step_fine_def by (metis append.assoc)
    ultimately show ?case
      using fine unfolding step_fine_def by simp
  qed
  then show ?thesis by blast
qed

lemma pipe_read_alone:
  assumes ok: "pipe_ok s pa" and f: "private_data (pfiles s f) = Some pa"
    and out: "outside_ring (pipes s pa) buf cnt"
  shows "if queued s pa = [] \<and> writers (pipes s pa) > 0 then pipe_read s f buf cnt = None
    else \<exists>s'. pipe_read s f buf cnt = Some (s', int (min cnt (length (queued s pa)))) \<and>
      queued s pa = read_bytes (pmem s') buf (min cnt (length (queued s pa))) @ queued s' pa"
  using ok out
proof (cases rule: read_section)
  case wait
  with f show ?thesis by (simp add: pipe_read_def enter_section(2) [OF ok])
next
  case (got s' k)
  have "pipe_read s f buf cnt = Some (s', int k)"
    using f got(1) by (simp add: pipe_read_def enter_section(2) [OF ok])
  moreover have "\<not> (queued s pa = [] \<and> writers (pipes s pa) > 0)"
    using got(3) by linarith
  ultimately show ?thesis
    using got(7) unfolding got(2) by (metis (no_types))
qed

lemma pipe_write_alone:
  assumes ok: "pipe_ok s pa" and f: "private_data (pfiles s f) = Some pa"
    and out: "outside_ring (pipes s pa) buf cnt"
  shows "readers (pipes s pa) = 0 \<Longrightarrow> pipe_write s f buf cnt = Some (s, - EPIPE)"
    and "readers (pipes s pa) > 0 \<Longrightarrow>
      if length (queued s pa) + cnt \<le> PIPE_SIZE
      then \<exists>s'. pipe_write s f buf cnt = Some (s', int cnt) \<and>
        queued s' pa = queued s pa @ read_bytes (pmem s) buf cnt
      else pipe_write s f buf cnt = None"
proof -
  show "readers (pipes s pa) = 0 \<Longrightarrow> pipe_write s f buf cnt = Some (s, - EPIPE)"
    using f by (simp add: pipe_write_def enter_section(1) [OF ok])
  assume r: "readers (pipes s pa) > 0"
  then obtain s' e where sec: "locked_section (\<lambda>m p. pipe_write_loop m p buf cnt 0) s pa = Some (s', e)"
    using write_section_returns [OF ok, of 0 cnt buf] by auto
  have out0: "outside_ring (pipes s pa) (buf + 0) (cnt - 0)" and r0: "readers (pipes s pa) \<noteq> 0"
      and le0: "0 \<le> cnt"
    using out r by simp_all
  have le: "length (queued s pa) \<le> PIPE_SIZE"
    using ok by (simp add: pipe_ok_def pipe_wf_def)
  from write_section [OF ok out0 le0 r0 sec] obtain k where
      k0: "k = min (cnt - 0) (PIPE_SIZE - length (queued s pa))"
        "e = (if 0 + k = cnt then Returns (int cnt) else Waits (0 + k))"
        "queued s' pa = queued s pa @ read_bytes (pmem s) (buf + 0) k" .
  note k = k0 [unfolded add_0 diff_zero add_0_right]
  have "k = cnt \<longleftrightarrow> length (queued s pa) + cnt \<le> PIPE_SIZE"
    using le k(1) by auto
  moreover have "pipe_write s f buf cnt = (if k = cnt then Some (s', int cnt) else None)"
    using f r sec k(2) by (simp add: pipe_write_def enter_section(1) [OF ok])
  ultimately show "if length (queued s pa) + cnt \<le> PIPE_SIZE
      then \<exists>s'. pipe_write s f buf cnt = Some (s', int cnt) \<and>
        queued s' pa = queued s pa @ read_bytes (pmem s) buf cnt
      else pipe_write s f buf cnt = None"
    using k(3) by (metis (no_types))
qed

text \<open>What a call of a single thread does on every branch. A write without readers fails with
  \<open>-EPIPE\<close>; one that fits appends all its bytes; one that does not fit never returns, as nobody makes
  room. A read from an empty pipe never returns while there is a writer; otherwise it delivers the
  oldest bytes, none at the end of the stream.\<close>

theorem pipe_calls:
  assumes "pipe_ok s pa" and "private_data (pfiles s f) = Some pa"
    and "outside_ring (pipes s pa) buf cnt" and "readers (pipes s pa) \<ge> 0"
  shows "(if readers (pipes s pa) = 0 then pipe_write s f buf cnt = Some (s, - EPIPE)
      else if length (queued s pa) + cnt \<le> PIPE_SIZE
      then \<exists>s'. pipe_write s f buf cnt = Some (s', int cnt) \<and>
        queued s' pa = queued s pa @ read_bytes (pmem s) buf cnt
      else pipe_write s f buf cnt = None) \<and>
    (if queued s pa = [] \<and> writers (pipes s pa) > 0 then pipe_read s f buf cnt = None
     else \<exists>s'. pipe_read s f buf cnt = Some (s', int (min cnt (length (queued s pa)))) \<and>
      queued s pa = read_bytes (pmem s') buf (min cnt (length (queued s pa))) @ queued s' pa)"
proof (rule conjI [OF _ pipe_read_alone [OF assms(1-3)]])
  show "if readers (pipes s pa) = 0 then pipe_write s f buf cnt = Some (s, - EPIPE)
      else if length (queued s pa) + cnt \<le> PIPE_SIZE
      then \<exists>s'. pipe_write s f buf cnt = Some (s', int cnt) \<and>
        queued s' pa = queued s pa @ read_bytes (pmem s) buf cnt
      else pipe_write s f buf cnt = None"
    using pipe_write_alone [OF assms(1-3)] assms(4) by (cases "readers (pipes s pa) = 0") simp_all
qed

text \<open>The second half of \<open>do_pipe\<close>, from the point where pipe and buffer are allocated.\<close>

lemma release_two:
  assumes "heap_inv h" and "live h = insert (p, n) (insert (b, k) L)"
    and "(p, n) \<notin> L" and "(b, k) \<notin> L" and "(p, n) \<noteq> (b, k)"
  obtains h1 h2 where "kfree h (Some b) = Some h1" and "kfree h1 (Some p) = Some h2" and "heap_inv h2"
    and "live h2 = L"
proof -
  from kernel_heap.release_ok [OF assms(1), of b k] assms(2) obtain h1 where
      h1: "kfree h (Some b) = Some h1" "heap_inv h1" "live h1 = live h - {(b, k)}" by auto
  from h1 assms(2,5) have "(p, n) \<in> live h1" by auto
  from kernel_heap.release_ok [OF h1(2) this] obtain h2 where
      h2: "kfree h1 (Some p) = Some h2" "heap_inv h2" "live h2 = live h1 - {(p, n)}" by auto
  show ?thesis
    by (rule that [OF h1(1) h2(1,2)]) (use h1(3) h2(3) assms(2-5) in auto)
qed

lemma two_files:
  assumes inv: "heap_inv h"
  obtains (both) h1 h2 rf wf k l where "kzalloc h sizeof_file GFP_KERNEL = Some (h1, Some rf)"
      and "kzalloc h1 sizeof_file GFP_KERNEL = Some (h2, Some wf)" and "heap_inv h2"
      and "live h2 = insert (wf, l) (insert (rf, k) (live h))" and "(rf, k) \<notin> live h"
      and "(wf, l) \<notin> insert (rf, k) (live h)"
  | (short) h1 h2 rf wf h3 h4 where "kzalloc h sizeof_file GFP_KERNEL = Some (h1, rf)"
      and "kzalloc h1 sizeof_file GFP_KERNEL = Some (h2, wf)" and "rf = None \<or> wf = None"
      and "kfree h2 rf = Some h3" and "kfree h3 wf = Some h4" and "heap_inv h4" and "live h4 = live h"
  using inv
proof (cases rule: kernel_heap.alloc_returns [where n = sizeof_file and flags = "GFP_KERNEL OR GFP_ZERO"])
  case failed
  from inv show ?thesis
  proof (cases rule: kernel_heap.alloc_returns [where n = sizeof_file and flags = "GFP_KERNEL OR GFP_ZERO"])
    case failed
    with inv show ?thesis by (intro short [of h None h None h h]) (simp_all add: kzalloc_def kfree_def)
  next
    case (granted h2 wf l)
    note g = this
    with kernel_heap.alloc_release [OF inv granted(1)] obtain h4 where
      "kfree h2 (Some wf) = Some h4" "heap_inv h4" "live h4 = live h" by blast
    with g failed show ?thesis
      by (intro short [of h None h2 "Some wf" h2 h4]) (simp_all add: kzalloc_def kernel_heap.release_null)
  qed
next
  case (granted h1 rf k)
  note g = this
  from g(2) show ?thesis
  proof (cases rule: kernel_heap.alloc_returns [where n = sizeof_file and flags = "GFP_KERNEL OR GFP_ZERO"])
    case failed
    with kernel_heap.alloc_release [OF inv g(1)] obtain h3 where
      "kfree h1 (Some rf) = Some h3" "heap_inv h3" "live h3 = live h" by blast
    with g failed show ?thesis
      by (intro short [of h1 "Some rf" h1 None h3 h3]) (simp_all add: kzalloc_def kernel_heap.release_null)
  next
    case (granted h2 wf l)
    with g show ?thesis
      by (intro both [of h1 rf h2 wf l k]) (simp_all add: kzalloc_def)
  qed
qed

text \<open>What \<open>do_pipe\<close> promises: two files on a fresh empty pipe, or \<open>-ENOMEM\<close> and no block kept.\<close>

definition pipe_made :: "pipe_sys \<Rightarrow> pipe_sys \<Rightarrow> addr \<Rightarrow> addr \<Rightarrow> bool" where
  "pipe_made s s' rfile wfile \<longleftrightarrow>
     (\<exists>pa n b k i j. live (pheap s') = {(pa, n), (b, k), (rfile, i), (wfile, j)} \<union> live (pheap s) \<and>
        distinct [(pa, n), (b, k), (rfile, i), (wfile, j)] \<and>
        {(pa, n), (b, k), (rfile, i), (wfile, j)} \<inter> live (pheap s) = {} \<and> rfile \<noteq> wfile \<and> PIPE_SIZE \<le> k \<and>
        pipes s' pa = new_pipe b \<and>
        private_data (pfiles s' rfile) = Some pa \<and> f_op (pfiles s' rfile) = Pipe_read_ops \<and>
        private_data (pfiles s' wfile) = Some pa \<and> f_op (pfiles s' wfile) = Pipe_write_ops)"

lemma do_pipe_files:
  assumes p: "kzalloc (pheap s) sizeof_pipe GFP_KERNEL = Some (h1, Some p)"
    and L1: "live h1 = insert (p, n) (live (pheap s))" "(p, n) \<notin> live (pheap s)"
    and b: "kmalloc h1 PIPE_SIZE GFP_KERNEL = Some (h2, Some b)"
    and inv2: "heap_inv h2" and L2: "live h2 = insert (b, k) (live h1)" "(b, k) \<notin> live h1" "PIPE_SIZE \<le> k"
  shows "\<exists>s' e r. do_pipe s = Some (s', e, r) \<and> heap_inv (pheap s') \<and>
    (case r of None \<Rightarrow> e = - ENOMEM \<and> live (pheap s') = live (pheap s) \<and> pfiles s' = pfiles s
     | Some (rfile, wfile) \<Rightarrow> e = 0 \<and> pipe_made s s' rfile wfile)"
  using inv2
proof (cases rule: two_files)
  case (both h3 h4 rfile wfile i j)
  have ne: "rfile \<noteq> wfile"
    using live_functional [OF both(3)] both(4,6) by (metis insertCI)
  let ?s = "s\<lparr>pheap := h4, pipes := (pipes s)(p := new_pipe b),
      pfiles := (pfiles s)(
        rfile := \<lparr>f_op = Pipe_read_ops, f_flags = O_RDONLY, f_count = 1, private_data = Some p\<rparr>,
        wfile := \<lparr>f_op = Pipe_write_ops, f_flags = O_WRONLY, f_count = 1, private_data = Some p\<rparr>)\<rparr>"
  have "do_pipe s = Some (?s, 0, Some (rfile, wfile))"
    using p b both(1,2) by (simp add: do_pipe_def)
  moreover have "pipe_made s ?s rfile wfile"
    unfolding pipe_made_def
    by (rule exI [of _ p], rule exI [of _ n], rule exI [of _ b], rule exI [of _ k], rule exI [of _ i],
        rule exI [of _ j]) (use ne both(4-6) L1 L2 in auto)
  ultimately show ?thesis
    using both(3) by auto
next
  case (short h3 h4 rfile wfile h5 h6)
  have "live h6 = insert (p, n) (insert (b, k) (live (pheap s)))"
    using short(7) L1 L2 by auto
  from release_two [OF short(6) this] L1(2) L2(1,2) L1(1) obtain h7 h8 where
      rel: "kfree h6 (Some b) = Some h7" "kfree h7 (Some p) = Some h8" "heap_inv h8" "live h8 = live (pheap s)"
    by auto
  have "do_pipe s = Some (s\<lparr>pheap := h8, pipes := (pipes s)(p := new_pipe b)\<rparr>, - ENOMEM, None)"
    using p b short(1-5) rel(1,2) by (auto simp: do_pipe_def)
  with rel(3,4) show ?thesis by simp
qed

text \<open>\<open>do_pipe\<close> returns on every well-formed heap. It either makes two files on one new, empty
  pipe with its own 4096-byte buffer, all in fresh blocks, or fails with \<open>-ENOMEM\<close> having released
  every block it took, whichever allocation failed.\<close>

theorem do_pipe_no_leak:
  assumes inv: "heap_inv (pheap s)"
  shows "\<exists>s' e r. do_pipe s = Some (s', e, r) \<and> heap_inv (pheap s') \<and>
    (case r of None \<Rightarrow> e = - ENOMEM \<and> live (pheap s') = live (pheap s) \<and> pfiles s' = pfiles s
     | Some (rfile, wfile) \<Rightarrow> e = 0 \<and> pipe_made s s' rfile wfile)"
  using inv
proof (cases rule: kernel_heap.alloc_returns [where n = sizeof_pipe and flags = "GFP_KERNEL OR GFP_ZERO"])
  case failed
  with inv show ?thesis by (simp add: do_pipe_def kzalloc_def)
next
  case (granted h1 p n)
  note g = this
  have p: "kzalloc (pheap s) sizeof_pipe GFP_KERNEL = Some (h1, Some p)"
    using g(1) by (simp add: kzalloc_def)
  from g(2) show ?thesis
  proof (cases rule: kernel_heap.alloc_returns [where n = PIPE_SIZE and flags = GFP_KERNEL])
    case failed
    with kernel_heap.alloc_release [OF inv g(1)] obtain h2 where
      "kfree h1 (Some p) = Some h2" "heap_inv h2" "live h2 = live (pheap s)" by blast
    with p failed show ?thesis by (simp add: do_pipe_def)
  next
    case (granted h2 b k)
    then show ?thesis by (intro do_pipe_files [OF p g(4,5)])
  qed
qed

text \<open>Closing both ends of a pipe, in either order, frees its buffer and the pipe itself and
  nothing else; after the first close the pipe is still there.\<close>

theorem pipe_close_frees:
  assumes "heap_inv (pheap s)" and "pipe_ok s pa" and "readers (pipes s pa) = 1" and "writers (pipes s pa) = 1"
    and "private_data (pfiles s rfile) = Some pa" and "private_data (pfiles s wfile) = Some pa"
    and "pbuffer (pipes s pa) = Some b" and "(pa, n) \<in> live (pheap s)" and "(b, k) \<in> live (pheap s)"
    and "(pa, n) \<noteq> (b, k)"
  shows "(\<exists>s1 s2. pipe_release_read s rfile = Some (s1, 0) \<and> live (pheap s1) = live (pheap s) \<and>
      pipe_release_write s1 wfile = Some (s2, 0) \<and> heap_inv (pheap s2) \<and>
      live (pheap s2) = live (pheap s) - {(pa, n), (b, k)}) \<and>
    (\<exists>s1 s2. pipe_release_write s wfile = Some (s1, 0) \<and> live (pheap s1) = live (pheap s) \<and>
      pipe_release_read s1 rfile = Some (s2, 0) \<and> heap_inv (pheap s2) \<and>
      live (pheap s2) = live (pheap s) - {(pa, n), (b, k)})"
proof -
  have "live (pheap s) = insert (pa, n) (insert (b, k) (live (pheap s) - {(pa, n), (b, k)}))"
    using assms(8,9) by auto
  from release_two [OF assms(1) this _ _ assms(10)] obtain h1 h2 where
      "kfree (pheap s) (Some b) = Some h1" "kfree h1 (Some pa) = Some h2" "heap_inv h2"
      "live h2 = live (pheap s) - {(pa, n), (b, k)}"
    by auto
  moreover have "\<not> plock (pipes s pa)"
    using assms(2) by (simp add: pipe_ok_def)
  ultimately show ?thesis
    using assms(3-7)
    by (simp add: pipe_release_read_def pipe_release_write_def pipe_put_def Let_def pipe_lock_def pipe_unlock_def)
qed

section \<open>Witnesses\<close>

text \<open>A pipe at 1000 with its buffer at 5000 and two files on it; the caller's buffers are at 100 and 200.\<close>

definition sample_pipes :: pipe_sys where
  "sample_pipes = \<lparr>pheap = boot_heap, pipes = (\<lambda>_. new_pipe 5000),
     pfiles = (\<lambda>_. \<lparr>f_op = Pipe_read_ops, f_flags = 0, f_count = 1, private_data = Some 1000\<rparr>)\<rparr>"

lemma sample_pipes_ok: "pipe_ok sample_pipes 1000"
  by (simp add: sample_pipes_def pipe_ok_def new_pipe_def pipe_wf_def)

lemma sample_pipes_queued: "queued sample_pipes 1000 = []"
  by (simp add: sample_pipes_def new_pipe_def contents_def)

lemma sample_pipes_users: "readers (pipes sample_pipes 1000) = 1" "writers (pipes sample_pipes 1000) = 1"
  by (simp_all add: sample_pipes_def new_pipe_def)

lemma pipe_calls_witness:
  "pipe_ok sample_pipes 1000 \<and>
   (\<exists>s'. pipe_write sample_pipes 10 100 3 = Some (s', 3) \<and>
      queued s' 1000 = read_bytes (pmem sample_pipes) 100 3) \<and> pipe_read sample_pipes 10 100 3 = None"
proof -
  have "private_data (pfiles sample_pipes 10) = Some 1000" and "outside_ring (pipes sample_pipes 1000) 100 3"
    by (simp_all add: sample_pipes_def new_pipe_def disjoint_ranges_def)
  with pipe_calls [OF sample_pipes_ok, of 10 100 3] sample_pipes_ok sample_pipes_queued show ?thesis
    by (simp add: PIPE_SIZE_def sample_pipes_users)
qed

lemma pipe_stream_witness:
  "\<exists>s' t' sent. pipe_run (sample_pipes, [Write_call 10 100 3, Read_call 11 200 5]) sent [] (s', [t', Read_call 11 200 5]) \<and>
     sent = queued s' 1000 \<and> pipe_ok s' 1000"
proof -
  let ?ts = "[Write_call 10 100 3, Read_call 11 200 5]"
  have ok: "\<forall>t \<in> set ?ts. thread_ok sample_pipes 1000 t"
    by (simp add: sample_pipes_def new_pipe_def disjoint_ranges_def)
  have "locked_section (\<lambda>m p. pipe_write_enter m p 100 3) sample_pipes 1000 \<noteq> None"
    using write_section_returns [OF sample_pipes_ok, of 0 3 100]
    by (simp add: enter_section [OF sample_pipes_ok] sample_pipes_users)
  then obtain s1 e where sec: "locked_section (\<lambda>m p. pipe_write_enter m p 100 3) sample_pipes 1000 = Some (s1, e)"
    by auto
  then have "e \<noteq> Spins"
    by (rule locked_section_not_Spins)
  moreover have "private_data (pfiles sample_pipes 10) = Some 1000"
    by (simp add: sample_pipes_def)
  ultimately obtain s' t' where "thread_step sample_pipes (?ts ! 0) = Some (s', t')"
    using sec by (cases e) (auto simp: write_continue_def)
  from pipe_run.step [OF pipe_run.start _ this]
  have run: "pipe_run (sample_pipes, ?ts) (step_sent sample_pipes (?ts ! 0) t') [] (s', [t', Read_call 11 200 5])"
    by simp
  from pipe_stream [OF sample_pipes_ok ok run] run sample_pipes_queued show ?thesis
    by auto
qed

lemma do_pipe_no_leak_witness:
  "\<exists>s' e r. do_pipe sample_pipes = Some (s', e, r) \<and> heap_inv (pheap s')"
  using do_pipe_no_leak [of sample_pipes] boot_heap_inv by (auto simp: sample_pipes_def)

text \<open>A heap with a pipe's block, its buffer's block and a free block.\<close>

definition pipe_heap :: kheap where
  "pipe_heap = (raw_heap 0)\<lparr>heap_end := 4320, free_list := Some 4256, heap_total := 4320, kheap_used := 4256,
     heap_initialized := True,
     hdr := (\<lambda>a. if a = 0 then \<lparr>bsize = 96, bmagic = BLOCK_MAGIC_USED, bflags = 0, bnext = None, bprev = None\<rparr>
       else if a = 96 then \<lparr>bsize = 4160, bmagic = BLOCK_MAGIC_USED, bflags = 0, bnext = None, bprev = None\<rparr>
       else \<lparr>bsize = 64, bmagic = BLOCK_MAGIC_FREE, bflags = 1, bnext = None, bprev = None\<rparr>)\<rparr>"

lemma pipe_heap_wf: "heap_wf pipe_heap [0, 96, 4256] [4256]"
  by (simp add: pipe_heap_def raw_heap_def heap_wf_def free_structure_def used_size_def)

lemma pipe_heap_live: "live pipe_heap = {(40, 56), (136, 4120)}"
proof -
  have "set [0, 96, 4256 :: nat] - set [4256] = {0, 96}"
    by auto
  then show ?thesis
    unfolding live_eq [OF pipe_heap_wf] by (simp add: pipe_heap_def block_data_def)
qed

lemma pipe_close_frees_witness:
  "\<exists>s1 s2. pipe_release_read (sample_pipes\<lparr>pheap := pipe_heap, pipes := (\<lambda>_. new_pipe 136),
       pfiles := (\<lambda>_. \<lparr>f_op = Pipe_read_ops, f_flags = 0, f_count = 1, private_data = Some 40\<rparr>)\<rparr>) 10
       = Some (s1, 0) \<and> live (pheap s1) = {(40, 56), (136, 4120)} \<and>
     pipe_release_write s1 11 = Some (s2, 0) \<and> live (pheap s2) = {}"
proof -
  let ?s = "sample_pipes\<lparr>pheap := pipe_heap, pipes := (\<lambda>_. new_pipe 136),
       pfiles := (\<lambda>_. \<lparr>f_op = Pipe_read_ops, f_flags = 0, f_count = 1, private_data = Some 40\<rparr>)\<rparr>"
  have inv: "heap_inv (pheap ?s)"
    using pipe_heap_wf unfolding heap_inv_def by auto
  have live: "live (pheap ?s) = {(40, 56), (136, 4120)}"
    using pipe_heap_live by simp
  have ok: "pipe_ok ?s 40"
    by (simp add: pipe_ok_def pipe_wf_def new_pipe_def)
  have "(\<exists>s1 s2. pipe_release_read ?s 10 = Some (s1, 0) \<and> live (pheap s1) = live (pheap ?s) \<and>
      pipe_release_write s1 11 = Some (s2, 0) \<and> heap_inv (pheap s2) \<and>
      live (pheap s2) = live (pheap ?s) - {(40, 56), (136, 4120)})"
    using pipe_close_frees [OF inv ok, of 10 11 136 56 4120] unfolding live by (simp add: new_pipe_def)
  then show ?thesis
    unfolding live by auto
qed

end
