(* ===== verification/Pmm.thy ===== *)
theory Pmm
  imports Prelude
begin

text \<open>
  The physical page allocator, \<^verbatim>\<open>kernel/mm/pmm.c\<close>: a bitmap of the pages (the early mode) and the
  buddy lists that are to replace it. Physical addresses and sizes are natural numbers below
  \<open>2^64\<close>; the page counter is a 64-bit word. \<^const>\<open>None\<close> as the result of an operation is the
  access through a null page pointer that the buddy code makes when there is no page array.
\<close>

section \<open>State\<close>

abbreviation (input) "PAGE_SIZE \<equiv> (4096 :: nat)"
abbreviation (input) "PAGE_FLAG_FREE \<equiv> (0 :: u32)"
abbreviation (input) "PAGE_FLAG_USED \<equiv> (1 :: u32)"

definition MAX_ORDER :: nat where "MAX_ORDER = 11"
definition MEMORY_BASE :: nat where "MEMORY_BASE = 0x40000000"
definition MEMORY_SIZE :: nat where "MEMORY_SIZE = 1024 * 1024 * 1024"
definition PMM_MAX_MEMORY_SIZE :: nat where "PMM_MAX_MEMORY_SIZE = 4 * 1024 * 1024 * 1024"
definition EARLY_BITMAP_SIZE :: nat where "EARLY_BITMAP_SIZE = PMM_MAX_MEMORY_SIZE div PAGE_SIZE div 8"

record page =
  pg_flags :: u32
  pg_order :: nat
  pg_next :: "nat option"

text \<open>Page structures are named by their index in the page array.\<close>

record pmm =
  free_lists :: "nat \<Rightarrow> nat option"
  page_array :: "(nat \<Rightarrow> page) option"
  total_pages :: nat
  free_pages_count :: u64
  total_memory :: nat
  memory_start :: nat
  memory_end :: nat
  early_bitmap :: "nat \<Rightarrow> u8"
  early_mode :: bool
  configured_memory_base :: nat
  configured_memory_size :: nat

text \<open>The static initial values.\<close>

definition pmm_boot :: pmm where
  "pmm_boot = \<lparr>free_lists = (\<lambda>_. None), page_array = None, total_pages = 0, free_pages_count = 0,
     total_memory = 0, memory_start = 0, memory_end = 0, early_bitmap = (\<lambda>_. 0), early_mode = True,
     configured_memory_base = MEMORY_BASE, configured_memory_size = MEMORY_SIZE\<rparr>"

section \<open>Operations\<close>

definition order_to_pages :: "nat \<Rightarrow> nat" where
  "order_to_pages order = 2 ^ order"

definition order_to_size :: "nat \<Rightarrow> nat" where
  "order_to_size order = order_to_pages order * PAGE_SIZE"

function size_to_order_loop :: "nat \<Rightarrow> nat \<Rightarrow> nat" where
  "size_to_order_loop pages order =
     (if 2 ^ order < pages \<and> order < MAX_ORDER then size_to_order_loop pages (order + 1) else order)"
  by pat_completeness auto
termination by (relation "measure (\<lambda>(pages, order). MAX_ORDER - order)") auto

declare size_to_order_loop.simps [simp del]

definition size_to_order :: "nat \<Rightarrow> nat" where
  "size_to_order sz = size_to_order_loop ((sz + PAGE_SIZE - 1) div PAGE_SIZE) 0"

text \<open>\<^verbatim>\<open>PHYS_TO_PFN(addr - memory_start)\<close>, with the unsigned difference.\<close>

definition pfn_of :: "pmm \<Rightarrow> addr \<Rightarrow> nat" where
  "pfn_of s a = (a + 2 ^ 64 - memory_start s) mod 2 ^ 64 div PAGE_SIZE"

definition early_mark_used :: "pmm \<Rightarrow> addr \<Rightarrow> pmm" where
  "early_mark_used s a =
     (let pfn = pfn_of s a in
      if pfn < EARLY_BITMAP_SIZE * 8
      then s\<lparr>early_bitmap := (early_bitmap s)(pfn div 8 :=
               early_bitmap s (pfn div 8) OR push_bit (pfn mod 8) 1)\<rparr>
      else s)"

definition early_mark_free :: "pmm \<Rightarrow> addr \<Rightarrow> pmm" where
  "early_mark_free s a =
     (let pfn = pfn_of s a in
      if pfn < EARLY_BITMAP_SIZE * 8
      then s\<lparr>early_bitmap := (early_bitmap s)(pfn div 8 :=
               early_bitmap s (pfn div 8) AND NOT (push_bit (pfn mod 8) 1))\<rparr>
      else s)"

definition early_is_free :: "pmm \<Rightarrow> addr \<Rightarrow> bool" where
  "early_is_free s a =
     (let pfn = pfn_of s a in
      if pfn \<ge> EARLY_BITMAP_SIZE * 8 then False
      else early_bitmap s (pfn div 8) AND push_bit (pfn mod 8) 1 = 0)"

fun early_scan :: "(nat \<Rightarrow> u8) \<Rightarrow> nat list \<Rightarrow> (nat \<times> nat) option" where
  "early_scan bm [] = None"
| "early_scan bm (i # is) =
     (if bm i \<noteq> 0xFF
      then (case find (\<lambda>j. bm i AND push_bit j 1 = 0) [0..<8] of
              Some j \<Rightarrow> Some (i, j)
            | None \<Rightarrow> early_scan bm is)
      else early_scan bm is)"

definition early_alloc_page :: "pmm \<Rightarrow> pmm \<times> addr" where
  "early_alloc_page s =
     (case early_scan (early_bitmap s) [0..<EARLY_BITMAP_SIZE] of
        Some (i, j) \<Rightarrow>
          (s\<lparr>early_bitmap := (early_bitmap s)(i := early_bitmap s i OR push_bit j 1)\<rparr>,
           memory_start s + (i * 8 + j) * PAGE_SIZE)
      | None \<Rightarrow> (s, 0))"

definition pmm_page_to_phys :: "pmm \<Rightarrow> nat option \<Rightarrow> addr" where
  "pmm_page_to_phys s pg =
     (if page_array s = None \<or> pg = None then 0 else memory_start s + the pg * PAGE_SIZE)"

definition pmm_phys_to_page :: "pmm \<Rightarrow> addr \<Rightarrow> nat option" where
  "pmm_phys_to_page s a =
     (if page_array s = None \<or> a < memory_start s \<or> a \<ge> memory_end s then None else Some (pfn_of s a))"

definition buddy_address :: "addr \<Rightarrow> nat \<Rightarrow> addr" where
  "buddy_address a order = (a XOR (push_bit order PAGE_SIZE))"

definition buddy_add_to_list :: "pmm \<Rightarrow> addr \<Rightarrow> nat \<Rightarrow> pmm option" where
  "buddy_add_to_list s a order =
     (case (pmm_phys_to_page s a, page_array s) of
        (Some i, Some pa) \<Rightarrow>
          Some (s\<lparr>page_array := Some (pa(i := \<lparr>pg_flags = PAGE_FLAG_FREE, pg_order = order,
                     pg_next = free_lists s order\<rparr>)),
                  free_lists := (free_lists s)(order := Some i)\<rparr>)
      | _ \<Rightarrow> None)"

definition buddy_remove_from_list :: "pmm \<Rightarrow> nat \<Rightarrow> (pmm \<times> addr) option" where
  "buddy_remove_from_list s order =
     (case free_lists s order of
        None \<Rightarrow> Some (s, 0)
      | Some i \<Rightarrow>
          (case page_array s of
             None \<Rightarrow> None
           | Some pa \<Rightarrow>
               let s' = s\<lparr>free_lists := (free_lists s)(order := pg_next (pa i)),
                          page_array := Some (pa(i := (pa i)\<lparr>pg_next := None, pg_flags := PAGE_FLAG_USED\<rparr>))\<rparr>
               in Some (s', pmm_page_to_phys s' (Some i))))"

definition pmm_set_memory_range :: "pmm \<Rightarrow> nat \<Rightarrow> nat \<Rightarrow> pmm" where
  "pmm_set_memory_range s base sz =
     (if base = 0 \<or> sz = 0 then s
      else s\<lparr>configured_memory_base := base,
             configured_memory_size := (if sz > PMM_MAX_MEMORY_SIZE then PMM_MAX_MEMORY_SIZE else sz)\<rparr>)"

text \<open>\<open>kernel_start\<close> and \<open>kernel_end\<close> are the addresses the linker gives.\<close>

definition page_range :: "nat \<Rightarrow> nat \<Rightarrow> addr list" where
  "page_range lo hi = map (\<lambda>i. lo + i * PAGE_SIZE) [0..<(hi + PAGE_SIZE - 1 - lo) div PAGE_SIZE]"

definition pmm_init :: "pmm \<Rightarrow> nat \<Rightarrow> nat \<Rightarrow> pmm \<times> int" where
  "pmm_init s kernel_start kernel_end =
     (let s1 = s\<lparr>memory_start := configured_memory_base s,
                 memory_end := configured_memory_base s + configured_memory_size s,
                 total_memory := configured_memory_size s,
                 total_pages := configured_memory_size s div PAGE_SIZE,
                 free_lists := (\<lambda>i. if i \<le> MAX_ORDER then None else free_lists s i)\<rparr>;
          s2 = fold (\<lambda>a s. early_mark_used s a)
                 (page_range (kernel_start div PAGE_SIZE * PAGE_SIZE)
                    ((kernel_end + PAGE_SIZE - 1) div PAGE_SIZE * PAGE_SIZE)) s1;
          cnt = length (filter (\<lambda>i. early_bitmap s2 (i div 8) AND push_bit (i mod 8) 1 = 0)
                  [0..<min (total_pages s2) (EARLY_BITMAP_SIZE * 8)])
      in (s2\<lparr>free_pages_count := of_nat cnt\<rparr>, 0))"

text \<open>The search for \<open>cnt\<close> contiguous free pages in early mode.\<close>

function early_find :: "pmm \<Rightarrow> nat \<Rightarrow> addr \<Rightarrow> addr \<Rightarrow> nat \<Rightarrow> addr option" where
  "early_find s cnt a start found =
     (if a < memory_end s
      then if early_is_free s a
           then let start = (if found = 0 then a else start) in
                if found + 1 = cnt then Some start
                else early_find s cnt (a + PAGE_SIZE) start (found + 1)
           else early_find s cnt (a + PAGE_SIZE) start 0
      else None)"
  by pat_completeness auto
termination by (relation "measure (\<lambda>(s, cnt, a, start, found). memory_end s - a)") auto

declare early_find.simps [simp del]

fun buddy_split :: "pmm \<Rightarrow> addr \<Rightarrow> nat \<Rightarrow> nat \<Rightarrow> pmm option" where
  "buddy_split s a order 0 = Some s"
| "buddy_split s a order (Suc o') =
     (if Suc o' > order
      then (case buddy_add_to_list s (buddy_address a o') o' of
              None \<Rightarrow> None
            | Some s' \<Rightarrow> buddy_split s' a order o')
      else Some s)"

fun buddy_alloc :: "pmm \<Rightarrow> nat \<Rightarrow> nat list \<Rightarrow> (pmm \<times> addr) option" where
  "buddy_alloc s order [] = Some (s, 0)"
| "buddy_alloc s order (o' # os) =
     (case buddy_remove_from_list s o' of
        None \<Rightarrow> None
      | Some (s1, a) \<Rightarrow>
          if a \<noteq> 0
          then (case buddy_split s1 a order o' of
                  None \<Rightarrow> None
                | Some s2 \<Rightarrow>
                    Some (s2\<lparr>free_pages_count := free_pages_count s2 - of_nat (order_to_pages order)\<rparr>, a))
          else buddy_alloc s1 order os)"

definition pmm_alloc_pages :: "pmm \<Rightarrow> nat \<Rightarrow> (pmm \<times> addr) option" where
  "pmm_alloc_pages s order =
     (if order > MAX_ORDER then Some (s, 0)
      else if early_mode s
      then let cnt = order_to_pages order in
           (case early_find s cnt (memory_start s) 0 0 of
              None \<Rightarrow> Some (s, 0)
            | Some start \<Rightarrow>
                let s1 = fold (\<lambda>i s. early_mark_used s (start + i * PAGE_SIZE)) [0..<cnt] s
                in Some (s1\<lparr>free_pages_count := free_pages_count s1 - of_nat cnt\<rparr>, start))
      else buddy_alloc s order [order..<MAX_ORDER + 1])"

definition pmm_alloc_page :: "pmm \<Rightarrow> (pmm \<times> addr) option" where
  "pmm_alloc_page s = pmm_alloc_pages s 0"

function buddy_merge :: "pmm \<Rightarrow> addr \<Rightarrow> nat \<Rightarrow> addr \<times> nat" where
  "buddy_merge s a order =
     (if order < MAX_ORDER
      then let buddy = buddy_address a order in
           (case (pmm_phys_to_page s buddy, page_array s) of
              (Some i, Some pa) \<Rightarrow>
                if pg_flags (pa i) = PAGE_FLAG_FREE \<and> pg_order (pa i) = order
                then buddy_merge s (if buddy < a then buddy else a) (order + 1)
                else (a, order)
            | _ \<Rightarrow> (a, order))
      else (a, order))"
  by pat_completeness auto
termination by (relation "measure (\<lambda>(s, a, order). MAX_ORDER - order)") auto

declare buddy_merge.simps [simp del]

definition pmm_free_pages :: "pmm \<Rightarrow> addr \<Rightarrow> nat \<Rightarrow> pmm option" where
  "pmm_free_pages s a order =
     (if a = 0 \<or> order > MAX_ORDER then Some s
      else if early_mode s
      then let cnt = order_to_pages order;
               s1 = fold (\<lambda>i s. early_mark_free s (a + i * PAGE_SIZE)) [0..<cnt] s
           in Some (s1\<lparr>free_pages_count := free_pages_count s1 + of_nat cnt\<rparr>)
      else (case buddy_merge s a order of (a', order') \<Rightarrow>
              (case buddy_add_to_list s a' order' of
                 None \<Rightarrow> None
               | Some s1 \<Rightarrow>
                   Some (s1\<lparr>free_pages_count := free_pages_count s1 + of_nat (order_to_pages order')\<rparr>))))"

definition pmm_free_page :: "pmm \<Rightarrow> addr \<Rightarrow> pmm option" where
  "pmm_free_page s a = pmm_free_pages s a 0"

definition pmm_get_free_memory :: "pmm \<Rightarrow> u64" where
  "pmm_get_free_memory s = free_pages_count s * of_nat PAGE_SIZE"

definition pmm_get_total_memory :: "pmm \<Rightarrow> nat" where
  "pmm_get_total_memory s = total_memory s"

section \<open>The bitmap as a set of pages\<close>

definition page_used :: "pmm \<Rightarrow> nat \<Rightarrow> bool" where
  "page_used s k \<longleftrightarrow> bit (early_bitmap s (k div 8)) (k mod 8)"

abbreviation page_addr :: "pmm \<Rightarrow> nat \<Rightarrow> addr" where
  "page_addr s k \<equiv> memory_start s + k * PAGE_SIZE"

lemma bitmap_pages: "EARLY_BITMAP_SIZE * 8 = 2 ^ 20"
  by (simp add: EARLY_BITMAP_SIZE_def PMM_MAX_MEMORY_SIZE_def)

lemma bit_test: "(x AND push_bit j 1 = 0) \<longleftrightarrow> \<not> bit x j" "(x AND 2 ^ j = 0) \<longleftrightarrow> \<not> bit x j" for x :: u8
  using bit_iff_and_push_bit_not_eq_0 [of x j] by (simp_all add: push_bit_eq_mult)

lemma early_is_free_iff: "early_is_free s a \<longleftrightarrow> pfn_of s a < 2 ^ 20 \<and> \<not> page_used s (pfn_of s a)"
  by (simp add: early_is_free_def Let_def bitmap_pages bit_test page_used_def)

lemma div_mod_8_eq: "k div 8 = j div 8 \<and> k mod 8 = j mod 8 \<longleftrightarrow> k = (j :: nat)"
  by (metis div_mult_mod_eq)

lemma page_used_mark:
  "page_used (early_mark_used s a) k \<longleftrightarrow> page_used s k \<or> k = pfn_of s a \<and> k < 2 ^ 20"
  using div_mod_8_eq [of k "pfn_of s a"]
  by (auto simp: early_mark_used_def Let_def bitmap_pages page_used_def bit_simps)

lemma page_used_unmark:
  "page_used (early_mark_free s a) k \<longleftrightarrow> page_used s k \<and> \<not> (k = pfn_of s a \<and> k < 2 ^ 20)"
  using div_mod_8_eq [of k "pfn_of s a"]
  by (auto simp: early_mark_free_def Let_def bitmap_pages page_used_def bit_simps)

lemma mark_fields [simp]:
  "memory_start (early_mark_used s a) = memory_start s" "memory_end (early_mark_used s a) = memory_end s"
  "total_pages (early_mark_used s a) = total_pages s" "free_pages_count (early_mark_used s a) = free_pages_count s"
  "early_mode (early_mark_used s a) = early_mode s" "total_memory (early_mark_used s a) = total_memory s"
  "memory_start (early_mark_free s a) = memory_start s" "memory_end (early_mark_free s a) = memory_end s"
  "total_pages (early_mark_free s a) = total_pages s" "free_pages_count (early_mark_free s a) = free_pages_count s"
  "early_mode (early_mark_free s a) = early_mode s" "total_memory (early_mark_free s a) = total_memory s"
  by (simp_all add: early_mark_used_def early_mark_free_def Let_def)

lemma pfn_of_page_addr: "k < 2 ^ 20 \<Longrightarrow> pfn_of s (page_addr s k) = k"
  by (simp add: pfn_of_def)

lemma pfn_of_cong: "memory_start s' = memory_start s \<Longrightarrow> pfn_of s' = pfn_of s"
  by (simp add: pfn_of_def fun_eq_iff)

text \<open>Marking a run of pages.\<close>

definition mark_run :: "pmm \<Rightarrow> addr \<Rightarrow> nat \<Rightarrow> pmm" where
  "mark_run s start n = fold (\<lambda>i s. early_mark_used s (start + i * PAGE_SIZE)) [0..<n] s"

definition unmark_run :: "pmm \<Rightarrow> addr \<Rightarrow> nat \<Rightarrow> pmm" where
  "unmark_run s start n = fold (\<lambda>i s. early_mark_free s (start + i * PAGE_SIZE)) [0..<n] s"

lemma run_fields [simp]:
  "memory_start (mark_run s a n) = memory_start s" "memory_end (mark_run s a n) = memory_end s"
  "total_pages (mark_run s a n) = total_pages s" "free_pages_count (mark_run s a n) = free_pages_count s"
  "early_mode (mark_run s a n) = early_mode s" "total_memory (mark_run s a n) = total_memory s"
  "memory_start (unmark_run s a n) = memory_start s" "memory_end (unmark_run s a n) = memory_end s"
  "total_pages (unmark_run s a n) = total_pages s" "free_pages_count (unmark_run s a n) = free_pages_count s"
  "early_mode (unmark_run s a n) = early_mode s" "total_memory (unmark_run s a n) = total_memory s"
  unfolding mark_run_def unmark_run_def by (induction n) simp_all

lemma page_used_mark_run:
  assumes "j + n \<le> 2 ^ 20"
  shows "page_used (mark_run s (page_addr s j) n) k \<longleftrightarrow> page_used s k \<or> j \<le> k \<and> k < j + n"
  using assms
proof (induction n)
  case 0
  then show ?case by (auto simp: mark_run_def)
next
  case (Suc n)
  let ?s = "mark_run s (page_addr s j) n"
  have "mark_run s (page_addr s j) (Suc n) = early_mark_used ?s (page_addr s (j + n))"
    by (simp add: mark_run_def algebra_simps)
  moreover have "pfn_of ?s (page_addr s (j + n)) = j + n"
    using Suc.prems pfn_of_page_addr [of "j + n" ?s] by simp
  ultimately show ?case
    using Suc by (auto simp: page_used_mark)
qed

lemma page_used_unmark_run:
  assumes "j + n \<le> 2 ^ 20"
  shows "page_used (unmark_run s (page_addr s j) n) k \<longleftrightarrow> page_used s k \<and> \<not> (j \<le> k \<and> k < j + n)"
  using assms
proof (induction n)
  case 0
  then show ?case by (auto simp: unmark_run_def)
next
  case (Suc n)
  let ?s = "unmark_run s (page_addr s j) n"
  have "unmark_run s (page_addr s j) (Suc n) = early_mark_free ?s (page_addr s (j + n))"
    by (simp add: unmark_run_def algebra_simps)
  moreover have "pfn_of ?s (page_addr s (j + n)) = j + n"
    using Suc.prems pfn_of_page_addr [of "j + n" ?s] by simp
  ultimately show ?case
    using Suc by (auto simp: page_used_unmark)
qed

section \<open>First fit\<close>

text \<open>A run of \<open>n\<close> free pages of the memory, from page \<open>j\<close>.\<close>

definition free_run :: "pmm \<Rightarrow> nat \<Rightarrow> nat \<Rightarrow> bool" where
  "free_run s j n \<longleftrightarrow> j + n \<le> total_pages s \<and> (\<forall>i < n. \<not> page_used s (j + i))"

text \<open>The memory is whole pages and no larger than the bitmap.\<close>

definition pmm_range :: "pmm \<Rightarrow> bool" where
  "pmm_range s \<longleftrightarrow> 0 < memory_start s \<and> memory_end s = memory_start s + total_pages s * PAGE_SIZE \<and>
     total_pages s \<le> 2 ^ 20"

lemma early_find_spec:
  assumes "pmm_range s" and "f \<le> k" and "f < cnt" and "k \<le> total_pages s"
    and "\<forall>i < f. \<not> page_used s (k - f + i)" and "\<forall>j < k - f. \<not> free_run s j cnt"
    and "f = 0 \<or> st = page_addr s (k - f)"
  shows "case early_find s cnt (page_addr s k) st f of
      None \<Rightarrow> \<forall>j. \<not> free_run s j cnt
    | Some start \<Rightarrow> \<exists>j. start = page_addr s j \<and> free_run s j cnt \<and> (\<forall>i < j. \<not> free_run s i cnt)"
  using assms
proof (induction "total_pages s - k" arbitrary: k f st)
  case 0
  then have "early_find s cnt (page_addr s k) st f = None"
    by (subst early_find.simps) (simp add: pmm_range_def)
  moreover have "\<not> free_run s j cnt" for j
    using 0 by (cases "j < k - f") (auto simp: free_run_def)
  ultimately show ?case by simp
next
  case (Suc n)
  then have k: "k < total_pages s" "k < 2 ^ 20" "page_addr s k < memory_end s"
    by (auto simp: pmm_range_def)
  have free: "early_is_free s (page_addr s k) \<longleftrightarrow> \<not> page_used s k"
    using k(2) by (simp add: early_is_free_iff pfn_of_page_addr)
  have nxt: "page_addr s k + PAGE_SIZE = page_addr s (Suc k)"
    by simp
  show ?case
  proof (cases "page_used s k")
    case True
    have step: "early_find s cnt (page_addr s k) st f = early_find s cnt (page_addr s (Suc k)) st 0"
      using True k(3) free by (subst early_find.simps) (simp add: nxt)
    have "\<forall>j < Suc k. \<not> free_run s j cnt"
    proof (intro allI impI notI)
      fix j assume "j < Suc k" and run: "free_run s j cnt"
      then have "k - f \<le> j"
        using Suc.prems(6) not_le by blast
      with \<open>j < Suc k\<close> Suc.prems(2,3) have "k - j < cnt" "j + (k - j) = k"
        by linarith+
      with run True show False
        unfolding free_run_def by metis
    qed
    with Suc.hyps(2) Suc.prems(1,3) k(1) show ?thesis
      unfolding step by (intro Suc.hyps(1)) auto
  next
    case False
    let ?st = "page_addr s (k - f)"
    have st: "(if f = 0 then page_addr s k else st) = ?st"
      using Suc.prems(7) by auto
    have run: "\<forall>i < Suc f. \<not> page_used s (Suc k - Suc f + i)"
      using Suc.prems(2,5) False by (auto simp: less_Suc_eq)
    show ?thesis
    proof (cases "Suc f = cnt")
      case True
      then have "early_find s cnt (page_addr s k) st f = Some ?st"
        using False k(3) free st by (subst early_find.simps) (simp add: Let_def)
      moreover have "free_run s (k - f) cnt"
        using True run k(1) Suc.prems(2) by (auto simp: free_run_def)
      ultimately show ?thesis
        using Suc.prems(6) by auto
    next
      case neq: False
      then have step: "early_find s cnt (page_addr s k) st f = early_find s cnt (page_addr s (Suc k)) ?st (Suc f)"
        using False k(3) free st by (subst early_find.simps) (simp add: Let_def nxt)
      show ?thesis
        unfolding step using Suc.hyps(2) Suc.prems(1,2,3,6) k(1) neq run
        by (intro Suc.hyps(1)) auto
    qed
  qed
qed

section \<open>The invariant of early mode\<close>

definition free_pages :: "pmm \<Rightarrow> nat set" where
  "free_pages s = {k. k < total_pages s \<and> \<not> page_used s k}"

definition pmm_inv :: "pmm \<Rightarrow> bool" where
  "pmm_inv s \<longleftrightarrow> early_mode s \<and> pmm_range s \<and> free_pages_count s = of_nat (card (free_pages s))"

lemma finite_free_pages [simp]: "finite (free_pages s)"
  by (simp add: free_pages_def)

lemma free_run_iff: "0 < n \<Longrightarrow> free_run s j n \<longleftrightarrow> {j..<j + n} \<subseteq> free_pages s"
proof -
  assume n: "0 < n"
  have "free_run s j n" if sub: "{j..<j + n} \<subseteq> free_pages s"
  proof -
    from n sub have "j + (n - 1) \<in> free_pages s" by auto
    moreover have "j + i \<in> free_pages s" if "i < n" for i
      using sub that by auto
    ultimately show ?thesis
      using n by (auto simp: free_run_def free_pages_def)
  qed
  moreover have "x \<in> free_pages s" if "free_run s j n" "x \<in> {j..<j + n}" for x
    using that by (auto simp: free_run_def free_pages_def dest!: spec [of _ "x - j"])
  ultimately show ?thesis by blast
qed

lemma free_pages_mark_run:
  "j + n \<le> 2 ^ 20 \<Longrightarrow> free_pages (mark_run s (page_addr s j) n) = free_pages s - {j..<j + n}"
  by (auto simp: free_pages_def page_used_mark_run)

lemma free_pages_unmark_run:
  "j + n \<le> total_pages s \<Longrightarrow> total_pages s \<le> 2 ^ 20 \<Longrightarrow>
     free_pages (unmark_run s (page_addr s j) n) = free_pages s \<union> {j..<j + n}"
  by (auto simp: free_pages_def page_used_unmark_run)

lemma free_pages_count_update [simp]:
  "free_pages (s\<lparr>free_pages_count := c\<rparr>) = free_pages s" "pmm_range (s\<lparr>free_pages_count := c\<rparr>) = pmm_range s"
  "page_used (s\<lparr>free_pages_count := c\<rparr>) k = page_used s k"
  by (simp_all add: free_pages_def page_used_def pmm_range_def)

lemma pmm_range_run [simp]:
  "pmm_range (mark_run s a n) = pmm_range s" "pmm_range (unmark_run s a n) = pmm_range s"
  by (simp_all add: pmm_range_def)

section \<open>Properties of the page allocator\<close>

lemma alloc_pages_run:
  assumes inv: "pmm_inv s" and ord: "order \<le> MAX_ORDER"
  shows "\<exists>s' a. pmm_alloc_pages s order = Some (s', a) \<and> pmm_inv s' \<and>
    memory_start s' = memory_start s \<and> total_pages s' = total_pages s \<and>
    (if \<exists>j. {j..<j + 2 ^ order} \<subseteq> free_pages s
     then \<exists>j. a = page_addr s j \<and> 0 < a \<and> {j..<j + 2 ^ order} \<subseteq> free_pages s \<and>
       (\<forall>i < j. \<not> {i..<i + 2 ^ order} \<subseteq> free_pages s) \<and>
       free_pages s' = free_pages s - {j..<j + 2 ^ order}
     else a = 0 \<and> s' = s)"
proof -
  let ?n = "2 ^ order :: nat"
  have range: "pmm_range s" and early: "early_mode s"
    using inv by (simp_all add: pmm_inv_def)
  have spec: "case early_find s ?n (memory_start s) 0 0 of
      None \<Rightarrow> \<forall>j. \<not> {j..<j + ?n} \<subseteq> free_pages s
    | Some start \<Rightarrow> \<exists>j. start = page_addr s j \<and> {j..<j + ?n} \<subseteq> free_pages s \<and>
        (\<forall>i < j. \<not> {i..<i + ?n} \<subseteq> free_pages s)"
    using early_find_spec [OF range, of 0 0 ?n 0] by (auto simp: free_run_iff split: option.splits)
  show ?thesis
  proof (cases "early_find s ?n (memory_start s) 0 0")
    case None
    with spec inv early ord show ?thesis
      by (simp add: pmm_alloc_pages_def order_to_pages_def)
  next
    case (Some start)
    with spec obtain j where j: "start = page_addr s j" "{j..<j + ?n} \<subseteq> free_pages s"
        "\<forall>i < j. \<not> {i..<i + ?n} \<subseteq> free_pages s"
      by auto
    let ?s = "(mark_run s start ?n)\<lparr>free_pages_count := free_pages_count s - of_nat ?n\<rparr>"
    have "j + ?n \<le> 2 ^ 20"
      using free_run_iff [of ?n s j] j(2) range by (auto simp: free_run_def pmm_range_def)
    then have pages: "free_pages (mark_run s start ?n) = free_pages s - {j..<j + ?n}"
      by (simp add: free_pages_mark_run j(1))
    have "card (free_pages s) = card (free_pages s - {j..<j + ?n}) + ?n"
      using j(2) card_mono [of "free_pages s" "{j..<j + ?n}"] by (simp add: card_Diff_subset)
    then have "pmm_inv ?s"
      using inv by (simp add: pmm_inv_def pages)
    moreover have "pmm_alloc_pages s order = Some (?s, start)"
      using Some ord early by (simp add: pmm_alloc_pages_def order_to_pages_def mark_run_def [symmetric])
    moreover have "0 < start"
      using range j(1) by (simp add: pmm_range_def)
    ultimately show ?thesis
      using j pages by auto
  qed
qed

lemma alloc_page_least:
  assumes inv: "pmm_inv s" and "free_pages s \<noteq> {}"
  shows "\<exists>s'. pmm_alloc_page s = Some (s', page_addr s (Min (free_pages s))) \<and> pmm_inv s' \<and>
    memory_start s' = memory_start s \<and> total_pages s' = total_pages s \<and>
    free_pages s' = free_pages s - {Min (free_pages s)}"
proof -
  have run: "{j..<j + 2 ^ 0} = {j}" "{j} \<subseteq> free_pages s \<longleftrightarrow> j \<in> free_pages s" for j :: nat
    by auto
  have least: "Min (free_pages s) = j" if "j \<in> free_pages s" "\<forall>i < j. i \<notin> free_pages s" for j
    using that by (intro Min_eqI) (auto simp: not_less [symmetric])
  from alloc_pages_run [OF inv, of 0] obtain s' a where s': "pmm_alloc_page s = Some (s', a)" "pmm_inv s'"
      "memory_start s' = memory_start s" "total_pages s' = total_pages s" and
      a: "if \<exists>j. j \<in> free_pages s
        then \<exists>j. a = page_addr s j \<and> 0 < a \<and> j \<in> free_pages s \<and> (\<forall>i < j. i \<notin> free_pages s) \<and>
          free_pages s' = free_pages s - {j}
        else a = 0 \<and> s' = s"
    unfolding run pmm_alloc_page_def by blast
  have "\<exists>j. j \<in> free_pages s"
    using assms(2) by blast
  from a [unfolded if_P [OF this]] obtain j where j: "a = page_addr s j" "j \<in> free_pages s" "\<forall>i < j. i \<notin> free_pages s"
      "free_pages s' = free_pages s - {j}"
    by blast
  show ?thesis
    unfolding least [OF j(2,3)] using s' j by blast
qed

lemma alloc_page_none:
  assumes inv: "pmm_inv s" and "free_pages s = {}"
  shows "pmm_alloc_page s = Some (s, 0)"
  using alloc_pages_run [OF inv, of 0] assms(2) by (auto simp: pmm_alloc_page_def)

lemma free_page_bounds:
  "pmm_inv s \<Longrightarrow> k \<in> free_pages s \<Longrightarrow> 0 < page_addr s k \<and> page_addr s k + PAGE_SIZE \<le> memory_end s"
  by (auto simp: pmm_inv_def pmm_range_def free_pages_def)

text \<open>Single pages are taken in ascending order, so every free page is handed out in the end.\<close>

fun take_pages :: "nat \<Rightarrow> pmm \<Rightarrow> pmm option" where
  "take_pages 0 s = Some s"
| "take_pages (Suc j) s = (case pmm_alloc_page s of None \<Rightarrow> None | Some (s', a) \<Rightarrow> take_pages j s')"

lemma take_pages_until:
  "pmm_inv s \<Longrightarrow> k \<in> free_pages s \<Longrightarrow> j = card {i \<in> free_pages s. i < k} \<Longrightarrow>
     \<exists>s1 s2. take_pages j s = Some s1 \<and> pmm_alloc_page s1 = Some (s2, page_addr s k)"
proof (induction j arbitrary: s)
  case 0
  then have "Min (free_pages s) = k"
    by (intro Min_eqI) (auto simp: not_less [symmetric])
  then show ?case
    using 0 alloc_page_least [of s] by fastforce
next
  case (Suc j)
  let ?m = "Min (free_pages s)"
  have fin: "finite (free_pages s)" and ne: "free_pages s \<noteq> {}"
    using Suc.prems(2) by auto
  from alloc_page_least [OF Suc.prems(1) ne] obtain s' where
    s': "pmm_alloc_page s = Some (s', page_addr s ?m)" "pmm_inv s'" "memory_start s' = memory_start s"
      "free_pages s' = free_pages s - {?m}"
    by blast
  have "{i \<in> free_pages s. i < k} \<noteq> {}"
    using Suc.prems(3) by (metis card.empty nat.distinct(1))
  then obtain i where "i \<in> free_pages s" "i < k" by blast
  then have m: "?m < k" "?m \<in> free_pages s"
    using Min_le [OF fin, of i] Min_in [OF fin ne] by (auto simp del: Min_le)
  have "{i \<in> free_pages s'. i < k} = {i \<in> free_pages s. i < k} - {?m}"
    using s'(4) by auto
  then have "card {i \<in> free_pages s'. i < k} = j"
    using m Suc.prems(3) by simp
  with Suc.IH [OF s'(2)] s'(4) Suc.prems(2) m(1) s'(3) show ?case
    by (simp add: s'(1))
qed

text \<open>C18. On a well-formed page map, \<open>pmm_alloc_pages\<close> returns and keeps it well-formed. It
  returns 0 exactly when no \<open>2^order\<close> contiguous pages are free, changing nothing; otherwise it takes
  the first such run, which was free, and no other page.\<close>

theorem pmm_alloc_pages_correct:
  assumes inv: "pmm_inv s" and ord: "order \<le> MAX_ORDER"
  shows "\<exists>s' a. pmm_alloc_pages s order = Some (s', a) \<and> pmm_inv s' \<and>
    (if \<exists>j. {j..<j + 2 ^ order} \<subseteq> free_pages s
     then \<exists>j. a = page_addr s j \<and> 0 < a \<and> {j..<j + 2 ^ order} \<subseteq> free_pages s \<and>
       (\<forall>i < j. \<not> {i..<i + 2 ^ order} \<subseteq> free_pages s) \<and>
       free_pages s' = free_pages s - {j..<j + 2 ^ order}
     else a = 0 \<and> s' = s)"
  using alloc_pages_run [OF assms] by blast

lemma free_pages_run:
  assumes inv: "pmm_inv s" and ord: "order \<le> MAX_ORDER" and block: "j + 2 ^ order \<le> total_pages s"
  shows "\<exists>s'. pmm_free_pages s (page_addr s j) order = Some s' \<and>
    free_pages s' = free_pages s \<union> {j..<j + 2 ^ order} \<and>
    memory_start s' = memory_start s \<and> total_pages s' = total_pages s \<and>
    free_pages_count s' = free_pages_count s + 2 ^ order \<and>
    (pmm_inv s' \<longleftrightarrow> free_pages s \<inter> {j..<j + 2 ^ order} = {})"
proof -
  let ?n = "2 ^ order :: nat" and ?B = "{j..<j + 2 ^ order}"
  let ?s = "(unmark_run s (page_addr s j) ?n)\<lparr>free_pages_count := free_pages_count s + of_nat ?n\<rparr>"
  have range: "pmm_range s" and early: "early_mode s"
    using inv by (simp_all add: pmm_inv_def)
  have pages: "free_pages (unmark_run s (page_addr s j) ?n) = free_pages s \<union> ?B"
    using range block by (simp add: free_pages_unmark_run pmm_range_def)
  have "free_pages s \<union> ?B \<subseteq> {..<total_pages s}"
    using block by (auto simp: free_pages_def)
  then have "card (free_pages s \<union> ?B) \<le> total_pages s"
    using card_mono [of "{..<total_pages s}" "free_pages s \<union> ?B"] by simp
  then have small: "card (free_pages s \<union> ?B) \<le> 1048576"
    using range by (simp add: pmm_range_def)
  have sum: "card (free_pages s) + ?n = card (free_pages s \<union> ?B) + card (free_pages s \<inter> ?B)"
    using card_Un_Int [of "free_pages s" ?B] by simp
  have order: "?n \<le> 2048"
    using ord power_increasing [of order 11 "2 :: nat"] by (simp add: MAX_ORDER_def)
  have int: "card (free_pages s \<inter> ?B) \<le> ?n"
    using card_mono [of ?B "free_pages s \<inter> ?B"] by simp
  have "pmm_inv ?s \<longleftrightarrow> (of_nat (card (free_pages s) + ?n) :: u64) = of_nat (card (free_pages s \<union> ?B))"
    using inv by (simp add: pmm_inv_def pages)
  also have "\<dots> \<longleftrightarrow> card (free_pages s) + ?n = card (free_pages s \<union> ?B)"
    by (rule u64_of_nat_eq) (use small order int sum in linarith)+
  also have "\<dots> \<longleftrightarrow> free_pages s \<inter> ?B = {}"
    using sum by (simp add: card_eq_0_iff)
  finally have "pmm_inv ?s \<longleftrightarrow> free_pages s \<inter> ?B = {}" .
  moreover have "pmm_free_pages s (page_addr s j) order = Some ?s"
    using ord early range
    by (simp add: pmm_free_pages_def order_to_pages_def unmark_run_def [symmetric] pmm_range_def)
  ultimately show ?thesis
    using pages by simp
qed

text \<open>\<open>pmm_free_pages\<close> gives the pages back and adds their number to the counter whether
  or not they were in use: the page map stays well-formed exactly when all of them were. A second
  release of the same pages makes the counter exceed the number of free pages.\<close>

theorem pmm_free_pages_correct:
  assumes inv: "pmm_inv s" and ord: "order \<le> MAX_ORDER" and block: "j + 2 ^ order \<le> total_pages s"
  shows "\<exists>s'. pmm_free_pages s (page_addr s j) order = Some s' \<and>
    free_pages s' = free_pages s \<union> {j..<j + 2 ^ order} \<and>
    free_pages_count s' = free_pages_count s + 2 ^ order \<and>
    (pmm_inv s' \<longleftrightarrow> free_pages s \<inter> {j..<j + 2 ^ order} = {})"
  using free_pages_run [OF assms] by blast

lemma fold_mark_fields:
  "memory_start (fold (\<lambda>a s. early_mark_used s a) as s) = memory_start s"
  "memory_end (fold (\<lambda>a s. early_mark_used s a) as s) = memory_end s"
  "total_pages (fold (\<lambda>a s. early_mark_used s a) as s) = total_pages s"
  "early_mode (fold (\<lambda>a s. early_mark_used s a) as s) = early_mode s"
  by (induction as arbitrary: s) simp_all

lemma page_used_fold_mark:
  "page_used (fold (\<lambda>a s. early_mark_used s a) as s) k \<longleftrightarrow>
     page_used s k \<or> (\<exists>a \<in> set as. k = pfn_of s a \<and> k < 2 ^ 20)"
proof (induction as arbitrary: s)
  case (Cons a as)
  have "pfn_of (early_mark_used s a) = pfn_of s"
    by (rule pfn_of_cong) simp
  with Cons show ?case by (auto simp: page_used_mark)
qed simp

lemma page_range_pages:
  "page_range (p * PAGE_SIZE) (q * PAGE_SIZE) = map (\<lambda>i. (p + i) * PAGE_SIZE) [0..<q - p]"
proof -
  have "(q * PAGE_SIZE + PAGE_SIZE - 1 - p * PAGE_SIZE) div PAGE_SIZE = q - p"
  proof (cases "p \<le> q")
    case True
    then have "q * PAGE_SIZE + PAGE_SIZE - 1 - p * PAGE_SIZE = (q - p) * PAGE_SIZE + (PAGE_SIZE - 1)"
      by (simp add: algebra_simps)
    then show ?thesis by simp
  next
    case False
    then have "q * PAGE_SIZE + PAGE_SIZE \<le> p * PAGE_SIZE"
      by (metis add_mult_distrib2 mult.commute mult_Suc_right mult_le_mono1 not_less_eq_eq add.commute)
    with False show ?thesis by simp
  qed
  then show ?thesis
    by (simp add: page_range_def algebra_simps)
qed

text \<open>The pages of the kernel image, by index.\<close>

lemma kernel_pages_used:
  assumes base: "memory_start s = b * PAGE_SIZE" and "b \<le> p" and "q \<le> b + 2 ^ 20" and "\<not> page_used s k"
  shows "page_used (fold (\<lambda>a s. early_mark_used s a) (page_range (p * PAGE_SIZE) (q * PAGE_SIZE)) s) k
    \<longleftrightarrow> p \<le> b + k \<and> b + k < q"
proof -
  have "pfn_of s ((p + i) * PAGE_SIZE) = p - b + i" if "i < q - p" for i
    using that assms(2,3) pfn_of_page_addr [of "p - b + i" s]
    by (simp add: base algebra_simps)
  then have "(\<exists>a \<in> set (page_range (p * PAGE_SIZE) (q * PAGE_SIZE)). k = pfn_of s a \<and> k < 2 ^ 20) \<longleftrightarrow>
      (\<exists>i < q - p. k = p - b + i \<and> k < 2 ^ 20)"
    by (auto simp: page_range_pages)
  also have "\<dots> \<longleftrightarrow> p \<le> b + k \<and> b + k < q"
    using assms(2,3) by (auto intro!: exI [of _ "k - (p - b)"])
  finally show ?thesis
    using assms(4) by (simp add: page_used_fold_mark)
qed

lemma pmm_init_state:
  assumes "early_bitmap s = (\<lambda>_. 0)" and "early_mode s" and "0 < b"
    and conf: "configured_memory_base s = b * PAGE_SIZE" "configured_memory_size s = n * PAGE_SIZE"
    and size: "configured_memory_size s \<le> PMM_MAX_MEMORY_SIZE"
    and kernel: "b * PAGE_SIZE \<le> kernel_start" "kernel_end \<le> (b + n) * PAGE_SIZE"
  shows "\<exists>s'. pmm_init s kernel_start kernel_end = (s', 0) \<and> pmm_inv s' \<and> total_pages s' = n \<and>
    memory_start s' = b * PAGE_SIZE \<and>
    free_pages s' = {k. k < n \<and> (page_addr s' (k + 1) \<le> kernel_start \<or> kernel_end \<le> page_addr s' k)}"
proof -
  let ?p = "kernel_start div PAGE_SIZE" and ?q = "(kernel_end + PAGE_SIZE - 1) div PAGE_SIZE"
  define s1 where "s1 = s\<lparr>memory_start := configured_memory_base s,
      memory_end := configured_memory_base s + configured_memory_size s,
      total_memory := configured_memory_size s, total_pages := configured_memory_size s div PAGE_SIZE,
      free_lists := (\<lambda>i. if i \<le> MAX_ORDER then None else free_lists s i)\<rparr>"
  define s2 where "s2 = fold (\<lambda>a s. early_mark_used s a) (page_range (?p * PAGE_SIZE) (?q * PAGE_SIZE)) s1"
  have s1: "memory_start s1 = b * PAGE_SIZE" "memory_end s1 = b * PAGE_SIZE + n * PAGE_SIZE"
      "total_pages s1 = n" "early_mode s1" and clear: "\<not> page_used s1 k" for k
    using assms(1,2) conf by (simp_all add: s1_def page_used_def)
  have n: "n \<le> 2 ^ 20"
    using size conf(2) by (simp add: PMM_MAX_MEMORY_SIZE_def)
  have "b \<le> ?p"
    using kernel(1) by (simp add: less_eq_div_iff_mult_less_eq)
  moreover have q: "?q \<le> x \<longleftrightarrow> kernel_end \<le> x * PAGE_SIZE" for x
    using div_less_iff_less_mult [of PAGE_SIZE "kernel_end + PAGE_SIZE - 1" "Suc x"] by auto
  moreover have "?q \<le> b + 2 ^ 20"
    using q [of "b + 2 ^ 20"] kernel(2) n by (simp add: algebra_simps)
  ultimately have used: "page_used s2 k \<longleftrightarrow> ?p \<le> b + k \<and> b + k < ?q" for k
    unfolding s2_def using clear by (intro kernel_pages_used [OF s1(1)]) auto
  define s' where "s' = s2\<lparr>free_pages_count := of_nat (length (filter
      (\<lambda>i. early_bitmap s2 (i div 8) AND push_bit (i mod 8) 1 = 0) [0..<min (total_pages s2) (EARLY_BITMAP_SIZE * 8)]))\<rparr>"
  have s2: "memory_start s2 = b * PAGE_SIZE" "total_pages s2 = n" "pmm_range s2" "early_mode s2"
    using s1 n assms(3) by (simp_all add: s2_def fold_mark_fields pmm_range_def)
  have "length (filter (\<lambda>i. early_bitmap s2 (i div 8) AND push_bit (i mod 8) 1 = 0) [0..<n]) = card (free_pages s2)"
    unfolding free_pages_def page_used_def s2(2) bit_test
    by (subst distinct_card [symmetric]) (auto intro!: arg_cong [where f = card])
  then have inv: "pmm_inv s'"
    using n s2 by (simp add: s'_def pmm_inv_def bitmap_pages min_def)
  have "page_addr s' (k + 1) \<le> kernel_start \<longleftrightarrow> \<not> ?p \<le> b + k"
      "kernel_end \<le> page_addr s' k \<longleftrightarrow> ?q \<le> b + k" for k
    using q [of "b + k"] by (auto simp: s'_def s2 algebra_simps not_le less_eq_div_iff_mult_less_eq Suc_le_eq)
  then have "free_pages s' = {k. k < n \<and> (page_addr s' (k + 1) \<le> kernel_start \<or> kernel_end \<le> page_addr s' k)}"
    using s2(2) used by (auto simp: s'_def free_pages_def)
  moreover have "pmm_init s kernel_start kernel_end = (s', 0)"
    by (simp add: pmm_init_def Let_def s1_def s2_def s'_def)
  ultimately show ?thesis
    using inv s2(1,2) by (auto simp: s'_def)
qed

text \<open>Initialisation on a zeroed bitmap gives a well-formed page map for page-aligned memory of at
  most 4 GB: the free pages are exactly those that do not touch the kernel image. Nothing else is
  reserved.\<close>

theorem pmm_init_correct:
  assumes "early_bitmap s = (\<lambda>_. 0)" and "early_mode s" and "0 < b"
    and conf: "configured_memory_base s = b * PAGE_SIZE" "configured_memory_size s = n * PAGE_SIZE"
    and size: "configured_memory_size s \<le> PMM_MAX_MEMORY_SIZE"
    and kernel: "b * PAGE_SIZE \<le> kernel_start" "kernel_end \<le> (b + n) * PAGE_SIZE"
  shows "\<exists>s'. pmm_init s kernel_start kernel_end = (s', 0) \<and> pmm_inv s' \<and> total_pages s' = n \<and>
    free_pages s' = {k. k < n \<and> (page_addr s' (k + 1) \<le> kernel_start \<or> kernel_end \<le> page_addr s' k)}"
  using pmm_init_state [OF assms] by blast

text \<open>
  The operations in any order, from the static initial state. The constructors of \<open>pmm_step\<close> are
  the entry points of the component.
\<close>

inductive pmm_step :: "pmm \<Rightarrow> pmm \<Rightarrow> bool" where
  set_range: "pmm_step s (pmm_set_memory_range s base sz)"
| init: "pmm_step s (fst (pmm_init s kernel_start kernel_end))"
| alloc: "pmm_alloc_pages s order = Some (s', a) \<Longrightarrow> pmm_step s s'"
| release: "pmm_free_pages s a order = Some s' \<Longrightarrow> pmm_step s s'"

lemma mark_page_array [simp]:
  "page_array (early_mark_used s a) = page_array s" "page_array (early_mark_free s a) = page_array s"
  by (simp_all add: early_mark_used_def early_mark_free_def Let_def)

lemma fold_mark_array:
  "page_array (fold (\<lambda>a s. early_mark_used s a) as s) = page_array s"
  "page_array (fold (\<lambda>i s. early_mark_used s (f i)) is s) = page_array s"
  "page_array (fold (\<lambda>i s. early_mark_free s (f i)) is s) = page_array s"
  "early_mode (fold (\<lambda>i s. early_mark_used s (f i)) is s) = early_mode s"
  "early_mode (fold (\<lambda>i s. early_mark_free s (f i)) is s) = early_mode s"
  by ((induction as arbitrary: s; simp), (induction "is" arbitrary: s; simp)+)

text \<open>The buddy allocator is never used: in every state the operations can reach, the page
  manager is in early mode and has no page array, so every allocation and release goes through
  the bitmap.\<close>

theorem pmm_stays_early:
  assumes "pmm_step\<^sup>*\<^sup>* pmm_boot s"
  shows "early_mode s \<and> page_array s = None"
  using assms
proof induction
  case base
  show ?case by (simp add: pmm_boot_def)
next
  case (step s s')
  from step(2,3) show ?case
  proof cases
    case (init kernel_start kernel_end)
    with step(3) show ?thesis by (simp add: pmm_init_def Let_def fold_mark_fields fold_mark_array)
  next
    case (alloc order a)
    with step(3) show ?thesis
      by (auto simp: pmm_alloc_pages_def Let_def fold_mark_array split: if_splits option.splits)
  next
    case (release a order)
    with step(3) show ?thesis
      by (auto simp: pmm_free_pages_def Let_def fold_mark_array split: if_splits)
  qed (simp add: pmm_set_memory_range_def)
qed

text \<open>A memory of two pages in buddy mode, both in use.\<close>

definition buddy_sample :: pmm where
  "buddy_sample = pmm_boot\<lparr>early_mode := False, memory_start := 0x40000000, memory_end := 0x40002000,
     total_pages := 2, page_array := Some (\<lambda>_. \<lparr>pg_flags = PAGE_FLAG_USED, pg_order = 0, pg_next = None\<rparr>)\<rparr>"

text \<open>If the buddy mode were switched on, merging would lose track of memory: the buddy that is
  merged stays in its free list. After the release of two buddies, an allocation of both pages and
  then of one page return the same address, and three free pages have been counted.\<close>

theorem buddy_release_overlap:
  "\<exists>s1 s2 s3 s4. pmm_free_pages buddy_sample 0x40000000 0 = Some s1 \<and>
     pmm_free_pages s1 0x40001000 0 = Some s2 \<and> free_pages_count s2 = 3 \<and>
     pmm_alloc_pages s2 1 = Some (s3, 0x40000000) \<and> pmm_alloc_pages s3 0 = Some (s4, 0x40000000)"
  by (simp add: buddy_sample_def pmm_boot_def pmm_free_pages_def buddy_merge.simps MAX_ORDER_def
      buddy_address_def pmm_phys_to_page_def pfn_of_def buddy_add_to_list_def order_to_pages_def
      pmm_alloc_pages_def buddy_remove_from_list_def pmm_page_to_phys_def upt_rec push_bit_eq_mult)

section \<open>Witnesses\<close>

text \<open>Four free pages from address 4096.\<close>

definition four_pages :: pmm where
  "four_pages = pmm_boot\<lparr>memory_start := 4096, memory_end := 20480, total_pages := 4, free_pages_count := 4\<rparr>"

lemma four_pages_free: "free_pages four_pages = {..<4}"
  by (auto simp: four_pages_def free_pages_def page_used_def pmm_boot_def)

lemma four_pages_inv: "pmm_inv four_pages"
  by (simp add: pmm_inv_def four_pages_free pmm_range_def) (simp add: four_pages_def pmm_boot_def)

lemma pmm_alloc_pages_correct_witness:
  "\<exists>s' a. pmm_alloc_pages four_pages 1 = Some (s', a) \<and> pmm_inv s' \<and> 0 < a"
proof -
  have "{0..<0 + 2 ^ 1} \<subseteq> free_pages four_pages"
    by (auto simp: four_pages_free)
  then have "\<exists>j. {j..<j + 2 ^ 1} \<subseteq> free_pages four_pages" by blast
  with pmm_alloc_pages_correct [OF four_pages_inv, of 1] show ?thesis
    by (auto simp: MAX_ORDER_def)
qed

lemma pmm_free_pages_correct_witness:
  "\<exists>s'. pmm_free_pages four_pages (page_addr four_pages 0) 1 = Some s' \<and> free_pages_count s' = 6 \<and>
     free_pages s' = {..<4} \<and> \<not> pmm_inv s'"
proof -
  have tot: "total_pages four_pages = 4" "free_pages_count four_pages = 4"
    by (simp_all add: four_pages_def)
  have un: "{..<4} \<union> {0..<0 + 2 ^ 1} = {..<4 :: nat}" and ne: "0 \<in> {..<4} \<inter> {0..<0 + 2 ^ 1 :: nat}"
    by auto
  have "(1 :: nat) \<le> MAX_ORDER" "0 + 2 ^ 1 \<le> total_pages four_pages"
    by (simp_all add: MAX_ORDER_def tot)
  from pmm_free_pages_correct [OF four_pages_inv this] obtain s' where
      "pmm_free_pages four_pages (page_addr four_pages 0) 1 = Some s'" "free_pages s' = {..<4}"
      "free_pages_count s' = 4 + 2 ^ 1" "pmm_inv s' \<longleftrightarrow> {..<4} \<inter> {0..<0 + 2 ^ 1} = ({} :: nat set)"
    unfolding four_pages_free tot un by blast
  moreover have "\<not> pmm_inv s'"
    using calculation(4) ne by blast
  ultimately show ?thesis by auto
qed

lemma pmm_init_correct_witness:
  "\<exists>s'. pmm_init pmm_boot 0x40200000 0x40600000 = (s', 0) \<and> pmm_inv s' \<and> total_pages s' = 262144"
  using pmm_init_correct [where s = pmm_boot and b = "0x40000" and n = 262144
      and kernel_start = "0x40200000" and kernel_end = "0x40600000"]
  by (simp add: pmm_boot_def MEMORY_BASE_def MEMORY_SIZE_def PMM_MAX_MEMORY_SIZE_def) auto

lemma pmm_stays_early_witness:
  "pmm_step\<^sup>*\<^sup>* pmm_boot (pmm_set_memory_range pmm_boot 4096 8192) \<and>
   page_array (pmm_set_memory_range pmm_boot 4096 8192) = None"
proof -
  have run: "pmm_step\<^sup>*\<^sup>* pmm_boot (pmm_set_memory_range pmm_boot 4096 8192)"
    by (intro r_into_rtranclp pmm_step.set_range)
  from pmm_stays_early [OF this] run show ?thesis by blast
qed

end
