(* ===== verification/Sched.thy ===== *)
theory Sched
  imports Linked_Lists Pmm "HOL-Library.Monad_Syntax"
begin

text \<open>
  The run queue and the task pool, \<^verbatim>\<open>kernel/sched/sched.c\<close>. Tasks are the entries of the static pool
  and the idle task; the run queue is a doubly linked list through them. \<^const>\<open>None\<close> as the result of
  an operation is an access through a null pointer. The operations refine operations on a list of
  tasks as long as no task is queued twice.
\<close>

section \<open>State\<close>

datatype task_state =
  TASK_RUNNING | TASK_INTERRUPTIBLE | TASK_UNINTERRUPTIBLE | TASK_STOPPED | TASK_ZOMBIE | TASK_DEAD

record cpu_context =
  x19 :: u64
  x20_28 :: "u64 list"
  ctx_fp :: u64
  ctx_sp :: u64
  ctx_pc :: u64

text \<open>A task is the static \<open>init_task\<close> or an entry of \<open>task_pool\<close>.\<close>

datatype task_ref = Init_task | Pool_task nat

text \<open>
  The fields of \<open>task_struct\<close> that the modelled code reads or writes; \<open>signals\<close> is the index of
  the task's signal structure.
\<close>

record task =
  tstate :: task_state
  prio :: int
  static_prio :: int
  nice :: int
  pid :: int
  tgid :: int
  uid :: u32
  gid :: u32
  comm :: "byte list"
  cpu_ctx :: cpu_context
  mm :: ptr
  active_mm :: ptr
  stack :: ptr
  stack_size :: nat
  parent :: "task_ref option"
  tnext :: "task_ref option"
  tprev :: "task_ref option"
  exit_code :: int
  signals :: "nat option"
  pending_signals :: u64
  tflags :: u32

record sched =
  rq_current :: task_ref
  rq_idle :: task_ref
  rq_head :: "task_ref option"
  rq_tail :: "task_ref option"
  nr_running :: nat
  rq_clock :: u64
  tasks :: "task_ref \<Rightarrow> task"
  task_pool_index :: nat
  next_pid :: int
  page_mgr :: pmm
  mm_users :: "addr \<Rightarrow> int"
  user_space :: ptr

abbreviation (input) "PF_KTHREAD \<equiv> (1 :: u32)"
abbreviation (input) "PF_EXITING \<equiv> (2 :: u32)"
abbreviation (input) "PF_IDLE \<equiv> (4 :: u32)"
abbreviation (input) "PF_THREAD \<equiv> (32 :: u32)"
abbreviation (input) "CLONE_VM \<equiv> (256 :: u32)"
abbreviation (input) "CLONE_THREAD \<equiv> (65536 :: u32)"
abbreviation (input) "PRIO_DEFAULT \<equiv> (0 :: int)"
abbreviation (input) "TASK_COMM_LEN \<equiv> (16 :: nat)"
abbreviation (input) "KERNEL_STACK_SIZE \<equiv> (16384 :: nat)"

definition MAX_TASKS :: nat where "MAX_TASKS = 256"

definition zero_context :: cpu_context where
  "zero_context = \<lparr>x19 = 0, x20_28 = replicate 9 0, ctx_fp = 0, ctx_sp = 0, ctx_pc = 0\<rparr>"

text \<open>A task structure of zero bytes.\<close>

definition zero_task :: task where
  "zero_task = \<lparr>tstate = TASK_RUNNING, prio = 0, static_prio = 0, nice = 0, pid = 0, tgid = 0, uid = 0,
     gid = 0, comm = replicate TASK_COMM_LEN 0, cpu_ctx = zero_context, mm = None, active_mm = None,
     stack = None, stack_size = 0, parent = None, tnext = None, tprev = None, exit_code = 0,
     signals = None, pending_signals = 0, tflags = 0\<rparr>"

text \<open>The bytes of \<^verbatim>\<open>"swapper"\<close>.\<close>

definition init_task :: task where
  "init_task = zero_task\<lparr>prio := PRIO_DEFAULT, static_prio := PRIO_DEFAULT,
     comm := [115, 119, 97, 112, 112, 101, 114] @ replicate 9 0, tflags := PF_KTHREAD OR PF_IDLE\<rparr>"

definition set_task :: "sched \<Rightarrow> task_ref \<Rightarrow> (task \<Rightarrow> task) \<Rightarrow> sched" where
  "set_task s t f = s\<lparr>tasks := (tasks s)(t := f (tasks s t))\<rparr>"

section \<open>Operations\<close>

definition alloc_task :: "sched \<Rightarrow> sched \<times> task_ref option" where
  "alloc_task s =
     (if task_pool_index s \<ge> MAX_TASKS then (s, None)
      else let t = Pool_task (task_pool_index s) in
           (s\<lparr>task_pool_index := task_pool_index s + 1, tasks := (tasks s)(t := zero_task)\<rparr>, Some t))"

function stack_order :: "nat \<Rightarrow> nat \<Rightarrow> nat" where
  "stack_order sz order =
     (if PAGE_SIZE * 2 ^ order < sz \<and> order < 10 then stack_order sz (order + 1) else order)"
  by pat_completeness auto
termination by (relation "measure (\<lambda>(sz, order). 10 - order)") auto

declare stack_order.simps [simp del]

definition alloc_stack :: "sched \<Rightarrow> nat \<Rightarrow> (sched \<times> ptr) option" where
  "alloc_stack s sz = do {
     (pm, paddr) \<leftarrow> pmm_alloc_pages (page_mgr s) (stack_order sz 0);
     Some (s\<lparr>page_mgr := pm\<rparr>, if paddr = 0 then None else Some paddr)
   }"

definition enqueue_task :: "sched \<Rightarrow> task_ref \<Rightarrow> sched option" where
  "enqueue_task s0 t =
     (let s = set_task s0 t (\<lambda>x. x\<lparr>tstate := TASK_RUNNING\<rparr>) in
      if rq_head s = None
      then Some ((set_task s t (\<lambda>x. x\<lparr>tnext := None, tprev := None\<rparr>))
                   \<lparr>rq_head := Some t, rq_tail := Some t, nr_running := nr_running s + 1\<rparr>)
      else do {
        tl \<leftarrow> rq_tail s;
        let s1 = set_task s t (\<lambda>x. x\<lparr>tprev := Some tl, tnext := None\<rparr>);
        let s2 = set_task s1 tl (\<lambda>x. x\<lparr>tnext := Some t\<rparr>);
        Some (s2\<lparr>rq_tail := Some t, nr_running := nr_running s + 1\<rparr>)
      })"

definition dequeue_task :: "sched \<Rightarrow> task_ref \<Rightarrow> sched" where
  "dequeue_task s t =
     (let s1 = (case tprev (tasks s t) of
                  Some p \<Rightarrow> set_task s p (\<lambda>x. x\<lparr>tnext := tnext (tasks s t)\<rparr>)
                | None \<Rightarrow> s\<lparr>rq_head := tnext (tasks s t)\<rparr>);
          s2 = (case tnext (tasks s1 t) of
                  Some n \<Rightarrow> set_task s1 n (\<lambda>x. x\<lparr>tprev := tprev (tasks s1 t)\<rparr>)
                | None \<Rightarrow> s1\<lparr>rq_tail := tprev (tasks s1 t)\<rparr>);
          s3 = set_task s2 t (\<lambda>x. x\<lparr>tnext := None, tprev := None\<rparr>)
      in if nr_running s3 > 0 then s3\<lparr>nr_running := nr_running s3 - 1\<rparr> else s3)"

definition pick_next_task :: "sched \<Rightarrow> task_ref" where
  "pick_next_task s = (case rq_head s of None \<Rightarrow> rq_idle s | Some t \<Rightarrow> t)"

definition sched_init :: "sched \<Rightarrow> sched" where
  "sched_init s = s\<lparr>rq_current := Init_task, rq_idle := Init_task, rq_head := None, rq_tail := None,
     nr_running := 0, rq_clock := 0\<rparr>"

text \<open>
  The switch of the registers is in assembly; the state it leaves is that \<open>rq_current\<close> runs.
  \<open>user_space\<close> is the address space last given to \<open>vmm_switch_address_space\<close>.
\<close>

definition context_switch :: "sched \<Rightarrow> task_ref \<Rightarrow> task_ref \<Rightarrow> sched" where
  "context_switch s p n =
     (let s1 = (if mm (tasks s n) \<noteq> None \<and> mm (tasks s n) \<noteq> mm (tasks s p)
                then s\<lparr>user_space := mm (tasks s n)\<rparr> else s)
      in set_task s1 n (\<lambda>x. x\<lparr>active_mm := (if mm x \<noteq> None then mm x else active_mm (tasks s1 p))\<rparr>))"

definition schedule :: "sched \<Rightarrow> sched option" where
  "schedule s =
     (let p = rq_current s; n = pick_next_task s in
      if n = p then Some s
      else do {
        s1 \<leftarrow> (if tstate (tasks s p) = TASK_RUNNING \<and> p \<noteq> rq_idle s
              then enqueue_task (dequeue_task s p) p else Some s);
        Some (context_switch (s1\<lparr>rq_current := n\<rparr>) p n)
      })"

definition wake_up_process :: "sched \<Rightarrow> task_ref option \<Rightarrow> (sched \<times> int) option" where
  "wake_up_process s t =
     (case t of
        None \<Rightarrow> Some (s, 0)
      | Some t \<Rightarrow>
          if tstate (tasks s t) = TASK_RUNNING then Some (s, 0)
          else do {
            s1 \<leftarrow> enqueue_task (set_task s t (\<lambda>x. x\<lparr>tstate := TASK_RUNNING\<rparr>)) t;
            Some (s1, 1)
          })"

text \<open>The name a new task gets: \<^verbatim>\<open>"task"[i < 4 ? i : 0]\<close> for each of the first 15 characters.\<close>

definition task_name :: "byte list" where
  "task_name = map (\<lambda>i. [116, 97, 115, 107] ! (if i < 4 then i else 0)) [0..<TASK_COMM_LEN - 1] @ [0]"

definition create_task :: "sched \<Rightarrow> u64 \<Rightarrow> u64 \<Rightarrow> u32 \<Rightarrow> (sched \<times> task_ref option) option" where
  "create_task s entry arg flags =
     (case alloc_task s of
        (s1, None) \<Rightarrow> Some (s1, None)
      | (s1, Some t) \<Rightarrow> do {
          (s2, stk) \<leftarrow> alloc_stack s1 KERNEL_STACK_SIZE;
          (case stk of
             None \<Rightarrow> Some (s2, None)
           | Some stk \<Rightarrow> do {
               let s3 = (set_task s2 t (\<lambda>x. x\<lparr>tstate := TASK_RUNNING, prio := PRIO_DEFAULT,
                            static_prio := PRIO_DEFAULT, nice := 0, pid := next_pid s2, tgid := next_pid s2,
                            tflags := flags, stack := Some stk, stack_size := KERNEL_STACK_SIZE,
                            parent := Some (rq_current s2),
                            cpu_ctx := (cpu_ctx x)\<lparr>ctx_sp := of_nat stk + of_nat KERNEL_STACK_SIZE,
                                                   ctx_pc := entry, x19 := arg\<rparr>,
                            comm := task_name\<rparr>))\<lparr>next_pid := next_pid s2 + 1\<rparr>;
               s4 \<leftarrow> enqueue_task s3 t;
               Some (s4, Some t)
             })
        })"

text \<open>
  After \<open>exit_task\<close> the caller never runs again: the function halts the processor if \<open>schedule\<close>
  returns. The result is the state in which the next task runs.
\<close>

definition exit_task :: "sched \<Rightarrow> int \<Rightarrow> sched option" where
  "exit_task s code =
     (let c = rq_current s;
          s1 = set_task s c (\<lambda>x. x\<lparr>exit_code := code, tstate := TASK_ZOMBIE, tflags := tflags x OR PF_EXITING\<rparr>)
      in schedule (dequeue_task s1 c))"

definition thread_name :: "byte list \<Rightarrow> byte list" where
  "thread_name parent_comm =
     (let xs = takeWhile (\<lambda>c. c \<noteq> 0) (take (TASK_COMM_LEN - 10) parent_comm)
      in xs @ replicate (TASK_COMM_LEN - length xs) 0)"

text \<open>The stack of a thread: the one that is given, or a new one; false when there is no memory for it.\<close>

definition thread_stack :: "sched \<Rightarrow> task_ref \<Rightarrow> ptr \<Rightarrow> (sched \<times> bool) option" where
  "thread_stack s t stk =
     (case stk of
        Some a \<Rightarrow> Some (set_task s t (\<lambda>x. x\<lparr>stack := Some a, stack_size := 0,
                          cpu_ctx := (cpu_ctx x)\<lparr>ctx_sp := of_nat a\<rparr>\<rparr>), True)
      | None \<Rightarrow> do {
          (s1, r) \<leftarrow> alloc_stack s KERNEL_STACK_SIZE;
          (case r of
             None \<Rightarrow> Some (set_task s1 t (\<lambda>x. x\<lparr>stack := None\<rparr>), False)
           | Some a \<Rightarrow> Some (set_task s1 t (\<lambda>x. x\<lparr>stack := Some a, stack_size := KERNEL_STACK_SIZE,
                          cpu_ctx := (cpu_ctx x)\<lparr>ctx_sp := of_nat a + of_nat KERNEL_STACK_SIZE\<rparr>\<rparr>), True))
        })"

definition create_thread :: "sched \<Rightarrow> u64 \<Rightarrow> u64 \<Rightarrow> ptr \<Rightarrow> u32 \<Rightarrow> (sched \<times> int) option" where
  "create_thread s entry arg stk clone_flags =
     (let par = rq_current s in
      case alloc_task s of
        (s1, None) \<Rightarrow> Some (s1, - 1)
      | (s1, Some t) \<Rightarrow> do {
          let pt = tasks s1 par;
          let s2 = (set_task s1 t (\<lambda>x. x\<lparr>tstate := TASK_RUNNING, prio := prio pt, static_prio := static_prio pt,
                       nice := nice pt, pid := next_pid s1,
                       tgid := (if clone_flags AND CLONE_THREAD \<noteq> 0 then tgid pt else next_pid s1),
                       tflags := PF_THREAD, parent := Some par, uid := uid pt, gid := gid pt,
                       comm := thread_name (comm pt), mm := mm pt, active_mm := active_mm pt\<rparr>))
                     \<lparr>next_pid := next_pid s1 + 1\<rparr>;
          let s3 = (case mm pt of
                      Some m \<Rightarrow> if clone_flags AND CLONE_VM \<noteq> 0
                                then s2\<lparr>mm_users := (mm_users s2)(m := mm_users s2 m + 1)\<rparr> else s2
                    | None \<Rightarrow> s2);
          (s4, ok) \<leftarrow> thread_stack s3 t stk;
          if \<not> ok then Some (s4, - 1)
          else do {
            let s6 = set_task s4 t (\<lambda>x. x\<lparr>cpu_ctx := (cpu_ctx x)\<lparr>ctx_pc := entry, x19 := arg\<rparr>\<rparr>);
            s7 \<leftarrow> enqueue_task s6 t;
            Some (s7, pid (tasks s7 t))
          }
        })"

definition get_task_by_pid :: "sched \<Rightarrow> int \<Rightarrow> task_ref option" where
  "get_task_by_pid s p =
     (if pid (tasks s Init_task) = p then Some Init_task
      else map_option Pool_task
        (find (\<lambda>i. pid (tasks s (Pool_task i)) = p \<and> tstate (tasks s (Pool_task i)) \<noteq> TASK_DEAD)
           [0..<task_pool_index s]))"

definition sched_kill_task :: "sched \<Rightarrow> int \<Rightarrow> (sched \<times> int) option" where
  "sched_kill_task s p =
     (case get_task_by_pid s p of
        None \<Rightarrow> Some (s, - 3)
      | Some t \<Rightarrow>
          if pid (tasks s t) = 0 \<or> tflags (tasks s t) AND PF_IDLE \<noteq> 0 then Some (s, - 1)
          else do {
            let s1 = set_task s t (\<lambda>x. x\<lparr>tflags := tflags x OR PF_EXITING,
                                         pending_signals := pending_signals x OR push_bit 9 1\<rparr>);
            s2 \<leftarrow> (if tstate (tasks s1 t) = TASK_INTERRUPTIBLE \<or> tstate (tasks s1 t) = TASK_UNINTERRUPTIBLE
                  then enqueue_task (set_task s1 t (\<lambda>x. x\<lparr>tstate := TASK_RUNNING\<rparr>)) t
                  else Some s1);
            Some (s2, 0)
          })"

definition get_current :: "sched \<Rightarrow> task_ref" where
  "get_current s = rq_current s"

section \<open>The run queue as a list\<close>

definition rq_list :: "sched \<Rightarrow> task_ref list \<Rightarrow> bool" where
  "rq_list s q \<longleftrightarrow>
     dlist (\<lambda>t. tnext (tasks s t)) (\<lambda>t. tprev (tasks s t)) (rq_head s) q (rq_tail s) \<and>
     nr_running s = length q"

text \<open>A task without its links.\<close>

definition unlinked :: "task \<Rightarrow> task" where
  "unlinked x = x\<lparr>tnext := None, tprev := None\<rparr>"

text \<open>What queueing leaves alone: everything but the links and the queue's own fields.\<close>

definition rq_frame :: "sched \<Rightarrow> sched \<Rightarrow> bool" where
  "rq_frame s s' \<longleftrightarrow> rq_current s' = rq_current s \<and> rq_idle s' = rq_idle s \<and>
     task_pool_index s' = task_pool_index s \<and> next_pid s' = next_pid s \<and> page_mgr s' = page_mgr s \<and>
     mm_users s' = mm_users s \<and> user_space s' = user_space s"

lemma rq_list_unique: "rq_list s q \<Longrightarrow> rq_list s q' \<Longrightarrow> q = q'"
  by (auto simp: rq_list_def dest: dseg_unique)

lemma rq_list_distinct: "rq_list s q \<Longrightarrow> distinct q"
  by (auto simp: rq_list_def dest: dseg_distinct)

lemma rq_list_head: "rq_list s q \<Longrightarrow> rq_head s = (if q = [] then None else Some (hd q))"
  by (auto simp: rq_list_def dest: dlist_head)

lemma rq_list_tail: "rq_list s q \<Longrightarrow> rq_tail s = (if q = [] then None else Some (last q))"
  by (auto simp: rq_list_def dest: dlist_tail)

lemma enqueue_list:
  assumes q: "rq_list s q" and t: "t \<notin> set q"
  obtains s' where "enqueue_task s t = Some s'" and "rq_list s' (q @ [t])" and "rq_frame s s'"
    and "\<And>x. unlinked (tasks s' x) = unlinked (if x = t then (tasks s t)\<lparr>tstate := TASK_RUNNING\<rparr> else tasks s x)"
proof -
  have dl: "dlist (\<lambda>t. tnext (tasks s t)) (\<lambda>t. tprev (tasks s t)) (rq_head s) q (rq_tail s)"
    and nr: "nr_running s = length q"
    using q by (simp_all add: rq_list_def)
  define f where "f = (\<lambda>x. if x = t then (tasks s t)\<lparr>tstate := TASK_RUNNING, tprev := rq_tail s, tnext := None\<rparr>
      else if rq_tail s = Some x then (tasks s x)\<lparr>tnext := Some t\<rparr> else tasks s x)"
  define s' where "s' = s\<lparr>tasks := f, rq_head := (if q = [] then Some t else rq_head s),
      rq_tail := Some t, nr_running := nr_running s + 1\<rparr>"
  have tl: "rq_tail s \<noteq> Some t"
    using rq_list_tail [OF q] t by auto
  have "enqueue_task s t = Some s'"
  proof (cases "q = []")
    case True
    then have "rq_head s = None" "rq_tail s = None"
      using rq_list_head [OF q] rq_list_tail [OF q] by simp_all
    then show ?thesis
      using True by (simp add: enqueue_task_def set_task_def s'_def f_def Let_def fun_eq_iff)
  next
    case False
    then obtain h l where "rq_head s = Some h" "rq_tail s = Some l" "l \<noteq> t"
      using rq_list_head [OF q] rq_list_tail [OF q] tl by auto
    then show ?thesis
      using False by (simp add: enqueue_task_def set_task_def s'_def f_def Let_def fun_eq_iff)
  qed
  moreover have "dlist (\<lambda>t. tnext (f t)) (\<lambda>t. tprev (f t)) (if q = [] then Some t else rq_head s) (q @ [t]) (Some t)"
    by (rule dlist_append_last [OF dl t]) (use t in \<open>auto simp: f_def\<close>)
  then have "rq_list s' (q @ [t])"
    by (simp add: rq_list_def s'_def nr)
  moreover have "rq_frame s s'"
    by (simp add: rq_frame_def s'_def)
  moreover have "unlinked (tasks s' x) = unlinked (if x = t then (tasks s t)\<lparr>tstate := TASK_RUNNING\<rparr> else tasks s x)" for x
    by (simp add: s'_def f_def unlinked_def)
  ultimately show ?thesis
    using that by blast
qed

lemma dequeue_task_eq:
  fixes s t
  defines "p \<equiv> tprev (tasks s t)" and "n \<equiv> tnext (tasks s t)"
  assumes nb: "n \<noteq> Some t" "p \<noteq> Some t" "n = None \<or> n \<noteq> p" and nr: "0 < nr_running s"
  shows "dequeue_task s t = s\<lparr>tasks := (\<lambda>x. if x = t then (tasks s t)\<lparr>tnext := None, tprev := None\<rparr>
        else if p = Some x then (tasks s x)\<lparr>tnext := n\<rparr>
        else if n = Some x then (tasks s x)\<lparr>tprev := p\<rparr> else tasks s x),
      rq_head := (if p = None then n else rq_head s),
      rq_tail := (if n = None then p else rq_tail s), nr_running := nr_running s - 1\<rparr>"
proof -
  note defs = dequeue_task_def set_task_def Let_def fun_eq_iff
  show ?thesis
  proof (cases p)
    case p: None
    show ?thesis
    proof (cases n)
      case n: None
      show ?thesis using p n nr unfolding p_def n_def by (simp add: defs)
    next
      case n: (Some y)
      show ?thesis using p n nr nb unfolding p_def n_def by (simp add: defs)
    qed
  next
    case p: (Some z)
    show ?thesis
    proof (cases n)
      case n: None
      show ?thesis using p n nr nb unfolding p_def n_def by (simp add: defs)
    next
      case n: (Some y)
      show ?thesis using p n nr nb unfolding p_def n_def by (simp add: defs)
    qed
  qed
qed

lemma dequeue_list:
  assumes q: "rq_list s (as @ t # bs)"
  shows "rq_list (dequeue_task s t) (as @ bs)" and "rq_frame s (dequeue_task s t)"
    and "unlinked (tasks (dequeue_task s t) x) = unlinked (tasks s x)"
proof -
  let ?p = "tprev (tasks s t)" and ?n = "tnext (tasks s t)"
  have dl: "dlist (\<lambda>t. tnext (tasks s t)) (\<lambda>t. tprev (tasks s t)) (rq_head s) (as @ t # bs) (rq_tail s)"
    and nr: "nr_running s = Suc (length as + length bs)"
    using q by (simp_all add: rq_list_def)
  have nb: "?n \<noteq> Some t" "?p \<noteq> Some t" "?n = None \<or> ?n \<noteq> ?p"
    using dlist_neighbours(1,2) [OF dl] dlist_neighbours(5) [OF dl] by (simp, simp, metis option.exhaust)
  define f where "f = (\<lambda>x. if x = t then (tasks s t)\<lparr>tnext := None, tprev := None\<rparr>
      else if ?p = Some x then (tasks s x)\<lparr>tnext := ?n\<rparr>
      else if ?n = Some x then (tasks s x)\<lparr>tprev := ?p\<rparr> else tasks s x)"
  have eq: "dequeue_task s t = s\<lparr>tasks := f, rq_head := (if ?p = None then ?n else rq_head s),
      rq_tail := (if ?n = None then ?p else rq_tail s), nr_running := nr_running s - 1\<rparr>"
    unfolding f_def using nb nr by (intro dequeue_task_eq) simp_all
  have dist: "t \<notin> set (as @ bs)"
    using dseg_distinct [OF dl] by auto
  have "dlist (\<lambda>t. tnext (f t)) (\<lambda>t. tprev (f t)) (if ?p = None then ?n else rq_head s) (as @ bs)
      (if ?n = None then ?p else rq_tail s)"
    by (rule dlist_remove [OF dl]) (use dist dlist_neighbours(5) [OF dl] in \<open>auto simp: f_def\<close>)
  then show "rq_list (dequeue_task s t) (as @ bs)"
    by (simp add: rq_list_def eq nr)
  show "rq_frame s (dequeue_task s t)"
    by (simp add: rq_frame_def eq)
  show "unlinked (tasks (dequeue_task s t) x) = unlinked (tasks s x)"
    by (simp add: eq f_def unlinked_def)
qed

section \<open>The contract of a queue of tasks\<close>

text \<open>
  What the scheduler relies on: queueing appends a task that is not queued yet, removing takes a
  queued task out. Moving a queued task to the end is then a rotation.
\<close>

locale linked_queue =
  fixes repr :: "'s \<Rightarrow> 'a list \<Rightarrow> bool" and enq :: "'s \<Rightarrow> 'a \<Rightarrow> 's option" and deq :: "'s \<Rightarrow> 'a \<Rightarrow> 's"
  assumes repr_distinct: "repr s q \<Longrightarrow> distinct q"
    and enq_appends: "repr s q \<Longrightarrow> t \<notin> set q \<Longrightarrow> \<exists>s'. enq s t = Some s' \<and> repr s' (q @ [t])"
    and deq_removes: "repr s q \<Longrightarrow> t \<in> set q \<Longrightarrow> repr (deq s t) (remove1 t q)"
begin

lemma requeue:
  assumes "repr s q" and "t \<in> set q"
  shows "\<exists>s'. enq (deq s t) t = Some s' \<and> repr s' (remove1 t q @ [t])"
proof (rule enq_appends)
  show "repr (deq s t) (remove1 t q)" and "t \<notin> set (remove1 t q)"
    using assms deq_removes repr_distinct [OF assms(1)] by auto
qed

lemma rotate_head:
  "repr s (t # q) \<Longrightarrow> \<exists>s'. enq (deq s t) t = Some s' \<and> repr s' (rotate1 (t # q))"
  using requeue [of s "t # q" t] by simp

end

interpretation run_queue: linked_queue rq_list enqueue_task dequeue_task
proof
  show "rq_list s q \<Longrightarrow> distinct q" for s q
    by (rule rq_list_distinct)
  show "rq_list s q \<Longrightarrow> t \<notin> set q \<Longrightarrow> \<exists>s'. enqueue_task s t = Some s' \<and> rq_list s' (q @ [t])" for s q t
    by (erule enqueue_list) auto
  show "rq_list (dequeue_task s t) (remove1 t q)" if "rq_list s q" "t \<in> set q" for s q t
  proof -
    from that(2) obtain as bs where q: "q = as @ t # bs" "t \<notin> set as"
      by (meson split_list_first)
    then have "remove1 t q = as @ bs"
      by (simp add: remove1_append)
    with dequeue_list(1) [of s as t bs] that(1) q show ?thesis by simp
  qed
qed

section \<open>The invariant of the scheduler\<close>

definition pids_ok :: "sched \<Rightarrow> bool" where
  "pids_ok s \<longleftrightarrow> pid (tasks s Init_task) = 0 \<and> 0 < next_pid s \<and>
     (\<forall>i < task_pool_index s. 0 \<le> pid (tasks s (Pool_task i)) \<and> pid (tasks s (Pool_task i)) < next_pid s) \<and>
     (\<forall>i < task_pool_index s. \<forall>j < task_pool_index s.
        i \<noteq> j \<and> pid (tasks s (Pool_task i)) \<noteq> 0 \<longrightarrow> pid (tasks s (Pool_task i)) \<noteq> pid (tasks s (Pool_task j)))"

definition sched_wf :: "sched \<Rightarrow> task_ref list \<Rightarrow> bool" where
  "sched_wf s q \<longleftrightarrow> rq_list s q \<and> set q \<subseteq> Pool_task ` {..<task_pool_index s} \<and>
     task_pool_index s \<le> MAX_TASKS \<and> rq_idle s = Init_task \<and>
     (rq_current s = Init_task \<or> q \<noteq> [] \<and> rq_current s = hd q) \<and> early_mode (page_mgr s) \<and> pids_ok s"

definition sched_inv :: "sched \<Rightarrow> bool" where
  "sched_inv s \<longleftrightarrow> (\<exists>q. sched_wf s q)"

lemma sched_init_inv:
  assumes "tasks s Init_task = init_task" and "task_pool_index s = 0" and "next_pid s = 1"
    and "early_mode (page_mgr s)"
  shows "sched_wf (sched_init s) []"
  using assms by (simp add: sched_wf_def rq_list_def sched_init_def pids_ok_def init_task_def zero_task_def)

lemma Init_not_queued: "sched_wf s q \<Longrightarrow> Init_task \<notin> set q"
  by (auto simp: sched_wf_def)

text \<open>Changing a task that is not queued does not touch the queue, nor does changing other fields of
  a queued one.\<close>

lemma rq_list_set_task:
  assumes "t \<notin> set q \<or> (\<forall>x. tnext (f x) = tnext x \<and> tprev (f x) = tprev x)"
  shows "rq_list (set_task s t f) q \<longleftrightarrow> rq_list s q"
proof -
  have "dlist (\<lambda>x. tnext (tasks (set_task s t f) x)) (\<lambda>x. tprev (tasks (set_task s t f) x)) (rq_head s) q (rq_tail s)
      = dlist (\<lambda>x. tnext (tasks s x)) (\<lambda>x. tprev (tasks s x)) (rq_head s) q (rq_tail s)"
    using assms by (intro dseg_cong) (auto simp: set_task_def)
  then show ?thesis
    by (simp add: rq_list_def) (simp add: set_task_def)
qed

lemma set_task_fields [simp]:
  "rq_current (set_task s t f) = rq_current s" "rq_idle (set_task s t f) = rq_idle s"
  "rq_head (set_task s t f) = rq_head s" "rq_tail (set_task s t f) = rq_tail s"
  "nr_running (set_task s t f) = nr_running s" "task_pool_index (set_task s t f) = task_pool_index s"
  "next_pid (set_task s t f) = next_pid s" "page_mgr (set_task s t f) = page_mgr s"
  "tasks (set_task s t f) = (tasks s)(t := f (tasks s t))"
  by (simp_all add: set_task_def)

lemma rq_list_irrelevant [simp]:
  "rq_list (s\<lparr>page_mgr := pm\<rparr>) q = rq_list s q" "rq_list (s\<lparr>next_pid := n\<rparr>) q = rq_list s q"
  "rq_list (s\<lparr>mm_users := u\<rparr>) q = rq_list s q" "rq_list (s\<lparr>user_space := sp\<rparr>) q = rq_list s q"
  "rq_list (s\<lparr>rq_current := c\<rparr>) q = rq_list s q" "rq_list (s\<lparr>task_pool_index := i\<rparr>) q = rq_list s q"
  by (simp_all add: rq_list_def)

lemma pids_ok_cong:
  assumes "\<And>x. pid (tasks s' x) = pid (tasks s x)" and "task_pool_index s' = task_pool_index s"
    and "next_pid s' = next_pid s"
  shows "pids_ok s' = pids_ok s"
  by (simp add: pids_ok_def assms)

lemma unlinked_pid: "unlinked x = unlinked y \<Longrightarrow> pid x = pid y"
  unfolding unlinked_def by (metis task.select_convs(5) task.surjective task.update_convs(16,17))

lemma unlinked_tstate: "unlinked x = unlinked y \<Longrightarrow> tstate x = tstate y"
  unfolding unlinked_def by (metis task.select_convs(1) task.surjective task.update_convs(16,17))

section \<open>Scheduling\<close>

lemma pick_next_list: "rq_list s q \<Longrightarrow> pick_next_task s = (if q = [] then rq_idle s else hd q)"
  by (simp add: pick_next_task_def rq_list_head)

lemma context_switch_keeps:
  "rq_list (context_switch s a b) q = rq_list s q"
  "rq_current (context_switch s a b) = rq_current s" "rq_idle (context_switch s a b) = rq_idle s"
  "task_pool_index (context_switch s a b) = task_pool_index s" "next_pid (context_switch s a b) = next_pid s"
  "page_mgr (context_switch s a b) = page_mgr s" "pid (tasks (context_switch s a b) x) = pid (tasks s x)"
  "tstate (tasks (context_switch s a b) x) = tstate (tasks s x)"
  by (auto simp: context_switch_def Let_def rq_list_set_task)

text \<open>A task that runs is at the head of the queue, and \<open>schedule\<close> picks the head.\<close>

lemma schedule_running: "sched_wf s q \<Longrightarrow> rq_current s \<noteq> Init_task \<Longrightarrow> schedule s = Some s"
  by (auto simp: schedule_def sched_wf_def pick_next_list Let_def)

text \<open>When the processor is not held by a queued task, the head of the queue gets it.\<close>

lemma schedule_switch:
  assumes q: "rq_list s q" and c: "rq_current s \<notin> set q" and idle: "rq_idle s = Init_task"
    and st: "tstate (tasks s (rq_current s)) \<noteq> TASK_RUNNING \<or> rq_current s = Init_task"
  obtains s' where "schedule s = Some s'" and "rq_list s' q"
    and "rq_current s' = (if q = [] then Init_task else hd q)" and "rq_idle s' = Init_task"
    and "task_pool_index s' = task_pool_index s" and "next_pid s' = next_pid s" and "page_mgr s' = page_mgr s"
    and "\<And>x. pid (tasks s' x) = pid (tasks s x)" and "\<And>x. tstate (tasks s' x) = tstate (tasks s x)"
proof (cases "pick_next_task s = rq_current s")
  case True
  then have "schedule s = Some s"
    by (simp add: schedule_def)
  moreover have "rq_current s = (if q = [] then Init_task else hd q)"
    using True idle pick_next_list [OF q] by (auto split: if_splits)
  ultimately show ?thesis
    using that q idle by blast
next
  case False
  let ?n = "pick_next_task s"
  have "schedule s = Some (context_switch (s\<lparr>rq_current := ?n\<rparr>) (rq_current s) ?n)"
    using False st idle by (auto simp: schedule_def Let_def)
  then show ?thesis
    by (rule that) (use q idle pick_next_list [OF q] in \<open>simp_all add: context_switch_keeps\<close>)
qed

lemma schedule_wf:
  assumes wf: "sched_wf s q"
  obtains s' where "schedule s = Some s'" and "sched_wf s' q"
    and "rq_current s \<noteq> Init_task \<Longrightarrow> s' = s"
proof (cases "rq_current s = Init_task")
  case True
  have 1: "rq_list s q" "rq_current s \<notin> set q" "rq_idle s = Init_task"
      "tstate (tasks s (rq_current s)) \<noteq> TASK_RUNNING \<or> rq_current s = Init_task"
    using True wf Init_not_queued [OF wf] by (auto simp: sched_wf_def)
  show ?thesis
  proof (rule schedule_switch [OF 1])
    fix s' assume "schedule s = Some s'" "rq_list s' q" "rq_current s' = (if q = [] then Init_task else hd q)"
      "rq_idle s' = Init_task" "task_pool_index s' = task_pool_index s" "next_pid s' = next_pid s"
      "page_mgr s' = page_mgr s" and pids: "\<And>x. pid (tasks s' x) = pid (tasks s x)"
    moreover have "pids_ok s' = pids_ok s"
      using calculation by (intro pids_ok_cong) auto
    ultimately show ?thesis
      using that True wf by (auto simp: sched_wf_def)
  qed
next
  case False
  with wf that schedule_running show ?thesis by blast
qed

text \<open>The running task leaves.\<close>

lemma exit_task_wf:
  assumes wf: "sched_wf s q" and run: "rq_current s \<noteq> Init_task"
  obtains s' where "exit_task s code = Some s'" and "sched_wf s' (tl q)"
    and "rq_current s' = (if tl q = [] then Init_task else hd (tl q))"
    and "tstate (tasks s' (rq_current s)) = TASK_ZOMBIE"
proof -
  let ?c = "rq_current s"
  define s1 where "s1 = set_task s ?c (\<lambda>x. x\<lparr>exit_code := code, tstate := TASK_ZOMBIE, tflags := tflags x OR PF_EXITING\<rparr>)"
  from wf run obtain q' where q: "q = ?c # q'" and rq: "rq_list s q"
    by (cases q) (auto simp: sched_wf_def)
  have dist: "?c \<notin> set q'"
    using rq_list_distinct [OF rq] q by simp
  have "rq_list s1 ([] @ ?c # q')"
    using rq q by (simp add: s1_def rq_list_set_task)
  note dq = dequeue_list [OF this]
  let ?s = "dequeue_task s1 ?c"
  have cur: "rq_current ?s = ?c" "rq_idle ?s = Init_task" "task_pool_index ?s = task_pool_index s"
      "next_pid ?s = next_pid s" "page_mgr ?s = page_mgr s"
    using dq(2) wf by (simp_all add: rq_frame_def s1_def sched_wf_def)
  have pids: "pid (tasks ?s x) = pid (tasks s x)" for x
    using unlinked_pid [OF dq(3), of x] by (simp add: s1_def)
  have zombie: "tstate (tasks ?s ?c) = TASK_ZOMBIE"
    using unlinked_tstate [OF dq(3), of ?c] by (simp add: s1_def)
  show ?thesis
  proof (rule schedule_switch [of ?s q'])
    fix s' assume *: "schedule ?s = Some s'" "rq_list s' q'" "rq_current s' = (if q' = [] then Init_task else hd q')"
      "rq_idle s' = Init_task" "task_pool_index s' = task_pool_index ?s" "next_pid s' = next_pid ?s"
      "page_mgr s' = page_mgr ?s" and p: "\<And>x. pid (tasks s' x) = pid (tasks ?s x)"
      and t: "\<And>x. tstate (tasks s' x) = tstate (tasks ?s x)"
    have "pids_ok s' = pids_ok s"
      using * p pids cur by (intro pids_ok_cong) auto
    with * cur wf q have "sched_wf s' (tl q)"
      by (auto simp: sched_wf_def)
    with * q t zombie that show ?thesis
      by (auto simp: exit_task_def Let_def s1_def)
  qed (use dq(1) dist cur zombie in simp_all)
qed

section \<open>Creating tasks\<close>

lemma pmm_alloc_early:
  "early_mode s \<Longrightarrow> \<exists>s' a. pmm_alloc_pages s order = Some (s', a) \<and> early_mode s'"
  by (auto simp: pmm_alloc_pages_def Let_def fold_mark_array split: option.splits)

lemma alloc_stack_early:
  assumes "early_mode (page_mgr s)"
  obtains pm r where "alloc_stack s n = Some (s\<lparr>page_mgr := pm\<rparr>, r)" and "early_mode pm"
  using pmm_alloc_early [OF assms, of "stack_order n 0"] by (auto simp: alloc_stack_def)

text \<open>A pool entry that was just taken: not queued, without a pid.\<close>

definition fresh_task :: "sched \<Rightarrow> sched \<Rightarrow> task_ref \<Rightarrow> bool" where
  "fresh_task s s1 t \<longleftrightarrow> t = Pool_task (task_pool_index s) \<and> task_pool_index s < MAX_TASKS \<and>
     s1 = s\<lparr>task_pool_index := task_pool_index s + 1, tasks := (tasks s)(t := zero_task)\<rparr>"

lemma alloc_task_cases:
  obtains (full) "alloc_task s = (s, None)" | (fresh) s1 t where "alloc_task s = (s1, Some t)" and "fresh_task s s1 t"
  by (cases "task_pool_index s \<ge> MAX_TASKS") (auto simp: alloc_task_def fresh_task_def Let_def)

lemma fresh_task_wf:
  assumes wf: "sched_wf s q" and fr: "fresh_task s s1 t"
  shows "sched_wf s1 q" and "t \<notin> set q" and "t \<noteq> rq_current s1" and "t \<noteq> Init_task"
    and "rq_current s1 = rq_current s" and "pid (tasks s1 t) = 0" and "\<exists>i < task_pool_index s1. t = Pool_task i"
proof -
  have t: "t = Pool_task (task_pool_index s)" and s1: "s1 = s\<lparr>task_pool_index := task_pool_index s + 1, tasks := (tasks s)(t := zero_task)\<rparr>"
    and le: "task_pool_index s < MAX_TASKS"
    using fr by (simp_all add: fresh_task_def)
  show nq: "t \<notin> set q" and "t \<noteq> Init_task"
    using wf t by (auto simp: sched_wf_def)
  have "rq_list (set_task s t (\<lambda>_. zero_task)) q"
    using wf nq by (subst rq_list_set_task) (simp_all add: sched_wf_def)
  then have "rq_list s1 q"
    by (simp add: rq_list_def s1)
  moreover have "pids_ok s1"
    using wf by (auto simp: sched_wf_def pids_ok_def s1 t zero_task_def less_Suc_eq)
  ultimately show "sched_wf s1 q"
    using wf le by (auto simp: sched_wf_def s1)
  show "t \<noteq> rq_current s1"
    using wf t nq by (cases q) (auto simp: sched_wf_def s1)
  show "rq_current s1 = rq_current s" and "pid (tasks s1 t) = 0" and "\<exists>i < task_pool_index s1. t = Pool_task i"
    by (simp_all add: s1 t zero_task_def)
qed

text \<open>Giving the fresh task the next pid, and queueing it.\<close>

lemma pids_ok_assign:
  assumes "pids_ok s" and "t = Pool_task i" and "i < task_pool_index s"
    and "pid (f (tasks s t)) = next_pid s"
  shows "pids_ok ((set_task s t f)\<lparr>next_pid := next_pid s + 1\<rparr>)"
  using assms by (fastforce simp: pids_ok_def)

lemma enqueue_wf:
  assumes wf: "sched_wf s q" and t: "t \<notin> set q" "\<exists>i < task_pool_index s. t = Pool_task i"
  obtains s' where "enqueue_task s t = Some s'" and "sched_wf s' (q @ [t])" and "rq_current s' = rq_current s"
    and "pid (tasks s' t) = pid (tasks s t)"
proof -
  have rq: "rq_list s q"
    using wf by (simp add: sched_wf_def)
  show ?thesis
  proof (rule enqueue_list [OF rq t(1)])
    fix s' assume e: "enqueue_task s t = Some s'" "rq_list s' (q @ [t])" "rq_frame s s'"
      and un: "\<And>x. unlinked (tasks s' x) = unlinked (if x = t then (tasks s t)\<lparr>tstate := TASK_RUNNING\<rparr> else tasks s x)"
    have pids: "pid (tasks s' x) = pid (tasks s x)" for x
      using unlinked_pid [OF un, of x] by (simp split: if_splits)
    have "pids_ok s' = pids_ok s"
      using e(3) pids by (intro pids_ok_cong) (auto simp: rq_frame_def)
    with wf e t(2) have "sched_wf s' (q @ [t])"
      by (auto simp: sched_wf_def rq_frame_def)
    with that e pids show ?thesis
      by (auto simp: rq_frame_def)
  qed
qed

lemma sched_wf_irrelevant:
  "early_mode pm \<Longrightarrow> sched_wf s q \<Longrightarrow> sched_wf (s\<lparr>page_mgr := pm\<rparr>) q"
  "sched_wf (s\<lparr>mm_users := u\<rparr>) q = sched_wf s q"
  by (auto simp: sched_wf_def pids_ok_def)

lemma sched_wf_set_task:
  assumes "sched_wf s q" and "t \<notin> set q \<or> (\<forall>x. tnext (f x) = tnext x \<and> tprev (f x) = tprev x)"
    and "pid (f (tasks s t)) = pid (tasks s t)"
  shows "sched_wf (set_task s t f) q"
proof -
  have "pids_ok (set_task s t f) = pids_ok s"
    using assms(3) by (intro pids_ok_cong) auto
  with assms(1,2) show ?thesis
    by (simp add: sched_wf_def rq_list_set_task)
qed

lemma create_task_wf:
  assumes wf: "sched_wf s q"
  obtains s' r q' where "create_task s entry arg flags = Some (s', r)" and "sched_wf s' q'"
    and "rq_current s' = rq_current s" and "q' = (case r of None \<Rightarrow> q | Some t \<Rightarrow> q @ [t])"
    and "case r of None \<Rightarrow> True | Some t \<Rightarrow> t \<notin> set q \<and> pid (tasks s' t) = next_pid s"
proof (cases rule: alloc_task_cases [of s])
  case full
  with wf that [of s None q] show ?thesis by (simp add: create_task_def)
next
  case (fresh s1 t)
  note f = fresh_task_wf [OF wf fresh(2)]
  have em: "early_mode (page_mgr s1)"
    using f(1) by (simp add: sched_wf_def)
  have np: "next_pid s1 = next_pid s"
    using fresh(2) by (simp add: fresh_task_def)
  obtain pm r where st: "alloc_stack s1 KERNEL_STACK_SIZE = Some (s1\<lparr>page_mgr := pm\<rparr>, r)" "early_mode pm"
    by (rule alloc_stack_early [OF em, of KERNEL_STACK_SIZE])
  let ?s2 = "s1\<lparr>page_mgr := pm\<rparr>"
  have wf2: "sched_wf ?s2 q"
    using f(1) st(2) by (rule sched_wf_irrelevant(1) [rotated])
  show ?thesis
  proof (cases r)
    case None
    with fresh st(1) wf2 f(5) that [of ?s2 None q] show ?thesis by (simp add: create_task_def)
  next
    case (Some stk)
    define g where "g = (\<lambda>x. x\<lparr>tstate := TASK_RUNNING, prio := PRIO_DEFAULT,
        static_prio := PRIO_DEFAULT, nice := 0, pid := next_pid ?s2, tgid := next_pid ?s2,
        tflags := flags, stack := Some stk, stack_size := KERNEL_STACK_SIZE,
        parent := Some (rq_current ?s2),
        cpu_ctx := (cpu_ctx x)\<lparr>ctx_sp := of_nat stk + of_nat KERNEL_STACK_SIZE, ctx_pc := entry, x19 := arg\<rparr>,
        comm := task_name\<rparr> :: task)"
    let ?s3 = "(set_task ?s2 t g)\<lparr>next_pid := next_pid ?s2 + 1\<rparr>"
    obtain i where i: "i < task_pool_index ?s2" "t = Pool_task i"
      using f(7) by auto
    have "pids_ok ?s3"
      using wf2 i by (intro pids_ok_assign) (auto simp: g_def sched_wf_def)
    then have "sched_wf ?s3 q"
      using wf2 f(2) by (simp add: sched_wf_def rq_list_set_task)
    then obtain s4 where "enqueue_task ?s3 t = Some s4" "sched_wf s4 (q @ [t])" "rq_current s4 = rq_current ?s3"
        "pid (tasks s4 t) = pid (tasks ?s3 t)"
      using i by (elim enqueue_wf [OF _ f(2)]) auto
    with fresh st(1) Some f np show ?thesis
      by (intro that [of s4 "Some t" "q @ [t]"]) (simp_all add: create_task_def g_def Let_def)
  qed
qed

lemma thread_stack_wf:
  assumes wf: "sched_wf s q" and t: "t \<notin> set q"
  obtains s' ok where "thread_stack s t stk = Some (s', ok)" and "sched_wf s' q"
    and "rq_current s' = rq_current s" and "task_pool_index s' = task_pool_index s"
proof (cases stk)
  case (Some a)
  let ?s = "set_task s t (\<lambda>x. x\<lparr>stack := Some a, stack_size := 0, cpu_ctx := (cpu_ctx x)\<lparr>ctx_sp := of_nat a\<rparr>\<rparr>)"
  have "sched_wf ?s q"
    using wf t by (intro sched_wf_set_task) simp_all
  then show ?thesis
    by (rule that [rotated]) (simp_all add: thread_stack_def Some)
next
  case None
  have em: "early_mode (page_mgr s)"
    using wf by (simp add: sched_wf_def)
  obtain pm r where a: "alloc_stack s KERNEL_STACK_SIZE = Some (s\<lparr>page_mgr := pm\<rparr>, r)" "early_mode pm"
    by (rule alloc_stack_early [OF em, of KERNEL_STACK_SIZE])
  have wf': "sched_wf (s\<lparr>page_mgr := pm\<rparr>) q"
    using wf a(2) by (rule sched_wf_irrelevant(1) [rotated])
  define g where "g = (case r of
      None \<Rightarrow> (\<lambda>x. x\<lparr>stack := None\<rparr>)
    | Some a \<Rightarrow> (\<lambda>x. x\<lparr>stack := Some a, stack_size := KERNEL_STACK_SIZE,
        cpu_ctx := (cpu_ctx x)\<lparr>ctx_sp := of_nat a + of_nat KERNEL_STACK_SIZE\<rparr>\<rparr> :: task))"
  have "sched_wf (set_task (s\<lparr>page_mgr := pm\<rparr>) t g) q"
    using wf' t by (intro sched_wf_set_task) (simp_all add: g_def split: option.split)
  then show ?thesis
    by (rule that [rotated, where ok = "r \<noteq> None"])
      (use None a(1) in \<open>simp_all add: thread_stack_def g_def split: option.split\<close>)
qed

lemma create_thread_wf:
  assumes wf: "sched_wf s q"
  obtains s' r q' where "create_thread s entry arg stk flags = Some (s', r)" and "sched_wf s' q'"
    and "rq_current s' = rq_current s"
proof (cases rule: alloc_task_cases [of s])
  case full
  with wf that [of s "- 1" q] show ?thesis by (simp add: create_thread_def)
next
  case (fresh s1 t)
  note f = fresh_task_wf [OF wf fresh(2)]
  let ?pt = "tasks s1 (rq_current s)"
  define g where "g = (\<lambda>x. x\<lparr>tstate := TASK_RUNNING, prio := prio ?pt, static_prio := static_prio ?pt,
      nice := nice ?pt, pid := next_pid s1, tgid := (if flags AND CLONE_THREAD \<noteq> 0 then tgid ?pt else next_pid s1),
      tflags := PF_THREAD, parent := Some (rq_current s), uid := uid ?pt, gid := gid ?pt,
      comm := thread_name (comm ?pt), mm := mm ?pt, active_mm := active_mm ?pt\<rparr> :: task)"
  let ?s2 = "(set_task s1 t g)\<lparr>next_pid := next_pid s1 + 1\<rparr>"
  define s3 where "s3 = (case mm ?pt of
      Some m \<Rightarrow> if flags AND CLONE_VM \<noteq> 0 then ?s2\<lparr>mm_users := (mm_users ?s2)(m := mm_users ?s2 m + 1)\<rparr> else ?s2
    | None \<Rightarrow> ?s2)"
  obtain i where i: "i < task_pool_index s1" "t = Pool_task i"
    using f(7) by auto
  have "pids_ok ?s2"
    using f(1) i by (intro pids_ok_assign) (auto simp: g_def sched_wf_def)
  then have "sched_wf ?s2 q"
    using f(1,2) by (simp add: sched_wf_def rq_list_set_task)
  then have wf3: "sched_wf s3 q" and cur3: "rq_current s3 = rq_current s" "task_pool_index s3 = task_pool_index s1"
    using f(5) by (auto simp: s3_def sched_wf_irrelevant split: option.splits)
  obtain s4 ok where st: "thread_stack s3 t stk = Some (s4, ok)" and wf4: "sched_wf s4 q"
      "rq_current s4 = rq_current s" "task_pool_index s4 = task_pool_index s1"
    by (rule thread_stack_wf [OF wf3 f(2), of stk]) (use cur3 in auto)
  let ?s6 = "set_task s4 t (\<lambda>x. x\<lparr>cpu_ctx := (cpu_ctx x)\<lparr>ctx_pc := entry, x19 := arg\<rparr>\<rparr>)"
  have "sched_wf ?s6 q"
    using wf4(1) f(2) by (intro sched_wf_set_task) auto
  then obtain s7 where s7: "enqueue_task ?s6 t = Some s7" "sched_wf s7 (q @ [t])" "rq_current s7 = rq_current ?s6"
    using i wf4(3) by (elim enqueue_wf [OF _ f(2)]) auto
  have "create_thread s entry arg stk flags = (if ok then Some (s7, pid (tasks s7 t)) else Some (s4, - 1))"
    unfolding create_thread_def Let_def fresh(1) prod.case option.case
      g_def [symmetric] s3_def [symmetric] st
    using s7(1) by simp
  then show ?thesis
    using that s7(2,3) wf4 by (cases ok) auto
qed

section \<open>Runs of the scheduler\<close>

text \<open>
  What can happen between two tasks' turns: tasks and threads are created, the scheduler is called,
  the running task gives itself another state and calls the scheduler (as \<open>do_waitpid\<close> and the stop
  signals do), and a task that is not asleep is killed.
\<close>

inductive sched_op :: "sched \<Rightarrow> sched \<Rightarrow> bool" where
  create: "create_task s entry arg flags = Some (s', r) \<Longrightarrow> sched_op s s'"
| thread: "create_thread s entry arg stk flags = Some (s', r) \<Longrightarrow> sched_op s s'"
| resched: "schedule s = Some s' \<Longrightarrow> sched_op s s'"
| block: "rq_current s \<noteq> Init_task \<Longrightarrow>
    schedule (set_task s (rq_current s) (\<lambda>x. x\<lparr>tstate := st\<rparr>)) = Some s' \<Longrightarrow> sched_op s s'"
| kill: "(\<forall>t. get_task_by_pid s p = Some t \<longrightarrow>
      tstate (tasks s t) \<noteq> TASK_INTERRUPTIBLE \<and> tstate (tasks s t) \<noteq> TASK_UNINTERRUPTIBLE) \<Longrightarrow>
    sched_kill_task s p = Some (s', r) \<Longrightarrow> sched_op s s'"

text \<open>Such a step, or the running task exits.\<close>

inductive sched_step :: "sched \<Rightarrow> sched \<Rightarrow> bool" where
  op: "sched_op s s' \<Longrightarrow> sched_step s s'"
| leave: "rq_current s \<noteq> Init_task \<Longrightarrow> exit_task s code = Some s' \<Longrightarrow> sched_step s s'"

lemma sched_kill_wf:
  assumes wf: "sched_wf s q"
    and awake: "\<forall>t. get_task_by_pid s p = Some t \<longrightarrow>
      tstate (tasks s t) \<noteq> TASK_INTERRUPTIBLE \<and> tstate (tasks s t) \<noteq> TASK_UNINTERRUPTIBLE"
    and k: "sched_kill_task s p = Some (s', r)"
  shows "sched_wf s' q" and "rq_current s' = rq_current s"
proof -
  have "sched_wf (set_task s t (\<lambda>x. x\<lparr>tflags := tflags x OR PF_EXITING,
      pending_signals := pending_signals x OR push_bit 9 1\<rparr>)) q" for t
    using wf by (intro sched_wf_set_task) simp_all
  then show "sched_wf s' q" and "rq_current s' = rq_current s"
    using k wf awake by (auto simp: sched_kill_task_def Let_def split: option.splits if_splits)
qed

lemma sched_op_wf:
  assumes "sched_op s s'" and wf: "sched_wf s q"
  shows "sched_inv s' \<and> (rq_current s \<noteq> Init_task \<longrightarrow> rq_current s' = rq_current s)"
  using assms(1)
proof cases
  case (create entry arg flags r)
  with create_task_wf [OF wf] show ?thesis
    unfolding sched_inv_def by (metis option.inject prod.inject)
next
  case (thread entry arg stk flags r)
  with create_thread_wf [OF wf] show ?thesis
    unfolding sched_inv_def by (metis option.inject prod.inject)
next
  case resched
  with schedule_wf [OF wf] show ?thesis
    unfolding sched_inv_def by (metis option.inject)
next
  case (block st)
  have "sched_wf (set_task s (rq_current s) (\<lambda>x. x\<lparr>tstate := st\<rparr>)) q"
    using wf by (intro sched_wf_set_task) simp_all
  with schedule_running [of _ q] block show ?thesis
    unfolding sched_inv_def by (metis option.inject set_task_fields(1))
next
  case (kill p r)
  with sched_kill_wf [OF wf] show ?thesis
    unfolding sched_inv_def by metis
qed

lemma sched_step_inv:
  assumes "sched_step s s'" and "sched_inv s"
  shows "sched_inv s'"
proof -
  from assms(2) obtain q where wf: "sched_wf s q"
    unfolding sched_inv_def by blast
  from assms(1) show ?thesis
  proof cases
    case op
    with sched_op_wf [OF _ wf] show ?thesis by blast
  next
    case (leave code)
    with exit_task_wf [OF wf] show ?thesis
      unfolding sched_inv_def by (metis option.inject)
  qed
qed

text \<open>Queueing a task that is in the queue already: it becomes the tail and loses its successors, while
  its old predecessor still points to it.\<close>

lemma wake_corrupts:
  assumes wf: "sched_wf s q" and t: "t \<in> set q" and sleep: "tstate (tasks s t) \<noteq> TASK_RUNNING"
  shows "\<exists>s'. wake_up_process s (Some t) = Some (s', 1) \<and> (\<forall>q'. \<not> rq_list s' q')"
proof -
  have rq: "rq_list s q"
    using wf by (simp add: sched_wf_def)
  obtain as bs where q: "q = as @ t # bs"
    using t by (auto dest: split_list)
  have dist: "distinct (as @ t # bs)"
    using rq_list_distinct [OF rq] q by simp
  define l where "l = last q"
  have hd: "rq_head s = Some (hd q)" and tl: "rq_tail s = Some l"
    using rq_list_head [OF rq] rq_list_tail [OF rq] q by (auto simp: l_def)
  define f where "f = (tasks s)(t := (tasks s t)\<lparr>tstate := TASK_RUNNING, tprev := Some l, tnext := None\<rparr>)"
  define s' where "s' = s\<lparr>tasks := f(l := (f l)\<lparr>tnext := Some t\<rparr>), rq_tail := Some t, nr_running := nr_running s + 1\<rparr>"
  have wake: "wake_up_process s (Some t) = Some (s', 1)"
    using sleep hd tl by (simp add: wake_up_process_def enqueue_task_def set_task_def f_def s'_def Let_def)
  have "\<not> rq_list s' q'" for q'
  proof
    assume q': "rq_list s' q'"
    let ?nx = "\<lambda>x. tnext (tasks s' x)" and ?pv = "\<lambda>x. tprev (tasks s' x)"
    from q' have dl': "dlist ?nx ?pv (rq_head s) q' (Some t)"
      by (simp add: rq_list_def s'_def)
    then have "q' \<noteq> []" "t = last q'"
      using dlist_tail [OF dl'] by (auto split: if_splits)
    then obtain zs where zs: "q' = zs @ [t]"
      by (metis append_butlast_last_id)
    have nt: "?nx t = None"
      using dlist_next [of ?nx ?pv _ zs t "[]"] dl' zs by simp
    then have lt: "l \<noteq> t"
      by (auto simp: s'_def f_def)
    then have l: "l \<in> set bs" "l \<notin> set as"
      using q dist by (auto simp: l_def split: if_splits)
    from rq q obtain m where left: "dseg (\<lambda>x. tnext (tasks s x)) (\<lambda>x. tprev (tasks s x)) None (rq_head s) as m (Some t)"
        "tprev (tasks s t) = m"
      by (auto simp: rq_list_def dseg_append)
    have "dseg ?nx (\<lambda>x. tprev (tasks s x)) None (rq_head s) as m (Some t)"
      by (rule dseg_transfer [OF left(1)]) (use l dist in \<open>auto simp: s'_def f_def\<close>)
    then have "dlist ?nx (\<lambda>x. tprev (tasks s x)) (rq_head s) (as @ [t]) (Some t)"
      unfolding dseg_append dseg.simps using left(2) nt by auto
    then have "q' = as @ [t]"
      using dseg_unique [OF dl'] by blast
    then have "?pv t = (if as = [] then None else Some (last as))"
      using dlist_prev [of ?nx ?pv _ as t "[]"] dl' by simp
    with l lt show False
      by (auto simp: s'_def f_def split: if_splits)
  qed
  with wake show ?thesis by blast
qed

section \<open>Properties of the scheduler\<close>


text \<open>The scheduler never takes the processor from a task: once a pool task runs, no sequence of
  creations, calls of the scheduler, blocking and killing makes another task run, not even when
  the running task has blocked itself; only its exit does.\<close>

theorem sched_no_preemption:
  assumes "sched_inv s" and "rq_current s \<noteq> Init_task" and "sched_op\<^sup>*\<^sup>* s s'"
  shows "rq_current s' = rq_current s"
proof -
  have "sched_inv s' \<and> rq_current s' = rq_current s"
    using assms(3,1,2)
  proof induction
    case (step s1 s2)
    then have "sched_inv s1" and cur: "rq_current s1 = rq_current s"
      by auto
    then obtain q where "sched_wf s1 q"
      unfolding sched_inv_def by blast
    from sched_op_wf [OF step(2) this] cur step.prems(2) show ?case by simp
  qed simp
  then show ?thesis ..
qed

text \<open>Waking a task that is asleep but still in the run queue, as every blocked task is,
  destroys the queue: afterwards the links form no doubly linked list at all.\<close>

theorem wake_queued_task:
  assumes "sched_wf s q" and "t \<in> set q" and "tstate (tasks s t) \<noteq> TASK_RUNNING"
  shows "\<exists>s'. wake_up_process s (Some t) = Some (s', 1) \<and> (\<forall>q'. \<not> rq_list s' q')"
  using assms by (rule wake_corrupts)

section \<open>Witnesses\<close>

text \<open>Two tasks in the run queue; the first runs, the second has the given state.\<close>

definition two_tasks :: "task_state \<Rightarrow> sched" where
  "two_tasks st = \<lparr>rq_current = Pool_task 0, rq_idle = Init_task, rq_head = Some (Pool_task 0),
     rq_tail = Some (Pool_task 1), nr_running = 2, rq_clock = 0,
     tasks = (\<lambda>t. case t of Init_task \<Rightarrow> init_task
       | Pool_task i \<Rightarrow> zero_task\<lparr>pid := int i + 1, tstate := (if i = 0 then TASK_RUNNING else st),
           tnext := (if i = 0 then Some (Pool_task 1) else None),
           tprev := (if i = 0 then None else Some (Pool_task 0))\<rparr>),
     task_pool_index = 2, next_pid = 3, page_mgr = pmm_boot, mm_users = (\<lambda>_. 0), user_space = None\<rparr>"

lemma two_tasks_wf: "sched_wf (two_tasks st) [Pool_task 0, Pool_task 1]"
  by (auto simp: sched_wf_def rq_list_def two_tasks_def pids_ok_def init_task_def zero_task_def pmm_boot_def
      MAX_TASKS_def less_2_cases_iff)

lemma two_tasks_inv: "sched_inv (two_tasks st)"
  using two_tasks_wf unfolding sched_inv_def by blast


lemma sched_no_preemption_witness:
  "\<exists>s'. sched_op\<^sup>*\<^sup>* (two_tasks TASK_RUNNING) s' \<and> schedule (two_tasks TASK_RUNNING) = Some s' \<and>
     rq_current s' = Pool_task 0 \<and> rq_list (two_tasks TASK_RUNNING) [Pool_task 0, Pool_task 1]"
proof -
  have cur: "rq_current (two_tasks TASK_RUNNING) = Pool_task 0"
    by (simp add: two_tasks_def)
  obtain s' where s': "schedule (two_tasks TASK_RUNNING) = Some s'"
    by (rule schedule_wf [OF two_tasks_wf])
  then have run: "sched_op\<^sup>*\<^sup>* (two_tasks TASK_RUNNING) s'"
    by (intro r_into_rtranclp sched_op.resched)
  have "rq_list (two_tasks TASK_RUNNING) [Pool_task 0, Pool_task 1]"
    using two_tasks_wf by (simp add: sched_wf_def)
  with sched_no_preemption [OF two_tasks_inv _ run] cur run s' show ?thesis by auto
qed

lemma wake_queued_task_witness:
  "\<exists>s'. wake_up_process (two_tasks TASK_INTERRUPTIBLE) (Some (Pool_task 1)) = Some (s', 1) \<and>
     (\<forall>q'. \<not> rq_list s' q')"
  by (rule wake_queued_task [OF two_tasks_wf]) (simp_all add: two_tasks_def)

end
