(* ===== verification/Signal.thy ===== *)
theory Signal
  imports Sched
begin

text \<open>
  Signals, \<^verbatim>\<open>kernel/sched/signal.c\<close>, on top of the scheduler. A task's signal structure is an entry of a
  static pool of 64. What a handler installed by a user does is a parameter of \<open>do_signal\<close>.
\<close>

section \<open>State\<close>

abbreviation (input) "SIGKILL \<equiv> (9 :: nat)"
abbreviation (input) "SIGCHLD \<equiv> (17 :: nat)"
abbreviation (input) "SIGCONT \<equiv> (18 :: nat)"
abbreviation (input) "SIGSTOP \<equiv> (19 :: nat)"
abbreviation (input) "SIGTSTP \<equiv> (20 :: nat)"
abbreviation (input) "SIGTTIN \<equiv> (21 :: nat)"
abbreviation (input) "SIGTTOU \<equiv> (22 :: nat)"
abbreviation (input) "SIGURG \<equiv> (23 :: nat)"
abbreviation (input) "SIGWINCH \<equiv> (28 :: nat)"
abbreviation (input) "NSIG \<equiv> (32 :: nat)"

datatype sighandler = SIG_DFL | SIG_IGN | Handler addr

record sigaction =
  sa_handler :: sighandler
  sa_mask :: u64
  sa_flags :: int
  sa_restorer :: ptr

record signal_struct =
  pending :: u64
  blocked :: u64
  actions :: "nat \<Rightarrow> sigaction"

record sigsys =
  ssched :: sched
  sig_pool :: "nat \<Rightarrow> signal_struct"
  sig_pool_idx :: nat

definition set_sig :: "sigsys \<Rightarrow> nat \<Rightarrow> (signal_struct \<Rightarrow> signal_struct) \<Rightarrow> sigsys" where
  "set_sig s i f = s\<lparr>sig_pool := (sig_pool s)(i := f (sig_pool s i))\<rparr>"

section \<open>Operations\<close>

text \<open>What a default action or the loop over the signals does to the thread that runs it.\<close>

datatype sig_end = Sig_returned | Sig_exited | Sig_suspended "nat list"

definition sig_default_term :: "sigsys \<Rightarrow> nat \<Rightarrow> sigsys option" where
  "sig_default_term s sig = map_option (\<lambda>x. s\<lparr>ssched := x\<rparr>) (exit_task (ssched s) (int sig))"

definition sig_default_ignore :: "sigsys \<Rightarrow> nat \<Rightarrow> sigsys" where
  "sig_default_ignore s sig = s"

definition sig_default_stop :: "sigsys \<Rightarrow> nat \<Rightarrow> sigsys option" where
  "sig_default_stop s sig =
     (let k = ssched s
      in map_option (\<lambda>x. s\<lparr>ssched := x\<rparr>)
           (schedule (set_task k (get_current k) (\<lambda>x. x\<lparr>tstate := TASK_STOPPED\<rparr>))))"

definition sig_default_cont :: "sigsys \<Rightarrow> nat \<Rightarrow> sigsys" where
  "sig_default_cont s sig =
     (let k = ssched s in s\<lparr>ssched := set_task k (get_current k) (\<lambda>x. x\<lparr>tstate := TASK_RUNNING\<rparr>)\<rparr>)"

definition signal_init :: "sigsys \<Rightarrow> task_ref \<Rightarrow> sigsys" where
  "signal_init s t =
     (let init = (\<lambda>s i. set_sig s i (\<lambda>g. g\<lparr>pending := 0, blocked := 0,
           actions := (\<lambda>n. if n < NSIG then (actions g n)\<lparr>sa_handler := SIG_DFL, sa_mask := 0, sa_flags := 0\<rparr>
                           else actions g n)\<rparr>))
      in case signals (tasks (ssched s) t) of
           Some i \<Rightarrow> init s i
         | None \<Rightarrow>
             if sig_pool_idx s < 64
             then init (s\<lparr>ssched := set_task (ssched s) t (\<lambda>x. x\<lparr>signals := Some (sig_pool_idx s)\<rparr>),
                          sig_pool_idx := sig_pool_idx s + 1\<rparr>) (sig_pool_idx s)
             else s)"

definition kill_task :: "sigsys \<Rightarrow> task_ref option \<Rightarrow> int \<Rightarrow> (sigsys \<times> int) option" where
  "kill_task s t sig =
     (if sig < 0 \<or> sig \<ge> int NSIG then Some (s, - 1)
      else case t of
        None \<Rightarrow> Some (s, - 1)
      | Some t \<Rightarrow>
          (case signals (tasks (ssched s) t) of
             None \<Rightarrow> Some (s, - 1)
           | Some i \<Rightarrow> do {
               let s1 = set_sig s i (\<lambda>g. g\<lparr>pending := pending g OR push_bit (nat sig) 1\<rparr>);
               if tstate (tasks (ssched s1) t) = TASK_INTERRUPTIBLE
               then do {
                 (k, _) \<leftarrow> wake_up_process (ssched s1) (Some t);
                 Some (s1\<lparr>ssched := k\<rparr>, 0)
               }
               else Some (s1, 0)
             }))"

text \<open>
  The loop over the signals that were pending and not blocked when it started. A default action
  that terminates never comes back; one that stops may switch to another task, and the remaining
  signals are handled when this one runs again.
\<close>

fun do_signal_loop ::
    "(addr \<Rightarrow> nat \<Rightarrow> sigsys \<Rightarrow> sigsys option) \<Rightarrow> sigsys \<Rightarrow> nat \<Rightarrow> u64 \<Rightarrow> nat list \<Rightarrow> (sigsys \<times> sig_end) option" where
  "do_signal_loop call s i pend [] = Some (s, Sig_returned)"
| "do_signal_loop call s i pend (sig # sigs) =
     (if \<not> bit pend sig then do_signal_loop call s i pend sigs
      else
        let s1 = set_sig s i (\<lambda>g. g\<lparr>pending := pending g AND NOT (push_bit sig 1)\<rparr>) in
        (case sa_handler (actions (sig_pool s1 i) sig) of
           SIG_IGN \<Rightarrow> do_signal_loop call (sig_default_ignore s1 sig) i pend sigs
         | SIG_DFL \<Rightarrow>
             if sig = SIGCHLD \<or> sig = SIGURG \<or> sig = SIGWINCH
             then do_signal_loop call (sig_default_ignore s1 sig) i pend sigs
             else if sig = SIGCONT
             then do_signal_loop call (sig_default_cont s1 sig) i pend sigs
             else if sig = SIGSTOP \<or> sig = SIGTSTP \<or> sig = SIGTTIN \<or> sig = SIGTTOU
             then (case sig_default_stop s1 sig of
                     None \<Rightarrow> None
                   | Some s2 \<Rightarrow>
                       if rq_current (ssched s2) = rq_current (ssched s1)
                       then do_signal_loop call s2 i pend sigs
                       else Some (s2, Sig_suspended sigs))
             else map_option (\<lambda>s2. (s2, Sig_exited)) (sig_default_term s1 sig)
         | Handler h \<Rightarrow>
             (case call h sig s1 of
                None \<Rightarrow> None
              | Some s2 \<Rightarrow> do_signal_loop call s2 i pend sigs)))"

definition do_signal ::
    "(addr \<Rightarrow> nat \<Rightarrow> sigsys \<Rightarrow> sigsys option) \<Rightarrow> sigsys \<Rightarrow> task_ref option \<Rightarrow> (sigsys \<times> sig_end) option" where
  "do_signal call s t =
     (case t of
        None \<Rightarrow> Some (s, Sig_returned)
      | Some t \<Rightarrow>
          (case signals (tasks (ssched s) t) of
             None \<Rightarrow> Some (s, Sig_returned)
           | Some i \<Rightarrow>
               let pend = pending (sig_pool s i) AND NOT (blocked (sig_pool s i))
               in if pend = 0 then Some (s, Sig_returned)
                  else do_signal_loop call s i pend [1..<NSIG]))"

definition unmaskable :: u64 where
  "unmaskable = push_bit SIGKILL 1 OR push_bit SIGSTOP 1"

text \<open>\<open>sigprocmask\<close> returns the new state, the result and, when there is a signal structure, the
  old mask for \<open>oldset\<close>.\<close>

definition sigprocmask :: "sigsys \<Rightarrow> int \<Rightarrow> u64 option \<Rightarrow> sigsys \<times> int \<times> u64 option" where
  "sigprocmask s how mset =
     (case signals (tasks (ssched s) (get_current (ssched s))) of
        None \<Rightarrow> (s, - 1, None)
      | Some i \<Rightarrow>
          let old = blocked (sig_pool s i);
              new = (case mset of
                       None \<Rightarrow> Some old
                     | Some m \<Rightarrow> if how = 0 then Some (old OR m)
                                 else if how = 1 then Some (old AND NOT m)
                                 else if how = 2 then Some m else None)
          in (case new of
                None \<Rightarrow> (s, - 1, Some old)
              | Some b \<Rightarrow> (set_sig s i (\<lambda>g. g\<lparr>blocked := b AND NOT unmaskable\<rparr>), 0, Some old)))"

definition sigaction_syscall ::
    "sigsys \<Rightarrow> int \<Rightarrow> sigaction option \<Rightarrow> sigsys \<times> int \<times> sigaction option" where
  "sigaction_syscall s sig act =
     (if sig < 1 \<or> sig \<ge> int NSIG then (s, - 1, None)
      else if sig = int SIGKILL \<or> sig = int SIGSTOP then (s, - 1, None)
      else case signals (tasks (ssched s) (get_current (ssched s))) of
        None \<Rightarrow> (s, - 1, None)
      | Some i \<Rightarrow>
          ((case act of
              None \<Rightarrow> s
            | Some a \<Rightarrow> set_sig s i (\<lambda>g. g\<lparr>actions := (actions g)(nat sig := a)\<rparr>)),
           0, Some (actions (sig_pool s i) (nat sig))))"

text \<open>\<open>do_waitpid\<close> returns the status it stores, which is always 0, and its result.\<close>

definition do_waitpid :: "sigsys \<Rightarrow> int \<Rightarrow> (sigsys \<times> int \<times> int) option" where
  "do_waitpid s p =
     (let k = ssched s in
      map_option (\<lambda>x. (s\<lparr>ssched := x\<rparr>, 0, p))
        (schedule (set_task k (get_current k) (\<lambda>x. x\<lparr>tstate := TASK_INTERRUPTIBLE\<rparr>))))"

section \<open>Signals that cannot be masked\<close>

definition sig_inv :: "sigsys \<Rightarrow> bool" where
  "sig_inv s \<longleftrightarrow> (\<forall>i < sig_pool_idx s. \<forall>n \<in> {SIGKILL, SIGSTOP}.
     \<not> bit (blocked (sig_pool s i)) n \<and> sa_handler (actions (sig_pool s i) n) = SIG_DFL)"

text \<open>The entry points of the component.\<close>

inductive sig_step :: "(addr \<Rightarrow> nat \<Rightarrow> sigsys \<Rightarrow> sigsys option) \<Rightarrow> sigsys \<Rightarrow> sigsys \<Rightarrow> bool" for call where
  init: "sig_step call s (signal_init s t)"
| kill: "kill_task s t n = Some (s', r) \<Longrightarrow> sig_step call s s'"
| deliver: "do_signal call s t = Some (s', e) \<Longrightarrow> sig_step call s s'"
| mask: "sigprocmask s how m = (s', r, old) \<Longrightarrow> sig_step call s s'"
| act: "sigaction_syscall s n a = (s', r, oldact) \<Longrightarrow> sig_step call s s'"
| wait: "do_waitpid s p = Some (s', st, r) \<Longrightarrow> sig_step call s s'"

lemma set_sig_fields [simp]:
  "ssched (set_sig s i f) = ssched s" "sig_pool_idx (set_sig s i f) = sig_pool_idx s"
  "sig_pool (set_sig s i f) = (sig_pool s)(i := f (sig_pool s i))"
  by (simp_all add: set_sig_def)

lemma sig_inv_ssched [simp]: "sig_inv (s\<lparr>ssched := k\<rparr>) = sig_inv s"
  by (simp add: sig_inv_def)

lemma sig_inv_pending:
  "(\<And>g. blocked (f g) = blocked g) \<Longrightarrow> (\<And>g. actions (f g) = actions g) \<Longrightarrow> sig_inv (set_sig s i f) = sig_inv s"
  by (auto simp: sig_inv_def)

lemma do_signal_loop_inv:
  assumes call: "\<And>h n s s'. sig_inv s \<Longrightarrow> call h n s = Some s' \<Longrightarrow> sig_inv s'"
  shows "do_signal_loop call s i pend sigs = Some (s', e) \<Longrightarrow> sig_inv s \<Longrightarrow> sig_inv s'"
proof (induction sigs arbitrary: s)
  case (Cons sig sigs)
  let ?s = "set_sig s i (\<lambda>g. g\<lparr>pending := pending g AND NOT (push_bit sig 1)\<rparr>)"
  have inv: "sig_inv ?s"
    using Cons.prems(2) by (simp add: sig_inv_pending)
  show ?case
  proof (cases "bit pend sig")
    case False
    with Cons show ?thesis by simp
  next
    case True
    note step = Cons.prems(1) [unfolded do_signal_loop.simps Let_def, simplified True]
    show ?thesis
    proof (cases "sa_handler (actions (sig_pool ?s i) sig)")
      case SIG_DFL
      with step Cons.IH inv show ?thesis
        by (auto simp: sig_default_ignore_def sig_default_cont_def sig_default_stop_def sig_default_term_def
            Let_def split: if_splits option.splits)
    next
      case SIG_IGN
      with step Cons.IH inv show ?thesis
        by (auto simp: sig_default_ignore_def)
    next
      case (Handler h)
      with step Cons.IH call [OF inv] show ?thesis
        by (auto split: option.splits)
    qed
  qed
qed simp

lemma unmaskable_bits:
  "\<not> bit (b AND NOT unmaskable) SIGKILL" "\<not> bit (b AND NOT unmaskable) SIGSTOP"
  by (simp_all add: unmaskable_def bit_and_iff bit_not_iff bit_or_iff bit_push_bit_iff del: push_bit_of_1)

lemma sigprocmask_inv: "sigprocmask s how m = (s', r, old) \<Longrightarrow> sig_inv s \<Longrightarrow> sig_inv s'"
  unfolding sigprocmask_def Let_def
  by (auto simp: sig_inv_def unmaskable_bits split: option.splits if_splits)

lemma sigaction_inv: "sigaction_syscall s n a = (s', r, old) \<Longrightarrow> sig_inv s \<Longrightarrow> sig_inv s'"
  by (auto simp: sigaction_syscall_def sig_inv_def split: option.splits if_splits)

lemma signal_init_inv: "sig_inv s \<Longrightarrow> sig_inv (signal_init s t)"
  by (auto simp: signal_init_def Let_def sig_inv_def less_Suc_eq split: option.splits)

lemma sig_step_inv:
  assumes call: "\<And>h n s s'. sig_inv s \<Longrightarrow> call h n s = Some s' \<Longrightarrow> sig_inv s'"
    and step: "sig_step call s s'" and inv: "sig_inv s"
  shows "sig_inv s'"
  using step
proof cases
  case (kill t n r)
  with inv show ?thesis
    by (auto simp: kill_task_def Let_def sig_inv_pending bind_eq_Some_conv split: if_splits option.splits)
next
  case (deliver t e)
  with inv do_signal_loop_inv [OF call] show ?thesis
    by (auto simp: do_signal_def Let_def split: if_splits option.splits)
next
  case (wait p st r)
  with inv show ?thesis by (auto simp: do_waitpid_def Let_def)
qed (use inv signal_init_inv sigprocmask_inv sigaction_inv in auto)

lemma do_signal_skip:
  "\<forall>sig \<in> set xs. \<not> bit pend sig \<Longrightarrow> do_signal_loop call s i pend (xs @ ys) = do_signal_loop call s i pend ys"
  by (induction xs) auto

lemma enqueue_signals: "enqueue_task s t = Some s' \<Longrightarrow> signals (tasks s' x) = signals (tasks s x)"
  by (auto simp: enqueue_task_def Let_def bind_eq_Some_conv split: if_splits)

lemma kill_signals: "sched_kill_task s p = Some (s', r) \<Longrightarrow> signals (tasks s' x) = signals (tasks s x)"
  by (auto simp: sched_kill_task_def Let_def bind_eq_Some_conv dest!: enqueue_signals
      split: option.splits if_splits)

section \<open>Properties of signals\<close>

text \<open>C22. Whatever sequence of signal operations is run, \<open>SIGKILL\<close> and \<open>SIGSTOP\<close> are never
  blocked and keep their default action, provided user handlers act on signal state only through
  these operations.\<close>

theorem signals_unmaskable:
  assumes "\<And>h n s s'. sig_inv s \<Longrightarrow> call h n s = Some s' \<Longrightarrow> sig_inv s'"
    and "sig_inv s" and "(sig_step call)\<^sup>*\<^sup>* s s'" and "i < sig_pool_idx s'"
  shows "\<not> bit (blocked (sig_pool s' i)) SIGKILL \<and> \<not> bit (blocked (sig_pool s' i)) SIGSTOP \<and>
    sa_handler (actions (sig_pool s' i) SIGKILL) = SIG_DFL \<and>
    sa_handler (actions (sig_pool s' i) SIGSTOP) = SIG_DFL"
proof -
  have "sig_inv s'"
    using assms(3,2) by induction (auto intro: sig_step_inv [OF assms(1)])
  with assms(4) show ?thesis by (simp add: sig_inv_def)
qed

text \<open>A \<open>SIGKILL\<close> that is pending for the running task, with no lower-numbered signal
  deliverable, ends the task: \<open>do_signal\<close> does not come back, the task is a zombie out of the run
  queue, and the next task in the queue, or the idle task, runs.\<close>

theorem sigkill_terminates:
  assumes wf: "sched_wf (ssched s) q" and t: "rq_current (ssched s) = t" "t \<noteq> Init_task"
    and i: "signals (tasks (ssched s) t) = Some i" "i < sig_pool_idx s" and inv: "sig_inv s"
    and kill: "bit (pending (sig_pool s i)) SIGKILL"
    and first: "\<forall>n. 1 \<le> n \<and> n < SIGKILL \<longrightarrow> \<not> bit (pending (sig_pool s i) AND NOT (blocked (sig_pool s i))) n"
  shows "\<exists>s'. do_signal call s (Some t) = Some (s', Sig_exited) \<and> sched_wf (ssched s') (tl q) \<and>
    t \<notin> set (tl q) \<and> tstate (tasks (ssched s') t) = TASK_ZOMBIE \<and>
    rq_current (ssched s') = (if tl q = [] then Init_task else hd (tl q))"
proof -
  let ?pend = "pending (sig_pool s i) AND NOT (blocked (sig_pool s i))"
  let ?s1 = "set_sig s i (\<lambda>g. g\<lparr>pending := pending g AND NOT (push_bit SIGKILL 1)\<rparr>)"
  have dfl: "sa_handler (actions (sig_pool s i) SIGKILL) = SIG_DFL" "\<not> bit (blocked (sig_pool s i)) SIGKILL"
    using inv i(2) by (simp_all add: sig_inv_def)
  have bit9: "bit ?pend SIGKILL"
    using kill dfl(2) by (simp add: bit_simps)
  then have nz: "?pend \<noteq> 0"
    by (metis bit_0_eq bot_apply bot_bool_def)
  have "[1..<NSIG] = [1..<SIGKILL] @ SIGKILL # [10..<NSIG]"
    by (simp add: upt_rec)
  then have "do_signal_loop call s i ?pend [1..<NSIG] = do_signal_loop call s i ?pend (SIGKILL # [10..<NSIG])"
    using first do_signal_skip [of "[1..<SIGKILL]" ?pend] by simp
  also have "\<dots> = map_option (\<lambda>s2. (s2, Sig_exited)) (sig_default_term ?s1 SIGKILL)"
    using bit9 dfl(1) by simp
  finally have run: "do_signal call s (Some t) = map_option (\<lambda>s2. (s2, Sig_exited)) (sig_default_term ?s1 SIGKILL)"
    using i(1) nz by (simp add: do_signal_def Let_def)
  have run_t: "rq_current (ssched s) \<noteq> Init_task"
    using t by simp
  obtain k where k: "exit_task (ssched s) 9 = Some k" "sched_wf k (tl q)"
      "rq_current k = (if tl q = [] then Init_task else hd (tl q))" "tstate (tasks k t) = TASK_ZOMBIE"
    by (rule exit_task_wf [OF wf run_t, of 9]) (use t in auto)
  have "t \<notin> set (tl q)"
    using wf t rq_list_distinct [of "ssched s" q] by (cases q) (auto simp: sched_wf_def)
  with run k show ?thesis
    by (auto simp: sig_default_term_def)
qed

text \<open>\<open>sched_kill_task\<close> reports success but its \<open>SIGKILL\<close> is never delivered: it is
  recorded in \<open>pending_signals\<close>, which \<open>do_signal\<close> does not look at. With no signal of its own
  pending, the killed task's next signal check does nothing.\<close>

theorem sched_kill_not_delivered:
  assumes "get_task_by_pid (ssched s) p = Some t" and "sched_kill_task (ssched s) p = Some (k, 0)"
    and "\<forall>i. signals (tasks (ssched s) t) = Some i \<longrightarrow> pending (sig_pool s i) = 0"
  shows "do_signal call (s\<lparr>ssched := k\<rparr>) (Some t) = Some (s\<lparr>ssched := k\<rparr>, Sig_returned)"
  using assms(3) kill_signals [OF assms(2), of t] by (auto simp: do_signal_def Let_def split: option.splits)

text \<open>\<open>do_waitpid\<close> does not wait: called by a running pool task it returns at once with the
  caller still running and still queued, whatever its children do. The next signal sent to the
  caller then destroys the run queue.\<close>

theorem waitpid_returns_at_once:
  assumes wf: "sched_wf (ssched s) q" and t: "rq_current (ssched s) = t" "t \<noteq> Init_task"
    and i: "signals (tasks (ssched s) t) = Some i" and sig: "0 \<le> sig" "sig < int NSIG"
  shows "\<exists>s' s''. do_waitpid s p = Some (s', 0, p) \<and> rq_current (ssched s') = t \<and> rq_list (ssched s') q \<and>
    kill_task s' (Some t) sig = Some (s'', 0) \<and> (\<forall>q'. \<not> rq_list (ssched s'') q')"
proof -
  let ?k = "set_task (ssched s) t (\<lambda>x. x\<lparr>tstate := TASK_INTERRUPTIBLE\<rparr>)"
  have wf': "sched_wf ?k q"
    using wf by (intro sched_wf_set_task) simp_all
  then have wait: "do_waitpid s p = Some (s\<lparr>ssched := ?k\<rparr>, 0, p)"
    using schedule_running [OF wf'] t by (simp add: do_waitpid_def get_current_def)
  have "t \<in> set q" "tstate (tasks ?k t) \<noteq> TASK_RUNNING"
    using wf t by (auto simp: sched_wf_def)
  from wake_corrupts [OF wf' this] obtain k where
      "wake_up_process ?k (Some t) = Some (k, 1)" "\<forall>q'. \<not> rq_list k q'"
    by blast
  with i sig have "\<exists>s''. kill_task (s\<lparr>ssched := ?k\<rparr>) (Some t) sig = Some (s'', 0) \<and> (\<forall>q'. \<not> rq_list (ssched s'') q')"
    by (simp add: kill_task_def)
  with wait wf' t show ?thesis
    by (auto simp: sched_wf_def)
qed

section \<open>Witnesses\<close>

text \<open>Two tasks; the one that runs has the first signal structure.\<close>

definition two_tasks_signals :: "u64 \<Rightarrow> sigsys" where
  "two_tasks_signals pend = \<lparr>ssched = set_task (two_tasks TASK_RUNNING) (Pool_task 0) (\<lambda>x. x\<lparr>signals := Some 0\<rparr>),
     sig_pool = (\<lambda>_. \<lparr>pending = pend, blocked = 0,
       actions = (\<lambda>_. \<lparr>sa_handler = SIG_DFL, sa_mask = 0, sa_flags = 0, sa_restorer = None\<rparr>)\<rparr>),
     sig_pool_idx = 1\<rparr>"

lemma two_tasks_signals_wf: "sched_wf (ssched (two_tasks_signals pend)) [Pool_task 0, Pool_task 1]"
  unfolding two_tasks_signals_def sigsys.select_convs by (intro sched_wf_set_task two_tasks_wf) simp_all

lemma two_tasks_signals_facts:
  "rq_current (ssched (two_tasks_signals pend)) = Pool_task 0"
  "signals (tasks (ssched (two_tasks_signals pend)) (Pool_task 0)) = Some 0"
  "sig_pool_idx (two_tasks_signals pend) = 1" "sig_inv (two_tasks_signals pend)"
  "pending (sig_pool (two_tasks_signals pend) 0) = pend" "blocked (sig_pool (two_tasks_signals pend) 0) = 0"
  by (simp_all add: two_tasks_signals_def two_tasks_def sig_inv_def)

lemma two_tasks_signals_task:
  "pid (tasks (ssched (two_tasks_signals pend)) (Pool_task 0)) = 1"
  "tflags (tasks (ssched (two_tasks_signals pend)) (Pool_task 0)) = 0"
  "tstate (tasks (ssched (two_tasks_signals pend)) (Pool_task 0)) = TASK_RUNNING"
  by (simp_all add: two_tasks_signals_def two_tasks_def zero_task_def)

lemma signals_unmaskable_witness:
  "(sig_step (\<lambda>_ _ s. Some s))\<^sup>*\<^sup>* (two_tasks_signals 0) (fst (sigprocmask (two_tasks_signals 0) 2 (Some (- 1)))) \<and>
   \<not> bit (blocked (sig_pool (fst (sigprocmask (two_tasks_signals 0) 2 (Some (- 1)))) 0)) SIGKILL"
proof -
  let ?s = "fst (sigprocmask (two_tasks_signals 0) 2 (Some (- 1)))"
  have run: "(sig_step (\<lambda>_ _ s. Some s))\<^sup>*\<^sup>* (two_tasks_signals 0) ?s"
    by (intro r_into_rtranclp sig_step.mask [where r = "fst (snd (sigprocmask (two_tasks_signals 0) 2 (Some (- 1))))"
        and old = "snd (snd (sigprocmask (two_tasks_signals 0) 2 (Some (- 1))))"]) simp
  have "sig_pool_idx ?s = 1"
    by (simp add: sigprocmask_def get_current_def two_tasks_signals_facts)
  with signals_unmaskable [OF _ two_tasks_signals_facts(4) run, of 0] run show ?thesis by simp
qed

lemma sigkill_terminates_witness:
  "\<exists>s'. do_signal (\<lambda>_ _ s. Some s) (two_tasks_signals 512) (Some (Pool_task 0)) = Some (s', Sig_exited) \<and>
     rq_current (ssched s') = Pool_task 1"
proof -
  have "bit (512 :: u64) 9"
    by simp
  moreover have "(512 :: u64) = 2 ^ 9"
    by simp
  then have "\<forall>n. 1 \<le> n \<and> n < SIGKILL \<longrightarrow> \<not> bit (512 AND NOT (0 :: u64)) n"
    by (simp only: bit_exp_iff bit_and_iff) simp
  ultimately show ?thesis
    using sigkill_terminates [where s = "two_tasks_signals 512" and i = 0 and call = "\<lambda>_ _ s. Some s",
        OF two_tasks_signals_wf two_tasks_signals_facts(1)]
    by (auto simp: two_tasks_signals_facts)
qed

lemma sched_kill_not_delivered_witness:
  "\<exists>k. sched_kill_task (ssched (two_tasks_signals 0)) 1 = Some (k, 0) \<and>
     do_signal (\<lambda>_ _ s. Some s) ((two_tasks_signals 0)\<lparr>ssched := k\<rparr>) (Some (Pool_task 0)) =
       Some ((two_tasks_signals 0)\<lparr>ssched := k\<rparr>, Sig_returned)"
proof -
  have t: "get_task_by_pid (ssched (two_tasks_signals 0)) 1 = Some (Pool_task 0)"
    by (simp add: get_task_by_pid_def two_tasks_signals_def two_tasks_def init_task_def zero_task_def upt_rec)
  obtain k where k: "sched_kill_task (ssched (two_tasks_signals 0)) 1 = Some (k, 0)"
    using t two_tasks_signals_task by (auto simp: sched_kill_task_def)
  from sched_kill_not_delivered [OF t k] k show ?thesis
    by (auto simp: two_tasks_signals_facts)
qed

lemma waitpid_returns_at_once_witness:
  "\<exists>s' s''. do_waitpid (two_tasks_signals 0) 7 = Some (s', 0, 7) \<and> rq_current (ssched s') = Pool_task 0 \<and>
     kill_task s' (Some (Pool_task 0)) 15 = Some (s'', 0) \<and> (\<forall>q'. \<not> rq_list (ssched s'') q')"
  using waitpid_returns_at_once [OF two_tasks_signals_wf two_tasks_signals_facts(1), of 0 0 15 7]
  by (auto simp: two_tasks_signals_facts)

end
