(* ===== verification/Ramfs.thy ===== *)
theory Ramfs
  imports Kmalloc "HOL-Library.Monad_Syntax"
begin

text \<open>
  The RAM file system, \<^verbatim>\<open>kernel/fs/ramfs.c\<close>, with the structures of \<^verbatim>\<open>kernel/include/fs/vfs.h\<close>
  it fills in. Structures live in stores indexed by the addresses the kernel heap gave out, file
  contents are bytes of the heap. \<^const>\<open>None\<close> is a call that does not return: it follows a \<^verbatim>\<open>NULL\<close> pointer or
  a cyclic list.
\<close>

section \<open>State\<close>

definition RAMFS_MAX_NAME :: nat where "RAMFS_MAX_NAME = 255"
definition RAMFS_BLOCK_SIZE :: nat where "RAMFS_BLOCK_SIZE = 4096"

text \<open>Names are the characters in front of the terminator.\<close>

record ramfs_inode =
  rino :: u64
  rmode :: u32
  ruid :: u32
  rgid :: u32
  rsize :: nat
  rdata :: ptr
  data_capacity :: nat
  rparent :: ptr
  children :: ptr
  sibling :: ptr
  rname :: string

text \<open>
  The tables of function pointers are constants of the source and appear here as tags. A reference to
  a VFS inode or directory entry is to the static root object of \<open>ramfs_mount\<close> or to a heap object.
\<close>

datatype inode_operations = Ramfs_inode_ops
datatype file_operations = Ramfs_file_ops | Ramfs_dir_ops
datatype obj_ref = Static_root | Obj addr

type_synonym obj_ptr = "obj_ref option"

record inode =
  i_ino :: u64
  i_mode :: u32
  i_size :: int
  i_op :: "inode_operations option"
  i_fop :: "file_operations option"
  i_sb :: bool
  i_private :: ptr

record dentry =
  d_name :: string
  d_inode :: obj_ptr
  d_parent :: obj_ptr
  d_sb :: bool

record vfile =
  f_dentry :: obj_ptr
  f_op :: "file_operations option"
  f_pos :: int
  f_flags :: int
  f_mode :: u32
  f_count :: int
  private_data :: ptr

text \<open>
  The mounted super block is one static object, so a pointer to it is a flag that says whether it is
  set. The first five fields are the heap and \<^verbatim>\<open>struct ramfs_sb_info\<close> with its inodes.
\<close>

record fs =
  fheap :: kheap
  rnodes :: "addr \<Rightarrow> ramfs_inode"
  ram_root :: ptr
  next_ino :: u64
  inode_count :: u64
  inodes :: "obj_ref \<Rightarrow> inode"
  dentries :: "obj_ref \<Rightarrow> dentry"
  files :: "addr \<Rightarrow> vfile"

abbreviation (input) "sizeof_ramfs_inode \<equiv> (328 :: nat)"
abbreviation (input) "sizeof_inode \<equiv> (144 :: nat)"

section \<open>Mode bits\<close>

abbreviation (input) "S_IFMT \<equiv> (0xF000 :: u32)"
abbreviation (input) "S_IFREG \<equiv> (0x8000 :: u32)"
abbreviation (input) "S_IFDIR \<equiv> (0x4000 :: u32)"

definition S_ISDIR :: "u32 \<Rightarrow> bool" where
  "S_ISDIR m \<longleftrightarrow> m AND S_IFMT = S_IFDIR"

section \<open>File offsets\<close>

text \<open>\<^verbatim>\<open>loff_t\<close> is a signed and \<^verbatim>\<open>size_t\<close> an unsigned 64-bit integer; mixed sums are unsigned.\<close>

definition to_loff :: "nat \<Rightarrow> int" where
  "to_loff n = (if n mod 2 ^ 64 < 2 ^ 63 then int (n mod 2 ^ 64) else int (n mod 2 ^ 64) - 2 ^ 64)"

definition size_plus :: "int \<Rightarrow> nat \<Rightarrow> nat" where
  "size_plus pos n = nat ((pos + int n) mod 2 ^ 64)"

section \<open>Inode operations\<close>

text \<open>The copying loops stop at the terminator or after \<open>RAMFS_MAX_NAME\<close> characters.\<close>

definition copy_name :: "string \<Rightarrow> string" where
  "copy_name nm = take RAMFS_MAX_NAME nm"

definition ramfs_alloc_inode :: "fs \<Rightarrow> u32 \<Rightarrow> string \<Rightarrow> (fs \<times> ptr) option" where
  "ramfs_alloc_inode s md nm = do {
     (h, r) \<leftarrow> kzalloc (fheap s) sizeof_ramfs_inode GFP_KERNEL;
     (case r of
        None \<Rightarrow> Some (s\<lparr>fheap := h\<rparr>, None)
      | Some a \<Rightarrow>
          Some (s\<lparr>fheap := h,
                  rnodes := (rnodes s)(a := \<lparr>rino = next_ino s, rmode = md, ruid = 0, rgid = 0, rsize = 0,
                    rdata = None, data_capacity = 0, rparent = None, children = None, sibling = None,
                    rname = copy_name nm\<rparr>),
                  next_ino := next_ino s + 1, inode_count := inode_count s + 1\<rparr>, Some a))
   }"

definition ramfs_free_inode :: "fs \<Rightarrow> ptr \<Rightarrow> fs option" where
  "ramfs_free_inode s p =
     (case p of
        None \<Rightarrow> Some s
      | Some a \<Rightarrow> do {
          h1 \<leftarrow> (if rdata (rnodes s a) \<noteq> None then kfree (fheap s) (rdata (rnodes s a)) else Some (fheap s));
          h2 \<leftarrow> kfree h1 (Some a);
          Some (s\<lparr>fheap := h2, inode_count := inode_count s - 1\<rparr>)
        })"

text \<open>The comparison loop: both strings end after their longest common prefix.\<close>

fun name_match :: "string \<Rightarrow> string \<Rightarrow> bool" where
  "name_match (x # xs) (y # ys) = (if x = y then name_match xs ys else False)"
| "name_match xs ys = (xs = [] \<and> ys = [])"

partial_function (option) lookup_loop :: "(addr \<Rightarrow> ramfs_inode) \<Rightarrow> ptr \<Rightarrow> string \<Rightarrow> ptr option" where
  "lookup_loop N child nm =
     (if child = None then Some None
      else if name_match (rname (N (the child))) nm then Some child
      else lookup_loop N (sibling (N (the child))) nm)"

definition ramfs_lookup_child :: "fs \<Rightarrow> addr \<Rightarrow> string \<Rightarrow> ptr option" where
  "ramfs_lookup_child s dir nm =
     (if \<not> S_ISDIR (rmode (rnodes s dir)) then Some None
      else lookup_loop (rnodes s) (children (rnodes s dir)) nm)"

definition ramfs_add_child :: "fs \<Rightarrow> addr \<Rightarrow> addr \<Rightarrow> fs \<times> int" where
  "ramfs_add_child s dir child =
     (if \<not> S_ISDIR (rmode (rnodes s dir)) then (s, - ENOTDIR)
      else
        let N1 = (rnodes s)(child := (rnodes s child)\<lparr>rparent := Some dir, sibling := children (rnodes s dir)\<rparr>);
            N2 = N1(dir := (N1 dir)\<lparr>children := Some child\<rparr>)
        in (s\<lparr>rnodes := N2\<rparr>, 0))"

section \<open>File operations\<close>

fun read_loop :: "mem \<Rightarrow> addr \<Rightarrow> addr \<Rightarrow> int \<Rightarrow> nat list \<Rightarrow> mem" where
  "read_loop m buf d pos [] = m"
| "read_loop m buf d pos (i # is) = read_loop (m(buf + i := m (d + size_plus pos i))) buf d pos is"

fun write_loop :: "mem \<Rightarrow> addr \<Rightarrow> addr \<Rightarrow> int \<Rightarrow> nat list \<Rightarrow> mem" where
  "write_loop m buf d pos [] = m"
| "write_loop m buf d pos (i # is) = write_loop (m(d + size_plus pos i := m (buf + i))) buf d pos is"

fun copy_data_loop :: "mem \<Rightarrow> addr \<Rightarrow> addr \<Rightarrow> nat list \<Rightarrow> mem" where
  "copy_data_loop m dst src [] = m"
| "copy_data_loop m dst src (i # is) = copy_data_loop (m(dst + i := m (src + i))) dst src is"

abbreviation set_bytes :: "fs \<Rightarrow> mem \<Rightarrow> fs" where
  "set_bytes s m \<equiv> s\<lparr>fheap := (fheap s)\<lparr>kbytes := m\<rparr>\<rparr>"

abbreviation upd_node :: "fs \<Rightarrow> addr \<Rightarrow> (ramfs_inode \<Rightarrow> ramfs_inode) \<Rightarrow> fs" where
  "upd_node s a f \<equiv> s\<lparr>rnodes := (rnodes s)(a := f (rnodes s a))\<rparr>"

text \<open>The offset is passed by value and returned with the result.\<close>

definition ramfs_read :: "fs \<Rightarrow> addr \<Rightarrow> addr \<Rightarrow> nat \<Rightarrow> int \<Rightarrow> fs \<times> int \<times> int" where
  "ramfs_read s f buf cnt pos =
     (case private_data (files s f) of
        None \<Rightarrow> (s, pos, 0)
      | Some a \<Rightarrow>
          (case rdata (rnodes s a) of
             None \<Rightarrow> (s, pos, 0)
           | Some d \<Rightarrow>
               if pos \<ge> to_loff (rsize (rnodes s a)) then (s, pos, 0)
               else
                 let available = nat ((int (rsize (rnodes s a)) - pos) mod 2 ^ 64);
                     to_read = (if cnt < available then cnt else available)
                 in (set_bytes s (read_loop (kbytes (fheap s)) buf d pos [0..<to_read]),
                     to_loff (size_plus pos to_read), to_loff to_read)))"

text \<open>Growing the buffer: the new capacity is the size rounded up to whole blocks.\<close>

definition round_block :: "nat \<Rightarrow> nat" where
  "round_block n = unat ((of_nat n + of_nat RAMFS_BLOCK_SIZE - 1) AND NOT (of_nat RAMFS_BLOCK_SIZE - 1) :: u64)"

definition grow_data :: "fs \<Rightarrow> addr \<Rightarrow> nat \<Rightarrow> (fs \<times> bool) option" where
  "grow_data s a new_size =
     (if new_size > data_capacity (rnodes s a)
      then do {
        let new_cap = round_block new_size;
        (h, r) \<leftarrow> kmalloc (fheap s) new_cap GFP_KERNEL;
        (case r of
           None \<Rightarrow> Some (s\<lparr>fheap := h\<rparr>, False)
         | Some nd \<Rightarrow> do {
             h2 \<leftarrow> (case rdata (rnodes s a) of
                      None \<Rightarrow> Some h
                    | Some d \<Rightarrow>
                        kfree (h\<lparr>kbytes := copy_data_loop (kbytes h) nd d [0..<rsize (rnodes s a)]\<rparr>) (Some d));
             Some (upd_node (s\<lparr>fheap := h2\<rparr>) a (\<lambda>n. n\<lparr>rdata := Some nd, data_capacity := new_cap\<rparr>), True)
           })
      }
      else Some (s, True))"

definition ramfs_write :: "fs \<Rightarrow> addr \<Rightarrow> addr \<Rightarrow> nat \<Rightarrow> int \<Rightarrow> (fs \<times> int \<times> int) option" where
  "ramfs_write s f buf cnt pos =
     (case private_data (files s f) of
        None \<Rightarrow> Some (s, pos, - EIO)
      | Some a \<Rightarrow> do {
          (s1, ok) \<leftarrow> grow_data s a (size_plus pos cnt);
          if \<not> ok then Some (s1, pos, - ENOMEM)
          else if cnt > 0 \<and> rdata (rnodes s1 a) = None then None
          else
            let s2 = set_bytes s1 (write_loop (kbytes (fheap s1)) buf (the (rdata (rnodes s1 a))) pos [0..<cnt]);
                pos' = to_loff (size_plus pos cnt);
                s3 = (if pos' > to_loff (rsize (rnodes s2 a))
                      then upd_node s2 a (\<lambda>n. n\<lparr>rsize := nat (pos' mod 2 ^ 64)\<rparr>) else s2)
            in Some (s3, pos', to_loff cnt)
        })"

definition ramfs_open :: "fs \<Rightarrow> obj_ref \<Rightarrow> addr \<Rightarrow> fs \<times> int" where
  "ramfs_open s vi f = (s\<lparr>files := (files s)(f := (files s f)\<lparr>private_data := i_private (inodes s vi)\<rparr>)\<rparr>, 0)"

definition ramfs_release :: "fs \<Rightarrow> addr \<Rightarrow> fs \<times> int" where
  "ramfs_release s f = (s\<lparr>files := (files s)(f := (files s f)\<lparr>private_data := None\<rparr>)\<rparr>, 0)"

section \<open>Directory operations\<close>

text \<open>
  The entries reported to the callback: name, length, offset, inode number and type. The loop makes the
  callback for every child in turn.
\<close>

type_synonym dirent = "string \<times> nat \<times> int \<times> u64 \<times> u32"

partial_function (option) readdir_loop ::
    "(addr \<Rightarrow> ramfs_inode) \<Rightarrow> ptr \<Rightarrow> int \<Rightarrow> dirent list \<Rightarrow> dirent list option" where
  "readdir_loop N child pos out =
     (if child = None then Some out
      else let n = N (the child) in
        readdir_loop N (sibling n) (pos + 1)
          (out @ [(rname n, length (rname n), pos, rino n, drop_bit 12 (rmode n))]))"

definition ramfs_readdir :: "fs \<Rightarrow> addr \<Rightarrow> (dirent list \<times> int) option" where
  "ramfs_readdir s f =
     (case private_data (files s f) of
        None \<Rightarrow> Some ([], - ENOTDIR)
      | Some d \<Rightarrow>
          let n = rnodes s d in
          if \<not> S_ISDIR (rmode n) then Some ([], - ENOTDIR)
          else map_option (\<lambda>es. (es, 0))
            (readdir_loop (rnodes s) (children n) 2
              [(''.'', 1, 0, rino n, drop_bit 12 S_IFDIR),
               (''..'', 2, 1, (case rparent n of None \<Rightarrow> rino n | Some p \<Rightarrow> rino (rnodes s p)), drop_bit 12 S_IFDIR)]))"

text \<open>A fresh VFS inode for a RAM inode, linked to the directory entry.\<close>

definition new_vfs_inode :: "fs \<Rightarrow> obj_ref \<Rightarrow> obj_ref \<Rightarrow> addr \<Rightarrow> int \<Rightarrow> file_operations \<Rightarrow> (fs \<times> bool) option" where
  "new_vfs_inode s dir de ram sz fop = do {
     (h, r) \<leftarrow> kzalloc (fheap s) sizeof_inode GFP_KERNEL;
     (case r of
        None \<Rightarrow> Some (s\<lparr>fheap := h\<rparr>, False)
      | Some v \<Rightarrow>
          Some (s\<lparr>fheap := h,
             inodes := (inodes s)(Obj v := \<lparr>i_ino = rino (rnodes s ram), i_mode = rmode (rnodes s ram), i_size = sz,
               i_op = Some Ramfs_inode_ops, i_fop = Some fop, i_sb = i_sb (inodes s dir), i_private = Some ram\<rparr>),
             dentries := (dentries s)(de := (dentries s de)\<lparr>d_inode := Some (Obj v)\<rparr>)\<rparr>, True))
   }"

definition ramfs_lookup :: "fs \<Rightarrow> obj_ref \<Rightarrow> obj_ref \<Rightarrow> fs option" where
  "ramfs_lookup s dir de = do {
     ram_dir \<leftarrow> i_private (inodes s dir);
     r \<leftarrow> ramfs_lookup_child s ram_dir (d_name (dentries s de));
     (case r of
        None \<Rightarrow> Some s
      | Some c \<Rightarrow>
          map_option fst (new_vfs_inode s dir de c (to_loff (rsize (rnodes s c)))
            (if S_ISDIR (rmode (rnodes s c)) then Ramfs_dir_ops else Ramfs_file_ops)))
   }"

definition ramfs_create :: "fs \<Rightarrow> obj_ref \<Rightarrow> obj_ref \<Rightarrow> u32 \<Rightarrow> (fs \<times> int) option" where
  "ramfs_create s dir de md = do {
     (s1, r) \<leftarrow> ramfs_alloc_inode s (S_IFREG OR md) (d_name (dentries s de));
     (case r of
        None \<Rightarrow> Some (s1, - ENOMEM)
      | Some a \<Rightarrow> do {
          ram_dir \<leftarrow> i_private (inodes s dir);
          (s2, ok) \<leftarrow> new_vfs_inode (fst (ramfs_add_child s1 ram_dir a)) dir de a 0 Ramfs_file_ops;
          Some (s2, if ok then 0 else - ENOMEM)
        })
   }"

definition ramfs_mkdir :: "fs \<Rightarrow> obj_ref \<Rightarrow> obj_ref \<Rightarrow> u32 \<Rightarrow> (fs \<times> int) option" where
  "ramfs_mkdir s dir de md = do {
     (s1, r) \<leftarrow> ramfs_alloc_inode s (S_IFDIR OR md) (d_name (dentries s de));
     (case r of
        None \<Rightarrow> Some (s1, - ENOMEM)
      | Some a \<Rightarrow> do {
          ram_dir \<leftarrow> i_private (inodes s dir);
          (s2, ok) \<leftarrow> new_vfs_inode (fst (ramfs_add_child s1 ram_dir a)) dir de a 0 Ramfs_dir_ops;
          Some (s2, if ok then 0 else - ENOMEM)
        })
   }"

text \<open>The loop that looks for the predecessor of the renamed inode.\<close>

partial_function (option) rename_find :: "(addr \<Rightarrow> ramfs_inode) \<Rightarrow> ptr \<Rightarrow> addr \<Rightarrow> ptr option" where
  "rename_find N cur target =
     (if cur = None then Some None
      else if sibling (N (the cur)) = Some target then Some cur
      else rename_find N (sibling (N (the cur))) target)"

definition rename_unlink :: "(addr \<Rightarrow> ramfs_inode) \<Rightarrow> addr \<Rightarrow> addr \<Rightarrow> (addr \<Rightarrow> ramfs_inode) option" where
  "rename_unlink N old target =
     (if children (N old) = Some target
      then Some (N(old := (N old)\<lparr>children := sibling (N target)\<rparr>))
      else do {
        cur \<leftarrow> rename_find N (children (N old)) target;
        (case cur of
           None \<Rightarrow> Some N
         | Some c \<Rightarrow> Some (N(c := (N c)\<lparr>sibling := sibling (N target)\<rparr>)))
      })"

definition rename_link :: "(addr \<Rightarrow> ramfs_inode) \<Rightarrow> addr \<Rightarrow> addr \<Rightarrow> addr \<Rightarrow> (addr \<Rightarrow> ramfs_inode)" where
  "rename_link N old new target =
     (if old \<noteq> new
      then let N1 = N(target := (N target)\<lparr>sibling := children (N new)\<rparr>);
               N2 = N1(new := (N1 new)\<lparr>children := Some target\<rparr>)
           in N2(target := (N2 target)\<lparr>rparent := Some new\<rparr>)
      else let N1 = N(target := (N target)\<lparr>sibling := children (N old)\<rparr>)
           in N1(old := (N1 old)\<lparr>children := Some target\<rparr>))"

definition ramfs_rename :: "fs \<Rightarrow> obj_ref \<Rightarrow> obj_ref \<Rightarrow> obj_ref \<Rightarrow> obj_ref \<Rightarrow> (fs \<times> int) option" where
  "ramfs_rename s old_dir old_de new_dir new_de = do {
     vi \<leftarrow> d_inode (dentries s old_de);
     (case i_private (inodes s vi) of
        None \<Rightarrow> Some (s, - ENOENT)
      | Some target \<Rightarrow> do {
          new \<leftarrow> i_private (inodes s new_dir);
          ex \<leftarrow> ramfs_lookup_child s new (d_name (dentries s new_de));
          if ex \<noteq> None then Some (s, - EEXIST)
          else do {
            old \<leftarrow> i_private (inodes s old_dir);
            N1 \<leftarrow> rename_unlink (rnodes s) old target;
            let N2 = rename_link N1 old new target;
            Some (s\<lparr>rnodes := N2(target := (N2 target)\<lparr>rname := copy_name (d_name (dentries s new_de))\<rparr>)\<rparr>, 0)
          }
        })
   }"

text \<open>\<open>unlink\<close> and \<open>rmdir\<close> walk the list with a pointer to the link that leads to the current inode.\<close>

datatype link_loc = Children_of addr | Sibling_of addr

fun load_link :: "(addr \<Rightarrow> ramfs_inode) \<Rightarrow> link_loc \<Rightarrow> ptr" where
  "load_link N (Children_of a) = children (N a)"
| "load_link N (Sibling_of a) = sibling (N a)"

fun store_link :: "(addr \<Rightarrow> ramfs_inode) \<Rightarrow> link_loc \<Rightarrow> ptr \<Rightarrow> (addr \<Rightarrow> ramfs_inode)" where
  "store_link N (Children_of a) p = N(a := (N a)\<lparr>children := p\<rparr>)"
| "store_link N (Sibling_of a) p = N(a := (N a)\<lparr>sibling := p\<rparr>)"

partial_function (option) unlink_loop ::
    "(addr \<Rightarrow> ramfs_inode) \<Rightarrow> link_loc \<Rightarrow> addr \<Rightarrow> (addr \<Rightarrow> ramfs_inode) option" where
  "unlink_loop N prev target =
     (if load_link N prev = None then Some N
      else if load_link N prev = Some target then Some (store_link N prev (sibling (N target)))
      else unlink_loop N (Sibling_of (the (load_link N prev))) target)"

definition ramfs_unlink :: "fs \<Rightarrow> obj_ref \<Rightarrow> obj_ref \<Rightarrow> (fs \<times> int) option" where
  "ramfs_unlink s dir de = do {
     ram_dir \<leftarrow> i_private (inodes s dir);
     r \<leftarrow> ramfs_lookup_child s ram_dir (d_name (dentries s de));
     (case r of
        None \<Rightarrow> Some (s, - ENOENT)
      | Some t \<Rightarrow>
          if S_ISDIR (rmode (rnodes s t)) then Some (s, - EISDIR)
          else do {
            N \<leftarrow> unlink_loop (rnodes s) (Children_of ram_dir) t;
            s' \<leftarrow> ramfs_free_inode (s\<lparr>rnodes := N\<rparr>) (Some t);
            Some (s', 0)
          })
   }"

definition ramfs_rmdir :: "fs \<Rightarrow> obj_ref \<Rightarrow> obj_ref \<Rightarrow> (fs \<times> int) option" where
  "ramfs_rmdir s dir de = do {
     ram_dir \<leftarrow> i_private (inodes s dir);
     r \<leftarrow> ramfs_lookup_child s ram_dir (d_name (dentries s de));
     (case r of
        None \<Rightarrow> Some (s, - ENOENT)
      | Some t \<Rightarrow>
          if \<not> S_ISDIR (rmode (rnodes s t)) then Some (s, - ENOTDIR)
          else if children (rnodes s t) \<noteq> None then Some (s, - ENOTEMPTY)
          else do {
            N \<leftarrow> unlink_loop (rnodes s) (Children_of ram_dir) t;
            s' \<leftarrow> ramfs_free_inode (s\<lparr>rnodes := N\<rparr>) (Some t);
            Some (s', 0)
          })
   }"

section \<open>Mounting\<close>

definition ramfs_mount :: "fs \<Rightarrow> (fs \<times> bool) option" where
  "ramfs_mount s = do {
     (s1, r) \<leftarrow> ramfs_alloc_inode (s\<lparr>next_ino := 1, inode_count := 0\<rparr>) (S_IFDIR OR 0x1ED) [];
     (case r of
        None \<Rightarrow> Some (s1\<lparr>ram_root := None\<rparr>, False)
      | Some a \<Rightarrow>
          Some (s1\<lparr>ram_root := Some a,
             inodes := (inodes s1)(Static_root := \<lparr>i_ino = rino (rnodes s1 a), i_mode = S_IFDIR OR 0x1ED, i_size = 0,
               i_op = Some Ramfs_inode_ops, i_fop = Some Ramfs_dir_ops, i_sb = True, i_private = Some a\<rparr>),
             dentries := (dentries s1)(Static_root := \<lparr>d_name = ''/'', d_inode = Some Static_root,
               d_parent = Some Static_root, d_sb = True\<rparr>)\<rparr>, True))
   }"

section \<open>Creating files by path\<close>

text \<open>The position of the last slash, kept in \<open>acc\<close> by the loop.\<close>

fun last_slash_loop :: "string \<Rightarrow> nat \<Rightarrow> nat option \<Rightarrow> nat option" where
  "last_slash_loop [] i acc = acc"
| "last_slash_loop (c # cs) i acc = last_slash_loop cs (Suc i) (if c = CHR ''/'' then Some i else acc)"

definition skip_slash :: "string \<Rightarrow> string" where
  "skip_slash path = (case path of c # cs \<Rightarrow> if c = CHR ''/'' then cs else path | [] \<Rightarrow> path)"

definition ramfs_get_parent_dir :: "fs \<Rightarrow> string \<Rightarrow> (ptr \<times> string) option" where
  "ramfs_get_parent_dir s path0 =
     (let path = skip_slash path0 in
      case last_slash_loop path 0 None of
        None \<Rightarrow> Some (ram_root s, copy_name path)
      | Some l \<Rightarrow> do {
          root \<leftarrow> ram_root s;
          dir \<leftarrow> ramfs_lookup_child s root (copy_name (take l path));
          Some (dir, copy_name (drop (Suc l) path))
        })"

text \<open>The length loop over the contents.\<close>

partial_function (option) content_len :: "mem \<Rightarrow> addr \<Rightarrow> nat \<Rightarrow> nat option" where
  "content_len m c len = (if m (c + len) = 0 then Some len else content_len m c (len + 1))"

definition ramfs_create_file :: "fs \<Rightarrow> string \<Rightarrow> u32 \<Rightarrow> ptr \<Rightarrow> (fs \<times> int) option" where
  "ramfs_create_file s path md content =
     (if ram_root s = None then Some (s, - ENOENT)
      else do {
        (par, fname) \<leftarrow> ramfs_get_parent_dir s path;
        let dir = (case par of None \<Rightarrow> the (ram_root s) | Some d \<Rightarrow> d);
        let filename = (case par of None \<Rightarrow> copy_name (skip_slash path) | Some _ \<Rightarrow> fname);
        (s1, r) \<leftarrow> ramfs_alloc_inode s (S_IFREG OR md) filename;
        (case r of
           None \<Rightarrow> Some (s1, - ENOMEM)
         | Some a \<Rightarrow> do {
             s2 \<leftarrow> (case content of
                None \<Rightarrow> Some s1
              | Some c \<Rightarrow> do {
                  len \<leftarrow> content_len (kbytes (fheap s1)) c 0;
                  (h, d) \<leftarrow> kmalloc (fheap s1) len GFP_KERNEL;
                  (case d of
                     None \<Rightarrow> Some (upd_node (s1\<lparr>fheap := h\<rparr>) a (\<lambda>n. n\<lparr>rdata := None\<rparr>))
                   | Some da \<Rightarrow>
                       Some (upd_node (s1\<lparr>fheap := h\<lparr>kbytes := copy_data_loop (kbytes h) da c [0..<len]\<rparr>\<rparr>) a
                         (\<lambda>n. n\<lparr>rdata := Some da, rsize := len, data_capacity := len\<rparr>)))
                });
             Some (fst (ramfs_add_child s2 dir a), 0)
           })
      })"

definition ramfs_create_file_bytes :: "fs \<Rightarrow> string \<Rightarrow> u32 \<Rightarrow> ptr \<Rightarrow> nat \<Rightarrow> (fs \<times> int) option" where
  "ramfs_create_file_bytes s path md src sz =
     (if ram_root s = None then Some (s, - ENOENT)
      else do {
        (par, filename) \<leftarrow> ramfs_get_parent_dir s path;
        (case par of
           None \<Rightarrow> Some (s, - ENOENT)
         | Some dir \<Rightarrow> do {
             (s1, r) \<leftarrow> ramfs_alloc_inode s (S_IFREG OR md) filename;
             (case r of
                None \<Rightarrow> Some (s1, - ENOMEM)
              | Some a \<Rightarrow>
                  if src \<noteq> None \<and> sz > 0
                  then do {
                    (h, d) \<leftarrow> kmalloc (fheap s1) sz GFP_KERNEL;
                    (case d of
                       None \<Rightarrow> Some (upd_node (s1\<lparr>fheap := h\<rparr>) a (\<lambda>n. n\<lparr>rdata := None\<rparr>), - ENOMEM)
                     | Some da \<Rightarrow>
                         Some (fst (ramfs_add_child
                           (upd_node (s1\<lparr>fheap := h\<lparr>kbytes := copy_data_loop (kbytes h) da (the src) [0..<sz]\<rparr>\<rparr>) a
                             (\<lambda>n. n\<lparr>rdata := Some da, rsize := sz, data_capacity := sz\<rparr>)) dir a), 0))
                  }
                  else Some (fst (ramfs_add_child s1 dir a), 0))
           })
      })"

definition ramfs_create_dir :: "fs \<Rightarrow> string \<Rightarrow> u32 \<Rightarrow> (fs \<times> int) option" where
  "ramfs_create_dir s path md =
     (case ram_root s of
        None \<Rightarrow> Some (s, - ENOENT)
      | Some root \<Rightarrow> do {
          (s1, r) \<leftarrow> ramfs_alloc_inode s (S_IFDIR OR md) path;
          (case r of
             None \<Rightarrow> Some (s1, - ENOMEM)
           | Some a \<Rightarrow> Some (fst (ramfs_add_child s1 root a), 0))
        })"

end
