(* ===== verification/Ramfs_Spec.thy ===== *)
theory Ramfs_Spec
  imports Ramfs
begin

text \<open>
  What the RAM file system promises: a table of files and directories. \<open>fs_rep s A\<close> says that the
  state \<open>s\<close> represents the table \<open>A\<close>: each directory's linked list of children is the entry list of
  the table, each file's buffer holds the bytes of the table, and the blocks of different inodes are
  different blocks of the kernel heap. Every operation of \<^verbatim>\<open>ramfs.c\<close> is shown to follow an operation
  on tables.
\<close>

section \<open>Tables of files and directories\<close>

datatype anode = AFile "byte list" | ADir "(string \<times> addr) list"

type_synonym table = "addr \<rightharpoonup> anode"
type_synonym nodes = "addr \<Rightarrow> ramfs_inode"

text \<open>What an inode of the table looks like in the heap \<open>h\<close> with the inode structures \<open>N\<close>.\<close>

fun node_rep :: "kheap \<Rightarrow> nodes \<Rightarrow> addr \<Rightarrow> anode \<Rightarrow> bool" where
  "node_rep h N a (AFile bs) \<longleftrightarrow> \<not> S_ISDIR (rmode (N a)) \<and> rsize (N a) = length bs \<and>
     length bs \<le> data_capacity (N a) \<and> data_capacity (N a) \<le> MAX_ALLOC \<and>
     (case rdata (N a) of None \<Rightarrow> data_capacity (N a) = 0
      | Some d \<Rightarrow> read_bytes (kbytes h) d (length bs) = bs)"
| "node_rep h N a (ADir es) \<longleftrightarrow> S_ISDIR (rmode (N a)) \<and> rdata (N a) = None \<and>
     slist (\<lambda>c. sibling (N c)) (children (N a)) (map snd es) \<and>
     (\<forall>(nm, c) \<in> set es. rname (N c) = nm \<and> rparent (N c) = Some a)"

definition entries_closed :: "table \<Rightarrow> bool" where
  "entries_closed A \<longleftrightarrow> (\<forall>a es. A a = Some (ADir es) \<longrightarrow> snd ` set es \<subseteq> dom A)"

text \<open>Inodes and buffers are blocks of the heap, and no block has two uses.\<close>

definition has_block :: "kheap \<Rightarrow> addr \<Rightarrow> nat \<Rightarrow> bool" where
  "has_block h a n \<longleftrightarrow> (\<exists>k \<ge> n. (a, k) \<in> live h)"

definition blocks_ok :: "kheap \<Rightarrow> nodes \<Rightarrow> table \<Rightarrow> bool" where
  "blocks_ok h N A \<longleftrightarrow>
     (\<forall>a \<in> dom A. has_block h a sizeof_ramfs_inode \<and>
       (\<forall>d. rdata (N a) = Some d \<longrightarrow> has_block h d (data_capacity (N a))))"

definition data_separate :: "nodes \<Rightarrow> table \<Rightarrow> bool" where
  "data_separate N A \<longleftrightarrow>
     (\<forall>a \<in> dom A. \<forall>d. rdata (N a) = Some d \<longrightarrow> d \<notin> dom A \<and> (\<forall>b \<in> dom A. rdata (N b) = Some d \<longrightarrow> a = b))"

definition rep :: "kheap \<Rightarrow> nodes \<Rightarrow> table \<Rightarrow> bool" where
  "rep h N A \<longleftrightarrow> heap_inv h \<and> entries_closed A \<and> blocks_ok h N A \<and> data_separate N A \<and>
     (\<forall>a nd. A a = Some nd \<longrightarrow> node_rep h N a nd)"

abbreviation fs_rep :: "fs \<Rightarrow> table \<Rightarrow> bool" where
  "fs_rep s A \<equiv> rep (fheap s) (rnodes s) A"

text \<open>An inode that is in no directory.\<close>

definition unlinked :: "table \<Rightarrow> addr \<Rightarrow> bool" where
  "unlinked A a \<longleftrightarrow> (\<forall>d es. A d = Some (ADir es) \<longrightarrow> a \<notin> snd ` set es)"

lemma repD:
  assumes "rep h N A"
  shows "heap_inv h" and "entries_closed A" and "blocks_ok h N A" and "data_separate N A"
    and "A a = Some nd \<Longrightarrow> node_rep h N a nd"
  using assms by (auto simp: rep_def)

lemma rep_dir:
  assumes "rep h N A" and "A d = Some (ADir es)"
  shows "S_ISDIR (rmode (N d))" and "rdata (N d) = None"
    and "slist (\<lambda>c. sibling (N c)) (children (N d)) (map snd es)"
    and "(nm, c) \<in> set es \<Longrightarrow> rname (N c) = nm" and "(nm, c) \<in> set es \<Longrightarrow> rparent (N c) = Some d"
    and "(nm, c) \<in> set es \<Longrightarrow> c \<in> dom A"
    and "distinct (map snd es)"
proof -
  note r = repD(5) [OF assms] and cl = repD(2) [OF assms(1)]
  from r show l: "slist (\<lambda>c. sibling (N c)) (children (N d)) (map snd es)"
    and "S_ISDIR (rmode (N d))" and "rdata (N d) = None"
    and "(nm, c) \<in> set es \<Longrightarrow> rname (N c) = nm" and "(nm, c) \<in> set es \<Longrightarrow> rparent (N c) = Some d"
    by auto
  show "distinct (map snd es)"
    using l by (rule slist_distinct)
  show "c \<in> dom A" if "(nm, c) \<in> set es"
    using cl assms(2) that unfolding entries_closed_def by fastforce
qed

lemma rep_file:
  assumes "rep h N A" and "A a = Some (AFile bs)"
  shows "\<not> S_ISDIR (rmode (N a))" and "rsize (N a) = length bs"
    and "length bs \<le> data_capacity (N a)" and "data_capacity (N a) \<le> MAX_ALLOC"
    and "rdata (N a) = None \<Longrightarrow> data_capacity (N a) = 0"
    and "rdata (N a) = Some d \<Longrightarrow> read_bytes (kbytes h) d (length bs) = bs"
  using repD(5) [OF assms] by auto

lemma rep_blocks:
  assumes "rep h N A" and "a \<in> dom A"
  shows "has_block h a sizeof_ramfs_inode"
    and "rdata (N a) = Some d \<Longrightarrow> has_block h d (data_capacity (N a))"
    and "rdata (N a) = Some d \<Longrightarrow> d \<notin> dom A"
    and "rdata (N a) = Some d \<Longrightarrow> b \<in> dom A \<Longrightarrow> rdata (N b) = Some d \<Longrightarrow> a = b"
  using repD(3,4) [OF assms(1)] assms(2) unfolding blocks_ok_def data_separate_def by blast+

section \<open>Changes of the heap\<close>

lemma room_mono: "room h n \<Longrightarrow> m \<le> n \<Longrightarrow> room h m"
  unfolding room_def by (auto intro: le_trans)

text \<open>The blocks that belong to the file system.\<close>

definition fs_block :: "nodes \<Rightarrow> table \<Rightarrow> addr \<Rightarrow> bool" where
  "fs_block N A p \<longleftrightarrow> p \<in> dom A \<or> (\<exists>a \<in> dom A. rdata (N a) = Some p)"

lemma fs_blockI: "a \<in> dom A \<Longrightarrow> fs_block N A a" "a \<in> dom A \<Longrightarrow> rdata (N a) = Some d \<Longrightarrow> fs_block N A d"
  by (auto simp: fs_block_def)

text \<open>A change of the heap that leaves the file system's blocks and their bytes alone.\<close>

lemma rep_heap:
  assumes rep: "rep h N A" and inv: "heap_inv h'"
    and keep: "\<And>p k. fs_block N A p \<Longrightarrow> (p, k) \<in> live h \<Longrightarrow> (p, k) \<in> live h'"
    and bytes: "\<And>p k x. fs_block N A p \<Longrightarrow> (p, k) \<in> live h \<Longrightarrow> p \<le> x \<Longrightarrow> x < p + k \<Longrightarrow> kbytes h' x = kbytes h x"
  shows "rep h' N A"
proof -
  have blk: "has_block h' p n" if "has_block h p n" "fs_block N A p" for p n
    using that keep unfolding has_block_def by blast
  have "blocks_ok h' N A"
    using rep_blocks(1,2) [OF rep] blk fs_blockI unfolding blocks_ok_def by blast
  moreover have "node_rep h' N a nd" if a: "A a = Some nd" for a nd
  proof (cases nd)
    case (AFile bs)
    have "read_bytes (kbytes h') d (length bs) = read_bytes (kbytes h) d (length bs)" if d: "rdata (N a) = Some d" for d
    proof -
      from rep_blocks(2) [OF rep _ d] a obtain k where k: "data_capacity (N a) \<le> k" "(d, k) \<in> live h"
        unfolding has_block_def by auto
      moreover have "fs_block N A d"
        using fs_blockI(2) [of a A N d] a d by auto
      moreover have "length bs \<le> data_capacity (N a)"
        using rep_file(3) [OF rep] a AFile by blast
      ultimately show ?thesis
        using bytes [of d k] by (intro read_bytes_cong) simp
    qed
    with repD(5) [OF rep a] AFile show ?thesis
      by (auto split: option.splits)
  next
    case (ADir es)
    with repD(5) [OF rep a] show ?thesis by simp
  qed
  ultimately show ?thesis
    using rep inv by (simp add: rep_def)
qed

lemma kzalloc_frame:
  assumes "heap_inv h"
  obtains (none) "kzalloc h n f = Some (h, None)" and "n = 0 \<or> n > MAX_ALLOC \<or> \<not> room h (n + 72)"
  | (some) h' p k where "kzalloc h n f = Some (h', Some p)" and "heap_inv h'" and "n \<le> k"
      and "live h' = insert (p, k) (live h)" and "(p, k) \<notin> live h"
      and "\<And>q l x. (q, l) \<in> live h \<Longrightarrow> q \<le> x \<Longrightarrow> x < q + l \<Longrightarrow> kbytes h' x = kbytes h x"
      and "\<And>q l. (q, l) \<in> live h \<Longrightarrow> disjoint_ranges p k q l"
      and "\<And>j. 72 \<le> j \<Longrightarrow> room h (j + (n + 72)) \<Longrightarrow> room h' j"
  using assms
proof (cases rule: kmalloc_result [where sz = n and flags = "f OR GFP_ZERO"])
  case none
  then show ?thesis using that(1) by (fastforce simp: kzalloc_def room_def)
next
  case (some h' p k)
  have dis: "disjoint_ranges p k q l" if "(q, l) \<in> live h" for q l
    using live_disjoint [OF some(2), of p k q l] some(4,5) that by auto
  have "kbytes h' x = kbytes h x" if "(q, l) \<in> live h" "q \<le> x" "x < q + l" for q l x
    using kmalloc_bytes [OF some(8)] dis [OF that(1)] that(2,3) some(3)
    by (auto simp: disjoint_ranges_def)
  with some dis that(2) [of h' p k] show ?thesis
    by (simp add: kzalloc_def add.assoc)
qed

lemma kmalloc_frame:
  assumes "heap_inv h"
  obtains (none) "kmalloc h n GFP_KERNEL = Some (h, None)" and "n = 0 \<or> n > MAX_ALLOC \<or> \<not> room h (n + 72)"
  | (some) h' p k where "kmalloc h n GFP_KERNEL = Some (h', Some p)" and "heap_inv h'" and "n \<le> k"
      and "live h' = insert (p, k) (live h)" and "(p, k) \<notin> live h" and "n \<le> MAX_ALLOC"
      and "kbytes h' = kbytes h" and "heap_start h' = heap_start h" and "heap_end h' = heap_end h"
      and "\<And>q l. (q, l) \<in> live h \<Longrightarrow> disjoint_ranges p k q l"
  using assms
proof (cases rule: kmalloc_result [where sz = n and flags = GFP_KERNEL])
  case none
  then show ?thesis using that(1) by (fastforce simp: room_def)
next
  case (some h' p k)
  have dis: "disjoint_ranges p k q l" if "(q, l) \<in> live h" for q l
    using live_disjoint [OF some(2), of p k q l] some(4,5) that by auto
  from some dis that(2) [of h' p k] show ?thesis by auto
qed

text \<open>A new block is not one of the file system's.\<close>

lemma fresh_block:
  assumes "rep h N A" and "(p, k) \<notin> live h" and "heap_inv h'" and "live h' = insert (p, k) (live h)"
  shows "\<not> fs_block N A p" and "p \<notin> dom A" and "a \<in> dom A \<Longrightarrow> rdata (N a) \<noteq> Some p"
proof -
  have "(p, l) \<notin> live h" for l
    using live_functional [OF assms(3), of p k l] assms(2,4) by auto
  then show "\<not> fs_block N A p"
    using rep_blocks(1,2) [OF assms(1)] unfolding fs_block_def has_block_def by blast
  then show "p \<notin> dom A" and "a \<in> dom A \<Longrightarrow> rdata (N a) \<noteq> Some p"
    by (auto simp: fs_block_def)
qed

section \<open>The list of a directory\<close>

lemma name_match_eq [simp]: "name_match xs ys \<longleftrightarrow> xs = ys"
  by (induction xs ys rule: name_match.induct) auto

lemma lookup_loop_eq:
  assumes "slist (\<lambda>c. sibling (N c)) x (map snd es)" and "\<And>nm c. (nm, c) \<in> set es \<Longrightarrow> rname (N c) = nm"
  shows "lookup_loop N x nm = Some (map_of es nm)"
  using assms
proof (induction es arbitrary: x)
  case Nil
  then show ?case by (simp add: lookup_loop.simps)
next
  case (Cons e es)
  obtain n c where e: "e = (n, c)" by (cases e)
  with Cons.prems Cons.IH [of "sibling (N c)"] show ?case
    by (subst lookup_loop.simps) auto
qed

lemma lookup_child_dir:
  "rep (fheap s) (rnodes s) A \<Longrightarrow> A d = Some (ADir es) \<Longrightarrow> ramfs_lookup_child s d nm = Some (map_of es nm)"
  unfolding ramfs_lookup_child_def
  using lookup_loop_eq [of "rnodes s" "children (rnodes s d)" es nm] rep_dir(1,3,4) [of "fheap s" "rnodes s" A d es]
  by auto

lemma lookup_child_file:
  "rep (fheap s) (rnodes s) A \<Longrightarrow> A d = Some (AFile bs) \<Longrightarrow> ramfs_lookup_child s d nm = Some None"
  by (simp add: ramfs_lookup_child_def rep_file)

text \<open>The two loops that take an inode out of the list redirect the link that leads to it.\<close>

lemma unlink_loop_eq:
  assumes "slist (\<lambda>c. sibling (N c)) (load_link N prev) (us @ t # vs)"
  shows "unlink_loop N prev t =
    Some (store_link N (if us = [] then prev else Sibling_of (last us)) (sibling (N t)))"
  using assms
proof (induction us arbitrary: prev)
  case Nil
  then show ?case by (subst unlink_loop.simps) simp
next
  case (Cons u us)
  have "u \<noteq> t"
    using slist_distinct [OF Cons.prems] by auto
  with Cons show ?case
    by (subst unlink_loop.simps) auto
qed

lemma rename_find_eq:
  assumes "slist (\<lambda>c. sibling (N c)) x (u # us @ t # vs)"
  shows "rename_find N x t = Some (Some (last (u # us)))"
  using assms
proof (induction us arbitrary: x u)
  case Nil
  then show ?case by (subst rename_find.simps) simp
next
  case (Cons v us)
  have "v \<noteq> t"
    using slist_distinct [OF Cons.prems] by auto
  with Cons.prems Cons.IH [of "sibling (N u)" v] show ?case
    by (subst rename_find.simps) auto
qed

lemma rename_unlink_eq:
  assumes "slist (\<lambda>c. sibling (N c)) (children (N d)) (us @ t # vs)"
  shows "rename_unlink N d t =
    Some (store_link N (if us = [] then Children_of d else Sibling_of (last us)) (sibling (N t)))"
proof (cases us)
  case Nil
  with assms show ?thesis by (simp add: rename_unlink_def)
next
  case (Cons u ws)
  with assms have "children (N d) = Some u" "u \<noteq> t"
    using slist_distinct [OF assms] by auto
  moreover have "rename_find N (children (N d)) t = Some (Some (last us))"
    using assms Cons rename_find_eq [of N "children (N d)" u ws t vs] by simp
  ultimately show ?thesis
    using Cons by (simp add: rename_unlink_def)
qed

section \<open>Relinking inodes\<close>

lemma entries_closed_upd:
  assumes "entries_closed A" and "\<And>es. nd = ADir es \<Longrightarrow> snd ` set es \<subseteq> dom A"
  shows "entries_closed (A(d \<mapsto> nd))"
  unfolding entries_closed_def
proof (intro allI impI)
  fix a es'
  assume "(A(d \<mapsto> nd)) a = Some (ADir es')"
  with assms have "snd ` set es' \<subseteq> dom A"
    unfolding entries_closed_def by (cases "a = d") auto
  then show "snd ` set es' \<subseteq> dom (A(d \<mapsto> nd))"
    by auto
qed

text \<open>The fields that pointer surgery on the directory lists leaves alone.\<close>

definition core :: "ramfs_inode \<Rightarrow> u32 \<times> nat \<times> ptr \<times> nat" where
  "core n = (rmode n, rsize n, rdata n, data_capacity n)"

lemma rep_relink:
  assumes rep: "rep h N A" and core: "\<And>a. core (N' a) = core (N a)"
    and files: "\<And>a bs. A' a = Some (AFile bs) \<longleftrightarrow> A a = Some (AFile bs)" and dom: "dom A' = dom A"
    and closed: "entries_closed A'"
    and dirs: "\<And>d es. A' d = Some (ADir es) \<Longrightarrow>
      slist (\<lambda>c. sibling (N' c)) (children (N' d)) (map snd es) \<and>
      (\<forall>(nm, c) \<in> set es. rname (N' c) = nm \<and> rparent (N' c) = Some d)"
  shows "rep h N' A'"
proof -
  have eq: "rmode (N' a) = rmode (N a)" "rsize (N' a) = rsize (N a)" "rdata (N' a) = rdata (N a)"
      "data_capacity (N' a) = data_capacity (N a)" for a
    using core [of a] by (simp_all add: core_def)
  have "node_rep h N' a nd" if a: "A' a = Some nd" for a nd
  proof (cases nd)
    case (AFile bs)
    with a files repD(5) [OF rep, of a nd] eq show ?thesis by (simp split: option.splits)
  next
    case (ADir es)
    obtain nd' where nd': "A a = Some nd'"
      using a dom by auto
    then obtain es' where "A a = Some (ADir es')"
      using files [of a] a ADir by (cases nd') auto
    with rep_dir(1,2) [OF rep] dirs [of a es] a ADir eq show ?thesis by simp
  qed
  moreover have "blocks_ok h N' A'"
    using repD(3) [OF rep] by (simp add: blocks_ok_def dom eq)
  moreover have "data_separate N' A'"
    using repD(4) [OF rep] unfolding data_separate_def dom eq .
  ultimately show ?thesis
    using repD(1) [OF rep] closed by (simp add: rep_def)
qed

lemma child_unique:
  assumes "rep h N A" and "A d = Some (ADir es)" and "A d' = Some (ADir es')"
    and "c \<in> snd ` set es" and "c \<in> snd ` set es'"
  shows "d' = d"
proof -
  from assms(4,5) obtain m m' where "(m, c) \<in> set es" "(m', c) \<in> set es'"
    by auto
  then show ?thesis
    using rep_dir(5) [OF assms(1,2), of m c] rep_dir(5) [OF assms(1,3), of m' c] by simp
qed

text \<open>Taking an inode out of its directory.\<close>

lemma store_link_core [simp]: "core (store_link N l p a) = core (N a)"
  by (cases l) (auto simp: core_def)

lemma store_link_other:
  "rname (store_link N l p a) = rname (N a)" "rparent (store_link N l p a) = rparent (N a)"
  by (cases l; simp)+

lemma store_link_sibling:
  "sibling (store_link N l p c) = (if l = Sibling_of c then p else sibling (N c))"
  by (cases l) auto

lemma store_link_children:
  "children (store_link N l p c) = (if l = Children_of c then p else children (N c))"
  by (cases l) auto

lemma rep_unlink:
  assumes rep: "rep h N A" and d: "A d = Some (ADir (us @ (nm, t) # vs))"
  defines "l \<equiv> if us = [] then Children_of d else Sibling_of (last (map snd us))"
  shows "rep h (store_link N l (sibling (N t))) (A(d \<mapsto> ADir (us @ vs)))"
    and "unlinked (A(d \<mapsto> ADir (us @ vs))) t"
proof -
  let ?N = "store_link N l (sibling (N t))" and ?A = "A(d \<mapsto> ADir (us @ vs))"
  note dir = rep_dir [OF rep d]
  have own: "slist (\<lambda>c. sibling (?N c)) (children (?N d)) (map snd (us @ vs))"
  proof (cases us rule: rev_cases)
    case Nil
    have "(\<lambda>c. sibling (?N c)) = (\<lambda>c. sibling (N c))"
      by (auto simp: store_link_sibling l_def Nil)
    with dir(3) Nil show ?thesis by (simp add: l_def store_link_children)
  next
    case (snoc ws w)
    have "(\<lambda>c. sibling (?N c)) = (\<lambda>c. sibling (N c))(snd w := sibling (N t))"
      by (auto simp: store_link_sibling l_def snoc)
    with slist_remove [of "\<lambda>c. sibling (N c)" "children (N d)" "map snd ws" "snd w" t "map snd vs"] dir(3) snoc
    show ?thesis by (auto simp: store_link_children l_def)
  qed
  have other: "slist (\<lambda>c. sibling (?N c)) (children (?N d')) (map snd es')"
    if d': "A d' = Some (ADir es')" "d' \<noteq> d" for d' es'
  proof -
    have "l \<noteq> Sibling_of c" if c: "c \<in> snd ` set es'" for c
    proof
      assume "l = Sibling_of c"
      then have "c \<in> snd ` set (us @ (nm, t) # vs)"
        by (cases us rule: rev_cases) (auto simp: l_def)
      with child_unique [OF rep d d'(1) _ c] d'(2) show False by simp
    qed
    moreover have "l \<noteq> Children_of d'"
      using d'(2) by (auto simp: l_def)
    ultimately show ?thesis
      using rep_dir(3) [OF rep d'(1)] slist_cong [of "map snd es'" "\<lambda>c. sibling (?N c)" "\<lambda>c. sibling (N c)"]
      by (simp add: store_link_sibling store_link_children image_iff)
  qed
  show "rep h ?N ?A"
  proof (rule rep_relink [OF rep])
    show "entries_closed ?A"
      using dir(6) by (intro entries_closed_upd [OF repD(2) [OF rep]]) fastforce
    fix d' es'
    assume d': "?A d' = Some (ADir es')"
    show "slist (\<lambda>c. sibling (?N c)) (children (?N d')) (map snd es') \<and>
        (\<forall>(m, c) \<in> set es'. rname (?N c) = m \<and> rparent (?N c) = Some d')"
    proof (cases "d' = d")
      case True
      with d' have "es' = us @ vs" by simp
      with own True dir(4,5) show ?thesis by (simp add: store_link_other ball_Un) auto
    next
      case False
      with d' have "A d' = Some (ADir es')" by simp
      with other [OF this False] rep_dir(4,5) [OF rep this] show ?thesis
        by (auto simp: store_link_other)
    qed
  qed (use d in auto)
  show "unlinked ?A t"
    unfolding unlinked_def
  proof (intro allI impI)
    fix d' es'
    assume es': "?A d' = Some (ADir es')"
    show "t \<notin> snd ` set es'"
    proof (cases "d' = d")
      case True
      with es' have "es' = us @ vs" by simp
      with dir(7) show ?thesis by (simp add: image_Un)
    next
      case False
      with es' have "A d' = Some (ADir es')" by simp
      from child_unique [OF rep d this, of t] False show ?thesis by auto
    qed
  qed
qed

text \<open>Putting an inode that is in no directory in front of a directory's list, under its current name.\<close>

definition link_in :: "nodes \<Rightarrow> addr \<Rightarrow> addr \<Rightarrow> string \<Rightarrow> nodes" where
  "link_in N d t nm =
     (let N1 = N(t := (N t)\<lparr>rparent := Some d, sibling := children (N d), rname := nm\<rparr>)
      in N1(d := (N1 d)\<lparr>children := Some t\<rparr>))"

lemma link_in_fields:
  assumes "d \<noteq> t"
  shows "core (link_in N d t nm a) = core (N a)"
    and "children (link_in N d t nm a) = (if a = d then Some t else children (N a))"
    and "sibling (link_in N d t nm a) = (if a = t then children (N d) else sibling (N a))"
    and "rname (link_in N d t nm a) = (if a = t then nm else rname (N a))"
    and "rparent (link_in N d t nm a) = (if a = t then Some d else rparent (N a))"
  using assms by (auto simp: link_in_def core_def Let_def)

lemma rep_link:
  assumes rep: "rep h N A" and d: "A d = Some (ADir es)" and t: "t \<in> dom A" "d \<noteq> t" "unlinked A t"
  shows "rep h (link_in N d t nm) (A(d \<mapsto> ADir ((nm, t) # es)))"
proof (rule rep_relink [OF rep])
  show "entries_closed (A(d \<mapsto> ADir ((nm, t) # es)))"
    using rep_dir(6) [OF rep d] t(1) by (intro entries_closed_upd [OF repD(2) [OF rep]]) fastforce
next
  fix d' es'
  assume d': "(A(d \<mapsto> ADir ((nm, t) # es))) d' = Some (ADir es')"
  have off: "t \<notin> snd ` set es''" if "A b = Some (ADir es'')" for b es''
    using t(3) that unfolding unlinked_def by blast
  have lst: "slist (\<lambda>c. sibling (link_in N d t nm c)) x (map snd es'')
      \<and> (\<forall>(m, c) \<in> set es''. rname (link_in N d t nm c) = m \<and> rparent (link_in N d t nm c) = Some b)"
    if b: "A b = Some (ADir es'')" and x: "x = children (N b)" for b es'' x
  proof -
    have "slist (\<lambda>c. sibling (link_in N d t nm c)) x (map snd es'') = slist (\<lambda>c. sibling (N c)) x (map snd es'')"
      using off [OF b] by (intro slist_cong) (auto simp: link_in_fields [OF t(2)])
    moreover have "c \<noteq> t" if "(m, c) \<in> set es''" for m c
      using off [OF b] that by force
    ultimately show ?thesis
      using rep_dir(3-5) [OF rep b] x by (auto simp: link_in_fields [OF t(2)])
  qed
  show "slist (\<lambda>c. sibling (link_in N d t nm c)) (children (link_in N d t nm d')) (map snd es') \<and>
      (\<forall>(m, c) \<in> set es'. rname (link_in N d t nm c) = m \<and> rparent (link_in N d t nm c) = Some d')"
  proof (cases "d' = d")
    case True
    with d' have "es' = (nm, t) # es" by simp
    with lst [OF d refl] True show ?thesis
      by (simp add: link_in_fields [OF t(2)])
  next
    case False
    with d' lst [of d' es'] show ?thesis
      by (simp add: link_in_fields [OF t(2)])
  qed
qed (use d t in \<open>auto simp: link_in_fields\<close>)

section \<open>New and removed inodes\<close>

definition empty_node :: "ramfs_inode \<Rightarrow> bool" where
  "empty_node n \<longleftrightarrow> rdata n = None \<and> rsize n = 0 \<and> data_capacity n = 0 \<and> children n = None"

definition blank :: "u32 \<Rightarrow> anode" where
  "blank md = (if S_ISDIR md then ADir [] else AFile [])"

lemma rep_new:
  assumes rep: "rep h N A" and p: "p \<notin> dom A" "has_block h p sizeof_ramfs_inode" "\<not> fs_block N A p"
    and n: "empty_node n"
  shows "rep h (N(p := n)) (A(p \<mapsto> blank (rmode n)))" and "unlinked (A(p \<mapsto> blank (rmode n))) p"
proof -
  let ?N = "N(p := n)" and ?A = "A(p \<mapsto> blank (rmode n))"
  have dir: "p \<notin> snd ` set es" if "A a = Some (ADir es)" for a es
    using repD(2) [OF rep] p(1) that unfolding entries_closed_def by blast
  have "entries_closed ?A"
    by (rule entries_closed_upd [OF repD(2) [OF rep]]) (simp add: blank_def split: if_splits)
  moreover have "blocks_ok h ?N ?A"
    using repD(3) [OF rep] p(2) n by (auto simp: blocks_ok_def empty_node_def)
  moreover have "data_separate ?N ?A"
    unfolding data_separate_def
  proof (intro ballI allI impI conjI)
    fix a d b
    assume a: "a \<in> dom ?A" "rdata (?N a) = Some d"
    then have a': "a \<noteq> p" "a \<in> dom A" "rdata (N a) = Some d"
      using n by (auto simp: empty_node_def split: if_splits)
    with p(3) show "d \<notin> dom ?A"
      using rep_blocks(3) [OF rep] by (auto simp: fs_block_def)
    assume "b \<in> dom ?A" "rdata (?N b) = Some d"
    with n have "b \<in> dom A" "rdata (N b) = Some d"
      by (auto simp: empty_node_def split: if_splits)
    with a' show "a = b"
      using rep_blocks(4) [OF rep] by blast
  qed
  moreover have "node_rep h ?N a nd" if "?A a = Some nd" for a nd
  proof (cases "a = p")
    case True
    with that n show ?thesis by (auto simp: blank_def empty_node_def)
  next
    case False
    with that have a: "A a = Some nd" by simp
    show ?thesis
    proof (cases nd)
      case (AFile bs)
      with repD(5) [OF rep a] False show ?thesis by (simp split: option.splits)
    next
      case (ADir es)
      have "slist (\<lambda>c. sibling (?N c)) x (map snd es) = slist (\<lambda>c. sibling (N c)) x (map snd es)" for x
        using dir a ADir by (intro slist_cong) auto
      moreover have "c \<noteq> p" if "(m, c) \<in> set es" for m c
        using dir a ADir that by force
      ultimately show ?thesis
        using rep_dir(1-5) [OF rep, of a es] a ADir False by auto
    qed
  qed
  ultimately show "rep h ?N ?A"
    using repD(1) [OF rep] by (simp add: rep_def)
  show "unlinked ?A p"
    using dir by (auto simp: unlinked_def blank_def split: if_splits)
qed

lemma rep_drop:
  assumes rep: "rep h N A" and t: "unlinked A t"
  shows "rep h N (A(t := None))"
proof -
  have dom: "dom (A(t := None)) = dom A - {t}"
    by simp
  have "snd ` set es \<subseteq> dom A - {t}" if "(A(t := None)) a = Some (ADir es)" for a es
  proof -
    from that have "A a = Some (ADir es)" by (simp split: if_splits)
    with repD(2) [OF rep] t show ?thesis
      unfolding entries_closed_def unlinked_def by blast
  qed
  then have "entries_closed (A(t := None))"
    unfolding entries_closed_def dom by blast
  moreover have "blocks_ok h N (A(t := None))"
    using repD(3) [OF rep] unfolding blocks_ok_def dom by blast
  moreover have "data_separate N (A(t := None))"
    using repD(4) [OF rep] unfolding data_separate_def dom by blast
  ultimately show ?thesis
    using rep by (auto simp: rep_def)
qed

section \<open>The building blocks of the operations\<close>

lemma alloc_inode_rep:
  assumes rep: "fs_rep s A"
  obtains (none) "ramfs_alloc_inode s md nm = Some (s, None)" and "\<not> room (fheap s) 400"
  | (some) s' a k n where "ramfs_alloc_inode s md nm = Some (s', Some a)" and "fs_rep s' (A(a \<mapsto> blank md))"
      and "unlinked (A(a \<mapsto> blank md)) a" and "a \<notin> dom A"
      and "rnodes s' = (rnodes s)(a := n)" and "rname n = copy_name nm" and "rmode n = md"
      and "rdata n = None"
      and "inodes s' = inodes s" and "dentries s' = dentries s" and "files s' = files s" and "ram_root s' = ram_root s"
      and "live (fheap s') = insert (a, k) (live (fheap s))" and "sizeof_ramfs_inode \<le> k" and "(a, k) \<notin> live (fheap s)"
      and "\<And>q l x. (q, l) \<in> live (fheap s) \<Longrightarrow> q \<le> x \<Longrightarrow> x < q + l \<Longrightarrow> kbytes (fheap s') x = kbytes (fheap s) x"
      and "\<And>j. 72 \<le> j \<Longrightarrow> room (fheap s) (j + 400) \<Longrightarrow> room (fheap s') j"
  using repD(1) [OF rep]
proof (cases rule: kzalloc_frame [where n = sizeof_ramfs_inode and f = GFP_KERNEL])
  case none
  then show ?thesis using that(1) by (simp add: ramfs_alloc_inode_def MAX_ALLOC_def)
next
  case (some h a k)
  let ?n = "\<lparr>rino = next_ino s, rmode = md, ruid = 0, rgid = 0, rsize = 0, rdata = None, data_capacity = 0,
    rparent = None, children = None, sibling = None, rname = copy_name nm\<rparr>"
  let ?s = "s\<lparr>fheap := h, rnodes := (rnodes s)(a := ?n), next_ino := next_ino s + 1, inode_count := inode_count s + 1\<rparr>"
  note fresh = fresh_block [OF rep some(5,2,4)]
  have "rep h (rnodes s) A"
    using some(4,6) by (intro rep_heap [OF rep some(2)]) auto
  moreover have "has_block h a sizeof_ramfs_inode"
    using some(3,4) by (auto simp: has_block_def)
  moreover have "empty_node ?n"
    by (simp add: empty_node_def)
  ultimately have "fs_rep ?s (A(a \<mapsto> blank md))" "unlinked (A(a \<mapsto> blank md)) a"
    using rep_new [of h "rnodes s" A a ?n] fresh by simp_all
  moreover have "ramfs_alloc_inode s md nm = Some (?s, Some a)"
    using some(1) by (simp add: ramfs_alloc_inode_def)
  ultimately show ?thesis
    using that(2) [of ?s a ?n k] some(3,4,5,6,8) fresh(2) by simp
qed

lemma add_child_eq:
  "S_ISDIR (rmode (rnodes s d)) \<Longrightarrow> d \<noteq> a \<Longrightarrow>
     ramfs_add_child s d a = (s\<lparr>rnodes := link_in (rnodes s) d a (rname (rnodes s a))\<rparr>, 0)"
  by (simp add: ramfs_add_child_def link_in_def Let_def)

lemma dom_None: "dom (A(t := None)) = dom A - {t}"
  by simp

lemma live_remove:
  assumes "heap_inv h" and "(p, n) \<in> live h"
  shows "live h - {(p, n)} = {(q, k) \<in> live h. q \<noteq> p}"
proof -
  have "(q, k) \<noteq> (p, n) \<longleftrightarrow> q \<noteq> p" if "(q, k) \<in> live h" for q k
    using live_functional [OF assms, of k] that by blast
  then show ?thesis by blast
qed

lemma free_inode_rep:
  assumes rep: "fs_rep s A" and t: "t \<in> dom A" "unlinked A t"
  obtains s' where "ramfs_free_inode s (Some t) = Some s'" and "fs_rep s' (A(t := None))"
    and "live (fheap s') = {(p, k) \<in> live (fheap s). p \<noteq> t \<and> rdata (rnodes s t) \<noteq> Some p}"
    and "rnodes s' = rnodes s" and "inodes s' = inodes s" and "dentries s' = dentries s" and "files s' = files s"
    and "inode_count s' = inode_count s - 1" and "kbytes (fheap s') = kbytes (fheap s)"
proof -
  let ?d = "rdata (rnodes s t)"
  obtain h1 where h1: "(if ?d \<noteq> None then kfree (fheap s) ?d else Some (fheap s)) = Some h1" "heap_inv h1"
      "live h1 = {(p, k) \<in> live (fheap s). ?d \<noteq> Some p}" "kbytes h1 = kbytes (fheap s)"
  proof (cases ?d)
    case None
    with that repD(1) [OF rep] show ?thesis by auto
  next
    case (Some d)
    from rep_blocks(2) [OF rep t(1) this] obtain k where k: "(d, k) \<in> live (fheap s)"
      by (auto simp: has_block_def)
    from kfree_live [OF repD(1) [OF rep] k] obtain h1 where
        "kfree (fheap s) (Some d) = Some h1" "heap_inv h1" "live h1 = live (fheap s) - {(d, k)}"
        "kbytes h1 = kbytes (fheap s)" .
    with Some that [of h1] live_remove [OF repD(1) [OF rep] k] show ?thesis by auto
  qed
  from rep_blocks(1) [OF rep t(1)] obtain k where k0: "(t, k) \<in> live (fheap s)"
    by (auto simp: has_block_def)
  moreover have "?d \<noteq> Some t"
    using rep_blocks(3) [OF rep t(1)] t(1) by blast
  ultimately have k: "(t, k) \<in> live h1"
    by (simp add: h1(3))
  from kfree_live [OF h1(2) k] obtain h2 where h2: "kfree h1 (Some t) = Some h2" "heap_inv h2"
      "live h2 = live h1 - {(t, k)}" "kbytes h2 = kbytes h1" .
  have lv: "live h2 = {(p, k) \<in> live (fheap s). p \<noteq> t \<and> ?d \<noteq> Some p}"
    unfolding h2(3) [unfolded live_remove [OF h1(2) k]] h1(3) by auto
  have no: "\<not> fs_block (rnodes s) (A(t := None)) p" if "p = t \<or> ?d = Some p" for p
  proof -
    have "p \<notin> dom A - {t}"
      using that rep_blocks(3) [OF rep t(1)] by blast
    moreover have "rdata (rnodes s a) \<noteq> Some p" if "a \<in> dom A - {t}" for a
      using that \<open>p = t \<or> ?d = Some p\<close> rep_blocks(3) [OF rep, of a] rep_blocks(4) [OF rep t(1), of p a] t(1) by blast
    ultimately show ?thesis
      unfolding fs_block_def dom_None by blast
  qed
  have "rep h2 (rnodes s) (A(t := None))"
    using no by (intro rep_heap [OF rep_drop [OF rep t(2)] h2(2)]) (auto simp: lv h1(4) h2(4))
  then show ?thesis
    using that [of "s\<lparr>fheap := h2, inode_count := inode_count s - 1\<rparr>"] h1(1,4) h2(1,4) lv
    by (simp add: ramfs_free_inode_def)
qed

lemma new_vfs_inode_rep:
  assumes rep: "fs_rep s A"
  obtains (none) "new_vfs_inode s dir de ram sz fop = Some (s, False)" and "\<not> room (fheap s) 216"
  | (some) s' v k where "new_vfs_inode s dir de ram sz fop = Some (s', True)" and "fs_rep s' A"
      and "rnodes s' = rnodes s" and "files s' = files s" and "ram_root s' = ram_root s"
      and "inodes s' = (inodes s)(Obj v := \<lparr>i_ino = rino (rnodes s ram), i_mode = rmode (rnodes s ram), i_size = sz,
               i_op = Some Ramfs_inode_ops, i_fop = Some fop, i_sb = i_sb (inodes s dir), i_private = Some ram\<rparr>)"
      and "dentries s' = (dentries s)(de := (dentries s de)\<lparr>d_inode := Some (Obj v)\<rparr>)"
      and "live (fheap s') = insert (v, k) (live (fheap s))" and "(v, k) \<notin> live (fheap s)"
      and "sizeof_inode \<le> k"
      and "\<And>q l x. (q, l) \<in> live (fheap s) \<Longrightarrow> q \<le> x \<Longrightarrow> x < q + l \<Longrightarrow> kbytes (fheap s') x = kbytes (fheap s) x"
      and "\<And>j. 72 \<le> j \<Longrightarrow> room (fheap s) (j + 216) \<Longrightarrow> room (fheap s') j"
  using repD(1) [OF rep]
proof (cases rule: kzalloc_frame [where n = sizeof_inode and f = GFP_KERNEL])
  case none
  then show ?thesis using that(1) by (simp add: new_vfs_inode_def MAX_ALLOC_def)
next
  case (some h v k)
  have "rep h (rnodes s) A"
    using some(4,6) by (intro rep_heap [OF rep some(2)]) auto
  with some that(2) [where v = v and k = k] show ?thesis
    by (simp add: new_vfs_inode_def)
qed

section \<open>Properties of the directory operations\<close>

text \<open>The common course of \<open>ramfs_create\<close> and \<open>ramfs_mkdir\<close>.\<close>

definition make_entry :: "fs \<Rightarrow> obj_ref \<Rightarrow> obj_ref \<Rightarrow> u32 \<Rightarrow> file_operations \<Rightarrow> (fs \<times> int) option" where
  "make_entry s dir de md fop = do {
     (s1, r) \<leftarrow> ramfs_alloc_inode s md (d_name (dentries s de));
     (case r of
        None \<Rightarrow> Some (s1, - ENOMEM)
      | Some a \<Rightarrow> do {
          ram_dir \<leftarrow> i_private (inodes s dir);
          (s2, ok) \<leftarrow> new_vfs_inode (fst (ramfs_add_child s1 ram_dir a)) dir de a 0 fop;
          Some (s2, if ok then 0 else - ENOMEM)
        })
   }"

lemma make_entry_ops:
  "ramfs_create s dir de md = make_entry s dir de (S_IFREG OR md) Ramfs_file_ops"
  "ramfs_mkdir s dir de md = make_entry s dir de (S_IFDIR OR md) Ramfs_dir_ops"
  by (simp_all add: ramfs_create_def ramfs_mkdir_def make_entry_def)

lemma make_entry_rep:
  fixes de
  assumes rep: "fs_rep s A" and dir: "i_private (inodes s dir) = Some d" "A d = Some (ADir es)"
  defines "nm \<equiv> copy_name (d_name (dentries s de))"
  obtains (full) "make_entry s dir de md fop = Some (s, - ENOMEM)" and "\<not> room (fheap s) 616"
  | (half) s' a where "make_entry s dir de md fop = Some (s', - ENOMEM)" and "a \<notin> dom A" and "dentries s' = dentries s"
      and "fs_rep s' (A(a \<mapsto> blank md, d \<mapsto> ADir ((nm, a) # es)))" and "\<not> room (fheap s) 616"
  | (made) s' a v where "make_entry s dir de md fop = Some (s', 0)" and "a \<notin> dom A"
      and "fs_rep s' (A(a \<mapsto> blank md, d \<mapsto> ADir ((nm, a) # es)))"
      and "d_inode (dentries s' de) = Some (Obj v)" and "i_private (inodes s' (Obj v)) = Some a"
      and "i_mode (inodes s' (Obj v)) = md" and "i_fop (inodes s' (Obj v)) = Some fop" and "files s' = files s"
      and "live (fheap s) \<subseteq> live (fheap s')" and "\<And>j. 72 \<le> j \<Longrightarrow> room (fheap s) (j + 616) \<Longrightarrow> room (fheap s') j"
  using rep
proof (cases rule: alloc_inode_rep [where md = md and nm = "d_name (dentries s de)"])
  case none
  with full room_mono [of "fheap s" 616 400] show ?thesis by (auto simp: make_entry_def)
next
  case (some s1 a k n)
  let ?A = "A(a \<mapsto> blank md)" and ?B = "A(a \<mapsto> blank md, d \<mapsto> ADir ((nm, a) # es))"
  have da: "d \<noteq> a"
    using dir(2) some(4) by auto
  have "?A d = Some (ADir es)" "a \<in> dom ?A"
    using dir(2) da by auto
  note d1 = this(1) and lnk = rep_link [OF some(2) this da some(3), of nm]
  let ?s2 = "s1\<lparr>rnodes := link_in (rnodes s1) d a nm\<rparr>"
  have s2: "ramfs_add_child s1 d a = (?s2, 0)"
    using add_child_eq [OF rep_dir(1) [OF some(2) d1] da] some(5,6) by (simp add: nm_def)
  have r2: "fs_rep ?s2 ?B"
    using lnk by simp
  then show ?thesis
  proof (cases rule: new_vfs_inode_rep [where dir = dir and de = de and ram = a and sz = 0 and fop = fop])
    case none
    with some(1) s2 dir(1) have "make_entry s dir de md fop = Some (?s2, - ENOMEM)"
      by (simp add: make_entry_def)
    moreover have "\<not> room (fheap s) 616"
      using none(2) some(17) [of 216] by auto
    ultimately show ?thesis
      using half [of ?s2 a] some(4,10) r2 by simp
  next
    case (some s3 v k')
    have "room (fheap s3) j" if "72 \<le> j" "room (fheap s) (j + 616)" for j
      using that some(12) [of j] \<open>\<And>j. 72 \<le> j \<Longrightarrow> room (fheap s) (j + 400) \<Longrightarrow> room (fheap s1) j\<close> [of "j + 216"]
      by (simp add: add.assoc)
    moreover have "rmode (rnodes ?s2 a) = md"
      using \<open>rnodes s1 = _\<close> \<open>rmode n = md\<close> da by (simp add: link_in_def Let_def)
    moreover have "make_entry s dir de md fop = Some (s3, 0)"
      using \<open>ramfs_alloc_inode _ _ _ = _\<close> s2 dir(1) some(1) by (simp add: make_entry_def)
    ultimately show ?thesis
      using made [of s3 a v] some(2,4,6,7,8) \<open>a \<notin> dom A\<close> \<open>files s1 = files s\<close>
        \<open>live (fheap s1) = _\<close> by auto
  qed
qed

lemma mode_reg: "blank (S_IFREG OR md) = AFile []"
proof -
  have "bit ((S_IFREG OR md) AND S_IFMT) 15" "\<not> bit S_IFDIR 15"
    by (simp_all add: bit_simps)
  then show ?thesis
    by (auto simp: blank_def S_ISDIR_def)
qed

lemma mode_dir: "md AND S_IFMT = 0 \<Longrightarrow> blank (S_IFDIR OR md) = ADir []"
  by (simp add: blank_def S_ISDIR_def bit.conj_disj_distrib2)

text \<open>Creating a file or a directory follows the table: on success a new empty file (a new empty
  directory) stands in front of the entries of the directory under the name cut to 255 characters, and
  the directory entry of the VFS leads to it. A name that exists already is not refused: the new entry
  hides the old one. The call succeeds when the heap has a free block of 616 bytes; when only the VFS
  inode cannot be allocated, \<open>ENOMEM\<close> is returned although the new file stays in the directory.\<close>

theorem ramfs_create_refines:
  assumes "fs_rep s A" and "i_private (inodes s dir) = Some d" and "A d = Some (ADir es)" and "md AND S_IFMT = 0"
    and "(op, nd) \<in> {(ramfs_create, AFile []), (ramfs_mkdir, ADir [])}"
  shows "\<exists>s' r. op s dir de md = Some (s', r) \<and> r \<in> {0, - ENOMEM} \<and> (room (fheap s) 616 \<longrightarrow> r = 0) \<and>
    ((r = - ENOMEM \<and> s' = s) \<or>
     (\<exists>a. a \<notin> dom A \<and> fs_rep s' (A(a \<mapsto> nd, d \<mapsto> ADir ((copy_name (d_name (dentries s de)), a) # es))) \<and>
        (r = 0 \<longrightarrow> (\<exists>v. d_inode (dentries s' de) = Some (Obj v) \<and> i_private (inodes s' (Obj v)) = Some a))))"
proof -
  obtain m fop where m: "op s dir de md = make_entry s dir de m fop" "blank m = nd"
    using assms(4,5) mode_reg mode_dir make_entry_ops by auto
  from assms(1-3) show ?thesis
  proof (cases rule: make_entry_rep [where de = de and md = m and fop = fop])
    case full
    with m(1) show ?thesis by simp
  next
    case (half s' a)
    with m show ?thesis by auto
  next
    case (made s' a v)
    with m show ?thesis by auto
  qed
qed

text \<open>The common course of \<open>ramfs_unlink\<close> and \<open>ramfs_rmdir\<close>.\<close>

lemma map_of_split:
  assumes "map_of es nm = Some t"
  obtains us vs where "es = us @ (nm, t) # vs"
  using assms by (metis map_of_SomeD split_list)

lemma filter_entry:
  assumes "distinct (map snd (us @ (nm, t) # vs))"
  shows "filter (\<lambda>e. snd e \<noteq> t) (us @ (nm, t) # vs) = us @ vs"
proof -
  have "filter (\<lambda>e. snd e \<noteq> t) us = us" "filter (\<lambda>e. snd e \<noteq> t) vs = vs"
    using assms by (auto simp: filter_id_conv image_iff)
  then show ?thesis by simp
qed

lemma remove_entry:
  assumes rep: "fs_rep s A" and d: "A d = Some (ADir es)" and t: "map_of es nm = Some t" "t \<noteq> d"
  obtains N s' where "unlink_loop (rnodes s) (Children_of d) t = Some N"
    and "ramfs_free_inode (s\<lparr>rnodes := N\<rparr>) (Some t) = Some s'"
    and "fs_rep s' (A(d \<mapsto> ADir (filter (\<lambda>e. snd e \<noteq> t) es), t := None))"
    and "live (fheap s') = {(p, k) \<in> live (fheap s). p \<noteq> t \<and> rdata (rnodes s t) \<noteq> Some p}"
    and "inodes s' = inodes s" and "dentries s' = dentries s" and "files s' = files s"
    and "\<And>x. rdata (rnodes s' x) = rdata (rnodes s x)"
proof -
  from map_of_split [OF t(1)] obtain us vs where es: "es = us @ (nm, t) # vs" .
  note d' = d [unfolded es]
  let ?l = "if us = [] then Children_of d else Sibling_of (last (map snd us))"
  let ?N = "store_link (rnodes s) ?l (sibling (rnodes s t))"
  have fl: "filter (\<lambda>e. snd e \<noteq> t) es = us @ vs"
    unfolding es by (rule filter_entry [OF rep_dir(7) [OF rep d']])
  have loop: "unlink_loop (rnodes s) (Children_of d) t = Some ?N"
    using unlink_loop_eq [of "rnodes s" "Children_of d" "map snd us" t "map snd vs"] rep_dir(3) [OF rep d'] by simp
  note un = rep_unlink [OF rep d']
  have "fs_rep (s\<lparr>rnodes := ?N\<rparr>) (A(d \<mapsto> ADir (us @ vs)))"
    using un(1) by simp
  moreover have "t \<in> dom (A(d \<mapsto> ADir (us @ vs)))"
    using rep_dir(6) [OF rep d'] by auto
  ultimately obtain s' where s': "ramfs_free_inode (s\<lparr>rnodes := ?N\<rparr>) (Some t) = Some s'"
      "fs_rep s' (A(d \<mapsto> ADir (us @ vs), t := None))"
      "live (fheap s') = {(p, k) \<in> live (fheap s). p \<noteq> t \<and> rdata (?N t) \<noteq> Some p}"
      "inodes s' = inodes s" "dentries s' = dentries s" "files s' = files s" "rnodes s' = ?N"
    by (rule free_inode_rep [OF _ _ un(2)]) simp
  moreover have "rdata (?N x) = rdata (rnodes s x)" for x
    using store_link_core [of "rnodes s" ?l "sibling (rnodes s t)" x] by (simp add: core_def)
  ultimately show ?thesis
    using that [OF loop] fl by simp
qed

lemma map_of_child: "fs_rep s A \<Longrightarrow> A d = Some (ADir es) \<Longrightarrow> map_of es nm = Some t \<Longrightarrow> t \<in> dom A"
  using map_of_SomeD [of es nm t] by (auto dest: rep_dir(6))

definition entry_removed :: "fs \<Rightarrow> table \<Rightarrow> addr \<Rightarrow> (string \<times> addr) list \<Rightarrow> addr \<Rightarrow> fs \<Rightarrow> bool" where
  "entry_removed s A d es t s' \<longleftrightarrow>
     fs_rep s' (A(d \<mapsto> ADir (filter (\<lambda>e. snd e \<noteq> t) es), t := None)) \<and>
     live (fheap s') = {(p, k) \<in> live (fheap s). p \<noteq> t \<and> rdata (rnodes s t) \<noteq> Some p}"

text \<open>C20. \<open>unlink\<close> removes exactly the named file and \<open>rmdir\<close> exactly the named empty directory: the entry
  is gone, the inode and its buffer are returned to the heap and nothing else is. A missing name gives
  \<open>ENOENT\<close>, the wrong kind of inode \<open>EISDIR\<close> or \<open>ENOTDIR\<close>, a directory with entries \<open>ENOTEMPTY\<close>,
  each without any change.\<close>

theorem ramfs_remove_refines:
  assumes "fs_rep s A" and "i_private (inodes s dir) = Some d" and "A d = Some (ADir es)"
    and "d \<notin> snd ` set es"
  shows "case map_of es (d_name (dentries s de)) of
      None \<Rightarrow> ramfs_unlink s dir de = Some (s, - ENOENT) \<and> ramfs_rmdir s dir de = Some (s, - ENOENT)
    | Some t \<Rightarrow>
        (case A t of
           Some (AFile bs) \<Rightarrow> (\<exists>s'. ramfs_unlink s dir de = Some (s', 0) \<and> entry_removed s A d es t s') \<and>
             ramfs_rmdir s dir de = Some (s, - ENOTDIR)
         | Some (ADir []) \<Rightarrow> ramfs_unlink s dir de = Some (s, - EISDIR) \<and>
             (\<exists>s'. ramfs_rmdir s dir de = Some (s', 0) \<and> entry_removed s A d es t s')
         | Some (ADir _) \<Rightarrow> ramfs_unlink s dir de = Some (s, - EISDIR) \<and> ramfs_rmdir s dir de = Some (s, - ENOTEMPTY)
         | None \<Rightarrow> False)"
proof (cases "map_of es (d_name (dentries s de))")
  case None
  then show ?thesis
    using assms(2) lookup_child_dir [OF assms(1,3)] by (simp add: ramfs_unlink_def ramfs_rmdir_def)
next
  case (Some t)
  have t: "t \<in> dom A"
    using map_of_child [OF assms(1,3) Some] .
  have td: "t \<noteq> d"
    using assms(4) map_of_SomeD [OF Some] by force
  obtain N s' where
      rm: "unlink_loop (rnodes s) (Children_of d) t = Some N" "ramfs_free_inode (s\<lparr>rnodes := N\<rparr>) (Some t) = Some s'"
      "entry_removed s A d es t s'"
    by (rule remove_entry [OF assms(1,3) Some td]) (simp add: entry_removed_def)
  note ops = ramfs_unlink_def ramfs_rmdir_def assms(2) lookup_child_dir [OF assms(1,3)] Some rm(1,2)
  from t obtain nd where nd: "A t = Some nd"
    by auto
  show ?thesis
  proof (cases nd)
    case (AFile bs)
    with nd rep_file(1) [OF assms(1)] rm(3) show ?thesis by (simp add: ops)
  next
    case (ADir es')
    note dir = rep_dir [OF assms(1) nd [unfolded ADir]]
    show ?thesis
    proof (cases es')
      case Nil
      with dir(1,3) nd ADir rm(3) show ?thesis by (simp add: ops)
    next
      case (Cons e es'')
      with dir(1,3) nd ADir show ?thesis by (simp add: ops)
    qed
  qed
qed

text \<open>Moving an entry, on tables.\<close>

fun drop_entry :: "addr \<Rightarrow> anode \<Rightarrow> anode" where
  "drop_entry t (ADir es) = ADir (filter (\<lambda>e. snd e \<noteq> t) es)"
| "drop_entry t nd = nd"

fun add_entry :: "string \<times> addr \<Rightarrow> anode \<Rightarrow> anode" where
  "add_entry e (ADir es) = ADir (e # es)"
| "add_entry e nd = nd"

definition moved :: "table \<Rightarrow> addr \<Rightarrow> addr \<Rightarrow> addr \<Rightarrow> string \<Rightarrow> table" where
  "moved A old new t nm =
     (let B = A(old := map_option (drop_entry t) (A old))
      in B(new := map_option (add_entry (nm, t)) (B new)))"

lemma rename_link_eq:
  assumes "t \<noteq> new" and "old = new \<longrightarrow> rparent (N t) = Some old"
  shows "(let N2 = rename_link N old new t in N2(t := (N2 t)\<lparr>rname := nm\<rparr>)) = link_in N new t nm"
proof
  fix a
  show "(let N2 = rename_link N old new t in N2(t := (N2 t)\<lparr>rname := nm\<rparr>)) a = link_in N new t nm a"
    using assms by (cases "N t") (auto simp: rename_link_def link_in_def Let_def)
qed

lemma rename_rep:
  assumes rep: "fs_rep s A" and old: "A old = Some (ADir es)" "(onm, t) \<in> set es"
    and new: "A new = Some (ADir es')" "t \<noteq> new"
  obtains N where "rename_unlink (rnodes s) old t = Some N"
    and "rep (fheap s) (link_in N new t nm) (moved A old new t nm)" and "rparent (N t) = Some old"
proof -
  from old(2) obtain us vs where es: "es = us @ (onm, t) # vs"
    by (auto dest: split_list)
  note old' = old(1) [unfolded es]
  let ?l = "if us = [] then Children_of old else Sibling_of (last (map snd us))"
  let ?N = "store_link (rnodes s) ?l (sibling (rnodes s t))" and ?B = "A(old \<mapsto> ADir (us @ vs))"
  have fl: "filter (\<lambda>e. snd e \<noteq> t) es = us @ vs"
    unfolding es by (rule filter_entry [OF rep_dir(7) [OF rep old']])
  note un = rep_unlink [OF rep old']
  have "t \<in> dom ?B"
    using rep_dir(6) [OF rep old'] by auto
  moreover obtain es'' where B: "?B new = Some (ADir es'')"
    using new(1) by (cases "new = old") auto
  ultimately have "rep (fheap s) (link_in ?N new t nm) (?B(new \<mapsto> ADir ((nm, t) # es'')))"
    using rep_link [OF un(1) _ _ _ un(2)] new(2) by metis
  moreover have "moved A old new t nm = ?B(new \<mapsto> ADir ((nm, t) # es''))"
    using old(1) B fl by (simp add: moved_def)
  moreover have "rename_unlink (rnodes s) old t = Some ?N"
    using rename_unlink_eq [of "rnodes s" old "map snd us" t "map snd vs"] rep_dir(3) [OF rep old'] by simp
  moreover have "rparent (?N t) = Some old"
    using rep_dir(5) [OF rep old', of onm t] by (simp add: store_link_other)
  ultimately show ?thesis
    using that [of ?N] by simp
qed

text \<open>C21. Renaming moves the entry: the inode leaves the list of the old directory and stands first in the
  new one under the new name, its contents and every other entry stay, and nothing is allocated or
  freed. An existing target name is refused with \<open>EEXIST\<close> and no change. The inode must not be the new
  directory itself, which the code does not check.\<close>

theorem ramfs_rename_refines:
  assumes "fs_rep s A" and "i_private (inodes s old_dir) = Some old" and "A old = Some (ADir es)"
    and "d_inode (dentries s old_de) = Some vi" and "i_private (inodes s vi) = Some t" and "(onm, t) \<in> set es"
    and "i_private (inodes s new_dir) = Some new" and "A new = Some (ADir es')" and "t \<noteq> new"
  shows "if map_of es' (d_name (dentries s new_de)) \<noteq> None
    then ramfs_rename s old_dir old_de new_dir new_de = Some (s, - EEXIST)
    else \<exists>N. ramfs_rename s old_dir old_de new_dir new_de = Some (s\<lparr>rnodes := N\<rparr>, 0) \<and>
      fs_rep (s\<lparr>rnodes := N\<rparr>) (moved A old new t (copy_name (d_name (dentries s new_de))))"
proof -
  let ?nm = "copy_name (d_name (dentries s new_de))"
  obtain N where N: "rename_unlink (rnodes s) old t = Some N"
      "rep (fheap s) (link_in N new t ?nm) (moved A old new t ?nm)" "rparent (N t) = Some old"
    using assms by (rule_tac rename_rep [OF assms(1,3,6,8,9)])
  note lnk = rename_link_eq [OF assms(9), of old N, unfolded Let_def]
  show ?thesis
    using assms(2,4,5,7) N lnk lookup_child_dir [OF assms(1,8)]
    by (auto simp: ramfs_rename_def Let_def)
qed

section \<open>Reading and writing\<close>

lemma to_loff_small: "n < 2 ^ 63 \<Longrightarrow> to_loff n = int n"
  by (simp add: to_loff_def)

lemma size_plus_small: "0 \<le> pos \<Longrightarrow> pos + int n < 2 ^ 63 \<Longrightarrow> size_plus pos n = nat pos + n"
  by (simp add: size_plus_def nat_add_distrib)

text \<open>The loops as block copies.\<close>

lemma copy_data_eq:
  assumes "disjoint_ranges dst n src n"
  shows "copy_data_loop m dst src [0..<n] = write_bytes m dst (read_bytes m src n)"
proof -
  have "copy_data_loop m dst src (map (\<lambda>i. i + k) [0..<j]) = write_bytes m (dst + k) (read_bytes m (src + k) j)"
    if "k + j \<le> n" for j k
    using that
  proof (induction j arbitrary: m k)
    case (Suc j)
    let ?m = "m(dst + k := m (src + k))"
    have "map (\<lambda>i. i + k) [0..<Suc j] = k # map (\<lambda>i. i + Suc k) [0..<j]"
      by (rule nth_equalityI) (auto simp: nth_Cons' simp del: upt_Suc)
    moreover have "read_bytes ?m (src + Suc k) j = read_bytes m (src + Suc k) j"
      using assms Suc.prems by (intro read_bytes_cong) (auto simp: disjoint_ranges_def)
    ultimately show ?case
      using Suc.IH [of "Suc k" ?m] Suc.prems by (simp add: read_bytes_Suc write_bytes_Cons fun_upd_def)
  qed simp
  from this [of 0 n] show ?thesis by simp
qed

lemma rw_loop_eq:
  assumes "0 \<le> pos" and "\<forall>i \<in> set is. pos + int i < 2 ^ 63"
  shows "read_loop m buf d pos is = copy_data_loop m buf (d + nat pos) is"
    and "write_loop m buf d pos is = copy_data_loop m (d + nat pos) buf is"
  using assms(2) by (induction "is" arbitrary: m) (simp_all add: size_plus_small assms(1) add.assoc)

text \<open>Changing the contents of a file, possibly in a new buffer.\<close>

lemma rep_file_upd:
  assumes rep: "rep h N A" and a: "A a = Some (AFile bs)"
    and n: "rmode n = rmode (N a)" "sibling n = sibling (N a)" "rname n = rname (N a)" "rparent n = rparent (N a)"
    and sz: "rsize n = length bs'" "length bs' \<le> data_capacity n" "data_capacity n \<le> MAX_ALLOC"
    and d: "rdata n = Some d" "has_block h d (data_capacity n)" "rdata (N a) = Some d \<or> \<not> fs_block N A d"
    and m: "read_bytes m d (length bs') = bs'"
      "\<And>b e cs. b \<noteq> a \<Longrightarrow> A b = Some (AFile cs) \<Longrightarrow> rdata (N b) = Some e \<Longrightarrow>
        read_bytes m e (length cs) = read_bytes (kbytes h) e (length cs)"
  shows "rep (h\<lparr>kbytes := m\<rparr>) (N(a := n)) (A(a \<mapsto> AFile bs'))"
proof -
  let ?h = "h\<lparr>kbytes := m\<rparr>" and ?N = "N(a := n)" and ?A = "A(a \<mapsto> AFile bs')"
  have dom: "dom ?A = dom A"
    using a by auto
  have ent: "sibling (?N c) = sibling (N c)" "rname (?N c) = rname (N c)" "rparent (?N c) = rparent (N c)" for c
    using n by simp_all
  have "entries_closed ?A"
    by (rule entries_closed_upd [OF repD(2) [OF rep]]) simp
  moreover have "blocks_ok ?h ?N ?A"
    unfolding blocks_ok_def dom
  proof (intro ballI conjI allI impI)
    fix b e
    assume b: "b \<in> dom A"
    show "has_block ?h b sizeof_ramfs_inode"
      using rep_blocks(1) [OF rep b] by (simp add: has_block_def live_bytes)
    show "has_block ?h e (data_capacity (?N b))" if "rdata (?N b) = Some e"
      using rep_blocks(2) [OF rep b, of e] d(1,2) that by (cases "b = a") (auto simp: has_block_def live_bytes)
  qed
  moreover have "data_separate ?N ?A"
    unfolding data_separate_def dom
  proof (intro ballI conjI allI impI)
    have A: "a \<in> dom A" using a by auto
    have new: "d \<notin> dom A" "b = a" if "b \<in> dom A" "rdata (N b) = Some d" for b
      using d(3) that rep_blocks(3) [OF rep that] rep_blocks(4) [OF rep that A] by (auto simp: fs_block_def)
    have dd: "d \<notin> dom A"
      using d(3) rep_blocks(3) [OF rep A] by (auto simp: fs_block_def)
    fix b e
    assume b: "b \<in> dom A" "rdata (?N b) = Some e"
    then show "e \<notin> dom A"
      using dd d(1) rep_blocks(3) [OF rep b(1)] by (cases "b = a") auto
    fix c
    assume c: "c \<in> dom A" "rdata (?N c) = Some e"
    show "b = c"
    proof (cases "b = a \<or> c = a")
      case True
      then show ?thesis using b c new(2) d(1) by (metis fun_upd_apply option.inject)
    next
      case False
      then show ?thesis using b c rep_blocks(4) [OF rep b(1) _ c(1)] by simp
    qed
  qed
  moreover have "node_rep ?h ?N b nd" if b: "?A b = Some nd" for b nd
  proof (cases "b = a")
    case True
    with b n(1) sz d(1) m(1) rep_file(1) [OF rep a] show ?thesis by auto
  next
    case False
    with b have b': "A b = Some nd" by simp
    show ?thesis
    proof (cases nd)
      case (AFile cs)
      with repD(5) [OF rep b'] m(2) [OF False] b' False show ?thesis by (auto split: option.splits)
    next
      case (ADir es)
      then have "node_rep h N b (ADir es)"
        using repD(5) [OF rep b'] by simp
      then show ?thesis
        using False unfolding ADir node_rep.simps ent by simp
    qed
  qed
  ultimately show ?thesis
    using repD(1) [OF rep] by (simp add: rep_def heap_inv_bytes)
qed

text \<open>
  A buffer of a caller: part of a block that does not belong to the file system, or outside the
  kernel heap.
\<close>

definition caller_buf :: "kheap \<Rightarrow> nodes \<Rightarrow> table \<Rightarrow> addr \<Rightarrow> nat \<Rightarrow> bool" where
  "caller_buf h N A buf n \<longleftrightarrow>
     (\<exists>p k. (p, k) \<in> live h \<and> \<not> fs_block N A p \<and> p \<le> buf \<and> buf + n \<le> p + k) \<or>
     buf + n \<le> heap_start h \<or> heap_end h \<le> buf"

lemma caller_buf_disjoint:
  assumes inv: "heap_inv h" and buf: "caller_buf h N A buf n" and q: "(q, l) \<in> live h" "fs_block N A q"
  shows "disjoint_ranges buf n q l"
  using buf unfolding caller_buf_def
proof (elim disjE exE conjE)
  fix p k
  assume p: "(p, k) \<in> live h" "\<not> fs_block N A p" "p \<le> buf" "buf + n \<le> p + k"
  with q have "(p, k) \<noteq> (q, l)" by auto
  with live_disjoint [OF inv p(1) q(1)] p(3,4) show ?thesis
    by (auto simp: disjoint_ranges_def)
qed (use live_bounds [OF inv q(1)] in \<open>auto simp: disjoint_ranges_def\<close>)

lemma round_block_bounds:
  assumes "n < 2 ^ 63"
  shows "n \<le> round_block n" and "0 < n \<Longrightarrow> 0 < round_block n"
proof -
  have "(of_nat n + of_nat RAMFS_BLOCK_SIZE - 1 :: u64) = of_nat (n + 4095)"
    by (simp add: RAMFS_BLOCK_SIZE_def)
  moreover have "NOT (of_nat RAMFS_BLOCK_SIZE - 1 :: u64) = NOT (mask 12)"
    by (simp add: RAMFS_BLOCK_SIZE_def mask_eq_exp_minus_1)
  ultimately have "round_block n = unat (of_nat (n + 4095) :: u64) div 2 ^ 12 * 2 ^ 12"
    unfolding round_block_def by (simp only: unat_and_not_mask)
  also have "unat (of_nat (n + 4095) :: u64) = n + 4095"
    using assms by (intro u64_unat_of_nat) simp
  finally have "round_block n = (n + 4096 - 1) div 4096 * 4096"
    by simp
  then show "n \<le> round_block n" and "0 < n \<Longrightarrow> 0 < round_block n"
    using round_up_bounds(1) [of 4096 n] by linarith+
qed

text \<open>Giving a file a new buffer \<open>nd\<close>, and moving its contents there.\<close>

abbreviation rebuffer :: "nodes \<Rightarrow> addr \<Rightarrow> addr \<Rightarrow> nat \<Rightarrow> nodes" where
  "rebuffer N a nd c \<equiv> N(a := (N a)\<lparr>rdata := Some nd, data_capacity := c\<rparr>)"

lemma buffer_swap:
  assumes rep: "rep h N A" and a: "A a = Some (AFile bs)" and nd: "(nd, k) \<in> live h" "\<not> fs_block N A nd"
    and c: "length bs \<le> c" "c \<le> k" "c \<le> MAX_ALLOC"
  shows "rep (h\<lparr>kbytes := write_bytes (kbytes h) nd bs\<rparr>) (rebuffer N a nd c) A"
proof -
  let ?m = "write_bytes (kbytes h) nd bs" and ?n = "(N a)\<lparr>rdata := Some nd, data_capacity := c\<rparr>"
  have "rep (h\<lparr>kbytes := ?m\<rparr>) (N(a := ?n)) (A(a \<mapsto> AFile bs))"
  proof (rule rep_file_upd [OF rep a])
    fix b e cs
    assume b: "b \<noteq> a" "A b = Some (AFile cs)" "rdata (N b) = Some e"
    have "b \<in> dom A"
      using b(2) by auto
    from rep_blocks(2) [OF rep this b(3)] obtain l where l: "data_capacity (N b) \<le> l" "(e, l) \<in> live h"
      by (auto simp: has_block_def)
    have "nd \<noteq> e"
      using nd(2) b(2,3) by (auto simp: fs_block_def)
    with live_disjoint [OF repD(1) [OF rep] nd(1) l(2)] l(1) c rep_file(3) [OF rep b(2)]
    show "read_bytes ?m e (length cs) = read_bytes (kbytes h) e (length cs)"
      by (intro read_write_disjoint) (auto simp: disjoint_ranges_def)
  qed (use nd c rep_file(2) [OF rep a] in \<open>auto simp: has_block_def\<close>)
  moreover have "A(a \<mapsto> AFile bs) = A"
    using a by auto
  ultimately show ?thesis by simp
qed

lemma buffer_move:
  assumes rep: "rep h N A" and a: "A a = Some (AFile bs)" and nd: "(nd, k) \<in> live h" "\<not> fs_block N A nd"
    and c: "length bs \<le> c" "c \<le> k" "c \<le> MAX_ALLOC" and d: "rdata (N a) = Some d"
  obtains h' l where "kfree (h\<lparr>kbytes := copy_data_loop (kbytes h) nd d [0..<rsize (N a)]\<rparr>) (Some d) = Some h'"
    and "rep h' (rebuffer N a nd c) A" and "live h' = live h - {(d, l)}"
    and "kbytes h' = write_bytes (kbytes h) nd bs" and "heap_start h' = heap_start h" and "heap_end h' = heap_end h"
proof -
  let ?h = "h\<lparr>kbytes := write_bytes (kbytes h) nd bs\<rparr>"
  have dom: "a \<in> dom A"
    using a by auto
  note rep2 = buffer_swap [OF rep a nd c]
  from rep_blocks(2) [OF rep dom d] obtain l where l: "data_capacity (N a) \<le> l" "(d, l) \<in> live h"
    by (auto simp: has_block_def)
  have ne: "d \<noteq> nd"
    using nd(2) dom d by (auto simp: fs_block_def)
  have "disjoint_ranges nd (length bs) d (length bs)"
    using live_disjoint [OF repD(1) [OF rep] nd(1) l(2)] ne l(1) rep_file(3) [OF rep a] c
    by (auto simp: disjoint_ranges_def)
  then have cp: "copy_data_loop (kbytes h) nd d [0..<rsize (N a)] = kbytes ?h"
    using rep_file(2,6) [OF rep a] d by (simp add: copy_data_eq)
  have "heap_inv ?h" "(d, l) \<in> live ?h"
    using repD(1) [OF rep] l(2) by (simp_all add: heap_inv_bytes live_bytes)
  from kfree_live [OF this] obtain h' where h': "kfree ?h (Some d) = Some h'" "heap_inv h'"
      "live h' = live ?h - {(d, l)}" "kbytes h' = kbytes ?h"
      "heap_start h' = heap_start ?h" "heap_end h' = heap_end ?h" .
  have "\<not> fs_block (rebuffer N a nd c) A d"
    using rep_blocks(3,4) [OF rep dom d] ne by (auto simp: fs_block_def)
  then have "rep h' (rebuffer N a nd c) A"
    by (intro rep_heap [OF rep2 h'(2)]) (auto simp: h'(3,4))
  with h' cp that [of h' l] show ?thesis by (simp add: live_bytes)
qed

text \<open>The blocks of others.\<close>

definition spare :: "kheap \<Rightarrow> nodes \<Rightarrow> table \<Rightarrow> (addr \<times> nat) set" where
  "spare h N A = {(p, k) \<in> live h. \<not> fs_block N A p}"

lemma spare_rebuffer:
  assumes "heap_inv h" and "live h = insert (nd, k) (live h0)" and "(nd, k) \<notin> live h0"
    and "\<And>p l. (p, l) \<in> live h0 \<Longrightarrow> \<not> fs_block N A p \<Longrightarrow> (p, l) \<in> live h'"
  shows "spare h0 N A \<subseteq> spare h' (rebuffer N a nd c) A"
proof -
  have "fs_block (rebuffer N a nd c) A p \<Longrightarrow> p = nd \<or> fs_block N A p" for p
    by (auto simp: fs_block_def split: if_splits)
  moreover have "p \<noteq> nd" if "(p, l) \<in> live h0" for p l
    using live_functional [OF assms(1), of nd k l] assms(2,3) that by auto
  ultimately show ?thesis
    using assms(4) unfolding spare_def by blast
qed

text \<open>The caller's buffer is not touched by the exchange of buffers.\<close>

lemma caller_buf_new:
  assumes inv: "heap_inv h" and "live h = insert (nd, k) (live h0)"
    and "heap_start h = heap_start h0" and "heap_end h = heap_end h0"
    and new: "\<And>q l. (q, l) \<in> live h0 \<Longrightarrow> disjoint_ranges nd k q l" and buf: "caller_buf h0 N A buf j"
  shows "disjoint_ranges nd k buf j"
  using buf unfolding caller_buf_def
proof (elim disjE exE conjE)
  fix p l
  assume "(p, l) \<in> live h0" "p \<le> buf" "buf + j \<le> p + l"
  with new [of p l] show ?thesis by (auto simp: disjoint_ranges_def)
qed (use live_bounds [OF inv, of nd k] assms(2-4) in \<open>auto simp: disjoint_ranges_def\<close>)

lemma caller_buf_swap:
  assumes buf: "caller_buf h0 N A buf j" and nd: "heap_inv h" "live h = insert (nd, k) (live h0)" "(nd, k) \<notin> live h0"
    and keep: "\<And>p l. (p, l) \<in> live h0 \<Longrightarrow> \<not> fs_block N A p \<Longrightarrow> (p, l) \<in> live h'"
    and ends: "heap_start h' = heap_start h0" "heap_end h' = heap_end h0"
  shows "caller_buf h' (rebuffer N a nd c) A buf j"
proof -
  have "fs_block (rebuffer N a nd c) A p \<Longrightarrow> p = nd \<or> fs_block N A p" for p
    by (auto simp: fs_block_def split: if_splits)
  moreover have "p \<noteq> nd" if "(p, l) \<in> live h0" for p l
    using live_functional [OF nd(1), of nd k l] nd(2,3) that by auto
  ultimately have "\<exists>p l. (p, l) \<in> live h' \<and> \<not> fs_block (rebuffer N a nd c) A p \<and> p \<le> buf \<and> buf + j \<le> p + l"
    if "(p, l) \<in> live h0" "\<not> fs_block N A p" "p \<le> buf" "buf + j \<le> p + l" for p l
    using keep that by blast
  with buf ends show ?thesis
    unfolding caller_buf_def by metis
qed

lemma grow_rep:
  assumes rep: "fs_rep s A" and a: "A a = Some (AFile bs)" and n: "n < 2 ^ 63" and buf: "caller_buf (fheap s) (rnodes s) A buf j"
  obtains (full) "grow_data s a n = Some (s, False)" and "\<not> room (fheap s) (round_block n + 72) \<or> round_block n > MAX_ALLOC"
  | (grown) s' where "grow_data s a n = Some (s', True)" and "fs_rep s' A"
      and "n \<le> data_capacity (rnodes s' a)" and "0 < n \<Longrightarrow> rdata (rnodes s' a) \<noteq> None"
      and "read_bytes (kbytes (fheap s')) buf j = read_bytes (kbytes (fheap s)) buf j"
      and "caller_buf (fheap s') (rnodes s') A buf j" and "files s' = files s"
      and "spare (fheap s) (rnodes s) A \<subseteq> spare (fheap s') (rnodes s') A"
proof (cases "n > data_capacity (rnodes s a)")
  case False
  with rep_file(5) [OF rep a] have "0 < n \<Longrightarrow> rdata (rnodes s a) \<noteq> None"
    by auto
  with False rep buf grown [of s] show ?thesis
    by (simp add: grow_data_def)
next
  case True
  let ?N = "rnodes s" and ?c = "round_block n"
  note n_c = round_block_bounds(1) [OF n]
  have n_0: "round_block n \<noteq> 0"
    using round_block_bounds(2) [OF n] True by simp
  from repD(1) [OF rep] show ?thesis
  proof (cases rule: kmalloc_frame [where n = ?c])
    case none
    with True full n_0 show ?thesis by (auto simp: grow_data_def)
  next
    case (some h nd k)
    note fresh = fresh_block(1) [OF rep some(5,2,4)]
    have rep1: "rep h ?N A"
      using some(4,7) by (intro rep_heap [OF rep some(2)]) auto
    have cap: "length bs \<le> ?c"
      using rep_file(3) [OF rep a] True n_c by linarith
    have nd: "(nd, k) \<in> live h"
      using some(4) by simp
    note dis = caller_buf_new [OF some(2,4,8,9,10) buf]
    note buf' = caller_buf_swap [OF buf some(2,4,5), where a = a and c = ?c]
      and spare = spare_rebuffer [OF some(2,4,5), of ?N A _ a ?c]
    show ?thesis
    proof (cases "rdata (?N a)")
      case None
      then have "bs = []"
        using rep_file(3,5) [OF rep a] by simp
      with buffer_swap [OF rep1 a nd fresh cap some(3,6)] have "rep h (rebuffer ?N a nd ?c) A"
        by simp
      moreover have "caller_buf h (rebuffer ?N a nd ?c) A buf j" "spare (fheap s) ?N A \<subseteq> spare h (rebuffer ?N a nd ?c) A"
        using some(4,8,9) by (auto intro!: buf' spare)
      ultimately show ?thesis
        using grown [of "s\<lparr>fheap := h, rnodes := rebuffer ?N a nd ?c\<rparr>"] True some(1,7) None n_c
        by (simp add: grow_data_def)
    next
      case (Some d)
      from buffer_move [OF rep1 a nd fresh cap some(3,6) this] obtain h' l where
        h': "kfree (h\<lparr>kbytes := copy_data_loop (kbytes h) nd d [0..<rsize (?N a)]\<rparr>) (Some d) = Some h'"
          "rep h' (rebuffer ?N a nd ?c) A" "live h' = live h - {(d, l)}"
          "kbytes h' = write_bytes (kbytes h) nd bs" "heap_start h' = heap_start h" "heap_end h' = heap_end h" .
      have keep: "(p, i) \<in> live h'" if "(p, i) \<in> live (fheap s)" "\<not> fs_block ?N A p" for p i
        using that Some a some(4) h'(3) by (auto simp: fs_block_def)
      have "caller_buf h' (rebuffer ?N a nd ?c) A buf j"
        using some(8,9) h'(5,6) by (intro buf' keep) simp_all
      moreover have "spare (fheap s) ?N A \<subseteq> spare h' (rebuffer ?N a nd ?c) A"
        by (rule spare [OF keep])
      moreover have "read_bytes (kbytes h') buf j = read_bytes (kbytes h) buf j"
        unfolding h'(4) using dis some(3) cap by (intro read_write_disjoint) (auto simp: disjoint_ranges_def)
      ultimately show ?thesis
        using grown [of "s\<lparr>fheap := h', rnodes := rebuffer ?N a nd ?c\<rparr>"] True some(1,7) Some h'(1,2) n_c
        by (simp add: grow_data_def)
    qed
  qed
qed

text \<open>Writing \<open>ws\<close> at offset \<open>p\<close>; \<open>hole\<close> are the bytes between the old end and the offset.\<close>

definition overwrite :: "byte list \<Rightarrow> byte list \<Rightarrow> nat \<Rightarrow> byte list \<Rightarrow> byte list" where
  "overwrite bs hole p ws = take p (bs @ hole) @ ws @ drop (p + length ws) bs"

lemma nth_append3:
  "length xs = p \<Longrightarrow> (xs @ ys @ zs) ! i =
     (if i < p then xs ! i else if i < p + length ys then ys ! (i - p) else zs ! (i - (p + length ys)))"
  by (auto simp: nth_append)

lemma overwrite_read:
  fixes p :: nat
  assumes "read_bytes m d (length bs) = bs"
  defines "hole \<equiv> read_bytes m (d + length bs) (p - length bs)"
  shows "read_bytes (write_bytes m (d + p) ws) d (max (length bs) (p + length ws)) = overwrite bs hole p ws"
proof (rule nth_equalityI)
  show "length (read_bytes (write_bytes m (d + p) ws) d (max (length bs) (p + length ws))) =
      length (overwrite bs hole p ws)"
    by (auto simp: overwrite_def hole_def)
next
  fix i
  assume i: "i < length (read_bytes (write_bytes m (d + p) ws) d (max (length bs) (p + length ws)))"
  have b: "m (d + i) = bs ! i" if "i < length bs"
    using that assms(1) by (metis nth_read_bytes)
  have h: "hole ! (i - length bs) = m (d + i)" if "length bs \<le> i" "i < p"
    using that by (simp add: hole_def)
  have len: "length (take p (bs @ hole)) = p"
    by (auto simp: hole_def)
  consider "i < p" | "p \<le> i" "i < p + length ws" | "p + length ws \<le> i" "i < length bs"
    using i by fastforce
  then have "overwrite bs hole p ws ! i = write_bytes m (d + p) ws (d + i)"
  proof cases
    case 1
    with b h show ?thesis
      unfolding overwrite_def nth_append3 [OF len] by (auto simp: nth_append write_bytes_def)
  next
    case 2
    then show ?thesis
      unfolding overwrite_def nth_append3 [OF len] by (simp add: write_bytes_def)
  next
    case 3
    with b show ?thesis
      unfolding overwrite_def nth_append3 [OF len] by (simp add: write_bytes_def)
  qed
  with i show "read_bytes (write_bytes m (d + p) ws) d (max (length bs) (p + length ws)) ! i = overwrite bs hole p ws ! i"
    by simp
qed

text \<open>The stores of \<open>ramfs_write\<close> once the buffer is large enough.\<close>

lemma store_rep:
  assumes rep: "fs_rep s A" and a: "A a = Some (AFile bs)" and d: "rdata (rnodes s a) = Some d"
    and buf: "caller_buf (fheap s) (rnodes s) A buf cnt" and cap: "p + cnt \<le> data_capacity (rnodes s a)"
  defines "ws \<equiv> read_bytes (kbytes (fheap s)) buf cnt"
  defines "m \<equiv> copy_data_loop (kbytes (fheap s)) (d + p) buf [0..<cnt]"
  obtains hole where "length hole = p - length bs"
    and "rep ((fheap s)\<lparr>kbytes := m\<rparr>)
      ((rnodes s)(a := (rnodes s a)\<lparr>rsize := max (length bs) (p + cnt)\<rparr>)) (A(a \<mapsto> AFile (overwrite bs hole p ws)))"
proof -
  let ?m = "kbytes (fheap s)" and ?N = "rnodes s"
  have A: "a \<in> dom A"
    using a by auto
  from rep_blocks(2) [OF rep A d] obtain k where k: "data_capacity (?N a) \<le> k" "(d, k) \<in> live (fheap s)"
    by (auto simp: has_block_def)
  have "disjoint_ranges buf cnt d k"
    using caller_buf_disjoint [OF repD(1) [OF rep] buf k(2)] A d by (auto simp: fs_block_def)
  then have "disjoint_ranges (d + p) cnt buf cnt"
    using cap k(1) by (auto simp: disjoint_ranges_def)
  then have m: "m = write_bytes ?m (d + p) ws"
    unfolding m_def ws_def by (rule copy_data_eq)
  let ?hole = "read_bytes ?m (d + length bs) (p - length bs)"
  have rd: "read_bytes m d (max (length bs) (p + cnt)) = overwrite bs ?hole p ws"
    using overwrite_read [OF rep_file(6) [OF rep a d], of p ws] by (simp add: m ws_def)
  then have len: "length (overwrite bs ?hole p ws) = max (length bs) (p + cnt)"
    by (metis length_read_bytes)
  have "rep ((fheap s)\<lparr>kbytes := m\<rparr>) (?N(a := (?N a)\<lparr>rsize := max (length bs) (p + cnt)\<rparr>))
      (A(a \<mapsto> AFile (overwrite bs ?hole p ws)))"
  proof (rule rep_file_upd [OF rep a])
    fix b e cs
    assume b: "b \<noteq> a" "A b = Some (AFile cs)" "rdata (?N b) = Some e"
    have B: "b \<in> dom A"
      using b(2) by auto
    from rep_blocks(2) [OF rep B b(3)] obtain l where l: "data_capacity (?N b) \<le> l" "(e, l) \<in> live (fheap s)"
      by (auto simp: has_block_def)
    have "d \<noteq> e"
      using rep_blocks(4) [OF rep A d B] b(1,3) by blast
    with live_disjoint [OF repD(1) [OF rep] k(2) l(2)] l(1) k(1) cap rep_file(3) [OF rep b(2)]
    show "read_bytes m e (length cs) = read_bytes ?m e (length cs)"
      unfolding m by (intro read_write_disjoint) (auto simp: disjoint_ranges_def ws_def)
  qed (use d k cap rd len rep_file(3,4) [OF rep a] in \<open>auto simp: has_block_def\<close>)
  then show ?thesis
    by (intro that [of ?hole]) simp_all
qed

lemma ramfs_write_rep:
  assumes "fs_rep s A" and "private_data (files s f) = Some a" and "A a = Some (AFile bs)"
    and "0 \<le> pos" and "pos + int cnt < 2 ^ 63" and "caller_buf (fheap s) (rnodes s) A buf cnt"
  shows "(ramfs_write s f buf cnt pos = Some (s, pos, - ENOMEM) \<and>
       (\<not> room (fheap s) (round_block (nat pos + cnt) + 72) \<or> round_block (nat pos + cnt) > MAX_ALLOC)) \<or>
    (\<exists>s' hole. ramfs_write s f buf cnt pos = Some (s', pos + int cnt, int cnt) \<and>
       length hole = nat pos - length bs \<and> files s' = files s \<and>
       fs_rep s' (A(a \<mapsto> AFile (overwrite bs hole (nat pos) (read_bytes (kbytes (fheap s)) buf cnt)))))"
proof -
  let ?p = "nat pos"
  have n: "size_plus pos cnt = ?p + cnt" "?p + cnt < 2 ^ 63" "to_loff cnt = int cnt"
    using assms(4,5) by (simp_all add: size_plus_small to_loff_small)
  from assms(1,3) n(2) assms(6) show ?thesis
  proof (cases rule: grow_rep)
    case full
    with assms(2) n show ?thesis by (simp add: ramfs_write_def)
  next
    case (grown s1)
    note sz = rep_file(2) [OF grown(2) assms(3)]
    have len: "length bs < 2 ^ 63"
      using rep_file(3,4) [OF grown(2) assms(3)] by (simp add: MAX_ALLOC_def)
    then have tsz: "to_loff (rsize (rnodes s1 a)) = int (length bs)"
      using sz by (simp add: to_loff_small)
    show ?thesis
    proof (cases "0 < ?p + cnt")
      case False
      then have "ramfs_write s f buf cnt pos = Some (s1, pos + int cnt, int cnt)"
        using assms(2,4) grown(1) n tsz by (simp add: ramfs_write_def Let_def to_loff_small)
      moreover have "A(a \<mapsto> AFile (overwrite bs [] ?p (read_bytes (kbytes (fheap s)) buf cnt))) = A"
        using False assms(3) by (auto simp: overwrite_def)
      ultimately show ?thesis
        using False grown(2,7) by (metis diff_0_eq_0 gr0I list.size(3) add_is_0)
    next
      case True
      with grown(4) obtain d where d: "rdata (rnodes s1 a) = Some d"
        by auto
      from store_rep [OF grown(2) assms(3) d grown(6,3)] obtain hole where hole: "length hole = ?p - length bs"
        "rep ((fheap s1)\<lparr>kbytes := copy_data_loop (kbytes (fheap s1)) (d + ?p) buf [0..<cnt]\<rparr>)
          ((rnodes s1)(a := (rnodes s1 a)\<lparr>rsize := max (length bs) (?p + cnt)\<rparr>))
          (A(a \<mapsto> AFile (overwrite bs hole ?p (read_bytes (kbytes (fheap s1)) buf cnt))))" .
      have wl: "write_loop (kbytes (fheap s1)) buf d pos [0..<cnt] =
          copy_data_loop (kbytes (fheap s1)) (d + ?p) buf [0..<cnt]"
        using assms(4,5) by (intro rw_loop_eq) auto
      have same: "(rnodes s1)(a := (rnodes s1 a)\<lparr>rsize := length bs\<rparr>) = rnodes s1"
        unfolding sz [symmetric] by simp
      have "ramfs_write s f buf cnt pos = Some
          (s1\<lparr>fheap := (fheap s1)\<lparr>kbytes := copy_data_loop (kbytes (fheap s1)) (d + ?p) buf [0..<cnt]\<rparr>,
              rnodes := (rnodes s1)(a := (rnodes s1 a)\<lparr>rsize := max (length bs) (?p + cnt)\<rparr>)\<rparr>, pos + int cnt, int cnt)"
      proof (cases "length bs < ?p + cnt")
        case True
        then show ?thesis
          using assms(2,4,5) grown(1) n d wl tsz
          by (simp add: ramfs_write_def Let_def to_loff_small nat_add_distrib max_def)
      next
        case False
        then show ?thesis
          using assms(2,4,5) grown(1) n d wl tsz
          by (simp add: ramfs_write_def Let_def to_loff_small max_def same)
      qed
      with hole grown(5,7) show ?thesis
        by auto
    qed
  qed
qed

text \<open>A write leaves the blocks of others alone.\<close>

lemma ramfs_write_spare:
  assumes "fs_rep s A" and "private_data (files s f) = Some a" and "A a = Some (AFile bs)"
    and "0 \<le> pos" and "pos + int cnt < 2 ^ 63" and "caller_buf (fheap s) (rnodes s) A buf cnt"
    and res: "ramfs_write s f buf cnt pos = Some (s', q, r)"
  shows "spare (fheap s) (rnodes s) A \<subseteq> spare (fheap s') (rnodes s') (A(a \<mapsto> nd))"
proof -
  have n: "size_plus pos cnt = nat pos + cnt" "nat pos + cnt < 2 ^ 63"
    using assms(4,5) by (simp_all add: size_plus_small)
  have grown: "spare h N A = spare h N (A(a \<mapsto> nd))" for h N
    using assms(3) by (auto simp: spare_def fs_block_def)
  have same: "spare h (N(a := (N a)\<lparr>rsize := x\<rparr>)) B = spare h N B" "spare (h\<lparr>kbytes := m\<rparr>) N B = spare h N B" for h m N x B
    by (auto simp: spare_def fs_block_def live_bytes split: if_splits)
  from assms(1,3) n(2) assms(6) show ?thesis
  proof (cases rule: grow_rep)
    case full
    with assms(2) n res grown show ?thesis by (simp add: ramfs_write_def)
  next
    case (grown s1)
    with assms(2) n res \<open>\<And>h N. spare h N A = _\<close> show ?thesis
      by (auto simp: ramfs_write_def Let_def same split: if_splits option.splits)
  qed
qed


lemma ramfs_read_rep:
  assumes "fs_rep s A" and "private_data (files s f) = Some a" and "A a = Some (AFile bs)"
    and "0 \<le> pos" and "caller_buf (fheap s) (rnodes s) A buf cnt"
  shows "let got = take cnt (drop (nat pos) bs);
             s' = s\<lparr>fheap := (fheap s)\<lparr>kbytes := write_bytes (kbytes (fheap s)) buf got\<rparr>\<rparr>
         in ramfs_read s f buf cnt pos = (s', pos + int (length got), int (length got)) \<and> fs_rep s' A"
proof -
  let ?m = "kbytes (fheap s)" and ?p = "nat pos" and ?got = "take cnt (drop (nat pos) bs)"
  note fl = rep_file [OF assms(1,3)]
  have A: "a \<in> dom A"
    using assms(3) by auto
  have len: "length bs < 2 ^ 63"
    using fl(3,4) by (simp add: MAX_ALLOC_def)
  then have size: "to_loff (rsize (rnodes s a)) = int (length bs)"
    using fl(2) by (simp add: to_loff_small)
  have blk: "disjoint_ranges buf cnt q l" if "(q, l) \<in> live (fheap s)" "fs_block (rnodes s) A q" for q l
    using caller_buf_disjoint [OF repD(1) [OF assms(1)] assms(5) that] .
  have "rep ((fheap s)\<lparr>kbytes := write_bytes ?m buf ?got\<rparr>) (rnodes s) A"
  proof (rule rep_heap [OF assms(1)])
    fix q l x
    assume "fs_block (rnodes s) A q" "(q, l) \<in> live (fheap s)" "q \<le> x" "x < q + l"
    with blk [of q l] show "kbytes ((fheap s)\<lparr>kbytes := write_bytes ?m buf ?got\<rparr>) x = ?m x"
      by (auto simp: disjoint_ranges_def write_bytes_outside)
  qed (use repD(1) [OF assms(1)] in \<open>auto simp: heap_inv_bytes live_bytes\<close>)
  moreover have "ramfs_read s f buf cnt pos =
      (s\<lparr>fheap := (fheap s)\<lparr>kbytes := write_bytes ?m buf ?got\<rparr>\<rparr>, pos + int (length ?got), int (length ?got))"
  proof (cases "rdata (rnodes s a) = None \<or> int (length bs) \<le> pos")
    case True
    then have "?got = []"
      using fl(3,5) by auto
    with True assms(2) size show ?thesis
      by (auto simp: ramfs_read_def split: option.splits)
  next
    case False
    then obtain d where d: "rdata (rnodes s a) = Some d" and p: "?p < length bs"
      using assms(4) by auto
    let ?n = "min cnt (length bs - ?p)"
    from rep_blocks(2) [OF assms(1) A d] obtain k where k: "data_capacity (rnodes s a) \<le> k" "(d, k) \<in> live (fheap s)"
      by (auto simp: has_block_def)
    have "disjoint_ranges buf cnt d k"
      using blk [OF k(2)] A d by (auto simp: fs_block_def)
    then have "disjoint_ranges buf ?n (d + ?p) ?n"
      using k(1) fl(3) p by (auto simp: disjoint_ranges_def)
    moreover have small: "\<forall>i \<in> set [0..<?n]. pos + int i < 2 ^ 63"
      using p assms(4) len by auto
    ultimately have loop: "read_loop ?m buf d pos [0..<?n] = write_bytes ?m buf (read_bytes ?m (d + ?p) ?n)"
      using rw_loop_eq(1) [OF assms(4) small, of ?m buf d] by (simp add: copy_data_eq)
    have "bs ! (?p + i) = ?m (d + ?p + i)" if "?p + i < length bs" for i
      using fl(6) [OF d] nth_read_bytes [OF that, of ?m d] by (simp add: add.assoc)
    then have got: "read_bytes ?m (d + ?p) ?n = ?got" "length ?got = ?n"
      by (auto intro!: nth_equalityI)
    have "nat ((int (length bs) - pos) mod 2 ^ 64) = length bs - ?p"
      using p assms(4) len by (simp add: nat_diff_distrib)
    moreover have "to_loff (size_plus pos ?n) = pos + int ?n" "to_loff ?n = int ?n"
      using p assms(4) len by (simp_all add: size_plus_small to_loff_small)
    moreover have "(if cnt < length bs - ?p then cnt else length bs - ?p) = ?n"
      by simp
    ultimately have "ramfs_read s f buf cnt pos = (set_bytes s (write_bytes ?m buf ?got), pos + int ?n, int ?n)"
      using False by (simp only: ramfs_read_def assms(2) d size [unfolded fl(2)] fl(2) Let_def loop got(1) option.case if_False de_Morgan_disj)
    then show ?thesis
      by (simp only: got(2))
  qed
  ultimately show ?thesis
    by (simp add: Let_def)
qed

text \<open>Reading delivers to the caller exactly the bytes of the file from the offset on, at most \<open>cnt\<close> of
  them, advances the offset by their number, returns it, and changes no other byte of memory.\<close>

theorem ramfs_read_refines:
  assumes "fs_rep s A" and "private_data (files s f) = Some a" and "A a = Some (AFile bs)"
    and "0 \<le> pos" and "caller_buf (fheap s) (rnodes s) A buf cnt"
  shows "let got = take cnt (drop (nat pos) bs);
             s' = s\<lparr>fheap := (fheap s)\<lparr>kbytes := write_bytes (kbytes (fheap s)) buf got\<rparr>\<rparr>
         in ramfs_read s f buf cnt pos = (s', pos + int (length got), int (length got)) \<and> fs_rep s' A"
  using assms by (rule ramfs_read_rep)

section \<open>A mounted file system\<close>

text \<open>Mounting on a well-formed heap gives the table that consists of an empty root directory.\<close>

lemma rep_empty: "heap_inv h \<Longrightarrow> rep h N Map.empty"
  by (simp add: rep_def entries_closed_def blocks_ok_def data_separate_def)

lemma ramfs_mount_rep:
  assumes "heap_inv (fheap s)"
  obtains (none) s' where "ramfs_mount s = Some (s', False)" and "ram_root s' = None"
  | (some) s' r where "ramfs_mount s = Some (s', True)" and "fs_rep s' [r \<mapsto> ADir []]"
      and "ram_root s' = Some r" and "i_private (inodes s' Static_root) = Some r"
      and "i_op (inodes s' Static_root) = Some Ramfs_inode_ops"
      and "d_inode (dentries s' Static_root) = Some Static_root"
proof -
  let ?s = "s\<lparr>next_ino := 1, inode_count := 0\<rparr>"
  have "fs_rep ?s Map.empty"
    using rep_empty [OF assms] by simp
  then show ?thesis
  proof (cases rule: alloc_inode_rep [where md = "S_IFDIR OR 0x1ED" and nm = "[]"])
    case none
    then have "ramfs_mount s = Some (?s\<lparr>ram_root := None\<rparr>, False)"
      by (simp only: ramfs_mount_def option.case bind.bind_lunit prod.case)
    with that(1) [of "?s\<lparr>ram_root := None\<rparr>"] show ?thesis by simp
  next
    case (some s1 r k n)
    let ?t = "s1\<lparr>ram_root := Some r,
       inodes := (inodes s1)(Static_root := \<lparr>i_ino = rino (rnodes s1 r), i_mode = S_IFDIR OR 0x1ED, i_size = 0,
         i_op = Some Ramfs_inode_ops, i_fop = Some Ramfs_dir_ops, i_sb = True, i_private = Some r\<rparr>),
       dentries := (dentries s1)(Static_root := \<lparr>d_name = ''/'', d_inode = Some Static_root,
         d_parent = Some Static_root, d_sb = True\<rparr>)\<rparr>"
    have "ramfs_mount s = Some (?t, True)"
      using some(1) by (simp only: ramfs_mount_def option.case bind.bind_lunit prod.case)
    moreover have "fs_rep ?t [r \<mapsto> ADir []]"
      using some(2) mode_dir [of "0x1ED"] by simp
    ultimately show ?thesis
      by (intro that(2) [of ?t r]) simp_all
  qed
qed

section \<open>Witnesses\<close>

text \<open>A root directory at 40 with a file \<^verbatim>\<open>notes\<close> at 424 that holds three bytes in its buffer at 808.\<close>

definition sample_fs_heap :: kheap where
  "sample_fs_heap = (raw_heap 0)\<lparr>heap_end := 13120, free_list := Some 4928, heap_total := 13120, kheap_used := 4928,
     heap_initialized := True, kbytes := write_bytes (\<lambda>_. 7) 808 [1, 2, 3],
     hdr := (\<lambda>a. if a = 0 \<or> a = 384 then \<lparr>bsize = 384, bmagic = BLOCK_MAGIC_USED, bflags = 0, bnext = None, bprev = None\<rparr>
       else if a = 768 then \<lparr>bsize = 4160, bmagic = BLOCK_MAGIC_USED, bflags = 0, bnext = None, bprev = None\<rparr>
       else \<lparr>bsize = 8192, bmagic = BLOCK_MAGIC_FREE, bflags = 1, bnext = None, bprev = None\<rparr>)\<rparr>"

lemma sample_fs_heap_wf: "heap_wf sample_fs_heap [0, 384, 768, 4928] [4928]"
  by (simp add: sample_fs_heap_def raw_heap_def heap_wf_def free_structure_def used_size_def)

lemma sample_fs_heap_live: "live sample_fs_heap = {(40, 344), (424, 344), (808, 4120)}"
proof -
  have "set [0, 384, 768, 4928 :: nat] - set [4928] = {0, 384, 768}"
    by auto
  then show ?thesis
    unfolding live_eq [OF sample_fs_heap_wf] by (simp add: sample_fs_heap_def block_data_def)
qed

definition sample_fs :: fs where
  "sample_fs = \<lparr>fheap = sample_fs_heap,
     rnodes = (\<lambda>a. if a = 40
       then \<lparr>rino = 1, rmode = S_IFDIR, ruid = 0, rgid = 0, rsize = 0, rdata = None, data_capacity = 0,
         rparent = None, children = Some 424, sibling = None, rname = []\<rparr>
       else \<lparr>rino = 2, rmode = S_IFREG, ruid = 0, rgid = 0, rsize = 3, rdata = Some 808, data_capacity = 4096,
         rparent = Some 40, children = None, sibling = None, rname = ''notes''\<rparr>),
     ram_root = Some 40, next_ino = 3, inode_count = 2,
     inodes = (\<lambda>v. \<lparr>i_ino = 0, i_mode = (if v = Static_root then S_IFDIR else S_IFREG), i_size = 3,
       i_op = Some Ramfs_inode_ops, i_fop = Some (if v = Static_root then Ramfs_dir_ops else Ramfs_file_ops),
       i_sb = True, i_private = Some (if v = Static_root then 40 else 424)\<rparr>),
     dentries = (\<lambda>v. \<lparr>d_name = (if v = Obj 11 then ''notes'' else ''other''),
       d_inode = (if v = Static_root then Some Static_root else if v = Obj 11 then Some (Obj 11) else None),
       d_parent = None, d_sb = False\<rparr>),
     files = (\<lambda>_. \<lparr>f_dentry = Some (Obj 11), f_op = Some Ramfs_file_ops, f_pos = 0, f_flags = 2, f_mode = 0,
       f_count = 1, private_data = Some 424\<rparr>)\<rparr>"

abbreviation sample_table :: table where
  "sample_table \<equiv> [40 \<mapsto> ADir [(''notes'', 424)], 424 \<mapsto> AFile [1, 2, 3]]"

lemma sample_fs_fields:
  "i_private (inodes sample_fs Static_root) = Some 40" "i_private (inodes sample_fs (Obj 11)) = Some 424"
  "d_inode (dentries sample_fs (Obj 11)) = Some (Obj 11)" "d_name (dentries sample_fs (Obj 11)) = ''notes''"
  "d_name (dentries sample_fs (Obj 12)) = ''other''" "private_data (files sample_fs 5) = Some 424"
  "fheap sample_fs = sample_fs_heap" "ram_root sample_fs = Some 40"
  by (simp_all add: sample_fs_def)

lemma sample_fs_rep: "fs_rep sample_fs sample_table"
proof -
  have "heap_inv sample_fs_heap"
    using sample_fs_heap_wf unfolding heap_inv_def by blast
  moreover have "entries_closed sample_table"
    by (simp add: entries_closed_def)
  moreover have "has_block sample_fs_heap 40 328" "has_block sample_fs_heap 424 328" "has_block sample_fs_heap 808 4096"
    unfolding has_block_def sample_fs_heap_live by fastforce+
  then have "blocks_ok sample_fs_heap (rnodes sample_fs) sample_table"
    by (simp add: blocks_ok_def sample_fs_def)
  moreover have "data_separate (rnodes sample_fs) sample_table"
    by (simp add: data_separate_def sample_fs_def)
  moreover have "read_bytes (kbytes sample_fs_heap) 808 3 = [1, 2, 3]"
    using read_write_same [of "\<lambda>_. 7" 808 "[1, 2, 3]"] by (simp add: sample_fs_heap_def numeral_3_eq_3)
  then have "node_rep sample_fs_heap (rnodes sample_fs) a nd" if "sample_table a = Some nd" for a nd
    using that by (auto simp: sample_fs_def S_ISDIR_def MAX_ALLOC_def numeral_3_eq_3 split: if_splits)
  ultimately show ?thesis
    by (simp add: rep_def sample_fs_fields)
qed

lemma sample_caller_buf: "caller_buf (fheap sample_fs) (rnodes sample_fs) sample_table 20000 n"
  by (simp add: caller_buf_def sample_fs_fields sample_fs_heap_def)

lemma sample_fs_room: "n \<le> 8192 \<Longrightarrow> room sample_fs_heap n"
  unfolding room_def free_blocks_eq [OF sample_fs_heap_wf] by (simp add: sample_fs_heap_def)

lemma ramfs_create_refines_witness:
  "\<exists>s' a. ramfs_mkdir sample_fs Static_root (Obj 12) 0x1ED = Some (s', 0) \<and>
     fs_rep s' (sample_table(a \<mapsto> ADir [], 40 \<mapsto> ADir [(''other'', a), (''notes'', 424)]))"
  using sample_fs_room [of 616] ramfs_create_refines [OF sample_fs_rep sample_fs_fields(1), of "[(''notes'', 424)]" "0x1ED" ramfs_mkdir "ADir []" "Obj 12"]
  by (auto simp: sample_fs_fields copy_name_def RAMFS_MAX_NAME_def)

lemma ramfs_remove_refines_witness:
  "\<exists>s'. ramfs_unlink sample_fs Static_root (Obj 11) = Some (s', 0) \<and> fs_rep s' [40 \<mapsto> ADir []] \<and>
     live (fheap s') = {(40, 344)} \<and> ramfs_rmdir sample_fs Static_root (Obj 11) = Some (sample_fs, - ENOTDIR)"
proof -
  have "rdata (rnodes sample_fs 424) = Some 808"
    by (simp add: sample_fs_def)
  moreover have "(sample_table(40 \<mapsto> ADir []))(424 := None) = [40 \<mapsto> ADir []]"
    by auto
  moreover have "{(p, k). (p, k) \<in> {(40, 344), (424, 344), (808, 4120 :: nat)} \<and> p \<noteq> 424 \<and> 808 \<noteq> p} = {(40 :: nat, 344)}"
    by auto
  ultimately show ?thesis
    using ramfs_remove_refines [OF sample_fs_rep sample_fs_fields(1), of "[(''notes'', 424)]" "Obj 11"]
    by (auto simp: sample_fs_fields entry_removed_def sample_fs_heap_live)
qed

lemma ramfs_rename_refines_witness:
  "\<exists>N. ramfs_rename sample_fs Static_root (Obj 11) Static_root (Obj 12) = Some (sample_fs\<lparr>rnodes := N\<rparr>, 0) \<and>
     fs_rep (sample_fs\<lparr>rnodes := N\<rparr>) [40 \<mapsto> ADir [(''other'', 424)], 424 \<mapsto> AFile [1, 2, 3]]"
proof -
  have "moved sample_table 40 40 424 (copy_name ''other'') = [40 \<mapsto> ADir [(''other'', 424)], 424 \<mapsto> AFile [1, 2, 3]]"
    by (simp add: moved_def copy_name_def RAMFS_MAX_NAME_def fun_upd_twist)
  then show ?thesis
    using ramfs_rename_refines [OF sample_fs_rep sample_fs_fields(1) _ sample_fs_fields(3,2) _ sample_fs_fields(1),
        of "[(''notes'', 424)]" "''notes''" "[(''notes'', 424)]" "Obj 12"]
    by (simp add: sample_fs_fields)
qed


lemma ramfs_read_refines_witness:
  "ramfs_read sample_fs 5 20000 10 1 =
     (sample_fs\<lparr>fheap := sample_fs_heap\<lparr>kbytes := write_bytes (kbytes sample_fs_heap) 20000 [2, 3]\<rparr>\<rparr>, 3, 2)"
  using ramfs_read_refines [OF sample_fs_rep sample_fs_fields(6) _ _ sample_caller_buf, of "[1, 2, 3]" 1 10]
  by (simp add: sample_fs_fields Let_def)
end
