(* ===== verification/Vfs.thy ===== *)
theory Vfs
  imports Ramfs_Spec
begin

text \<open>
  The virtual file system layer, \<^verbatim>\<open>kernel/fs/vfs.c\<close>: path lookup, open files and mounts on top of the
  operations a file system registers. The only file system of the kernel that has inode operations is
  the RAM file system, so the tables of function pointers lead to the operations of \<^verbatim>\<open>Ramfs\<close>.
  The operations on files read the global \<open>root_dentry\<close> and never assign it: it is their first
  argument. \<^const>\<open>None\<close> is a call that does not return because it follows a \<^verbatim>\<open>NULL\<close> pointer.
\<close>

section \<open>Operation tables\<close>

abbreviation (input) "ENODEV \<equiv> (19 :: int)"
abbreviation (input) "EFAULT \<equiv> (14 :: int)"
abbreviation (input) "EBUSY \<equiv> (16 :: int)"
abbreviation (input) "ENOSYS \<equiv> (38 :: int)"
abbreviation (input) "O_CREAT \<equiv> (0x40 :: int)"
abbreviation (input) "sizeof_dentry \<equiv> (304 :: nat)"
abbreviation (input) "sizeof_file \<equiv> (48 :: nat)"

definition NAME_MAX :: nat where "NAME_MAX = 255"
definition MAX_MOUNTS :: nat where "MAX_MOUNTS = 64"

fun fop_read :: "file_operations \<Rightarrow> (fs \<Rightarrow> addr \<Rightarrow> addr \<Rightarrow> nat \<Rightarrow> int \<Rightarrow> fs \<times> int \<times> int) option" where
  "fop_read Ramfs_file_ops = Some ramfs_read"
| "fop_read Ramfs_dir_ops = None"

fun fop_write :: "file_operations \<Rightarrow> (fs \<Rightarrow> addr \<Rightarrow> addr \<Rightarrow> nat \<Rightarrow> int \<Rightarrow> (fs \<times> int \<times> int) option) option" where
  "fop_write Ramfs_file_ops = Some ramfs_write"
| "fop_write Ramfs_dir_ops = None"

fun fop_readdir :: "file_operations \<Rightarrow> (fs \<Rightarrow> addr \<Rightarrow> (dirent list \<times> int) option) option" where
  "fop_readdir Ramfs_file_ops = None"
| "fop_readdir Ramfs_dir_ops = Some ramfs_readdir"

section \<open>Path lookup\<close>

definition skip_slashes :: "string \<Rightarrow> string" where
  "skip_slashes p = dropWhile (\<lambda>c. c = CHR ''/'') p"

text \<open>The next component, cut to \<open>NAME_MAX\<close> characters, and the path behind it.\<close>

definition component :: "string \<Rightarrow> string" where
  "component p = take NAME_MAX (takeWhile (\<lambda>c. c \<noteq> CHR ''/'') p)"

definition after_component :: "string \<Rightarrow> string" where
  "after_component p = skip_slashes (dropWhile (\<lambda>c. c \<noteq> CHR ''/'') p)"

lemma after_component_shorter [termination_simp]: "p \<noteq> [] \<Longrightarrow> length (after_component p) < length p"
proof (cases p)
  case (Cons c cs)
  have "length (dropWhile P xs) \<le> length xs" for P and xs :: string
    by (rule length_dropWhile_le)
  then show ?thesis
    using Cons by (auto simp: after_component_def skip_slashes_def less_Suc_eq_le intro: le_trans)
qed simp

text \<open>A fresh directory entry: zero but for its name.\<close>

definition alloc_dentry :: "fs \<Rightarrow> string \<Rightarrow> (fs \<times> ptr) option" where
  "alloc_dentry s nm = do {
     (h, r) \<leftarrow> kzalloc (fheap s) sizeof_dentry GFP_KERNEL;
     (case r of
        None \<Rightarrow> Some (s\<lparr>fheap := h\<rparr>, None)
      | Some c \<Rightarrow>
          Some (s\<lparr>fheap := h,
                  dentries := (dentries s)(Obj c := \<lparr>d_name = nm, d_inode = None, d_parent = None, d_sb = False\<rparr>)\<rparr>,
                Some c))
   }"

definition free_dentry :: "fs \<Rightarrow> addr \<Rightarrow> fs option" where
  "free_dentry s c = map_option (\<lambda>h. s\<lparr>fheap := h\<rparr>) (kfree (fheap s) (Some c))"

function lookup_parent_loop :: "fs \<Rightarrow> obj_ref \<Rightarrow> string \<Rightarrow> (fs \<times> (obj_ref \<times> string) option) option" where
  "lookup_parent_loop s cur p =
     (if p = [] then Some (s, None)
      else if after_component p = [] then Some (s, Some (cur, component p))
      else (case d_inode (dentries s cur) of
          None \<Rightarrow> Some (s, None)
        | Some vi \<Rightarrow>
            if i_op (inodes s vi) = None then Some (s, None)
            else do {
              (s1, r) \<leftarrow> alloc_dentry s (component p);
              (case r of
                 None \<Rightarrow> Some (s1, None)
               | Some c \<Rightarrow> do {
                   s2 \<leftarrow> ramfs_lookup s1 vi (Obj c);
                   if d_inode (dentries s2 (Obj c)) = None
                   then do { s3 \<leftarrow> free_dentry s2 c; Some (s3, None) }
                   else lookup_parent_loop s2 (Obj c) (after_component p)
                 })
            }))"
  by pat_completeness auto
termination
  by (relation "measure (\<lambda>(s, cur, p). length p)") (simp_all add: after_component_shorter)

declare lookup_parent_loop.simps [simp del]

definition vfs_lookup_parent :: "obj_ptr \<Rightarrow> fs \<Rightarrow> string \<Rightarrow> (fs \<times> (obj_ref \<times> string) option) option" where
  "vfs_lookup_parent root s path =
     (case root of
        None \<Rightarrow> Some (s, None)
      | Some rd \<Rightarrow>
          if skip_slashes path = [] then Some (s, None)
          else lookup_parent_loop s rd (skip_slashes path))"

section \<open>Files\<close>

definition alloc_file :: "fs \<Rightarrow> obj_ref \<Rightarrow> obj_ref \<Rightarrow> int \<Rightarrow> u32 \<Rightarrow> (fs \<times> ptr) option" where
  "alloc_file s de vi flags md = do {
     (h, r) \<leftarrow> kzalloc (fheap s) sizeof_file GFP_KERNEL;
     (case r of
        None \<Rightarrow> Some (s\<lparr>fheap := h\<rparr>, None)
      | Some f \<Rightarrow>
          Some (s\<lparr>fheap := h, files := (files s)(f := \<lparr>f_dentry = Some de, f_op = i_fop (inodes s vi), f_pos = 0,
                  f_flags = flags, f_mode = md, f_count = 1, private_data = i_private (inodes s vi)\<rparr>)\<rparr>, Some f))
   }"

text \<open>The part of \<open>vfs_open\<close> behind the search for the parent; both tables of file operations have \<open>ramfs_open\<close>.\<close>

definition open_file :: "fs \<Rightarrow> addr \<Rightarrow> int \<Rightarrow> u32 \<Rightarrow> (fs \<times> ptr) option" where
  "open_file s child flags md = do {
     vi \<leftarrow> d_inode (dentries s (Obj child));
     (s1, r) \<leftarrow> alloc_file s (Obj child) vi flags md;
     (case r of
        None \<Rightarrow> Some (s1, None)
      | Some f \<Rightarrow>
          Some (if f_op (files s1 f) = None then s1 else fst (ramfs_open s1 vi f), Some f))
   }"

definition open_in :: "fs \<Rightarrow> obj_ref \<Rightarrow> string \<Rightarrow> int \<Rightarrow> u32 \<Rightarrow> (fs \<times> ptr) option" where
  "open_in s parent nm flags md = do {
     (s1, r) \<leftarrow> alloc_dentry s nm;
     child \<leftarrow> r;
     s2 \<leftarrow> (case d_inode (dentries s1 parent) of
              None \<Rightarrow> Some s1
            | Some vi \<Rightarrow> if i_op (inodes s1 vi) = None then Some s1 else ramfs_lookup s1 vi (Obj child));
     if d_inode (dentries s2 (Obj child)) = None
     then
       if flags AND O_CREAT \<noteq> 0
       then do {
         pvi \<leftarrow> d_inode (dentries s2 parent);
         _ \<leftarrow> i_op (inodes s2 pvi);
         (s3, ret) \<leftarrow> ramfs_create s2 pvi (Obj child) md;
         if ret \<noteq> 0 then do { s4 \<leftarrow> free_dentry s3 child; Some (s4, None) }
         else open_file s3 child flags md
       }
       else do { s3 \<leftarrow> free_dentry s2 child; Some (s3, None) }
     else open_file s2 child flags md
   }"

definition vfs_open :: "obj_ptr \<Rightarrow> fs \<Rightarrow> string \<Rightarrow> int \<Rightarrow> u32 \<Rightarrow> (fs \<times> ptr) option" where
  "vfs_open root s path flags md =
     (if path = ''/''
      then do {
        rd \<leftarrow> root;
        vi \<leftarrow> d_inode (dentries s rd);
        (s1, r) \<leftarrow> alloc_file s rd vi flags md;
        f \<leftarrow> r;
        Some (s1, Some f)
      }
      else do {
        (s1, par) \<leftarrow> vfs_lookup_parent root s path;
        (case par of
           Some (parent, nm) \<Rightarrow> open_in s1 parent nm flags md
         | None \<Rightarrow>
             let p = skip_slashes path in
             if dropWhile (\<lambda>c. c \<noteq> CHR ''/'') p \<noteq> [] then Some (s1, None)
             else do { rd \<leftarrow> root; open_in s1 rd (component p) flags md })
      })"

text \<open>
  \<open>vfs_create\<close> and \<open>vfs_mkdir\<close> do not check the allocation of the directory entry; the name is
  copied through the pointer.
\<close>

definition vfs_make ::
    "(fs \<Rightarrow> obj_ref \<Rightarrow> obj_ref \<Rightarrow> u32 \<Rightarrow> (fs \<times> int) option) \<Rightarrow> obj_ptr \<Rightarrow> fs \<Rightarrow> string \<Rightarrow> u32 \<Rightarrow> (fs \<times> int) option" where
  "vfs_make mk root s path md = do {
     (s1, par) \<leftarrow> vfs_lookup_parent root s path;
     (case par of
        None \<Rightarrow> Some (s1, - ENOENT)
      | Some (parent, nm) \<Rightarrow> do {
          (s2, r) \<leftarrow> alloc_dentry s1 nm;
          child \<leftarrow> r;
          pvi \<leftarrow> d_inode (dentries s2 parent);
          if i_op (inodes s2 pvi) = None then Some (s2, - EPERM)
          else mk s2 pvi (Obj child) md
        })
   }"

definition vfs_create :: "obj_ptr \<Rightarrow> fs \<Rightarrow> string \<Rightarrow> u32 \<Rightarrow> (fs \<times> int) option" where
  "vfs_create = vfs_make ramfs_create"

definition vfs_mkdir :: "obj_ptr \<Rightarrow> fs \<Rightarrow> string \<Rightarrow> u32 \<Rightarrow> (fs \<times> int) option" where
  "vfs_mkdir = vfs_make ramfs_mkdir"

definition vfs_readdir :: "fs \<Rightarrow> ptr \<Rightarrow> (dirent list \<times> int) option" where
  "vfs_readdir s fp =
     (case fp of
        None \<Rightarrow> Some ([], - EINVAL)
      | Some f \<Rightarrow>
          (case Option.bind (f_op (files s f)) fop_readdir of
             None \<Rightarrow> Some ([], - EINVAL)
           | Some rd \<Rightarrow> rd s f))"

abbreviation upd_file :: "fs \<Rightarrow> addr \<Rightarrow> (vfile \<Rightarrow> vfile) \<Rightarrow> fs" where
  "upd_file s f g \<equiv> s\<lparr>files := (files s)(f := g (files s f))\<rparr>"

definition vfs_close :: "fs \<Rightarrow> ptr \<Rightarrow> (fs \<times> int) option" where
  "vfs_close s fp =
     (case fp of
        None \<Rightarrow> Some (s, - EBADF)
      | Some f \<Rightarrow> do {
          let s1 = (if f_op (files s f) \<noteq> None \<and> f_dentry (files s f) \<noteq> None then fst (ramfs_release s f) else s);
          let s2 = upd_file s1 f (\<lambda>x. x\<lparr>f_count := f_count x - 1\<rparr>);
          if f_count (files s2 f) \<le> 0
          then do { h \<leftarrow> kfree (fheap s2) (Some f); Some (s2\<lparr>fheap := h\<rparr>, 0) }
          else Some (s2, 0)
        })"

definition vfs_read :: "fs \<Rightarrow> ptr \<Rightarrow> ptr \<Rightarrow> nat \<Rightarrow> fs \<times> int" where
  "vfs_read s fp buf cnt =
     (case fp of
        None \<Rightarrow> (s, - EBADF)
      | Some f \<Rightarrow>
          (case buf of
             None \<Rightarrow> (s, - EFAULT)
           | Some b \<Rightarrow>
               (case Option.bind (f_op (files s f)) fop_read of
                  None \<Rightarrow> (s, - EINVAL)
                | Some rd \<Rightarrow>
                    let (s1, pos, r) = rd s f b cnt (f_pos (files s f))
                    in (upd_file s1 f (\<lambda>x. x\<lparr>f_pos := pos\<rparr>), r))))"

definition vfs_write :: "fs \<Rightarrow> ptr \<Rightarrow> ptr \<Rightarrow> nat \<Rightarrow> (fs \<times> int) option" where
  "vfs_write s fp buf cnt =
     (case fp of
        None \<Rightarrow> Some (s, - EBADF)
      | Some f \<Rightarrow>
          (case buf of
             None \<Rightarrow> Some (s, - EFAULT)
           | Some b \<Rightarrow>
               (case Option.bind (f_op (files s f)) fop_write of
                  None \<Rightarrow> Some (s, - EINVAL)
                | Some wr \<Rightarrow> do {
                    (s1, pos, r) \<leftarrow> wr s f b cnt (f_pos (files s f));
                    Some (upd_file s1 f (\<lambda>x. x\<lparr>f_pos := pos\<rparr>), r)
                  })))"

text \<open>The sum of two offsets, wrapped to 64 bits.\<close>

definition loff_sum :: "int \<Rightarrow> int \<Rightarrow> int" where
  "loff_sum a b = to_loff (nat ((a + b) mod 2 ^ 64))"

definition vfs_lseek :: "fs \<Rightarrow> ptr \<Rightarrow> int \<Rightarrow> int \<Rightarrow> fs \<times> int" where
  "vfs_lseek s fp offset whence =
     (case fp of
        None \<Rightarrow> (s, - EBADF)
      | Some f \<Rightarrow>
          let vi = Option.bind (f_dentry (files s f)) (\<lambda>de. d_inode (dentries s de));
              new_pos = (if whence = 0 then Some offset
                         else if whence = 1 then Some (loff_sum (f_pos (files s f)) offset)
                         else if whence = 2 then map_option (\<lambda>v. loff_sum (i_size (inodes s v)) offset) vi
                         else None)
          in (case new_pos of
                None \<Rightarrow> (s, - EINVAL)
              | Some np \<Rightarrow> if np < 0 then (s, - EINVAL) else (upd_file s f (\<lambda>x. x\<lparr>f_pos := np\<rparr>), np)))"

section \<open>Removing and renaming\<close>

text \<open>\<open>vfs_rmdir\<close> and \<open>vfs_unlink\<close> differ in the kind of inode they accept and in the operation they call.\<close>

definition vfs_remove ::
    "(u32 \<Rightarrow> bool) \<Rightarrow> int \<Rightarrow> (fs \<Rightarrow> obj_ref \<Rightarrow> obj_ref \<Rightarrow> (fs \<times> int) option) \<Rightarrow> obj_ptr \<Rightarrow> fs \<Rightarrow> string \<Rightarrow> (fs \<times> int) option" where
  "vfs_remove good err rm root s path = do {
     (s1, par) \<leftarrow> vfs_lookup_parent root s path;
     (case par of
        None \<Rightarrow> Some (s1, - ENOENT)
      | Some (parent, nm) \<Rightarrow> do {
          (s2, r) \<leftarrow> alloc_dentry s1 nm;
          (case r of
             None \<Rightarrow> Some (s2, - ENOMEM)
           | Some child \<Rightarrow> do {
               pvi \<leftarrow> d_inode (dentries s2 parent);
               s3 \<leftarrow> (if i_op (inodes s2 pvi) = None then Some s2 else ramfs_lookup s2 pvi (Obj child));
               (case d_inode (dentries s3 (Obj child)) of
                  None \<Rightarrow> do { s4 \<leftarrow> free_dentry s3 child; Some (s4, - ENOENT) }
                | Some cvi \<Rightarrow>
                    if \<not> good (i_mode (inodes s3 cvi))
                    then do { s4 \<leftarrow> free_dentry s3 child; Some (s4, - err) }
                    else if i_op (inodes s3 pvi) = None
                    then do { s4 \<leftarrow> free_dentry s3 child; Some (s4, - EPERM) }
                    else do {
                      (s4, ret) \<leftarrow> rm s3 pvi (Obj child);
                      s5 \<leftarrow> free_dentry s4 child;
                      Some (s5, ret)
                    })
             })
        })
   }"

definition vfs_rmdir :: "obj_ptr \<Rightarrow> fs \<Rightarrow> string \<Rightarrow> (fs \<times> int) option" where
  "vfs_rmdir = vfs_remove S_ISDIR ENOTDIR ramfs_rmdir"

definition vfs_unlink :: "obj_ptr \<Rightarrow> fs \<Rightarrow> string \<Rightarrow> (fs \<times> int) option" where
  "vfs_unlink = vfs_remove (\<lambda>m. \<not> S_ISDIR m) EISDIR ramfs_unlink"

definition vfs_rename :: "obj_ptr \<Rightarrow> fs \<Rightarrow> string \<Rightarrow> string \<Rightarrow> (fs \<times> int) option" where
  "vfs_rename root s old new = do {
     (s1, opar) \<leftarrow> vfs_lookup_parent root s old;
     (case opar of
        None \<Rightarrow> Some (s1, - ENOENT)
      | Some (old_parent, old_name) \<Rightarrow> do {
          (s2, npar) \<leftarrow> vfs_lookup_parent root s1 new;
          (case npar of
             None \<Rightarrow> Some (s2, - ENOENT)
           | Some (new_parent, new_name) \<Rightarrow> do {
               (s3, r) \<leftarrow> alloc_dentry s2 old_name;
               old_child \<leftarrow> r;
               ovi \<leftarrow> d_inode (dentries s3 old_parent);
               s4 \<leftarrow> (if i_op (inodes s3 ovi) = None then Some s3 else ramfs_lookup s3 ovi (Obj old_child));
               if d_inode (dentries s4 (Obj old_child)) = None
               then do { s5 \<leftarrow> free_dentry s4 old_child; Some (s5, - ENOENT) }
               else do {
                 (s5, r2) \<leftarrow> alloc_dentry s4 new_name;
                 new_child \<leftarrow> r2;
                 if i_op (inodes s5 ovi) = None
                 then do {
                   s6 \<leftarrow> free_dentry s5 old_child;
                   s7 \<leftarrow> free_dentry s6 new_child;
                   Some (s7, - EPERM)
                 }
                 else do {
                   nvi \<leftarrow> d_inode (dentries s5 new_parent);
                   (s6, ret) \<leftarrow> ramfs_rename s5 ovi (Obj old_child) nvi (Obj new_child);
                   s7 \<leftarrow> free_dentry s6 old_child;
                   s8 \<leftarrow> free_dentry s7 new_child;
                   Some (s8, ret)
                 }
               }
             })
        })
   }"

section \<open>File systems and mounts\<close>

text \<open>
  Registered file systems are objects of their authors, linked through \<open>next\<close>; a mount function is
  absent or the one of the RAM file system. Mount structures come from a static pool.
\<close>

record file_system_type =
  fst_name :: "string option"
  fst_mount :: bool
  fst_next :: ptr

record vfsmount =
  mnt_root :: obj_ptr
  mnt_sb :: bool
  mnt_parent :: ptr
  mnt_devname :: string

record vfs =
  vfs_fs :: fs
  fstypes :: "nat \<Rightarrow> file_system_type"
  file_systems :: ptr
  mount_pool :: "nat \<Rightarrow> vfsmount"
  mounts :: "nat \<Rightarrow> ptr"
  mount_count :: nat
  root_mount :: ptr
  root_dentry :: obj_ptr

partial_function (option) find_loop :: "(nat \<Rightarrow> file_system_type) \<Rightarrow> ptr \<Rightarrow> string \<Rightarrow> ptr option" where
  "find_loop T f nm =
     (if f = None then Some None
      else if fst_name (T (the f)) = None then None
      else if name_match (the (fst_name (T (the f)))) nm then Some f
      else find_loop T (fst_next (T (the f))) nm)"

definition find_filesystem :: "vfs \<Rightarrow> string \<Rightarrow> ptr option" where
  "find_filesystem v nm = find_loop (fstypes v) (file_systems v) nm"

text \<open>The difference of the first characters that differ.\<close>

fun path_compare :: "string \<Rightarrow> string \<Rightarrow> int" where
  "path_compare (a # as) (b # bs) = (if a = b then path_compare as bs else int (of_char a) - int (of_char b))"
| "path_compare (a # as) [] = int (of_char a)"
| "path_compare [] (b # bs) = - int (of_char b)"
| "path_compare [] [] = 0"

definition vfs_init :: "vfs \<Rightarrow> vfs" where
  "vfs_init v = v\<lparr>mounts := (\<lambda>i. if i < MAX_MOUNTS then None else mounts v i)\<rparr>"

definition register_filesystem :: "vfs \<Rightarrow> ptr \<Rightarrow> (vfs \<times> int) option" where
  "register_filesystem v fp =
     (case fp of
        None \<Rightarrow> Some (v, - EINVAL)
      | Some f \<Rightarrow>
          (case fst_name (fstypes v f) of
             None \<Rightarrow> Some (v, - EINVAL)
           | Some nm \<Rightarrow> do {
               r \<leftarrow> find_filesystem v nm;
               if r \<noteq> None then Some (v, - EBUSY)
               else Some (v\<lparr>fstypes := (fstypes v)(f := (fstypes v f)\<lparr>fst_next := file_systems v\<rparr>),
                            file_systems := Some f\<rparr>, 0)
             }))"

text \<open>The RAM file system registers its type object \<open>f\<close>.\<close>

definition ramfs_init :: "vfs \<Rightarrow> nat \<Rightarrow> (vfs \<times> int) option" where
  "ramfs_init v f =
     register_filesystem (v\<lparr>fstypes := (fstypes v)(f := \<lparr>fst_name = Some ''ramfs'', fst_mount = True, fst_next = None\<rparr>)\<rparr>) (Some f)"

definition vfs_mount :: "vfs \<Rightarrow> string \<Rightarrow> string \<Rightarrow> string \<Rightarrow> (vfs \<times> int) option" where
  "vfs_mount v source target fstype = do {
     r \<leftarrow> find_filesystem v fstype;
     (case r of
        None \<Rightarrow> Some (v, - ENODEV)
      | Some f \<Rightarrow>
          if mount_count v \<ge> MAX_MOUNTS then Some (v, - ENOMEM)
          else if \<not> fst_mount (fstypes v f) then Some (v, - ENOSYS)
          else do {
            (s, ok) \<leftarrow> ramfs_mount (vfs_fs v);
            if \<not> ok then Some (v\<lparr>vfs_fs := s\<rparr>, - EIO)
            else
              let k = mount_count v;
                  mnt = \<lparr>mnt_root = Some Static_root, mnt_sb = True, mnt_parent = root_mount v, mnt_devname = take 63 source\<rparr>;
                  v1 = v\<lparr>vfs_fs := s, mount_pool := (mount_pool v)(k := mnt), mounts := (mounts v)(k := Some k),
                         mount_count := k + 1\<rparr>
              in Some (if path_compare target ''/'' = 0
                       then v1\<lparr>root_mount := Some k, root_dentry := Some Static_root\<rparr> else v1, 0)
          })
   }"

definition vfs_umount :: "vfs \<Rightarrow> string \<Rightarrow> vfs \<times> int" where
  "vfs_umount v target = (v, - ENOSYS)"

end
