(* ===== verification/Vfs_Spec.thy ===== *)
theory Vfs_Spec
  imports Vfs
begin

text \<open>
  What the VFS layer promises on top of the RAM file system: a path leads to the inode the table of
  files and directories says, an open file reads and writes that inode, and an allocation on the way
  never damages an object in use. The section on memory says how large a free block of the kernel heap
  makes the calls succeed.
\<close>

section \<open>VFS objects in use\<close>

text \<open>A VFS object is the static root object or a heap block that does not belong to the RAM file system.\<close>

fun in_use :: "fs \<Rightarrow> table \<Rightarrow> obj_ref \<Rightarrow> bool" where
  "in_use s A Static_root \<longleftrightarrow> True"
| "in_use s A (Obj p) \<longleftrightarrow> (\<exists>k. (p, k) \<in> live (fheap s)) \<and> \<not> fs_block (rnodes s) A p"

text \<open>The directory entry \<open>de\<close> leads to the inode \<open>a\<close> of the table.\<close>

definition fop_of :: "table \<Rightarrow> addr \<Rightarrow> file_operations" where
  "fop_of A a = (case A a of Some (ADir _) \<Rightarrow> Ramfs_dir_ops | _ \<Rightarrow> Ramfs_file_ops)"

definition leads :: "fs \<Rightarrow> table \<Rightarrow> obj_ref \<Rightarrow> obj_ref \<Rightarrow> addr \<Rightarrow> bool" where
  "leads s A de vi a \<longleftrightarrow> in_use s A de \<and> in_use s A vi \<and> d_inode (dentries s de) = Some vi \<and> a \<in> dom A \<and>
     i_op (inodes s vi) = Some Ramfs_inode_ops \<and> i_private (inodes s vi) = Some a \<and>
     i_fop (inodes s vi) = Some (fop_of A a)"

text \<open>\<open>s'\<close> differs from \<open>s\<close> only in objects that were not in use in \<open>s\<close>.\<close>

definition extends :: "table \<Rightarrow> fs \<Rightarrow> fs \<Rightarrow> bool" where
  "extends A s s' \<longleftrightarrow> fs_rep s' A \<and> rnodes s' = rnodes s \<and> live (fheap s) \<subseteq> live (fheap s') \<and>
     (\<forall>v. in_use s A v \<longrightarrow> inodes s' v = inodes s v \<and> dentries s' v = dentries s v) \<and> files s' = files s"

lemma extends_refl: "fs_rep s A \<Longrightarrow> extends A s s"
  by (simp add: extends_def)

lemma extends_in_use: "extends A s s' \<Longrightarrow> in_use s A v \<Longrightarrow> in_use s' A v"
  by (cases v) (auto simp: extends_def)

lemma extends_trans:
  assumes "extends A s t" and "extends A t u"
  shows "extends A s u"
proof -
  have "inodes u v = inodes s v \<and> dentries u v = dentries s v" if "in_use s A v" for v
    using that extends_in_use [OF assms(1) that] assms by (simp add: extends_def)
  with assms show ?thesis by (auto simp: extends_def)
qed

lemma extends_leads:
  assumes "extends A s s'" and "leads s A de vi a"
  shows "leads s' A de vi a"
proof -
  have "in_use s A de" "in_use s A vi"
    using assms(2) by (simp_all add: leads_def)
  then have "in_use s' A de" "in_use s' A vi" "dentries s' de = dentries s de" "inodes s' vi = inodes s vi"
    using assms(1) extends_in_use [OF assms(1), of de] extends_in_use [OF assms(1), of vi]
    unfolding extends_def by blast+
  with assms(2) show ?thesis by (simp add: leads_def)
qed

lemma extends_rep: "extends A s s' \<Longrightarrow> fs_rep s' A"
  unfolding extends_def by blast

section \<open>Looking for an entry\<close>

lemma alloc_dentry_spec:
  assumes rep: "fs_rep s A"
  obtains (none) "alloc_dentry s nm = Some (s, None)" and "\<not> room (fheap s) 376"
  | (some) s' c k where "alloc_dentry s nm = Some (s', Some c)" and "extends A s s'" and "in_use s' A (Obj c)"
      and "\<not> in_use s A (Obj c)" and "(c, k) \<in> live (fheap s')" and "\<And>l. (c, l) \<notin> live (fheap s)"
      and "dentries s' (Obj c) = \<lparr>d_name = nm, d_inode = None, d_parent = None, d_sb = False\<rparr>"
      and "\<And>j. 72 \<le> j \<Longrightarrow> room (fheap s) (j + 376) \<Longrightarrow> room (fheap s') j"
  using repD(1) [OF rep]
proof (cases rule: kzalloc_frame [where n = sizeof_dentry and f = GFP_KERNEL])
  case none
  then show ?thesis using that(1) by (simp add: alloc_dentry_def MAX_ALLOC_def)
next
  case (some h c k)
  let ?s = "s\<lparr>fheap := h, dentries := (dentries s)(Obj c := \<lparr>d_name = nm, d_inode = None, d_parent = None, d_sb = False\<rparr>)\<rparr>"
  note fresh = fresh_block [OF rep some(5,2,4)]
  have new: "(c, l) \<notin> live (fheap s)" for l
    using live_functional [OF some(2), of c k l] some(4,5) by auto
  have "rep h (rnodes s) A"
    using some(4,6) by (intro rep_heap [OF rep some(2)]) auto
  then have "extends A s ?s"
    using some(4) new by (auto simp: extends_def)
  then show ?thesis
    using that(2) [of ?s c k] some(1,4,8) fresh(1) new by (simp add: alloc_dentry_def)
qed

text \<open>Releasing an entry that was allocated after \<open>s\<close>.\<close>

lemma free_dentry_spec:
  assumes ext: "extends A s s1" and c: "(c, k) \<in> live (fheap s1)" "\<And>l. (c, l) \<notin> live (fheap s)" "\<not> fs_block (rnodes s) A c"
  obtains s' where "free_dentry s1 c = Some s'" and "extends A s s'"
    and "rnodes s' = rnodes s1" and "files s' = files s1"
proof -
  note rep = extends_rep [OF ext]
  from kfree_live [OF repD(1) [OF rep] c(1)] obtain h where h: "kfree (fheap s1) (Some c) = Some h" "heap_inv h"
      "live h = live (fheap s1) - {(c, k)}" "kbytes h = kbytes (fheap s1)" .
  have "rnodes s1 = rnodes s"
    using ext by (simp add: extends_def)
  then have "rep h (rnodes s1) A"
    using c(3) by (intro rep_heap [OF rep h(2)]) (auto simp: h(3,4))
  then have "extends A s (s1\<lparr>fheap := h\<rparr>)"
    using ext c(2) h(3) by (auto simp: extends_def)
  then show ?thesis
    using that [of "s1\<lparr>fheap := h\<rparr>"] h(1) by (simp add: free_dentry_def)
qed

text \<open>The child of an inode of the table with a given name.\<close>

definition child_of :: "table \<Rightarrow> addr \<Rightarrow> string \<Rightarrow> addr option" where
  "child_of A d nm = (case A d of Some (ADir es) \<Rightarrow> map_of es nm | _ \<Rightarrow> None)"

lemma lookup_child_of: "fs_rep s A \<Longrightarrow> d \<in> dom A \<Longrightarrow> ramfs_lookup_child s d nm = Some (child_of A d nm)"
  by (auto simp: child_of_def lookup_child_dir lookup_child_file split: anode.splits)

lemma child_of_dom: "fs_rep s A \<Longrightarrow> child_of A d nm = Some t \<Longrightarrow> t \<in> dom A"
  by (auto simp: child_of_def map_of_child split: option.splits anode.splits)

text \<open>Allocating a directory entry and looking its name up, as four of the calls do.\<close>

lemma find_entry:
  assumes rep: "fs_rep s A" and par: "leads s A de vi d"
  obtains (none) "alloc_dentry s nm = Some (s, None)" and "\<not> room (fheap s) 592"
  | (absent) s1 c k where "alloc_dentry s nm = Some (s1, Some c)" and "ramfs_lookup s1 vi (Obj c) = Some s1"
      and "extends A s s1" and "d_inode (dentries s1 (Obj c)) = None" and "leads s1 A de vi d"
      and "(c, k) \<in> live (fheap s1)" and "\<And>l. (c, l) \<notin> live (fheap s)" and "\<not> fs_block (rnodes s) A c"
      and "child_of A d nm = None \<or> \<not> room (fheap s) 592" and "d_name (dentries s1 (Obj c)) = nm"
      and "\<And>j. 72 \<le> j \<Longrightarrow> room (fheap s) (j + 376) \<Longrightarrow> room (fheap s1) j"
  | (found) s1 s2 c v t k where "alloc_dentry s nm = Some (s1, Some c)" and "ramfs_lookup s1 vi (Obj c) = Some s2"
      and "extends A s s2" and "leads s2 A (Obj c) (Obj v) t" and "child_of A d nm = Some t" and "leads s2 A de vi d"
      and "d_inode (dentries s1 de) = Some vi" and "i_op (inodes s1 vi) = Some Ramfs_inode_ops"
      and "(c, k) \<in> live (fheap s2)" and "\<And>l. (c, l) \<notin> live (fheap s)" and "\<not> fs_block (rnodes s) A c"
      and "d_name (dentries s2 (Obj c)) = nm" and "i_mode (inodes s2 (Obj v)) = rmode (rnodes s t)"
      and "i_size (inodes s2 (Obj v)) = to_loff (rsize (rnodes s t))"
      and "\<And>j. 72 \<le> j \<Longrightarrow> room (fheap s) (j + 592) \<Longrightarrow> room (fheap s2) j"
  using rep
proof (cases rule: alloc_dentry_spec [where nm = nm])
  case none
  with that(1) room_mono [of "fheap s" 592 376] show ?thesis by auto
next
  case (some s1 c k)
  note rep1 = extends_rep [OF some(2)] and par1 = extends_leads [OF some(2) par]
  have nodes: "rnodes s1 = rnodes s"
    using some(2) by (simp add: extends_def)
  have c: "\<not> fs_block (rnodes s) A c"
    using some(3) nodes by simp
  have lk: "ramfs_lookup s1 vi (Obj c) = (case child_of A d nm of None \<Rightarrow> Some s1
      | Some t \<Rightarrow> map_option fst (new_vfs_inode s1 vi (Obj c) t (to_loff (rsize (rnodes s1 t)))
            (if S_ISDIR (rmode (rnodes s1 t)) then Ramfs_dir_ops else Ramfs_file_ops)))"
    using par1 lookup_child_of [OF rep1, of d nm] some(7) by (simp add: ramfs_lookup_def leads_def)
  show ?thesis
  proof (cases "child_of A d nm")
    case None
    with some lk c par1 that(2) [of s1 c k] show ?thesis by simp
  next
    case (Some t)
    have td: "t \<in> dom A"
      using child_of_dom [OF rep Some] .
    have fop: "(if S_ISDIR (rmode (rnodes s1 t)) then Ramfs_dir_ops else Ramfs_file_ops) = fop_of A t"
      using td rep_dir(1) [OF rep1] rep_file(1) [OF rep1] by (auto simp: fop_of_def split: anode.splits)
    from rep1 show ?thesis
    proof (cases rule: new_vfs_inode_rep [where dir = vi and de = "Obj c" and ram = t and
          sz = "to_loff (rsize (rnodes s1 t))" and fop = "fop_of A t"])
      case none
      have "\<not> room (fheap s) 592"
        using none(2) some(8) [of 216] by auto
      with none(1) Some some lk fop c par1 that(2) [of s1 c k] show ?thesis by simp
    next
      case (some s2 v l)
      note d1 = \<open>alloc_dentry s nm = _\<close> \<open>extends A s s1\<close> \<open>in_use s1 A (Obj c)\<close> \<open>\<not> in_use s A (Obj c)\<close>
        \<open>(c, k) \<in> live (fheap s1)\<close> \<open>\<And>l. (c, l) \<notin> live (fheap s)\<close> \<open>dentries s1 (Obj c) = _\<close>
        \<open>\<And>j. 72 \<le> j \<Longrightarrow> room (fheap s) (j + 376) \<Longrightarrow> room (fheap s1) j\<close>
      have new: "(v, j) \<notin> live (fheap s1)" for j
        using live_functional [OF repD(1) [OF some(2)], of v l j] some(8,9) by auto
      have nv: "\<not> fs_block (rnodes s) A v"
        using fresh_block(1) [OF rep1 some(9) repD(1) [OF some(2)] some(8)] nodes by simp
      have ext: "extends A s s2"
        using d1(2,4) new some(2-4,6-8) nodes by (auto simp: extends_def)
      have "v \<noteq> c"
        using new d1(5) by blast
      moreover have "in_use s2 A (Obj v)" "in_use s2 A (Obj c)"
        using some(3,8) nv d1(3,5) nodes by auto
      ultimately have "leads s2 A (Obj c) (Obj v) t"
        using td some(6,7) by (simp add: leads_def)
      moreover have rm: "room (fheap s2) j" if "72 \<le> j" "room (fheap s) (j + 592)" for j
        using that some(12) [of j] d1(8) [of "j + 216"] by (simp add: add.assoc)
      moreover have "d_inode (dentries s1 de) = Some vi" "i_op (inodes s1 vi) = Some Ramfs_inode_ops"
        using par1 by (simp_all add: leads_def)
      ultimately show ?thesis
        using d1(1,5,6,7) lk Some fop some(1,6,7,8) ext extends_leads [OF ext par] c nodes
        by (intro that(3) [of s1 c s2 v t k]) (simp_all add: rm)
    qed
  qed
qed

section \<open>Following a path\<close>

text \<open>Where a path leads, on tables: the directory of its last component, and that component.\<close>

function walk :: "table \<Rightarrow> addr \<Rightarrow> string \<Rightarrow> (addr \<times> string) option" where
  "walk A d p =
     (if p = [] then None
      else if after_component p = [] then Some (d, component p)
      else (case child_of A d (component p) of None \<Rightarrow> None | Some t \<Rightarrow> walk A t (after_component p)))"
  by pat_completeness auto
termination
  by (relation "measure (\<lambda>(A, d, p). length p)") (simp_all add: after_component_shorter)

declare walk.simps [simp del]

text \<open>What a path lookup costs: a directory entry and a VFS inode for each character at most.\<close>

abbreviation (input) walk_cost :: "string \<Rightarrow> nat" where
  "walk_cost p \<equiv> 592 * length p"

text \<open>
  The result of a lookup that starts at the inode \<open>d\<close>: what it returns is what the table says, and it
  returns something when the memory suffices.
\<close>

definition lookup_ok :: "table \<Rightarrow> addr \<Rightarrow> string \<Rightarrow> fs \<Rightarrow> fs \<Rightarrow> (obj_ref \<times> string) option \<Rightarrow> bool" where
  "lookup_ok A d p s s' r \<longleftrightarrow> extends A s s' \<and>
     (\<forall>j \<ge> 72. room (fheap s) (j + walk_cost p) \<longrightarrow> r \<noteq> None \<or> walk A d p = None) \<and>
     (\<forall>de nm. r = Some (de, nm) \<longrightarrow> (\<exists>wi e. walk A d p = Some (e, nm) \<and> leads s' A de wi e \<and>
        (\<forall>j \<ge> 72. room (fheap s) (j + walk_cost p) \<longrightarrow> room (fheap s') j)))"

lemma lookup_parent_loop_spec:
  assumes "fs_rep s A" and "leads s A cur vi d"
  shows "\<exists>s' r. lookup_parent_loop s cur p = Some (s', r) \<and> lookup_ok A d p s s' r"
  using assms
proof (induction p arbitrary: s cur vi d rule: length_induct)
  case (1 p)
  note rep = 1(2) and par = 1(3)
  have simps: "lookup_parent_loop s cur p = (if p = [] then Some (s, None)
      else if after_component p = [] then Some (s, Some (cur, component p))
      else do {
        (s1, r) \<leftarrow> alloc_dentry s (component p);
        (case r of
           None \<Rightarrow> Some (s1, None)
         | Some c \<Rightarrow> do {
             s2 \<leftarrow> ramfs_lookup s1 vi (Obj c);
             if d_inode (dentries s2 (Obj c)) = None then do { s3 \<leftarrow> free_dentry s2 c; Some (s3, None) }
             else lookup_parent_loop s2 (Obj c) (after_component p)
           })
      })"
    using par by (subst lookup_parent_loop.simps) (simp add: leads_def)
  show ?case
  proof (cases "p = [] \<or> after_component p = []")
    case True
    then show ?thesis
      using par extends_refl [OF rep] room_mono [of "fheap s"]
      by (auto simp: lookup_ok_def simps walk.simps [of A d p] split: if_splits)
  next
    case False
    then have len: "length (after_component p) < length p"
      by (simp add: after_component_shorter)
    have cost: "room (fheap s) 592" if "room (fheap s) (j + walk_cost p)" for j
      using that False by (intro room_mono [OF that]) (cases p; simp)
    from rep par show ?thesis
    proof (cases rule: find_entry [where nm = "component p"])
      case none
      with False extends_refl [OF rep] cost show ?thesis
        by (auto simp: simps lookup_ok_def)
    next
      case (absent s1 c k)
      from free_dentry_spec [OF absent(3,6,7,8)] obtain s3 where "free_dentry s1 c = Some s3" "extends A s s3" .
      with False absent(1,2,4,9) cost show ?thesis
        by (auto simp: simps lookup_ok_def walk.simps [of A d p])
    next
      case (found s1 s2 c v t k)
      have wk: "walk A d p = walk A t (after_component p)"
        using False found(5) by (simp add: walk.simps [of A d p])
      have "d_inode (dentries s2 (Obj c)) \<noteq> None"
        using found(4) by (simp add: leads_def)
      then have lp: "lookup_parent_loop s cur p = lookup_parent_loop s2 (Obj c) (after_component p)"
        using False found(1,2) by (auto simp: simps)
      have rm: "room (fheap s2) (j + walk_cost (after_component p))" if "72 \<le> j" "room (fheap s) (j + walk_cost p)" for j
        using that len by (intro found(15) room_mono [OF that(2)]) auto
      from 1(1)[rule_format, OF len extends_rep [OF found(3)] found(4)] obtain s' r where
        "lookup_parent_loop s2 (Obj c) (after_component p) = Some (s', r)" "lookup_ok A t (after_component p) s2 s' r"
        by blast
      note ih = this(2) [unfolded lookup_ok_def] and res = this(1)
      have "lookup_ok A d p s s' r"
        unfolding lookup_ok_def wk
      proof (intro conjI allI impI)
        show "extends A s s'"
          using extends_trans [OF found(3) conjunct1 [OF ih]] .
      next
        fix j
        assume j: "72 \<le> j" "room (fheap s) (j + walk_cost p)"
        show "r \<noteq> None \<or> walk A t (after_component p) = None"
          using conjunct1 [OF conjunct2 [OF ih]] j(1) rm [OF j] by simp
      next
        fix de nm
        assume "r = Some (de, nm)"
        with conjunct2 [OF conjunct2 [OF ih]] obtain wi e where "walk A t (after_component p) = Some (e, nm)" "leads s' A de wi e"
            "\<forall>j \<ge> 72. room (fheap s2) (j + walk_cost (after_component p)) \<longrightarrow> room (fheap s') j"
          by metis
        with rm show "\<exists>wi e. walk A t (after_component p) = Some (e, nm) \<and> leads s' A de wi e \<and>
            (\<forall>j \<ge> 72. room (fheap s) (j + walk_cost p) \<longrightarrow> room (fheap s') j)"
          by blast
      qed
      with res lp show ?thesis by simp
    qed
  qed
qed

section \<open>Opening files\<close>

text \<open>The file structure \<open>f\<close> is a block of its own and gives access to the inode \<open>a\<close> from offset 0.\<close>

definition opened :: "fs \<Rightarrow> table \<Rightarrow> addr \<Rightarrow> addr \<Rightarrow> bool" where
  "opened s A f a \<longleftrightarrow> in_use s A (Obj f) \<and> private_data (files s f) = Some a \<and> f_pos (files s f) = 0 \<and>
     f_count (files s f) = 1 \<and> f_op (files s f) = Some (fop_of A a)"

lemma open_file_spec:
  assumes rep: "fs_rep s A" and vi: "d_inode (dentries s (Obj c)) = Some vi" "i_fop (inodes s vi) = Some (fop_of A a)"
      "i_private (inodes s vi) = Some a" and room: "room (fheap s) 120"
  shows "\<exists>s' f. open_file s c flags md = Some (s', Some f) \<and> fs_rep s' A \<and> opened s' A f a"
  using repD(1) [OF rep]
proof (cases rule: kzalloc_frame [where n = sizeof_file and f = GFP_KERNEL])
  case none
  with room show ?thesis by (simp add: MAX_ALLOC_def)
next
  case (some h f k)
  have "rep h (rnodes s) A"
    using some(4,6) by (intro rep_heap [OF rep some(2)]) auto
  moreover have "\<not> fs_block (rnodes s) A f" "(f, k) \<in> live h"
    using fresh_block(1) [OF rep some(5,2,4)] some(4) by auto
  ultimately show ?thesis
    using some(1) vi by (auto simp: open_file_def alloc_file_def ramfs_open_def opened_def)
qed

lemma copy_name_component [simp]: "copy_name (component p) = component p"
  by (simp add: copy_name_def component_def RAMFS_MAX_NAME_def NAME_MAX_def)

lemma walk_name: "walk A d p = Some (e, nm) \<Longrightarrow> copy_name nm = nm"
proof (induction p arbitrary: d rule: length_induct)
  case (1 p)
  then show ?case
    using after_component_shorter [of p] by (subst (asm) (2) walk.simps) (auto split: if_splits option.splits)
qed

text \<open>Opening a name in the directory a directory entry leads to.\<close>

lemma open_in_spec:
  assumes rep: "fs_rep s A" and par: "leads s A de vi d" "A d = Some (ADir es)" and nm: "copy_name nm = nm"
    and room: "room (fheap s) 1200"
  shows "\<exists>s' fp. open_in s de nm flags md = Some (s', fp) \<and>
    (case child_of A d nm of
       Some t \<Rightarrow> \<exists>f. fp = Some f \<and> fs_rep s' A \<and> opened s' A f t
     | None \<Rightarrow>
         if flags AND O_CREAT = 0 then fp = None \<and> fs_rep s' A
         else \<exists>f a. fp = Some f \<and> a \<notin> dom A \<and> fs_rep s' (A(a \<mapsto> AFile [], d \<mapsto> ADir ((nm, a) # es))) \<and>
           opened s' (A(a \<mapsto> AFile [], d \<mapsto> ADir ((nm, a) # es))) f a)"
  using rep par(1)
proof (cases rule: find_entry [where nm = nm])
  case none
  with room_mono [OF room, of 592] show ?thesis by simp
next
  case (found s1 s2 c v t k)
  have "room (fheap s2) 120"
    using found(15) [of 120] room_mono [OF room] by simp
  moreover have "d_inode (dentries s2 (Obj c)) = Some (Obj v)" "i_fop (inodes s2 (Obj v)) = Some (fop_of A t)"
      "i_private (inodes s2 (Obj v)) = Some t"
    using found(4) by (simp_all add: leads_def)
  ultimately show ?thesis
    using open_file_spec [OF extends_rep [OF found(3)], of c "Obj v" t flags md] found(1,2,5,7,8)
    by (auto simp: open_in_def)
next
  case (absent s1 c k)
  have ch: "child_of A d nm = None"
    using absent(9) room_mono [OF room, of 592] by simp
  have pvi: "d_inode (dentries s1 de) = Some vi" "i_op (inodes s1 vi) = Some Ramfs_inode_ops" "i_private (inodes s1 vi) = Some d"
    using absent(5) by (simp_all add: leads_def)
  show ?thesis
  proof (cases "flags AND O_CREAT = 0")
    case True
    from free_dentry_spec [OF absent(3,6,7,8)] obtain s3 where "free_dentry s1 c = Some s3" "extends A s s3" .
    with True absent(1,2,4) pvi ch extends_rep show ?thesis
      by (fastforce simp: open_in_def)
  next
    case False
    have room1: "room (fheap s1) 736"
      using absent(11) [of 736] room_mono [OF room] by simp
    from extends_rep [OF absent(3)] pvi(3) par(2) show ?thesis
    proof (cases rule: make_entry_rep [where de = "Obj c" and md = "S_IFREG OR md" and fop = Ramfs_file_ops])
      case full
      with room_mono [OF room1] show ?thesis by simp
    next
      case (half s2 a)
      with room_mono [OF room1] show ?thesis by simp
    next
      case (made s2 a v)
      let ?B = "A(a \<mapsto> AFile [], d \<mapsto> ADir ((nm, a) # es))"
      have "a \<noteq> d"
        using made(2) par(2) by auto
      then have "fop_of ?B a = Ramfs_file_ops"
        by (simp add: fop_of_def)
      moreover have B: "fs_rep s2 ?B"
        using made(3) absent(10) nm by (simp add: mode_reg)
      moreover have "room (fheap s2) 120"
        using made(10) [of 120] room1 by simp
      ultimately have "\<exists>s' f. open_file s2 c flags md = Some (s', Some f) \<and> fs_rep s' ?B \<and> opened s' ?B f a"
        using made(4,5,7) by (intro open_file_spec [OF B]) auto
      with made(1,2) False absent(1,2,4) pvi ch show ?thesis
        by (auto simp: open_in_def make_entry_ops)
    qed
  qed
qed

section \<open>Properties of the VFS layer\<close>

text \<open>The root directory entry leads to the directory \<open>r\<close>.\<close>

abbreviation root_at :: "fs \<Rightarrow> table \<Rightarrow> addr \<Rightarrow> bool" where
  "root_at s A r \<equiv> leads s A Static_root Static_root r"

lemma skip_slashes_length: "length (skip_slashes p) \<le> length p"
  by (simp add: skip_slashes_def length_dropWhile_le)

lemma vfs_lookup_parent_spec:
  assumes "fs_rep s A" and "root_at s A r" and "skip_slashes path \<noteq> []"
  shows "\<exists>s' res. vfs_lookup_parent (Some Static_root) s path = Some (s', res) \<and>
    lookup_ok A r (skip_slashes path) s s' res"
  using lookup_parent_loop_spec [OF assms(1,2), of "skip_slashes path"] assms(3)
  by (simp add: vfs_lookup_parent_def)

lemma lookup_parent_found:
  assumes "fs_rep s A" and "root_at s A r" and "skip_slashes path \<noteq> []"
    and "walk A r (skip_slashes path) = Some (d, nm)" and "72 \<le> j" and "room (fheap s) (j + walk_cost path)"
  obtains s' de vi where "vfs_lookup_parent (Some Static_root) s path = Some (s', Some (de, nm))"
    and "extends A s s'" and "leads s' A de vi d" and "room (fheap s') j"
proof -
  from vfs_lookup_parent_spec [OF assms(1-3)] obtain s' res where
      res: "vfs_lookup_parent (Some Static_root) s path = Some (s', res)" and ok: "lookup_ok A r (skip_slashes path) s s' res"
    by blast
  have rm: "room (fheap s) (j + walk_cost (skip_slashes path))"
    using assms(6) skip_slashes_length [of path] by (rule_tac room_mono) auto
  note ok' = ok [unfolded lookup_ok_def]
  have "res \<noteq> None"
    using conjunct1 [OF conjunct2 [OF ok']] assms(4,5) rm by auto
  then obtain de nm' where r: "res = Some (de, nm')"
    by auto
  with conjunct2 [OF conjunct2 [OF ok']] obtain wi e where
      "walk A r (skip_slashes path) = Some (e, nm')" "leads s' A de wi e"
      "\<forall>j \<ge> 72. room (fheap s) (j + walk_cost (skip_slashes path)) \<longrightarrow> room (fheap s') j"
    by metis
  with assms(4,5) rm r res conjunct1 [OF ok'] that show ?thesis by auto
qed

lemma walk_single:
  assumes "p \<noteq> []" and "dropWhile (\<lambda>c. c \<noteq> CHR ''/'') p = []"
  shows "walk A r p \<noteq> None"
proof -
  have "after_component p = []"
    unfolding after_component_def assms(2) by (simp add: skip_slashes_def)
  with assms(1) show ?thesis by (subst walk.simps) simp
qed

text \<open>Opening a path that is not the root, with enough memory.\<close>

lemma vfs_open_result:
  assumes "fs_rep s A" and "root_at s A r" and "skip_slashes path \<noteq> []"
    and "room (fheap s) (1200 + 592 * length path)"
  shows "case walk A r (skip_slashes path) of
      None \<Rightarrow> \<exists>s'. vfs_open (Some Static_root) s path flags md = Some (s', None) \<and> fs_rep s' A
    | Some (d, nm) \<Rightarrow> \<forall>es. A d = Some (ADir es) \<longrightarrow>
        (\<exists>s' fp. vfs_open (Some Static_root) s path flags md = Some (s', fp) \<and>
          (case child_of A d nm of
             Some t \<Rightarrow> \<exists>f. fp = Some f \<and> fs_rep s' A \<and> opened s' A f t
           | None \<Rightarrow>
               if flags AND O_CREAT = 0 then fp = None \<and> fs_rep s' A
               else \<exists>f a. fp = Some f \<and> a \<notin> dom A \<and> fs_rep s' (A(a \<mapsto> AFile [], d \<mapsto> ADir ((nm, a) # es))) \<and>
                 opened s' (A(a \<mapsto> AFile [], d \<mapsto> ADir ((nm, a) # es))) f a))"
proof (cases "walk A r (skip_slashes path)")
  case None
  from vfs_lookup_parent_spec [OF assms(1-3)] obtain s' res where
      res: "vfs_lookup_parent (Some Static_root) s path = Some (s', res)" and ok: "lookup_ok A r (skip_slashes path) s s' res"
    by blast
  have "res = None"
    using ok None by (cases res) (auto simp: lookup_ok_def)
  moreover have "dropWhile (\<lambda>c. c \<noteq> CHR ''/'') (skip_slashes path) \<noteq> []"
    using walk_single [OF assms(3)] None by blast
  moreover have "path \<noteq> ''/''"
    using assms(3) by (auto simp: skip_slashes_def)
  moreover have "fs_rep s' A"
    using ok by (auto simp: lookup_ok_def intro: extends_rep)
  ultimately show ?thesis
    using None res by (simp add: vfs_open_def Let_def)
next
  case (Some w)
  obtain d nm where w: "w = (d, nm)" by (cases w)
  have "path \<noteq> ''/''"
    using assms(3) by (auto simp: skip_slashes_def)
  moreover from lookup_parent_found [OF assms(1-3) Some [unfolded w], of 1200] assms(4) obtain s' de vi where
      "vfs_lookup_parent (Some Static_root) s path = Some (s', Some (de, nm))"
      and l: "extends A s s'" "leads s' A de vi d" "room (fheap s') 1200"
    by auto
  ultimately have "vfs_open (Some Static_root) s path flags md = open_in s' de nm flags md"
    by (simp add: vfs_open_def)
  then show ?thesis
    using open_in_spec [OF extends_rep [OF l(1)] l(2) _ walk_name l(3)] Some w by auto
qed


text \<open>Writing through an open file, on tables.\<close>

lemma vfs_write_spec:
  assumes "fs_rep s A" and "private_data (files s f) = Some a" and "f_op (files s f) = Some Ramfs_file_ops"
    and "f_pos (files s f) = pos" and "A a = Some (AFile bs)" and "0 \<le> pos" and "pos + int cnt < 2 ^ 63"
    and "caller_buf (fheap s) (rnodes s) A buf cnt"
    and "room (fheap s) (round_block (nat pos + cnt) + 72)" and "round_block (nat pos + cnt) \<le> MAX_ALLOC"
  obtains s' hole where "vfs_write s (Some f) (Some buf) cnt = Some (s', int cnt)" and "length hole = nat pos - length bs"
    and "fs_rep s' (A(a \<mapsto> AFile (overwrite bs hole (nat pos) (read_bytes (kbytes (fheap s)) buf cnt))))"
    and "files s' f = (files s f)\<lparr>f_pos := pos + int cnt\<rparr>"
proof -
  from ramfs_write_rep [OF assms(1,2,5-8)] assms(9,10) obtain s' hole where
      "ramfs_write s f buf cnt pos = Some (s', pos + int cnt, int cnt)" "length hole = nat pos - length bs" "files s' = files s"
      "fs_rep s' (A(a \<mapsto> AFile (overwrite bs hole (nat pos) (read_bytes (kbytes (fheap s)) buf cnt))))"
    by auto
  with assms(3,4) that [of "upd_file s' f (\<lambda>x. x\<lparr>f_pos := pos + int cnt\<rparr>)" hole] show ?thesis
    by (simp add: vfs_write_def)
qed

lemma overwrite_get:
  assumes "length hole = p - length bs"
  shows "take (length ws) (drop p (overwrite bs hole p ws)) = ws"
proof -
  have "length (take p (bs @ hole)) = p"
    using assms by auto
  then show ?thesis by (simp add: overwrite_def)
qed

text \<open>Writing and reading the same bytes.\<close>

lemma vfs_write_read:
  assumes "fs_rep s A" and "private_data (files s f) = Some a" and "f_op (files s f) = Some Ramfs_file_ops"
    and "f_pos (files s f) = pos" and "A a = Some (AFile bs)" and "0 \<le> pos" and "pos + int cnt < 2 ^ 63"
    and "caller_buf (fheap s) (rnodes s) A buf cnt"
    and "room (fheap s) (round_block (nat pos + cnt) + 72)" and "round_block (nat pos + cnt) \<le> MAX_ALLOC"
  shows "\<exists>s1 bs'. vfs_write s (Some f) (Some buf) cnt = Some (s1, int cnt) \<and> fs_rep s1 (A(a \<mapsto> AFile bs')) \<and>
    (\<forall>out. caller_buf (fheap s1) (rnodes s1) (A(a \<mapsto> AFile bs')) out cnt \<longrightarrow>
      (let s2 = fst (vfs_lseek s1 (Some f) pos 0);
           (s3, n) = vfs_read s2 (Some f) (Some out) cnt
       in n = int cnt \<and> read_bytes (kbytes (fheap s3)) out cnt = read_bytes (kbytes (fheap s)) buf cnt))"
proof -
  let ?ws = "read_bytes (kbytes (fheap s)) buf cnt"
  obtain s1 hole where w: "vfs_write s (Some f) (Some buf) cnt = Some (s1, int cnt)" "length hole = nat pos - length bs"
      "fs_rep s1 (A(a \<mapsto> AFile (overwrite bs hole (nat pos) ?ws)))" "files s1 f = (files s f)\<lparr>f_pos := pos + int cnt\<rparr>"
    using assms by (rule vfs_write_spec)
  let ?bs = "overwrite bs hole (nat pos) ?ws" and ?s2 = "upd_file s1 f (\<lambda>x. x\<lparr>f_pos := pos\<rparr>)"
  have get: "take cnt (drop (nat pos) ?bs) = ?ws"
    using overwrite_get [OF w(2), of ?ws] by simp
  have "let s2 = fst (vfs_lseek s1 (Some f) pos 0); (s3, n) = vfs_read s2 (Some f) (Some out) cnt
       in n = int cnt \<and> read_bytes (kbytes (fheap s3)) out cnt = ?ws"
    if buf: "caller_buf (fheap s1) (rnodes s1) (A(a \<mapsto> AFile ?bs)) out cnt" for out
  proof -
    have "ramfs_read ?s2 f out cnt pos =
        (?s2\<lparr>fheap := (fheap ?s2)\<lparr>kbytes := write_bytes (kbytes (fheap ?s2)) out ?ws\<rparr>\<rparr>, pos + int cnt, int cnt)"
      using ramfs_read_rep [of ?s2 "A(a \<mapsto> AFile ?bs)" f a ?bs pos out cnt] w(3,4) assms(2,6) buf get
      by (simp add: Let_def)
    moreover have "fst (vfs_lseek s1 (Some f) pos 0) = ?s2"
      using assms(6) by (simp add: vfs_lseek_def)
    moreover have "f_op (files ?s2 f) = Some Ramfs_file_ops" "f_pos (files ?s2 f) = pos"
      using w(4) assms(3) by simp_all
    ultimately show ?thesis
      using read_write_same [of "kbytes (fheap s1)" out ?ws] by (simp add: vfs_read_def)
  qed
  with w(1,3) show ?thesis by blast
qed

text \<open>C25. What is written to an open file is read back: after a write of \<open>cnt\<close> bytes and a seek to the offset
  where it began, a read of \<open>cnt\<close> bytes into any other buffer of the caller returns \<open>cnt\<close> and delivers the
  bytes written.\<close>

theorem vfs_write_read_back:
  assumes "fs_rep s A" and "private_data (files s f) = Some a" and "f_op (files s f) = Some Ramfs_file_ops"
    and "f_pos (files s f) = pos" and "A a = Some (AFile bs)" and "0 \<le> pos" and "pos + int cnt < 2 ^ 63"
    and "caller_buf (fheap s) (rnodes s) A buf cnt"
    and "room (fheap s) (round_block (nat pos + cnt) + 72)" and "round_block (nat pos + cnt) \<le> MAX_ALLOC"
  shows "\<exists>s1 bs'. vfs_write s (Some f) (Some buf) cnt = Some (s1, int cnt) \<and> fs_rep s1 (A(a \<mapsto> AFile bs')) \<and>
    (\<forall>out. caller_buf (fheap s1) (rnodes s1) (A(a \<mapsto> AFile bs')) out cnt \<longrightarrow>
      (let s2 = fst (vfs_lseek s1 (Some f) pos 0);
           (s3, n) = vfs_read s2 (Some f) (Some out) cnt
       in n = int cnt \<and> read_bytes (kbytes (fheap s3)) out cnt = read_bytes (kbytes (fheap s)) buf cnt))"
  using assms by (rule vfs_write_read)

lemma grow_data_vfs:
  "grow_data s a n = Some (s', ok) \<Longrightarrow> inodes s' = inodes s \<and> dentries s' = dentries s"
  by (auto simp: grow_data_def Let_def split: if_splits option.splits bind_splits)

lemma ramfs_write_vfs:
  assumes "ramfs_write s f buf cnt pos = Some (s', q, r)"
  shows "inodes s' = inodes s \<and> dentries s' = dentries s"
proof (cases "private_data (files s f)")
  case None
  with assms show ?thesis by (simp add: ramfs_write_def)
next
  case (Some a)
  with assms obtain s1 ok where g: "grow_data s a (size_plus pos cnt) = Some (s1, ok)"
    by (auto simp: ramfs_write_def split: bind_splits)
  from grow_data_vfs [OF g] Some assms g show ?thesis
    by (auto simp: ramfs_write_def Let_def split: if_splits)
qed

text \<open>Seeking relative to the end uses the size the VFS inode got when the file was looked up: a write
  never updates it. After a write that extends the file, \<open>SEEK_END\<close> therefore goes to the old end, and
  the next write overwrites what was written.\<close>

theorem vfs_seek_end_stale:
  assumes "fs_rep s A" and "private_data (files s f) = Some a" and "f_op (files s f) = Some Ramfs_file_ops"
    and "f_pos (files s f) = int (length bs)" and "A a = Some (AFile bs)" and "int (length bs) + int cnt < 2 ^ 63"
    and "caller_buf (fheap s) (rnodes s) A buf cnt"
    and "room (fheap s) (round_block (length bs + cnt) + 72)" and "round_block (length bs + cnt) \<le> MAX_ALLOC"
    and "f_dentry (files s f) = Some de" and "d_inode (dentries s de) = Some vi"
    and "i_size (inodes s vi) = int (length bs)"
  shows "\<exists>s'. vfs_write s (Some f) (Some buf) cnt = Some (s', int cnt) \<and>
    fs_rep s' (A(a \<mapsto> AFile (bs @ read_bytes (kbytes (fheap s)) buf cnt))) \<and>
    snd (vfs_lseek s' (Some f) 0 2) = int (length bs)"
proof -
  obtain s' hole where w: "vfs_write s (Some f) (Some buf) cnt = Some (s', int cnt)"
      "length hole = nat (int (length bs)) - length bs"
      "fs_rep s' (A(a \<mapsto> AFile (overwrite bs hole (nat (int (length bs))) (read_bytes (kbytes (fheap s)) buf cnt))))"
      "files s' f = (files s f)\<lparr>f_pos := int (length bs) + int cnt\<rparr>"
    using assms(1-3) assms(4) assms(5) _ assms(6,7) by (rule vfs_write_spec) (use assms(8,9) in auto)
  have "inodes s' = inodes s \<and> dentries s' = dentries s"
    using w(1) assms(3) by (auto simp: vfs_write_def dest: ramfs_write_vfs split: bind_splits)
  moreover have "length bs < 2 ^ 63"
    using assms(6) by simp
  ultimately have "snd (vfs_lseek s' (Some f) 0 2) = int (length bs)"
    using w(4) assms(10-12) by (simp add: vfs_lseek_def Let_def loff_sum_def to_loff_small)
  with w show ?thesis by (simp add: overwrite_def)
qed

text \<open>Unlinking a file removes its entry and returns its inode and its buffer to the heap, also when the
  file is open: the open file structures are not changed and still lead to the released inode.\<close>

theorem vfs_unlink_removes:
  assumes rep: "fs_rep s A" and root: "root_at s A r" and path: "skip_slashes path \<noteq> []"
    and walk: "walk A r (skip_slashes path) = Some (d, nm)" and d: "A d = Some (ADir es)" "d \<notin> snd ` set es"
    and t: "map_of es nm = Some t" "A t = Some (AFile bs)" and room: "room (fheap s) (700 + 592 * length path)"
  shows "\<exists>s'. vfs_unlink (Some Static_root) s path = Some (s', 0) \<and>
    fs_rep s' (A(d \<mapsto> ADir (filter (\<lambda>e. snd e \<noteq> t) es), t := None)) \<and>
    files s' = files s \<and> (\<forall>k. (t, k) \<notin> live (fheap s'))"
proof -
  have "72 \<le> (700 :: nat)" by simp
  from lookup_parent_found [OF rep root path walk this room] obtain s1 de vi where
      par: "vfs_lookup_parent (Some Static_root) s path = Some (s1, Some (de, nm))" "extends A s s1"
        "leads s1 A de vi d" "room (fheap s1) 700" .
  note rep1 = extends_rep [OF par(2)]
  have ch: "child_of A d nm = Some t"
    using d t by (simp add: child_of_def)
  from rep1 par(3) show ?thesis
  proof (cases rule: find_entry [where nm = nm])
    case none
    with room_mono [OF par(4)] show ?thesis by simp
  next
    case (absent s2 c k)
    with room_mono [OF par(4), of 592] ch show ?thesis by simp
  next
    case (found s2 s3 c v t' k)
    note rep3 = extends_rep [OF found(3)]
    have nodes: "rnodes s3 = rnodes s1" "files s3 = files s"
      using found(3) par(2) by (simp_all add: extends_def)
    have t': "t' = t"
      using found(5) ch by simp
    have cvi: "d_inode (dentries s3 (Obj c)) = Some (Obj v)" and pvi: "i_private (inodes s3 vi) = Some d"
        "i_op (inodes s3 vi) = Some Ramfs_inode_ops"
      using found(4,6) by (simp_all add: leads_def)
    have mode: "\<not> S_ISDIR (rmode (rnodes s3 t))" "\<not> S_ISDIR (i_mode (inodes s3 (Obj v)))"
      using rep_file(1) [OF rep3 t(2)] found(13) nodes t' by simp_all
    have td: "t \<noteq> d"
      using d t(2) by auto
    obtain N s4 where
        rm: "unlink_loop (rnodes s3) (Children_of d) t = Some N" "ramfs_free_inode (s3\<lparr>rnodes := N\<rparr>) (Some t) = Some s4"
        "fs_rep s4 (A(d \<mapsto> ADir (filter (\<lambda>e. snd e \<noteq> t) es), t := None))"
        "live (fheap s4) = {(p, k) \<in> live (fheap s3). p \<noteq> t \<and> rdata (rnodes s3 t) \<noteq> Some p}" "files s4 = files s3"
        "\<forall>x. rdata (rnodes s4 x) = rdata (rnodes s3 x)"
      by (rule remove_entry [OF rep3 d(1) t(1) td]) simp
    have ul: "ramfs_unlink s3 vi (Obj c) = Some (s4, 0)"
      using pvi(1) found(12) lookup_child_dir [OF rep3 d(1)] t(1) mode(1) rm(1,2) by (simp add: ramfs_unlink_def)
    have c: "c \<noteq> t" "rdata (rnodes s3 t) \<noteq> Some c"
      using found(11) t(2) nodes(1) by (auto simp: fs_block_def)
    then have "(c, k) \<in> live (fheap s4)"
      using rm(4) found(9) by simp
    from kfree_live [OF repD(1) [OF rm(3)] this] obtain h where
        h: "kfree (fheap s4) (Some c) = Some h" "heap_inv h" "live h = live (fheap s4) - {(c, k)}" "kbytes h = kbytes (fheap s4)" .
    have "rep h (rnodes s4) (A(d \<mapsto> ADir (filter (\<lambda>e. snd e \<noteq> t) es), t := None))"
    proof (rule rep_heap [OF rm(3) h(2)])
      fix p l
      assume p: "fs_block (rnodes s4) (A(d \<mapsto> ADir (filter (\<lambda>e. snd e \<noteq> t) es), t := None)) p" "(p, l) \<in> live (fheap s4)"
      have "fs_block (rnodes s1) A p"
        using p(1) d(1) rm(6) nodes(1) by (auto simp: fs_block_def split: if_splits)
      with found(11) p(2) show "(p, l) \<in> live h"
        by (auto simp: h(3))
    qed (simp add: h(4))
    moreover have "vfs_unlink (Some Static_root) s path = Some (s4\<lparr>fheap := h\<rparr>, 0)"
      using par(1) found(1,2,7,8) cvi mode(2) pvi(2) ul h(1) by (simp add: vfs_unlink_def vfs_remove_def free_dentry_def)
    ultimately show ?thesis
      using rm(4,5) nodes(2) h(3) by auto
  qed
qed

section \<open>Witnesses\<close>

lemma sample_root: "root_at sample_fs sample_table 40"
  by (simp add: leads_def fop_of_def sample_fs_def)

lemma sample_walk: "skip_slashes ''/notes'' = ''notes''" "walk sample_table 40 ''notes'' = Some (40, ''notes'')"
proof -
  show "skip_slashes ''/notes'' = ''notes''"
    by (simp add: skip_slashes_def)
  have "after_component ''notes'' = []" "component ''notes'' = ''notes''"
    by (simp_all add: after_component_def component_def skip_slashes_def NAME_MAX_def)
  then show "walk sample_table 40 ''notes'' = Some (40, ''notes'')"
    by (subst walk.simps) simp
qed


lemma sample_round: "round_block 4 = 4096" "round_block 7 = 4096"
  by code_simp+

lemma sample_file: "f_op (files sample_fs f) = Some Ramfs_file_ops" "f_pos (files sample_fs f) = 0"
    "f_dentry (files sample_fs f) = Some (Obj 11)" "i_size (inodes sample_fs v) = 3"
  by (simp_all add: sample_fs_def)

lemma vfs_write_read_back_witness:
  "\<exists>s1. vfs_write sample_fs (Some 5) (Some 20000) 4 = Some (s1, 4)"
proof -
  have "round_block (nat 0 + 4) = 4096"
    using sample_round(1) by simp
  then show ?thesis
    using vfs_write_read_back [OF sample_fs_rep sample_fs_fields(6) sample_file(1,2) _ _ _ sample_caller_buf, of "[1, 2, 3]" 4]
      sample_fs_room [of 4168]
    by (auto simp: sample_fs_fields MAX_ALLOC_def)
qed

lemma vfs_seek_end_stale_witness:
  "\<exists>s'. vfs_write (upd_file sample_fs 5 (\<lambda>x. x\<lparr>f_pos := 3\<rparr>)) (Some 5) (Some 20000) 4 = Some (s', 4) \<and>
     fs_rep s' (sample_table(424 \<mapsto> AFile ([1, 2, 3] @ read_bytes (kbytes sample_fs_heap) 20000 4))) \<and>
     snd (vfs_lseek s' (Some 5) 0 2) = 3"
proof -
  let ?s = "upd_file sample_fs 5 (\<lambda>x. x\<lparr>f_pos := 3\<rparr>)"
  have "fs_rep ?s sample_table"
    using sample_fs_rep by simp
  moreover have "caller_buf (fheap ?s) (rnodes ?s) sample_table 20000 4"
    using sample_caller_buf by simp
  moreover have "room (fheap ?s) (round_block (length [1, 2, 3 :: byte] + 4) + 72)"
    using sample_fs_room [of 4168] sample_round(2) by (simp add: sample_fs_fields)
  moreover have "round_block (length [1, 2, 3 :: byte] + 4) \<le> MAX_ALLOC"
    using sample_round(2) by (simp add: MAX_ALLOC_def)
  ultimately show ?thesis
    using vfs_seek_end_stale [of ?s sample_table 5 424 "[1, 2, 3]" 4 20000 "Obj 11" "Obj 11"]
    by (simp add: sample_fs_fields sample_file)
qed

lemma vfs_unlink_removes_witness:
  "\<exists>s'. vfs_unlink (Some Static_root) sample_fs ''/notes'' = Some (s', 0) \<and> files s' = files sample_fs \<and>
     private_data (files s' 5) = Some 424 \<and> (\<forall>k. (424, k) \<notin> live (fheap s'))"
  using vfs_unlink_removes [OF sample_fs_rep sample_root, of "''/notes''" 40 "''notes''" "[(''notes'', 424)]" 424 "[1, 2, 3]"]
    sample_fs_room [of 4252]
  by (auto simp: sample_walk sample_fs_fields)

end
