(* ===== verification/Vfs_Frame.thy ===== *)
theory Vfs_Frame
  imports Vfs_Spec
begin

text \<open>
  What the calls of the VFS layer keep, whatever the state of memory: the files and directories that
  exist, the root directory and the open files of other callers. The calls of \<^verbatim>\<open>Vfs_Spec\<close> are described
  there for a heap with enough room; here every outcome counts, also the ones of a heap that is full.
\<close>

section \<open>Keeping what is there\<close>

text \<open>The table \<open>A'\<close> has every file and directory of \<open>A\<close>, as a file and as a directory.\<close>

definition grows :: "table \<Rightarrow> table \<Rightarrow> bool" where
  "grows A A' \<longleftrightarrow> (\<forall>a \<in> dom A. a \<in> dom A' \<and> fop_of A' a = fop_of A a)"

text \<open>A file structure after calls that move its offset.\<close>

definition same_file :: "vfile \<Rightarrow> vfile \<Rightarrow> bool" where
  "same_file x y \<longleftrightarrow> f_count y = f_count x \<and> private_data y = private_data x \<and> f_op y = f_op x \<and>
     f_dentry y = f_dentry x \<and> (0 \<le> f_pos x \<longrightarrow> 0 \<le> f_pos y)"

definition keeps :: "fs \<Rightarrow> table \<Rightarrow> fs \<Rightarrow> table \<Rightarrow> bool" where
  "keeps s A s' A' \<longleftrightarrow> grows A A' \<and> inodes s' Static_root = inodes s Static_root \<and>
     dentries s' Static_root = dentries s Static_root \<and>
     (\<forall>g. in_use s A (Obj g) \<longrightarrow> in_use s' A' (Obj g) \<and> same_file (files s g) (files s' g))"

text \<open>An open file: a block of its own that is used once and leads to an inode of the table.\<close>

definition file_ok :: "fs \<Rightarrow> table \<Rightarrow> addr \<Rightarrow> bool" where
  "file_ok s A f \<longleftrightarrow> in_use s A (Obj f) \<and> f_count (files s f) = 1 \<and> 0 \<le> f_pos (files s f) \<and>
     (\<exists>a \<in> dom A. private_data (files s f) = Some a \<and> f_op (files s f) = Some (fop_of A a))"

lemma grows_refl [simp]: "grows A A"
  by (simp add: grows_def)

lemma same_file_refl [simp]: "same_file x x"
  by (simp add: same_file_def)

lemma keeps_refl [simp]: "keeps s A s A"
  by (simp add: keeps_def)

lemma keeps_trans: "keeps s A t B \<Longrightarrow> keeps t B u C \<Longrightarrow> keeps s A u C"
  unfolding keeps_def grows_def same_file_def by auto

lemma extends_keeps: "extends A s s' \<Longrightarrow> keeps s A s' A"
  using extends_in_use [of A s s'] unfolding keeps_def extends_def by auto

lemma keeps_root: "keeps s A s' A' \<Longrightarrow> root_at s A r \<Longrightarrow> root_at s' A' r"
  unfolding keeps_def grows_def leads_def by auto

lemma keeps_file: "keeps s A s' A' \<Longrightarrow> file_ok s A f \<Longrightarrow> file_ok s' A' f"
  unfolding keeps_def grows_def file_ok_def same_file_def by metis

lemma new_block_not_live:
  "heap_inv h' \<Longrightarrow> live h' = insert (p, k) (live h) \<Longrightarrow> (p, k) \<notin> live h \<Longrightarrow> (p, l) \<notin> live h"
  using live_functional [of h' p k l] by auto

section \<open>Opening\<close>

text \<open>Creating an inode in a directory, or in a file, where it is not linked.\<close>

lemma make_entry_keeps:
  assumes rep: "fs_rep s A" and dir: "i_private (inodes s dir) = Some d" "d \<in> dom A"
    and res: "make_entry s dir (Obj c) (S_IFREG OR md) Ramfs_file_ops = Some (s', ret)"
  obtains A' where "fs_rep s' A'" and "keeps s A s' A'" and "live (fheap s) \<subseteq> live (fheap s')"
    and "\<And>p. in_use s A (Obj p) \<Longrightarrow> \<not> fs_block (rnodes s') A' p"
    and "ret \<noteq> 0 \<or> (\<exists>v a. d_inode (dentries s' (Obj c)) = Some (Obj v) \<and> i_private (inodes s' (Obj v)) = Some a \<and>
       i_fop (inodes s' (Obj v)) = Some (fop_of A' a) \<and> a \<in> dom A')"
  using rep
proof (cases rule: alloc_inode_rep [where md = "S_IFREG OR md" and nm = "d_name (dentries s (Obj c))"])
  case none
  with res have "s' = s" "ret \<noteq> 0"
    by (auto simp: make_entry_def)
  with that [of A] rep show ?thesis by auto
next
  case (some s1 a k n)
  let ?md = "S_IFREG OR md" and ?s2 = "fst (ramfs_add_child s1 d a)"
  note blank = mode_reg [of md]
  have ad: "a \<noteq> d"
    using some(4) dir(2) by auto
  have new: "(a, l) \<notin> live (fheap s)" for l
    using new_block_not_live [OF repD(1) [OF some(2)] some(13,15)] .
  obtain A' where A': "fs_rep ?s2 A'" "dom A' = insert a (dom A)" "A' a = Some (AFile [])" "\<And>x. x \<in> dom A \<Longrightarrow> fop_of A' x = fop_of A x"
      and n2: "\<And>x. rdata (rnodes ?s2 x) = rdata (rnodes s1 x)" "fheap ?s2 = fheap s1" "inodes ?s2 = inodes s1"
        "dentries ?s2 = dentries s1" "files ?s2 = files s1"
  proof (cases "A d")
    case (Some nd)
    then show ?thesis
    proof (cases nd)
      case (AFile bs)
      have "\<not> S_ISDIR (rmode (rnodes s1 d))"
        using rep_file(1) [OF some(2), of d bs] Some AFile ad by simp
      then have "?s2 = s1"
        by (simp add: ramfs_add_child_def)
      with some(2,4) blank show ?thesis
        by (intro that [of "A(a \<mapsto> AFile [])"]) (auto simp: fop_of_def)
    next
      case (ADir es)
      let ?nm = "copy_name (d_name (dentries s (Obj c)))"
      have A1: "(A(a \<mapsto> blank ?md)) d = Some (ADir es)" "a \<in> dom (A(a \<mapsto> blank ?md))"
        using Some ADir ad by auto
      have s2: "?s2 = s1\<lparr>rnodes := link_in (rnodes s1) d a ?nm\<rparr>"
        using add_child_eq [OF rep_dir(1) [OF some(2) A1(1)] ad [symmetric]] some(5,6) by simp
      have "rdata (link_in (rnodes s1) d a ?nm x) = rdata (rnodes s1 x)" for x
        using ad by (simp add: link_in_def Let_def)
      with rep_link [OF some(2) A1 ad [symmetric] some(3), of ?nm] s2 Some ADir blank ad some(4) show ?thesis
        by (intro that [of "A(a \<mapsto> blank ?md, d \<mapsto> ADir ((?nm, a) # es))"]) (auto simp: fop_of_def)
    qed
  qed (use dir(2) in auto)
  have "rdata (rnodes ?s2 x) = (if x = a then None else rdata (rnodes s x))" for x
    by (simp add: n2(1) some(5,8))
  moreover have "rdata (rnodes s x) = (if x = a then None else rdata (rnodes s x))" if "x \<in> dom A" for x
    using that some(4) by auto
  ultimately have blk: "fs_block (rnodes ?s2) A' p \<longleftrightarrow> p = a \<or> fs_block (rnodes s) A p" for p
    unfolding fs_block_def A'(2) by auto
  have grow: "grows A A'"
    using A'(2,4) by (auto simp: grows_def)
  have nb: "\<not> fs_block (rnodes ?s2) A' p" if "in_use s A (Obj p)" for p
    using that new by (auto simp: blk)
  have me: "make_entry s dir (Obj c) ?md Ramfs_file_ops = do {
      (s2, ok) \<leftarrow> new_vfs_inode ?s2 dir (Obj c) a 0 Ramfs_file_ops; Some (s2, if ok then 0 else - ENOMEM) }"
    using some(1) dir(1) by (simp add: make_entry_def)
  from A'(1) show ?thesis
  proof (cases rule: new_vfs_inode_rep [where dir = dir and de = "Obj c" and ram = a and sz = 0 and fop = Ramfs_file_ops])
    case none
    with me res have "s' = ?s2" "ret \<noteq> 0"
      by auto
    with A'(1) grow nb n2 some(9-11,13) show ?thesis
      by (intro that [of A']) (auto simp: keeps_def)
  next
    case (some s3 v l)
    have s3: "s' = s3"
      using me res some(1) by simp
    have "\<not> fs_block (rnodes s3) A' p" if "in_use s A (Obj p)" for p
      using nb [OF that] some(3) by simp
    moreover have "fop_of A' a = Ramfs_file_ops"
      using A'(3) by (simp add: fop_of_def)
    ultimately show ?thesis
      using some(2,4,6-8) s3 grow n2 A'(2)
        \<open>inodes s1 = inodes s\<close> \<open>dentries s1 = dentries s\<close> \<open>files s1 = files s\<close> \<open>live (fheap s1) = _\<close>
      by (intro that [of A']) (auto simp: keeps_def)
  qed
qed

text \<open>What a call that opens a file promises in every state of memory.\<close>

definition opens :: "fs \<Rightarrow> table \<Rightarrow> fs \<Rightarrow> ptr \<Rightarrow> bool" where
  "opens s A s' r \<longleftrightarrow> (\<exists>A'. fs_rep s' A' \<and> keeps s A s' A' \<and>
     (\<forall>f. r = Some f \<longrightarrow> file_ok s' A' f \<and> \<not> in_use s A (Obj f)))"

lemma opens_None: "fs_rep s' A' \<Longrightarrow> keeps s A s' A' \<Longrightarrow> opens s A s' None"
  unfolding opens_def by auto

lemma opens_after: "keeps s A t B \<Longrightarrow> opens t B s' r \<Longrightarrow> opens s A s' r"
  unfolding opens_def using keeps_trans [of s A t B] by (metis keeps_def)

lemma alloc_file_opens:
  assumes rep: "fs_rep s A" and vi: "i_private (inodes s vi) = Some a" "i_fop (inodes s vi) = Some (fop_of A a)" "a \<in> dom A"
    and res: "alloc_file s de vi flags md = Some (s', r)"
  shows "opens s A s' r"
  using repD(1) [OF rep]
proof (cases rule: kzalloc_frame [where n = sizeof_file and f = GFP_KERNEL])
  case none
  with res rep show ?thesis
    by (auto simp: alloc_file_def opens_def intro: exI [of _ A])
next
  case (some h f k)
  have "(f, l) \<notin> live (fheap s)" for l
    using new_block_not_live [OF some(2,4,5)] .
  then have "\<not> in_use s A (Obj f)" "\<And>g. in_use s A (Obj g) \<Longrightarrow> g \<noteq> f"
    by auto
  moreover have "rep h (rnodes s) A"
    using some(4,6) by (intro rep_heap [OF rep some(2)]) auto
  moreover have "\<not> fs_block (rnodes s) A f"
    using fresh_block(1) [OF rep some(5,2,4)] .
  ultimately show ?thesis
    using some(1,4) vi res unfolding opens_def
    by (intro exI [of _ A]) (auto simp: alloc_file_def keeps_def file_ok_def)
qed

lemma open_file_opens:
  assumes "fs_rep s A" and "d_inode (dentries s (Obj c)) = Some vi" and "i_private (inodes s vi) = Some a"
    and "i_fop (inodes s vi) = Some (fop_of A a)" and "a \<in> dom A" and "open_file s c flags md = Some (s', r)"
  shows "opens s A s' r"
proof -
  from assms(2,6) obtain s1 r1 where al: "alloc_file s (Obj c) vi flags md = Some (s1, r1)"
    by (auto simp: open_file_def split: bind_splits)
  have op: "opens s A s1 r1"
    using alloc_file_opens [OF assms(1,3,4,5) al] .
  show ?thesis
  proof (cases r1)
    case None
    with assms(2,6) al op show ?thesis by (simp add: open_file_def)
  next
    case (Some f)
    from al Some have f: "i_private (inodes s1 vi) = private_data (files s1 f)"
      by (auto simp: alloc_file_def split: bind_splits option.splits)
    have "fst (ramfs_open s1 vi f) = s1"
      by (simp add: ramfs_open_def f)
    with assms(2,6) al Some op show ?thesis
      by (auto simp: open_file_def split: if_splits)
  qed
qed

text \<open>Releasing a block that belongs neither to the file system nor to a caller.\<close>

lemma release_keeps:
  assumes rep: "fs_rep t B" and kp: "keeps s A t B" and c: "(c, k) \<in> live (fheap t)" "\<not> fs_block (rnodes t) B c" "\<not> in_use s A (Obj c)"
  obtains h where "kfree (fheap t) (Some c) = Some h" and "fs_rep (t\<lparr>fheap := h\<rparr>) B" and "keeps s A (t\<lparr>fheap := h\<rparr>) B"
    and "live h = live (fheap t) - {(c, k)}" and "kbytes h = kbytes (fheap t)"
proof -
  from kfree_live [OF repD(1) [OF rep] c(1)] obtain h where
      h: "kfree (fheap t) (Some c) = Some h" "heap_inv h" "live h = live (fheap t) - {(c, k)}" "kbytes h = kbytes (fheap t)" .
  have "rep h (rnodes t) B"
    using c(2) by (intro rep_heap [OF rep h(2)]) (auto simp: h(3,4))
  moreover have "keeps s A (t\<lparr>fheap := h\<rparr>) B"
    using kp c(3) by (auto simp: keeps_def h(3))
  ultimately show ?thesis
    using that [of h] h by simp
qed

lemma open_in_opens:
  assumes rep: "fs_rep s A" and par: "leads s A de vi d" and res: "open_in s de nm flags md = Some (s', r)"
  shows "opens s A s' r"
  using rep par
proof (cases rule: find_entry [where nm = nm])
  case none
  with res show ?thesis by (simp add: open_in_def)
next
  case (found s1 s2 c v t k)
  have "open_file s2 c flags md = Some (s', r)"
    using res found(1,2,4,7,8) by (auto simp: open_in_def leads_def)
  moreover have "d_inode (dentries s2 (Obj c)) = Some (Obj v)" "i_private (inodes s2 (Obj v)) = Some t"
      "i_fop (inodes s2 (Obj v)) = Some (fop_of A t)" "t \<in> dom A"
    using found(4) by (simp_all add: leads_def)
  ultimately have "opens s2 A s' r"
    using open_file_opens [OF extends_rep [OF found(3)]] by blast
  with opens_after [OF extends_keeps [OF found(3)]] show ?thesis .
next
  case (absent s1 c k)
  have pvi: "d_inode (dentries s1 de) = Some vi" "i_op (inodes s1 vi) = Some Ramfs_inode_ops" "i_private (inodes s1 vi) = Some d"
      "d \<in> dom A"
    using absent(5) by (simp_all add: leads_def)
  note kp = extends_keeps [OF absent(3)] and rep1 = extends_rep [OF absent(3)]
  have c: "\<not> in_use s A (Obj c)" "\<not> fs_block (rnodes s1) A c"
    using absent(3,7,8) by (auto simp: extends_def)
  show ?thesis
  proof (cases "flags AND O_CREAT = 0")
    case True
    from release_keeps [OF rep1 kp absent(6) c(2,1)] obtain h where
        "kfree (fheap s1) (Some c) = Some h" "fs_rep (s1\<lparr>fheap := h\<rparr>) A" "keeps s A (s1\<lparr>fheap := h\<rparr>) A" .
    with True res absent(1,2,4) pvi show ?thesis
      by (auto simp: open_in_def free_dentry_def intro: opens_None)
  next
    case False
    with res absent(1,2,4) pvi obtain s3 ret where
        mk: "make_entry s1 vi (Obj c) (S_IFREG OR md) Ramfs_file_ops = Some (s3, ret)"
      and rest: "(if ret \<noteq> 0 then do { s4 \<leftarrow> free_dentry s3 c; Some (s4, None) } else open_file s3 c flags md) = Some (s', r)"
      by (auto simp: open_in_def make_entry_ops split: bind_splits)
    obtain B where B: "fs_rep s3 B" "keeps s1 A s3 B"
        "live (fheap s1) \<subseteq> live (fheap s3)" "\<And>p. in_use s1 A (Obj p) \<Longrightarrow> \<not> fs_block (rnodes s3) B p"
        "ret \<noteq> 0 \<or> (\<exists>v a. d_inode (dentries s3 (Obj c)) = Some (Obj v) \<and> i_private (inodes s3 (Obj v)) = Some a \<and>
          i_fop (inodes s3 (Obj v)) = Some (fop_of B a) \<and> a \<in> dom B)"
      by (rule make_entry_keeps [OF rep1 pvi(3,4) mk]) blast
    note kp3 = keeps_trans [OF kp B(2)]
    have c3: "(c, k) \<in> live (fheap s3)" "\<not> fs_block (rnodes s3) B c"
      using B(3,4) absent(6) c(2) by auto
    show ?thesis
    proof (cases "ret = 0")
      case True
      with B(5) obtain v a where "d_inode (dentries s3 (Obj c)) = Some (Obj v)" "i_private (inodes s3 (Obj v)) = Some a"
          "i_fop (inodes s3 (Obj v)) = Some (fop_of B a)" "a \<in> dom B"
        by blast
      then have "opens s3 B s' r"
        using rest True by (intro open_file_opens [OF B(1)]) simp_all
      with opens_after [OF kp3] show ?thesis .
    next
      case False
      from release_keeps [OF B(1) kp3 c3 c(1)] obtain h where
          "kfree (fheap s3) (Some c) = Some h" "fs_rep (s3\<lparr>fheap := h\<rparr>) B" "keeps s A (s3\<lparr>fheap := h\<rparr>) B" .
      with False rest show ?thesis
        by (auto simp: free_dentry_def intro: opens_None)
    qed
  qed
qed

text \<open>Opening any path, whether it resolves or not and whatever memory is left.\<close>

lemma vfs_open_opens:
  assumes rep: "fs_rep s A" and root: "root_at s A r0" and res: "vfs_open (Some Static_root) s path flags md = Some (s', r)"
  shows "opens s A s' r"
proof (cases "path = ''/''")
  case True
  have r0: "d_inode (dentries s Static_root) = Some Static_root" "i_private (inodes s Static_root) = Some r0"
      "i_fop (inodes s Static_root) = Some (fop_of A r0)" "r0 \<in> dom A"
    using root by (simp_all add: leads_def)
  with True res obtain s1 r1 where "alloc_file s Static_root Static_root flags md = Some (s1, r1)" "s' = s1" "r = r1"
    by (auto simp: vfs_open_def split: bind_splits)
  with alloc_file_opens [OF rep r0(2,3,4)] show ?thesis by blast
next
  case False
  show ?thesis
  proof (cases "skip_slashes path = []")
    case True
    with False res have "open_in s Static_root [] flags md = Some (s', r)"
      by (simp add: vfs_open_def vfs_lookup_parent_def component_def)
    with open_in_opens [OF rep root] show ?thesis .
  next
    case False
    from vfs_lookup_parent_spec [OF rep root False] obtain s1 par where
        lk: "vfs_lookup_parent (Some Static_root) s path = Some (s1, par)" and ok: "lookup_ok A r0 (skip_slashes path) s s1 par"
      by blast
    have ext: "extends A s s1"
      using ok by (simp add: lookup_ok_def)
    note rep1 = extends_rep [OF ext] and kp = extends_keeps [OF ext] and root1 = extends_leads [OF ext root]
    show ?thesis
    proof (cases par)
      case None
      with \<open>path \<noteq> ''/''\<close> res lk open_in_opens [OF rep1 root1] opens_after [OF kp] opens_None [OF rep1 kp] show ?thesis
        by (auto simp: vfs_open_def Let_def split: if_splits)
    next
      case (Some p)
      obtain de nm where p: "p = (de, nm)" by (cases p)
      with ok Some obtain wi e where "leads s1 A de wi e"
        by (auto simp: lookup_ok_def)
      with \<open>path \<noteq> ''/''\<close> res lk Some p open_in_opens [OF rep1] opens_after [OF kp] show ?thesis
        by (auto simp: vfs_open_def)
    qed
  qed
qed

section \<open>Using open files\<close>

lemma file_okE:
  assumes "fs_rep s A" and "file_ok s A f"
  obtains (reg) a bs where "private_data (files s f) = Some a" and "A a = Some (AFile bs)" and "f_op (files s f) = Some Ramfs_file_ops"
      and "0 \<le> f_pos (files s f)"
  | (dir) a es where "private_data (files s f) = Some a" and "A a = Some (ADir es)" and "f_op (files s f) = Some Ramfs_dir_ops"
      and "0 \<le> f_pos (files s f)"
  using assms(2) unfolding file_ok_def fop_of_def by (auto split: anode.splits)

text \<open>Moving the offset of an open file.\<close>

lemma set_pos_keeps: "0 \<le> p \<Longrightarrow> keeps s A (upd_file s f (\<lambda>x. x\<lparr>f_pos := p\<rparr>)) A"
  by (auto simp: keeps_def same_file_def)

lemma set_pos_fields:
  "fheap (upd_file s f g) = fheap s" "rnodes (upd_file s f g) = rnodes s"
  by simp_all

lemma vfs_lseek_keeps:
  "vfs_lseek s (Some f) off wh = (s', r) \<Longrightarrow> fs_rep s A \<Longrightarrow> fs_rep s' A \<and> keeps s A s' A"
  by (auto simp: vfs_lseek_def Let_def set_pos_keeps split: option.splits if_splits)

lemma vfs_read_keeps:
  assumes rep: "fs_rep s A" and f: "file_ok s A f" and buf: "caller_buf (fheap s) (rnodes s) A b cnt"
    and res: "vfs_read s (Some f) (Some b) cnt = (s', r)"
  shows "fs_rep s' A \<and> keeps s A s' A \<and> live (fheap s') = live (fheap s)"
  using rep f
proof (cases rule: file_okE)
  case (dir a es)
  with res rep show ?thesis by (auto simp: vfs_read_def)
next
  case (reg a bs)
  let ?got = "take cnt (drop (nat (f_pos (files s f))) bs)"
  let ?t = "s\<lparr>fheap := (fheap s)\<lparr>kbytes := write_bytes (kbytes (fheap s)) b ?got\<rparr>\<rparr>"
  have rd: "ramfs_read s f b cnt (f_pos (files s f)) = (?t, f_pos (files s f) + int (length ?got), int (length ?got))" "fs_rep ?t A"
    using ramfs_read_rep [OF rep reg(1,2,4) buf] by (simp_all add: Let_def)
  have s': "s' = upd_file ?t f (\<lambda>x. x\<lparr>f_pos := f_pos (files s f) + int (length ?got)\<rparr>)"
    using res reg(3) rd(1) by (auto simp: vfs_read_def)
  have "keeps s A s' A"
    unfolding s' using reg(4) by (auto simp: keeps_def same_file_def live_bytes)
  with rd(2) show ?thesis
    by (simp add: s' live_bytes)
qed

lemma vfs_write_keeps:
  assumes rep: "fs_rep s A" and f: "file_ok s A f" and buf: "caller_buf (fheap s) (rnodes s) A b cnt"
    and pos: "f_pos (files s f) + int cnt < 2 ^ 63"
  obtains s' A' r where "vfs_write s (Some f) (Some b) cnt = Some (s', r)" and "fs_rep s' A'" and "keeps s A s' A'"
  using rep f
proof (cases rule: file_okE)
  case (dir a es)
  with that [of s "- EINVAL" A] rep show ?thesis by (simp add: vfs_write_def)
next
  case (reg a bs)
  let ?pos = "f_pos (files s f)"
  from ramfs_write_rep [OF rep reg(1,2,4) pos buf] consider
      (full) "ramfs_write s f b cnt ?pos = Some (s, ?pos, - ENOMEM)"
    | (some) t ws where "ramfs_write s f b cnt ?pos = Some (t, ?pos + int cnt, int cnt)" "files t = files s" "fs_rep t (A(a \<mapsto> AFile ws))"
    by blast
  then show ?thesis
  proof cases
    case full
    with that [of "upd_file s f (\<lambda>x. x\<lparr>f_pos := ?pos\<rparr>)" "- ENOMEM" A] rep reg(3,4) set_pos_keeps [of ?pos s A f] show ?thesis
      by (simp add: vfs_write_def)
  next
    case some
    let ?A = "A(a \<mapsto> AFile ws)"
    have "spare (fheap s) (rnodes s) A \<subseteq> spare (fheap t) (rnodes t) ?A"
      using ramfs_write_spare [OF rep reg(1,2,4) pos buf some(1)] .
    then have "in_use s A (Obj g) \<Longrightarrow> in_use t ?A (Obj g)" for g
      by (auto simp: spare_def)
    moreover have "grows A ?A"
      using reg(2) by (auto simp: grows_def fop_of_def)
    ultimately have "keeps s A t ?A"
      using ramfs_write_vfs [OF some(1)] some(2) by (simp add: keeps_def)
    with keeps_trans [OF this set_pos_keeps] some(1,3) reg(3,4) that [of "upd_file t f (\<lambda>x. x\<lparr>f_pos := ?pos + int cnt\<rparr>)" "int cnt" ?A]
    show ?thesis by (simp add: vfs_write_def)
  qed
qed

text \<open>Closing a file returns its structure to the heap and nothing else.\<close>

lemma vfs_close_frame:
  assumes rep: "fs_rep s A" and f: "file_ok s A f"
  obtains s' where "vfs_close s (Some f) = Some (s', 0)" and "fs_rep s' A" and "kbytes (fheap s') = kbytes (fheap s)"
    and "inodes s' = inodes s" and "dentries s' = dentries s" and "live (fheap s') = {(p, k) \<in> live (fheap s). p \<noteq> f}"
    and "rnodes s' = rnodes s" and "\<And>g. g \<noteq> f \<Longrightarrow> files s' g = files s g"
proof -
  let ?s1 = "if f_op (files s f) \<noteq> None \<and> f_dentry (files s f) \<noteq> None then fst (ramfs_release s f) else s"
  let ?s2 = "upd_file ?s1 f (\<lambda>x. x\<lparr>f_count := f_count x - 1\<rparr>)"
  from f obtain k where k: "(f, k) \<in> live (fheap s)" and nb: "\<not> fs_block (rnodes s) A f" and cnt: "f_count (files s f) = 1"
    by (auto simp: file_ok_def)
  have s2: "fheap ?s2 = fheap s" "rnodes ?s2 = rnodes s" "inodes ?s2 = inodes s" "dentries ?s2 = dentries s"
      "f_count (files ?s2 f) = 0" "\<And>g. g \<noteq> f \<Longrightarrow> files ?s2 g = files s g"
    using cnt by (simp_all add: ramfs_release_def)
  from kfree_live [OF repD(1) [OF rep] k] obtain h where h: "kfree (fheap s) (Some f) = Some h" "heap_inv h"
      "live h = live (fheap s) - {(f, k)}" "kbytes h = kbytes (fheap s)" .
  have "rep h (rnodes s) A"
    using nb by (intro rep_heap [OF rep h(2)]) (auto simp: h(3,4))
  moreover have "vfs_close s (Some f) = Some (?s2\<lparr>fheap := h\<rparr>, 0)"
    unfolding vfs_close_def Let_def option.case using s2(1,5) h(1) by simp
  moreover have "live h = {(p, k) \<in> live (fheap s). p \<noteq> f}"
    using live_remove [OF repD(1) [OF rep] k] h(3) by simp
  ultimately show ?thesis
    using s2 h(4) by (intro that [of "?s2\<lparr>fheap := h\<rparr>"]) (simp_all del: if_split)
qed

end
