(* ===== verification/Elf.thy ===== *)
theory Elf
  imports Kernel_String
begin

text \<open>
  The ELF64 loader, \<^verbatim>\<open>kernel/loader/elf.c\<close>, over byte memory: the image and the places it is loaded to
  are in one address space, so a segment that is loaded over the image changes what the loader reads
  next. Addresses in the image are 64-bit words with wrap-around. \<^const>\<open>None\<close> is a loop over the dynamic
  section that never ends, or a division by zero.
\<close>

section \<open>Data\<close>

record Elf64_Phdr =
  p_type :: u32
  p_flags :: u32
  p_offset :: u64
  p_vaddr :: u64
  p_paddr :: u64
  p_filesz :: u64
  p_memsz :: u64
  p_align :: u64

record elf_load_info =
  info_entry :: u64
  info_base :: u64
  info_size :: u64

abbreviation (input) "sizeof_Ehdr \<equiv> (64 :: nat)"
abbreviation (input) "sizeof_Phdr \<equiv> (56 :: nat)"
abbreviation (input) "PT_LOAD \<equiv> (1 :: u32)"
abbreviation (input) "PT_DYNAMIC \<equiv> (2 :: u32)"
abbreviation (input) "ET_EXEC \<equiv> (2 :: u16)"
abbreviation (input) "ET_DYN \<equiv> (3 :: u16)"
abbreviation (input) "EM_AARCH64 \<equiv> (183 :: u16)"
abbreviation (input) "R_AARCH64_RELATIVE \<equiv> (0x403 :: u64)"

text \<open>The fields of the file header the loader uses, at their offsets in \<open>Elf64_Ehdr\<close>.\<close>

definition e_ident :: "mem \<Rightarrow> addr \<Rightarrow> nat \<Rightarrow> byte" where "e_ident m d i = m (d + i)"
definition e_type :: "mem \<Rightarrow> addr \<Rightarrow> u16" where "e_type m d = read16 m (d + 16)"
definition e_machine :: "mem \<Rightarrow> addr \<Rightarrow> u16" where "e_machine m d = read16 m (d + 18)"
definition e_entry :: "mem \<Rightarrow> addr \<Rightarrow> u64" where "e_entry m d = read64 m (d + 24)"
definition e_phoff :: "mem \<Rightarrow> addr \<Rightarrow> u64" where "e_phoff m d = read64 m (d + 32)"
definition e_phentsize :: "mem \<Rightarrow> addr \<Rightarrow> u16" where "e_phentsize m d = read16 m (d + 54)"
definition e_phnum :: "mem \<Rightarrow> addr \<Rightarrow> u16" where "e_phnum m d = read16 m (d + 56)"

definition phdr_at :: "mem \<Rightarrow> addr \<Rightarrow> Elf64_Phdr" where
  "phdr_at m a = \<lparr>p_type = read32 m a, p_flags = read32 m (a + 4), p_offset = read64 m (a + 8),
     p_vaddr = read64 m (a + 16), p_paddr = read64 m (a + 24), p_filesz = read64 m (a + 32),
     p_memsz = read64 m (a + 40), p_align = read64 m (a + 48)\<rparr>"

section \<open>Operations\<close>

fun elf_memcpy_loop :: "mem \<Rightarrow> addr \<Rightarrow> addr \<Rightarrow> nat \<Rightarrow> mem" where
  "elf_memcpy_loop m d s 0 = m"
| "elf_memcpy_loop m d s (Suc n) = elf_memcpy_loop (m(d := m s)) (d + 1) (s + 1) n"

definition elf_memcpy :: "mem \<Rightarrow> addr \<Rightarrow> addr \<Rightarrow> nat \<Rightarrow> mem \<times> addr" where
  "elf_memcpy m dest src n = (elf_memcpy_loop m dest src n, dest)"

fun elf_memset_loop :: "mem \<Rightarrow> addr \<Rightarrow> byte \<Rightarrow> nat \<Rightarrow> mem" where
  "elf_memset_loop m p c 0 = m"
| "elf_memset_loop m p c (Suc n) = elf_memset_loop (m(p := c)) (p + 1) c n"

definition elf_memset :: "mem \<Rightarrow> addr \<Rightarrow> int \<Rightarrow> nat \<Rightarrow> mem \<times> addr" where
  "elf_memset m s c n = (elf_memset_loop m s (word_of_int c) n, s)"

definition elf_validate :: "mem \<Rightarrow> addr \<Rightarrow> nat \<Rightarrow> int" where
  "elf_validate m data sz =
     (if sz < sizeof_Ehdr then - 1
      else if e_ident m data 0 \<noteq> 0x7F \<or> e_ident m data 1 \<noteq> 69 \<or> e_ident m data 2 \<noteq> 76 \<or> e_ident m data 3 \<noteq> 70
      then - 2
      else if e_ident m data 4 \<noteq> 2 then - 3
      else if e_ident m data 5 \<noteq> 1 then - 4
      else if e_machine m data \<noteq> EM_AARCH64 then - 5
      else if e_type m data \<noteq> ET_EXEC \<and> e_type m data \<noteq> ET_DYN then - 6
      else 0)"

definition elf_entry :: "mem \<Rightarrow> addr \<Rightarrow> u64" where
  "elf_entry m data = e_entry m data"

text \<open>The address of program header \<open>i\<close>: pointer arithmetic on 64-bit addresses.\<close>

definition phdr_addr :: "mem \<Rightarrow> addr \<Rightarrow> nat \<Rightarrow> addr" where
  "phdr_addr m data i =
     unat (of_nat data + e_phoff m data + of_nat (i * unat (e_phentsize m data)))"

fun calc_size_loop :: "mem \<Rightarrow> addr \<Rightarrow> nat list \<Rightarrow> u64 \<Rightarrow> u64 \<Rightarrow> u64 \<times> u64" where
  "calc_size_loop m data [] min_addr max_addr = (min_addr, max_addr)"
| "calc_size_loop m data (i # is) min_addr max_addr =
     (let ph = phdr_at m (phdr_addr m data i) in
      if p_type ph \<noteq> PT_LOAD then calc_size_loop m data is min_addr max_addr
      else let min_addr = (if p_vaddr ph < min_addr then p_vaddr ph else min_addr);
               end_addr = p_vaddr ph + p_memsz ph;
               max_addr = (if end_addr > max_addr then end_addr else max_addr)
           in calc_size_loop m data is min_addr max_addr)"

definition elf_calc_size :: "mem \<Rightarrow> addr \<Rightarrow> nat \<Rightarrow> u64" where
  "elf_calc_size m data sz =
     (if elf_validate m data sz \<noteq> 0 then 0
      else case calc_size_loop m data [0..<unat (e_phnum m data)] (- 1) 0 of
        (min_addr, max_addr) \<Rightarrow> if max_addr \<le> min_addr then 0 else max_addr - min_addr)"

text \<open>The dynamic section: pairs of 8-byte tag and value up to the tag \<open>DT_NULL\<close>.\<close>

partial_function (option) dynamic_loop ::
    "mem \<Rightarrow> addr \<Rightarrow> u64 \<Rightarrow> u64 \<Rightarrow> u64 \<Rightarrow> (u64 \<times> u64 \<times> u64) option" where
  "dynamic_loop m dyn rela_addr rela_size rela_ent =
     (if read64 m dyn = 0 then Some (rela_addr, rela_size, rela_ent)
      else dynamic_loop m (dyn + 16)
        (if read64 m dyn = 7 then read64 m (dyn + 8) else rela_addr)
        (if read64 m dyn = 8 then read64 m (dyn + 8) else rela_size)
        (if read64 m dyn = 9 then read64 m (dyn + 8) else rela_ent))"

fun relocate_loop :: "mem \<Rightarrow> u64 \<Rightarrow> addr \<Rightarrow> nat list \<Rightarrow> mem" where
  "relocate_loop m load_base rela [] = m"
| "relocate_loop m load_base rela (i # is) =
     (let r = rela + 24 * i;
          offset = read64 m r;
          typ = read64 m (r + 8) AND 0xFFFFFFFF;
          addend = read64 m (r + 16)
      in relocate_loop
           (if typ = R_AARCH64_RELATIVE
            then write_bytes m (unat (load_base + offset)) (le_bytes 8 (load_base + addend)) else m)
           load_base rela is)"

definition elf_process_relocations :: "mem \<Rightarrow> u64 \<Rightarrow> addr \<Rightarrow> mem option" where
  "elf_process_relocations m load_base dynamic =
     (case dynamic_loop m dynamic 0 0 24 of
        None \<Rightarrow> None
      | Some (rela_addr, rela_size, rela_ent) \<Rightarrow>
          if rela_addr = 0 \<or> rela_size = 0 then Some m
          else if rela_ent = 0 then None
          else let num_relas = sint (ucast (rela_size div rela_ent) :: 32 word)
               in Some (relocate_loop m load_base (unat (load_base + rela_addr)) [0..<nat num_relas]))"

text \<open>One \<open>PT_LOAD\<close> segment: copy the file bytes, zero the rest.\<close>

definition load_segment :: "mem \<Rightarrow> addr \<Rightarrow> u64 \<Rightarrow> Elf64_Phdr \<Rightarrow> mem" where
  "load_segment m data dest ph =
     (let m1 = (if p_filesz ph > 0
                then fst (elf_memcpy m (unat dest) (unat (of_nat data + p_offset ph)) (unat (p_filesz ph))) else m)
      in if p_memsz ph > p_filesz ph
         then fst (elf_memset m1 (unat (dest + p_filesz ph)) 0 (unat (p_memsz ph - p_filesz ph))) else m1)"

text \<open>
  The loop over the program headers, which are read again from memory on every round. The result is
  the memory and, unless a bounds check failed, the total size and the dynamic section (0 for none).
\<close>

lemma unat_u16: "unat (x :: u16) < 65536"
  by (rule less_le_trans [OF unsigned_less]) simp

lemma below_u16: "i < unat (x :: u16) \<Longrightarrow> i < 65536"
  using unat_u16 [of x] by simp

function load_loop ::
    "mem \<Rightarrow> addr \<Rightarrow> nat \<Rightarrow> u64 \<Rightarrow> bool \<Rightarrow> nat \<Rightarrow> u64 \<Rightarrow> u64 \<Rightarrow> mem \<times> (u64 \<times> u64) option" where
  "load_loop m data sz load_base is_pie i total_size dynamic =
     (if i < unat (e_phnum m data)
      then if e_phoff m data + of_nat ((i + 1) * unat (e_phentsize m data)) > of_nat sz then (m, None)
           else let ph = phdr_at m (phdr_addr m data i) in
             if p_type ph = PT_DYNAMIC
             then load_loop m data sz load_base is_pie (i + 1) total_size (load_base + p_vaddr ph)
             else if p_type ph \<noteq> PT_LOAD
             then load_loop m data sz load_base is_pie (i + 1) total_size dynamic
             else if p_offset ph > of_nat sz \<or> p_filesz ph > of_nat sz - p_offset ph then (m, None)
             else let dest = (if is_pie then load_base + p_vaddr ph else p_vaddr ph);
                      seg_end = p_vaddr ph + p_memsz ph
                  in load_loop (load_segment m data dest ph) data sz load_base is_pie (i + 1)
                       (if seg_end > total_size then seg_end else total_size) dynamic
      else (m, Some (total_size, dynamic)))"
  by pat_completeness auto
termination
  by (relation "measure (\<lambda>(m, data, sz, load_base, is_pie, i, total_size, dynamic). 65536 - i)")
    (auto dest: below_u16)

declare load_loop.simps [simp del]

text \<open>The final dump of the code at the entry point only prints.\<close>

definition elf_load_at :: "mem \<Rightarrow> addr \<Rightarrow> nat \<Rightarrow> u64 \<Rightarrow> (mem \<times> int \<times> elf_load_info option) option" where
  "elf_load_at m data sz load_base =
     (if elf_validate m data sz \<noteq> 0 then Some (m, - 1, None)
      else let is_pie = (e_type m data = ET_DYN) in
        (case load_loop m data sz load_base is_pie 0 0 0 of
           (m1, None) \<Rightarrow> Some (m1, - 1, None)
         | (m1, Some (total_size, dynamic)) \<Rightarrow>
             (case (if is_pie \<and> dynamic \<noteq> 0 then elf_process_relocations m1 load_base (unat dynamic) else Some m1) of
                None \<Rightarrow> None
              | Some m2 \<Rightarrow>
                  Some (m2, 0, Some \<lparr>info_entry = (if is_pie then load_base + e_entry m2 data else e_entry m2 data),
                                     info_base = load_base, info_size = total_size\<rparr>))))"

section \<open>Copying and clearing\<close>

lemma elf_memcpy_loop_eq: "elf_memcpy_loop m d s n = memcpy_loop m d s n"
  by (induction n arbitrary: m d s) simp_all

lemma elf_memset_loop_eq: "elf_memset_loop m p c n = write_bytes m p (replicate n c)"
  by (induction n arbitrary: m p) (simp_all add: write_bytes_Cons)

interpretation elf_copy: block_copy elf_memcpy
  by unfold_locales
    (auto simp: elf_memcpy_def elf_memcpy_loop_eq memcpy_loop_upward disjoint_ranges_def)

section \<open>Images that are laid out sensibly\<close>

text \<open>The memory a segment of an executable takes.\<close>

definition seg_len :: "Elf64_Phdr \<Rightarrow> nat" where
  "seg_len ph = max (unat (p_filesz ph)) (unat (p_memsz ph))"

abbreviation loads :: "Elf64_Phdr \<Rightarrow> bool" where
  "loads ph \<equiv> p_type ph = PT_LOAD"

text \<open>
  An executable image of \<open>sz\<close> bytes at \<open>data\<close> with the program headers \<open>phs\<close>: the header table
  and the file bytes of the segments lie inside the image, the segments do not wrap around the
  address space, and their places in memory overlap neither the image nor each other.
\<close>

definition exec_image :: "mem \<Rightarrow> addr \<Rightarrow> nat \<Rightarrow> Elf64_Phdr list \<Rightarrow> bool" where
  "exec_image m data sz phs \<longleftrightarrow>
     elf_validate m data sz = 0 \<and> e_type m data = ET_EXEC \<and> data + sz < 2 ^ 64 \<and>
     length phs = unat (e_phnum m data) \<and> sizeof_Phdr \<le> unat (e_phentsize m data) \<and>
     unat (e_phoff m data) + length phs * unat (e_phentsize m data) \<le> sz \<and>
     (\<forall>i < length phs. phs ! i = phdr_at m (data + unat (e_phoff m data) + i * unat (e_phentsize m data))) \<and>
     (\<forall>ph \<in> set phs. loads ph \<longrightarrow>
        unat (p_offset ph) + unat (p_filesz ph) \<le> sz \<and> unat (p_vaddr ph) + seg_len ph < 2 ^ 64 \<and>
        disjoint_ranges (unat (p_vaddr ph)) (seg_len ph) data sz) \<and>
     (\<forall>i < length phs. \<forall>j < length phs. i \<noteq> j \<and> loads (phs ! i) \<and> loads (phs ! j) \<longrightarrow>
        disjoint_ranges (unat (p_vaddr (phs ! i))) (seg_len (phs ! i))
          (unat (p_vaddr (phs ! j))) (seg_len (phs ! j)))"

text \<open>What a loaded segment looks like in memory.\<close>

definition seg_contents :: "mem \<Rightarrow> addr \<Rightarrow> Elf64_Phdr \<Rightarrow> byte list" where
  "seg_contents m data ph =
     read_bytes m (data + unat (p_offset ph)) (unat (p_filesz ph)) @
     replicate (unat (p_memsz ph) - unat (p_filesz ph)) 0"

lemma length_seg_contents [simp]: "length (seg_contents m data ph) = seg_len ph"
  by (simp add: seg_contents_def seg_len_def max_def)

text \<open>Reading the image only depends on its bytes.\<close>

lemma image_cong:
  assumes same: "\<And>a. data \<le> a \<Longrightarrow> a < data + sz \<Longrightarrow> m' a = m a" and "sizeof_Ehdr \<le> sz"
  shows "e_type m' data = e_type m data" "e_phoff m' data = e_phoff m data"
    "e_phentsize m' data = e_phentsize m data" "e_phnum m' data = e_phnum m data"
    "e_entry m' data = e_entry m data"
  unfolding e_type_def e_phoff_def e_phentsize_def e_phnum_def e_entry_def
  using assms by (auto intro!: reads_cong(1) [of 2] reads_cong(3) [of 8])

lemma phdr_cong:
  assumes "\<And>i. i < sizeof_Phdr \<Longrightarrow> m' (a + i) = m (a + i)"
  shows "phdr_at m' a = phdr_at m a"
proof -
  have same: "m' (a + k + i) = m (a + k + i)" if "k + i < 56" for k i
    using assms [of "k + i"] that by (simp add: add.assoc)
  have r32: "read32 m' (a + k) = read32 m (a + k)" if "k + 4 \<le> 56" for k
    using that by (intro reads_cong(2) [of 4] same) auto
  have r64: "read64 m' (a + k) = read64 m (a + k)" if "k + 8 \<le> 56" for k
    using that by (intro reads_cong(3) [of 8] same) auto
  show ?thesis
    using r32 [of 0] by (simp add: phdr_at_def r32 r64)
qed

lemma u64_offset: "data + unat x < 2 ^ 64 \<Longrightarrow> unat (of_nat data + x :: u64) = data + unat x"
proof -
  assume a: "data + unat x < 2 ^ 64"
  then have d: "unat (of_nat data :: u64) = data"
    by (intro u64_unat_of_nat) simp
  with a show ?thesis
    by (subst u64_unat_add) simp_all
qed

text \<open>Loading one segment.\<close>

lemma load_segment_eq:
  assumes "unat (p_offset ph) + unat (p_filesz ph) \<le> sz" and "data + sz < 2 ^ 64"
    and wrap: "unat (p_vaddr ph) + seg_len ph < 2 ^ 64"
    and dj: "disjoint_ranges (unat (p_vaddr ph)) (seg_len ph) data sz"
  shows "load_segment m data (p_vaddr ph) ph = write_bytes m (unat (p_vaddr ph)) (seg_contents m data ph)"
proof -
  let ?v = "unat (p_vaddr ph)" and ?f = "unat (p_filesz ph)" and ?z = "unat (p_memsz ph)"
  let ?src = "data + unat (p_offset ph)"
  have src: "unat (of_nat data + p_offset ph) = ?src"
    using u64_offset [of data "p_offset ph"] assms(1,2) by simp
  have bss: "unat (p_vaddr ph + p_filesz ph) = ?v + ?f" if "?f < ?z"
    using wrap that by (intro u64_unat_add) (auto simp: seg_len_def)
  have dif: "unat (p_memsz ph - p_filesz ph) = ?z - ?f" if "?f < ?z"
    using that by (intro u64_unat_diff) (simp add: word_le_nat_alt)
  have "disjoint_ranges ?v ?f ?src ?f"
    using dj assms(1) by (auto simp: disjoint_ranges_def seg_len_def max_def split: if_splits)
  then have copy: "fst (elf_memcpy m ?v ?src ?f) = write_bytes m ?v (read_bytes m ?src ?f)"
    by (rule elf_copy.copy_disjoint)
  show ?thesis
  proof (cases "?f < ?z")
    case True
    with copy show ?thesis
      by (auto simp: load_segment_def Let_def src bss dif word_less_nat_alt elf_memset_def
          elf_memset_loop_eq seg_contents_def write_bytes_append)
  next
    case False
    with copy show ?thesis
      by (auto simp: load_segment_def Let_def src word_less_nat_alt seg_contents_def)
  qed
qed

section \<open>The loading loop\<close>

text \<open>The first \<open>i\<close> segments are in place and nothing else has changed.\<close>

definition loaded :: "mem \<Rightarrow> addr \<Rightarrow> Elf64_Phdr list \<Rightarrow> nat \<Rightarrow> mem \<Rightarrow> bool" where
  "loaded m data phs i m' \<longleftrightarrow>
     (\<forall>j < i. loads (phs ! j) \<longrightarrow>
        read_bytes m' (unat (p_vaddr (phs ! j))) (seg_len (phs ! j)) = seg_contents m data (phs ! j)) \<and>
     (\<forall>a. (\<forall>j < i. loads (phs ! j) \<longrightarrow>
        a < unat (p_vaddr (phs ! j)) \<or> unat (p_vaddr (phs ! j)) + seg_len (phs ! j) \<le> a) \<longrightarrow> m' a = m a)"

lemma loaded_image:
  assumes "exec_image m data sz phs" and "loaded m data phs i m'" and "i \<le> length phs"
    and a: "data \<le> a" "a < data + sz"
  shows "m' a = m a"
proof -
  have "a < unat (p_vaddr (phs ! j)) \<or> unat (p_vaddr (phs ! j)) + seg_len (phs ! j) \<le> a"
    if "j < i" "loads (phs ! j)" for j
  proof -
    have "phs ! j \<in> set phs"
      using that(1) assms(3) by simp
    then have "disjoint_ranges (unat (p_vaddr (phs ! j))) (seg_len (phs ! j)) data sz"
      using assms(1) that(2) unfolding exec_image_def by blast
    with a show ?thesis by (auto simp: disjoint_ranges_def)
  qed
  with assms(2) show ?thesis
    unfolding loaded_def by blast
qed

lemma loaded_skip:
  "loaded m data phs i m' \<Longrightarrow> \<not> loads (phs ! i) \<Longrightarrow> loaded m data phs (Suc i) m'"
  by (auto simp: loaded_def less_Suc_eq)

lemma loaded_segment:
  assumes im: "exec_image m data sz phs" and ld: "loaded m data phs i m'" and i: "i < length phs"
    and L: "loads (phs ! i)"
  shows "loaded m data phs (Suc i) (load_segment m' data (p_vaddr (phs ! i)) (phs ! i))"
proof -
  let ?ph = "phs ! i"
  let ?v = "unat (p_vaddr ?ph)"
  have "?ph \<in> set phs"
    using i by simp
  then have ph: "unat (p_offset ?ph) + unat (p_filesz ?ph) \<le> sz" "?v + seg_len ?ph < 2 ^ 64"
      "disjoint_ranges ?v (seg_len ?ph) data sz" and size: "data + sz < 2 ^ 64"
    using im L unfolding exec_image_def by blast+
  have "read_bytes m' (data + unat (p_offset ?ph)) (unat (p_filesz ?ph)) =
      read_bytes m (data + unat (p_offset ?ph)) (unat (p_filesz ?ph))"
    using ph(1) i by (intro read_bytes_cong loaded_image [OF im ld]) auto
  then have cont: "seg_contents m' data ?ph = seg_contents m data ?ph"
    by (simp add: seg_contents_def)
  have seg: "load_segment m' data (p_vaddr ?ph) ?ph = write_bytes m' ?v (seg_contents m data ?ph)"
    unfolding load_segment_eq [OF ph(1) size ph(2,3)] cont ..
  have old: "read_bytes (write_bytes m' ?v (seg_contents m data ?ph)) (unat (p_vaddr (phs ! j))) (seg_len (phs ! j))
      = seg_contents m data (phs ! j)" if "j < i" "loads (phs ! j)" for j
  proof -
    have "i \<noteq> j" "j < length phs"
      using that(1) i by auto
    then have "disjoint_ranges ?v (seg_len ?ph) (unat (p_vaddr (phs ! j))) (seg_len (phs ! j))"
      using im L that(2) i unfolding exec_image_def by blast
    then have "read_bytes (write_bytes m' ?v (seg_contents m data ?ph)) (unat (p_vaddr (phs ! j))) (seg_len (phs ! j))
        = read_bytes m' (unat (p_vaddr (phs ! j))) (seg_len (phs ! j))"
      by (intro read_write_disjoint) simp
    with ld that show ?thesis
      unfolding loaded_def by metis
  qed
  have new: "read_bytes (write_bytes m' ?v (seg_contents m data ?ph)) ?v (seg_len ?ph) = seg_contents m data ?ph"
    using read_write_same [of m' ?v "seg_contents m data ?ph"] by simp
  have "write_bytes m' ?v (seg_contents m data ?ph) a = m a"
    if "\<forall>j < Suc i. loads (phs ! j) \<longrightarrow> a < unat (p_vaddr (phs ! j)) \<or> unat (p_vaddr (phs ! j)) + seg_len (phs ! j) \<le> a" for a
  proof -
    have "write_bytes m' ?v (seg_contents m data ?ph) a = m' a"
      using that L by (intro write_bytes_outside) auto
    with ld that show ?thesis
      unfolding loaded_def by simp
  qed
  with old new L show ?thesis
    unfolding seg loaded_def less_Suc_eq by auto
qed

lemma table_offset:
  assumes "unat (off :: u64) + k < 2 ^ 64"
  shows "unat (off + of_nat k) = unat off + k"
proof -
  have "unat (of_nat k :: u64) = k"
    using assms by (intro u64_unat_of_nat) simp
  with assms show ?thesis
    by (subst u64_unat_add) simp_all
qed

lemma exec_image_headers:
  assumes im: "exec_image m data sz phs" and ld: "loaded m data phs i m'" and i: "i \<le> length phs"
  shows "unat (e_phnum m' data) = length phs" and "e_entry m' data = e_entry m data"
    and "i < length phs \<Longrightarrow> phdr_at m' (phdr_addr m' data i) = phs ! i"
    and "i < length phs \<Longrightarrow> \<not> e_phoff m' data + of_nat ((i + 1) * unat (e_phentsize m' data)) > of_nat sz"
proof -
  let ?off = "e_phoff m data" and ?ent = "unat (e_phentsize m data)"
  have same: "m' a = m a" if "data \<le> a" "a < data + sz" for a
    using loaded_image [OF im ld i that] .
  have sz: "sizeof_Ehdr \<le> sz" "data + sz < 2 ^ 64" and ent: "sizeof_Phdr \<le> ?ent"
    and tab: "unat ?off + length phs * ?ent \<le> sz"
    using im by (auto simp: exec_image_def elf_validate_def split: if_splits)
  have im': "e_phoff m' data = ?off" "e_phentsize m' data = e_phentsize m data" "e_phnum m' data = e_phnum m data"
      "e_entry m' data = e_entry m data"
    by (rule image_cong [of data sz m' m, OF _ sz(1)]; simp add: same)+
  show "unat (e_phnum m' data) = length phs" and "e_entry m' data = e_entry m data"
    using im by (simp_all add: im' exec_image_def)
  assume i': "i < length phs"
  then have "Suc i * ?ent \<le> length phs * ?ent"
    by (intro mult_le_mono1) simp
  with tab have fit: "unat ?off + Suc i * ?ent \<le> sz"
    by linarith
  have "unat (?off + of_nat (i * ?ent)) = unat ?off + i * ?ent"
    using fit sz(2) by (intro table_offset) simp
  then have addr: "phdr_addr m' data i = data + unat ?off + i * ?ent"
    unfolding phdr_addr_def im' add.assoc using fit sz(2) by (subst u64_offset) simp_all
  have "phdr_at m' (data + unat ?off + i * ?ent) = phdr_at m (data + unat ?off + i * ?ent)"
    using fit ent by (intro phdr_cong same) auto
  then show "phdr_at m' (phdr_addr m' data i) = phs ! i"
    using im i' unfolding addr exec_image_def by simp
  have "unat (?off + of_nat (Suc i * ?ent)) = unat ?off + Suc i * ?ent"
    using fit sz(2) by (intro table_offset) linarith
  moreover have "unat (of_nat sz :: u64) = sz"
    using sz(2) by (intro u64_unat_of_nat) simp
  ultimately show "\<not> e_phoff m' data + of_nat ((i + 1) * unat (e_phentsize m' data)) > of_nat sz"
    using fit unfolding im' word_less_nat_alt Suc_eq_plus1 [symmetric] by linarith
qed

lemma load_loop_exec:
  assumes im: "exec_image m data sz phs" and "loaded m data phs i m'" and "i \<le> length phs"
  shows "\<exists>m'' t d. load_loop m' data sz load_base False i total_size dynamic = (m'', Some (t, d)) \<and>
    loaded m data phs (length phs) m''"
  using assms(2,3)
proof (induction "length phs - i" arbitrary: i m' total_size dynamic)
  case 0
  then show ?case
    using exec_image_headers(1) [OF im 0(2,3)] by (subst load_loop.simps) auto
next
  case (Suc n)
  then have i: "i < length phs"
    by simp
  note h = exec_image_headers [OF im Suc.prems]
  let ?ph = "phs ! i"
  let ?m = "if loads ?ph then load_segment m' data (p_vaddr ?ph) ?ph else m'"
  have "loads ?ph \<Longrightarrow> unat (p_offset ?ph) + unat (p_filesz ?ph) \<le> sz" "data + sz < 2 ^ 64"
    using im i nth_mem [OF i] unfolding exec_image_def by blast+
  then have bounds: "loads ?ph \<Longrightarrow> \<not> (p_offset ?ph > of_nat sz \<or> p_filesz ?ph > of_nat sz - p_offset ?ph)"
    by (auto simp: word_less_nat_alt u64_unat_of_nat u64_unat_diff word_le_nat_alt)
  have "\<exists>t d. load_loop m' data sz load_base False i total_size dynamic =
      load_loop ?m data sz load_base False (Suc i) t d"
    using load_loop.simps [of m' data sz load_base False i total_size dynamic] i h(1) h(3,4) [OF i] bounds
    by (cases "p_type ?ph = PT_DYNAMIC"; cases "loads ?ph") (auto simp: Let_def)
  then obtain t d where "load_loop m' data sz load_base False i total_size dynamic =
      load_loop ?m data sz load_base False (Suc i) t d" by blast
  moreover have "loaded m data phs (Suc i) ?m"
    using loaded_segment [OF im Suc.prems(1) i] loaded_skip [OF Suc.prems(1)] by simp
  ultimately show ?case
    using Suc.hyps i by simp
qed

section \<open>Properties of the loader\<close>

lemma elf_load_image:
  assumes im: "exec_image m data sz phs"
  shows "\<exists>m' info. elf_load_at m data sz load_base = Some (m', 0, Some info) \<and>
    info_entry info = e_entry m data \<and>
    (\<forall>ph \<in> set phs. loads ph \<longrightarrow> read_bytes m' (unat (p_vaddr ph)) (seg_len ph) = seg_contents m data ph) \<and>
    (\<forall>a. (\<forall>ph \<in> set phs. loads ph \<longrightarrow> a < unat (p_vaddr ph) \<or> unat (p_vaddr ph) + seg_len ph \<le> a) \<longrightarrow> m' a = m a)"
proof -
  have "loaded m data phs 0 m"
    by (simp add: loaded_def)
  from load_loop_exec [OF im this] obtain m' t d where
      loop: "load_loop m data sz load_base False 0 0 0 = (m', Some (t, d))" and ld: "loaded m data phs (length phs) m'"
    by blast
  have "e_entry m' data = e_entry m data"
    using exec_image_headers(2) [OF im ld] by simp
  moreover have "elf_validate m data sz = 0" "e_type m data = ET_EXEC"
    using im unfolding exec_image_def by blast+
  ultimately have "elf_load_at m data sz load_base =
      Some (m', 0, Some \<lparr>info_entry = e_entry m data, info_base = load_base, info_size = t\<rparr>)"
    using loop by (simp add: elf_load_at_def)
  moreover have "\<forall>ph \<in> set phs. loads ph \<longrightarrow> read_bytes m' (unat (p_vaddr ph)) (seg_len ph) = seg_contents m data ph"
    using ld by (auto simp: loaded_def in_set_conv_nth)
  moreover have "\<forall>a. (\<forall>ph \<in> set phs. loads ph \<longrightarrow> a < unat (p_vaddr ph) \<or> unat (p_vaddr ph) + seg_len ph \<le> a) \<longrightarrow> m' a = m a"
    using ld unfolding loaded_def by (metis nth_mem)
  ultimately show ?thesis by fastforce
qed


text \<open>The check that a program header lies inside the file can be passed by wrapping around: with the
  table offset \<open>2^64 - 56\<close> the loader accepts the image although it takes its only program header from the
  56 bytes in front of it.\<close>

theorem elf_header_check_wraps:
  assumes "elf_validate m data sz = 0" and "e_type m data = ET_EXEC"
    and "e_phoff m data = - 56" and "e_phentsize m data = 56" and "e_phnum m data = 1"
    and "56 \<le> data" and "data < 2 ^ 64"
    and "p_type (phdr_at m (data - 56)) \<noteq> PT_LOAD" and "p_type (phdr_at m (data - 56)) \<noteq> PT_DYNAMIC"
  shows "phdr_addr m data 0 = data - 56 \<and> (\<exists>info. elf_load_at m data sz load_base = Some (m, 0, Some info))"
proof -
  have "(of_nat data :: u64) - 56 = of_nat (data - 56)"
    using assms(6) by (simp add: of_nat_diff)
  then have addr: "phdr_addr m data 0 = data - 56"
    using assms(3,7) u64_unat_of_nat [of "data - 56"] by (simp add: phdr_addr_def)
  moreover have "load_loop m data sz load_base False 0 0 0 = (m, Some (0, 0))"
    using assms(3-5,8,9) addr load_loop.simps [of m data sz load_base False 1 0 0]
    by (subst load_loop.simps) (simp add: Let_def)
  ultimately show ?thesis
    using assms(1,2) by (simp add: elf_load_at_def)
qed

section \<open>Witnesses\<close>

text \<open>
  An image of 124 bytes at address 1000: the file header, one program header that loads the last four
  bytes to address 5000 with four more zero bytes, and those four bytes.
\<close>

definition header_bytes :: "u64 \<Rightarrow> byte list" where
  "header_bytes phoff =
     [0x7F, 69, 76, 70, 2, 1] @ replicate 10 0 @ le_bytes 2 ET_EXEC @ le_bytes 2 EM_AARCH64 @ le_bytes 4 (0 :: u32) @
     le_bytes 8 (5000 :: u64) @ le_bytes 8 phoff @ le_bytes 8 (0 :: u64) @ le_bytes 4 (0 :: u32) @
     le_bytes 2 (64 :: u16) @ le_bytes 2 (56 :: u16) @ le_bytes 2 (1 :: u16) @ replicate 6 0"

definition image_bytes :: "byte list" where
  "image_bytes = header_bytes 64 @ le_bytes 4 PT_LOAD @ le_bytes 4 (0 :: u32) @ le_bytes 8 (120 :: u64) @
     le_bytes 8 (5000 :: u64) @ le_bytes 8 (0 :: u64) @ le_bytes 8 (4 :: u64) @ le_bytes 8 (8 :: u64) @
     le_bytes 8 (0 :: u64) @ [1, 2, 3, 4]"

definition sample_image :: mem where
  "sample_image = write_bytes (\<lambda>_. 0) 1000 image_bytes"

definition sample_phdr :: Elf64_Phdr where
  "sample_phdr = \<lparr>p_type = PT_LOAD, p_flags = 0, p_offset = 120, p_vaddr = 5000, p_paddr = 0, p_filesz = 4,
     p_memsz = 8, p_align = 0\<rparr>"

lemma sample_image_fields:
  "elf_validate sample_image 1000 124 = 0" "e_type sample_image 1000 = ET_EXEC"
  "e_phnum sample_image 1000 = 1" "e_phoff sample_image 1000 = 64" "e_phentsize sample_image 1000 = 56"
  "phdr_at sample_image 1064 = sample_phdr"
  by code_simp+

lemma sample_image_ok: "exec_image sample_image 1000 124 [sample_phdr]"
  by (simp add: exec_image_def sample_image_fields)
    (simp add: sample_phdr_def seg_len_def disjoint_ranges_def)


lemma elf_header_check_wraps_witness:
  "\<exists>info. elf_load_at (write_bytes (\<lambda>_. 0) 1000 (header_bytes (- 56))) 1000 64 0 =
     Some (write_bytes (\<lambda>_. 0) 1000 (header_bytes (- 56)), 0, Some info)"
proof -
  let ?m = "write_bytes (\<lambda>_. 0) 1000 (header_bytes (- 56))"
  have "elf_validate ?m 1000 64 = 0" "e_type ?m 1000 = ET_EXEC" "e_phoff ?m 1000 = - 56"
      "e_phentsize ?m 1000 = 56" "e_phnum ?m 1000 = 1" "p_type (phdr_at ?m 944) = 0"
    by code_simp+
  then show ?thesis
    using elf_header_check_wraps [of ?m 1000 64 0] by simp
qed

end
