(* ===== verification/Syscall.thy ===== *)
theory Syscall
  imports Vfs_Spec Sched Elf
begin

text \<open>
  The system calls, \<^verbatim>\<open>kernel/syscall/syscall.c\<close>: the table of file descriptors, the check of
  user pointers, the handlers and the dispatcher, on top of the file system, the task scheduler and the
  ELF loader. Arguments are the 64-bit registers of the caller and results are values of the C type
  \<^verbatim>\<open>long\<close>. User programs and the kernel share one address space, so a user pointer is an address of
  the memory of the kernel heap component. \<^const>\<open>None\<close> is a call that does not return: it follows a
  \<^verbatim>\<open>NULL\<close> pointer, reads a string that never ends or destroys the headers of the kernel heap.
\<close>

section \<open>State\<close>

abbreviation (input) "EMFILE \<equiv> (24 :: int)"
abbreviation (input) "ENOEXEC \<equiv> (8 :: int)"
abbreviation (input) "PF_USER \<equiv> (8 :: u32)"

definition MAX_FDS :: nat where "MAX_FDS = 256"
definition NR_syscalls :: nat where "NR_syscalls = 512"
definition KERNEL_START :: u64 where "KERNEL_START = 0x40000000"
definition KERNEL_END :: u64 where "KERNEL_END = 0x50000000"
definition USER_HEAP_START :: u64 where "USER_HEAP_START = 0x10000000"
definition USER_HEAP_SIZE :: u64 where "USER_HEAP_SIZE = 0x04000000"
definition USER_CODE_BASE :: u64 where "USER_CODE_BASE = 0x400000"

record fd_entry =
  fd_file :: ptr
  fd_flags :: int
  fd_in_use :: bool

text \<open>The handlers that the entries of the system call table point to; \<open>Null_fn\<close> is a \<^verbatim>\<open>NULL\<close> entry.\<close>

datatype syscall_fn =
  Sys_read | Sys_write | Sys_openat | Sys_close | Sys_lseek | Sys_exit | Sys_exit_group | Sys_getpid | Sys_getppid |
  Sys_getuid | Sys_getgid | Sys_gettid | Sys_brk | Sys_mmap | Sys_munmap | Sys_clone | Sys_execve | Sys_uname |
  Sys_sched_yield | Sys_nanosleep | Sys_not_implemented | Null_fn

text \<open>\<open>console\<close> is what was given to \<open>uart_putc\<close>, \<open>sys_root\<close> the global \<open>root_dentry\<close> of the VFS layer.\<close>

record kernel =
  fd_table :: "nat \<Rightarrow> fd_entry"
  fd_table_initialized :: bool
  user_brk_current :: u64
  user_mmap_current :: u64
  syscall_table :: "nat \<Rightarrow> syscall_fn"
  kfs :: fs
  sys_root :: obj_ptr
  ktasks :: sched
  console :: "byte list"

abbreviation kmem :: "kernel \<Rightarrow> mem" where
  "kmem k \<equiv> kbytes (fheap (kfs k))"

abbreviation set_kmem :: "kernel \<Rightarrow> mem \<Rightarrow> kernel" where
  "set_kmem k m \<equiv> k\<lparr>kfs := (kfs k)\<lparr>fheap := (fheap (kfs k))\<lparr>kbytes := m\<rparr>\<rparr>\<rparr>"

text \<open>The conversions of C: a register as \<^verbatim>\<open>int\<close>, as \<^verbatim>\<open>long\<close> and as a pointer.\<close>

definition as_int :: "u64 \<Rightarrow> int" where
  "as_int x = sint (ucast x :: u32)"

definition as_long :: "u64 \<Rightarrow> int" where
  "as_long x = sint x"

definition as_ptr :: "u64 \<Rightarrow> ptr" where
  "as_ptr x = (if x = 0 then None else Some (unat x))"

text \<open>The path a user pointer stands for.\<close>

definition path_at :: "mem \<Rightarrow> u64 \<Rightarrow> string option" where
  "path_at m p =
     (if p = 0 then None
      else map_option (\<lambda>n. map (\<lambda>b. char_of (unat b)) (read_bytes m (unat p) n)) (strlen m (unat p)))"

section \<open>File descriptors\<close>

definition set_fd :: "kernel \<Rightarrow> nat \<Rightarrow> (fd_entry \<Rightarrow> fd_entry) \<Rightarrow> kernel" where
  "set_fd k i g = k\<lparr>fd_table := (fd_table k)(i := g (fd_table k i))\<rparr>"

definition free_entry :: fd_entry where
  "free_entry = \<lparr>fd_file = None, fd_flags = 0, fd_in_use = False\<rparr>"

definition init_fd_table :: "kernel \<Rightarrow> kernel" where
  "init_fd_table k =
     (if fd_table_initialized k then k
      else k\<lparr>fd_table := (\<lambda>i. if i < MAX_FDS then free_entry\<lparr>fd_in_use := i < 3\<rparr> else fd_table k i),
             fd_table_initialized := True\<rparr>)"

definition alloc_fd :: "kernel \<Rightarrow> kernel \<times> int" where
  "alloc_fd k =
     (let k = init_fd_table k
      in case find (\<lambda>i. \<not> fd_in_use (fd_table k i)) [3..<MAX_FDS] of
           Some i \<Rightarrow> (set_fd k i (\<lambda>e. e\<lparr>fd_in_use := True\<rparr>), int i)
         | None \<Rightarrow> (k, - 1))"

definition free_fd :: "kernel \<Rightarrow> int \<Rightarrow> kernel" where
  "free_fd k fd = (if 0 \<le> fd \<and> fd < int MAX_FDS then set_fd k (nat fd) (\<lambda>e. free_entry) else k)"

definition get_file :: "kernel \<Rightarrow> int \<Rightarrow> ptr" where
  "get_file k fd =
     (if fd < 0 \<or> fd \<ge> int MAX_FDS \<or> \<not> fd_in_use (fd_table k (nat fd)) then None
      else fd_file (fd_table k (nat fd)))"

section \<open>User pointers\<close>

definition is_valid_user_ptr :: "u64 \<Rightarrow> u64 \<Rightarrow> bool" where
  "is_valid_user_ptr p len =
     (if p = 0 then False
      else if len > 0 \<and> p > - 1 - len then False
      else let limit = p + len
           in if p \<ge> 0x10000000 \<and> limit \<le> 0x14000000 then True
              else if p \<ge> 0x44000000 \<and> limit < 0x50000000 then True
              else if p \<ge> KERNEL_START \<and> p < KERNEL_END then False
              else True)"

section \<open>Files\<close>

definition sys_read :: "kernel \<Rightarrow> u64 \<Rightarrow> u64 \<Rightarrow> u64 \<Rightarrow> kernel \<times> int" where
  "sys_read k fd buf count =
     (let k = init_fd_table k
      in if \<not> is_valid_user_ptr buf count then (k, - EFAULT)
         else if fd = 0 then (k, 0)
         else (case get_file k (as_int fd) of
                 None \<Rightarrow> (k, - EBADF)
               | Some f \<Rightarrow> let (s, r) = vfs_read (kfs k) (Some f) (as_ptr buf) (unat count) in (k\<lparr>kfs := s\<rparr>, r)))"

definition sys_write :: "kernel \<Rightarrow> u64 \<Rightarrow> u64 \<Rightarrow> u64 \<Rightarrow> (kernel \<times> int) option" where
  "sys_write k fd buf count =
     (let k = init_fd_table k
      in if fd = 1 \<or> fd = 2
         then Some (k\<lparr>console := console k @ map (\<lambda>i. kmem k (unat buf + i)) [0..<unat count]\<rparr>, as_long count)
         else (case get_file k (as_int fd) of
                 None \<Rightarrow> Some (k, - EBADF)
               | Some f \<Rightarrow> do {
                   (s, r) \<leftarrow> vfs_write (kfs k) (Some f) (as_ptr buf) (unat count);
                   Some (k\<lparr>kfs := s\<rparr>, r)
                 }))"

definition sys_openat :: "kernel \<Rightarrow> u64 \<Rightarrow> u64 \<Rightarrow> u64 \<Rightarrow> u64 \<Rightarrow> (kernel \<times> int) option" where
  "sys_openat k dirfd pathname flags mode =
     (let k = init_fd_table k;
          (k, fd) = alloc_fd k
      in if fd < 0 then Some (k, - EMFILE)
         else do {
           path \<leftarrow> path_at (kmem k) pathname;
           (s, r) \<leftarrow> vfs_open (sys_root k) (kfs k) path (as_int flags) (ucast mode);
           let k = k\<lparr>kfs := s\<rparr>;
           case r of
             None \<Rightarrow> Some (free_fd k fd, - ENOENT)
           | Some f \<Rightarrow> Some (set_fd k (nat fd) (\<lambda>e. e\<lparr>fd_file := Some f, fd_flags := as_int flags\<rparr>), fd)
         })"

definition sys_close :: "kernel \<Rightarrow> u64 \<Rightarrow> (kernel \<times> int) option" where
  "sys_close k fd =
     (let k = init_fd_table k
      in if fd < 3 then Some (k, 0)
         else (case get_file k (as_int fd) of
                 None \<Rightarrow> Some (k, - EBADF)
               | Some f \<Rightarrow> do {
                   (s, r) \<leftarrow> vfs_close (kfs k) (Some f);
                   Some (free_fd (k\<lparr>kfs := s\<rparr>) (as_int fd), 0)
                 }))"

definition sys_lseek :: "kernel \<Rightarrow> u64 \<Rightarrow> u64 \<Rightarrow> u64 \<Rightarrow> kernel \<times> int" where
  "sys_lseek k fd offset whence =
     (let k = init_fd_table k
      in case get_file k (as_int fd) of
           None \<Rightarrow> (k, - EBADF)
         | Some f \<Rightarrow> let (s, r) = vfs_lseek (kfs k) (Some f) (as_long offset) (as_int whence) in (k\<lparr>kfs := s\<rparr>, r))"

section \<open>Tasks\<close>

text \<open>
  The caller of \<open>sys_exit\<close> never runs again; the result is the state in which the next task runs. The
  result of \<open>sys_sched_yield\<close> reaches the caller when it is scheduled again. The current task is always
  set.
\<close>

definition sys_exit :: "kernel \<Rightarrow> u64 \<Rightarrow> (kernel \<times> int) option" where
  "sys_exit k error_code = do {
     t \<leftarrow> exit_task (ktasks k) (as_int error_code);
     Some (k\<lparr>ktasks := t\<rparr>, 0)
   }"

definition sys_exit_group :: "kernel \<Rightarrow> u64 \<Rightarrow> (kernel \<times> int) option" where
  "sys_exit_group k error_code = sys_exit k error_code"

definition current_task :: "kernel \<Rightarrow> task" where
  "current_task k = tasks (ktasks k) (get_current (ktasks k))"

definition sys_getpid :: "kernel \<Rightarrow> int" where
  "sys_getpid k = pid (current_task k)"

definition sys_getppid :: "kernel \<Rightarrow> int" where
  "sys_getppid k = (case parent (current_task k) of Some p \<Rightarrow> pid (tasks (ktasks k) p) | None \<Rightarrow> 0)"

definition sys_getuid :: "kernel \<Rightarrow> int" where
  "sys_getuid k = uint (uid (current_task k))"

definition sys_getgid :: "kernel \<Rightarrow> int" where
  "sys_getgid k = uint (gid (current_task k))"

definition sys_gettid :: "kernel \<Rightarrow> int" where
  "sys_gettid k = pid (current_task k)"

definition sys_sched_yield :: "kernel \<Rightarrow> (kernel \<times> int) option" where
  "sys_sched_yield k = do { t \<leftarrow> schedule (ktasks k); Some (k\<lparr>ktasks := t\<rparr>, 0) }"

section \<open>Memory\<close>

definition sys_brk :: "kernel \<Rightarrow> u64 \<Rightarrow> kernel \<times> int" where
  "sys_brk k brk =
     (if brk = 0 \<or> brk < USER_HEAP_START then (k, as_long (user_brk_current k))
      else if brk > USER_HEAP_START + USER_HEAP_SIZE div 2 then (k, as_long (user_brk_current k))
      else (k\<lparr>user_brk_current := brk\<rparr>, as_long brk))"

text \<open>
  Clearing the pages of a mapping writes every byte in turn. A mapping that meets the kernel heap
  destroys its headers.
\<close>

fun zero_loop :: "mem \<Rightarrow> u64 \<Rightarrow> nat \<Rightarrow> mem" where
  "zero_loop m p 0 = m"
| "zero_loop m p (Suc n) = zero_loop (m(unat p := 0)) (p + 1) n"

definition meets_heap :: "kheap \<Rightarrow> u64 \<Rightarrow> nat \<Rightarrow> bool" where
  "meets_heap h p n \<longleftrightarrow> n > 0 \<and>
     \<not> (unat p + n \<le> heap_start h \<or> heap_end h \<le> unat p \<and> unat p + n \<le> 2 ^ 64)"

definition sys_mmap :: "kernel \<Rightarrow> u64 \<Rightarrow> u64 \<Rightarrow> u64 \<Rightarrow> u64 \<Rightarrow> u64 \<Rightarrow> u64 \<Rightarrow> (kernel \<times> int) option" where
  "sys_mmap k addr len prot flags fd offset =
     (if flags AND 0x20 = 0 \<or> fd \<noteq> - 1 then Some (k, - ENOSYS)
      else let len = (len + 4096 - 1) AND NOT (4096 - 1)
           in if user_mmap_current k + len > USER_HEAP_START + USER_HEAP_SIZE then Some (k, - ENOMEM)
              else let r = user_mmap_current k;
                       k = k\<lparr>user_mmap_current := r + len\<rparr>
                   in if meets_heap (fheap (kfs k)) r (unat len) then None
                      else Some (set_kmem k (zero_loop (kmem k) r (unat len)), as_long r))"

section \<open>Program execution\<close>

text \<open>The new name of the task: at most 15 characters of the path; what is behind its terminator stays.\<close>

definition exec_name :: "mem \<Rightarrow> addr \<Rightarrow> byte list \<Rightarrow> byte list" where
  "exec_name m path old =
     (let n = takeWhile (\<lambda>c. c \<noteq> 0) (read_bytes m path (TASK_COMM_LEN - 1)) in n @ [0] @ drop (length n + 1) old)"

text \<open>The task becomes a user task with the name of the program.\<close>

definition user_task :: "mem \<Rightarrow> addr \<Rightarrow> task \<Rightarrow> task" where
  "user_task m path t = t\<lparr>tflags := (tflags t OR PF_USER) AND NOT PF_KTHREAD, comm := exec_name m path (comm t)\<rparr>"

text \<open>The program in the buffer is loaded at the base of user code; every return releases the buffer.\<close>

definition exec_buffer :: "kernel \<Rightarrow> u64 \<Rightarrow> addr \<Rightarrow> nat \<Rightarrow> (kernel \<times> int) option" where
  "exec_buffer k filename buf file_size =
     (let s = kfs k; m = kmem k
      in if elf_validate m buf file_size \<noteq> 0 \<or> elf_calc_size m buf file_size = 0
         then do { h \<leftarrow> kfree (fheap s) (Some buf); Some (k\<lparr>kfs := s\<lparr>fheap := h\<rparr>\<rparr>, - ENOEXEC) }
         else do {
           (m', ret, info) \<leftarrow> elf_load_at m buf file_size USER_CODE_BASE;
           if loads_into_heap (fheap s) m' then None
           else do {
             h \<leftarrow> kfree ((fheap s)\<lparr>kbytes := m'\<rparr>) (Some buf);
             let k = k\<lparr>kfs := s\<lparr>fheap := h\<rparr>\<rparr>;
             case (ret = 0, info) of
               (True, Some info) \<Rightarrow>
                 Some (k\<lparr>ktasks := set_task (ktasks k) (get_current (ktasks k)) (user_task m' (unat filename))\<rparr>,
                       as_long (info_entry info))
             | _ \<Rightarrow> Some (k, - ENOEXEC)
           }
         })"

text \<open>The open file is read into a buffer and closed.\<close>

definition exec_file :: "kernel \<Rightarrow> u64 \<Rightarrow> addr \<Rightarrow> (kernel \<times> int) option" where
  "exec_file k filename f =
     (let s = kfs k;
          file_size = (case Option.bind (f_dentry (files s f)) (\<lambda>d. d_inode (dentries s d)) of
                         None \<Rightarrow> 0
                       | Some vi \<Rightarrow> unat (word_of_int (i_size (inodes s vi)) :: u64))
      in if file_size = 0 \<or> file_size > 64 * 1024 * 1024
         then do { (s, _) \<leftarrow> vfs_close s (Some f); Some (k\<lparr>kfs := s\<rparr>, - ENOEXEC) }
         else do {
           (h, b) \<leftarrow> kmalloc (fheap s) file_size 0;
           let s = s\<lparr>fheap := h\<rparr>;
           case b of
             None \<Rightarrow> do { (s, _) \<leftarrow> vfs_close s (Some f); Some (k\<lparr>kfs := s\<rparr>, - ENOMEM) }
           | Some buf \<Rightarrow> do {
               let (s, bytes_read) = vfs_read s (Some f) (Some buf) file_size;
               (s, _) \<leftarrow> vfs_close s (Some f);
               if bytes_read \<noteq> int file_size
               then do { h \<leftarrow> kfree (fheap s) (Some buf); Some (k\<lparr>kfs := s\<lparr>fheap := h\<rparr>\<rparr>, - EIO) }
               else exec_buffer (k\<lparr>kfs := s\<rparr>) filename buf file_size
             }
         })"

definition sys_execve :: "kernel \<Rightarrow> u64 \<Rightarrow> (kernel \<times> int) option" where
  "sys_execve k filename = do {
     path \<leftarrow> path_at (kmem k) filename;
     (s, r) \<leftarrow> vfs_open (sys_root k) (kfs k) path 0 0;
     case r of
       None \<Rightarrow> Some (k\<lparr>kfs := s\<rparr>, - ENOENT)
     | Some f \<Rightarrow> exec_file (k\<lparr>kfs := s\<rparr>) filename f
   }"

section \<open>Other calls\<close>

text \<open>The six fields of \<^verbatim>\<open>struct utsname\<close> have 65 bytes each.\<close>

fun uts_loop :: "mem \<Rightarrow> addr \<Rightarrow> nat \<Rightarrow> byte list \<Rightarrow> mem" where
  "uts_loop m p i [] = m"
| "uts_loop m p i (c # cs) = (if i < 64 then uts_loop (m(p + i := c)) p (i + 1) cs else m)"

definition uts_field :: "mem \<Rightarrow> addr \<Rightarrow> byte list \<Rightarrow> mem" where
  "uts_field m p name = (uts_loop m p 0 name)(p + 64 := 0)"

fun uts_fields :: "mem \<Rightarrow> addr \<Rightarrow> byte list list \<Rightarrow> mem" where
  "uts_fields m p [] = m"
| "uts_fields m p (name # names) = uts_fields (uts_field m p name) (p + 65) names"

definition uts_names :: "byte list list" where
  "uts_names = map (map (\<lambda>c. of_char c)) [''GC AOS'', ''gc-aos'', ''0.1.0'', ''0.1.0-arm64'', ''aarch64'', '''']"

definition sys_uname :: "kernel \<Rightarrow> u64 \<Rightarrow> kernel \<times> int" where
  "sys_uname k buf = (set_kmem k (uts_fields (kmem k) (unat buf) uts_names), 0)"

section \<open>Dispatcher\<close>

definition syscall_init :: "kernel \<Rightarrow> kernel" where
  "syscall_init k = k\<lparr>syscall_table :=
     (\<lambda>i. if i < NR_syscalls then Sys_not_implemented else syscall_table k i)
       (63 := Sys_read, 64 := Sys_write, 56 := Sys_openat, 57 := Sys_close, 62 := Sys_lseek, 93 := Sys_exit,
        94 := Sys_exit_group, 172 := Sys_getpid, 173 := Sys_getppid, 174 := Sys_getuid, 175 := Sys_getuid,
        176 := Sys_getgid, 177 := Sys_getgid, 178 := Sys_gettid, 214 := Sys_brk, 222 := Sys_mmap, 215 := Sys_munmap,
        220 := Sys_clone, 221 := Sys_execve, 160 := Sys_uname, 124 := Sys_sched_yield, 101 := Sys_nanosleep)\<rparr>"

fun call_syscall :: "syscall_fn \<Rightarrow> kernel \<Rightarrow> (nat \<Rightarrow> u64) \<Rightarrow> (kernel \<times> int) option" where
  "call_syscall Sys_read k x = Some (sys_read k (x 0) (x 1) (x 2))"
| "call_syscall Sys_write k x = sys_write k (x 0) (x 1) (x 2)"
| "call_syscall Sys_openat k x = sys_openat k (x 0) (x 1) (x 2) (x 3)"
| "call_syscall Sys_close k x = sys_close k (x 0)"
| "call_syscall Sys_lseek k x = Some (sys_lseek k (x 0) (x 1) (x 2))"
| "call_syscall Sys_exit k x = sys_exit k (x 0)"
| "call_syscall Sys_exit_group k x = sys_exit_group k (x 0)"
| "call_syscall Sys_getpid k x = Some (k, sys_getpid k)"
| "call_syscall Sys_getppid k x = Some (k, sys_getppid k)"
| "call_syscall Sys_getuid k x = Some (k, sys_getuid k)"
| "call_syscall Sys_getgid k x = Some (k, sys_getgid k)"
| "call_syscall Sys_gettid k x = Some (k, sys_gettid k)"
| "call_syscall Sys_brk k x = Some (sys_brk k (x 0))"
| "call_syscall Sys_mmap k x = sys_mmap k (x 0) (x 1) (x 2) (x 3) (x 4) (x 5)"
| "call_syscall Sys_munmap k x = Some (k, 0)"
| "call_syscall Sys_clone k x = Some (k, - ENOSYS)"
| "call_syscall Sys_execve k x = sys_execve k (x 0)"
| "call_syscall Sys_uname k x = Some (sys_uname k (x 0))"
| "call_syscall Sys_sched_yield k x = sys_sched_yield k"
| "call_syscall Sys_nanosleep k x = Some (k, 0)"
| "call_syscall Sys_not_implemented k x = Some (k, - ENOSYS)"
| "call_syscall Null_fn k x = None"

text \<open>\<open>x\<close> is the array of the saved registers of the caller.\<close>

definition handle_syscall :: "kernel \<Rightarrow> (nat \<Rightarrow> u64) \<Rightarrow> (kernel \<times> int) option" where
  "handle_syscall k x =
     (if unat (x 8) \<ge> NR_syscalls then Some (k, - ENOSYS) else call_syscall (syscall_table k (unat (x 8))) k x)"

text \<open>The exception handler returns from a system call instruction and stops the kernel otherwise.\<close>

definition handle_sync_exception :: "u64 \<Rightarrow> string option" where
  "handle_sync_exception esr =
     (let ec = drop_bit 26 esr AND 0x3F
      in if ec = 0x15 then None
         else if ec = 0x20 \<or> ec = 0x21 then Some ''Instruction abort''
         else if ec = 0x24 \<or> ec = 0x25 then Some ''Data abort''
         else if ec = 0 then Some ''Unknown exception''
         else Some ''Unhandled exception'')"

end
