(* ===== verification/Syscall_Spec.thy ===== *)
theory Syscall_Spec
  imports Vfs_Frame Syscall
begin

text \<open>
  What the system calls keep: the table of file descriptors, the file system below it, the run queue
  and the regions of user memory, for programs whose buffers lie outside the kernel heap.
\<close>

section \<open>The table of descriptors\<close>

definition fds_ok :: "kernel \<Rightarrow> table \<Rightarrow> bool" where
  "fds_ok k A \<longleftrightarrow> (\<forall>i < 3. fd_in_use (fd_table k i) \<and> fd_file (fd_table k i) = None) \<and>
     (\<forall>i. 3 \<le> i \<and> i < MAX_FDS \<longrightarrow> (fd_in_use (fd_table k i) \<longleftrightarrow> fd_file (fd_table k i) \<noteq> None)) \<and>
     (\<forall>i < MAX_FDS. \<forall>f. fd_file (fd_table k i) = Some f \<longrightarrow> file_ok (kfs k) A f) \<and>
     (\<forall>i < MAX_FDS. \<forall>j < MAX_FDS. \<forall>f. fd_file (fd_table k i) = Some f \<and> fd_file (fd_table k j) = Some f \<longrightarrow> i = j)"

definition files_inv :: "kernel \<Rightarrow> bool" where
  "files_inv k \<longleftrightarrow> sys_root k = Some Static_root \<and> fd_table_initialized k \<and>
     (\<exists>A r. fs_rep (kfs k) A \<and> root_at (kfs k) A r \<and> fds_ok k A)"

lemma init_fd_table_idem [simp]:
  "init_fd_table (init_fd_table k) = init_fd_table k" "fd_table_initialized (init_fd_table k)"
  "fd_table_initialized k \<Longrightarrow> init_fd_table k = k"
  by (auto simp: init_fd_table_def)

lemma init_fd_table_other [simp]:
  "kfs (init_fd_table k) = kfs k" "sys_root (init_fd_table k) = sys_root k" "ktasks (init_fd_table k) = ktasks k"
  "user_brk_current (init_fd_table k) = user_brk_current k" "user_mmap_current (init_fd_table k) = user_mmap_current k"
  "syscall_table (init_fd_table k) = syscall_table k"
  "init_fd_table (k\<lparr>kfs := s\<rparr>) = (init_fd_table k)\<lparr>kfs := s\<rparr>" "init_fd_table (k\<lparr>ktasks := t\<rparr>) = (init_fd_table k)\<lparr>ktasks := t\<rparr>"
  "init_fd_table (k\<lparr>user_brk_current := b\<rparr>) = (init_fd_table k)\<lparr>user_brk_current := b\<rparr>"
  "init_fd_table (k\<lparr>user_mmap_current := b\<rparr>) = (init_fd_table k)\<lparr>user_mmap_current := b\<rparr>"
  "init_fd_table (k\<lparr>console := c\<rparr>) = (init_fd_table k)\<lparr>console := c\<rparr>"
  by (simp_all add: init_fd_table_def cong: if_cong)

lemma fds_ok_fields [simp]:
  "fds_ok (k\<lparr>ktasks := t\<rparr>) A = fds_ok k A" "fds_ok (k\<lparr>user_brk_current := b\<rparr>) A = fds_ok k A"
  "fds_ok (k\<lparr>user_mmap_current := b\<rparr>) A = fds_ok k A" "fds_ok (k\<lparr>console := c\<rparr>) A = fds_ok k A"
  by (simp_all add: fds_ok_def)

lemma files_inv_fields [simp]:
  "files_inv (k\<lparr>ktasks := t\<rparr>) = files_inv k" "files_inv (k\<lparr>user_brk_current := b\<rparr>) = files_inv k"
  "files_inv (k\<lparr>user_mmap_current := b\<rparr>) = files_inv k" "files_inv (k\<lparr>console := c\<rparr>) = files_inv k"
  by (simp_all add: files_inv_def)

lemma fds_okD:
  assumes "fds_ok k A" and "get_file k fd = Some f"
  shows "file_ok (kfs k) A f" and "3 \<le> fd" and "fd < int MAX_FDS" and "fd_file (fd_table k (nat fd)) = Some f"
proof -
  from assms(2) show fd: "fd < int MAX_FDS" and f: "fd_file (fd_table k (nat fd)) = Some f"
    by (auto simp: get_file_def split: if_splits)
  have "0 \<le> fd"
    using assms(2) by (auto simp: get_file_def split: if_splits)
  then have "nat fd < MAX_FDS"
    using fd by simp
  with f assms(1) show "file_ok (kfs k) A f"
    unfolding fds_ok_def by blast
  show "3 \<le> fd"
  proof (rule ccontr)
    assume "\<not> 3 \<le> fd"
    then have "nat fd < 3" by simp
    with assms(1) f show False by (simp add: fds_ok_def)
  qed
qed

lemma fds_ok_parts:
  assumes "fds_ok k A"
  shows "i < 3 \<Longrightarrow> fd_in_use (fd_table k i) \<and> fd_file (fd_table k i) = None"
    and "3 \<le> i \<Longrightarrow> i < MAX_FDS \<Longrightarrow> fd_in_use (fd_table k i) \<longleftrightarrow> fd_file (fd_table k i) \<noteq> None"
    and "i < MAX_FDS \<Longrightarrow> fd_file (fd_table k i) = Some f \<Longrightarrow> file_ok (kfs k) A f"
    and "i < MAX_FDS \<Longrightarrow> j < MAX_FDS \<Longrightarrow> fd_file (fd_table k i) = Some f \<Longrightarrow> fd_file (fd_table k j) = Some f \<Longrightarrow> i = j"
  using assms unfolding fds_ok_def by blast+

text \<open>Giving an entry a new value.\<close>

lemma fds_ok_upd:
  assumes ok: "fds_ok k A" and i: "3 \<le> i" "fd_in_use e \<longleftrightarrow> fd_file e \<noteq> None"
    and others: "\<And>j f. j < MAX_FDS \<Longrightarrow> j \<noteq> i \<Longrightarrow> fd_file (fd_table k j) = Some f \<Longrightarrow> file_ok s A' f \<and> fd_file e \<noteq> Some f"
    and new: "\<And>f. fd_file e = Some f \<Longrightarrow> file_ok s A' f"
  shows "fds_ok (k\<lparr>kfs := s, fd_table := (fd_table k)(i := e)\<rparr>) A'"
  unfolding fds_ok_def
proof (intro conjI allI impI)
  fix j assume "j < (3 :: nat)"
  then show "fd_in_use (fd_table (k\<lparr>kfs := s, fd_table := (fd_table k)(i := e)\<rparr>) j)"
    and "fd_file (fd_table (k\<lparr>kfs := s, fd_table := (fd_table k)(i := e)\<rparr>) j) = None"
    using i(1) fds_ok_parts(1) [OF ok, of j] by simp_all
next
  fix j assume "3 \<le> j \<and> j < MAX_FDS"
  then show "fd_in_use (fd_table (k\<lparr>kfs := s, fd_table := (fd_table k)(i := e)\<rparr>) j) \<longleftrightarrow>
      fd_file (fd_table (k\<lparr>kfs := s, fd_table := (fd_table k)(i := e)\<rparr>) j) \<noteq> None"
    using i(2) fds_ok_parts(2) [OF ok, of j] by simp
next
  fix j f assume "j < MAX_FDS" "fd_file (fd_table (k\<lparr>kfs := s, fd_table := (fd_table k)(i := e)\<rparr>) j) = Some f"
  then show "file_ok (kfs (k\<lparr>kfs := s, fd_table := (fd_table k)(i := e)\<rparr>)) A' f"
    using others [of j f] new [of f] by (cases "j = i") simp_all
next
  fix j l f
  assume "j < MAX_FDS" "l < MAX_FDS" "fd_file (fd_table (k\<lparr>kfs := s, fd_table := (fd_table k)(i := e)\<rparr>) j) = Some f \<and>
      fd_file (fd_table (k\<lparr>kfs := s, fd_table := (fd_table k)(i := e)\<rparr>) l) = Some f"
  then show "j = l"
    using others [of j f] others [of l f] fds_ok_parts(4) [OF ok, of j l f] by (auto split: if_splits)
qed

lemma fds_keeps: "fds_ok k A \<Longrightarrow> keeps (kfs k) A s A' \<Longrightarrow> fds_ok (k\<lparr>kfs := s\<rparr>) A'"
  using keeps_file [of "kfs k" A s A'] by (auto simp: fds_ok_def)

text \<open>A call that keeps the open files of the callers keeps the invariant.\<close>

lemma files_inv_keeps:
  assumes "fs_rep (kfs k) A" and "root_at (kfs k) A r" and "fds_ok k A" and "sys_root k = Some Static_root"
    and "fd_table_initialized k" and "fs_rep s A'" and "keeps (kfs k) A s A'"
  shows "files_inv (k\<lparr>kfs := s\<rparr>)"
  using assms(4-6) fds_keeps [OF assms(3,7)] keeps_root [OF assms(7,2)] unfolding files_inv_def by auto

lemma files_invE:
  assumes "files_inv k"
  obtains A r where "fs_rep (kfs k) A" and "root_at (kfs k) A r" and "fds_ok k A" and "sys_root k = Some Static_root"
    and "fd_table_initialized k"
  using assms unfolding files_inv_def by blast

section \<open>Files\<close>

text \<open>A buffer of a user program lies outside the kernel heap.\<close>

definition user_buffer :: "kernel \<Rightarrow> u64 \<Rightarrow> nat \<Rightarrow> bool" where
  "user_buffer k p n \<longleftrightarrow> unat p + n \<le> heap_start (fheap (kfs k)) \<or> heap_end (fheap (kfs k)) \<le> unat p"

lemma user_buffer_caller: "user_buffer k p n \<Longrightarrow> caller_buf (fheap (kfs k)) N A (unat p) n"
  by (auto simp: user_buffer_def caller_buf_def)

lemma sys_read_inv:
  assumes inv: "files_inv (init_fd_table k)" and buf: "user_buffer k b (unat n)" and res: "sys_read k fd b n = (k', r)"
  shows "files_inv k'"
proof (cases "is_valid_user_ptr b n \<and> fd \<noteq> 0")
  case True
  let ?k = "init_fd_table k"
  from inv obtain A r0 where k: "fs_rep (kfs ?k) A" "root_at (kfs ?k) A r0" "fds_ok ?k A" "sys_root ?k = Some Static_root"
      "fd_table_initialized ?k"
    by (rule files_invE)
  have b: "as_ptr b = Some (unat b)"
    using True by (auto simp: as_ptr_def is_valid_user_ptr_def)
  show ?thesis
  proof (cases "get_file ?k (as_int fd)")
    case None
    with True res inv show ?thesis by (simp add: sys_read_def Let_def)
  next
    case (Some f)
    obtain s r' where s: "vfs_read (kfs k) (Some f) (Some (unat b)) (unat n) = (s, r')"
      by fastforce
    have "file_ok (kfs k) A f"
      using fds_okD(1) [OF k(3) Some] by simp
    from vfs_read_keeps [OF _ this user_buffer_caller [OF buf] s] k(1) have "fs_rep s A" "keeps (kfs ?k) A s A"
      by simp_all
    with files_inv_keeps [OF k] s True res Some b show ?thesis
      by (auto simp: sys_read_def Let_def)
  qed
qed (use res inv in \<open>auto simp: sys_read_def Let_def split: if_splits\<close>)

lemma sys_lseek_inv:
  assumes inv: "files_inv (init_fd_table k)" and res: "sys_lseek k fd off wh = (k', r)"
  shows "files_inv k'"
proof (cases "get_file (init_fd_table k) (as_int fd)")
  case None
  with res inv show ?thesis by (simp add: sys_lseek_def Let_def)
next
  case (Some f)
  let ?k = "init_fd_table k"
  from inv obtain A r0 where k: "fs_rep (kfs ?k) A" "root_at (kfs ?k) A r0" "fds_ok ?k A" "sys_root ?k = Some Static_root"
      "fd_table_initialized ?k"
    by (rule files_invE)
  obtain s r' where s: "vfs_lseek (kfs k) (Some f) (as_long off) (as_int wh) = (s, r')"
    by fastforce
  with vfs_lseek_keeps [OF s] k(1) have "fs_rep s A" "keeps (kfs ?k) A s A"
    by simp_all
  with files_inv_keeps [OF k] s res Some show ?thesis
    by (auto simp: sys_lseek_def Let_def)
qed

lemma sys_write_inv:
  assumes inv: "files_inv (init_fd_table k)" and buf: "user_buffer k b (unat n)"
    and pos: "\<And>f. get_file (init_fd_table k) (as_int fd) = Some f \<Longrightarrow> f_pos (files (kfs k) f) + int (unat n) < 2 ^ 63"
  shows "\<exists>k' r. sys_write k fd b n = Some (k', r) \<and> files_inv k'"
proof (cases "fd = 1 \<or> fd = 2")
  case True
  with inv show ?thesis by (auto simp: sys_write_def Let_def)
next
  case False
  let ?k = "init_fd_table k"
  from inv obtain A r0 where k: "fs_rep (kfs ?k) A" "root_at (kfs ?k) A r0" "fds_ok ?k A" "sys_root ?k = Some Static_root"
      "fd_table_initialized ?k"
    by (rule files_invE)
  show ?thesis
  proof (cases "get_file ?k (as_int fd)")
    case None
    with False inv show ?thesis by (simp add: sys_write_def Let_def)
  next
    case (Some f)
    have f: "file_ok (kfs k) A f"
      using fds_okD(1) [OF k(3) Some] by simp
    show ?thesis
    proof (cases "b = 0")
      case True
      with files_inv_keeps [OF k k(1) keeps_refl] False Some show ?thesis
        by (simp add: sys_write_def Let_def as_ptr_def vfs_write_def)
    next
      case b: False
      have "fs_rep (kfs k) A"
        using k(1) by simp
      from vfs_write_keeps [OF this f user_buffer_caller [OF buf] pos [OF Some]] obtain s A' r where
          s: "vfs_write (kfs k) (Some f) (Some (unat b)) (unat n) = Some (s, r)" "fs_rep s A'" "keeps (kfs k) A s A'"
        by blast
      with files_inv_keeps [OF k s(2)] False b Some show ?thesis
        by (simp add: sys_write_def Let_def as_ptr_def)
    qed
  qed
qed

text \<open>Closing a descriptor.\<close>

lemma sys_close_inv:
  assumes inv: "files_inv (init_fd_table k)"
  shows "\<exists>k' r. sys_close k fd = Some (k', r) \<and> files_inv k'"
proof (cases "fd < 3 \<or> get_file (init_fd_table k) (as_int fd) = None")
  case True
  with inv show ?thesis by (auto simp: sys_close_def Let_def)
next
  case False
  let ?k = "init_fd_table k" and ?i = "nat (as_int fd)"
  from False obtain f where f: "get_file ?k (as_int fd) = Some f"
    by auto
  from inv obtain A r0 where k: "fs_rep (kfs ?k) A" "root_at (kfs ?k) A r0" "fds_ok ?k A" "sys_root ?k = Some Static_root"
      "fd_table_initialized ?k"
    by (rule files_invE)
  note fd = fds_okD [OF k(3) f]
  obtain s where s: "vfs_close (kfs ?k) (Some f) = Some (s, 0)" "fs_rep s A"
      "kbytes (fheap s) = kbytes (fheap (kfs ?k))" "inodes s = inodes (kfs ?k)" "dentries s = dentries (kfs ?k)"
      "live (fheap s) = {(p, k') \<in> live (fheap (kfs ?k)). p \<noteq> f}" "rnodes s = rnodes (kfs ?k)"
      "\<And>g. g \<noteq> f \<Longrightarrow> files s g = files (kfs ?k) g"
    by (rule vfs_close_frame [OF k(1) fd(1)]) blast
  have other: "file_ok s A g" if "file_ok (kfs ?k) A g" "g \<noteq> f" for g
    using that s(6-8) by (auto simp: file_ok_def)
  have "?i < MAX_FDS"
    using fd(2,3) by simp
  then have "fd_file (fd_table ?k i) \<noteq> Some f" if "i < MAX_FDS" "i \<noteq> ?i" for i
    using k(3) that fd(4) unfolding fds_ok_def by blast
  then have "fds_ok (?k\<lparr>kfs := s, fd_table := (fd_table ?k)(?i := free_entry)\<rparr>) A"
    using fd(2) other fds_ok_parts(3) [OF k(3)] by (intro fds_ok_upd [OF k(3)]) (auto simp: free_entry_def)
  then have "fds_ok (free_fd (?k\<lparr>kfs := s\<rparr>) (as_int fd)) A"
    using fd(2,3) by (simp add: free_fd_def set_fd_def)
  moreover have "root_at s A r0"
    using k(2) s(4,5) by (auto simp: leads_def)
  ultimately have "files_inv (free_fd (?k\<lparr>kfs := s\<rparr>) (as_int fd))"
    using k(4,5) s(2) by (auto simp: files_inv_def free_fd_def set_fd_def)
  with False f s(1) show ?thesis
    by (simp add: sys_close_def Let_def)
qed

text \<open>The lowest free descriptor.\<close>

lemma alloc_fd_cases:
  assumes "fd_table_initialized k"
  obtains (full) "alloc_fd k = (k, - 1)" and "\<And>i. 3 \<le> i \<Longrightarrow> i < MAX_FDS \<Longrightarrow> fd_in_use (fd_table k i)"
  | (some) i where "alloc_fd k = (set_fd k i (\<lambda>e. e\<lparr>fd_in_use := True\<rparr>), int i)" and "3 \<le> i" and "i < MAX_FDS"
      and "\<not> fd_in_use (fd_table k i)" and "\<And>j. 3 \<le> j \<Longrightarrow> j < i \<Longrightarrow> fd_in_use (fd_table k j)"
proof (cases "find (\<lambda>i. \<not> fd_in_use (fd_table k i)) [3..<MAX_FDS]")
  case None
  then have "fd_in_use (fd_table k i)" if "3 \<le> i" "i < MAX_FDS" for i
    using that by (auto simp: find_None_iff)
  with None assms show ?thesis
    by (intro full) (simp_all add: alloc_fd_def)
next
  case (Some i)
  then obtain n where n: "n < MAX_FDS - 3" "i = 3 + n" "\<not> fd_in_use (fd_table k i)" "\<And>j. j < n \<Longrightarrow> fd_in_use (fd_table k (3 + j))"
    by (auto simp: find_Some_iff)
  have "fd_in_use (fd_table k j)" if "3 \<le> j" "j < i" for j
    using n(4) [of "j - 3"] n(2) that by simp
  with n Some assms show ?thesis
    by (intro some [of i]) (simp_all add: alloc_fd_def)
qed

lemma fd_entry_full:
  "(e :: fd_entry)\<lparr>fd_in_use := True, fd_file := x, fd_flags := y\<rparr> = \<lparr>fd_file = x, fd_flags = y, fd_in_use = True\<rparr>"
  by simp

lemma sys_openat_inv:
  assumes inv: "files_inv (init_fd_table k)" and res: "sys_openat k d p fl md = Some (k', r)"
  shows "files_inv k'"
proof -
  let ?k = "init_fd_table k"
  from inv obtain A r0 where k: "fs_rep (kfs ?k) A" "root_at (kfs ?k) A r0" "fds_ok ?k A" "sys_root ?k = Some Static_root"
      "fd_table_initialized ?k"
    by (rule files_invE)
  from k(5) show ?thesis
  proof (cases rule: alloc_fd_cases)
    case full
    with res inv show ?thesis by (simp add: sys_openat_def)
  next
    case (some i)
    from res some(1) k(4) obtain path s f where s: "path_at (kmem k) p = Some path"
        "vfs_open (Some Static_root) (kfs ?k) path (as_int fl) (ucast md) = Some (s, f)"
        and k': "k' = (case f of None \<Rightarrow> ?k\<lparr>kfs := s, fd_table := (fd_table ?k)(i := free_entry)\<rparr>
          | Some f \<Rightarrow> ?k\<lparr>kfs := s, fd_table := (fd_table ?k)(i := \<lparr>fd_file = Some f, fd_flags = as_int fl, fd_in_use = True\<rparr>)\<rparr>)"
      using some(2,3) by (auto simp: sys_openat_def set_fd_def free_fd_def Let_def fd_entry_full split: bind_splits option.splits)
    from vfs_open_opens [OF k(1,2) s(2)] obtain A' where A': "fs_rep s A'" "keeps (kfs ?k) A s A'"
        "\<And>g. f = Some g \<Longrightarrow> file_ok s A' g \<and> \<not> in_use (kfs ?k) A (Obj g)"
      by (auto simp: opens_def)
    have old: "file_ok (kfs ?k) A g" if "j < MAX_FDS" "fd_file (fd_table ?k j) = Some g" for j g
      using fds_ok_parts(3) [OF k(3) that] .
    then have kept: "file_ok s A' g \<and> f \<noteq> Some g" if "j < MAX_FDS" "fd_file (fd_table ?k j) = Some g" for j g
      using that A'(3) [of g] keeps_file [OF A'(2), of g] by (auto simp: file_ok_def)
    have "fds_ok k' A'"
    proof (cases f)
      case None
      with kept show ?thesis
        unfolding k' by (simp, intro fds_ok_upd [OF k(3) some(2)]) (auto simp: free_entry_def)
    next
      case (Some g)
      with kept A'(3) [of g] show ?thesis
        unfolding k' by (simp, intro fds_ok_upd [OF k(3) some(2)]) auto
    qed
    moreover have "kfs k' = s" "sys_root k' = Some Static_root" "fd_table_initialized k'"
      using k(4,5) by (simp_all add: k' split: option.split)
    ultimately show ?thesis
      using A'(1) keeps_root [OF A'(2) k(2)] unfolding files_inv_def by auto
  qed
qed

section \<open>Memory outside the heap\<close>

text \<open>Writing bytes outside the heap changes nothing that the file system owns.\<close>

lemma outside_keeps:
  assumes rep: "fs_rep s A" and out: "\<not> loads_into_heap (fheap s) m"
  shows "fs_rep (s\<lparr>fheap := (fheap s)\<lparr>kbytes := m\<rparr>\<rparr>) A" and "keeps s A (s\<lparr>fheap := (fheap s)\<lparr>kbytes := m\<rparr>\<rparr>) A"
proof -
  note inv = repD(1) [OF rep]
  have "kbytes (fheap s) x = m x" if "(p, k) \<in> live (fheap s)" "p \<le> x" "x < p + k" for p k x
    using live_bounds(1,2) [OF inv that(1)] that(2,3) out by (auto simp: loads_into_heap_def)
  then have "rep ((fheap s)\<lparr>kbytes := m\<rparr>) (rnodes s) A"
    using inv by (intro rep_heap [OF rep]) (simp_all add: heap_inv_bytes live_bytes)
  then show "fs_rep (s\<lparr>fheap := (fheap s)\<lparr>kbytes := m\<rparr>\<rparr>) A"
    by simp
qed (auto simp: keeps_def live_bytes)

lemma zero_loop_eq:
  "unat p + n \<le> 2 ^ 64 \<Longrightarrow> zero_loop m p n = write_bytes m (unat p) (replicate n 0)"
proof (induction n arbitrary: m p)
  case (Suc n)
  show ?case
  proof (cases n)
    case 0
    then show ?thesis by (simp add: write_bytes_Cons)
  next
    case (Suc l)
    then have "unat (p + 1) = unat p + 1"
      using Suc.prems by (subst u64_unat_add) simp_all
    moreover have "zero_loop (m(unat p := 0)) (p + 1) n = write_bytes (m(unat p := 0)) (unat (p + 1)) (replicate n 0)"
      using Suc.prems calculation by (intro Suc.IH) simp
    ultimately show ?thesis
      by (simp only: zero_loop.simps replicate_Suc write_bytes_Cons Suc_eq_plus1 [symmetric])
  qed
qed simp

lemma write_outside:
  "p + length xs \<le> heap_start h \<or> heap_end h \<le> p \<Longrightarrow> \<not> loads_into_heap h (write_bytes (kbytes h) p xs)"
  by (auto simp: loads_into_heap_def write_bytes_def)

section \<open>Executing a program\<close>

text \<open>Closing a file that was opened on the way.\<close>

lemma close_keeps:
  assumes "fs_rep t B" and "keeps s A t B" and "file_ok t B f" and "\<not> in_use s A (Obj f)" and "vfs_close t (Some f) = Some (s', r)"
  shows "fs_rep s' B \<and> keeps s A s' B \<and> live (fheap s') = {(p, k) \<in> live (fheap t). p \<noteq> f} \<and> rnodes s' = rnodes t"
proof -
  obtain s1 where s1: "vfs_close t (Some f) = Some (s1, 0)" "fs_rep s1 B" "inodes s1 = inodes t" "dentries s1 = dentries t"
      "live (fheap s1) = {(p, k) \<in> live (fheap t). p \<noteq> f}" "rnodes s1 = rnodes t" "\<And>g. g \<noteq> f \<Longrightarrow> files s1 g = files t g"
    by (rule vfs_close_frame [OF assms(1,3)]) blast
  have "in_use s1 B (Obj g) \<and> same_file (files s g) (files s1 g)" if "in_use s A (Obj g)" for g
  proof -
    have "g \<noteq> f"
      using that assms(4) by blast
    with that assms(2) s1(5-7) show ?thesis
      by (auto simp: keeps_def)
  qed
  with assms(2) s1 assms(5) show ?thesis
    by (simp add: keeps_def)
qed

lemma kmalloc_keeps:
  assumes rep: "fs_rep s A" and res: "kmalloc (fheap s) n 0 = Some (h, Some b)"
  obtains k where "fs_rep (s\<lparr>fheap := h\<rparr>) A" and "keeps s A (s\<lparr>fheap := h\<rparr>) A" and "(b, k) \<in> live h" and "n \<le> k"
    and "\<not> fs_block (rnodes s) A b" and "\<And>l. (b, l) \<notin> live (fheap s)"
  using repD(1) [OF rep]
proof (cases rule: kmalloc_frame [where n = n])
  case none
  with res show ?thesis by simp
next
  case (some h' p k)
  have h: "h' = h" "p = b"
    using some(1) res by simp_all
  have "rep h (rnodes s) A"
    using some(2,4,7) unfolding h by (intro rep_heap [OF rep]) auto
  moreover have "(b, l) \<notin> live (fheap s)" for l
    using new_block_not_live [of h b k] some(2,4,5) unfolding h by blast
  ultimately show ?thesis
    using some(3,4) fresh_block(1) [OF rep some(5,2,4)] unfolding h
    by (intro that [of k]) (auto simp: keeps_def)
qed

text \<open>Releasing a buffer that was allocated on the way.\<close>

lemma free_buffer:
  assumes "fs_rep t B" and "keeps s A t B" and "(b, k) \<in> live (fheap t)" and "\<not> fs_block (rnodes t) B b" and "\<not> in_use s A (Obj b)"
    and "kfree (fheap t) (Some b) = Some h"
  shows "fs_rep (t\<lparr>fheap := h\<rparr>) B \<and> keeps s A (t\<lparr>fheap := h\<rparr>) B"
  using release_keeps [OF assms(1-5)] assms(6) by (metis option.inject)

text \<open>What an execution leaves, on the way from the state \<open>s\<close> of the file system.\<close>

definition exec_done :: "fs \<Rightarrow> table \<Rightarrow> kernel \<Rightarrow> u64 \<Rightarrow> kernel \<Rightarrow> bool" where
  "exec_done s A k p k' \<longleftrightarrow> (\<exists>B. fs_rep (kfs k') B \<and> keeps s A (kfs k') B) \<and>
     (k' = k\<lparr>kfs := kfs k'\<rparr> \<or>
      (\<exists>m. k' = k\<lparr>kfs := kfs k', ktasks := set_task (ktasks k) (get_current (ktasks k)) (user_task m (unat p))\<rparr>))"

lemma exec_doneI: "fs_rep t B \<Longrightarrow> keeps s A t B \<Longrightarrow> exec_done s A k p (k\<lparr>kfs := t\<rparr>)"
  by (auto simp: exec_done_def)

lemma exec_buffer_done:
  assumes rep: "fs_rep (kfs k) B" and kp: "keeps s A (kfs k) B" and b: "(b, l) \<in> live (fheap (kfs k))"
      "\<not> fs_block (rnodes (kfs k)) B b" "\<not> in_use s A (Obj b)"
    and res: "exec_buffer k p b n = Some (k', r)"
  shows "exec_done s A k p k'"
proof (cases "elf_validate (kmem k) b n \<noteq> 0 \<or> elf_calc_size (kmem k) b n = 0")
  case True
  with res obtain h where h: "kfree (fheap (kfs k)) (Some b) = Some h" "k' = k\<lparr>kfs := (kfs k)\<lparr>fheap := h\<rparr>\<rparr>"
    by (auto simp: exec_buffer_def Let_def split: bind_splits)
  from free_buffer [OF rep kp b h(1)] show ?thesis
    unfolding h(2) by (blast intro: exec_doneI)
next
  case False
  with res obtain m ret info h where ld: "elf_load_at (kmem k) b n USER_CODE_BASE = Some (m, ret, info)"
      "\<not> loads_into_heap (fheap (kfs k)) m" "kfree ((fheap (kfs k))\<lparr>kbytes := m\<rparr>) (Some b) = Some h"
    by (auto simp: exec_buffer_def Let_def split: bind_splits if_splits)
  let ?t = "(kfs k)\<lparr>fheap := (fheap (kfs k))\<lparr>kbytes := m\<rparr>\<rparr>"
  note out = outside_keeps [OF rep ld(2)]
  have "fs_rep (?t\<lparr>fheap := h\<rparr>) B \<and> keeps s A (?t\<lparr>fheap := h\<rparr>) B"
    using ld(3) b by (intro free_buffer [OF out(1) keeps_trans [OF kp out(2)], where b = b and k = l]) (simp_all add: live_bytes)
  moreover from False res ld have "k' = k\<lparr>kfs := ?t\<lparr>fheap := h\<rparr>\<rparr> \<or>
      k' = k\<lparr>kfs := ?t\<lparr>fheap := h\<rparr>, ktasks := set_task (ktasks k) (get_current (ktasks k)) (user_task m (unat p))\<rparr>"
    by (auto simp: exec_buffer_def Let_def split: option.splits bool.splits)
  ultimately show ?thesis
    unfolding exec_done_def by (elim disjE) (simp, blast)+
qed

lemma exec_file_done:
  assumes rep: "fs_rep (kfs k) B" and kp: "keeps s A (kfs k) B" and f: "file_ok (kfs k) B f" "\<not> in_use s A (Obj f)"
    and res: "exec_file k p f = Some (k', r)"
  shows "exec_done s A k p k'"
proof -
  let ?s = "kfs k"
  define n where "n = (case Option.bind (f_dentry (files ?s f)) (\<lambda>d. d_inode (dentries ?s d)) of
      None \<Rightarrow> 0 | Some vi \<Rightarrow> unat (word_of_int (i_size (inodes ?s vi)) :: u64))"
  note res' = res [unfolded exec_file_def Let_def, folded n_def]
  show ?thesis
  proof (cases "n = 0 \<or> n > 64 * 1024 * 1024")
    case True
    with res' obtain t q where t: "vfs_close ?s (Some f) = Some (t, q)" "k' = k\<lparr>kfs := t\<rparr>"
      by (auto split: bind_splits)
    from close_keeps [OF rep kp f t(1)] show ?thesis
      unfolding t(2) by (blast intro: exec_doneI)
  next
    case False
    with res' obtain h b where hb: "kmalloc (fheap ?s) n 0 = Some (h, b)"
      by (auto split: bind_splits)
    show ?thesis
    proof (cases b)
      case None
      have "h = fheap ?s"
        using repD(1) [OF rep] by (cases rule: kmalloc_frame [where n = n]) (use hb None in auto)
      with False res' hb None obtain t q where t: "vfs_close ?s (Some f) = Some (t, q)" "k' = k\<lparr>kfs := t\<rparr>"
        by (auto split: bind_splits)
      from close_keeps [OF rep kp f t(1)] show ?thesis
        unfolding t(2) by (blast intro: exec_doneI)
    next
      case (Some buf)
      obtain l where l: "fs_rep (?s\<lparr>fheap := h\<rparr>) B" "keeps ?s B (?s\<lparr>fheap := h\<rparr>) B" "(buf, l) \<in> live h" "n \<le> l"
          "\<not> fs_block (rnodes ?s) B buf" "\<And>j. (buf, j) \<notin> live (fheap ?s)"
        by (rule kmalloc_keeps [OF rep hb [unfolded Some]]) blast
      let ?s1 = "?s\<lparr>fheap := h\<rparr>"
      obtain s2 got where rd: "vfs_read ?s1 (Some f) (Some buf) n = (s2, got)"
        by fastforce
      have buf: "caller_buf (fheap ?s1) (rnodes ?s1) B buf n"
        unfolding caller_buf_def using l(3-5) by (intro disjI1 exI [of _ buf] exI [of _ l]) simp
      have f1: "file_ok ?s1 B f"
        using keeps_file [OF l(2) f(1)] .
      note r2 = vfs_read_keeps [OF l(1) f1 buf rd]
      have f2: "file_ok s2 B f" and kp2: "keeps s A s2 B" and rep2: "fs_rep s2 B"
        using r2 keeps_file [OF _ f1] keeps_trans [OF keeps_trans [OF kp l(2)]] by blast+
      from False res' hb Some rd obtain s3 q where cl: "vfs_close s2 (Some f) = Some (s3, q)"
        and rest: "(if got \<noteq> int n then do { h \<leftarrow> kfree (fheap s3) (Some buf); Some (k\<lparr>kfs := s3\<lparr>fheap := h\<rparr>\<rparr>, - EIO) }
            else exec_buffer (k\<lparr>kfs := s3\<rparr>) p buf n) = Some (k', r)"
        by (auto split: bind_splits)
      note r3 = close_keeps [OF rep2 kp2 f2 f(2) cl]
      have "buf \<noteq> f"
        using f(1) l(6) by (auto simp: file_ok_def)
      then have b3: "(buf, l) \<in> live (fheap s3)"
        using r3 r2 l(3) by simp
      have "in_use ?s1 B (Obj buf)"
        using l(3,5) by auto
      then have "in_use s2 B (Obj buf)"
        using r2 unfolding keeps_def by blast
      then have nb: "\<not> fs_block (rnodes s3) B buf"
        using r3 by simp
      have nu: "\<not> in_use s A (Obj buf)"
        using kp l(6) by (auto simp: keeps_def)
      show ?thesis
      proof (cases "got = int n")
        case True
        with rest have "exec_buffer (k\<lparr>kfs := s3\<rparr>) p buf n = Some (k', r)"
          by simp
        then have "exec_done s A (k\<lparr>kfs := s3\<rparr>) p k'"
          using conjunct1 [OF r3] conjunct1 [OF conjunct2 [OF r3]] b3 nb nu
          by (intro exec_buffer_done [where l = l and b = buf and n = n and B = B and r = r])
            simp_all
        then show ?thesis
          by (simp add: exec_done_def)
      next
        case False
        with rest obtain h' where h': "kfree (fheap s3) (Some buf) = Some h'" "k' = k\<lparr>kfs := s3\<lparr>fheap := h'\<rparr>\<rparr>"
          by (auto split: bind_splits)
        from free_buffer [OF _ _ b3 nb nu h'(1)] r3 show ?thesis
          unfolding h'(2) by (blast intro: exec_doneI)
      qed
    qed
  qed
qed

lemma sys_execve_done:
  assumes rep: "fs_rep (kfs k) A" and root: "root_at (kfs k) A r0" "sys_root k = Some Static_root"
    and res: "sys_execve k p = Some (k', r)"
  shows "exec_done (kfs k) A k p k'"
proof -
  from res root(2) obtain path s f where s: "vfs_open (Some Static_root) (kfs k) path 0 0 = Some (s, f)"
      and rest: "(case f of None \<Rightarrow> Some (k\<lparr>kfs := s\<rparr>, - ENOENT) | Some f \<Rightarrow> exec_file (k\<lparr>kfs := s\<rparr>) p f) = Some (k', r)"
    by (auto simp: sys_execve_def split: bind_splits)
  from vfs_open_opens [OF rep root(1) s] obtain B where B: "fs_rep s B" "keeps (kfs k) A s B"
      "\<And>g. f = Some g \<Longrightarrow> file_ok s B g \<and> \<not> in_use (kfs k) A (Obj g)"
    by (auto simp: opens_def)
  show ?thesis
  proof (cases f)
    case None
    with rest B(1,2) show ?thesis by (auto intro: exec_doneI)
  next
    case (Some g)
    with rest B exec_file_done [of "k\<lparr>kfs := s\<rparr>" B "kfs k" A g p k' r] show ?thesis
      by (auto simp: exec_done_def)
  qed
qed

section \<open>User memory\<close>

text \<open>The break stays in the lower half of the user heap, the next mapping in the upper half.\<close>

abbreviation heap_middle :: u64 where
  "heap_middle \<equiv> USER_HEAP_START + USER_HEAP_SIZE div 2"

definition regions_ok :: "kernel \<Rightarrow> bool" where
  "regions_ok k \<longleftrightarrow> USER_HEAP_START \<le> user_brk_current k \<and> user_brk_current k \<le> heap_middle \<and>
     heap_middle \<le> user_mmap_current k \<and> user_mmap_current k \<le> USER_HEAP_START + USER_HEAP_SIZE"

lemma region_values:
  "unat USER_HEAP_START = 0x10000000" "unat heap_middle = 0x12000000" "unat (USER_HEAP_START + USER_HEAP_SIZE) = 0x14000000"
  by (simp_all add: USER_HEAP_START_def USER_HEAP_SIZE_def)

lemma sys_brk_regions: "regions_ok k \<Longrightarrow> sys_brk k b = (k', r) \<Longrightarrow> regions_ok k'"
  by (auto simp: sys_brk_def regions_ok_def split: if_splits)

lemma as_long_small:
  assumes "unat x < 2 ^ 63"
  shows "as_long x = int (unat x)"
proof -
  have "signed_take_bit 63 (int n) = int n" if "n < 2 ^ 63" for n :: nat
    using that by (intro signed_take_bit_int_eq_self) simp_all
  from this [OF assms] show ?thesis
    unfolding as_long_def sint_uint uint_nat by simp
qed

text \<open>The length of a mapping in whole pages.\<close>

definition page_len :: "u64 \<Rightarrow> u64" where
  "page_len len = (len + 4096 - 1) AND NOT (4096 - 1)"

lemma page_len_bounds:
  assumes "unat len \<le> 2 ^ 63"
  shows "unat len \<le> unat (page_len len)" and "unat (page_len len) < unat len + 4096" and "4096 dvd unat (page_len len)"
proof -
  have m: "(4096 - 1 :: u64) = mask 12"
    by (simp add: mask_eq_exp_minus_1)
  have "unat (len + 4096 - 1) = unat len + 4095"
    using u64_unat_add [of len 4095] assms by (simp add: add_diff_eq [symmetric])
  then have "unat (page_len len) = (unat len + 4095) div 4096 * 4096"
    unfolding page_len_def m unat_and_not_mask by simp
  then show "unat len \<le> unat (page_len len)" "unat (page_len len) < unat len + 4096" "4096 dvd unat (page_len len)"
    by simp_all
qed

lemma sys_mmap_cases:
  assumes reg: "regions_ok k" and len: "unat len \<le> 2 ^ 63" and res: "sys_mmap k a len pr fl fd off = Some (k', r)"
  obtains (error) "k' = k" and "r < 0"
  | (mapped) "k' = set_kmem (k\<lparr>user_mmap_current := user_mmap_current k + page_len len\<rparr>)
        (write_bytes (kmem k) (unat (user_mmap_current k)) (replicate (unat (page_len len)) 0))"
      and "r = int (unat (user_mmap_current k))" and "unat (user_mmap_current k) + unat (page_len len) \<le> 0x14000000"
      and "unat (user_mmap_current k + page_len len) = unat (user_mmap_current k) + unat (page_len len)"
      and "\<not> loads_into_heap (fheap (kfs k)) (write_bytes (kmem k) (unat (user_mmap_current k)) (replicate (unat (page_len len)) 0))"
proof (cases "fl AND 0x20 = 0 \<or> fd \<noteq> - 1 \<or> user_mmap_current k + page_len len > USER_HEAP_START + USER_HEAP_SIZE")
  case True
  with res have "k' = k \<and> r < 0"
    unfolding sys_mmap_def Let_def page_len_def [symmetric] by (simp split: if_splits)
  with error show ?thesis by blast
next
  case False
  let ?c = "user_mmap_current k" and ?n = "page_len len"
  have c: "unat ?c \<le> 0x14000000"
    using reg region_values(3) by (simp add: regions_ok_def word_le_nat_alt)
  have add: "unat (?c + ?n) = unat ?c + unat ?n"
    using c page_len_bounds(2) [OF len] len by (intro u64_unat_add) simp
  have le: "unat ?c + unat ?n \<le> 0x14000000"
    using False region_values(3) add by (simp add: word_le_nat_alt not_less)
  from False res have nm: "\<not> meets_heap (fheap (kfs k)) ?c (unat ?n)"
      and k': "k' = set_kmem (k\<lparr>user_mmap_current := ?c + ?n\<rparr>) (zero_loop (kmem k) ?c (unat ?n))" "r = as_long ?c"
    unfolding sys_mmap_def Let_def page_len_def [symmetric] by (simp_all split: if_splits)
  have "zero_loop (kmem k) ?c (unat ?n) = write_bytes (kmem k) (unat ?c) (replicate (unat ?n) 0)"
    using le by (intro zero_loop_eq) simp
  moreover have "as_long ?c = int (unat ?c)"
    using c by (intro as_long_small) simp
  moreover have "\<not> loads_into_heap (fheap (kfs k)) (write_bytes (kmem k) (unat ?c) (replicate (unat ?n) 0))"
  proof (cases "unat ?n = 0")
    case False
    with nm show ?thesis by (intro write_outside) (auto simp: meets_heap_def)
  qed (simp add: loads_into_heap_def)
  ultimately show ?thesis
    using k' le add by (intro mapped) simp_all
qed

end
