(* ===== verification/Syscall_Run.thy ===== *)
theory Syscall_Run
  imports Syscall_Spec
begin

text \<open>
  Sequences of system calls: the invariant of the kernel that all of them keep, the calls on
  descriptors together, and the requests that break the kernel.
\<close>

section \<open>The invariant of the kernel\<close>

definition kernel_inv :: "kernel \<Rightarrow> bool" where
  "kernel_inv k \<longleftrightarrow> files_inv (init_fd_table k) \<and> sched_inv (ktasks k) \<and> regions_ok k \<and> syscall_init k = k"

text \<open>
  What a program has to respect: the buffers that the kernel reads and fills lie outside the kernel
  heap, a write ends below the largest file offset, a mapping is at most half of the address space, and
  the idle task does not exit.
\<close>

definition requested :: "kernel \<Rightarrow> (nat \<Rightarrow> u64) \<Rightarrow> syscall_fn" where
  "requested k x = (if unat (x 8) < NR_syscalls then syscall_table k (unat (x 8)) else Sys_not_implemented)"

definition request_ok :: "kernel \<Rightarrow> (nat \<Rightarrow> u64) \<Rightarrow> bool" where
  "request_ok k x =
     (case requested k x of
        Sys_read \<Rightarrow> user_buffer k (x 1) (unat (x 2))
      | Sys_write \<Rightarrow> user_buffer k (x 1) (unat (x 2)) \<and>
          (case get_file (init_fd_table k) (as_int (x 0)) of
             None \<Rightarrow> True | Some f \<Rightarrow> f_pos (files (kfs k) f) + int (unat (x 2)) < 2 ^ 63)
      | Sys_uname \<Rightarrow> user_buffer k (x 0) 390
      | Sys_mmap \<Rightarrow> unat (x 1) \<le> 2 ^ 63
      | Sys_exit \<Rightarrow> rq_current (ktasks k) \<noteq> Init_task
      | Sys_exit_group \<Rightarrow> rq_current (ktasks k) \<noteq> Init_task
      | _ \<Rightarrow> True)"

lemma handle_syscall_eq: "handle_syscall k x = call_syscall (requested k x) k x"
  by (simp add: handle_syscall_def requested_def)

lemma syscall_init_fields [simp]:
  "syscall_init (k\<lparr>kfs := s\<rparr>) = (syscall_init k)\<lparr>kfs := s\<rparr>" "syscall_init (k\<lparr>ktasks := t\<rparr>) = (syscall_init k)\<lparr>ktasks := t\<rparr>"
  "syscall_init (k\<lparr>user_brk_current := b\<rparr>) = (syscall_init k)\<lparr>user_brk_current := b\<rparr>"
  "syscall_init (k\<lparr>user_mmap_current := b\<rparr>) = (syscall_init k)\<lparr>user_mmap_current := b\<rparr>"
  "syscall_init (k\<lparr>console := c\<rparr>) = (syscall_init k)\<lparr>console := c\<rparr>"
  "syscall_init (k\<lparr>fd_table := d\<rparr>) = (syscall_init k)\<lparr>fd_table := d\<rparr>"
  by (simp_all add: syscall_init_def cong: if_cong)

lemma syscall_init_fds [simp]: "syscall_init (init_fd_table k) = init_fd_table (syscall_init k)"
  by (simp add: syscall_init_def init_fd_table_def cong: if_cong)

text \<open>The calls on descriptors change the table of descriptors, the file system and the console.\<close>

definition files_only :: "kernel \<Rightarrow> kernel \<Rightarrow> bool" where
  "files_only k k' \<longleftrightarrow> fd_table_initialized k' \<and> user_brk_current k' = user_brk_current k \<and>
     user_mmap_current k' = user_mmap_current k \<and> syscall_table k' = syscall_table k \<and> ktasks k' = ktasks k"

lemma files_only_intros:
  "files_only k (init_fd_table k)" "files_only k ((init_fd_table k)\<lparr>kfs := s\<rparr>)" "files_only k ((init_fd_table k)\<lparr>console := c\<rparr>)"
  "files_only k k' \<Longrightarrow> files_only k (free_fd k' i)" "files_only k k' \<Longrightarrow> files_only k (set_fd k' j g)"
  "files_only k k' \<Longrightarrow> files_only k (k'\<lparr>kfs := s\<rparr>)"
  by (simp_all add: files_only_def free_fd_def set_fd_def)

lemma syscall_init_same:
  assumes "syscall_init k = k" and "syscall_table k' = syscall_table k"
  shows "syscall_init k' = k'"
proof -
  have "syscall_table (syscall_init k') = syscall_table (syscall_init k)"
    using assms(2) by (simp add: syscall_init_def cong: if_cong)
  also have "\<dots> = syscall_table k'"
    unfolding assms ..
  finally show ?thesis
    by (simp add: syscall_init_def)
qed

lemma files_only_inv: "kernel_inv k \<Longrightarrow> files_only k k' \<Longrightarrow> files_inv k' \<Longrightarrow> kernel_inv k'"
  using syscall_init_same [of k k'] by (simp add: kernel_inv_def files_only_def regions_ok_def)

lemma file_calls_only:
  "sys_read k fd b n = (k', r) \<Longrightarrow> files_only k k'" "sys_lseek k fd off wh = (k', r) \<Longrightarrow> files_only k k'"
  "sys_write k fd b n = Some (k', r) \<Longrightarrow> files_only k k'" "sys_close k fd = Some (k', r) \<Longrightarrow> files_only k k'"
  by (auto simp: sys_read_def sys_lseek_def sys_write_def sys_close_def Let_def files_only_intros
      split: if_splits option.splits prod.splits bind_splits)

lemma alloc_fd_only: "alloc_fd (init_fd_table k) = (k', fd) \<Longrightarrow> files_only k k'"
  by (auto simp: alloc_fd_def Let_def files_only_intros split: option.splits)

lemma sys_openat_only: "sys_openat k d p fl md = Some (k', r) \<Longrightarrow> files_only k k'"
  by (auto simp: sys_openat_def Let_def files_only_intros dest!: alloc_fd_only
      split: if_splits option.splits prod.splits bind_splits)

section \<open>The other calls\<close>

lemma uts_loop_other: "a < p \<or> p + 64 \<le> a \<Longrightarrow> uts_loop m p i cs a = m a"
  by (induction m p i cs rule: uts_loop.induct) auto

lemma uts_fields_other: "a < p \<or> p + 65 * length names \<le> a \<Longrightarrow> uts_fields m p names a = m a"
  by (induction m p names rule: uts_fields.induct) (auto simp: uts_field_def uts_loop_other)

text \<open>Storing bytes outside the heap.\<close>

lemma set_kmem_inv:
  assumes "kernel_inv k" and "\<not> loads_into_heap (fheap (kfs k)) m"
  shows "kernel_inv (set_kmem k m)"
proof -
  let ?k = "init_fd_table k"
  from assms(1) have "files_inv ?k"
    by (simp add: kernel_inv_def)
  then obtain A r0 where k: "fs_rep (kfs ?k) A" "root_at (kfs ?k) A r0" "fds_ok ?k A" "sys_root ?k = Some Static_root"
      "fd_table_initialized ?k"
    by (rule files_invE)
  have "fs_rep (kfs k) A"
    using k(1) by simp
  from outside_keeps [OF this assms(2)] files_inv_keeps [OF k] have "files_inv (set_kmem ?k m)"
    by simp
  with assms(1) show ?thesis
    by (simp add: kernel_inv_def regions_ok_def)
qed

lemma kernel_inv_tasks: "kernel_inv k \<Longrightarrow> sched_inv t \<Longrightarrow> kernel_inv (k\<lparr>ktasks := t\<rparr>)"
  by (simp add: kernel_inv_def regions_ok_def)

lemma sys_uname_inv:
  assumes "kernel_inv k" and "user_buffer k b 390"
  shows "kernel_inv (fst (sys_uname k b))"
proof -
  have "uts_fields (kmem k) (unat b) uts_names a = kmem k a" if "a \<in> {heap_start (fheap (kfs k))..<heap_end (fheap (kfs k))}" for a
    using that assms(2) by (intro uts_fields_other) (auto simp: uts_names_def user_buffer_def)
  then show ?thesis
    unfolding sys_uname_def fst_conv by (intro set_kmem_inv [OF assms(1)]) (auto simp: loads_into_heap_def)
qed

lemma sys_mmap_inv:
  assumes inv: "kernel_inv k" and len: "unat len \<le> 2 ^ 63" and res: "sys_mmap k a len pr fl fd off = Some (k', r)"
  shows "kernel_inv k'"
proof -
  have reg: "regions_ok k"
    using inv by (simp add: kernel_inv_def)
  from reg len res show ?thesis
  proof (cases rule: sys_mmap_cases)
    case error
    with inv show ?thesis by simp
  next
    case mapped
    let ?c = "user_mmap_current k + page_len len"
    have "heap_middle \<le> ?c" "?c \<le> USER_HEAP_START + USER_HEAP_SIZE"
      using reg mapped(3,4) region_values by (simp_all add: regions_ok_def word_le_nat_alt)
    then have "kernel_inv (k\<lparr>user_mmap_current := ?c\<rparr>)"
      using inv by (simp add: kernel_inv_def regions_ok_def)
    then show ?thesis
      unfolding mapped(1) using mapped(5) set_kmem_inv [of "k\<lparr>user_mmap_current := ?c\<rparr>"] by simp
  qed
qed

lemma sys_execve_inv:
  assumes inv: "kernel_inv k" and res: "sys_execve k p = Some (k', r)"
  shows "kernel_inv k'"
proof -
  let ?k = "init_fd_table k"
  from inv have "files_inv ?k" and sch: "sched_inv (ktasks k)"
    by (simp_all add: kernel_inv_def)
  from this(1) obtain A r0 where k: "fs_rep (kfs ?k) A" "root_at (kfs ?k) A r0" "fds_ok ?k A" "sys_root ?k = Some Static_root"
      "fd_table_initialized ?k"
    by (rule files_invE)
  have "exec_done (kfs k) A k p k'"
    using k(1,2,4) by (intro sys_execve_done [OF _ _ _ res]) simp_all
  then obtain B where B: "fs_rep (kfs k') B" "keeps (kfs ?k) A (kfs k') B"
      and k': "k' = k\<lparr>kfs := kfs k'\<rparr> \<or>
        (\<exists>m. k' = k\<lparr>kfs := kfs k', ktasks := set_task (ktasks k) (get_current (ktasks k)) (user_task m (unat p))\<rparr>)"
    unfolding exec_done_def by auto
  have *: "kernel_inv (k\<lparr>kfs := kfs k'\<rparr>)"
    using inv files_inv_keeps [OF k B] by (simp add: kernel_inv_def regions_ok_def)
  from sch obtain q where "sched_wf (ktasks k) q"
    by (auto simp: sched_inv_def)
  then have "sched_wf (set_task (ktasks k) (get_current (ktasks k)) (user_task m (unat p))) q" for m
    by (intro sched_wf_set_task) (simp_all add: user_task_def)
  then have "sched_inv (set_task (ktasks k) (get_current (ktasks k)) (user_task m (unat p)))" for m
    by (auto simp: sched_inv_def)
  with k' * kernel_inv_tasks [OF *] show ?thesis
    by (metis kernel.simps)
qed

text \<open>Leaving and giving up the processor.\<close>

lemma task_calls_inv:
  assumes inv: "kernel_inv k"
  shows "rq_current (ktasks k) \<noteq> Init_task \<Longrightarrow> \<exists>k'. sys_exit k c = Some (k', 0) \<and> kernel_inv k'"
    and "\<exists>k'. sys_sched_yield k = Some (k', 0) \<and> kernel_inv k'"
proof -
  from inv obtain q where q: "sched_wf (ktasks k) q"
    by (auto simp: kernel_inv_def sched_inv_def)
  from schedule_wf [OF q] obtain t where "schedule (ktasks k) = Some t" "sched_inv t"
    unfolding sched_inv_def by blast
  with kernel_inv_tasks [OF inv] show "\<exists>k'. sys_sched_yield k = Some (k', 0) \<and> kernel_inv k'"
    by (auto simp: sys_sched_yield_def)
  assume "rq_current (ktasks k) \<noteq> Init_task"
  from exit_task_wf [OF q this, of "as_int c"] obtain t where "exit_task (ktasks k) (as_int c) = Some t" "sched_inv t"
    unfolding sched_inv_def by blast
  with kernel_inv_tasks [OF inv] show "\<exists>k'. sys_exit k c = Some (k', 0) \<and> kernel_inv k'"
    by (auto simp: sys_exit_def)
qed

section \<open>Sequences of calls\<close>

lemma requested_not_null:
  assumes "syscall_init k = k"
  shows "requested k x \<noteq> Null_fn"
proof -
  have "syscall_table k i \<noteq> Null_fn" if "i < NR_syscalls" for i
    using that by (subst assms [symmetric]) (simp add: syscall_init_def)
  then show ?thesis
    by (auto simp: requested_def)
qed

text \<open>The calls that always return.\<close>

lemma call_returns:
  assumes inv: "kernel_inv k" and ok: "request_ok k x" and fn: "requested k x \<notin> {Sys_openat, Sys_execve, Sys_mmap}"
  shows "\<exists>k' r. handle_syscall k x = Some (k', r) \<and> kernel_inv k'"
proof -
  have fi: "files_inv (init_fd_table k)" and "syscall_init k = k"
    using inv by (simp_all add: kernel_inv_def)
  note nn = requested_not_null [OF this(2), of x]
  show ?thesis
  proof (cases "requested k x")
    case Sys_read
    obtain k' r where "sys_read k (x 0) (x 1) (x 2) = (k', r)"
      by fastforce
    with sys_read_inv [OF fi _ this] file_calls_only(1) [OF this] files_only_inv [OF inv] ok Sys_read show ?thesis
      by (auto simp: handle_syscall_eq request_ok_def)
  next
    case Sys_lseek
    obtain k' r where "sys_lseek k (x 0) (x 1) (x 2) = (k', r)"
      by fastforce
    with sys_lseek_inv [OF fi this] file_calls_only(2) [OF this] files_only_inv [OF inv] Sys_lseek show ?thesis
      by (auto simp: handle_syscall_eq)
  next
    case Sys_write
    with ok have "user_buffer k (x 1) (unat (x 2))"
      "\<And>f. get_file (init_fd_table k) (as_int (x 0)) = Some f \<Longrightarrow> f_pos (files (kfs k) f) + int (unat (x 2)) < 2 ^ 63"
      by (auto simp: request_ok_def split: option.splits)
    from sys_write_inv [OF fi this] obtain k' r where w: "sys_write k (x 0) (x 1) (x 2) = Some (k', r)" "files_inv k'"
      by blast
    with file_calls_only(3) [OF w(1)] files_only_inv [OF inv] Sys_write show ?thesis
      by (auto simp: handle_syscall_eq)
  next
    case Sys_close
    from sys_close_inv [OF fi] obtain k' r where c: "sys_close k (x 0) = Some (k', r)" "files_inv k'"
      by blast
    with file_calls_only(4) [OF c(1)] files_only_inv [OF inv] Sys_close show ?thesis
      by (auto simp: handle_syscall_eq)
  next
    case Sys_brk
    obtain k' r where b: "sys_brk k (x 0) = (k', r)"
      by fastforce
    have "kernel_inv k'"
      using b inv sys_brk_regions [OF _ b] by (auto simp: sys_brk_def kernel_inv_def split: if_splits)
    with b Sys_brk show ?thesis by (simp add: handle_syscall_eq)
  next
    case Sys_uname
    with sys_uname_inv [OF inv] ok show ?thesis
      by (auto simp: handle_syscall_eq request_ok_def sys_uname_def)
  qed (use fn nn inv ok task_calls_inv(1) [OF inv, of "x 0"] task_calls_inv(2) [OF inv] in \<open>auto simp: handle_syscall_eq request_ok_def sys_exit_group_def\<close>)
qed

lemma call_keeps:
  assumes inv: "kernel_inv k" and ok: "request_ok k x" and res: "handle_syscall k x = Some (k', r)"
  shows "kernel_inv k'"
proof (cases "requested k x \<in> {Sys_openat, Sys_execve, Sys_mmap}")
  case False
  with call_returns [OF inv ok] res show ?thesis by auto
next
  case True
  have "files_inv (init_fd_table k)"
    using inv by (simp add: kernel_inv_def)
  with True res ok show ?thesis
    using files_only_inv [OF inv] sys_openat_only sys_openat_inv sys_execve_inv [OF inv] sys_mmap_inv [OF inv]
    by (auto simp: handle_syscall_eq request_ok_def)
qed

inductive syscall_step :: "kernel \<Rightarrow> kernel \<Rightarrow> bool" where
  syscall: "request_ok k x \<Longrightarrow> handle_syscall k x = Some (k', r) \<Longrightarrow> syscall_step k k'"

inductive_cases syscall_stepE: "syscall_step k k'"



end
