(* ===== verification/Syscall_Files.thy ===== *)
theory Syscall_Files
  imports Syscall_Run
begin

text \<open>
  What single system calls do: opening a path through a descriptor, writing and reading back, the exact
  set of user pointers that pass the check, and the mappings of user memory.
\<close>

section \<open>Opening\<close>

lemma sys_openat_eq:
  assumes init: "fd_table_initialized k" and i: "3 \<le> i" "i < MAX_FDS" "\<not> fd_in_use (fd_table k i)"
      "\<forall>j \<in> {3..<i}. fd_in_use (fd_table k j)"
    and path: "path_at (kmem k) p = Some path"
    and opn: "vfs_open (sys_root k) (kfs k) path (as_int flags) (ucast mode) = Some (s, fp)"
  shows "sys_openat k dirfd p flags mode = Some (case fp of
      None \<Rightarrow> (k\<lparr>kfs := s, fd_table := (fd_table k)(i := free_entry)\<rparr>, - ENOENT)
    | Some f \<Rightarrow> (k\<lparr>kfs := s, fd_table := (fd_table k)(i := \<lparr>fd_file = Some f, fd_flags = as_int flags, fd_in_use = True\<rparr>)\<rparr>, int i))"
proof -
  have "alloc_fd k = (set_fd k i (\<lambda>e. e\<lparr>fd_in_use := True\<rparr>), int i)"
    using init
  proof (cases rule: alloc_fd_cases)
    case (some j)
    have "j = i"
      using some(2-5) i by (cases i j rule: linorder_cases) auto
    with some(1) show ?thesis by simp
  qed (use i in auto)
  with assms show ?thesis
    by (simp add: sys_openat_def set_fd_def free_fd_def fd_entry_full split: option.split)
qed


section \<open>Writing and reading back\<close>

text \<open>The handlers on a descriptor that has an open file.\<close>

lemma file_call_eq:
  assumes "fd_table_initialized k" and "get_file k (as_int fd) = Some f" and "3 \<le> as_int fd"
  shows "vfs_write (kfs k) (Some f) (as_ptr b) (unat n) = Some (s, r) \<Longrightarrow> sys_write k fd b n = Some (k\<lparr>kfs := s\<rparr>, r)"
    and "sys_lseek k fd off wh = (let (s, r) = vfs_lseek (kfs k) (Some f) (as_long off) (as_int wh) in (k\<lparr>kfs := s\<rparr>, r))"
    and "is_valid_user_ptr b n \<Longrightarrow> sys_read k fd b n = (let (s, r) = vfs_read (kfs k) (Some f) (as_ptr b) (unat n) in (k\<lparr>kfs := s\<rparr>, r))"
proof -
  have "fd \<noteq> 0" "fd \<noteq> 1" "fd \<noteq> 2"
    using assms(3) by (auto simp: as_int_def)
  with assms show "vfs_write (kfs k) (Some f) (as_ptr b) (unat n) = Some (s, r) \<Longrightarrow> sys_write k fd b n = Some (k\<lparr>kfs := s\<rparr>, r)"
    and "sys_lseek k fd off wh = (let (s, r) = vfs_lseek (kfs k) (Some f) (as_long off) (as_int wh) in (k\<lparr>kfs := s\<rparr>, r))"
    and "is_valid_user_ptr b n \<Longrightarrow> sys_read k fd b n = (let (s, r) = vfs_read (kfs k) (Some f) (as_ptr b) (unat n) in (k\<lparr>kfs := s\<rparr>, r))"
    by (simp_all add: sys_write_def sys_lseek_def sys_read_def)
qed

text \<open>C15. A program that writes \<open>n\<close> bytes to a descriptor, seeks to the offset where the write began and reads
  \<open>n\<close> bytes into any other buffer outside the kernel heap gets its bytes back; both calls return \<open>n\<close>.\<close>

theorem syscall_write_read_back:
  assumes "fs_rep (kfs k) A" and "fds_ok k A" and "fd_table_initialized k" and "get_file k (as_int fd) = Some f"
    and "private_data (files (kfs k) f) = Some a" and "A a = Some (AFile bs)" and "f_pos (files (kfs k) f) = as_long pos"
    and "as_long pos + int (unat n) < 2 ^ 63" and "buf \<noteq> 0" and "user_buffer k buf (unat n)"
    and "room (fheap (kfs k)) (round_block (nat (as_long pos) + unat n) + 72)"
    and "round_block (nat (as_long pos) + unat n) \<le> MAX_ALLOC"
  shows "\<exists>k1. sys_write k fd buf n = Some (k1, int (unat n)) \<and>
    (\<forall>out. is_valid_user_ptr out n \<longrightarrow> user_buffer k1 out (unat n) \<longrightarrow>
      (let k2 = fst (sys_lseek k1 fd pos 0); (k3, r) = sys_read k2 fd out n
       in r = int (unat n) \<and> read_bytes (kmem k3) (unat out) (unat n) = read_bytes (kmem k) (unat buf) (unat n)))"
proof -
  note f = fds_okD [OF assms(2,4)]
  have op: "f_op (files (kfs k) f) = Some Ramfs_file_ops" "0 \<le> as_long pos"
    using f(1) assms(5-7) by (auto simp: file_ok_def fop_of_def)
  obtain s bs' where s: "vfs_write (kfs k) (Some f) (Some (unat buf)) (unat n) = Some (s, int (unat n))"
      and rd: "\<And>out. caller_buf (fheap s) (rnodes s) (A(a \<mapsto> AFile bs')) out (unat n) \<Longrightarrow>
        (let s2 = fst (vfs_lseek s (Some f) (as_long pos) 0); (s3, r) = vfs_read s2 (Some f) (Some out) (unat n)
         in r = int (unat n) \<and> read_bytes (kbytes (fheap s3)) out (unat n) = read_bytes (kmem k) (unat buf) (unat n))"
    using vfs_write_read [OF assms(1,5) op(1) assms(7,6) op(2) assms(8) user_buffer_caller [OF assms(10)] assms(11,12)] by blast
  let ?k1 = "k\<lparr>kfs := s\<rparr>"
  have w: "sys_write k fd buf n = Some (?k1, int (unat n))"
    using s assms(9) by (intro file_call_eq(1) [OF assms(3,4) f(2)]) (simp add: as_ptr_def)
  have get: "get_file (k\<lparr>kfs := t\<rparr>) (as_int fd) = Some f" for t
    using assms(4) by (auto simp: get_file_def split: if_splits)
  have "let k2 = fst (sys_lseek ?k1 fd pos 0); (k3, r) = sys_read k2 fd out n
       in r = int (unat n) \<and> read_bytes (kmem k3) (unat out) (unat n) = read_bytes (kmem k) (unat buf) (unat n)"
    if out: "is_valid_user_ptr out n" "user_buffer ?k1 out (unat n)" for out
  proof -
    have ptr: "as_ptr out = Some (unat out)"
      using out(1) by (auto simp: is_valid_user_ptr_def as_ptr_def)
    have "caller_buf (fheap s) (rnodes s) (A(a \<mapsto> AFile bs')) (unat out) (unat n)"
      using user_buffer_caller [OF out(2)] by simp
    note r = rd [OF this]
    let ?s2 = "fst (vfs_lseek s (Some f) (as_long pos) 0)"
    have "fst (sys_lseek ?k1 fd pos 0) = k\<lparr>kfs := ?s2\<rparr>"
      using assms(3) get f(2) by (subst file_call_eq(2)) (simp_all add: as_int_def split_beta)
    moreover have "sys_read (k\<lparr>kfs := ?s2\<rparr>) fd out n =
        (let (s3, r) = vfs_read ?s2 (Some f) (Some (unat out)) (unat n) in (k\<lparr>kfs := s3\<rparr>, r))"
      using assms(3) get f(2) out(1) ptr by (subst file_call_eq(3)) (simp_all split: prod.split)
    ultimately show ?thesis
      using r by (simp add: Let_def split: prod.splits)
  qed
  with w show ?thesis by blast
qed

section \<open>User pointers\<close>

lemma unat_max_diff: "unat (- 1 - len :: u64) = 2 ^ 64 - 1 - unat len"
  by (subst u64_unat_diff) (simp_all add: unsigned_minus_1_eq_mask mask_eq_exp_minus_1)

lemma user_ptr_nat:
  "is_valid_user_ptr p len \<longleftrightarrow> p \<noteq> 0 \<and> unat p + unat len < 2 ^ 64 \<and>
     (unat p < 0x40000000 \<or> 0x50000000 \<le> unat p \<or> 0x44000000 \<le> unat p \<and> unat p + unat len < 0x50000000)"
proof -
  have "unat len < 2 ^ 64" "unat p < 2 ^ 64"
    by (rule less_le_trans [OF unsigned_less], simp)+
  then have wrap: "len > 0 \<and> p > - 1 - len \<longleftrightarrow> \<not> unat p + unat len < 2 ^ 64"
    by (auto simp: word_less_nat_alt unat_max_diff)
  show ?thesis
  proof (cases "unat p + unat len < 2 ^ 64")
    case True
    then have "unat (p + len) = unat p + unat len"
      by (rule u64_unat_add)
    with True wrap show ?thesis
      unfolding is_valid_user_ptr_def KERNEL_START_def KERNEL_END_def Let_def word_le_nat_alt word_less_nat_alt by auto
  next
    case False
    with wrap show ?thesis
      by (simp add: is_valid_user_ptr_def)
  qed
qed

text \<open>C33. The check of user pointers accepts exactly the ranges that do not start at 0, do not wrap around and either
  start outside the kernel region from \<open>0x40000000\<close> to \<open>0x50000000\<close> or lie between \<open>0x44000000\<close> and its end. Only
  the start is compared with the kernel region: for every address of the kernel there is an accepted range
  that starts in front of the kernel and contains it, so a read system call may overwrite any part of the
  kernel.\<close>

theorem user_ptr_check:
  "(is_valid_user_ptr p len \<longleftrightarrow> p \<noteq> 0 \<and> unat p + unat len < 2 ^ 64 \<and>
      (unat p < 0x40000000 \<or> 0x50000000 \<le> unat p \<or> 0x44000000 \<le> unat p \<and> unat p + unat len < 0x50000000)) \<and>
   (KERNEL_START \<le> a \<and> a < KERNEL_END \<longrightarrow>
      is_valid_user_ptr (KERNEL_START - 1) (a - KERNEL_START + 2) \<and>
      unat a < unat (KERNEL_START - 1) + unat (a - KERNEL_START + 2))"
proof (intro conjI impI, rule user_ptr_nat)
  assume "KERNEL_START \<le> a \<and> a < KERNEL_END"
  then have a: "0x40000000 \<le> unat a" "unat a < 0x50000000"
    by (simp_all add: KERNEL_START_def KERNEL_END_def word_le_nat_alt word_less_nat_alt)
  have "unat (a - KERNEL_START) = unat a - 0x40000000"
    using a(1) by (subst u64_unat_diff) (simp_all add: KERNEL_START_def word_le_nat_alt)
  then have n: "unat (a - KERNEL_START + 2) = unat a - 0x40000000 + 2"
    using a(2) by (subst u64_unat_add) simp_all
  have p: "KERNEL_START - 1 = 0x3FFFFFFF"
    by (simp add: KERNEL_START_def)
  show "is_valid_user_ptr (KERNEL_START - 1) (a - KERNEL_START + 2)"
    unfolding user_ptr_nat n unfolding p using a(2) by simp
  show "unat a < unat (KERNEL_START - 1) + unat (a - KERNEL_START + 2)"
    unfolding n unfolding p using a(1) by simp
qed

section \<open>Mappings\<close>

text \<open>C34. Mapping memory. A request of at most half of the address space that is granted returns the next address of
  the upper half of the user heap: the pages lie in that half, start where the mappings before end, are
  cleared, and no other byte changes. A request within a page of the largest length wraps around to 0 pages:
  it is granted, too, and the next mapping gets the same address.\<close>

theorem sys_mmap_correct:
  assumes "regions_ok k"
  shows "(unat len \<le> 2 ^ 63 \<and> sys_mmap k addr len prot flags fd off = Some (k', r) \<and> 0 \<le> r \<longrightarrow>
      r = int (unat (user_mmap_current k)) \<and> 0x12000000 \<le> r \<and>
      (\<exists>pages. unat len \<le> 4096 * pages \<and> 4096 * pages < unat len + 4096 \<and> r + int (4096 * pages) \<le> 0x14000000 \<and>
        unat (user_mmap_current k') = nat r + 4096 * pages \<and>
        kmem k' = write_bytes (kmem k) (nat r) (replicate (4096 * pages) 0))) \<and>
    (2 ^ 64 - 4096 < unat len \<and> flags AND 0x20 \<noteq> 0 \<longrightarrow>
      sys_mmap k addr len prot flags (- 1) off = Some (k, int (unat (user_mmap_current k))))"
proof (rule conjI; rule impI)
  assume *: "unat len \<le> 2 ^ 63 \<and> sys_mmap k addr len prot flags fd off = Some (k', r) \<and> 0 \<le> r"
  note bounds = page_len_bounds [OF conjunct1 [OF *]]
  from assms * have "regions_ok k" "unat len \<le> 2 ^ 63" "sys_mmap k addr len prot flags fd off = Some (k', r)" "0 \<le> r"
    by simp_all
  then show "r = int (unat (user_mmap_current k)) \<and> 0x12000000 \<le> r \<and>
      (\<exists>pages. unat len \<le> 4096 * pages \<and> 4096 * pages < unat len + 4096 \<and> r + int (4096 * pages) \<le> 0x14000000 \<and>
        unat (user_mmap_current k') = nat r + 4096 * pages \<and>
        kmem k' = write_bytes (kmem k) (nat r) (replicate (4096 * pages) 0))"
  proof (cases rule: sys_mmap_cases)
    case mapped
    from bounds(3) obtain pages where "unat (page_len len) = 4096 * pages"
      by (auto elim: dvdE)
    moreover define c where "c = unat (user_mmap_current k)"
    moreover have "0x12000000 \<le> c"
      using assms region_values(2) unfolding c_def by (simp add: regions_ok_def word_le_nat_alt)
    ultimately show ?thesis
      using mapped [folded c_def] bounds(1,2) unfolding c_def [symmetric] by (intro conjI exI [of _ pages]) simp_all
  qed simp
next
  assume *: "2 ^ 64 - 4096 < unat len \<and> flags AND 0x20 \<noteq> 0"
  have c: "unat (user_mmap_current k) \<le> 0x14000000"
    using assms region_values(3) by (simp add: regions_ok_def word_le_nat_alt)
  define q where "q = - 1 - len"
  have q: "unat q < 4095"
    using conjunct1 [OF *] unfolding q_def unat_max_diff by simp
  have len: "len + 4096 - 1 = 4094 - q"
    by (simp add: q_def)
  have "unat (4094 - q) = unat (4094 :: u64) - unat q"
    using q by (intro u64_unat_diff) (simp add: word_le_nat_alt)
  then have "unat (len + 4096 - 1) < 4096"
    unfolding len by simp
  moreover have "(4096 - 1 :: u64) = mask 12"
    by (simp add: mask_eq_exp_minus_1)
  ultimately have "unat (page_len len) = 0"
    unfolding page_len_def by (simp only: unat_and_not_mask) simp
  then have "page_len len = 0"
    by (simp add: unat_eq_zero)
  then show "sys_mmap k addr len prot flags (- 1) off = Some (k, int (unat (user_mmap_current k)))"
    using * assms c as_long_small [of "user_mmap_current k"]
    unfolding sys_mmap_def Let_def page_len_def [symmetric] by (auto simp: regions_ok_def meets_heap_def)
qed

section \<open>Witnesses\<close>

text \<open>
  The file system of the sample with one more block at 4968, the structure of an open file, and with the
  path \<^verbatim>\<open>/notes\<close> in user memory at 20000; descriptor 3 is the open file.
\<close>

definition sample_heap :: kheap where
  "sample_heap = sample_fs_heap\<lparr>free_list := Some 5024, kheap_used := 5024,
     hdr := (hdr sample_fs_heap)(4928 := \<lparr>bsize = 96, bmagic = BLOCK_MAGIC_USED, bflags = 0, bnext = None, bprev = None\<rparr>,
       5024 := \<lparr>bsize = 8096, bmagic = BLOCK_MAGIC_FREE, bflags = 1, bnext = None, bprev = None\<rparr>),
     kbytes := write_bytes (kbytes sample_fs_heap) 20000 [47, 110, 111, 116, 101, 115, 0]\<rparr>"

definition sample_kernel :: kernel where
  "sample_kernel = syscall_init \<lparr>
     fd_table = (\<lambda>i. if i = 3 then \<lparr>fd_file = Some 4968, fd_flags = 2, fd_in_use = True\<rparr> else free_entry\<lparr>fd_in_use := i < 3\<rparr>),
     fd_table_initialized = True, user_brk_current = USER_HEAP_START, user_mmap_current = heap_middle,
     syscall_table = (\<lambda>_. Null_fn), kfs = sample_fs\<lparr>fheap := sample_heap\<rparr>, sys_root = Some Static_root,
     ktasks = two_tasks TASK_RUNNING, console = []\<rparr>"

lemma sample_heap_wf: "heap_wf sample_heap [0, 384, 768, 4928, 5024] [5024]"
  by (simp add: sample_heap_def sample_fs_heap_def raw_heap_def heap_wf_def free_structure_def used_size_def)

lemma sample_heap_live: "live sample_heap = {(40, 344), (424, 344), (808, 4120), (4968, 56)}"
proof -
  have "set [0, 384, 768, 4928, 5024 :: nat] - set [5024] = {0, 384, 768, 4928}"
    by auto
  then show ?thesis
    unfolding live_eq [OF sample_heap_wf] by (simp add: sample_heap_def sample_fs_heap_def block_data_def)
qed

lemma sample_heap_room: "n \<le> 8096 \<Longrightarrow> room sample_heap n"
  unfolding room_def free_blocks_eq [OF sample_heap_wf] by (simp add: sample_heap_def)

lemma sample_kernel_fields:
  "kfs sample_kernel = sample_fs\<lparr>fheap := sample_heap\<rparr>" "fd_table_initialized sample_kernel"
  "sys_root sample_kernel = Some Static_root" "ktasks sample_kernel = two_tasks TASK_RUNNING"
  "user_mmap_current sample_kernel = heap_middle" "init_fd_table sample_kernel = sample_kernel"
  "fd_table sample_kernel i = (if i = 3 then \<lparr>fd_file = Some 4968, fd_flags = 2, fd_in_use = True\<rparr> else free_entry\<lparr>fd_in_use := i < 3\<rparr>)"
  by (simp_all add: sample_kernel_def syscall_init_def)

lemma sample_kernel_rep: "fs_rep (kfs sample_kernel) sample_table"
proof -
  have "heap_inv sample_heap"
    using sample_heap_wf unfolding heap_inv_def by blast
  moreover have "kbytes sample_heap x = kbytes sample_fs_heap x" if "x < 20000" for x
    using that by (simp add: sample_heap_def write_bytes_outside)
  ultimately have "rep sample_heap (rnodes sample_fs) sample_table"
    by (intro rep_heap [OF sample_fs_rep]) (auto simp: sample_fs_fields sample_fs_heap_live sample_heap_live)
  then show ?thesis
    by (simp add: sample_kernel_fields)
qed

lemma sample_kernel_root: "root_at (kfs sample_kernel) sample_table 40"
  by (simp add: leads_def fop_of_def sample_kernel_fields sample_fs_def)

lemma sample_kernel_file: "file_ok (kfs sample_kernel) sample_table 4968"
proof -
  have "rdata (rnodes sample_fs a) \<noteq> Some 4968" for a
    by (simp add: sample_fs_def)
  then show ?thesis
    by (auto simp: file_ok_def sample_kernel_fields sample_heap_live fs_block_def fop_of_def sample_fs_def)
qed

lemma sample_kernel_fds: "fds_ok sample_kernel sample_table"
  using sample_kernel_file unfolding fds_ok_def by (auto simp: sample_kernel_fields free_entry_def split: if_splits)

lemma sample_kernel_regions: "regions_ok sample_kernel"
  by (simp add: regions_ok_def sample_kernel_def syscall_init_def USER_HEAP_START_def USER_HEAP_SIZE_def)

lemma sample_kernel_inv: "kernel_inv sample_kernel"
proof -
  have "syscall_init sample_kernel = sample_kernel"
    unfolding sample_kernel_def by (simp add: syscall_init_def fun_eq_iff)
  moreover have "files_inv sample_kernel"
    using sample_kernel_rep sample_kernel_root sample_kernel_fds sample_kernel_fields(2,3) unfolding files_inv_def by blast
  ultimately show ?thesis
    using sample_kernel_regions two_tasks_inv by (simp add: kernel_inv_def sample_kernel_fields)
qed

lemma sample_buffer: "13120 \<le> unat p \<Longrightarrow> user_buffer sample_kernel p n"
  by (simp add: user_buffer_def sample_kernel_fields sample_heap_def sample_fs_heap_def)

lemma sample_path: "path_at (kmem sample_kernel) 20000 = Some ''/notes''"
proof -
  define xs :: "byte list" where "xs = [47, 110, 111, 116, 101, 115]"
  have len: "length xs = 6"
    by (simp add: xs_def)
  have xs: "cstr (kmem sample_kernel) 20000 xs"
    by (simp add: xs_def sample_kernel_fields sample_heap_def write_bytes_def)
  moreover have "read_bytes (kmem sample_kernel) 20000 6 = xs"
    using xs unfolding cstr_iff len by blast
  moreover have "map (\<lambda>b. char_of (unat b)) xs = ''/notes''"
    unfolding xs_def by code_simp
  ultimately show ?thesis
    using strlen_cstr [OF xs] len by (simp add: path_at_def)
qed

text \<open>Registers of a system call.\<close>

definition regs :: "u64 \<Rightarrow> u64 \<Rightarrow> u64 \<Rightarrow> u64 \<Rightarrow> nat \<Rightarrow> u64" where
  "regs nr a b c i = (if i = 8 then nr else if i = 0 then a else if i = 1 then b else if i = 2 then c else 0)"

lemma sample_requested: "requested sample_kernel (regs 64 a b c) = Sys_write" "requested sample_kernel (regs 57 a b c) = Sys_close"
  by (simp_all add: requested_def regs_def NR_syscalls_def sample_kernel_def syscall_init_def)




lemma syscall_write_read_back_witness:
  "\<exists>k1. sys_write sample_kernel 3 20000 4 = Some (k1, 4)"
proof -
  have "get_file sample_kernel (as_int 3) = Some 4968"
    by (simp add: get_file_def as_int_def sample_kernel_fields MAX_FDS_def)
  moreover have "private_data (files (kfs sample_kernel) 4968) = Some 424" "f_pos (files (kfs sample_kernel) 4968) = as_long 0"
    by (simp_all add: sample_kernel_fields sample_fs_def as_long_def)
  moreover have "sample_table 424 = Some (AFile [1, 2, 3])" "user_buffer sample_kernel 20000 (unat (4 :: u64))"
    using sample_buffer [of 20000 4] by simp_all
  moreover have "round_block (nat (as_long 0) + unat (4 :: u64)) = 4096"
    using sample_round(1) by (simp add: as_long_def)
  ultimately show ?thesis
    using syscall_write_read_back [OF sample_kernel_rep sample_kernel_fds sample_kernel_fields(2), of 3 4968 424 "[1, 2, 3]" 0 4 20000]
      sample_heap_room [of 4168]
    by (auto simp: sample_kernel_fields as_long_def MAX_ALLOC_def)
qed

lemma user_ptr_check_witness:
  "is_valid_user_ptr (KERNEL_START - 1) (0x42000000 - KERNEL_START + 2) \<and> is_valid_user_ptr 0x10000000 4096"
  using user_ptr_check [of "0x10000000" 4096 "0x42000000"] by (simp add: KERNEL_START_def KERNEL_END_def)

lemma sys_mmap_correct_witness:
  "sys_mmap sample_kernel 0 (- 1) 3 0x22 (- 1) 0 = Some (sample_kernel, 0x12000000)"
  using sys_mmap_correct [OF sample_kernel_regions, of "- 1" 0 3 "0x22" "- 1" 0] region_values(2)
  by (simp add: sample_kernel_fields unsigned_minus_1_eq_mask mask_eq_exp_minus_1)

end
