(* ===== verification/Vmm.thy ===== *)
theory Vmm
  imports Pmm "HOL-Library.Monad_Syntax"
begin

text \<open>
  The virtual memory manager, \<^verbatim>\<open>kernel/mm/vmm.c\<close>, in its ARM64 configuration: four levels of page
  tables in physical memory, which the kernel reads through an identity mapping. \<open>pmem\<close> is that memory
  read as 64-bit words; a table is the address of its first entry. \<open>kernel_pgd\<close> and \<open>early_tables\<close> are
  the addresses the linker gives to the static tables; further tables come from the page allocator.
  Virtual addresses and entries are 64-bit words. The cache maintenance instructions have no effect on
  this state. \<^const>\<open>None\<close> as the result of an operation is a call that does not return.
\<close>

section \<open>State\<close>

definition VMM_ENTRIES :: nat where "VMM_ENTRIES = 512"
definition EARLY_TABLES_COUNT :: nat where "EARLY_TABLES_COUNT = 4"

definition VMM_LEVEL0_SHIFT :: nat where "VMM_LEVEL0_SHIFT = 39"
definition VMM_LEVEL1_SHIFT :: nat where "VMM_LEVEL1_SHIFT = 30"
definition VMM_LEVEL2_SHIFT :: nat where "VMM_LEVEL2_SHIFT = 21"
definition VMM_LEVEL3_SHIFT :: nat where "VMM_LEVEL3_SHIFT = 12"

definition PTE_VALID :: u64 where "PTE_VALID = push_bit 0 1"
definition PTE_TABLE :: u64 where "PTE_TABLE = push_bit 1 1"
definition PTE_BLOCK :: u64 where "PTE_BLOCK = push_bit 1 0"
definition PTE_PAGE :: u64 where "PTE_PAGE = push_bit 1 1"
definition PTE_USER :: u64 where "PTE_USER = push_bit 6 1"
definition PTE_RDONLY :: u64 where "PTE_RDONLY = push_bit 7 1"
definition PTE_ACCESSED :: u64 where "PTE_ACCESSED = push_bit 10 1"
definition PTE_ATTR_NORMAL :: u64 where "PTE_ATTR_NORMAL = push_bit 2 0"
definition PTE_ATTR_DEVICE :: u64 where "PTE_ATTR_DEVICE = push_bit 2 1"
definition PTE_SH_NONE :: u64 where "PTE_SH_NONE = push_bit 8 0"
definition PTE_SH_INNER :: u64 where "PTE_SH_INNER = push_bit 8 3"
definition PTE_UXN :: u64 where "PTE_UXN = push_bit 54 1"
definition PTE_PXN :: u64 where "PTE_PXN = push_bit 53 1"
definition PTE_ADDR_MASK :: u64 where "PTE_ADDR_MASK = 0x0000FFFFFFFFF000"

definition VM_READ :: u32 where "VM_READ = push_bit 0 1"
definition VM_WRITE :: u32 where "VM_WRITE = push_bit 1 1"
definition VM_EXEC :: u32 where "VM_EXEC = push_bit 2 1"
definition VM_USER :: u32 where "VM_USER = push_bit 3 1"
definition VM_DEVICE :: u32 where "VM_DEVICE = push_bit 5 1"

definition USER_VMA_END :: u64 where "USER_VMA_END = 0x0000800000000000"

record vm_area =
  area_start :: u64
  area_end :: u64
  area_flags :: u32
  area_next :: ptr

text \<open>Areas and address spaces are named by their index in the static pools.\<close>

record mm_struct =
  pgd :: ptr
  vma_list :: ptr
  total_vm :: u64
  mm_users :: int
  start_code :: u64
  end_code :: u64
  start_data :: u64
  end_data :: u64
  start_brk :: u64
  brk :: u64
  start_stack :: u64
  arg_start :: u64
  arg_end :: u64
  env_start :: u64
  env_end :: u64

record vmm =
  pmem :: "addr \<Rightarrow> u64"
  kernel_pgd :: addr
  early_tables :: addr
  early_table_index :: nat
  mm_pool :: "nat \<Rightarrow> mm_struct"
  mm_index :: nat
  vma_pool :: "nat \<Rightarrow> vm_area"
  vma_index :: nat
  mair_el1 :: u64
  tcr_el1 :: u64
  ttbr0_el1 :: u64
  ttbr1_el1 :: u64
  sctlr_el1 :: u64
  frames :: pmm

section \<open>Entries\<close>

definition pte_index :: "u64 \<Rightarrow> nat \<Rightarrow> int" where
  "pte_index vaddr level =
     (if level \<le> 3
      then let shift = (if level = 0 then VMM_LEVEL0_SHIFT else if level = 1 then VMM_LEVEL1_SHIFT
                        else if level = 2 then VMM_LEVEL2_SHIFT else VMM_LEVEL3_SHIFT)
           in uint (drop_bit shift vaddr AND (of_nat VMM_ENTRIES - 1))
      else - 1)"

text \<open>The address of \<open>table[idx]\<close>.\<close>

definition pte_addr :: "addr \<Rightarrow> int \<Rightarrow> addr" where
  "pte_addr table idx = table + 8 * nat idx"

definition pte_is_valid :: "u64 \<Rightarrow> bool" where
  "pte_is_valid pte \<longleftrightarrow> pte AND PTE_VALID \<noteq> 0"

definition pte_is_table :: "u64 \<Rightarrow> bool" where
  "pte_is_table pte \<longleftrightarrow> pte AND (PTE_VALID OR PTE_TABLE) = PTE_VALID OR PTE_TABLE"

definition pte_to_phys :: "u64 \<Rightarrow> u64" where
  "pte_to_phys pte = pte AND PTE_ADDR_MASK"

definition phys_to_pte :: "u64 \<Rightarrow> u64 \<Rightarrow> u64" where
  "phys_to_pte paddr flags = (paddr AND PTE_ADDR_MASK) OR flags"

definition vm_flags_to_pte :: "u32 \<Rightarrow> u64" where
  "vm_flags_to_pte flags =
     (let f = PTE_VALID OR PTE_TABLE OR PTE_ACCESSED;
          f = (if flags AND VM_DEVICE \<noteq> 0 then f OR (PTE_ATTR_DEVICE OR PTE_SH_NONE)
               else f OR (PTE_ATTR_NORMAL OR PTE_SH_INNER));
          f = (if flags AND VM_USER \<noteq> 0 then f OR PTE_USER else f);
          f = (if \<not> flags AND VM_WRITE \<noteq> 0 then f OR PTE_RDONLY else f)
      in if \<not> flags AND VM_EXEC \<noteq> 0
         then if flags AND VM_USER \<noteq> 0 then f OR PTE_UXN else f OR PTE_PXN
         else f)"

section \<open>Page tables\<close>

definition clear_table :: "(addr \<Rightarrow> u64) \<Rightarrow> addr \<Rightarrow> nat list \<Rightarrow> addr \<Rightarrow> u64" where
  "clear_table m table is = fold (\<lambda>i m. m(table + 8 * i := 0)) is m"

definition alloc_page_table :: "vmm \<Rightarrow> (vmm \<times> ptr) option" where
  "alloc_page_table s =
     (if early_table_index s < EARLY_TABLES_COUNT
      then let table = early_tables s + PAGE_SIZE * early_table_index s
           in Some (s\<lparr>early_table_index := early_table_index s + 1,
                      pmem := clear_table (pmem s) table [0..<VMM_ENTRIES]\<rparr>, Some table)
      else do {
        (f, paddr) \<leftarrow> pmm_alloc_page (frames s);
        let s = s\<lparr>frames := f\<rparr>;
        if paddr = 0 then Some (s, None)
        else Some (s\<lparr>pmem := clear_table (pmem s) paddr [0..<VMM_ENTRIES]\<rparr>, Some paddr)
      })"

fun walk_levels :: "vmm \<Rightarrow> u64 \<Rightarrow> bool \<Rightarrow> nat list \<Rightarrow> addr \<Rightarrow> (vmm \<times> ptr) option" where
  "walk_levels s vaddr allocate [] table = Some (s, Some table)"
| "walk_levels s vaddr allocate (level # levels) table =
     (let e = pte_addr table (pte_index vaddr level);
          pte = pmem s e
      in if \<not> pte_is_valid pte
         then if \<not> allocate then Some (s, None)
              else do {
                (s, new_table) \<leftarrow> alloc_page_table s;
                case new_table of
                  None \<Rightarrow> Some (s, None)
                | Some t \<Rightarrow>
                    walk_levels (s\<lparr>pmem := (pmem s)(e := phys_to_pte (of_nat t) (PTE_VALID OR PTE_TABLE))\<rparr>)
                      vaddr allocate levels t
              }
         else if pte_is_table pte
         then walk_levels s vaddr allocate levels (unat (pte_to_phys pte))
         else Some (s, None))"

definition walk_page_table :: "vmm \<Rightarrow> addr \<Rightarrow> u64 \<Rightarrow> bool \<Rightarrow> (vmm \<times> ptr) option" where
  "walk_page_table s root vaddr allocate = walk_levels s vaddr allocate [0, 1, 2] root"

section \<open>The kernel address space\<close>

definition ram_blocks :: "nat \<Rightarrow> nat" where
  "ram_blocks detected_memory =
     (let ram_block_size = 2 ^ VMM_LEVEL1_SHIFT;
          n = detected_memory div ram_block_size;
          n = (if detected_memory mod ram_block_size \<noteq> 0 then n + 1 else n);
          n = (if n = 0 then 1 else n)
      in if n > 4 then 4 else n)"

definition ram_block_pte :: "nat \<Rightarrow> u64" where
  "ram_block_pte i =
     ((0x40000000 + of_nat i * push_bit VMM_LEVEL1_SHIFT 1) AND PTE_ADDR_MASK) OR
     PTE_VALID OR PTE_BLOCK OR PTE_ATTR_NORMAL OR PTE_SH_INNER OR PTE_ACCESSED"

definition device_block_pte :: "u64 \<Rightarrow> u64" where
  "device_block_pte base =
     (base AND PTE_ADDR_MASK) OR PTE_VALID OR PTE_BLOCK OR PTE_ATTR_DEVICE OR PTE_SH_NONE OR PTE_ACCESSED"

definition vmm_mair :: u64 where
  "vmm_mair = push_bit 0 0xFF OR push_bit 8 0x00 OR push_bit 16 0x44"

definition vmm_tcr :: u64 where
  "vmm_tcr = push_bit 0 16 OR push_bit 16 16 OR push_bit 14 0 OR push_bit 30 2 OR push_bit 8 1 OR
     push_bit 10 1 OR push_bit 12 3 OR push_bit 24 1 OR push_bit 26 1 OR push_bit 28 3 OR push_bit 32 5"

definition vmm_init :: "vmm \<Rightarrow> (vmm \<times> int) option" where
  "vmm_init s =
     (let n = ram_blocks (pmm_get_total_memory (frames s));
          s = s\<lparr>mair_el1 := vmm_mair, tcr_el1 := vmm_tcr\<rparr>
      in do {
        (s, l1_table) \<leftarrow> alloc_page_table s;
        case l1_table of
          None \<Rightarrow> Some (s, - 1)
        | Some t \<Rightarrow>
            let m = (pmem s)(pte_addr (kernel_pgd s) (pte_index 0 0) :=
                      phys_to_pte (of_nat t) (PTE_VALID OR PTE_TABLE));
                m = m(pte_addr t 0 := device_block_pte 0);
                m = fold (\<lambda>i m. m(pte_addr t (1 + int i) := ram_block_pte i)) [0..<n] m;
                m = m(pte_addr t 256 := device_block_pte 0x4000000000)
            in Some (s\<lparr>pmem := m, ttbr0_el1 := of_nat (kernel_pgd s), ttbr1_el1 := of_nat (kernel_pgd s),
                        sctlr_el1 := sctlr_el1 s OR push_bit 0 1 OR push_bit 2 1 OR push_bit 12 1\<rparr>, 0)
      })"

definition vmm_map_page :: "vmm \<Rightarrow> u64 \<Rightarrow> u64 \<Rightarrow> u32 \<Rightarrow> (vmm \<times> int) option" where
  "vmm_map_page s vaddr paddr flags = do {
     (s, pte_table) \<leftarrow> walk_page_table s (kernel_pgd s) vaddr True;
     case pte_table of
       None \<Rightarrow> Some (s, - 1)
     | Some t \<Rightarrow>
         let e = pte_addr t (pte_index vaddr 3)
         in if pte_is_valid (pmem s e) then Some (s, - 1)
            else Some (s\<lparr>pmem := (pmem s)(e := phys_to_pte paddr (vm_flags_to_pte flags))\<rparr>, 0)
   }"

definition vmm_unmap_page :: "vmm \<Rightarrow> u64 \<Rightarrow> (vmm \<times> int) option" where
  "vmm_unmap_page s vaddr = do {
     (s, pte_table) \<leftarrow> walk_page_table s (kernel_pgd s) vaddr False;
     case pte_table of
       None \<Rightarrow> Some (s, - 1)
     | Some t \<Rightarrow>
         let e = pte_addr t (pte_index vaddr 3)
         in if \<not> pte_is_valid (pmem s e) then Some (s, - 1)
            else Some (s\<lparr>pmem := (pmem s)(e := 0)\<rparr>, 0)
   }"

definition PAGE_ALIGN :: "u64 \<Rightarrow> u64" where
  "PAGE_ALIGN x = (x + 4096 - 1) AND NOT (4096 - 1)"

definition PAGE_ALIGN_DOWN :: "u64 \<Rightarrow> u64" where
  "PAGE_ALIGN_DOWN x = x AND NOT (4096 - 1)"

partial_function (option) unmap_loop :: "vmm \<Rightarrow> u64 \<Rightarrow> u64 \<Rightarrow> u64 \<Rightarrow> vmm option" where
  "unmap_loop s vaddr sz offset =
     (if offset < sz
      then do {
        (s, ret) \<leftarrow> vmm_unmap_page s (vaddr + offset);
        unmap_loop s vaddr sz (offset + 4096)
      }
      else Some s)"

definition vmm_unmap_range :: "vmm \<Rightarrow> u64 \<Rightarrow> u64 \<Rightarrow> (vmm \<times> int) option" where
  "vmm_unmap_range s vaddr sz = do {
     s \<leftarrow> unmap_loop s (PAGE_ALIGN_DOWN vaddr) (PAGE_ALIGN sz) 0;
     Some (s, 0)
   }"

partial_function (option) map_loop :: "vmm \<Rightarrow> u64 \<Rightarrow> u64 \<Rightarrow> u64 \<Rightarrow> u32 \<Rightarrow> u64 \<Rightarrow> (vmm \<times> int) option" where
  "map_loop s vaddr paddr sz flags offset =
     (if offset < sz
      then do {
        (s, ret) \<leftarrow> vmm_map_page s (vaddr + offset) (paddr + offset) flags;
        if ret < 0
        then do {
          (s, _) \<leftarrow> vmm_unmap_range s vaddr offset;
          Some (s, ret)
        }
        else map_loop s vaddr paddr sz flags (offset + 4096)
      }
      else Some (s, 0))"

definition vmm_map_range :: "vmm \<Rightarrow> u64 \<Rightarrow> u64 \<Rightarrow> u64 \<Rightarrow> u32 \<Rightarrow> (vmm \<times> int) option" where
  "vmm_map_range s vaddr paddr sz flags =
     map_loop s (PAGE_ALIGN_DOWN vaddr) (PAGE_ALIGN_DOWN paddr) (PAGE_ALIGN sz) flags 0"

definition vmm_virt_to_phys :: "vmm \<Rightarrow> u64 \<Rightarrow> u64 option" where
  "vmm_virt_to_phys s vaddr = do {
     (s, pte_table) \<leftarrow> walk_page_table s (kernel_pgd s) vaddr False;
     case pte_table of
       None \<Rightarrow> Some 0
     | Some t \<Rightarrow>
         let pte = pmem s (pte_addr t (pte_index vaddr 3))
         in if \<not> pte_is_valid pte then Some 0
            else Some (pte_to_phys pte OR (vaddr AND (4096 - 1)))
   }"

section \<open>User address spaces\<close>

definition vmm_create_address_space :: "vmm \<Rightarrow> (vmm \<times> ptr) option" where
  "vmm_create_address_space s =
     (if mm_index s \<ge> 64 then Some (s, None)
      else let mm = mm_index s; s = s\<lparr>mm_index := mm + 1\<rparr>
      in do {
        (s, t) \<leftarrow> alloc_page_table s;
        let s = s\<lparr>mm_pool := (mm_pool s)(mm := (mm_pool s mm)\<lparr>pgd := t\<rparr>)\<rparr>;
        case t of
          None \<Rightarrow> Some (s, None)
        | Some t \<Rightarrow>
            let s = s\<lparr>mm_pool := (mm_pool s)(mm := (mm_pool s mm)\<lparr>vma_list := None, total_vm := 0,
                        mm_users := 1\<rparr>)\<rparr>
            in Some (s\<lparr>pmem := fold (\<lambda>i m. m(t + 8 * i := m (kernel_pgd s + 8 * i)))
                         [VMM_ENTRIES div 2..<VMM_ENTRIES] (pmem s)\<rparr>, Some mm)
      })"

text \<open>The loop over the areas of an address space that is destroyed has no effect.\<close>

definition vmm_destroy_address_space :: "vmm \<Rightarrow> ptr \<Rightarrow> vmm" where
  "vmm_destroy_address_space s mm =
     (case mm of
        None \<Rightarrow> s
      | Some k \<Rightarrow>
          let s = (case pgd (mm_pool s k) of
                     None \<Rightarrow> s
                   | Some t \<Rightarrow> s\<lparr>pmem := clear_table (pmem s) t [0..<VMM_ENTRIES div 2]\<rparr>)
          in s\<lparr>mm_pool := (mm_pool s)(k := (mm_pool s k)\<lparr>pgd := None, vma_list := None\<rparr>)\<rparr>)"

text \<open>One level of \<open>vmm_map_user_page\<close>: the table that entry \<open>idx\<close> of a table points to, made if needed.\<close>

definition user_level :: "vmm \<Rightarrow> addr \<Rightarrow> u64 \<Rightarrow> nat \<Rightarrow> (vmm \<times> ptr) option" where
  "user_level s table vaddr shift =
     (let e = table + 8 * unat (drop_bit shift vaddr AND (of_nat VMM_ENTRIES - 1))
      in do {
        (s, ok) \<leftarrow>
          (if pmem s e AND PTE_VALID = 0
           then do {
             (s, new_table) \<leftarrow> alloc_page_table s;
             case new_table of
               None \<Rightarrow> Some (s, False)
             | Some t \<Rightarrow>
                 Some (s\<lparr>pmem := (pmem s)(e := (of_nat t AND PTE_ADDR_MASK) OR PTE_VALID OR PTE_TABLE)\<rparr>, True)
           }
           else Some (s, True));
        Some (s, if ok then Some (unat (pmem s e AND PTE_ADDR_MASK)) else None)
      })"

definition user_pte_flags :: "u32 \<Rightarrow> u64" where
  "user_pte_flags flags =
     (let f = PTE_VALID OR PTE_PAGE OR PTE_USER OR PTE_ATTR_NORMAL OR PTE_SH_INNER OR PTE_ACCESSED;
          f = (if \<not> flags AND VM_WRITE \<noteq> 0 then f OR PTE_RDONLY else f);
          f = (if \<not> flags AND VM_EXEC \<noteq> 0 then f OR PTE_UXN else f)
      in f OR PTE_PXN)"

definition vmm_map_user_page :: "vmm \<Rightarrow> ptr \<Rightarrow> u64 \<Rightarrow> u64 \<Rightarrow> u32 \<Rightarrow> (vmm \<times> int) option" where
  "vmm_map_user_page s mm vaddr paddr flags =
     (case mm of
        None \<Rightarrow> Some (s, - 1)
      | Some k \<Rightarrow>
          (case pgd (mm_pool s k) of
             None \<Rightarrow> Some (s, - 1)
           | Some l0 \<Rightarrow>
               if vaddr \<ge> USER_VMA_END then Some (s, - 1)
               else do {
                 (s, l1) \<leftarrow> user_level s l0 vaddr VMM_LEVEL0_SHIFT;
                 case l1 of None \<Rightarrow> Some (s, - 1) | Some l1 \<Rightarrow> do {
                   (s, l2) \<leftarrow> user_level s l1 vaddr VMM_LEVEL1_SHIFT;
                   case l2 of None \<Rightarrow> Some (s, - 1) | Some l2 \<Rightarrow> do {
                     (s, l3) \<leftarrow> user_level s l2 vaddr VMM_LEVEL2_SHIFT;
                     case l3 of None \<Rightarrow> Some (s, - 1) | Some l3 \<Rightarrow>
                       Some (s\<lparr>pmem := (pmem s)
                           (l3 + 8 * unat (drop_bit VMM_LEVEL3_SHIFT vaddr AND (of_nat VMM_ENTRIES - 1)) :=
                              (paddr AND PTE_ADDR_MASK) OR user_pte_flags flags)\<rparr>, 0)
                   }
                 }
               }))"

definition vmm_add_vma :: "vmm \<Rightarrow> ptr \<Rightarrow> u64 \<Rightarrow> u64 \<Rightarrow> u32 \<Rightarrow> vmm \<times> int" where
  "vmm_add_vma s mm start stop flags =
     (case mm of
        None \<Rightarrow> (s, - 1)
      | Some k \<Rightarrow>
          if vma_index s \<ge> 256 then (s, - 1)
          else let v = vma_index s; m = mm_pool s k
               in (s\<lparr>vma_index := v + 1,
                     vma_pool := (vma_pool s)(v := \<lparr>area_start = start, area_end = stop,
                       area_flags = flags, area_next = vma_list m\<rparr>),
                     mm_pool := (mm_pool s)(k := m\<lparr>vma_list := Some v,
                       total_vm := total_vm m + (stop - start)\<rparr>)\<rparr>, 0))"

partial_function (option) find_vma_loop :: "(nat \<Rightarrow> vm_area) \<Rightarrow> ptr \<Rightarrow> u64 \<Rightarrow> ptr option" where
  "find_vma_loop pool vma a =
     (case vma of
        None \<Rightarrow> Some None
      | Some v \<Rightarrow>
          if a \<ge> area_start (pool v) \<and> a < area_end (pool v) then Some (Some v)
          else find_vma_loop pool (area_next (pool v)) a)"

definition vmm_find_vma :: "vmm \<Rightarrow> ptr \<Rightarrow> u64 \<Rightarrow> ptr option" where
  "vmm_find_vma s mm a =
     (case mm of
        None \<Rightarrow> Some None
      | Some k \<Rightarrow> find_vma_loop (vma_pool s) (vma_list (mm_pool s k)) a)"

partial_function (option) map_user_loop :: "vmm \<Rightarrow> ptr \<Rightarrow> u64 \<Rightarrow> u64 \<Rightarrow> u32 \<Rightarrow> (vmm \<times> int) option" where
  "map_user_loop s mm a stop flags =
     (if a < stop
      then do {
        (f, paddr) \<leftarrow> pmm_alloc_page (frames s);
        let s = s\<lparr>frames := f\<rparr>;
        if paddr = 0 then Some (s, - 1)
        else do {
          (s, ret) \<leftarrow> vmm_map_user_page s mm a (of_nat paddr) flags;
          if ret \<noteq> 0
          then do {
            f \<leftarrow> pmm_free_page (frames s) paddr;
            Some (s\<lparr>frames := f\<rparr>, ret)
          }
          else map_user_loop s mm (a + 4096) stop flags
        }
      }
      else Some (s, 0))"

definition vmm_map_user_range :: "vmm \<Rightarrow> ptr \<Rightarrow> u64 \<Rightarrow> u64 \<Rightarrow> u32 \<Rightarrow> (vmm \<times> int) option" where
  "vmm_map_user_range s mm vaddr sz flags =
     (if mm = None then Some (s, - 1)
      else let stop = (vaddr + sz + 4096 - 1) AND NOT (4096 - 1);
               vaddr = vaddr AND NOT (4096 - 1);
               s = fst (vmm_add_vma s mm vaddr stop flags)
           in map_user_loop s mm vaddr stop flags)"

definition vmm_switch_address_space :: "vmm \<Rightarrow> ptr \<Rightarrow> vmm" where
  "vmm_switch_address_space s mm =
     (case mm of
        None \<Rightarrow> s
      | Some k \<Rightarrow>
          (case pgd (mm_pool s k) of
             None \<Rightarrow> s
           | Some t \<Rightarrow> s\<lparr>ttbr0_el1 := of_nat t\<rparr>))"

end
