(* ===== verification/Vmm_Spec.thy ===== *)
theory Vmm_Spec
  imports Vmm
begin

text \<open>
  What the virtual memory manager promises: the translation that the memory management unit reads from
  the page tables. \<open>mmu_walk\<close> is the table walk of the architecture (4 KB granule, 48-bit addresses,
  blocks at levels 1 and 2); \<open>pt_wf\<close> says that the tables below a root form a tree that shares nothing
  with the memory from which new tables are taken.
\<close>

section \<open>Entries and indices\<close>

lemma bit_addr_mask [bit_simps]: "bit PTE_ADDR_MASK n \<longleftrightarrow> 12 \<le> n \<and> n < 48"
proof -
  have mask: "PTE_ADDR_MASK = push_bit 12 (mask 36)"
    by (simp add: PTE_ADDR_MASK_def mask_eq_exp_minus_1)
  show ?thesis
    unfolding mask by (auto simp: bit_simps)
qed

lemma bit_pte_consts:
  "bit PTE_VALID n \<longleftrightarrow> n = 0" "bit PTE_TABLE n \<longleftrightarrow> n = 1" "bit PTE_PAGE n \<longleftrightarrow> n = 1" "bit PTE_USER n \<longleftrightarrow> n = 6"
  "bit PTE_RDONLY n \<longleftrightarrow> n = 7" "bit PTE_ACCESSED n \<longleftrightarrow> n = 10" "bit PTE_ATTR_DEVICE n \<longleftrightarrow> n = 2"
  "bit PTE_SH_INNER n \<longleftrightarrow> n = 8 \<or> n = 9" "bit PTE_UXN n \<longleftrightarrow> n = 54" "bit PTE_PXN n \<longleftrightarrow> n = 53"
  "PTE_BLOCK = 0" "PTE_ATTR_NORMAL = 0" "PTE_SH_NONE = 0"
proof -
  have "(3 :: u64) = 1 OR push_bit 1 1" by simp
  then have three: "bit (push_bit 8 3 :: u64) n \<longleftrightarrow> n = 8 \<or> n = 9"
    unfolding bit_push_bit_iff by (simp only: bit_or_iff bit_push_bit_iff) (auto simp: bit_1_iff)
  show "bit PTE_SH_INNER n \<longleftrightarrow> n = 8 \<or> n = 9"
    using three by (simp only: PTE_SH_INNER_def)
qed (auto simp only: PTE_VALID_def PTE_TABLE_def PTE_BLOCK_def PTE_PAGE_def PTE_USER_def PTE_RDONLY_def
  PTE_ACCESSED_def PTE_ATTR_NORMAL_def PTE_ATTR_DEVICE_def PTE_SH_NONE_def PTE_UXN_def PTE_PXN_def
  bit_push_bit_iff bit_1_iff push_bit_of_0, auto)

lemma pte_is_valid_bit: "pte_is_valid pte \<longleftrightarrow> bit pte 0"
  by (simp add: pte_is_valid_def PTE_VALID_def and_one_eq mod_2_eq_odd bit_0)

lemma bit_table_flags: "bit (PTE_VALID OR PTE_TABLE) n \<longleftrightarrow> n = 0 \<or> n = 1"
  unfolding PTE_VALID_def PTE_TABLE_def bit_or_iff bit_push_bit_iff by (auto simp: bit_1_iff)

lemma pte_is_table_bit: "pte_is_table pte \<longleftrightarrow> bit pte 0 \<and> bit pte 1"
proof
  assume "pte_is_table pte"
  then have "bit (pte AND (PTE_VALID OR PTE_TABLE)) n = bit (PTE_VALID OR PTE_TABLE) n" for n
    by (simp add: pte_is_table_def)
  from this [of 0] this [of 1] show "bit pte 0 \<and> bit pte 1"
    unfolding bit_and_iff bit_table_flags by simp
next
  assume "bit pte 0 \<and> bit pte 1"
  then show "pte_is_table pte"
    unfolding pte_is_table_def by (intro bit_eqI) (auto simp: bit_and_iff bit_table_flags)
qed

lemma pte_is_table_valid: "pte_is_table pte \<Longrightarrow> pte_is_valid pte"
  by (simp add: pte_is_table_bit pte_is_valid_bit)

lemma pte_zero [simp]: "\<not> pte_is_valid 0" "\<not> pte_is_table 0"
  by (simp_all add: pte_is_table_bit pte_is_valid_bit)

text \<open>A table that an entry can point to.\<close>

definition table_ok :: "addr \<Rightarrow> bool" where
  "table_ok t \<longleftrightarrow> 4096 dvd t \<and> t < 2 ^ 48"

lemma table_ok_mask:
  assumes "table_ok t"
  shows "of_nat t AND PTE_ADDR_MASK = of_nat t"
proof -
  from assms obtain j where j: "t = 4096 * j" "t < 2 ^ 48"
    by (auto simp: table_ok_def)
  have "take_bit 48 t = t"
    using j(2) by (simp add: take_bit_nat_eq_self)
  then have high: "bit t n \<Longrightarrow> n < 48" for n
    by (metis bit_take_bit_iff)
  have "t = push_bit 12 j"
    by (simp add: j(1) push_bit_eq_mult mult.commute)
  then have low: "bit t n \<Longrightarrow> 12 \<le> n" for n
    by (simp add: bit_push_bit_iff)
  show ?thesis
    by (rule bit_eqI) (auto simp: bit_simps dest: high low)
qed

lemma phys_to_pte_table:
  assumes "table_ok t"
  shows "pte_is_table (phys_to_pte (of_nat t) (PTE_VALID OR PTE_TABLE))"
    and "unat (pte_to_phys (phys_to_pte (of_nat t) (PTE_VALID OR PTE_TABLE))) = t"
proof -
  show "pte_is_table (phys_to_pte (of_nat t) (PTE_VALID OR PTE_TABLE))"
    unfolding pte_is_table_bit phys_to_pte_def bit_or_iff [of "_ AND _"] bit_table_flags by simp
  have "pte_to_phys (phys_to_pte (of_nat t) (PTE_VALID OR PTE_TABLE)) = of_nat t AND PTE_ADDR_MASK"
    unfolding pte_to_phys_def phys_to_pte_def
    by (rule bit_eqI) (auto simp: bit_and_iff bit_or_iff [of "_ AND _"] bit_table_flags bit_addr_mask)
  then show "unat (pte_to_phys (phys_to_pte (of_nat t) (PTE_VALID OR PTE_TABLE))) = t"
    using assms by (simp add: table_ok_mask u64_unat_of_nat table_ok_def)
qed

text \<open>The page of a virtual address, and the indices at the four levels.\<close>

type_synonym vpage = "36 word"

definition vpage_of :: "u64 \<Rightarrow> vpage" where
  "vpage_of vaddr = ucast (drop_bit 12 vaddr)"

definition level_index :: "vpage \<Rightarrow> nat \<Rightarrow> nat" where
  "level_index k l = unat (take_bit 9 (drop_bit (27 - 9 * l) k))"

definition path :: "vpage \<Rightarrow> nat list" where
  "path k = map (level_index k) [0..<4]"

lemma path_simps: "path k = [level_index k 0, level_index k 1, level_index k 2, level_index k 3]"
  by (simp add: path_def upt_rec numeral_2_eq_2 numeral_3_eq_3)

lemma length_path [simp]: "length (path k) = 4"
  by (simp add: path_def)

lemma level_index_less [simp]: "level_index k l < 512"
  using take_bit_nat_less_exp [of 9 "unat (drop_bit (27 - 9 * l) k)"]
  by (simp add: level_index_def unsigned_take_bit_eq)

lemma set_path [simp]: "set (path k) \<subseteq> {..<512}"
  by (auto simp: path_def)

lemma unat_pte_index:
  assumes "l \<le> 3" and "shift = 39 - 9 * l"
  shows "unat (drop_bit shift vaddr AND (of_nat VMM_ENTRIES - 1)) = level_index (vpage_of vaddr) l"
proof -
  have mask: "(of_nat VMM_ENTRIES - 1 :: u64) = mask 9"
    by (simp add: VMM_ENTRIES_def mask_eq_exp_minus_1)
  have "bit (unat (drop_bit shift vaddr AND (of_nat VMM_ENTRIES - 1))) n = bit (level_index (vpage_of vaddr) l) n" for n
    using assms unfolding mask level_index_def vpage_of_def
    by (auto simp: bit_simps algebra_simps)
  then show ?thesis
    by (simp add: bit_eq_iff)
qed

lemma pte_index_level: "l \<le> 3 \<Longrightarrow> nat (pte_index vaddr l) = level_index (vpage_of vaddr) l"
  using unat_pte_index [of l "39 - 9 * l" vaddr]
  by (auto simp: pte_index_def Let_def VMM_LEVEL0_SHIFT_def VMM_LEVEL1_SHIFT_def VMM_LEVEL2_SHIFT_def
      VMM_LEVEL3_SHIFT_def le_Suc_eq numeral_3_eq_3 numeral_2_eq_2)

lemma pte_addr_level: "l \<le> 3 \<Longrightarrow> pte_addr t (pte_index vaddr l) = t + 8 * level_index (vpage_of vaddr) l"
  by (simp add: pte_addr_def pte_index_level)

lemma path_inj: "path k = path k' \<longleftrightarrow> k = k'"
proof
  assume eq: "path k = path k'"
  have "bit k n = bit k' n" if "n < 36" for n
  proof -
    define l where "l = 3 - n div 9"
    have "n div 9 < 4"
      using that by auto
    then have l: "l < 4" and n: "27 - 9 * l = n div 9 * 9"
      by (auto simp: l_def)
    from eq l have "level_index k l = level_index k' l"
      by (auto simp: path_def)
    then have "take_bit 9 (drop_bit (n div 9 * 9) k) = take_bit 9 (drop_bit (n div 9 * 9) k')"
      unfolding level_index_def n by (rule unsigned_word_eqI)
    then have "bit (take_bit 9 (drop_bit (n div 9 * 9) k)) (n mod 9) =
        bit (take_bit 9 (drop_bit (n div 9 * 9) k')) (n mod 9)"
      by simp
    then show ?thesis
      by (simp add: bit_take_bit_iff bit_drop_bit_eq)
  qed
  then show "k = k'"
    by (simp add: bit_eq_iff)
qed simp

section \<open>The table walk of the architecture\<close>

text \<open>
  A page descriptor is found at the last level, a block of 2 MB or 1 GB one or two levels above; the
  number says how many levels above the last one the descriptor stands.
\<close>

fun mmu_walk :: "(addr \<Rightarrow> u64) \<Rightarrow> addr \<Rightarrow> nat list \<Rightarrow> (nat \<times> u64) option" where
  "mmu_walk m t [] = None"
| "mmu_walk m t [i] = (if pte_is_table (m (t + 8 * i)) then Some (0, m (t + 8 * i)) else None)"
| "mmu_walk m t (i # j # is) =
     (let pte = m (t + 8 * i)
      in if pte_is_table pte then mmu_walk m (unat (pte_to_phys pte)) (j # is)
         else if pte_is_valid pte \<and> length is < 2 then Some (length is + 1, pte) else None)"

definition mmu_lookup :: "(addr \<Rightarrow> u64) \<Rightarrow> addr \<Rightarrow> vpage \<Rightarrow> (nat \<times> u64) option" where
  "mmu_lookup m root k = mmu_walk m root (path k)"

text \<open>The physical address for a virtual one.\<close>

definition mmu_translate :: "(addr \<Rightarrow> u64) \<Rightarrow> addr \<Rightarrow> u64 \<Rightarrow> u64 option" where
  "mmu_translate m root vaddr =
     map_option (\<lambda>(k, pte). (pte AND PTE_ADDR_MASK AND NOT (mask (12 + 9 * k))) OR (vaddr AND mask (12 + 9 * k)))
       (mmu_lookup m root (vpage_of vaddr))"

text \<open>The table at the end of a path of indices, and the entries that following the path reads.\<close>

fun table_at :: "(addr \<Rightarrow> u64) \<Rightarrow> addr \<Rightarrow> nat list \<Rightarrow> addr option" where
  "table_at m t [] = Some t"
| "table_at m t (i # is) =
     (if pte_is_table (m (t + 8 * i)) then table_at m (unat (pte_to_phys (m (t + 8 * i)))) is else None)"

fun reads :: "(addr \<Rightarrow> u64) \<Rightarrow> addr \<Rightarrow> nat list \<Rightarrow> addr set" where
  "reads m t [] = {}"
| "reads m t (i # is) = insert (t + 8 * i)
     (if pte_is_table (m (t + 8 * i)) then reads m (unat (pte_to_phys (m (t + 8 * i)))) is else {})"

lemma walk_cong:
  "(\<And>a. a \<in> reads m t p \<Longrightarrow> m' a = m a) \<Longrightarrow> table_at m' t p = table_at m t p"
  "(\<And>a. a \<in> reads m t p \<Longrightarrow> m' a = m a) \<Longrightarrow> mmu_walk m' t p = mmu_walk m t p"
proof -
  show "table_at m' t p = table_at m t p" if "\<And>a. a \<in> reads m t p \<Longrightarrow> m' a = m a"
    using that by (induction p arbitrary: t) simp_all
  show "mmu_walk m' t p = mmu_walk m t p" if "\<And>a. a \<in> reads m t p \<Longrightarrow> m' a = m a"
    using that by (induction m t p rule: mmu_walk.induct) (simp_all add: Let_def)
qed

lemma in_reads:
  "a \<in> reads m t p \<Longrightarrow> \<exists>k u. k < length p \<and> table_at m t (take k p) = Some u \<and> a = u + 8 * p ! k"
proof (induction p arbitrary: t)
  case (Cons i p)
  show ?case
  proof (cases "a = t + 8 * i")
    case True
    then have "0 < length (i # p) \<and> table_at m t (take 0 (i # p)) = Some t \<and> a = t + 8 * (i # p) ! 0"
      by simp
    then show ?thesis by blast
  next
    case False
    with Cons.prems have tab: "pte_is_table (m (t + 8 * i))"
      and "a \<in> reads m (unat (pte_to_phys (m (t + 8 * i)))) p"
      by (auto split: if_splits)
    from Cons.IH [OF this(2)] obtain k u where "k < length p"
        "table_at m (unat (pte_to_phys (m (t + 8 * i)))) (take k p) = Some u" "a = u + 8 * p ! k"
      by blast
    with tab have "Suc k < length (i # p) \<and> table_at m t (take (Suc k) (i # p)) = Some u \<and> a = u + 8 * (i # p) ! Suc k"
      by simp
    then show ?thesis by blast
  qed
qed simp

lemma table_at_append:
  "table_at m t (p @ q) = (case table_at m t p of None \<Rightarrow> None | Some u \<Rightarrow> table_at m u q)"
  by (induction p arbitrary: t) simp_all

lemma mmu_walk_append:
  "table_at m t p = Some u \<Longrightarrow> q \<noteq> [] \<Longrightarrow> mmu_walk m t (p @ q) = mmu_walk m u q"
proof (induction p arbitrary: t)
  case (Cons i p)
  then obtain j r where "p @ q = j # r"
    by (cases "p @ q") auto
  with Cons show ?case
    by (auto simp: Let_def split: if_splits)
qed simp

section \<open>Trees of tables\<close>

definition indices :: "nat list \<Rightarrow> bool" where
  "indices p \<longleftrightarrow> length p \<le> 3 \<and> set p \<subseteq> {..<512}"

text \<open>
  The tables below \<open>root\<close> are distinct, can be pointed to, and are none of the addresses \<open>P\<close> where
  new tables will stand.
\<close>

definition pt_wf :: "(addr \<Rightarrow> u64) \<Rightarrow> addr \<Rightarrow> addr set \<Rightarrow> bool" where
  "pt_wf m root P \<longleftrightarrow>
     (\<forall>p t. indices p \<and> table_at m root p = Some t \<longrightarrow> table_ok t \<and> t \<notin> P \<and>
       (\<forall>q. indices q \<and> table_at m root q = Some t \<longrightarrow> q = p)) \<and> (\<forall>t \<in> P. table_ok t)"

lemma pt_wfD:
  assumes "pt_wf m root P" and "indices p" and "table_at m root p = Some t"
  shows "table_ok t" and "t \<notin> P" and "indices q \<Longrightarrow> table_at m root q = Some t \<Longrightarrow> q = p"
  using assms unfolding pt_wf_def by blast+

lemma entry_eq_iff:
  assumes "table_ok t" and "table_ok u" and "i < 512" and "j < 512"
  shows "t + 8 * i = u + 8 * j \<longleftrightarrow> t = u \<and> i = j"
proof
  assume eq: "t + 8 * i = u + 8 * j"
  obtain x y where xy: "t = 4096 * x" "u = 4096 * y"
    using assms(1,2) unfolding table_ok_def by (blast elim: dvdE)
  have "(4096 * x + 8 * i) div 4096 = x" "(4096 * y + 8 * j) div 4096 = y"
    using assms(3,4) by simp_all
  with eq show "t = u \<and> i = j"
    by (simp add: xy)
qed simp

lemma clear_table_eq:
  "clear_table m t [0..<n] a = (if \<exists>i < n. a = t + 8 * i then 0 else m a)"
  by (induction n) (auto simp: clear_table_def less_Suc_eq)

lemma indices_take: "set p \<subseteq> {..<512} \<Longrightarrow> k \<le> 3 \<Longrightarrow> indices (take k p)"
  by (auto simp: indices_def dest: in_set_takeD)

text \<open>The entries read along a path are entries of tables of the tree.\<close>

lemma reads_tree:
  assumes wf: "pt_wf m root P" and p: "set p \<subseteq> {..<512}" "length p \<le> 4" and "a \<in> reads m root p"
  obtains k u where "k < length p" "table_at m root (take k p) = Some u" "table_ok u" "u \<notin> P"
    "a = u + 8 * p ! k" "p ! k < 512" "indices (take k p)"
proof -
  from in_reads [OF assms(4)] obtain k u where
    k: "k < length p" "table_at m root (take k p) = Some u" "a = u + 8 * p ! k"
    by blast
  have "indices (take k p)"
    using k(1) p by (intro indices_take) auto
  moreover from pt_wfD(1,2) [OF wf this k(2)] have "table_ok u" "u \<notin> P" .
  moreover have "p ! k < 512"
    using k(1) p(1) nth_mem by fastforce
  ultimately show thesis
    using that k by blast
qed

text \<open>Writing an entry of a table that no path reads, and writing a new table, changes no path.\<close>

lemma untouched_paths:
  assumes wf: "pt_wf m root P" and t: "table_at m root p = Some t" "indices p" "i < 512"
    and new: "\<forall>a. m' a \<noteq> m a \<longrightarrow> a = t + 8 * i \<or> (\<exists>u \<in> P. \<exists>j < 512. a = u + 8 * j)"
    and q: "set q \<subseteq> {..<512}" "length q \<le> 4" "take (Suc (length p)) q \<noteq> p @ [i]"
  shows "table_at m' root q = table_at m root q" and "mmu_walk m' root q = mmu_walk m root q"
proof -
  have "m' a = m a" if a: "a \<in> reads m root q" for a
  proof (rule ccontr)
    assume neq: "m' a \<noteq> m a"
    from reads_tree [OF wf q(1,2) a] obtain k u where
      k: "k < length q" "table_at m root (take k q) = Some u" "table_ok u" "u \<notin> P" "a = u + 8 * q ! k"
        "q ! k < 512" "indices (take k q)"
      by blast
    from new neq have "a = t + 8 * i \<or> (\<exists>u \<in> P. \<exists>j < 512. a = u + 8 * j)" by blast
    then show False
    proof
      assume "a = t + 8 * i"
      then have "t = u \<and> q ! k = i"
        using entry_eq_iff [of u t "q ! k" i] k(3,5,6) t pt_wfD(1) [OF wf t(2,1)] by auto
      then have "take k q = p" "q ! k = i"
        using pt_wfD(3) [OF wf t(2,1) k(7)] k(2) by auto
      with q(3) k(1) show False
        by (metis length_take min.absorb4 take_Suc_conv_app_nth)
    next
      assume "\<exists>u' \<in> P. \<exists>j < 512. a = u' + 8 * j"
      then obtain u' j where "u' \<in> P" "j < 512" "a = u' + 8 * j" by blast
      moreover have "table_ok u'"
        using wf \<open>u' \<in> P\<close> by (simp add: pt_wf_def)
      ultimately have "u = u'"
        using entry_eq_iff [of u u' "q ! k" j] k(3,5,6) by auto
      with k(4) \<open>u' \<in> P\<close> show False by blast
    qed
  qed
  then show "table_at m' root q = table_at m root q" and "mmu_walk m' root q = mmu_walk m root q"
    using walk_cong by blast+
qed

text \<open>A new, empty table below an entry that is not in use.\<close>

definition install :: "(addr \<Rightarrow> u64) \<Rightarrow> addr \<Rightarrow> nat \<Rightarrow> addr \<Rightarrow> addr \<Rightarrow> u64" where
  "install m t i n = (clear_table m n [0..<512])(t + 8 * i := phys_to_pte (of_nat n) (PTE_VALID OR PTE_TABLE))"

lemma install_tree:
  assumes wf: "pt_wf m root P" and t: "table_at m root p = Some t" "indices p" "length p < 3" "i < 512"
    and free: "\<not> pte_is_valid (m (t + 8 * i))" and n: "n \<in> P"
  shows "table_at (install m t i n) root (p @ [i]) = Some n"
    and "pt_wf (install m t i n) root (P - {n})"
    and "mmu_lookup (install m t i n) root k = mmu_lookup m root k"
    and "indices q \<Longrightarrow> table_at (install m t i n) root q = Some u \<Longrightarrow> u = n \<or> table_at m root q = Some u"
proof -
  let ?m = "install m t i n"
  have n_ok: "table_ok n" and t_ok: "table_ok t" and "t \<noteq> n"
    using wf n pt_wfD [OF wf t(2,1)] by (auto simp: pt_wf_def)
  have diff: "\<forall>a. ?m a \<noteq> m a \<longrightarrow> a = t + 8 * i \<or> (\<exists>u \<in> P. \<exists>j < 512. a = u + 8 * j)"
    using n by (auto simp: install_def clear_table_eq)
  note same = untouched_paths [OF wf t(1,2,4) diff]
  have entry: "?m (t + 8 * i) = phys_to_pte (of_nat n) (PTE_VALID OR PTE_TABLE)"
    by (simp add: install_def)
  have p: "table_at ?m root p = Some t"
    using same(1) [of p] t by (simp add: indices_def)
  have zero: "?m (n + 8 * j) = 0" if "j < 512" for j
    using entry_eq_iff [OF n_ok t_ok that t(4)] \<open>t \<noteq> n\<close> that by (auto simp: install_def clear_table_eq)
  show new: "table_at ?m root (p @ [i]) = Some n"
    by (simp add: table_at_append p entry phys_to_pte_table [OF n_ok])
  have below: "table_at ?m root (p @ i # j # r) = None" if "j < 512" for j r
    using table_at_append [of ?m root "p @ [i]" "j # r"] new zero [OF that] by simp
  have other: "table_at ?m root q = (if q = p @ [i] then Some n else if take (Suc (length p)) q = p @ [i] then None
      else table_at m root q)" if "indices q" for q
  proof (cases "take (Suc (length p)) q = p @ [i]")
    case True
    then obtain r where r: "q = p @ i # r"
      by (metis append_Cons append_Nil append_assoc append_take_drop_id)
    show ?thesis
    proof (cases r)
      case (Cons j r')
      with that r below [of j r'] show ?thesis by (simp add: indices_def)
    qed (use r new in simp)
  next
    case False
    then show ?thesis
      using same(1) [of q] that by (auto simp: indices_def)
  qed
  then show "indices q \<Longrightarrow> table_at ?m root q = Some u \<Longrightarrow> u = n \<or> table_at m root q = Some u"
    by (auto split: if_splits)
  have old: "\<not> take (Suc (length p)) q = p @ [i]" if "table_at m root q = Some u" for q u
  proof
    assume "take (Suc (length p)) q = p @ [i]"
    then obtain r where "q = p @ i # r"
      by (metis append_Cons append_Nil append_assoc append_take_drop_id)
    with that t free show False
      by (auto simp: table_at_append dest: pte_is_table_valid split: if_splits)
  qed
  show "pt_wf ?m root (P - {n})"
    unfolding pt_wf_def using pt_wfD [OF wf] other n n_ok wf [unfolded pt_wf_def] by (auto split: if_splits)
  show "mmu_lookup ?m root k = mmu_lookup m root k"
  proof (cases "take (Suc (length p)) (path k) = p @ [i]")
    case False
    then show ?thesis
      unfolding mmu_lookup_def using same(2) [of "path k"] by simp
  next
    case True
    then obtain r where r: "path k = p @ i # r"
      by (metis append_Cons append_Nil append_assoc append_take_drop_id)
    with t(3) length_path [of k] obtain j r' where r': "r = j # r'"
      by (cases r) auto
    have "j < 512"
      using set_path [of k] by (simp add: r r')
    then have "mmu_walk ?m n r = None"
      using zero r' by (cases r') (simp_all add: Let_def)
    moreover have "mmu_walk ?m root (path k) = mmu_walk ?m n r"
      using mmu_walk_append [OF new, of r] r r' by simp
    moreover have "mmu_walk m root (path k) = None"
      unfolding r using mmu_walk_append [OF t(1), of "i # r"] free r'
      by (auto simp: Let_def dest: pte_is_table_valid)
    ultimately show ?thesis
      by (simp add: mmu_lookup_def)
  qed
qed

text \<open>An entry of the last level.\<close>

lemma leaf_update:
  assumes wf: "pt_wf m root P" and t: "table_at m root p = Some t" "indices p" "length p = 3" "i < 512"
  shows "indices q \<Longrightarrow> table_at (m(t + 8 * i := x)) root q = table_at m root q"
    and "pt_wf (m(t + 8 * i := x)) root P"
    and "mmu_lookup (m(t + 8 * i := x)) root k =
      (if path k = p @ [i] then if pte_is_table x then Some (0, x) else None else mmu_lookup m root k)"
proof -
  let ?m = "m(t + 8 * i := x)"
  have "\<forall>a. ?m a \<noteq> m a \<longrightarrow> a = t + 8 * i \<or> (\<exists>u \<in> P. \<exists>j < 512. a = u + 8 * j)"
    by simp
  note same = untouched_paths [where m' = ?m, OF wf t(1,2,4) this]
  have tab: "table_at ?m root q = table_at m root q" if "indices q" for q
  proof -
    have "length (take (Suc (length p)) q) \<le> 3"
      using that by (auto simp: indices_def min_def)
    then have "take (Suc (length p)) q \<noteq> p @ [i]"
      using t(3) by auto
    then show ?thesis
      using same(1) [of q] that by (simp add: indices_def)
  qed
  then show "indices q \<Longrightarrow> table_at ?m root q = table_at m root q" .
  show "pt_wf ?m root P"
    using wf unfolding pt_wf_def by (auto simp: tab)
  show "mmu_lookup ?m root k =
      (if path k = p @ [i] then if pte_is_table x then Some (0, x) else None else mmu_lookup m root k)"
  proof (cases "path k = p @ [i]")
    case True
    then show ?thesis
      using mmu_walk_append [of ?m root p t "[i]"] tab [OF t(2)] t(1) by (simp add: mmu_lookup_def)
  next
    case False
    then have "take (Suc (length p)) (path k) \<noteq> p @ [i]"
      using t(3) by simp
    then show ?thesis
      using same(2) [of "path k"] False by (simp add: mmu_lookup_def)
  qed
qed

section \<open>The supply of new tables\<close>

definition table_pool :: "vmm \<Rightarrow> addr set" where
  "table_pool s = (\<lambda>j. early_tables s + PAGE_SIZE * j) ` {early_table_index s..<EARLY_TABLES_COUNT} \<union>
     page_addr (frames s) ` free_pages (frames s)"

definition pool_wf :: "vmm \<Rightarrow> bool" where
  "pool_wf s \<longleftrightarrow> pmm_inv (frames s) \<and> PAGE_SIZE dvd memory_start (frames s) \<and> memory_end (frames s) \<le> 2 ^ 48 \<and>
     PAGE_SIZE dvd early_tables s \<and> early_tables s + PAGE_SIZE * EARLY_TABLES_COUNT \<le> 2 ^ 48 \<and>
     (\<forall>j < EARLY_TABLES_COUNT. \<forall>k \<in> free_pages (frames s). page_addr (frames s) k \<noteq> early_tables s + PAGE_SIZE * j)"

definition space_wf :: "vmm \<Rightarrow> addr \<Rightarrow> bool" where
  "space_wf s root \<longleftrightarrow> pool_wf s \<and> pt_wf (pmem s) root (table_pool s)"

text \<open>Operations on page tables change only the memory and the supply.\<close>

definition same_rest :: "vmm \<Rightarrow> vmm \<Rightarrow> bool" where
  "same_rest s s' \<longleftrightarrow> s' = s\<lparr>early_table_index := early_table_index s', frames := frames s', pmem := pmem s'\<rparr> \<and>
     memory_start (frames s') = memory_start (frames s) \<and> total_pages (frames s') = total_pages (frames s)"

lemma same_rest_fields:
  assumes "same_rest s s'"
  shows "kernel_pgd s' = kernel_pgd s" "early_tables s' = early_tables s" "mm_pool s' = mm_pool s"
    "ttbr0_el1 s' = ttbr0_el1 s" "memory_start (frames s') = memory_start (frames s)"
    "total_pages (frames s') = total_pages (frames s)"
  using assms unfolding same_rest_def by (metis (no_types, lifting) vmm.simps vmm.surjective vmm.update_convs)+

lemma same_rest_refl: "same_rest s s"
  by (simp add: same_rest_def)

lemma same_rest_trans:
  assumes "same_rest s s1" and "same_rest s1 s2"
  shows "same_rest s s2"
  using assms unfolding same_rest_def by (cases s; cases s1; cases s2) simp

lemma same_rest_update: "same_rest s (s\<lparr>pmem := m\<rparr>)"
  by (simp add: same_rest_def)

lemma alloc_page_table_spec:
  assumes wf: "pool_wf s"
  shows "\<exists>s' r. alloc_page_table s = Some (s', r) \<and> pool_wf s' \<and> same_rest s s' \<and>
    (case r of
       None \<Rightarrow> table_pool s = {} \<and> table_pool s' = {} \<and> pmem s' = pmem s
     | Some n \<Rightarrow> n \<in> table_pool s \<and> table_pool s' = table_pool s - {n} \<and>
         pmem s' = clear_table (pmem s) n [0..<512])"
proof (cases "early_table_index s < EARLY_TABLES_COUNT")
  case True
  let ?n = "early_tables s + PAGE_SIZE * early_table_index s"
  let ?s = "s\<lparr>early_table_index := early_table_index s + 1, pmem := clear_table (pmem s) ?n [0..<VMM_ENTRIES]\<rparr>"
  have "table_pool ?s = table_pool s - {?n}"
    using wf True unfolding table_pool_def pool_wf_def by (auto simp: image_iff le_Suc_eq Suc_le_eq) force+
  moreover have "?n \<in> table_pool s"
    using True by (auto simp: table_pool_def)
  ultimately show ?thesis
    using True wf by (auto simp: alloc_page_table_def VMM_ENTRIES_def Let_def same_rest_def pool_wf_def)
next
  case False
  show ?thesis
  proof (cases "free_pages (frames s) = {}")
    case True
    then have "table_pool s = {}"
      using False by (simp add: table_pool_def)
    then show ?thesis
      using False alloc_page_none [OF _ True] wf by (simp add: alloc_page_table_def pool_wf_def same_rest_refl)
  next
    case ne: False
    let ?k = "Min (free_pages (frames s))"
    from wf have inv: "pmm_inv (frames s)"
      by (simp add: pool_wf_def)
    from alloc_page_least [OF inv ne] obtain f where
      f: "pmm_alloc_page (frames s) = Some (f, page_addr (frames s) ?k)" "pmm_inv f"
        "memory_start f = memory_start (frames s)" "total_pages f = total_pages (frames s)"
        "free_pages f = free_pages (frames s) - {?k}"
      by blast
    let ?n = "page_addr (frames s) ?k"
    let ?s = "s\<lparr>frames := f, pmem := clear_table (pmem s) ?n [0..<512]\<rparr>"
    have k: "?k \<in> free_pages (frames s)"
      using Min_in [OF finite_free_pages ne] .
    have "0 < ?n"
      using free_page_bounds [OF inv k] by simp
    then have "alloc_page_table s = Some (?s, Some ?n)"
      using False f(1) by (auto simp: alloc_page_table_def VMM_ENTRIES_def Let_def)
    moreover have "memory_end f = memory_end (frames s)"
      using inv f(2,3,4) by (simp add: pmm_inv_def pmm_range_def)
    then have "pool_wf ?s"
      using wf f(2) unfolding pool_wf_def by (simp add: f(3,5))
    moreover have pools: "table_pool s = page_addr (frames s) ` free_pages (frames s)"
        "table_pool ?s = page_addr (frames s) ` (free_pages (frames s) - {?k})"
      using False by (simp_all add: table_pool_def f(3,5))
    moreover have "table_pool ?s = table_pool s - {?n}"
      unfolding pools by (subst image_set_diff) (auto simp: inj_on_def)
    moreover have "?n \<in> table_pool s"
      unfolding pools using k by blast
    moreover have "same_rest s ?s"
      unfolding same_rest_def by (simp add: f(3,4))
    ultimately show ?thesis
      by simp
  qed
qed

section \<open>Walking\<close>

text \<open>The memory an address space may write: its tables and the supply of new ones.\<close>

definition owned :: "vmm \<Rightarrow> addr \<Rightarrow> addr set" where
  "owned s root = {t. \<exists>p. indices p \<and> table_at (pmem s) root p = Some t} \<union> table_pool s"

definition writes_only :: "vmm \<Rightarrow> vmm \<Rightarrow> addr set \<Rightarrow> bool" where
  "writes_only s s' T \<longleftrightarrow> (\<forall>a. pmem s' a \<noteq> pmem s a \<longrightarrow> (\<exists>t \<in> T. \<exists>i < 512. a = t + 8 * i))"

text \<open>What every operation on the tables below \<open>root\<close> keeps.\<close>

definition table_step :: "vmm \<Rightarrow> addr \<Rightarrow> vmm \<Rightarrow> bool" where
  "table_step s root s' \<longleftrightarrow> space_wf s' root \<and> same_rest s s' \<and> writes_only s s' (owned s root) \<and>
     owned s' root \<subseteq> owned s root \<and> table_pool s' \<subseteq> table_pool s"

lemma table_step_refl: "space_wf s root \<Longrightarrow> table_step s root s"
  by (simp add: table_step_def same_rest_refl writes_only_def)

lemma table_step_trans:
  assumes "table_step s root s1" and "table_step s1 root s2"
  shows "table_step s root s2"
proof -
  have "pmem s1 a \<noteq> pmem s a \<or> pmem s2 a \<noteq> pmem s1 a" if "pmem s2 a \<noteq> pmem s a" for a
    using that by auto
  then have "writes_only s s2 (owned s root)"
    using assms unfolding table_step_def writes_only_def by (meson subsetD)
  then show ?thesis
    using assms same_rest_trans unfolding table_step_def by blast
qed

text \<open>A block, or an entry that the architecture does not define, ends the path of a page.\<close>

definition blocked :: "(addr \<Rightarrow> u64) \<Rightarrow> addr \<Rightarrow> vpage \<Rightarrow> bool" where
  "blocked m root k \<longleftrightarrow> (\<exists>l < 3. \<exists>t. table_at m root (take l (path k)) = Some t \<and>
     pte_is_valid (m (t + 8 * level_index k l)) \<and> \<not> pte_is_table (m (t + 8 * level_index k l)))"

lemma take_path_Suc: "l < 4 \<Longrightarrow> take (Suc l) (path k) = take l (path k) @ [level_index k l]"
  by (simp add: take_Suc_conv_app_nth path_def)

lemma indices_path: "l \<le> 3 \<Longrightarrow> indices (take l (path k))"
  by (intro indices_take) auto

lemma install_blocked:
  assumes wf: "pt_wf m root P" and t: "table_at m root p = Some t" "indices p" "length p < 3" "i < 512"
    and free: "\<not> pte_is_valid (m (t + 8 * i))" and n: "n \<in> P" and blocked: "blocked (install m t i n) root k"
  shows "blocked m root k"
proof -
  let ?m = "install m t i n"
  from blocked obtain l u where l: "l < 3" "table_at ?m root (take l (path k)) = Some u"
      "pte_is_valid (?m (u + 8 * level_index k l))" "\<not> pte_is_table (?m (u + 8 * level_index k l))"
    by (auto simp: blocked_def)
  have ok: "table_ok n" "table_ok t" "t \<noteq> n"
    using wf n pt_wfD [OF wf t(2,1)] by (auto simp: pt_wf_def)
  have entry: "pte_is_table (?m (t + 8 * i))"
    by (simp add: install_def phys_to_pte_table [OF ok(1)])
  have "u \<noteq> n"
    using l(3) entry_eq_iff [OF ok(1,2) level_index_less t(4), of k l] ok(3)
    by (auto simp: install_def clear_table_eq)
  with install_tree(4) [OF wf t free n indices_path l(2)] l(1) have u: "table_at m root (take l (path k)) = Some u"
    by simp
  have "table_ok u"
    using pt_wfD(1) [OF wf indices_path u] l(1) by simp
  then have "?m (u + 8 * level_index k l) = m (u + 8 * level_index k l)"
    using entry l(4) entry_eq_iff [OF \<open>table_ok u\<close> ok(1) level_index_less, of _ k l] \<open>u \<noteq> n\<close>
    by (auto simp: install_def clear_table_eq)
  with l u show ?thesis
    by (auto simp: blocked_def)
qed

lemma install_step:
  assumes wf: "space_wf s root" and t: "table_at (pmem s) root (take l (path k)) = Some t" and l: "l < 3"
    and free: "\<not> pte_is_valid (pmem s (t + 8 * level_index k l))"
  shows "\<exists>s' r. alloc_page_table s = Some (s', r) \<and>
    (case r of
       None \<Rightarrow> table_step s root s' \<and> mmu_lookup (pmem s') root = mmu_lookup (pmem s) root \<and> table_pool s' = {}
     | Some n \<Rightarrow>
         let s2 = s'\<lparr>pmem := (pmem s')(t + 8 * level_index k l := phys_to_pte (of_nat n) (PTE_VALID OR PTE_TABLE))\<rparr>
         in table_step s root s2 \<and> mmu_lookup (pmem s2) root = mmu_lookup (pmem s) root \<and>
            table_at (pmem s2) root (take (Suc l) (path k)) = Some n \<and>
            (\<forall>k. blocked (pmem s2) root k \<longrightarrow> blocked (pmem s) root k))"
proof -
  from wf have pool: "pool_wf s" and tree: "pt_wf (pmem s) root (table_pool s)"
    by (simp_all add: space_wf_def)
  from alloc_page_table_spec [OF pool] obtain s' r where
    alloc: "alloc_page_table s = Some (s', r)" and wf': "pool_wf s'" "same_rest s s'" and
    r: "case r of
       None \<Rightarrow> table_pool s = {} \<and> table_pool s' = {} \<and> pmem s' = pmem s
     | Some n \<Rightarrow> n \<in> table_pool s \<and> table_pool s' = table_pool s - {n} \<and>
         pmem s' = clear_table (pmem s) n [0..<512]"
    by blast
  show ?thesis
  proof (cases r)
    case None
    with r tree wf' have "table_step s root s'"
      by (simp add: table_step_def space_wf_def writes_only_def owned_def)
    with None r alloc show ?thesis by simp
  next
    case (Some n)
    let ?i = "level_index k l" and ?p = "take l (path k)"
    let ?s = "s'\<lparr>pmem := (pmem s')(t + 8 * ?i := phys_to_pte (of_nat n) (PTE_VALID OR PTE_TABLE))\<rparr>"
    from Some r have n: "n \<in> table_pool s" "table_pool s' = table_pool s - {n}"
        "pmem s' = clear_table (pmem s) n [0..<512]"
      by simp_all
    have mem: "pmem ?s = install (pmem s) t ?i n"
      by (simp add: install_def n(3))
    have pool': "table_pool ?s = table_pool s - {n}" "pool_wf ?s"
      using n(2) wf'(1) by (simp_all add: table_pool_def pool_wf_def)
    have "indices ?p" "length ?p < 3" "?i < 512"
      using l indices_path by simp_all
    note inst = install_tree [OF tree t this free n(1), folded mem]
    have "writes_only s ?s (owned s root)"
      using t \<open>indices ?p\<close> n(1) unfolding writes_only_def mem
      by (auto simp: install_def clear_table_eq owned_def intro: level_index_less)
    moreover have "owned ?s root \<subseteq> owned s root"
      using inst(4) n(1) pool'(1) unfolding owned_def by auto
    ultimately have "table_step s root ?s"
      using inst(2) pool' wf'(2) same_rest_trans [OF wf'(2) same_rest_update]
      by (auto simp: table_step_def space_wf_def)
    moreover have "mmu_lookup (pmem ?s) root = mmu_lookup (pmem s) root"
      by (rule ext) (rule inst(3))
    moreover have "blocked (pmem s) root k'" if "blocked (pmem ?s) root k'" for k'
      using install_blocked [OF tree t \<open>indices ?p\<close> \<open>length ?p < 3\<close> \<open>?i < 512\<close> free n(1)] that
      unfolding mem by blast
    ultimately show ?thesis
      using alloc Some inst(1) l by (simp add: take_path_Suc)
  qed
qed

lemma walk_levels_alloc:
  assumes "space_wf s root" and "table_at (pmem s) root (take l (path (vpage_of vaddr))) = Some t" and "l \<le> 3"
  shows "\<exists>s' r. walk_levels s vaddr True [l..<3] t = Some (s', r) \<and> table_step s root s' \<and>
    mmu_lookup (pmem s') root = mmu_lookup (pmem s) root \<and>
    (case r of
       None \<Rightarrow> table_pool s' = {} \<or> blocked (pmem s') root (vpage_of vaddr)
     | Some u \<Rightarrow> table_at (pmem s') root (take 3 (path (vpage_of vaddr))) = Some u)"
  using assms
proof (induction "3 - l" arbitrary: l s t)
  case 0
  then show ?case by (simp add: table_step_refl)
next
  case (Suc d)
  let ?k = "vpage_of vaddr"
  let ?e = "t + 8 * level_index ?k l"
  from Suc have l: "l < 3" "d = 3 - Suc l" by auto
  then have levels: "[l..<3] = l # [Suc l..<3]"
    by (simp add: upt_conv_Cons)
  have e: "pte_addr t (pte_index vaddr l) = ?e"
    using l by (simp add: pte_addr_level)
  consider (free) "\<not> pte_is_valid (pmem s ?e)" | (tab) "pte_is_table (pmem s ?e)"
    | (block) "pte_is_valid (pmem s ?e)" "\<not> pte_is_table (pmem s ?e)"
    using pte_is_table_valid by blast
  then show ?case
  proof cases
    case tab
    then have "table_at (pmem s) root (take (Suc l) (path ?k)) = Some (unat (pte_to_phys (pmem s ?e)))"
      using Suc.prems l by (simp add: take_path_Suc table_at_append)
    from Suc.hyps(1) [OF l(2) Suc.prems(1) this] l tab show ?thesis
      by (simp add: levels e pte_is_table_valid)
  next
    case block
    then have "blocked (pmem s) root ?k"
      using Suc.prems l by (auto simp: blocked_def)
    with block Suc.prems(1) show ?thesis
      by (simp add: levels e table_step_refl)
  next
    case free
    from install_step [OF Suc.prems(1,2) l(1) free] obtain s1 r where
      alloc: "alloc_page_table s = Some (s1, r)" and
      r: "case r of
       None \<Rightarrow> table_step s root s1 \<and> mmu_lookup (pmem s1) root = mmu_lookup (pmem s) root \<and> table_pool s1 = {}
     | Some n \<Rightarrow>
         let s2 = s1\<lparr>pmem := (pmem s1)(?e := phys_to_pte (of_nat n) (PTE_VALID OR PTE_TABLE))\<rparr>
         in table_step s root s2 \<and> mmu_lookup (pmem s2) root = mmu_lookup (pmem s) root \<and>
            table_at (pmem s2) root (take (Suc l) (path ?k)) = Some n \<and>
            (\<forall>k. blocked (pmem s2) root k \<longrightarrow> blocked (pmem s) root k)"
      by blast
    show ?thesis
    proof (cases r)
      case None
      with r alloc free show ?thesis by (simp add: levels e)
    next
      case (Some n)
      define s2 where "s2 = s1\<lparr>pmem := (pmem s1)(?e := phys_to_pte (of_nat n) (PTE_VALID OR PTE_TABLE))\<rparr>"
      with Some r have s2: "table_step s root s2" "mmu_lookup (pmem s2) root = mmu_lookup (pmem s) root"
          "table_at (pmem s2) root (take (Suc l) (path ?k)) = Some n"
        by (simp_all add: Let_def)
      then have "space_wf s2 root"
        by (simp add: table_step_def)
      from Suc.hyps(1) [OF l(2) this s2(3)] l s2(2) alloc free Some table_step_trans [OF s2(1)] show ?thesis
        by (auto simp: levels e s2_def [symmetric])
    qed
  qed
qed

lemma walk_levels_find:
  assumes "table_at m root (take l (path (vpage_of vaddr))) = Some t" and "l \<le> 3" and "pmem s = m"
  shows "\<exists>r. walk_levels s vaddr False [l..<3] t = Some (s, r) \<and>
    r = table_at m root (take 3 (path (vpage_of vaddr)))"
  using assms
proof (induction "3 - l" arbitrary: l t)
  case (Suc d)
  let ?k = "vpage_of vaddr"
  let ?e = "t + 8 * level_index ?k l"
  from Suc have l: "l < 3" "d = 3 - Suc l" by auto
  then have levels: "[l..<3] = l # [Suc l..<3]"
    by (simp add: upt_conv_Cons)
  have e: "pte_addr t (pte_index vaddr l) = ?e"
    using l by (simp add: pte_addr_level)
  have step: "table_at m root (take (Suc l) (path ?k)) =
      (if pte_is_table (m ?e) then Some (unat (pte_to_phys (m ?e))) else None)"
    using Suc.prems l by (simp add: take_path_Suc table_at_append)
  show ?case
  proof (cases "pte_is_table (m ?e)")
    case True
    with step Suc.hyps(1) [OF l(2)] Suc.prems(3) l show ?thesis
      by (simp add: levels e pte_is_table_valid)
  next
    case False
    have "take 3 (path ?k) = take (Suc l) (path ?k) @ drop (Suc l) (take 3 (path ?k))"
      using l(1) by (metis append_take_drop_id min.absorb1 Suc_leI take_take)
    then have "table_at m root (take 3 (path ?k)) = None"
      using step False by (metis table_at_append option.simps(4))
    with False Suc.prems(3) show ?thesis
      by (simp add: levels e Let_def)
  qed
qed auto

lemma walk_page_table_alloc:
  assumes "space_wf s root"
  shows "\<exists>s' r. walk_page_table s root vaddr True = Some (s', r) \<and> table_step s root s' \<and>
    mmu_lookup (pmem s') root = mmu_lookup (pmem s) root \<and>
    (case r of
       None \<Rightarrow> table_pool s' = {} \<or> blocked (pmem s') root (vpage_of vaddr)
     | Some u \<Rightarrow> table_at (pmem s') root (take 3 (path (vpage_of vaddr))) = Some u)"
  using walk_levels_alloc [OF assms, of 0 vaddr root]
  by (simp add: walk_page_table_def upt_rec numeral_2_eq_2)

lemma walk_page_table_find:
  "walk_page_table s root vaddr False = Some (s, table_at (pmem s) root (take 3 (path (vpage_of vaddr))))"
  using walk_levels_find [of "pmem s" root 0 vaddr root s]
  by (simp add: walk_page_table_def upt_rec numeral_2_eq_2)

section \<open>Mapping and unmapping a page\<close>

lemma vm_flags_bits: "bit (vm_flags_to_pte flags) 0" "bit (vm_flags_to_pte flags) 1"
    "vm_flags_to_pte flags AND PTE_ADDR_MASK = 0"
  by (auto simp: vm_flags_to_pte_def Let_def bit_or_iff bit_pte_consts bit_eq_iff [of "_ AND _"] bit_and_iff
      bit_addr_mask)

lemma page_entry: "pte_is_table (phys_to_pte paddr (vm_flags_to_pte flags))"
    "pte_to_phys (phys_to_pte paddr (vm_flags_to_pte flags)) = paddr AND PTE_ADDR_MASK"
proof -
  show "pte_is_table (phys_to_pte paddr (vm_flags_to_pte flags))"
    by (simp add: pte_is_table_bit phys_to_pte_def bit_or_iff vm_flags_bits(1) vm_flags_bits(2) [simplified])
  show "pte_to_phys (phys_to_pte paddr (vm_flags_to_pte flags)) = paddr AND PTE_ADDR_MASK"
    unfolding pte_to_phys_def phys_to_pte_def bit.conj_disj_distrib2 vm_flags_bits(3) by (simp add: and.assoc)
qed

abbreviation kernel_wf :: "vmm \<Rightarrow> bool" where
  "kernel_wf s \<equiv> space_wf s (kernel_pgd s)"

text \<open>The translation of the kernel address space.\<close>

definition kernel_map :: "vmm \<Rightarrow> vpage \<Rightarrow> (nat \<times> u64) option" where
  "kernel_map s = mmu_lookup (pmem s) (kernel_pgd s)"

definition page_in_use :: "vmm \<Rightarrow> addr \<Rightarrow> vpage \<Rightarrow> bool" where
  "page_in_use s root k \<longleftrightarrow> (\<exists>t. table_at (pmem s) root (take 3 (path k)) = Some t \<and>
     pte_is_valid (pmem s (t + 8 * level_index k 3)))"

lemma path_split: "path k = take 3 (path k) @ [level_index k 3]"
  by (simp add: path_simps)

lemma lookup_last:
  assumes "table_at m root (take 3 (path k)) = Some t"
  shows "mmu_lookup m root k =
    (if pte_is_table (m (t + 8 * level_index k 3)) then Some (0, m (t + 8 * level_index k 3)) else None)"
  using mmu_walk_append [OF assms, of "[level_index k 3]"] path_split [of k] by (simp add: mmu_lookup_def)

lemma lookup_page:
  "mmu_lookup m root k = Some (0, pte) \<Longrightarrow>
     \<exists>t. table_at m root (take 3 (path k)) = Some t \<and> m (t + 8 * level_index k 3) = pte \<and> pte_is_table pte"
  by (simp add: mmu_lookup_def path_simps Let_def split: if_splits)

lemma lookup_in_use: "mmu_lookup (pmem s) root k = Some (0, pte) \<Longrightarrow> page_in_use s root k"
  using lookup_page [of "pmem s" root k pte] pte_is_table_valid unfolding page_in_use_def by blast

lemma leaf_step:
  assumes wf: "space_wf s root" and t: "table_at (pmem s) root (take 3 (path k)) = Some t"
  shows "table_step s root (s\<lparr>pmem := (pmem s)(t + 8 * level_index k 3 := x)\<rparr>)"
    and "mmu_lookup ((pmem s)(t + 8 * level_index k 3 := x)) root =
      (mmu_lookup (pmem s) root)(k := if pte_is_table x then Some (0, x) else None)"
proof -
  let ?s = "s\<lparr>pmem := (pmem s)(t + 8 * level_index k 3 := x)\<rparr>"
  from wf have tree: "pt_wf (pmem s) root (table_pool s)" and pool: "pool_wf s"
    by (simp_all add: space_wf_def)
  have p: "indices (take 3 (path k))" "length (take 3 (path k)) = 3"
    by (simp_all add: indices_path)
  note leaf = leaf_update [OF tree t p level_index_less [of k 3]]
  have "path k' = take 3 (path k) @ [level_index k 3] \<longleftrightarrow> k' = k" for k'
    by (metis path_inj path_split)
  then show "mmu_lookup ((pmem s)(t + 8 * level_index k 3 := x)) root =
      (mmu_lookup (pmem s) root)(k := if pte_is_table x then Some (0, x) else None)"
    by (intro ext) (simp add: leaf(3))
  have "table_pool ?s = table_pool s" "pool_wf ?s"
    using pool by (simp_all add: table_pool_def pool_wf_def)
  moreover have "writes_only s ?s (owned s root)"
    using t p(1) by (auto simp: writes_only_def owned_def intro: level_index_less)
  ultimately show "table_step s root ?s"
    using leaf(1,2) by (auto simp: table_step_def space_wf_def same_rest_update owned_def)
qed

lemma map_page_step:
  assumes wf: "kernel_wf s"
  shows "\<exists>s' r. vmm_map_page s vaddr paddr flags = Some (s', r) \<and> table_step s (kernel_pgd s) s' \<and>
    (r = 0 \<and> kernel_map s (vpage_of vaddr) = None \<and>
       kernel_map s' = (kernel_map s)(vpage_of vaddr \<mapsto> (0, phys_to_pte paddr (vm_flags_to_pte flags))) \<or>
     r = - 1 \<and> kernel_map s' = kernel_map s \<and>
       (table_pool s' = {} \<or> blocked (pmem s') (kernel_pgd s) (vpage_of vaddr) \<or>
        page_in_use s' (kernel_pgd s) (vpage_of vaddr)))"
proof -
  let ?k = "vpage_of vaddr" and ?root = "kernel_pgd s"
  from walk_page_table_alloc [OF wf] obtain s1 r where
    walk: "walk_page_table s ?root vaddr True = Some (s1, r)" and step: "table_step s ?root s1" and
    same: "mmu_lookup (pmem s1) ?root = mmu_lookup (pmem s) ?root" and
    r: "case r of None \<Rightarrow> table_pool s1 = {} \<or> blocked (pmem s1) ?root ?k
      | Some u \<Rightarrow> table_at (pmem s1) ?root (take 3 (path ?k)) = Some u"
    by blast
  have root: "kernel_pgd s1 = ?root"
    using step same_rest_fields by (simp add: table_step_def)
  show ?thesis
  proof (cases r)
    case None
    with walk r step same root show ?thesis
      by (auto simp: vmm_map_page_def kernel_map_def)
  next
    case (Some t)
    with r have t: "table_at (pmem s1) ?root (take 3 (path ?k)) = Some t"
      by simp
    let ?e = "t + 8 * level_index ?k 3"
    have e: "pte_addr t (pte_index vaddr 3) = ?e"
      by (simp add: pte_addr_level)
    show ?thesis
    proof (cases "pte_is_valid (pmem s1 ?e)")
      case True
      with t have "page_in_use s1 ?root ?k"
        by (auto simp: page_in_use_def)
      with True Some walk step same root show ?thesis
        by (simp add: vmm_map_page_def kernel_map_def e)
    next
      case False
      let ?x = "phys_to_pte paddr (vm_flags_to_pte flags)"
      let ?s = "s1\<lparr>pmem := (pmem s1)(?e := ?x)\<rparr>"
      have "space_wf s1 ?root"
        using step by (simp add: table_step_def)
      note leaf = leaf_step [OF this t, of ?x]
      have "kernel_map s ?k = None"
        using lookup_last [OF t] False pte_is_table_valid same by (auto simp: kernel_map_def)
      moreover have "kernel_map ?s = (kernel_map s)(?k \<mapsto> (0, ?x))"
        using leaf(2) same root by (simp add: kernel_map_def page_entry)
      ultimately show ?thesis
        using False Some walk table_step_trans [OF step leaf(1)] by (simp add: vmm_map_page_def e)
    qed
  qed
qed

lemma unmap_page_step:
  assumes wf: "kernel_wf s"
  shows "\<exists>s' r. vmm_unmap_page s vaddr = Some (s', r) \<and> table_step s (kernel_pgd s) s' \<and>
    (if page_in_use s (kernel_pgd s) (vpage_of vaddr)
     then r = 0 \<and> kernel_map s' = (kernel_map s)(vpage_of vaddr := None)
     else r = - 1 \<and> s' = s)"
proof -
  let ?k = "vpage_of vaddr" and ?root = "kernel_pgd s"
  show ?thesis
  proof (cases "table_at (pmem s) ?root (take 3 (path ?k))")
    case None
    then show ?thesis
      using table_step_refl [OF wf] by (simp add: vmm_unmap_page_def walk_page_table_find page_in_use_def)
  next
    case (Some t)
    note leaf = leaf_step [OF wf Some, of 0]
    have e: "pte_addr t (pte_index vaddr 3) = t + 8 * level_index ?k 3"
      by (simp add: pte_addr_level)
    show ?thesis
      using leaf table_step_refl [OF wf] Some
      by (cases "pte_is_valid (pmem s (t + 8 * level_index ?k 3))")
        (simp_all add: vmm_unmap_page_def walk_page_table_find page_in_use_def e kernel_map_def)
  qed
qed

section \<open>Mapping a list of pages\<close>

fun unmap_list :: "('s \<Rightarrow> 'v \<Rightarrow> ('s \<times> int) option) \<Rightarrow> 's \<Rightarrow> 'v list \<Rightarrow> 's option" where
  "unmap_list unmap1 s [] = Some s"
| "unmap_list unmap1 s (v # vs) = do { (s, _) \<leftarrow> unmap1 s v; unmap_list unmap1 s vs }"

fun map_list :: "('s \<Rightarrow> 'v \<Rightarrow> 'p \<Rightarrow> ('s \<times> int) option) \<Rightarrow> ('s \<Rightarrow> 'v \<Rightarrow> ('s \<times> int) option) \<Rightarrow>
    's \<Rightarrow> 'v list \<Rightarrow> ('v \<times> 'p) list \<Rightarrow> ('s \<times> int) option" where
  "map_list map1 unmap1 s vs [] = Some (s, 0)"
| "map_list map1 unmap1 s vs ((v, p) # xs) = do {
     (s, r) \<leftarrow> map1 s v p;
     if r < 0 then do { s \<leftarrow> unmap_list unmap1 s vs; Some (s, r) }
     else map_list map1 unmap1 s (vs @ [v]) xs
   }"

text \<open>
  What the range operations rely on: mapping a page either adds exactly its entry, which was missing,
  or changes no translation; a mapped page can be unmapped.
\<close>

locale page_mapper =
  fixes inv :: "'s \<Rightarrow> bool" and lookup :: "'s \<Rightarrow> 'k \<Rightarrow> 'e option" and key :: "'v \<Rightarrow> 'k" and ent :: "'p \<Rightarrow> 'e"
    and map1 :: "'s \<Rightarrow> 'v \<Rightarrow> 'p \<Rightarrow> ('s \<times> int) option" and unmap1 :: "'s \<Rightarrow> 'v \<Rightarrow> ('s \<times> int) option"
  assumes map1: "inv s \<Longrightarrow> \<exists>s' r. map1 s v p = Some (s', r) \<and> inv s' \<and>
      (r = 0 \<and> lookup s (key v) = None \<and> lookup s' = (lookup s)(key v \<mapsto> ent p) \<or>
       r = - 1 \<and> lookup s' = lookup s)"
    and unmap1: "inv s \<Longrightarrow> lookup s (key v) = Some (ent p) \<Longrightarrow>
      \<exists>s' r. unmap1 s v = Some (s', r) \<and> inv s' \<and> lookup s' = (lookup s)(key v := None)"
begin

lemma unmap_list:
  assumes "inv s" and "distinct (map (key \<circ> fst) xs)"
    and "\<And>v p. (v, p) \<in> set xs \<Longrightarrow> lookup s (key v) = Some (ent p)"
  shows "\<exists>s'. unmap_list unmap1 s (map fst xs) = Some s' \<and> inv s' \<and>
    lookup s' = lookup s |` (- (key \<circ> fst) ` set xs)"
  using assms
proof (induction xs arbitrary: s)
  case (Cons x xs)
  obtain v p where x: "x = (v, p)" by (cases x)
  have "lookup s (key v) = Some (ent p)"
    using Cons.prems(3) x by simp
  from unmap1 [OF Cons.prems(1) this] obtain s1 r where
    s1: "unmap1 s v = Some (s1, r)" "inv s1" "lookup s1 = (lookup s)(key v := None)"
    by blast
  have "lookup s1 (key v') = Some (ent p')" if "(v', p') \<in> set xs" for v' p'
    using Cons.prems(2,3) that x s1(3) by force
  from Cons.IH [OF s1(2) _ this] Cons.prems(2) obtain s' where
    "unmap_list unmap1 s1 (map fst xs) = Some s'" "inv s'" "lookup s' = lookup s1 |` (- (key \<circ> fst) ` set xs)"
    by auto
  moreover have "lookup s1 |` (- (key \<circ> fst) ` set xs) = lookup s |` (- (key \<circ> fst) ` set (x # xs))"
    by (auto simp: s1(3) x restrict_map_def)
  ultimately show ?case
    using s1(1) by (simp add: x)
qed (simp add: restrict_map_def)

text \<open>All pages are mapped, or the translation is as it was.\<close>

lemma map_list:
  assumes "inv s" and "lookup s = L ++ map_of (map (\<lambda>(v, p). (key v, ent p)) ds)"
    and "distinct (map (key \<circ> fst) ds)" and "\<forall>(v, p) \<in> set ds. L (key v) = None"
  shows "\<exists>s' r. map_list map1 unmap1 s (map fst ds) xs = Some (s', r) \<and> inv s' \<and>
    (r = 0 \<and> distinct (map (key \<circ> fst) (ds @ xs)) \<and> (\<forall>(v, p) \<in> set (ds @ xs). L (key v) = None) \<and>
       lookup s' = L ++ map_of (map (\<lambda>(v, p). (key v, ent p)) (ds @ xs)) \<or>
     r = - 1 \<and> lookup s' = L)"
  using assms
proof (induction xs arbitrary: s ds)
  case (Cons x xs)
  let ?es = "\<lambda>ds. map_of (map (\<lambda>(v, p). (key v, ent p)) ds)"
  obtain v p where x: "x = (v, p)" by (cases x)
  have keys: "dom (?es ds) = (key \<circ> fst) ` set ds"
    by (force simp: dom_map_of_conv_image_fst)
  have found: "?es ds (key w) = Some (ent q)" if "(w, q) \<in> set ds" for w q
    using that Cons.prems(3) by (intro map_of_is_SomeI) (force simp: comp_def case_prod_beta)+
  from map1 [OF Cons.prems(1), of v p] obtain s1 r where
    s1: "map1 s v p = Some (s1, r)" "inv s1" and
    r: "r = 0 \<and> lookup s (key v) = None \<and> lookup s1 = (lookup s)(key v \<mapsto> ent p) \<or> r = - 1 \<and> lookup s1 = lookup s"
    by blast
  from r show ?case
  proof
    assume r: "r = 0 \<and> lookup s (key v) = None \<and> lookup s1 = (lookup s)(key v \<mapsto> ent p)"
    then have fresh: "key v \<notin> (key \<circ> fst) ` set ds" "L (key v) = None"
      using Cons.prems(2) keys by (auto simp: map_add_None domIff [symmetric])
    have "lookup s1 = L ++ ?es (ds @ [x])"
      using r Cons.prems(2) fresh(1) unfolding keys [symmetric]
      by (auto simp: x map_add_def fun_eq_iff domIff split: option.splits)
    then have "\<exists>s' r. map_list map1 unmap1 s1 (map fst (ds @ [x])) xs = Some (s', r) \<and> inv s' \<and>
      (r = 0 \<and> distinct (map (key \<circ> fst) ((ds @ [x]) @ xs)) \<and> (\<forall>(v, p) \<in> set ((ds @ [x]) @ xs). L (key v) = None) \<and>
         lookup s' = L ++ ?es ((ds @ [x]) @ xs) \<or> r = - 1 \<and> lookup s' = L)"
      using Cons.prems(3,4) fresh s1(2) by (intro Cons.IH) (auto simp: x)
    moreover have "map_list map1 unmap1 s (map fst ds) (x # xs) = map_list map1 unmap1 s1 (map fst (ds @ [x])) xs"
      using s1 r by (simp add: x)
    ultimately show ?thesis
      by (simp only: append_assoc append_Cons append_Nil)
  next
    assume r: "r = - 1 \<and> lookup s1 = lookup s"
    then have "lookup s1 (key w) = Some (ent q)" if "(w, q) \<in> set ds" for w q
      using that found Cons.prems(2) by (simp add: map_add_Some_iff)
    from unmap_list [OF s1(2) Cons.prems(3) this] obtain s' where
      s': "unmap_list unmap1 s1 (map fst ds) = Some s'" "inv s'"
        "lookup s' = lookup s1 |` (- (key \<circ> fst) ` set ds)"
      by blast
    have "lookup s' = L"
    proof
      fix k
      show "lookup s' k = L k"
        using s'(3) r Cons.prems(2,4) keys
        by (cases "k \<in> dom (?es ds)") (auto simp: restrict_map_def map_add_dom_app_simps)
    qed
    then show ?thesis
      using s' s1 r by (simp add: x)
  qed
qed auto

end

interpretation kernel_pages: page_mapper "table_step s0 (kernel_pgd s0)" "\<lambda>s. mmu_lookup (pmem s) (kernel_pgd s0)"
  vpage_of "\<lambda>p. (0, phys_to_pte p (vm_flags_to_pte flags))" "\<lambda>s v p. vmm_map_page s v p flags" vmm_unmap_page
  for s0 flags
proof
  fix s v p
  assume step: "table_step s0 (kernel_pgd s0) s"
  then have wf: "kernel_wf s" and root: "kernel_pgd s = kernel_pgd s0"
    using same_rest_fields by (auto simp: table_step_def)
  have root': "kernel_pgd s' = kernel_pgd s0" if "table_step s (kernel_pgd s0) s'" for s'
    using that root same_rest_fields by (auto simp: table_step_def)
  show "\<exists>s' r. vmm_map_page s v p flags = Some (s', r) \<and> table_step s0 (kernel_pgd s0) s' \<and>
      (r = 0 \<and> mmu_lookup (pmem s) (kernel_pgd s0) (vpage_of v) = None \<and>
         mmu_lookup (pmem s') (kernel_pgd s0) =
           (mmu_lookup (pmem s) (kernel_pgd s0))(vpage_of v \<mapsto> (0, phys_to_pte p (vm_flags_to_pte flags))) \<or>
       r = - 1 \<and> mmu_lookup (pmem s') (kernel_pgd s0) = mmu_lookup (pmem s) (kernel_pgd s0))"
    using map_page_step [OF wf, of v p flags] table_step_trans [OF step] unfolding kernel_map_def root
    by (metis root')
  assume "mmu_lookup (pmem s) (kernel_pgd s0) (vpage_of v) = Some (0, phys_to_pte p (vm_flags_to_pte flags))"
  then have "page_in_use s (kernel_pgd s) (vpage_of v)"
    unfolding root by (rule lookup_in_use)
  then show "\<exists>s' r. vmm_unmap_page s v = Some (s', r) \<and> table_step s0 (kernel_pgd s0) s' \<and>
      mmu_lookup (pmem s') (kernel_pgd s0) = (mmu_lookup (pmem s) (kernel_pgd s0))(vpage_of v := None)"
    using unmap_page_step [OF wf, of v] table_step_trans [OF step] unfolding kernel_map_def root
    by (metis root')
qed

section \<open>Ranges\<close>

abbreviation page_at :: "u64 \<Rightarrow> nat \<Rightarrow> u64" where
  "page_at vaddr i \<equiv> vaddr + of_nat (i * PAGE_SIZE)"

definition range_pages :: "u64 \<Rightarrow> nat" where
  "range_pages sz = unat (PAGE_ALIGN sz) div PAGE_SIZE"

definition range_page :: "u64 \<Rightarrow> nat \<Rightarrow> vpage" where
  "range_page vaddr i = vpage_of (page_at (PAGE_ALIGN_DOWN vaddr) i)"

lemma page_align:
  "unat (PAGE_ALIGN_DOWN x) = unat x div PAGE_SIZE * PAGE_SIZE"
  "PAGE_ALIGN_DOWN x = x \<longleftrightarrow> PAGE_SIZE dvd unat x"
  "unat x + PAGE_SIZE \<le> 2 ^ 64 \<Longrightarrow> unat (PAGE_ALIGN x) = (unat x + PAGE_SIZE - 1) div PAGE_SIZE * PAGE_SIZE"
  "PAGE_SIZE dvd unat (PAGE_ALIGN x)"
proof -
  have mask: "(4096 - 1 :: u64) = mask 12"
    by (simp add: mask_eq_exp_minus_1)
  show down: "unat (PAGE_ALIGN_DOWN x) = unat x div PAGE_SIZE * PAGE_SIZE" for x
    unfolding PAGE_ALIGN_DOWN_def mask unat_and_not_mask by simp
  have up: "PAGE_ALIGN x = PAGE_ALIGN_DOWN (x + 4095)"
    by (simp add: PAGE_ALIGN_def PAGE_ALIGN_DOWN_def add.commute)
  show "PAGE_SIZE dvd unat (PAGE_ALIGN x)"
    by (simp add: up down)
  show "PAGE_ALIGN_DOWN x = x \<longleftrightarrow> PAGE_SIZE dvd unat x"
    using down [of x] by (metis dvd_div_mult_self dvd_triv_right unsigned_word_eqI)
  assume "unat x + PAGE_SIZE \<le> 2 ^ 64"
  then have "unat (x + 4095) = unat x + 4095"
    by (subst u64_unat_add) simp_all
  then show "unat (PAGE_ALIGN x) = (unat x + PAGE_SIZE - 1) div PAGE_SIZE * PAGE_SIZE"
    by (simp add: up down)
qed

lemma page_offset:
  assumes "n * PAGE_SIZE < 2 ^ 64" and "j \<le> n"
  shows "(of_nat (j * PAGE_SIZE) :: u64) < of_nat (n * PAGE_SIZE) \<longleftrightarrow> j < n"
    and "(of_nat (j * PAGE_SIZE) :: u64) + 4096 = of_nat (Suc j * PAGE_SIZE)"
proof -
  have "j * PAGE_SIZE < 2 ^ 64"
    using assms by (meson le_less_trans mult_le_mono1)
  with assms show "(of_nat (j * PAGE_SIZE) :: u64) < of_nat (n * PAGE_SIZE) \<longleftrightarrow> j < n"
    by (simp add: word_less_nat_alt u64_unat_of_nat del: of_nat_mult)
qed simp

lemma unmap_loop_list:
  assumes "n * PAGE_SIZE < 2 ^ 64" and "j \<le> n"
  shows "unmap_loop s vaddr (of_nat (n * PAGE_SIZE)) (of_nat (j * PAGE_SIZE)) =
    unmap_list vmm_unmap_page s (map (page_at vaddr) [j..<n])"
  using assms(2)
proof (induction "n - j" arbitrary: j s)
  case 0
  then show ?case
    using page_offset [OF assms(1), of j] by (simp add: unmap_loop.simps del: of_nat_mult)
next
  case (Suc d)
  then have "j < n" "d = n - Suc j" by auto
  then have "[j..<n] = j # [Suc j..<n]"
    by (simp add: upt_conv_Cons)
  with Suc.hyps(1) [OF \<open>d = n - Suc j\<close>] \<open>j < n\<close> page_offset [OF assms(1), of j] show ?case
    by (subst unmap_loop.simps) (simp del: of_nat_mult mult_Suc)
qed

lemma map_loop_list:
  assumes "n * PAGE_SIZE < 2 ^ 64" and "PAGE_ALIGN_DOWN vaddr = vaddr" and "j \<le> n"
  shows "map_loop s vaddr paddr (of_nat (n * PAGE_SIZE)) flags (of_nat (j * PAGE_SIZE)) =
    map_list (\<lambda>s v p. vmm_map_page s v p flags) vmm_unmap_page s (map (page_at vaddr) [0..<j])
      (map (\<lambda>i. (page_at vaddr i, page_at paddr i)) [j..<n])"
  using assms(3)
proof (induction "n - j" arbitrary: j s)
  case 0
  then show ?case
    using page_offset [OF assms(1), of j] by (simp add: map_loop.simps del: of_nat_mult)
next
  case (Suc d)
  then have j: "j < n" "d = n - Suc j" by auto
  then have cons: "[j..<n] = j # [Suc j..<n]"
    by (simp add: upt_conv_Cons)
  have small: "j * PAGE_SIZE < 2 ^ 64"
    using assms(1) j(1) by (meson le_less_trans less_imp_le mult_le_mono1)
  moreover have "j * PAGE_SIZE + PAGE_SIZE \<le> 2 ^ 64"
    using assms(1) j(1) by linarith
  ultimately have "unat (PAGE_ALIGN (of_nat (j * PAGE_SIZE))) = (j * PAGE_SIZE + PAGE_SIZE - 1) div PAGE_SIZE * PAGE_SIZE"
    using page_align(3) [of "of_nat (j * PAGE_SIZE)"] by (simp only: u64_unat_of_nat)
  also have "\<dots> = unat (of_nat (j * PAGE_SIZE) :: u64)"
    using small by (simp add: u64_unat_of_nat del: of_nat_mult)
  finally have "PAGE_ALIGN (of_nat (j * PAGE_SIZE)) = of_nat (j * PAGE_SIZE)"
    by (rule unsigned_word_eqI)
  then have "vmm_unmap_range s vaddr (of_nat (j * PAGE_SIZE)) =
      do { s \<leftarrow> unmap_list vmm_unmap_page s (map (page_at vaddr) [0..<j]); Some (s, 0) }" for s
    using unmap_loop_list [OF small, of 0] assms(2) by (simp add: vmm_unmap_range_def del: of_nat_mult)
  with Suc.hyps(1) [OF j(2)] j(1) page_offset [OF assms(1), of j] show ?case
    by (subst map_loop.simps) (simp add: cons bind_assoc case_prod_beta del: of_nat_mult mult_Suc cong: if_cong)
qed

section \<open>Properties of the kernel address space\<close>

lemma virt_to_phys_page:
  assumes "mmu_lookup (pmem s) (kernel_pgd s) (vpage_of vaddr) = Some (0, pte)"
  shows "vmm_virt_to_phys s vaddr = Some (pte_to_phys pte OR (vaddr AND 4095))"
    and "mmu_translate (pmem s) (kernel_pgd s) vaddr = Some (pte_to_phys pte OR (vaddr AND 4095))"
proof -
  from lookup_page [OF assms] obtain t where
    t: "table_at (pmem s) (kernel_pgd s) (take 3 (path (vpage_of vaddr))) = Some t"
      "pmem s (t + 8 * level_index (vpage_of vaddr) 3) = pte" "pte_is_table pte"
    by blast
  then show "vmm_virt_to_phys s vaddr = Some (pte_to_phys pte OR (vaddr AND 4095))"
    by (simp add: vmm_virt_to_phys_def walk_page_table_find pte_addr_level pte_is_table_valid)
  have "PTE_ADDR_MASK AND NOT (mask 12) = PTE_ADDR_MASK"
    by (rule bit_eqI) (auto simp: bit_simps)
  then show "mmu_translate (pmem s) (kernel_pgd s) vaddr = Some (pte_to_phys pte OR (vaddr AND 4095))"
    by (simp add: mmu_translate_def assms pte_to_phys_def and.assoc mask_eq_exp_minus_1)
qed

text \<open>C5. On well-formed tables \<open>vmm_map_page\<close> returns and keeps them well-formed, writing only to tables
  of the kernel and to new ones. On success the page was not mapped and the translation changes for
  exactly this page; the memory management unit and \<open>vmm_virt_to_phys\<close> then translate the address to the
  physical page with the offset kept. It fails without a change of the translation, and only for lack of
  memory for tables, because a block covers the page, or because the page is in use.\<close>

theorem vmm_map_page_refines:
  assumes wf: "kernel_wf s"
  shows "\<exists>s' r. vmm_map_page s vaddr paddr flags = Some (s', r) \<and> kernel_wf s' \<and>
    writes_only s s' (owned s (kernel_pgd s)) \<and>
    (r = 0 \<and> kernel_map s (vpage_of vaddr) = None \<and>
       kernel_map s' = (kernel_map s)(vpage_of vaddr \<mapsto> (0, phys_to_pte paddr (vm_flags_to_pte flags))) \<and>
       mmu_translate (pmem s') (kernel_pgd s') vaddr = Some ((paddr AND PTE_ADDR_MASK) OR (vaddr AND 4095)) \<and>
       vmm_virt_to_phys s' vaddr = Some ((paddr AND PTE_ADDR_MASK) OR (vaddr AND 4095)) \<or>
     r = - 1 \<and> kernel_map s' = kernel_map s \<and>
       (table_pool s' = {} \<or> blocked (pmem s') (kernel_pgd s) (vpage_of vaddr) \<or>
        page_in_use s' (kernel_pgd s) (vpage_of vaddr)))"
proof -
  from map_page_step [OF wf, of vaddr paddr flags] obtain s' r where
    s': "vmm_map_page s vaddr paddr flags = Some (s', r)" "table_step s (kernel_pgd s) s'" and
    r: "r = 0 \<and> kernel_map s (vpage_of vaddr) = None \<and>
       kernel_map s' = (kernel_map s)(vpage_of vaddr \<mapsto> (0, phys_to_pte paddr (vm_flags_to_pte flags))) \<or>
     r = - 1 \<and> kernel_map s' = kernel_map s \<and>
       (table_pool s' = {} \<or> blocked (pmem s') (kernel_pgd s) (vpage_of vaddr) \<or>
        page_in_use s' (kernel_pgd s) (vpage_of vaddr))"
    by blast
  have root: "kernel_pgd s' = kernel_pgd s"
    using s'(2) same_rest_fields by (auto simp: table_step_def)
  have "kernel_map s' (vpage_of vaddr) = Some (0, phys_to_pte paddr (vm_flags_to_pte flags)) \<Longrightarrow>
      mmu_translate (pmem s') (kernel_pgd s') vaddr = Some ((paddr AND PTE_ADDR_MASK) OR (vaddr AND 4095)) \<and>
      vmm_virt_to_phys s' vaddr = Some ((paddr AND PTE_ADDR_MASK) OR (vaddr AND 4095))"
    unfolding kernel_map_def by (simp add: virt_to_phys_page page_entry)
  with s' r root show ?thesis
    by (auto simp: table_step_def)
qed

text \<open>\<open>vmm_unmap_page\<close> returns, keeps the tables well-formed and takes exactly the entry of the page
  away; it fails, changing nothing, when the page has no entry at the last level. Unmapping a page that
  was just mapped brings the old translation back.\<close>

theorem vmm_unmap_page_refines:
  assumes wf: "kernel_wf s"
  shows "(\<exists>s' r. vmm_unmap_page s vaddr = Some (s', r) \<and> kernel_wf s' \<and>
      (if page_in_use s (kernel_pgd s) (vpage_of vaddr)
       then r = 0 \<and> kernel_map s' = (kernel_map s)(vpage_of vaddr := None)
       else r = - 1 \<and> s' = s)) \<and>
    (\<forall>paddr flags s1. vmm_map_page s vaddr paddr flags = Some (s1, 0) \<longrightarrow>
      (\<exists>s2. vmm_unmap_page s1 vaddr = Some (s2, 0) \<and> kernel_map s2 = kernel_map s))"
proof (intro conjI allI impI)
  have root: "kernel_pgd s' = kernel_pgd s" if "table_step s (kernel_pgd s) s'" for s'
    using that same_rest_fields by (auto simp: table_step_def)
  show "\<exists>s' r. vmm_unmap_page s vaddr = Some (s', r) \<and> kernel_wf s' \<and>
    (if page_in_use s (kernel_pgd s) (vpage_of vaddr)
     then r = 0 \<and> kernel_map s' = (kernel_map s)(vpage_of vaddr := None)
     else r = - 1 \<and> s' = s)"
    using unmap_page_step [OF wf, of vaddr] root unfolding table_step_def by metis
  fix paddr flags s1
  assume "vmm_map_page s vaddr paddr flags = Some (s1, 0)"
  with map_page_step [OF wf, of vaddr paddr flags] have step: "table_step s (kernel_pgd s) s1"
    and free: "kernel_map s (vpage_of vaddr) = None"
    and new: "kernel_map s1 = (kernel_map s)(vpage_of vaddr \<mapsto> (0, phys_to_pte paddr (vm_flags_to_pte flags)))"
    by auto
  have wf1: "kernel_wf s1"
    unfolding root [OF step] using step by (simp add: table_step_def)
  have "kernel_map s1 (vpage_of vaddr) = Some (0, phys_to_pte paddr (vm_flags_to_pte flags))"
    by (simp add: new)
  then have "page_in_use s1 (kernel_pgd s1) (vpage_of vaddr)"
    unfolding kernel_map_def by (rule lookup_in_use)
  moreover have "(kernel_map s1)(vpage_of vaddr := None) = kernel_map s"
    unfolding new using free by (metis fun_upd_triv fun_upd_upd)
  ultimately show "\<exists>s2. vmm_unmap_page s1 vaddr = Some (s2, 0) \<and> kernel_map s2 = kernel_map s"
    using unmap_page_step [OF wf1, of vaddr] by auto
qed

text \<open>C26. \<open>vmm_map_range\<close> is all or nothing: it returns, and either all pages of the range are mapped in
  order, none of them having been mapped before, with every other translation unchanged; or it reports
  failure and the rollback has brought back the translation the call started with.\<close>

theorem vmm_map_range_all_or_nothing:
  assumes wf: "kernel_wf s"
  shows "\<exists>s' r. vmm_map_range s vaddr paddr sz flags = Some (s', r) \<and> kernel_wf s' \<and>
    (r = 0 \<and> inj_on (range_page vaddr) {..<range_pages sz} \<and> (\<forall>i < range_pages sz. kernel_map s (range_page vaddr i) = None) \<and>
       (\<forall>i < range_pages sz. kernel_map s' (range_page vaddr i) =
          Some (0, phys_to_pte (page_at (PAGE_ALIGN_DOWN paddr) i) (vm_flags_to_pte flags))) \<and>
       (\<forall>k. k \<notin> range_page vaddr ` {..<range_pages sz} \<longrightarrow> kernel_map s' k = kernel_map s k) \<or>
     r = - 1 \<and> kernel_map s' = kernel_map s)"
proof -
  define n where "n = range_pages sz"
  define pages where "pages = range_page vaddr"
  let ?v = "PAGE_ALIGN_DOWN vaddr" and ?p = "PAGE_ALIGN_DOWN paddr"
  let ?xs = "map (\<lambda>i. (page_at ?v i, page_at ?p i)) [0..<n]"
  let ?root = "kernel_pgd s"
  let ?es = "map (\<lambda>(v, p). (vpage_of v, (0 :: nat, phys_to_pte p (vm_flags_to_pte flags)))) ?xs"
  have n: "n * PAGE_SIZE = unat (PAGE_ALIGN sz)"
    using page_align(4) [of sz] by (simp add: n_def range_pages_def)
  have "n * PAGE_SIZE < 2 ^ 64" "of_nat (n * PAGE_SIZE) = PAGE_ALIGN sz"
    unfolding n using unsigned_less [of "PAGE_ALIGN sz"] by simp_all
  moreover have "PAGE_ALIGN_DOWN ?v = ?v"
    by (simp add: page_align(1,2))
  ultimately have loop: "vmm_map_range s vaddr paddr sz flags =
      map_list (\<lambda>s v p. vmm_map_page s v p flags) vmm_unmap_page s [] ?xs"
    using map_loop_list [of n ?v 0 s ?p flags] by (simp add: vmm_map_range_def)
  from kernel_pages.map_list [where ds = "[]" and xs = ?xs and L = "mmu_lookup (pmem s) ?root" and flags = flags,
      OF table_step_refl [OF wf]]
  obtain s' r where s': "vmm_map_range s vaddr paddr sz flags = Some (s', r)" "table_step s ?root s'" and
    r: "r = 0 \<and> distinct (map (vpage_of \<circ> fst) ?xs) \<and>
        (\<forall>(v, p) \<in> set ?xs. mmu_lookup (pmem s) ?root (vpage_of v) = None) \<and>
        mmu_lookup (pmem s') ?root = mmu_lookup (pmem s) ?root ++ map_of ?es \<or>
      r = - 1 \<and> mmu_lookup (pmem s') ?root = mmu_lookup (pmem s) ?root"
    unfolding loop by auto
  have root: "kernel_pgd s' = ?root"
    using s'(2) same_rest_fields by (auto simp: table_step_def)
  have es: "?es = map (\<lambda>i. (pages i, (0, phys_to_pte (page_at ?p i) (vm_flags_to_pte flags)))) [0..<n]"
    by (simp add: pages_def range_page_def)
  have "inj_on pages {..<n}" if "distinct (map (vpage_of \<circ> fst) ?xs)"
    using that by (simp add: distinct_map pages_def range_page_def comp_def lessThan_atLeast0 [symmetric] inj_on_def)
  moreover have "map_of ?es (pages i) = Some (0, phys_to_pte (page_at ?p i) (vm_flags_to_pte flags))"
    if "distinct (map (vpage_of \<circ> fst) ?xs)" "i < n" for i
    using that by (intro map_of_is_SomeI) (auto simp: es comp_def pages_def range_page_def)
  moreover have "map_of ?es k = None" if "k \<notin> pages ` {..<n}" for k
    using that unfolding es map_of_eq_None_iff by (auto simp: image_iff)
  ultimately show ?thesis
    using s' r root unfolding n_def [symmetric] pages_def [symmetric]
    by (auto simp: kernel_map_def table_step_def map_add_def pages_def range_page_def)
qed

section \<open>The boot mapping\<close>

lemma pool_tables_ok:
  assumes wf: "pool_wf s" and "t \<in> table_pool s"
  shows "table_ok t"
proof -
  from assms(2) consider (early) j where "t = early_tables s + PAGE_SIZE * j" "j < EARLY_TABLES_COUNT"
    | (page) k where "t = page_addr (frames s) k" "k \<in> free_pages (frames s)"
    by (auto simp: table_pool_def)
  then show ?thesis
  proof cases
    case early
    then have "t + PAGE_SIZE \<le> early_tables s + PAGE_SIZE * EARLY_TABLES_COUNT"
      by simp
    with wf early(1) show ?thesis
      by (simp add: pool_wf_def table_ok_def)
  next
    case page
    with wf free_page_bounds [of "frames s" k] show ?thesis
      by (auto simp: pool_wf_def table_ok_def)
  qed
qed

lemma empty_root_wf:
  assumes "pool_wf s" and "table_ok root" and "root \<notin> table_pool s" and "\<forall>i < 512. pmem s (root + 8 * i) = 0"
  shows "space_wf s root"
proof -
  have "table_at (pmem s) root p = (if p = [] then Some root else None)" if "indices p" for p
    using that assms(4) by (cases p) (auto simp: indices_def)
  then show ?thesis
    using assms pool_tables_ok by (auto simp: space_wf_def pt_wf_def split: if_splits)
qed

lemma level_index_div:
  assumes "l \<le> 3"
  shows "level_index (vpage_of v) l = unat v div 2 ^ (39 - 9 * l) mod 512"
proof -
  have mask: "(of_nat VMM_ENTRIES - 1 :: u64) = mask 9"
    by (simp add: VMM_ENTRIES_def mask_eq_exp_minus_1)
  have "unat (drop_bit (39 - 9 * l) v AND mask 9) = take_bit 9 (drop_bit (39 - 9 * l) (unat v))"
    by (simp only: take_bit_eq_mask [symmetric] unsigned_take_bit_eq unat_drop_bit_eq)
  then show ?thesis
    using unat_pte_index [OF assms refl, of v] unfolding mask by (simp add: take_bit_eq_mod drop_bit_eq_div)
qed

text \<open>A root with a single table below it that holds only blocks.\<close>

lemma block_tables:
  assumes ok: "table_ok root" "table_ok t" "root \<noteq> t" "root \<notin> P" "t \<notin> P" "\<forall>u \<in> P. table_ok u"
    and root: "\<forall>i < 512. m (root + 8 * i) = (if i = 0 then phys_to_pte (of_nat t) (PTE_VALID OR PTE_TABLE) else 0)"
    and blocks: "\<forall>j < 512. \<not> pte_is_table (m (t + 8 * j))"
  shows "pt_wf m root P" and "table_at m root (take 3 (path k)) = None"
    and "mmu_lookup m root k =
      (if level_index k 0 = 0 \<and> pte_is_valid (m (t + 8 * level_index k 1))
       then Some (2, m (t + 8 * level_index k 1)) else None)"
proof -
  have tab: "table_at m root p = (if p = [] then Some root else if p = [0] then Some t else None)"
    if "set p \<subseteq> {..<512}" for p
  proof (cases p)
    case (Cons i q)
    then show ?thesis
      using that root [rule_format, of i] phys_to_pte_table [OF ok(2)] blocks by (cases q) auto
  qed simp
  then show "pt_wf m root P"
    using ok unfolding pt_wf_def indices_def by (auto split: if_splits)
  show "table_at m root (take 3 (path k)) = None"
    using set_path [of k] by (subst tab) (auto simp: path_simps)
  show "mmu_lookup m root k =
      (if level_index k 0 = 0 \<and> pte_is_valid (m (t + 8 * level_index k 1))
       then Some (2, m (t + 8 * level_index k 1)) else None)"
    using root [rule_format, of "level_index k 0"] blocks [rule_format, of "level_index k 1"] phys_to_pte_table [OF ok(2)]
    by (simp add: mmu_lookup_def path_simps Let_def)
qed

lemma fold_entries:
  "fold (\<lambda>i m. m(pte_addr t (1 + int i) := f i)) [0..<n] m a =
     (if \<exists>i < n. a = t + 8 * Suc i then f ((a - t) div 8 - 1) else m a)"
  by (induction n) (auto simp: pte_addr_def nat_add_distrib less_Suc_eq)

lemma block_entries:
  "pte_is_valid (ram_block_pte i)" "\<not> pte_is_table (ram_block_pte i)"
  "pte_is_valid (device_block_pte b)" "\<not> pte_is_table (device_block_pte b)"
  by (simp_all add: pte_is_valid_bit pte_is_table_bit ram_block_pte_def device_block_pte_def bit_or_iff bit_and_iff
      bit_pte_consts bit_addr_mask)

text \<open>A block of 1 GB maps each of its addresses to itself when its base is right.\<close>

lemma block_identity:
  assumes "v < 2 ^ 48" and "base = push_bit 30 (of_nat (unat v div 2 ^ 30)) \<and>
    (pte = (base AND PTE_ADDR_MASK) OR PTE_VALID OR PTE_BLOCK OR PTE_ATTR_NORMAL OR PTE_SH_INNER OR PTE_ACCESSED \<or>
     pte = (base AND PTE_ADDR_MASK) OR PTE_VALID OR PTE_BLOCK OR PTE_ATTR_DEVICE OR PTE_SH_NONE OR PTE_ACCESSED)"
  shows "(pte AND PTE_ADDR_MASK AND NOT (mask 30)) OR (v AND mask 30) = v"
proof -
  have "unat v div 2 ^ 30 = unat (drop_bit 30 v)"
    unfolding unat_drop_bit_eq by (rule drop_bit_eq_div [symmetric])
  with assms(2) have "base = push_bit 30 (drop_bit 30 v)"
    by simp
  then have base: "bit base n \<longleftrightarrow> 30 \<le> n \<and> bit v n" for n
    using bit_imp_le_length [of v n] by (auto simp: bit_simps)
  have high: "n < 48" if "bit v n" for n
  proof -
    have "unat v < 2 ^ 48"
      using assms(1) by (simp add: word_less_nat_alt)
    then have "take_bit 48 (unat v) = unat v"
      by (rule take_bit_nat_eq_self)
    moreover have "bit (unat v) n"
      using that by (simp add: bit_simps)
    ultimately show ?thesis by (metis bit_take_bit_iff)
  qed
  have pte: "bit pte n \<longleftrightarrow> bit base n \<and> n < 48" if "12 \<le> n" for n
    using assms(2) [THEN conjunct2] that
    by (elim disjE) (simp_all add: bit_or_iff bit_and_iff bit_addr_mask bit_pte_consts)
  have "bit (pte AND PTE_ADDR_MASK AND NOT (mask 30)) n \<longleftrightarrow> 30 \<le> n \<and> bit v n" if "n < 64" for n
    using pte [of n] base [of n] high [of n] that by (auto simp: bit_and_iff bit_addr_mask bit_not_iff bit_mask_iff)
  then show ?thesis
    by (intro bit_eqI) (auto simp: bit_or_iff bit_and_iff [of v] bit_mask_iff)
qed

text \<open>The addresses that are mapped after boot: the devices, the memory, and the configuration space.\<close>

definition boot_mapped :: "nat \<Rightarrow> nat \<Rightarrow> bool" where
  "boot_mapped ram b \<longleftrightarrow> b \<le> ram_blocks ram \<or> b = 256"

definition boot_entry :: "nat \<Rightarrow> nat \<Rightarrow> u64" where
  "boot_entry ram b = (if b = 256 then device_block_pte 0x4000000000 else if b = 0 then device_block_pte 0
     else if b \<le> ram_blocks ram then ram_block_pte (b - 1) else 0)"

lemma boot_entry_identity:
  assumes "v < 2 ^ 48" and "boot_mapped ram (unat v div 2 ^ 30)"
  shows "(boot_entry ram (unat v div 2 ^ 30) AND PTE_ADDR_MASK AND NOT (mask 30)) OR (v AND mask 30) = v"
proof -
  let ?b = "unat v div 2 ^ 30"
  have base: "push_bit 30 (of_nat ?b) = 0x40000000 + of_nat (?b - 1) * push_bit 30 (1 :: u64)" if "0 < ?b"
  proof -
    from that have "of_nat ?b = 1 + (of_nat (?b - 1) :: u64)"
      by (metis Suc_pred' of_nat_Suc)
    then show ?thesis
      by (simp only:) (simp add: push_bit_eq_mult algebra_simps)
  qed
  consider "?b = 256 \<or> ?b = 0" | "?b \<noteq> 256" "0 < ?b" "?b \<le> ram_blocks ram"
    using assms(2) by (auto simp: boot_mapped_def)
  then show ?thesis
  proof cases
    case 1
    then have "boot_entry ram ?b = device_block_pte (push_bit 30 (of_nat ?b))"
      by (auto simp: boot_entry_def)
    then show ?thesis
      by (intro block_identity [OF assms(1), where base = "push_bit 30 (of_nat ?b)"])
        (simp add: device_block_pte_def)
  next
    case 2
    then have "boot_entry ram ?b = ram_block_pte (?b - 1)"
      by (simp add: boot_entry_def)
    then show ?thesis
      using base [OF 2(2)]
      by (intro block_identity [OF assms(1), where base = "push_bit 30 (of_nat ?b)"])
        (simp add: ram_block_pte_def VMM_LEVEL1_SHIFT_def)
  qed
qed

text \<open>The state in which the kernel calls \<open>vmm_init\<close>: its root table is zero and the supply of tables untouched.\<close>

definition vmm_boot :: "vmm \<Rightarrow> bool" where
  "vmm_boot s \<longleftrightarrow> pool_wf s \<and> table_ok (kernel_pgd s) \<and> kernel_pgd s \<notin> table_pool s \<and>
     early_table_index s = 0 \<and> (\<forall>i < 512. pmem s (kernel_pgd s + 8 * i) = 0)"

lemma ram_blocks_bounds: "1 \<le> ram_blocks ram" "ram_blocks ram \<le> 4"
  by (simp_all add: ram_blocks_def Let_def)

lemma vmm_init_tables:
  assumes boot: "vmm_boot s"
  shows "\<exists>s' t. vmm_init s = Some (s', 0) \<and> kernel_pgd s' = kernel_pgd s \<and> ttbr0_el1 s' = of_nat (kernel_pgd s) \<and>
    mm_index s' = mm_index s \<and> pool_wf s' \<and> table_pool s' \<noteq> {} \<and>
    table_ok t \<and> kernel_pgd s \<noteq> t \<and> kernel_pgd s \<notin> table_pool s' \<and> t \<notin> table_pool s' \<and>
    (\<forall>i < 512. pmem s' (kernel_pgd s + 8 * i) =
       (if i = 0 then phys_to_pte (of_nat t) (PTE_VALID OR PTE_TABLE) else 0)) \<and>
    (\<forall>j < 512. pmem s' (t + 8 * j) = boot_entry (total_memory (frames s)) j)"
proof -
  let ?t = "early_tables s" and ?root = "kernel_pgd s" and ?n = "ram_blocks (total_memory (frames s))"
  let ?x = "phys_to_pte (of_nat ?t) (PTE_VALID OR PTE_TABLE)"
  let ?m0 = "clear_table (pmem s) ?t [0..<512]"
  let ?m1 = "?m0(?root := ?x, ?t := device_block_pte 0)"
  let ?m2 = "fold (\<lambda>i m. m(pte_addr ?t (1 + int i) := ram_block_pte i)) [0..<?n] ?m1"
  let ?m3 = "?m2(?t + 2048 := device_block_pte 0x4000000000)"
  from boot have pool: "pool_wf s" and idx: "early_table_index s = 0" and
    root: "table_ok ?root" "?root \<notin> table_pool s" and zero: "\<forall>i < 512. pmem s (?root + 8 * i) = 0"
    by (simp_all add: vmm_boot_def)
  have t_pool: "?t + PAGE_SIZE * j \<in> table_pool s" if "j < 4" for j
    using that idx by (auto simp: table_pool_def EARLY_TABLES_COUNT_def)
  from t_pool [of 0] have t: "table_ok ?t" "?root \<noteq> ?t"
    using pool_tables_ok [OF pool] root(2) by auto
  define s1 where "s1 = s\<lparr>mair_el1 := vmm_mair, tcr_el1 := vmm_tcr, early_table_index := 1, pmem := ?m0\<rparr>"
  have "pte_index 0 0 = 0"
    by (simp add: pte_index_def)
  then have init: "vmm_init s = Some (s1\<lparr>pmem := ?m3, ttbr0_el1 := of_nat ?root, ttbr1_el1 := of_nat ?root,
      sctlr_el1 := sctlr_el1 s OR push_bit 0 1 OR push_bit 2 1 OR push_bit 12 1\<rparr>, 0)"
    using idx by (simp add: vmm_init_def alloc_page_table_def s1_def EARLY_TABLES_COUNT_def VMM_ENTRIES_def Let_def
        pmm_get_total_memory_def pte_addr_def)
  let ?s = "s1\<lparr>pmem := ?m3, ttbr0_el1 := of_nat ?root, ttbr1_el1 := of_nat ?root,
      sctlr_el1 := sctlr_el1 s OR push_bit 0 1 OR push_bit 2 1 OR push_bit 12 1\<rparr>"
  have "alloc_page_table s = Some (s\<lparr>early_table_index := 1, pmem := ?m0\<rparr>, Some ?t)"
    using idx by (simp add: alloc_page_table_def EARLY_TABLES_COUNT_def VMM_ENTRIES_def Let_def)
  with alloc_page_table_spec [OF pool] have "table_pool (s\<lparr>early_table_index := 1, pmem := ?m0\<rparr>) = table_pool s - {?t}"
    by simp
  then have pool': "table_pool ?s = table_pool s - {?t}"
    by (simp add: table_pool_def s1_def)
  have "?t + PAGE_SIZE * 1 \<in> table_pool ?s"
    using t_pool [of 1] pool' by simp
  then have "table_pool ?s \<noteq> {}" by blast
  have sep: "?root + 8 * i \<noteq> ?t + 8 * j" if "i < 512" "j < 512" for i j
    using entry_eq_iff [OF root(1) t(1) that] t(2) by blast
  have "?m3 (?root + 8 * i) = (if i = 0 then ?x else 0)" if i: "i < 512" for i
  proof -
    define a where "a = ?root + 8 * i"
    have "a \<noteq> ?t + 8 * Suc k" if "k < ?n" for k
      using sep [OF i, of "Suc k"] that ram_blocks_bounds(2) [of "total_memory (frames s)"] by (simp add: a_def)
    then have "(\<exists>k < ?n. a = ?t + 8 * Suc k) \<longleftrightarrow> False"
      by blast
    moreover have "a = ?t + 2048 \<longleftrightarrow> False" "a = ?t \<longleftrightarrow> False" "(\<exists>j < 512. a = ?t + 8 * j) \<longleftrightarrow> False"
      using sep [OF i, of 256] sep [OF i, of 0] sep [OF i] by (auto simp: a_def)
    ultimately have "?m3 a = (if a = ?root then ?x else pmem s a)"
      by (simp only: fun_upd_apply fold_entries clear_table_eq if_False)
    then show ?thesis
      using zero i by (simp add: a_def)
  qed
  moreover have "?m3 (?t + 8 * j) = boot_entry (total_memory (frames s)) j" if j: "j < 512" for j
  proof -
    have "?t + 8 * j \<noteq> ?root"
      using sep [of 0 j] j by simp
    moreover have "(\<exists>i < ?n. j = Suc i) \<longleftrightarrow> 0 < j \<and> j \<le> ?n"
      by (cases j) auto
    ultimately show ?thesis
      using j by (auto simp: fold_entries clear_table_eq boot_entry_def)
  qed
  ultimately show ?thesis
    using init pool' pool t root \<open>table_pool ?s \<noteq> {}\<close> t_pool [of 0]
    by (intro exI [of _ ?s] exI [of _ ?t]) (simp add: s1_def pool_wf_def)
qed

lemma boot_index:
  assumes "v < 2 ^ 48"
  shows "level_index (vpage_of v) 0 = 0 \<longleftrightarrow> unat v div 2 ^ 30 < 512"
    and "unat v div 2 ^ 30 < 512 \<Longrightarrow> level_index (vpage_of v) 1 = unat v div 2 ^ 30"
proof -
  have "unat v < 2 ^ 48"
    using assms by (simp add: word_less_nat_alt)
  then have "unat v div 2 ^ 39 < 512"
    by (simp add: div_less_iff_less_mult)
  moreover have "unat v div 2 ^ 39 = unat v div 2 ^ 30 div 512"
    by (simp add: div_mult2_eq [symmetric])
  ultimately show "level_index (vpage_of v) 0 = 0 \<longleftrightarrow> unat v div 2 ^ 30 < 512"
    using level_index_div [of 0 v] by (simp add: div_eq_0_iff)
  show "unat v div 2 ^ 30 < 512 \<Longrightarrow> level_index (vpage_of v) 1 = unat v div 2 ^ 30"
    using level_index_div [of 1 v] by simp
qed

lemma boot_entry_kinds: "\<not> pte_is_table (boot_entry ram b)" "pte_is_valid (boot_entry ram b) \<longleftrightarrow> boot_mapped ram b"
  by (auto simp: boot_entry_def boot_mapped_def block_entries)

lemma boot_tables:
  assumes ok: "table_ok root" "table_ok t" "root \<noteq> t" "root \<notin> P" "t \<notin> P" "\<forall>u \<in> P. table_ok u"
    and root: "\<forall>i < 512. m (root + 8 * i) = (if i = 0 then phys_to_pte (of_nat t) (PTE_VALID OR PTE_TABLE) else 0)"
    and entries: "\<forall>j < 512. m (t + 8 * j) = boot_entry ram j"
  shows "pt_wf m root P" and "table_at m root (take 3 (path k)) = None"
    and "v < 2 ^ 48 \<Longrightarrow> mmu_translate m root v = (if boot_mapped ram (unat v div 2 ^ 30) then Some v else None)"
proof -
  have "\<forall>j < 512. \<not> pte_is_table (m (t + 8 * j))"
    using entries boot_entry_kinds by simp
  note tables = block_tables [OF ok root this]
  show "pt_wf m root P" and "table_at m root (take 3 (path k)) = None"
    by (rule tables)+
  assume v: "v < 2 ^ 48"
  show "mmu_translate m root v = (if boot_mapped ram (unat v div 2 ^ 30) then Some v else None)"
  proof (cases "boot_mapped ram (unat v div 2 ^ 30)")
    case True
    then have b: "unat v div 2 ^ 30 < 512"
      using ram_blocks_bounds(2) [of ram] by (auto simp: boot_mapped_def)
    with True boot_index [OF v] have "mmu_lookup m root (vpage_of v) = Some (2, boot_entry ram (unat v div 2 ^ 30))"
      using tables(3) [of "vpage_of v"] entries boot_entry_kinds(2) by simp
    then show ?thesis
      using boot_entry_identity [OF v True] True by (simp add: mmu_translate_def)
  next
    case False
    then have "mmu_lookup m root (vpage_of v) = None"
      using boot_index [OF v] tables(3) [of "vpage_of v"] entries boot_entry_kinds(2)
      by (cases "unat v div 2 ^ 30 < 512") simp_all
    then show ?thesis
      using False by (simp add: mmu_translate_def)
  qed
qed

text \<open>C28. \<open>vmm_init\<close> on the boot state succeeds and loads a well-formed root table under which the memory
  management unit translates the first gigabyte, the detected memory (at least one and at most four
  gigabytes, rounded up) and the configuration space at 256 GB to themselves and no other address.
  \<open>vmm_virt_to_phys\<close> nevertheless answers 0, for not mapped, for every address: it does not look at
  blocks.\<close>

theorem vmm_init_identity:
  assumes boot: "vmm_boot s"
  shows "\<exists>s'. vmm_init s = Some (s', 0) \<and> kernel_wf s' \<and> ttbr0_el1 s' = of_nat (kernel_pgd s') \<and>
    (\<forall>v < 2 ^ 48. mmu_translate (pmem s') (kernel_pgd s') v =
       (if boot_mapped (total_memory (frames s)) (unat v div 2 ^ 30) then Some v else None)) \<and>
    (\<forall>v. vmm_virt_to_phys s' v = Some 0)"
proof -
  let ?ram = "total_memory (frames s)"
  from vmm_init_tables [OF boot] obtain s' t where init: "vmm_init s = Some (s', 0)"
    and s': "kernel_pgd s' = kernel_pgd s" "ttbr0_el1 s' = of_nat (kernel_pgd s)" "pool_wf s'"
    and t: "table_ok t" "kernel_pgd s \<noteq> t" "kernel_pgd s \<notin> table_pool s'" "t \<notin> table_pool s'"
    and entries: "\<forall>i < 512. pmem s' (kernel_pgd s + 8 * i) =
       (if i = 0 then phys_to_pte (of_nat t) (PTE_VALID OR PTE_TABLE) else 0)"
      "\<forall>j < 512. pmem s' (t + 8 * j) = boot_entry ?ram j"
    by blast
  have "table_ok (kernel_pgd s)" "\<forall>u \<in> table_pool s'. table_ok u"
    using boot pool_tables_ok [OF s'(3)] by (auto simp: vmm_boot_def)
  note tables = boot_tables [OF this(1) t(1,2,3,4) this(2) entries]
  have "vmm_virt_to_phys s' v = Some 0" for v
    using tables(2) [of "vpage_of v"] s'(1) by (simp add: vmm_virt_to_phys_def walk_page_table_find)
  with init tables(1,3) s' show ?thesis
    by (auto simp: space_wf_def)
qed

section \<open>User address spaces\<close>

lemma copy_entries:
  "(\<And>i j. i < 512 \<Longrightarrow> j < 512 \<Longrightarrow> t + 8 * i \<noteq> r + 8 * j) \<Longrightarrow> n \<le> 512 \<Longrightarrow>
     fold (\<lambda>i m. m(t + 8 * i := m (r + 8 * i))) [k..<n] m a =
       (if \<exists>i. k \<le> i \<and> i < n \<and> a = t + 8 * i then m (r + (a - t)) else m a)"
proof (induction n arbitrary: a)
  case (Suc n)
  let ?F = "fold (\<lambda>i m. m(t + 8 * i := m (r + 8 * i))) [k..<n] m"
  have F: "?F b = (if \<exists>i. k \<le> i \<and> i < n \<and> b = t + 8 * i then m (r + (b - t)) else m b)" for b
    using Suc by (simp add: fun_upd_def)
  have "r + 8 * n \<noteq> t + 8 * i" if "i < n" for i
    using Suc.prems(1) [of i n] Suc.prems(2) that by auto
  then have "?F (r + 8 * n) = m (r + 8 * n)"
    using F [of "r + 8 * n"] by auto
  then show ?case
    using F [of a] by (cases "k \<le> n") (auto simp: less_Suc_eq fun_upd_def)
qed simp

lemma new_space:
  assumes pool: "pool_wf s" "table_pool s \<noteq> {}" and mm: "mm_index s < 64"
    and root: "table_ok (kernel_pgd s)" "kernel_pgd s \<notin> table_pool s"
  shows "\<exists>s' t. vmm_create_address_space s = Some (s', Some (mm_index s)) \<and> pgd (mm_pool s' (mm_index s)) = Some t \<and>
    t \<in> table_pool s \<and> table_pool s' = table_pool s - {t} \<and> pool_wf s' \<and> kernel_pgd s' = kernel_pgd s \<and>
    ttbr0_el1 s' = ttbr0_el1 s \<and> (\<forall>i < 512. pmem s' (t + 8 * i) = (if i < 256 then 0 else pmem s (kernel_pgd s + 8 * i))) \<and>
    (\<forall>a. pmem s' a \<noteq> pmem s a \<longrightarrow> (\<exists>i < 512. a = t + 8 * i))"
proof -
  note upt_rec_numeral [simp del]
  let ?mm = "mm_index s" and ?s0 = "s\<lparr>mm_index := mm_index s + 1\<rparr>" and ?r = "kernel_pgd s"
  have "pool_wf ?s0" "table_pool ?s0 = table_pool s"
    using pool by (simp_all add: pool_wf_def table_pool_def)
  with alloc_page_table_spec [of ?s0] pool(2) obtain s1 t where
    alloc: "alloc_page_table ?s0 = Some (s1, Some t)" and s1: "pool_wf s1" "same_rest ?s0 s1"
      "t \<in> table_pool s" "table_pool s1 = table_pool s - {t}" "pmem s1 = clear_table (pmem s) t [0..<512]"
    by (fastforce split: option.splits)
  have t: "table_ok t" "?r \<noteq> t"
    using pool_tables_ok [OF pool(1) s1(3)] root(2) s1(3) by auto
  have sep: "t + 8 * i \<noteq> ?r + 8 * j" if "i < 512" "j < 512" for i j
    using entry_eq_iff [OF t(1) root(1) that] t(2) by blast
  have r1: "kernel_pgd s1 = ?r" "ttbr0_el1 s1 = ttbr0_el1 s"
    using same_rest_fields [OF s1(2)] by simp_all
  let ?m = "fold (\<lambda>i m. m(t + 8 * i := m (?r + 8 * i))) [256..<512] (pmem s1)"
  define s' where "s' = s1\<lparr>mm_pool := (mm_pool s1)(?mm := (mm_pool s1 ?mm)\<lparr>pgd := Some t, vma_list := None,
      total_vm := 0, mm_users := 1\<rparr>), pmem := ?m\<rparr>"
  have "\<not> 64 \<le> ?mm" "VMM_ENTRIES div 2 = 256"
    using mm by (simp_all add: VMM_ENTRIES_def)
  then have "vmm_create_address_space s = Some (s', Some ?mm)"
    unfolding vmm_create_address_space_def Let_def
    using alloc by (simp add: s'_def r1 VMM_ENTRIES_def)
  moreover have "pool_wf s'" "table_pool s' = table_pool s - {t}"
    using s1(1,4) by (simp_all add: s'_def pool_wf_def table_pool_def)
  moreover have m: "?m a = (if \<exists>i. 256 \<le> i \<and> i < 512 \<and> a = t + 8 * i then pmem s1 (?r + (a - t)) else pmem s1 a)" for a
    by (rule copy_entries [OF sep]) auto
  have m1: "pmem s1 a = (if \<exists>i < 512. a = t + 8 * i then 0 else pmem s a)" for a
    by (simp only: s1(5) clear_table_eq)
  have old: "pmem s1 (?r + 8 * i) = pmem s (?r + 8 * i)" if "i < 512" for i
  proof -
    have "(\<exists>j < 512. ?r + 8 * i = t + 8 * j) \<longleftrightarrow> False"
      using sep [OF _ that] by metis
    then show ?thesis
      unfolding m1 by (simp only: if_False)
  qed
  have "?m (t + 8 * i) = (if i < 256 then 0 else pmem s (?r + 8 * i))" if "i < 512" for i
    using m [of "t + 8 * i"] m1 [of "t + 8 * i"] old [OF that] that by auto
  moreover have "\<exists>i < 512. a = t + 8 * i" if "?m a \<noteq> pmem s a" for a
    using that m [of a] m1 [of a] by (auto split: if_splits)
  ultimately show ?thesis
    using s1(3) r1 by (auto simp: s'_def)
qed


section \<open>Witnesses\<close>

text \<open>A zeroed memory with the static tables at 1 GB and four pages for further tables.\<close>

definition sample_vmm :: vmm where
  "sample_vmm = \<lparr>pmem = (\<lambda>_. 0), kernel_pgd = 0x40200000, early_tables = 0x40201000, early_table_index = 0,
     mm_pool = (\<lambda>_. \<lparr>pgd = None, vma_list = None, total_vm = 0, mm_users = 0, start_code = 0, end_code = 0,
       start_data = 0, end_data = 0, start_brk = 0, brk = 0, start_stack = 0, arg_start = 0, arg_end = 0,
       env_start = 0, env_end = 0\<rparr>), mm_index = 0,
     vma_pool = (\<lambda>_. \<lparr>area_start = 0, area_end = 0, area_flags = 0, area_next = None\<rparr>), vma_index = 0,
     mair_el1 = 0, tcr_el1 = 0, ttbr0_el1 = 0, ttbr1_el1 = 0, sctlr_el1 = 0, frames = four_pages\<rparr>"

lemma sample_vmm_boot: "vmm_boot sample_vmm"
proof -
  have frames: "frames sample_vmm = four_pages" "memory_start four_pages = 4096" "memory_end four_pages = 20480"
    by (simp_all add: sample_vmm_def four_pages_def)
  have "pool_wf sample_vmm"
    unfolding pool_wf_def frames four_pages_free
    by (simp add: four_pages_inv frames) (simp add: sample_vmm_def EARLY_TABLES_COUNT_def)
  moreover have "kernel_pgd sample_vmm \<notin> table_pool sample_vmm"
    unfolding table_pool_def frames four_pages_free by (auto simp: sample_vmm_def frames)
  ultimately show ?thesis
    by (simp add: vmm_boot_def table_ok_def) (simp add: sample_vmm_def)
qed

lemma sample_vmm_wf: "kernel_wf sample_vmm"
  using sample_vmm_boot by (intro empty_root_wf) (simp_all add: vmm_boot_def)

lemma vmm_map_page_refines_witness:
  "kernel_wf sample_vmm \<and> (\<exists>s' r. vmm_map_page sample_vmm 0x80000000 0x5000 VM_WRITE = Some (s', r) \<and> kernel_wf s' \<and>
     (r = 0 \<and> vmm_virt_to_phys s' 0x80000000 = Some 0x5000 \<or> r = - 1 \<and> kernel_map s' = kernel_map sample_vmm))"
  using sample_vmm_wf vmm_map_page_refines [OF sample_vmm_wf, of "0x80000000" "0x5000" VM_WRITE]
  by (auto simp: PTE_ADDR_MASK_def)

lemma vmm_unmap_page_refines_witness:
  "\<exists>s' r. vmm_unmap_page sample_vmm 0x80000000 = Some (s', r) \<and> kernel_wf s'"
  using vmm_unmap_page_refines [OF sample_vmm_wf, of "0x80000000"] by blast

lemma vmm_map_range_all_or_nothing_witness:
  "\<exists>s' r. vmm_map_range sample_vmm 0x80000000 0x5000 0x2000 VM_WRITE = Some (s', r) \<and> kernel_wf s' \<and> r \<le> 0"
  using vmm_map_range_all_or_nothing [OF sample_vmm_wf, of "0x80000000" "0x5000" "0x2000" VM_WRITE] by auto

lemma vmm_init_identity_witness:
  "\<exists>s'. vmm_init sample_vmm = Some (s', 0) \<and> mmu_translate (pmem s') (kernel_pgd s') 0x40200010 = Some 0x40200010 \<and>
     vmm_virt_to_phys s' 0x40200010 = Some 0"
proof -
  have "boot_mapped (total_memory (frames sample_vmm)) (unat (0x40200010 :: u64) div 2 ^ 30)"
    using ram_blocks_bounds(1) by (simp add: boot_mapped_def)
  moreover have "(0x40200010 :: u64) < 2 ^ 48"
    by simp
  ultimately show ?thesis
    using vmm_init_identity [OF sample_vmm_boot] by metis
qed


end
