(* ===== verification/Vmm_User.thy ===== *)
theory Vmm_User
  imports Vmm_Spec
begin

text \<open>
  User address spaces of \<^verbatim>\<open>kernel/mm/vmm.c\<close>: mapping pages below a root other than the kernel's, with
  frames taken from the page allocator, and the list of areas of an address space.
\<close>

section \<open>Mapping a user page\<close>

lemma leaf_blocked:
  assumes wf: "pt_wf m root P" and t: "table_at m root (take 3 (path k)) = Some t"
    and blocked: "blocked (m(t + 8 * level_index k 3 := x)) root k'"
  shows "blocked m root k'"
proof -
  let ?i = "level_index k 3" and ?p = "take 3 (path k)"
  have p: "indices ?p" "length ?p = 3"
    by (simp_all add: indices_path)
  note leaf = leaf_update(1) [OF wf t p level_index_less]
  from blocked obtain l u where l: "l < 3" "table_at m root (take l (path k')) = Some u"
      "pte_is_valid ((m(t + 8 * ?i := x)) (u + 8 * level_index k' l))"
      "\<not> pte_is_table ((m(t + 8 * ?i := x)) (u + 8 * level_index k' l))"
    unfolding blocked_def using leaf [OF indices_path] by auto
  have "u \<noteq> t"
  proof
    assume "u = t"
    with pt_wfD(3) [OF wf p(1) t, of "take l (path k')"] l(1,2) have "take l (path k') = ?p"
      by (simp add: indices_path)
    then have "length (take l (path k')) = 3"
      using p(2) by simp
    with l(1) show False by simp
  qed
  moreover have "table_ok u" "table_ok t"
    using pt_wfD(1) [OF wf indices_path l(2)] pt_wfD(1) [OF wf p(1) t] l(1) by simp_all
  ultimately have "u + 8 * level_index k' l \<noteq> t + 8 * ?i"
    using entry_eq_iff by auto
  with l show ?thesis
    by (auto simp: blocked_def)
qed

lemma user_level_step:
  assumes wf: "space_wf s root" and t: "table_at (pmem s) root (take l (path (vpage_of v))) = Some t" and l: "l < 3"
    and clear: "\<not> blocked (pmem s) root (vpage_of v)" and shift: "shift = 39 - 9 * l"
  shows "\<exists>s' r. user_level s t v shift = Some (s', r) \<and> table_step s root s' \<and>
    mmu_lookup (pmem s') root = mmu_lookup (pmem s) root \<and>
    (\<forall>k. blocked (pmem s') root k \<longrightarrow> blocked (pmem s) root k) \<and>
    (case r of None \<Rightarrow> table_pool s' = {}
     | Some u \<Rightarrow> table_at (pmem s') root (take (Suc l) (path (vpage_of v))) = Some u)"
proof -
  let ?k = "vpage_of v"
  let ?e = "t + 8 * level_index ?k l"
  have e: "t + 8 * unat (drop_bit shift v AND (of_nat VMM_ENTRIES - 1)) = ?e"
    using unat_pte_index [of l shift v] l shift by simp
  have valid: "pmem s ?e AND PTE_VALID = 0 \<longleftrightarrow> \<not> pte_is_valid (pmem s ?e)"
    by (simp add: pte_is_valid_def)
  show ?thesis
  proof (cases "pte_is_valid (pmem s ?e)")
    case True
    then have "pte_is_table (pmem s ?e)"
      using clear t l by (auto simp: blocked_def)
    then have "table_at (pmem s) root (take (Suc l) (path ?k)) = Some (unat (pte_to_phys (pmem s ?e)))"
      using t l by (simp add: take_path_Suc table_at_append)
    then show ?thesis
      using True table_step_refl [OF wf] unfolding user_level_def e Let_def
      by (simp add: valid pte_to_phys_def)
  next
    case False
    from install_step [OF wf t l False] obtain s1 r where alloc: "alloc_page_table s = Some (s1, r)" and
      r: "case r of
       None \<Rightarrow> table_step s root s1 \<and> mmu_lookup (pmem s1) root = mmu_lookup (pmem s) root \<and> table_pool s1 = {}
     | Some n \<Rightarrow>
         let s2 = s1\<lparr>pmem := (pmem s1)(?e := phys_to_pte (of_nat n) (PTE_VALID OR PTE_TABLE))\<rparr>
         in table_step s root s2 \<and> mmu_lookup (pmem s2) root = mmu_lookup (pmem s) root \<and>
            table_at (pmem s2) root (take (Suc l) (path ?k)) = Some n \<and>
            (\<forall>k. blocked (pmem s2) root k \<longrightarrow> blocked (pmem s) root k)"
      by blast
    show ?thesis
    proof (cases r)
      case None
      have "pmem s1 = pmem s"
        using alloc_page_table_spec [of s] wf alloc None by (auto simp: space_wf_def)
      with None r alloc False show ?thesis
        unfolding user_level_def e Let_def by (simp add: valid)
    next
      case (Some n)
      let ?x = "phys_to_pte (of_nat n) (PTE_VALID OR PTE_TABLE)"
      have "table_ok n"
        using alloc_page_table_spec [of s] wf alloc Some pool_tables_ok [of s n] by (auto simp: space_wf_def)
      then have "unat (?x AND PTE_ADDR_MASK) = n"
        using phys_to_pte_table(2) by (simp add: pte_to_phys_def)
      with Some r alloc False show ?thesis
        unfolding user_level_def e Let_def by (simp add: valid phys_to_pte_def [symmetric])
    qed
  qed
qed

lemma user_pte_table: "pte_is_table ((p AND PTE_ADDR_MASK) OR user_pte_flags flags)"
  by (simp add: pte_is_table_bit user_pte_flags_def Let_def bit_or_iff bit_pte_consts)

definition user_pte :: "u32 \<Rightarrow> u64 \<Rightarrow> u64" where
  "user_pte flags p = (p AND PTE_ADDR_MASK) OR user_pte_flags flags"

text \<open>The three levels of \<open>vmm_map_user_page\<close> one after the other.\<close>

fun user_levels :: "vmm \<Rightarrow> addr \<Rightarrow> u64 \<Rightarrow> nat list \<Rightarrow> (vmm \<times> ptr) option" where
  "user_levels s t v [] = Some (s, Some t)"
| "user_levels s t v (l # ls) = do {
     (s, r) \<leftarrow> user_level s t v (39 - 9 * l);
     case r of None \<Rightarrow> Some (s, None) | Some u \<Rightarrow> user_levels s u v ls
   }"

lemma map_user_page_levels:
  assumes "pgd (mm_pool s k) = Some root" and "v < USER_VMA_END"
  shows "vmm_map_user_page s (Some k) v p flags = do {
     (s, r) \<leftarrow> user_levels s root v [0, 1, 2];
     case r of None \<Rightarrow> Some (s, - 1)
     | Some t \<Rightarrow> Some (s\<lparr>pmem := (pmem s)(t + 8 * level_index (vpage_of v) 3 := user_pte flags p)\<rparr>, 0)
   }"
  using assms unat_pte_index [of 3 12 v]
  by (auto simp: vmm_map_user_page_def VMM_LEVEL0_SHIFT_def VMM_LEVEL1_SHIFT_def VMM_LEVEL2_SHIFT_def
      VMM_LEVEL3_SHIFT_def user_pte_def not_le [symmetric] bind_eq_Some_conv split: option.splits bind_splits)

lemma user_levels_step:
  assumes "space_wf s root" and "table_at (pmem s) root (take l (path (vpage_of v))) = Some t" and "l \<le> 3"
    and "\<not> blocked (pmem s) root (vpage_of v)"
  shows "\<exists>s' r. user_levels s t v [l..<3] = Some (s', r) \<and> table_step s root s' \<and>
    mmu_lookup (pmem s') root = mmu_lookup (pmem s) root \<and>
    (\<forall>k. blocked (pmem s') root k \<longrightarrow> blocked (pmem s) root k) \<and>
    (case r of None \<Rightarrow> table_pool s' = {}
     | Some u \<Rightarrow> table_at (pmem s') root (take 3 (path (vpage_of v))) = Some u)"
  using assms
proof (induction "3 - l" arbitrary: l s t)
  case 0
  then show ?case by (simp add: table_step_refl)
next
  case (Suc d)
  then have l: "l < 3" "d = 3 - Suc l" by auto
  then have levels: "[l..<3] = l # [Suc l..<3]"
    by (simp add: upt_conv_Cons)
  from user_level_step [OF Suc.prems(1,2) l(1) Suc.prems(4) refl] obtain s1 r where
    s1: "user_level s t v (39 - 9 * l) = Some (s1, r)" "table_step s root s1"
      "mmu_lookup (pmem s1) root = mmu_lookup (pmem s) root" "\<forall>k. blocked (pmem s1) root k \<longrightarrow> blocked (pmem s) root k"
    and r: "case r of None \<Rightarrow> table_pool s1 = {}
      | Some u \<Rightarrow> table_at (pmem s1) root (take (Suc l) (path (vpage_of v))) = Some u"
    by blast
  show ?case
  proof (cases r)
    case None
    with s1 r show ?thesis by (simp add: levels)
  next
    case (Some u)
    have "space_wf s1 root" "\<not> blocked (pmem s1) root (vpage_of v)"
      using s1(2,4) Suc.prems(4) by (auto simp: table_step_def)
    from Suc.hyps(1) [OF l(2) this(1) _ _ this(2), of u] Some r l(1) s1 table_step_trans [OF s1(2)] show ?thesis
      by (auto simp: levels)
  qed
qed

lemma map_user_page_step:
  assumes wf: "space_wf s root" and mm: "pgd (mm_pool s k) = Some root" and v: "v < USER_VMA_END"
    and clear: "\<not> blocked (pmem s) root (vpage_of v)"
  shows "\<exists>s' r. vmm_map_user_page s (Some k) v p flags = Some (s', r) \<and> table_step s root s' \<and>
    (\<forall>k. blocked (pmem s') root k \<longrightarrow> blocked (pmem s) root k) \<and>
    (r = 0 \<and> mmu_lookup (pmem s') root = (mmu_lookup (pmem s) root)(vpage_of v \<mapsto> (0, user_pte flags p)) \<or>
     r = - 1 \<and> mmu_lookup (pmem s') root = mmu_lookup (pmem s) root \<and> table_pool s' = {})"
proof -
  let ?k = "vpage_of v"
  have "user_levels s root v [0, 1, 2] = user_levels s root v [0..<3]"
    by (simp add: upt_rec numeral_2_eq_2)
  with user_levels_step [OF wf, of 0 v root] clear obtain s1 r where
    s1: "user_levels s root v [0, 1, 2] = Some (s1, r)" "table_step s root s1"
      "mmu_lookup (pmem s1) root = mmu_lookup (pmem s) root" "\<forall>k. blocked (pmem s1) root k \<longrightarrow> blocked (pmem s) root k"
    and r: "case r of None \<Rightarrow> table_pool s1 = {} | Some u \<Rightarrow> table_at (pmem s1) root (take 3 (path ?k)) = Some u"
    by auto
  show ?thesis
  proof (cases r)
    case None
    with s1 r show ?thesis by (simp add: map_user_page_levels [OF mm v])
  next
    case (Some t)
    with r have t: "table_at (pmem s1) root (take 3 (path ?k)) = Some t" by simp
    have wf1: "space_wf s1 root"
      using s1(2) by (simp add: table_step_def)
    let ?s = "s1\<lparr>pmem := (pmem s1)(t + 8 * level_index ?k 3 := user_pte flags p)\<rparr>"
    have "mmu_lookup (pmem ?s) root = (mmu_lookup (pmem s) root)(?k \<mapsto> (0, user_pte flags p))"
      using leaf_step(2) [OF wf1 t, of "user_pte flags p"] s1(3) user_pte_table [of p flags]
      by (simp add: user_pte_def)
    moreover have "table_step s root ?s"
      using table_step_trans [OF s1(2) leaf_step(1) [OF wf1 t]] .
    moreover have "blocked (pmem s) root k'" if "blocked (pmem ?s) root k'" for k'
      using leaf_blocked [of "pmem s1" root "table_pool s1" ?k t _ k'] t wf1 s1(4) that
      by (auto simp: space_wf_def)
    ultimately show ?thesis
      using s1(1) Some by (simp add: map_user_page_levels [OF mm v])
  qed
qed

section \<open>Frames\<close>

lemma pt_wf_mono: "pt_wf m root P \<Longrightarrow> Q \<subseteq> P \<Longrightarrow> pt_wf m root Q"
  unfolding pt_wf_def by blast

lemma pool_not_table:
  "space_wf s root \<Longrightarrow> a \<in> table_pool s \<Longrightarrow> indices p \<Longrightarrow> table_at (pmem s) root p \<noteq> Some a"
  by (auto simp: space_wf_def dest: pt_wfD(2))

text \<open>Taking a frame from the page allocator makes the supply of tables smaller.\<close>

lemma alloc_frame:
  assumes wf: "space_wf s root" and "free_pages (frames s) \<noteq> {}"
  obtains f j where "pmm_alloc_page (frames s) = Some (f, page_addr (frames s) j)" "j \<in> free_pages (frames s)"
    "0 < page_addr (frames s) j" "page_addr (frames s) j \<in> table_pool s"
    "memory_start f = memory_start (frames s)" "total_pages f = total_pages (frames s)"
    "space_wf (s\<lparr>frames := f\<rparr>) root"
    "table_pool (s\<lparr>frames := f\<rparr>) = table_pool s - {page_addr (frames s) j}"
    "owned (s\<lparr>frames := f\<rparr>) root = owned s root - {page_addr (frames s) j}"
proof -
  from wf have pool: "pool_wf s" and tree: "pt_wf (pmem s) root (table_pool s)"
    by (simp_all add: space_wf_def)
  then have inv: "pmm_inv (frames s)"
    by (simp add: pool_wf_def)
  let ?j = "Min (free_pages (frames s))"
  let ?a = "page_addr (frames s) ?j"
  from alloc_page_least [OF inv assms(2)] obtain f where
    f: "pmm_alloc_page (frames s) = Some (f, ?a)" "pmm_inv f" "memory_start f = memory_start (frames s)"
      "total_pages f = total_pages (frames s)" "free_pages f = free_pages (frames s) - {?j}"
    by blast
  have j: "?j \<in> free_pages (frames s)"
    using Min_in [OF finite_free_pages assms(2)] .
  have "memory_end f = memory_end (frames s)"
    using inv f(2,3,4) by (simp add: pmm_inv_def pmm_range_def)
  then have pool': "pool_wf (s\<lparr>frames := f\<rparr>)"
    using pool f(2) unfolding pool_wf_def by (simp add: f(3,5))
  have early: "?a \<noteq> early_tables s + PAGE_SIZE * i" if "i < EARLY_TABLES_COUNT" for i
    using pool j that by (auto simp: pool_wf_def)
  have "page_addr (frames s) ` (free_pages (frames s) - {?j}) = page_addr (frames s) ` free_pages (frames s) - {?a}"
    by (subst image_set_diff) (auto simp: inj_on_def)
  then have pools: "table_pool (s\<lparr>frames := f\<rparr>) = table_pool s - {?a}" "?a \<in> table_pool s"
    using early j unfolding table_pool_def by (auto simp: f(3,5)) blast
  then have "space_wf (s\<lparr>frames := f\<rparr>) root"
    using pool' pt_wf_mono [OF tree] by (simp add: space_wf_def)
  moreover have "owned (s\<lparr>frames := f\<rparr>) root = owned s root - {?a}"
    using pools pool_not_table [OF wf pools(2)] by (auto simp: owned_def)
  moreover have "0 < ?a"
    using free_page_bounds [OF inv j] by simp
  ultimately show thesis
    using that [OF f(1) j _ pools(2) f(3,4) _ pools(1)] by simp
qed

text \<open>Giving back the only frame when the supply is empty.\<close>

lemma free_frame:
  assumes wf: "space_wf s root" and "table_pool s = {}" and j: "j < total_pages (frames s)"
    and apart: "page_addr (frames s) j \<notin> owned s root"
      "\<forall>i < EARLY_TABLES_COUNT. page_addr (frames s) j \<noteq> early_tables s + PAGE_SIZE * i"
  shows "\<exists>f. pmm_free_page (frames s) (page_addr (frames s) j) = Some f \<and> space_wf (s\<lparr>frames := f\<rparr>) root \<and>
    free_pages f = {j} \<and> owned (s\<lparr>frames := f\<rparr>) root \<subseteq> insert (page_addr (frames s) j) (owned s root)"
proof -
  from wf have pool: "pool_wf s" and tree: "pt_wf (pmem s) root (table_pool s)"
    by (simp_all add: space_wf_def)
  have inv: "pmm_inv (frames s)" and none: "free_pages (frames s) = {}"
    using pool assms(2) by (auto simp: pool_wf_def table_pool_def)
  have "(0 :: nat) \<le> MAX_ORDER" "j + 2 ^ 0 \<le> total_pages (frames s)"
    using j by simp_all
  from free_pages_run [OF inv this] none obtain f where
    f: "pmm_free_page (frames s) (page_addr (frames s) j) = Some f" "free_pages f = {j}"
      "memory_start f = memory_start (frames s)" "total_pages f = total_pages (frames s)" "pmm_inv f"
    by (auto simp: pmm_free_page_def)
  have "memory_end f = memory_end (frames s)"
    using inv f(3-5) by (simp add: pmm_inv_def pmm_range_def)
  then have pool': "pool_wf (s\<lparr>frames := f\<rparr>)"
    using pool f(5) apart(2) unfolding pool_wf_def by (auto simp: f(2,3))
  have tp: "table_pool (s\<lparr>frames := f\<rparr>) = {page_addr (frames s) j}"
    using assms(2) by (auto simp: table_pool_def f(2,3))
  have "table_ok (page_addr (frames s) j)"
    using pool_tables_ok [OF pool'] tp by simp
  then have "pt_wf (pmem s) root {page_addr (frames s) j}"
    using tree apart(1) unfolding pt_wf_def owned_def by auto
  then show ?thesis
    using f pool' tp by (auto simp: space_wf_def owned_def)
qed

section \<open>Mapping a user range\<close>

text \<open>The entries of the pages from \<open>v\<close> on for the frames \<open>fr\<close>.\<close>

definition user_entries :: "u32 \<Rightarrow> u64 \<Rightarrow> addr list \<Rightarrow> (vpage \<times> nat \<times> u64) list" where
  "user_entries flags v fr = map (\<lambda>i. (vpage_of (page_at v i), 0, user_pte flags (of_nat (fr ! i)))) [0..<length fr]"

lemma user_entries_Nil [simp]: "user_entries flags v [] = []"
  by (simp add: user_entries_def)

lemma user_entries_Cons:
  "user_entries flags v (a # fr) = (vpage_of v, 0, user_pte flags (of_nat a)) # user_entries flags (v + 4096) fr"
  by (simp add: user_entries_def upt_conv_Cons map_Suc_upt [symmetric] algebra_simps comp_def del: upt_Suc)

lemma unat_vpage_of: "unat v < 2 ^ 48 \<Longrightarrow> unat (vpage_of v) = unat v div PAGE_SIZE"
proof -
  assume v: "unat v < 2 ^ 48"
  have "unat (drop_bit 12 v) = unat v div PAGE_SIZE"
    unfolding unat_drop_bit_eq by (simp add: drop_bit_eq_div)
  moreover have "unat v div PAGE_SIZE < 2 ^ 36"
    using v by (simp add: div_less_iff_less_mult)
  ultimately show ?thesis
    by (simp add: vpage_of_def unsigned_ucast_eq take_bit_nat_eq_self)
qed

lemma unat_page_at:
  assumes "unat v + n * PAGE_SIZE \<le> 2 ^ 47" and "i \<le> n"
  shows "unat (page_at v i) = unat v + i * PAGE_SIZE"
proof -
  have "i * PAGE_SIZE \<le> n * PAGE_SIZE"
    using assms(2) by simp
  then have small: "i * PAGE_SIZE < 2 ^ 64" "unat v + i * PAGE_SIZE < 2 ^ 64"
    using assms(1) by simp_all
  then have "unat (of_nat (i * PAGE_SIZE) :: u64) = i * PAGE_SIZE"
    by (intro u64_unat_of_nat)
  with small(2) show ?thesis
    by (subst u64_unat_add) (simp_all del: of_nat_mult)
qed

lemma user_entries_keys:
  assumes "unat v + Suc n * PAGE_SIZE \<le> 2 ^ 47" and "length fr \<le> n"
  shows "vpage_of v \<notin> dom (map_of (user_entries flags (v + 4096) fr))"
proof
  assume "vpage_of v \<in> dom (map_of (user_entries flags (v + 4096) fr))"
  then obtain i where "i < length fr" "vpage_of v = vpage_of (page_at v (Suc i))"
    by (auto simp: dom_map_of_conv_image_fst user_entries_def algebra_simps)
  then have "unat (vpage_of v) = unat (vpage_of (page_at v (Suc i)))" "Suc i \<le> Suc n"
    using assms(2) by simp_all
  moreover from this have "unat (page_at v (Suc i)) = unat v + Suc i * PAGE_SIZE"
    using unat_page_at [OF assms(1), of "Suc i"] by simp
  moreover have "Suc i * PAGE_SIZE \<le> Suc n * PAGE_SIZE"
    using calculation(2) by (intro mult_le_mono1)
  ultimately show False
    using assms(1) unat_vpage_of [of v] unat_vpage_of [of "page_at v (Suc i)"] by simp
qed

text \<open>
  What the loop over the pages reaches: the pages of the frames \<open>fr\<close> are mapped, the frames were in the
  supply and are none of the tables; at most one frame is left when not all \<open>n\<close> pages were mapped.
\<close>

definition user_mapped :: "u32 \<Rightarrow> u64 \<Rightarrow> nat \<Rightarrow> addr \<Rightarrow> vmm \<Rightarrow> vmm \<Rightarrow> int \<Rightarrow> addr list \<Rightarrow> bool" where
  "user_mapped flags v n root s s' r fr \<longleftrightarrow> space_wf s' root \<and> owned s' root \<subseteq> owned s root \<and>
     distinct fr \<and> set fr \<subseteq> table_pool s \<and> set fr \<inter> owned s' root = {} \<and>
     mmu_lookup (pmem s') root = mmu_lookup (pmem s) root ++ map_of (user_entries flags v fr) \<and>
     (r = 0 \<and> length fr = n \<or> r = - 1 \<and> length fr < n \<and> card (free_pages (frames s')) \<le> 1)"

lemma user_mapped_Cons:
  assumes rest: "user_mapped flags (v + 4096) n root s2 s' r fr" and a: "a \<in> table_pool s"
    and s2: "owned s2 root \<subseteq> owned s root - {a}" "table_pool s2 \<subseteq> table_pool s - {a}"
      "mmu_lookup (pmem s2) root = (mmu_lookup (pmem s) root)(vpage_of v \<mapsto> (0, user_pte flags (of_nat a)))"
    and v: "unat v + Suc n * PAGE_SIZE \<le> 2 ^ 47"
  shows "user_mapped flags v (Suc n) root s s' r (a # fr)"
proof -
  let ?E = "map_of (user_entries flags (v + 4096) fr)" and ?L = "mmu_lookup (pmem s) root"
  have "length fr \<le> n"
    using rest by (auto simp: user_mapped_def)
  then have "vpage_of v \<notin> dom ?E"
    using user_entries_keys [OF v] by blast
  then have "mmu_lookup (pmem s') root = ?L ++ map_of (user_entries flags v (a # fr))"
    using rest s2(3) by (simp add: user_mapped_def user_entries_Cons map_add_upd_left)
  with rest a s2(1,2) show ?thesis
    unfolding user_mapped_def by auto
qed

lemma map_user_loop_spec:
  assumes "space_wf s root" and "pgd (mm_pool s k) = Some root" and "unat v + n * PAGE_SIZE \<le> 2 ^ 47"
    and "\<And>i. i < n \<Longrightarrow> \<not> blocked (pmem s) root (vpage_of (page_at v i))"
  shows "\<exists>s' r fr. map_user_loop s (Some k) v (page_at v n) flags = Some (s', r) \<and> user_mapped flags v n root s s' r fr"
  using assms
proof (induction n arbitrary: s v)
  case 0
  then show ?case
    by (intro exI [of _ s] exI [of _ 0] exI [of _ "[]"]) (simp add: map_user_loop.simps user_mapped_def)
next
  case (Suc n)
  have "unat (page_at v (Suc n)) = unat v + Suc n * PAGE_SIZE"
    by (rule unat_page_at [OF Suc.prems(3)]) simp
  then have less: "v < page_at v (Suc n)"
    by (simp add: word_less_nat_alt)
  show ?case
  proof (cases "free_pages (frames s) = {}")
    case True
    then have "pmm_alloc_page (frames s) = Some (frames s, 0)"
      using Suc.prems(1) by (intro alloc_page_none) (simp_all add: space_wf_def pool_wf_def)
    with less have "map_user_loop s (Some k) v (page_at v (Suc n)) flags = Some (s, - 1)"
      by (subst map_user_loop.simps) simp
    with Suc.prems(1) True show ?thesis
      by (intro exI [of _ s] exI [of _ "- 1"] exI [of _ "[]"]) (simp add: user_mapped_def)
  next
    case False
    obtain f j where
      alloc: "pmm_alloc_page (frames s) = Some (f, page_addr (frames s) j)" and j: "j \<in> free_pages (frames s)"
      and a: "0 < page_addr (frames s) j" "page_addr (frames s) j \<in> table_pool s"
      and f: "memory_start f = memory_start (frames s)" "total_pages f = total_pages (frames s)"
      and wf1: "space_wf (s\<lparr>frames := f\<rparr>) root"
        "table_pool (s\<lparr>frames := f\<rparr>) = table_pool s - {page_addr (frames s) j}"
        "owned (s\<lparr>frames := f\<rparr>) root = owned s root - {page_addr (frames s) j}"
      by (rule alloc_frame [OF Suc.prems(1) False])
    define a where "a = page_addr (frames s) j"
    define s1 where "s1 = s\<lparr>frames := f\<rparr>"
    have mm1: "pgd (mm_pool s1 k) = Some root" and mem1: "pmem s1 = pmem s"
      using Suc.prems(2) by (simp_all add: s1_def)
    have "v < USER_VMA_END"
      using Suc.prems(3) by (simp add: word_less_nat_alt USER_VMA_END_def)
    moreover have "\<not> blocked (pmem s1) root (vpage_of v)"
      using Suc.prems(4) [of 0] by (simp add: mem1)
    ultimately obtain s2 r where
      map: "vmm_map_user_page s1 (Some k) v (of_nat a) flags = Some (s2, r)" and step: "table_step s1 root s2"
      and open2: "\<forall>k. blocked (pmem s2) root k \<longrightarrow> blocked (pmem s1) root k"
      and r: "r = 0 \<and> mmu_lookup (pmem s2) root = (mmu_lookup (pmem s1) root)(vpage_of v \<mapsto> (0, user_pte flags (of_nat a))) \<or>
         r = - 1 \<and> mmu_lookup (pmem s2) root = mmu_lookup (pmem s1) root \<and> table_pool s2 = {}"
      using map_user_page_step [OF wf1(1) [folded s1_def] mm1] by blast
    have loop: "map_user_loop s (Some k) v stop flags =
        (if r \<noteq> 0 then do { f \<leftarrow> pmm_free_page (frames s2) a; Some (s2\<lparr>frames := f\<rparr>, r) }
         else map_user_loop s2 (Some k) (v + 4096) stop flags)" if "v < stop" for stop
      using that alloc [folded a_def] a(1) [folded a_def] map unfolding map_user_loop.simps [of s] s1_def
      by (simp add: Let_def)
    have wf2: "space_wf s2 root" "owned s2 root \<subseteq> owned s root - {a}" "table_pool s2 \<subseteq> table_pool s - {a}"
      using step wf1 by (auto simp: table_step_def s1_def a_def)
    from r show ?thesis
    proof
      assume r: "r = 0 \<and> mmu_lookup (pmem s2) root = (mmu_lookup (pmem s1) root)(vpage_of v \<mapsto> (0, user_pte flags (of_nat a)))"
      have v': "unat (v + 4096) + n * PAGE_SIZE \<le> 2 ^ 47"
        using unat_page_at [OF Suc.prems(3), of 1] Suc.prems(3) by simp
      have pages: "page_at (v + 4096) i = page_at v (Suc i)" for i
        by (simp add: algebra_simps)
      have "pgd (mm_pool s2 k) = Some root"
        using step mm1 same_rest_fields(3) by (auto simp: table_step_def)
      moreover have "\<not> blocked (pmem s2) root (vpage_of (page_at (v + 4096) i))" if "i < n" for i
        using Suc.prems(4) [of "Suc i"] that open2 unfolding mem1 pages by auto
      ultimately obtain s' r' fr where
        IH: "map_user_loop s2 (Some k) (v + 4096) (page_at v (Suc n)) flags = Some (s', r')"
          "user_mapped flags (v + 4096) n root s2 s' r' fr"
        using Suc.IH [OF wf2(1) _ v'] unfolding pages by blast
      moreover have "user_mapped flags v (Suc n) root s s' r' (a # fr)"
        using user_mapped_Cons [OF IH(2) a(2) [folded a_def] wf2(2,3)] r Suc.prems(3) by (simp add: mem1)
      ultimately show ?thesis
        using loop [OF less] r by auto
    next
      assume r: "r = - 1 \<and> mmu_lookup (pmem s2) root = mmu_lookup (pmem s1) root \<and> table_pool s2 = {}"
      have base: "memory_start (frames s2) = memory_start (frames s)" "total_pages (frames s2) = total_pages (frames s)"
          "early_tables s2 = early_tables s"
        using step same_rest_fields [of s1 s2] f by (simp_all add: table_step_def s1_def)
      have "j < total_pages (frames s2)" "page_addr (frames s2) j \<notin> owned s2 root"
          "\<forall>i < EARLY_TABLES_COUNT. page_addr (frames s2) j \<noteq> early_tables s2 + PAGE_SIZE * i"
        using j wf2(2) Suc.prems(1) unfolding base
        by (auto simp: a_def free_pages_def space_wf_def pool_wf_def)
      from free_frame [OF wf2(1) _ this] r obtain f' where
        f': "pmm_free_page (frames s2) a = Some f'" "space_wf (s2\<lparr>frames := f'\<rparr>) root" "free_pages f' = {j}"
        "owned (s2\<lparr>frames := f'\<rparr>) root \<subseteq> insert a (owned s2 root)"
        unfolding base a_def by blast
      have "a \<in> owned s root"
        using a(2) by (simp add: owned_def a_def)
      then have "owned (s2\<lparr>frames := f'\<rparr>) root \<subseteq> owned s root"
        using f'(4) wf2(2) by blast
      then have "user_mapped flags v (Suc n) root s (s2\<lparr>frames := f'\<rparr>) (- 1) []"
        using f'(2,3) r by (simp add: user_mapped_def mem1)
      then show ?thesis
        using loop [OF less] f'(1) r by auto
    qed
  qed
qed

definition user_range_pages :: "u64 \<Rightarrow> u64 \<Rightarrow> nat" where
  "user_range_pages vaddr sz = (unat vaddr + unat sz + PAGE_SIZE - 1) div PAGE_SIZE - unat vaddr div PAGE_SIZE"

lemma user_range_stop:
  assumes "unat vaddr + unat sz + PAGE_SIZE \<le> 2 ^ 47"
  shows "(vaddr + sz + 4096 - 1) AND NOT (4096 - 1) = page_at (PAGE_ALIGN_DOWN vaddr) (user_range_pages vaddr sz)"
    and "unat (PAGE_ALIGN_DOWN vaddr) + user_range_pages vaddr sz * PAGE_SIZE \<le> 2 ^ 47"
proof -
  let ?p = "unat vaddr div PAGE_SIZE" and ?q = "(unat vaddr + unat sz + PAGE_SIZE - 1) div PAGE_SIZE"
  have "?p \<le> ?q"
    by (intro div_le_mono) simp
  then have pages: "?p * PAGE_SIZE + user_range_pages vaddr sz * PAGE_SIZE = ?q * PAGE_SIZE"
    by (simp add: user_range_pages_def add_mult_distrib [symmetric])
  have small: "?q * PAGE_SIZE \<le> 2 ^ 47"
    using assms div_times_less_eq_dividend [of "unat vaddr + unat sz + PAGE_SIZE - 1" PAGE_SIZE] by linarith
  then show range: "unat (PAGE_ALIGN_DOWN vaddr) + user_range_pages vaddr sz * PAGE_SIZE \<le> 2 ^ 47"
    using pages by (simp add: page_align(1))
  have "unat (vaddr + sz) = unat vaddr + unat sz"
    using assms by (intro u64_unat_add) simp
  then have "unat (PAGE_ALIGN (vaddr + sz)) = ?q * PAGE_SIZE"
    using assms by (subst page_align(3)) simp_all
  also have "\<dots> = unat (page_at (PAGE_ALIGN_DOWN vaddr) (user_range_pages vaddr sz))"
    using unat_page_at [OF range order_refl] pages by (simp add: page_align(1))
  finally show "(vaddr + sz + 4096 - 1) AND NOT (4096 - 1) = page_at (PAGE_ALIGN_DOWN vaddr) (user_range_pages vaddr sz)"
    unfolding PAGE_ALIGN_def [symmetric] by (rule unsigned_word_eqI)
qed

text \<open>C27. For an address space without blocks and a range below the end of user memory, \<open>vmm_map_user_range\<close>
  returns and keeps the tables well-formed. It maps the pages of the range in order, each to a frame of its
  own that the page allocator had free and that is not used as a page table, and changes no other
  translation. It fails only with at most one frame left; the pages before that point stay mapped.\<close>

theorem vmm_map_user_range_maps:
  assumes wf: "space_wf s root" and mm: "pgd (mm_pool s k) = Some root"
    and range: "unat vaddr + unat sz + PAGE_SIZE \<le> 2 ^ 47" and clear: "\<forall>p. \<not> blocked (pmem s) root p"
  shows "\<exists>s' r fr. vmm_map_user_range s (Some k) vaddr sz flags = Some (s', r) \<and> space_wf s' root \<and>
    distinct fr \<and> set fr \<subseteq> table_pool s \<and> set fr \<inter> owned s' root = {} \<and>
    mmu_lookup (pmem s') root =
      mmu_lookup (pmem s) root ++ map_of (user_entries flags (PAGE_ALIGN_DOWN vaddr) fr) \<and>
    (r = 0 \<and> length fr = user_range_pages vaddr sz \<or>
     r = - 1 \<and> length fr < user_range_pages vaddr sz \<and> card (free_pages (frames s')) \<le> 1)"
proof -
  let ?v = "PAGE_ALIGN_DOWN vaddr" and ?n = "user_range_pages vaddr sz"
  let ?s = "fst (vmm_add_vma s (Some k) ?v (page_at ?v ?n) flags)"
  have same: "pmem ?s = pmem s" "frames ?s = frames s" "pgd (mm_pool ?s k) = Some root"
      "early_tables ?s = early_tables s" "early_table_index ?s = early_table_index s"
    using mm by (simp_all add: vmm_add_vma_def Let_def)
  then have "table_pool ?s = table_pool s" "space_wf ?s root"
    using wf by (simp_all add: space_wf_def pool_wf_def table_pool_def)
  moreover have "vmm_map_user_range s (Some k) vaddr sz flags = map_user_loop ?s (Some k) ?v (page_at ?v ?n) flags"
    unfolding vmm_map_user_range_def Let_def user_range_stop(1) [OF range] by (simp add: PAGE_ALIGN_DOWN_def)
  ultimately show ?thesis
    using map_user_loop_spec [of ?s root k ?v ?n flags] same clear user_range_stop(2) [OF range]
    unfolding user_mapped_def by auto
qed

section \<open>Areas\<close>

text \<open>Areas are linked in the order in which they were taken from the pool.\<close>

definition vma_wf :: "vmm \<Rightarrow> bool" where
  "vma_wf s \<longleftrightarrow> (\<forall>v < vma_index s. case area_next (vma_pool s v) of None \<Rightarrow> True | Some w \<Rightarrow> w < v) \<and>
     (\<forall>k. case vma_list (mm_pool s k) of None \<Rightarrow> True | Some v \<Rightarrow> v < vma_index s)"

lemma find_vma_terminates:
  assumes "\<forall>v < n. case area_next (pool v) of None \<Rightarrow> True | Some w \<Rightarrow> w < v"
    and "case vma of None \<Rightarrow> True | Some v \<Rightarrow> v < n"
  shows "\<exists>r. find_vma_loop pool vma a = Some r"
proof (cases vma)
  case (Some v)
  with assms(2) have "v < n" by simp
  then have "\<exists>r. find_vma_loop pool (Some v) a = Some r"
  proof (induction v rule: less_induct)
    case (less v)
    then show ?case
    proof (cases "area_next (pool v)")
      case None
      then show ?thesis
        by (subst find_vma_loop.simps) (simp add: find_vma_loop.simps)
    next
      case (Some w)
      then have "w < v"
        using assms(1) less.prems by force
      with less Some show ?thesis
        by (subst find_vma_loop.simps) simp
    qed
  qed
  with Some show ?thesis by simp
qed (simp add: find_vma_loop.simps)

lemma find_vma_cong:
  assumes "\<forall>v < n. case area_next (pool v) of None \<Rightarrow> True | Some w \<Rightarrow> w < v"
    and "case vma of None \<Rightarrow> True | Some v \<Rightarrow> v < n" and same: "\<And>v. v < n \<Longrightarrow> pool' v = pool v"
  shows "find_vma_loop pool' vma a = find_vma_loop pool vma a"
proof (cases vma)
  case (Some v)
  with assms(2) have "v < n" by simp
  then have "find_vma_loop pool' (Some v) a = find_vma_loop pool (Some v) a"
  proof (induction v rule: less_induct)
    case (less v)
    have "find_vma_loop pool' (area_next (pool v)) a = find_vma_loop pool (area_next (pool v)) a"
    proof (cases "area_next (pool v)")
      case (Some w)
      then have "w < v"
        using assms(1) less.prems by force
      with less Some show ?thesis by simp
    qed (simp add: find_vma_loop.simps)
    then show ?case
      using same [OF less.prems] find_vma_loop.simps [of pool' "Some v" a] find_vma_loop.simps [of pool "Some v" a]
      by simp
  qed
  with Some show ?thesis by simp
qed (simp add: find_vma_loop.simps)

text \<open>Looking for the area of an address always ends. After an area has been added to an address space,
  its addresses are found in it, every other address where it was found before, and other address spaces
  keep their areas; with the pool of 256 areas used up, adding fails and changes nothing.\<close>

theorem vmm_find_vma_after_add:
  assumes wf: "vma_wf s"
  shows "(\<exists>r. vmm_find_vma s mm a = Some r) \<and>
    (let s' = fst (vmm_add_vma s (Some k) start stop flags); r = snd (vmm_add_vma s (Some k) start stop flags)
     in if vma_index s \<ge> 256 then r = - 1 \<and> s' = s
        else r = 0 \<and> vma_wf s' \<and>
          vmm_find_vma s' (Some k) a =
            (if start \<le> a \<and> a < stop then Some (Some (vma_index s)) else vmm_find_vma s (Some k) a) \<and>
          (\<forall>k'. k' \<noteq> k \<longrightarrow> vmm_find_vma s' (Some k') a = vmm_find_vma s (Some k') a))"
proof -
  let ?n = "vma_index s" and ?pool = "vma_pool s"
  from wf have chain: "\<forall>v < ?n. case area_next (?pool v) of None \<Rightarrow> True | Some w \<Rightarrow> w < v"
    and heads: "\<And>k. case vma_list (mm_pool s k) of None \<Rightarrow> True | Some v \<Rightarrow> v < ?n"
    by (simp_all add: vma_wf_def)
  define pool' where "pool' = ?pool(?n := \<lparr>area_start = start, area_end = stop, area_flags = flags,
      area_next = vma_list (mm_pool s k)\<rparr>)"
  have same: "find_vma_loop pool' (vma_list (mm_pool s k')) a = find_vma_loop ?pool (vma_list (mm_pool s k')) a" for k'
    by (rule find_vma_cong [OF chain heads]) (simp add: pool'_def)
  have "find_vma_loop pool' (Some ?n) a =
      (if start \<le> a \<and> a < stop then Some (Some ?n) else find_vma_loop ?pool (vma_list (mm_pool s k)) a)"
    using same [of k] by (subst find_vma_loop.simps) (simp add: pool'_def)
  moreover have "\<exists>r. vmm_find_vma s mm a = Some r"
    using find_vma_terminates [OF chain heads] by (cases mm) (simp_all add: vmm_find_vma_def)
  moreover have "vma_wf (fst (vmm_add_vma s (Some k) start stop flags))" if "?n < 256"
    using wf that
    by (auto simp: vma_wf_def vmm_add_vma_def Let_def less_Suc_eq intro: less_SucI split: option.splits)
  ultimately show ?thesis
    using same by (auto simp: vmm_add_vma_def Let_def vmm_find_vma_def pool'_def)
qed

section \<open>Witnesses\<close>

definition sample_user :: vmm where
  "sample_user = sample_vmm\<lparr>mm_pool := (\<lambda>k. (mm_pool sample_vmm k)\<lparr>pgd := Some 0x40200000\<rparr>)\<rparr>"

lemma vmm_map_user_range_maps_witness:
  "\<exists>s' r fr. vmm_map_user_range sample_user (Some 0) 0x10000 0x1800 VM_WRITE = Some (s', r) \<and> space_wf s' 0x40200000 \<and>
     mmu_lookup (pmem s') 0x40200000 =
       mmu_lookup (pmem sample_user) 0x40200000 ++ map_of (user_entries VM_WRITE (PAGE_ALIGN_DOWN 0x10000) fr) \<and>
     (r = 0 \<and> length fr = 2 \<or> r = - 1 \<and> length fr < 2)"
proof -
  have "kernel_pgd sample_vmm = 0x40200000" "pmem sample_user = (\<lambda>_. 0)"
    by (simp_all add: sample_vmm_def sample_user_def)
  then have "space_wf sample_user 0x40200000" "\<forall>p. \<not> blocked (pmem sample_user) 0x40200000 p"
    using sample_vmm_wf
    by (simp_all add: sample_user_def space_wf_def pool_wf_def table_pool_def blocked_def)
  moreover have "pgd (mm_pool sample_user 0) = Some 0x40200000" "user_range_pages 0x10000 0x1800 = 2"
    by (simp_all add: sample_user_def user_range_pages_def)
  ultimately show ?thesis
    using vmm_map_user_range_maps [of sample_user "0x40200000" 0 "0x10000" "0x1800" VM_WRITE] by simp blast
qed

lemma vmm_find_vma_after_add_witness:
  "vmm_find_vma (fst (vmm_add_vma sample_user (Some 0) 0x1000 0x3000 VM_WRITE)) (Some 0) 0x2000 = Some (Some 0)"
proof -
  have "vma_wf sample_user" "vma_index sample_user = 0"
    by (simp_all add: vma_wf_def sample_user_def sample_vmm_def)
  then show ?thesis
    using vmm_find_vma_after_add [of sample_user None "0x2000" 0 "0x1000" "0x3000" VM_WRITE] by (simp add: Let_def)
qed

end
