(* ===== verification/Spinlock.thy ===== *)
theory Spinlock
  imports Prelude
begin

text \<open>
  Spinlocks, \<^verbatim>\<open>kernel/sync/spinlock.c\<close> and \<^verbatim>\<open>kernel/include/sync/spinlock.h\<close>: the locking routines of the
  four configurations as instruction sequences that the processors interleave. The state holds the lock
  word, and for each processor the next instruction, the scratch register, the exclusive monitor of
  load-exclusive and store-exclusive, the interrupt mask register and the flags that \<open>spin_lock_irqsave\<close>
  handed to its caller.
\<close>

section \<open>State\<close>

type_synonym cpu = nat

datatype arch = ARM64 | X86_64 | X86 | Generic

datatype pc = Idle | Held | Restore
  | Wfe | Ldaxr | Cbnz_lock | Stxr | Cbnz_retry
  | Try_ldaxr | Try_cbnz | Try_stxr | Try_cbz | Try_fail | Try_ok
  | Spin_read | Swap | Test | Try_swap | Try_test

record spin =
  lock :: u32
  pc :: "cpu \<Rightarrow> pc"
  tmp :: "cpu \<Rightarrow> u32"
  monitor :: "cpu \<Rightarrow> bool"
  got :: "cpu \<Rightarrow> u32"
  irq :: "cpu \<Rightarrow> u64"
  saved :: "cpu \<Rightarrow> u64 option"

definition spin_lock_init :: "spin \<Rightarrow> spin" where
  "spin_lock_init s = s\<lparr>lock := 0\<rparr>"

text \<open>\<open>daifset #0xf\<close> sets the four mask bits, \<open>cli\<close> clears the interrupt flag.\<close>

definition irq_mask :: "arch \<Rightarrow> u64 \<Rightarrow> u64" where
  "irq_mask a flags =
     (case a of ARM64 \<Rightarrow> flags OR 0x3C0 | X86_64 \<Rightarrow> flags AND NOT 0x200 | X86 \<Rightarrow> flags AND NOT 0x200 | Generic \<Rightarrow> flags)"

text \<open>
  The value that \<open>arch_irq_save_local\<close> returns, and the effect of \<open>arch_irq_restore_local\<close>. The generic
  configuration has no interrupt control.
\<close>

definition arch_irq_save_local :: "arch \<Rightarrow> spin \<Rightarrow> cpu \<Rightarrow> spin \<times> u64" where
  "arch_irq_save_local a s c =
     (if a = Generic then (s, 0) else (s\<lparr>irq := (irq s)(c := irq_mask a (irq s c))\<rparr>, irq s c))"

definition arch_irq_restore_local :: "arch \<Rightarrow> spin \<Rightarrow> cpu \<Rightarrow> u64 \<Rightarrow> spin" where
  "arch_irq_restore_local a s c flags =
     (if a = Generic then s else s\<lparr>irq := (irq s)(c := flags)\<rparr>)"

section \<open>Instructions\<close>

definition goto :: "spin \<Rightarrow> cpu \<Rightarrow> pc \<Rightarrow> spin" where
  "goto s c p = s\<lparr>pc := (pc s)(c := p)\<rparr>"

definition set_tmp :: "spin \<Rightarrow> cpu \<Rightarrow> u32 \<Rightarrow> spin" where
  "set_tmp s c v = s\<lparr>tmp := (tmp s)(c := v)\<rparr>"

text \<open>A store to the lock word takes the reservations of all processors away.\<close>

definition store_lock :: "spin \<Rightarrow> u32 \<Rightarrow> spin" where
  "store_lock s v = s\<lparr>lock := v, monitor := (\<lambda>_. False)\<rparr>"

definition ldaxr :: "spin \<Rightarrow> cpu \<Rightarrow> spin" where
  "ldaxr s c = (set_tmp s c (lock s))\<lparr>monitor := (monitor s)(c := True)\<rparr>"

definition stxr :: "spin \<Rightarrow> cpu \<Rightarrow> u32 \<Rightarrow> spin" where
  "stxr s c v =
     (if monitor s c then set_tmp (store_lock s v) c 0
      else (set_tmp s c 1)\<lparr>monitor := (monitor s)(c := False)\<rparr>)"

definition xchg :: "spin \<Rightarrow> cpu \<Rightarrow> u32 \<Rightarrow> spin" where
  "xchg s c v = set_tmp (store_lock s v) c (lock s)"

definition cmpxchg :: "spin \<Rightarrow> cpu \<Rightarrow> u32 \<Rightarrow> u32 \<Rightarrow> spin" where
  "cmpxchg s c expected desired =
     (if lock s = expected then set_tmp (store_lock s desired) c (lock s) else set_tmp s c (lock s))"

text \<open>The next instruction of \<open>spin_lock\<close> of each configuration.\<close>

fun arm64_lock :: "spin \<Rightarrow> cpu \<Rightarrow> spin" where
  "arm64_lock s c =
     (case pc s c of
        Wfe \<Rightarrow> goto s c Ldaxr
      | Ldaxr \<Rightarrow> goto (ldaxr s c) c Cbnz_lock
      | Cbnz_lock \<Rightarrow> goto s c (if tmp s c \<noteq> 0 then Wfe else Stxr)
      | Stxr \<Rightarrow> goto (stxr s c 1) c Cbnz_retry
      | Cbnz_retry \<Rightarrow> goto s c (if tmp s c \<noteq> 0 then Ldaxr else Held)
      | _ \<Rightarrow> s)"

fun x86_64_lock :: "spin \<Rightarrow> cpu \<Rightarrow> spin" where
  "x86_64_lock s c =
     (case pc s c of
        Spin_read \<Rightarrow> goto s c (if lock s \<noteq> 0 then Spin_read else Swap)
      | Swap \<Rightarrow> goto (cmpxchg s c 0 1) c Test
      | Test \<Rightarrow> goto s c (if tmp s c = 0 then Held else Spin_read)
      | _ \<Rightarrow> s)"

fun x86_lock :: "spin \<Rightarrow> cpu \<Rightarrow> spin" where
  "x86_lock s c =
     (case pc s c of
        Spin_read \<Rightarrow> goto s c (if lock s \<noteq> 0 then Spin_read else Swap)
      | Swap \<Rightarrow> goto (xchg s c 1) c Test
      | Test \<Rightarrow> goto s c (if tmp s c = 0 then Held else Spin_read)
      | _ \<Rightarrow> s)"

fun generic_lock :: "spin \<Rightarrow> cpu \<Rightarrow> spin" where
  "generic_lock s c =
     (case pc s c of
        Swap \<Rightarrow> goto (xchg s c 1) c Test
      | Test \<Rightarrow> goto s c (if tmp s c \<noteq> 0 then Swap else Held)
      | _ \<Rightarrow> s)"

text \<open>The next instruction of \<open>spin_trylock\<close>, which returns \<open>got\<close>.\<close>

definition return_try :: "spin \<Rightarrow> cpu \<Rightarrow> u32 \<Rightarrow> spin" where
  "return_try s c v = (goto s c (if v = 1 then Held else Idle))\<lparr>got := (got s)(c := v)\<rparr>"

fun arm64_trylock :: "spin \<Rightarrow> cpu \<Rightarrow> spin" where
  "arm64_trylock s c =
     (case pc s c of
        Try_ldaxr \<Rightarrow> goto (ldaxr s c) c Try_cbnz
      | Try_cbnz \<Rightarrow> goto s c (if tmp s c \<noteq> 0 then Try_fail else Try_stxr)
      | Try_stxr \<Rightarrow> goto (stxr s c 1) c Try_cbz
      | Try_cbz \<Rightarrow> goto s c (if tmp s c = 0 then Try_ok else Try_fail)
      | Try_fail \<Rightarrow> return_try s c 0
      | Try_ok \<Rightarrow> return_try s c 1
      | _ \<Rightarrow> s)"

fun swap_trylock :: "spin \<Rightarrow> cpu \<Rightarrow> spin" where
  "swap_trylock s c =
     (case pc s c of
        Try_swap \<Rightarrow> goto (xchg s c 1) c Try_test
      | Try_test \<Rightarrow> return_try s c (if tmp s c = 0 then 1 else 0)
      | _ \<Rightarrow> s)"

definition lock_entry :: "arch \<Rightarrow> pc" where
  "lock_entry a = (case a of ARM64 \<Rightarrow> Wfe | X86_64 \<Rightarrow> Spin_read | X86 \<Rightarrow> Spin_read | Generic \<Rightarrow> Swap)"

definition try_entry :: "arch \<Rightarrow> pc" where
  "try_entry a = (if a = ARM64 then Try_ldaxr else Try_swap)"

definition exec :: "arch \<Rightarrow> spin \<Rightarrow> cpu \<Rightarrow> spin" where
  "exec a s c =
     (if pc s c \<in> {Try_ldaxr, Try_cbnz, Try_stxr, Try_cbz, Try_fail, Try_ok} then arm64_trylock s c
      else if pc s c \<in> {Try_swap, Try_test} then swap_trylock s c
      else (case a of ARM64 \<Rightarrow> arm64_lock s c | X86_64 \<Rightarrow> x86_64_lock s c
                    | X86 \<Rightarrow> x86_lock s c | Generic \<Rightarrow> generic_lock s c))"

section \<open>Calls\<close>

definition spin_lock :: "arch \<Rightarrow> spin \<Rightarrow> cpu \<Rightarrow> spin" where
  "spin_lock a s c = goto s c (lock_entry a)"

definition spin_trylock :: "arch \<Rightarrow> spin \<Rightarrow> cpu \<Rightarrow> spin" where
  "spin_trylock a s c = goto s c (try_entry a)"

definition spin_unlock :: "spin \<Rightarrow> cpu \<Rightarrow> spin" where
  "spin_unlock s c = goto (store_lock s 0) c Idle"

definition spin_lock_irqsave :: "arch \<Rightarrow> spin \<Rightarrow> cpu \<Rightarrow> spin" where
  "spin_lock_irqsave a s c =
     (let (s, flags) = arch_irq_save_local a s c
      in spin_lock a (s\<lparr>saved := (saved s)(c := Some flags)\<rparr>) c)"

text \<open>\<open>spin_unlock_irqrestore\<close> in two steps: the store to the lock, and the restored interrupts.\<close>

definition spin_unlock_irqrestore :: "spin \<Rightarrow> cpu \<Rightarrow> spin" where
  "spin_unlock_irqrestore s c = goto (spin_unlock s c) c Restore"

definition irq_restore :: "arch \<Rightarrow> spin \<Rightarrow> cpu \<Rightarrow> u64 \<Rightarrow> spin" where
  "irq_restore a s c flags = goto ((arch_irq_restore_local a s c flags)\<lparr>saved := (saved s)(c := None)\<rparr>) c Idle"

text \<open>
  One step of some processor. Locks are released by the processor that holds them, with the routine that
  matches the one it took them with. A reservation may be lost at any time.
\<close>

inductive spin_step :: "arch \<Rightarrow> spin \<Rightarrow> spin \<Rightarrow> bool" for a where
  lock: "pc s c = Idle \<Longrightarrow> spin_step a s (spin_lock a s c)"
| trylock: "pc s c = Idle \<Longrightarrow> spin_step a s (spin_trylock a s c)"
| irqsave: "pc s c = Idle \<Longrightarrow> spin_step a s (spin_lock_irqsave a s c)"
| instr: "pc s c \<notin> {Idle, Held, Restore} \<Longrightarrow> spin_step a s (exec a s c)"
| unlock: "pc s c = Held \<Longrightarrow> saved s c = None \<Longrightarrow> spin_step a s (spin_unlock s c)"
| irqrestore: "pc s c = Held \<Longrightarrow> saved s c = Some flags \<Longrightarrow> spin_step a s (spin_unlock_irqrestore s c)"
| restored: "pc s c = Restore \<Longrightarrow> saved s c = Some flags \<Longrightarrow> spin_step a s (irq_restore a s c flags)"
| reservation_lost: "spin_step a s (s\<lparr>monitor := (monitor s)(c := False)\<rparr>)"

inductive_cases spin_step_cases: "spin_step a s s'"

section \<open>The invariant\<close>

text \<open>A processor owns the lock from the store that took it to the store that releases it.\<close>

definition owns :: "spin \<Rightarrow> cpu \<Rightarrow> bool" where
  "owns s c \<longleftrightarrow> pc s c \<in> {Held, Try_ok} \<or> pc s c \<in> {Cbnz_retry, Try_cbz, Test, Try_test} \<and> tmp s c = 0"

text \<open>The next store-exclusive of the processor would succeed.\<close>

definition reserved :: "spin \<Rightarrow> cpu \<Rightarrow> bool" where
  "reserved s c \<longleftrightarrow> monitor s c \<and> (pc s c \<in> {Cbnz_lock, Try_cbnz} \<and> tmp s c = 0 \<or> pc s c \<in> {Stxr, Try_stxr})"

definition lock_inv :: "spin \<Rightarrow> bool" where
  "lock_inv s \<longleftrightarrow> (\<forall>c d. owns s c \<and> owns s d \<longrightarrow> c = d) \<and> (lock s = 0 \<longleftrightarrow> (\<forall>c. \<not> owns s c)) \<and>
     (\<forall>c. reserved s c \<longrightarrow> lock s = 0)"

text \<open>Nothing of the other processors changes, except that they may lose their reservations.\<close>

definition only_cpu :: "spin \<Rightarrow> cpu \<Rightarrow> spin \<Rightarrow> bool" where
  "only_cpu s c s' \<longleftrightarrow> (\<forall>d. d \<noteq> c \<longrightarrow> pc s' d = pc s d \<and> tmp s' d = tmp s d \<and> (monitor s' d \<longrightarrow> monitor s d))"

lemma only_cpu_owns:
  assumes "only_cpu s c s'" and "d \<noteq> c"
  shows "owns s' d \<longleftrightarrow> owns s d" and "reserved s' d \<Longrightarrow> reserved s d"
  using assms by (auto simp: only_cpu_def owns_def reserved_def)

lemma inv_same:
  assumes inv: "lock_inv s" and other: "only_cpu s c s'" and "lock s' = lock s" and "owns s' c \<longleftrightarrow> owns s c"
    and "reserved s' c \<Longrightarrow> lock s = 0"
  shows "lock_inv s'"
proof -
  have "owns s' d \<longleftrightarrow> owns s d" for d
    using only_cpu_owns(1) [OF other] assms(4) by (cases "d = c") auto
  moreover have "reserved s' d \<Longrightarrow> lock s = 0" for d
    using only_cpu_owns(2) [OF other] assms(5) inv by (cases "d = c") (auto simp: lock_inv_def)
  ultimately show ?thesis
    using inv assms(3) by (auto simp: lock_inv_def)
qed

lemma inv_acquire:
  assumes inv: "lock_inv s" and other: "only_cpu s c s'" and "lock s = 0" and "lock s' \<noteq> 0" and "owns s' c"
    and "\<And>d. \<not> monitor s' d"
  shows "lock_inv s'"
proof -
  have "owns s' d \<longleftrightarrow> d = c" for d
    using only_cpu_owns(1) [OF other] inv assms(3,5) by (cases "d = c") (auto simp: lock_inv_def)
  moreover have "\<not> reserved s' d" for d
    using assms(6) by (simp add: reserved_def)
  ultimately show ?thesis
    using assms(4) by (auto simp: lock_inv_def)
qed

lemma inv_release:
  assumes inv: "lock_inv s" and other: "only_cpu s c s'" and "owns s c" and "lock s' = 0" and "\<not> owns s' c"
  shows "lock_inv s'"
proof -
  have "\<not> owns s' d" for d
    using only_cpu_owns(1) [OF other] inv assms(3,5) by (cases "d = c") (auto simp: lock_inv_def)
  then show ?thesis
    using assms(4) by (auto simp: lock_inv_def)
qed

lemmas instr_simps = goto_def set_tmp_def store_lock_def ldaxr_def stxr_def xchg_def cmpxchg_def return_try_def
  only_cpu_def owns_def reserved_def

lemma swap_inv:
  assumes inv: "lock_inv s" and "pc s c = p" and "p \<notin> {Held, Try_ok, Cbnz_retry, Try_cbz, Test, Try_test}"
    and "q \<in> {Test, Try_test}"
  shows "lock_inv (goto (xchg s c 1) c q)" and "lock_inv (goto (cmpxchg s c 0 1) c q)"
proof -
  show "lock_inv (goto (xchg s c 1) c q)"
  proof (cases "lock s = 0")
    case True
    show ?thesis by (rule inv_acquire [OF inv _ True, where c = c]) (use assms True in \<open>auto simp: instr_simps\<close>)
  next
    case False
    then obtain d where d: "owns s d" "d \<noteq> c"
      using inv assms(2,3) by (auto simp: lock_inv_def owns_def)
    let ?s = "goto (xchg s c 1) c q"
    have "owns ?s e \<longleftrightarrow> owns s e" for e
      using False assms(2,3,4) by (cases "e = c") (auto simp: instr_simps)
    moreover have "\<not> reserved ?s e" "lock ?s \<noteq> 0" for e
      by (simp_all add: instr_simps)
    ultimately show ?thesis
      using inv d(1) by (auto simp: lock_inv_def)
  qed
  show "lock_inv (goto (cmpxchg s c 0 1) c q)"
  proof (cases "lock s = 0")
    case True
    show ?thesis by (rule inv_acquire [OF inv _ True, where c = c]) (use assms True in \<open>auto simp: instr_simps\<close>)
  next
    case False
    show ?thesis
      by (rule inv_same [OF inv, where c = c]) (use assms False in \<open>auto simp: instr_simps\<close>)
  qed
qed

lemma stxr_inv:
  assumes inv: "lock_inv s" and "pc s c \<in> {Stxr, Try_stxr}" and "q \<in> {Cbnz_retry, Try_cbz}"
  shows "lock_inv (goto (stxr s c 1) c q)"
proof (cases "monitor s c")
  case True
  then have free: "lock s = 0"
    using inv assms(2) by (auto simp: lock_inv_def reserved_def)
  show ?thesis
    by (rule inv_acquire [OF inv _ free, where c = c]) (use assms True in \<open>auto simp: instr_simps\<close>)
next
  case False
  show ?thesis
    by (rule inv_same [OF inv, where c = c]) (use assms False in \<open>auto simp: instr_simps\<close>)
qed

lemma exec_inv:
  assumes inv: "lock_inv s" and "pc s c \<notin> {Idle, Held, Restore}"
  shows "lock_inv (exec a s c)"
proof -
  have res: "monitor s c \<Longrightarrow> pc s c \<in> {Cbnz_lock, Try_cbnz} \<Longrightarrow> tmp s c = 0 \<Longrightarrow> lock s = 0"
    using inv by (auto simp: lock_inv_def reserved_def)
  have same: "lock_inv s'" if "only_cpu s c s'" "lock s' = lock s" "owns s' c \<longleftrightarrow> owns s c" "reserved s' c \<Longrightarrow> lock s = 0" for s'
    using inv_same [OF inv] that by blast
  show ?thesis
  proof (cases "pc s c")
    case Stxr
    then show ?thesis using stxr_inv [OF inv, of c] inv by (auto simp: exec_def split: arch.splits)
  next
    case Try_stxr
    then show ?thesis using stxr_inv [OF inv, of c] by (auto simp: exec_def)
  next
    case Swap
    then show ?thesis using swap_inv [OF inv, of c Swap] inv by (auto simp: exec_def split: arch.splits)
  next
    case Try_swap
    then show ?thesis using swap_inv [OF inv, of c Try_swap] by (auto simp: exec_def)
  qed (use assms(2) inv res in \<open>auto intro!: same simp: exec_def instr_simps split: arch.splits\<close>)
qed


lemma spin_step_lock_inv:
  assumes step: "spin_step a s s'" and inv: "lock_inv s"
  shows "lock_inv s'"
  using step
proof cases
  case (instr c)
  then show ?thesis using exec_inv [OF inv] by simp
next
  case (unlock c)
  show ?thesis
    unfolding unlock(1) by (rule inv_release [OF inv, where c = c]) (use unlock in \<open>auto simp: spin_unlock_def instr_simps\<close>)
next
  case (irqrestore c flags)
  show ?thesis
    unfolding irqrestore(1) by (rule inv_release [OF inv, where c = c])
      (use irqrestore in \<open>auto simp: spin_unlock_irqrestore_def spin_unlock_def instr_simps\<close>)
next
  case (lock c)
  then show ?thesis
    by (intro inv_same [OF inv, where c = c]) (auto simp: spin_lock_def lock_entry_def instr_simps split: arch.splits)
next
  case (trylock c)
  then show ?thesis
    by (intro inv_same [OF inv, where c = c]) (auto simp: spin_trylock_def try_entry_def instr_simps split: if_splits)
next
  case (irqsave c)
  then show ?thesis
    by (intro inv_same [OF inv, where c = c])
      (auto simp: spin_lock_irqsave_def arch_irq_save_local_def spin_lock_def lock_entry_def instr_simps split: arch.splits)
next
  case (restored c flags)
  then show ?thesis
    by (intro inv_same [OF inv, where c = c])
      (auto simp: irq_restore_def arch_irq_restore_local_def instr_simps)
next
  case (reservation_lost c)
  then show ?thesis
    by (intro inv_same [OF inv, where c = c]) (auto simp: instr_simps)
qed

text \<open>
  The interrupt flags: a processor that took the lock with \<open>spin_lock_irqsave\<close> runs with its interrupts
  masked until \<open>spin_unlock_irqrestore\<close> has put the flags back, which are the flags it started with.
\<close>

definition try_pcs :: "pc set" where
  "try_pcs = {Try_ldaxr, Try_cbnz, Try_stxr, Try_cbz, Try_fail, Try_ok, Try_swap, Try_test}"

definition irq_inv :: "arch \<Rightarrow> (cpu \<Rightarrow> u64) \<Rightarrow> spin \<Rightarrow> bool" where
  "irq_inv a flags0 s \<longleftrightarrow> (\<forall>c. case saved s c of
       None \<Rightarrow> irq s c = flags0 c \<and> pc s c \<noteq> Restore
     | Some flags \<Rightarrow> irq s c = irq_mask a (flags0 c) \<and> pc s c \<notin> insert Idle try_pcs \<and> (a \<noteq> Generic \<longrightarrow> flags = flags0 c))"

lemma irq_invD:
  assumes "irq_inv a flags0 s"
  shows "saved s c = None \<Longrightarrow> irq s c = flags0 c \<and> pc s c \<noteq> Restore"
    and "saved s c = Some flags \<Longrightarrow> irq s c = irq_mask a (flags0 c) \<and> pc s c \<notin> insert Idle try_pcs \<and> (a \<noteq> Generic \<longrightarrow> flags = flags0 c)"
  using assms by (auto simp: irq_inv_def dest: spec [of _ c])

lemma exec_frame:
  shows "irq (exec a s c) = irq s" and "saved (exec a s c) = saved s"
    and "d \<noteq> c \<Longrightarrow> pc (exec a s c) d = pc s d"
    and "pc s c \<noteq> Restore \<Longrightarrow> pc (exec a s c) c \<noteq> Restore"
    and "pc s c \<notin> insert Idle try_pcs \<Longrightarrow> pc (exec a s c) c \<notin> insert Idle try_pcs"
  by (cases "pc s c"; cases a; simp add: exec_def instr_simps try_pcs_def)+

lemma irq_inv_other:
  assumes "irq_inv a flags0 s" and "\<And>d. d \<noteq> c \<Longrightarrow> irq s' d = irq s d \<and> saved s' d = saved s d \<and> pc s' d = pc s d"
    and "saved s' c = None \<Longrightarrow> irq s' c = flags0 c \<and> pc s' c \<noteq> Restore"
    and "\<And>flags. saved s' c = Some flags \<Longrightarrow>
      irq s' c = irq_mask a (flags0 c) \<and> pc s' c \<notin> insert Idle try_pcs \<and> (a \<noteq> Generic \<longrightarrow> flags = flags0 c)"
  shows "irq_inv a flags0 s'"
  unfolding irq_inv_def
proof
  fix d
  show "case saved s' d of None \<Rightarrow> irq s' d = flags0 d \<and> pc s' d \<noteq> Restore
      | Some flags \<Rightarrow> irq s' d = irq_mask a (flags0 d) \<and> pc s' d \<notin> insert Idle try_pcs \<and> (a \<noteq> Generic \<longrightarrow> flags = flags0 d)"
    using assms(1) assms(2) [of d] assms(3,4) by (cases "d = c") (auto simp: irq_inv_def split: option.splits dest: spec [of _ d])
qed

lemma irq_mask_generic [simp]: "irq_mask Generic flags = flags"
  by (simp add: irq_mask_def)

lemma spin_step_irq_inv:
  assumes step: "spin_step a s s'" and inv: "irq_inv a flags0 s"
  shows "irq_inv a flags0 s'"
  using step
proof cases
  case (instr c)
  show ?thesis
    unfolding instr(1) by (rule irq_inv_other [OF inv, where c = c])
      (use exec_frame irq_invD [OF inv, of c] in simp_all)
next
  case (reservation_lost c)
  then show ?thesis
    by (intro irq_inv_other [OF inv, where c = c]) (use irq_invD [OF inv, of c] in simp_all)
next
  case (lock c)
  show ?thesis
    unfolding lock(1) by (rule irq_inv_other [OF inv, where c = c])
      (use lock(2) irq_invD [OF inv, of c] in \<open>auto simp: spin_lock_def lock_entry_def goto_def split: arch.splits\<close>)
next
  case (trylock c)
  show ?thesis
    unfolding trylock(1) by (rule irq_inv_other [OF inv, where c = c])
      (use trylock(2) irq_invD [OF inv, of c] in \<open>auto simp: spin_trylock_def try_entry_def goto_def\<close>)
next
  case (irqsave c)
  then have "saved s c = None"
    using irq_invD(2) [OF inv, of c] by (cases "saved s c") auto
  then show ?thesis
    unfolding irqsave(1) using irqsave(2) irq_invD(1) [OF inv, of c]
    by (intro irq_inv_other [OF inv, where c = c])
      (auto simp: spin_lock_irqsave_def arch_irq_save_local_def spin_lock_def lock_entry_def goto_def try_pcs_def split: arch.splits)
next
  case (unlock c)
  show ?thesis
    unfolding unlock(1) by (rule irq_inv_other [OF inv, where c = c])
      (use unlock irq_invD [OF inv, of c] in \<open>auto simp: spin_unlock_def goto_def store_lock_def\<close>)
next
  case (irqrestore c flags)
  show ?thesis
    unfolding irqrestore(1) by (rule irq_inv_other [OF inv, where c = c])
      (use irqrestore irq_invD [OF inv, of c] in \<open>auto simp: spin_unlock_irqrestore_def spin_unlock_def goto_def store_lock_def try_pcs_def\<close>)
next
  case (restored c flags)
  show ?thesis
    unfolding restored(1) by (rule irq_inv_other [OF inv, where c = c])
      (use restored irq_invD [OF inv, of c] in \<open>auto simp: irq_restore_def arch_irq_restore_local_def goto_def\<close>)
qed

section \<open>Mutual exclusion\<close>

text \<open>
  What a client relies on: a machine of processors whose steps keep an invariant under which at most one
  processor is in its critical section.
\<close>

locale lock_machine =
  fixes step :: "'s \<Rightarrow> 's \<Rightarrow> bool" and good :: "'s \<Rightarrow> bool" and inside :: "'s \<Rightarrow> 'c \<Rightarrow> bool"
  assumes keep: "step s s' \<Longrightarrow> good s \<Longrightarrow> good s'"
    and unique: "good s \<Longrightarrow> inside s c \<Longrightarrow> inside s d \<Longrightarrow> c = d"
begin

lemma reachable_good: "step\<^sup>*\<^sup>* s s' \<Longrightarrow> good s \<Longrightarrow> good s'"
  by (induction rule: rtranclp_induct) (auto intro: keep)

lemma exclusive: "step\<^sup>*\<^sup>* s s' \<Longrightarrow> good s \<Longrightarrow> inside s' c \<Longrightarrow> inside s' d \<Longrightarrow> c = d"
  using reachable_good unique by blast

end

text \<open>The machine before any call: the lock initialised and every processor outside the lock routines.\<close>

definition spin_start :: "(cpu \<Rightarrow> u64) \<Rightarrow> spin" where
  "spin_start flags0 = spin_lock_init
     \<lparr>lock = 1, pc = \<lambda>_. Idle, tmp = \<lambda>_. 0, monitor = \<lambda>_. False, got = \<lambda>_. 0, irq = flags0, saved = \<lambda>_. None\<rparr>"

lemma spin_start_good: "lock_inv (spin_start flags0) \<and> irq_inv a flags0 (spin_start flags0)"
  by (simp add: spin_start_def spin_lock_init_def lock_inv_def irq_inv_def owns_def reserved_def)

interpretation spinlock: lock_machine "spin_step a" "\<lambda>s. lock_inv s \<and> irq_inv a flags0 s" owns
proof
  show "lock_inv s' \<and> irq_inv a flags0 s'" if "spin_step a s s'" "lock_inv s \<and> irq_inv a flags0 s" for s s'
    using that spin_step_lock_inv spin_step_irq_inv by blast
  show "c = d" if "lock_inv s \<and> irq_inv a flags0 s" "owns s c" "owns s d" for s c d
    using that by (auto simp: lock_inv_def)
qed

lemma owns_held: "pc s c = Held \<Longrightarrow> owns s c"
  by (simp add: owns_def)


section \<open>One processor at a time\<close>

text \<open>The next \<open>n\<close> instructions of a processor while the others stand still.\<close>

fun run_cpu :: "arch \<Rightarrow> nat \<Rightarrow> spin \<Rightarrow> cpu \<Rightarrow> spin" where
  "run_cpu a 0 s c = s"
| "run_cpu a (Suc n) s c = run_cpu a n (exec a s c) c"

lemma goto_sel:
  "pc (goto s c p) c = p" "lock (goto s c p) = lock s" "tmp (goto s c p) = tmp s" "monitor (goto s c p) = monitor s"
  "got (goto s c p) = got s"
  by (simp_all add: goto_def)

lemma instr_sel:
  "lock (ldaxr s c) = lock s" "tmp (ldaxr s c) c = lock s" "monitor (ldaxr s c) c"
  "monitor s c \<Longrightarrow> lock (stxr s c v) = v" "monitor s c \<Longrightarrow> tmp (stxr s c v) c = 0"
  "lock (xchg s c v) = v" "tmp (xchg s c v) c = lock s"
  "tmp (cmpxchg s c e v) c = lock s" "lock (cmpxchg s c e v) = (if lock s = e then v else lock s)"
  by (simp_all add: ldaxr_def stxr_def xchg_def cmpxchg_def set_tmp_def store_lock_def)

lemma return_sel:
  "pc (return_try s c v) c = (if v = 1 then Held else Idle)" "got (return_try s c v) c = v" "lock (return_try s c v) = lock s"
  by (simp_all add: return_try_def goto_def)

lemmas run_simps = eval_nat_numeral goto_sel instr_sel return_sel

text \<open>A processor that waits for a lock that is taken.\<close>

definition waiting :: "spin \<Rightarrow> cpu \<Rightarrow> bool" where
  "waiting s c \<longleftrightarrow> lock s \<noteq> 0 \<and> (pc s c \<in> {Wfe, Ldaxr, Spin_read, Swap} \<or> pc s c \<in> {Cbnz_lock, Test} \<and> tmp s c \<noteq> 0)"

lemma waiting_exec: "waiting s c \<Longrightarrow> waiting (exec a s c) c"
  by (cases "pc s c"; cases a; simp add: waiting_def exec_def instr_simps)

lemma waiting_run: "waiting s c \<Longrightarrow> waiting (run_cpu a n s c) c"
  by (induction n arbitrary: s) (auto intro: waiting_exec)

lemma waiting_not_held: "waiting s c \<Longrightarrow> pc s c \<noteq> Held"
  by (auto simp: waiting_def)

lemma exec_idle: "pc s c \<in> {Idle, Held} \<Longrightarrow> exec a s c = s"
  by (cases a) (auto simp: exec_def)

lemma exec_lock:
  "pc s c = Wfe \<Longrightarrow> exec ARM64 s c = goto s c Ldaxr"
  "pc s c = Ldaxr \<Longrightarrow> exec ARM64 s c = goto (ldaxr s c) c Cbnz_lock"
  "pc s c = Cbnz_lock \<Longrightarrow> exec ARM64 s c = goto s c (if tmp s c \<noteq> 0 then Wfe else Stxr)"
  "pc s c = Stxr \<Longrightarrow> exec ARM64 s c = goto (stxr s c 1) c Cbnz_retry"
  "pc s c = Cbnz_retry \<Longrightarrow> exec ARM64 s c = goto s c (if tmp s c \<noteq> 0 then Ldaxr else Held)"
  "pc s c = Spin_read \<Longrightarrow> a \<in> {X86, X86_64} \<Longrightarrow> exec a s c = goto s c (if lock s \<noteq> 0 then Spin_read else Swap)"
  "pc s c = Swap \<Longrightarrow> exec X86_64 s c = goto (cmpxchg s c 0 1) c Test"
  "pc s c = Swap \<Longrightarrow> a \<in> {X86, Generic} \<Longrightarrow> exec a s c = goto (xchg s c 1) c Test"
  "pc s c = Test \<Longrightarrow> a \<in> {X86, X86_64} \<Longrightarrow> exec a s c = goto s c (if tmp s c = 0 then Held else Spin_read)"
  "pc s c = Test \<Longrightarrow> exec Generic s c = goto s c (if tmp s c \<noteq> 0 then Swap else Held)"
  by (auto simp: exec_def)

lemma exec_try:
  "pc s c = Try_ldaxr \<Longrightarrow> exec a s c = goto (ldaxr s c) c Try_cbnz"
  "pc s c = Try_cbnz \<Longrightarrow> exec a s c = goto s c (if tmp s c \<noteq> 0 then Try_fail else Try_stxr)"
  "pc s c = Try_stxr \<Longrightarrow> exec a s c = goto (stxr s c 1) c Try_cbz"
  "pc s c = Try_cbz \<Longrightarrow> exec a s c = goto s c (if tmp s c = 0 then Try_ok else Try_fail)"
  "pc s c = Try_fail \<Longrightarrow> exec a s c = return_try s c 0"
  "pc s c = Try_ok \<Longrightarrow> exec a s c = return_try s c 1"
  "pc s c = Try_swap \<Longrightarrow> exec a s c = goto (xchg s c 1) c Try_test"
  "pc s c = Try_test \<Longrightarrow> exec a s c = return_try s c (if tmp s c = 0 then 1 else 0)"
  by (simp_all add: exec_def)

lemma lock_free_run:
  assumes "lock s = 0"
  shows "pc (run_cpu a 5 (spin_lock a s c) c) c = Held \<and> lock (run_cpu a 5 (spin_lock a s c) c) = 1"
  using assms by (cases a) (simp_all add: run_simps spin_lock_def lock_entry_def exec_lock exec_idle)

lemma trylock_run:
  "got (run_cpu a 5 (spin_trylock a s c) c) c = (if lock s = 0 then 1 else 0) \<and>
   pc (run_cpu a 5 (spin_trylock a s c) c) c = (if lock s = 0 then Held else Idle)"
  by (cases "a = ARM64"; cases "lock s = 0"; simp add: run_simps spin_trylock_def try_entry_def exec_try exec_idle)


text \<open>
  The witnesses start the X86 machine: processor 0 takes the lock with \<open>spin_lock_irqsave\<close>, then processor 1
  finds it taken.
\<close>

definition spin_held :: spin where
  "spin_held = run_cpu X86 3 (spin_lock_irqsave X86 (spin_start (\<lambda>_. 0x202)) 0) 0"

lemma spin_held_reachable: "(spin_step X86)\<^sup>*\<^sup>* (spin_start (\<lambda>_. 0x202)) spin_held"
proof -
  let ?s0 = "spin_start (\<lambda>_. 0x202)"
  let ?s1 = "spin_lock_irqsave X86 ?s0 0"
  let ?s2 = "exec X86 ?s1 0"
  let ?s3 = "exec X86 ?s2 0"
  have "spin_step X86 ?s0 ?s1"
    by (rule spin_step.irqsave) (simp add: spin_start_def spin_lock_init_def)
  moreover have "spin_step X86 ?s1 ?s2" "spin_step X86 ?s2 ?s3" "spin_step X86 ?s3 (exec X86 ?s3 0)"
    by (rule spin_step.instr; simp add: spin_start_def spin_lock_init_def spin_lock_irqsave_def arch_irq_save_local_def
        spin_lock_def lock_entry_def exec_def instr_simps)+
  ultimately show ?thesis
    by (simp add: spin_held_def eval_nat_numeral)
qed

lemma spin_held_state: "pc spin_held 0 = Held" "lock spin_held = 1" "saved spin_held 0 = Some 0x202" "irq spin_held 0 = 2"
  by (simp_all add: spin_held_def eval_nat_numeral spin_start_def spin_lock_init_def spin_lock_irqsave_def
      arch_irq_save_local_def spin_lock_def lock_entry_def exec_def instr_simps irq_mask_def)



end
