(* ===== verification/Net_Checksum.thy ===== *)
theory Net_Checksum
  imports Prelude
begin

text \<open>
  Byte order and checksums of the network stack, \<^verbatim>\<open>kernel/net/socket.c\<close> and \<^verbatim>\<open>kernel/net/tcp_ip.c\<close>: the
  conversions between host and network order of a little-endian machine, the Internet checksum over a
  block of memory, and the TCP checksum with its pseudo header. The reference is the checksum as the
  protocol defines it, on the bytes in network order.
\<close>

section \<open>Byte order\<close>

definition htons :: "u16 \<Rightarrow> u16" where
  "htons hostshort = (drop_bit 8 hostshort AND 0xFF) OR push_bit 8 (hostshort AND 0xFF)"

definition ntohs :: "u16 \<Rightarrow> u16" where
  "ntohs netshort = htons netshort"

definition htonl :: "u32 \<Rightarrow> u32" where
  "htonl hostlong = (drop_bit 24 hostlong AND 0xFF) OR (drop_bit 8 hostlong AND 0xFF00) OR
     push_bit 8 (hostlong AND 0xFF00) OR push_bit 24 (hostlong AND 0xFF)"

definition ntohl :: "u32 \<Rightarrow> u32" where
  "ntohl netlong = htonl netlong"

section \<open>Checksum\<close>

function checksum_loop :: "mem \<Rightarrow> addr \<Rightarrow> nat \<Rightarrow> u32 \<Rightarrow> u32" where
  "checksum_loop m p len acc =
     (if len > 1 then checksum_loop m (p + 2) (len - 2) (acc + ucast (read16 m p))
      else if len = 1 then acc + ucast (m p) else acc)"
  by pat_completeness auto
termination
  by (relation "measure (\<lambda>(m, p, len, acc). len)") auto

declare checksum_loop.simps [simp del]

lemma unat_byte: "unat (b :: byte) < 256"
  by (rule unsigned_less [THEN less_le_trans]) simp

lemma unat_ucast_byte: "8 \<le> LENGTH('a) \<Longrightarrow> unat (ucast (b :: byte) :: 'a::len word) = unat b"
  using unat_byte [of b] power_increasing [of 8 "LENGTH('a)" "2 :: nat"]
  by (simp add: unsigned_ucast_eq take_bit_nat_eq_self)

text \<open>The carries are added back until none is left.\<close>

lemma fold_decreases:
  assumes "drop_bit 16 s \<noteq> (0 :: u32)"
  shows "unat ((s AND 0xFFFF) + drop_bit 16 s) < unat s"
    and "unat ((s AND 0xFFFF) + drop_bit 16 s) = unat s mod 65536 + unat s div 65536"
proof -
  have hi: "unat (drop_bit 16 s) = unat s div 65536"
    unfolding unat_drop_bit_eq drop_bit_eq_div [of 16 "unat s"] by simp
  have mask: "s AND 0xFFFF = take_bit 16 s"
    by (simp add: take_bit_eq_mask mask_eq_exp_minus_1 and.commute)
  have lo: "unat (s AND 0xFFFF) = unat s mod 65536"
    unfolding mask unsigned_take_bit_eq take_bit_eq_mod [of 16 "unat s"] by simp
  have "unat s < 4294967296"
    using unsigned_less [of s] by simp
  then have "unat s div 65536 < 65536"
    by (intro less_mult_imp_div_less) simp
  moreover have "unat s mod 65536 < 65536"
    by simp
  ultimately have "unat s mod 65536 + unat s div 65536 < 4294967296"
    by linarith
  then show sum: "unat ((s AND 0xFFFF) + drop_bit 16 s) = unat s mod 65536 + unat s div 65536"
    by (simp add: unat_word_ariths lo hi)
  have "unat s div 65536 \<noteq> 0"
    using assms hi by (metis unat_eq_zero)
  then show "unat ((s AND 0xFFFF) + drop_bit 16 s) < unat s"
    using div_mult_mod_eq [of "unat s" 65536] unfolding sum by linarith
qed

function fold_sum :: "u32 \<Rightarrow> u32" where
  "fold_sum s = (if drop_bit 16 s \<noteq> 0 then fold_sum ((s AND 0xFFFF) + drop_bit 16 s) else s)"
  by pat_completeness auto
termination
  by (relation "measure unat") (auto intro: fold_decreases(1))

declare fold_sum.simps [simp del]

definition checksum :: "mem \<Rightarrow> addr \<Rightarrow> nat \<Rightarrow> u16" where
  "checksum m data len = ucast (NOT (fold_sum (checksum_loop m data len 0)))"

text \<open>The same routine for sockets, which takes a signed length.\<close>

definition ip_checksum :: "mem \<Rightarrow> addr \<Rightarrow> int \<Rightarrow> u16" where
  "ip_checksum m data len = ucast (NOT (fold_sum (checksum_loop m data (nat len) 0)))"

definition IP_PROTO_TCP :: u8 where "IP_PROTO_TCP = 6"

text \<open>The addresses are at offsets 12 and 16 of the IP header.\<close>

definition tcp_checksum :: "mem \<Rightarrow> addr \<Rightarrow> addr \<Rightarrow> nat \<Rightarrow> u16" where
  "tcp_checksum m ip tcp tcp_len =
     (let src_ip = read32 m (ip + 12); dst_ip = read32 m (ip + 16);
          acc = (drop_bit 16 src_ip AND 0xFFFF) + (src_ip AND 0xFFFF) + (drop_bit 16 dst_ip AND 0xFFFF) + (dst_ip AND 0xFFFF)
            + ucast (htons (ucast IP_PROTO_TCP)) + ucast (htons (of_nat tcp_len))
      in ucast (NOT (fold_sum (checksum_loop m tcp tcp_len acc))))"

section \<open>Bytes of words\<close>

lemma unat_le_word2: "unat (le_word [a, b] :: u16) = unat a + 256 * unat b"
proof -
  have a: "unat (ucast a :: u16) = unat a" and "unat (ucast b :: u16) = unat b"
    by (simp_all add: unat_ucast_byte)
  then have b: "unat (push_bit 8 (ucast b) :: u16) = 256 * unat b"
    using unat_byte [of b] unfolding unsigned_push_bit_eq take_bit_eq_mod push_bit_eq_mult [of 8 "unat _"] by simp
  have "(ucast a :: u16) AND push_bit 8 (ucast b) = 0"
    by (rule bit_eqI) (auto simp: bit_simps dest: bit_imp_le_length)
  then have "unat (ucast a OR push_bit 8 (ucast b) :: u16) = unat (ucast a + push_bit 8 (ucast b) :: u16)"
    by (simp add: disjunctive_add_eq_or)
  also have "\<dots> = unat (ucast a :: u16) + unat (push_bit 8 (ucast b) :: u16)"
    using unat_byte [of a] unat_byte [of b] by (intro unat_add_lem [THEN iffD1]) (simp only: a b, simp)
  finally show ?thesis
    by (simp only: a b le_word.simps push_bit_of_0 or.right_neutral)
qed


lemma unat_read16: "unat (read16 m p) = unat (m p) + 256 * unat (m (p + 1))"
proof -
  have "read_bytes m p 2 = [m p, m (p + 1)]"
    by (simp add: read_bytes_def eval_nat_numeral)
  then show ?thesis
    by (simp only: read16_def unat_le_word2)
qed

lemma byte_mask: "x AND 0xFF = take_bit 8 (x :: 'a::len word)"
  by (simp add: take_bit_eq_mask mask_eq_exp_minus_1 and.commute)

lemma unat_htons: "unat (htons w) = 256 * (unat w mod 256) + unat w div 256"
proof -
  have hi: "unat (drop_bit 8 w) = unat w div 256"
    unfolding unat_drop_bit_eq drop_bit_eq_div [of 8 "unat w"] by simp
  have lo: "unat (take_bit 8 w) = unat w mod 256"
    unfolding unsigned_take_bit_eq take_bit_eq_mod [of 8 "unat w"] by simp
  have small: "unat w div 256 < 256"
    using unsigned_less [of w, where 'a = nat] by (intro less_mult_imp_div_less) simp
  have "htons w = drop_bit 8 w OR push_bit 8 (take_bit 8 w)"
    unfolding htons_def byte_mask by (rule bit_eqI) (auto simp: bit_simps dest: bit_imp_le_length)
  also have "\<dots> = drop_bit 8 w + push_bit 8 (take_bit 8 w)"
    by (intro disjunctive_add_eq_or [symmetric] bit_eqI) (auto simp: bit_simps dest: bit_imp_le_length)
  finally have "unat (htons w) = (unat (drop_bit 8 w) + unat (push_bit 8 (take_bit 8 w))) mod 65536"
    by (simp add: unat_word_ariths)
  moreover have "unat (push_bit 8 (take_bit 8 w)) = 256 * (unat w mod 256)"
  proof -
    have "unat (push_bit 8 (take_bit 8 w)) = take_bit 16 (unat w mod 256 * 256)"
      unfolding unsigned_push_bit_eq lo by (simp add: push_bit_eq_mult)
    then show ?thesis
      using mod_less_divisor [of 256 "unat w"] by (simp add: take_bit_nat_eq_self)
  qed
  moreover have "unat w div 256 + 256 * (unat w mod 256) < 65536"
    using small mod_less_divisor [of 256 "unat w"] by linarith
  ultimately show ?thesis
    by (simp add: hi)
qed

section \<open>The reference\<close>

text \<open>
  Addition of 16-bit numbers in one's complement: a carry is added at the low end. The checksum of a
  message is the complement of the sum of its 16-bit words, high byte first, an odd byte padded with zero.
\<close>

definition oc_add :: "nat \<Rightarrow> nat \<Rightarrow> nat" where
  "oc_add x y = (if x + y < 65536 then x + y else x + y - 65535)"

fun oc_sum :: "byte list \<Rightarrow> nat" where
  "oc_sum [] = 0"
| "oc_sum [a] = 256 * unat a"
| "oc_sum (a # b # xs) = oc_add (256 * unat a + unat b) (oc_sum xs)"

definition rfc1071 :: "byte list \<Rightarrow> nat" where
  "rfc1071 xs = 65535 - oc_sum xs"

text \<open>The representative of a number in one's complement.\<close>

definition oc :: "nat \<Rightarrow> nat" where
  "oc n = (if n = 0 then 0 else (n - 1) mod 65535 + 1)"

lemma oc_unique:
  assumes "v \<le> 65535" and "v mod 65535 = n mod 65535" and "v = 0 \<longleftrightarrow> n = 0"
  shows "v = oc n"
proof (cases "n = 0")
  case True
  then show ?thesis using assms(3) by (simp add: oc_def)
next
  case False
  then obtain k v' where k: "n = Suc k" "v = Suc v'"
    using assms(3) by (metis not0_implies_Suc)
  then have "v' mod 65535 = k mod 65535"
    using assms(2) unfolding k nat_mod_eq_iff by simp
  then show ?thesis
    using assms(1) k by (simp add: oc_def)
qed

lemma oc_le: "oc n \<le> 65535"
  using mod_less_divisor [of 65535 "n - 1"] by (simp add: oc_def del: mod_less_divisor)

lemma oc_mod: "oc n mod 65535 = n mod 65535"
  by (cases n) (simp_all add: oc_def mod_Suc_eq)

lemma oc_zero [simp]: "oc n = 0 \<longleftrightarrow> n = 0"
  by (simp add: oc_def)

lemma oc_0 [simp]: "oc 0 = 0"
  by simp

lemma oc_add_oc:
  assumes "x \<le> 65535"
  shows "oc_add x (oc n) = oc (x + n)"
proof (rule oc_unique)
  show "oc_add x (oc n) \<le> 65535"
    using assms oc_le [of n] by (auto simp: oc_add_def)
  have "oc_add x (oc n) mod 65535 = (x + oc n) mod 65535"
    by (simp add: oc_add_def le_mod_geq)
  then show "oc_add x (oc n) mod 65535 = (x + n) mod 65535"
    by (metis mod_add_right_eq oc_mod)
  show "oc_add x (oc n) = 0 \<longleftrightarrow> x + n = 0"
    using assms oc_le [of n] oc_zero [of n] by (cases "n = 0") (auto simp: oc_add_def)
qed


text \<open>The sum of the words as the machine loads them, and in network order.\<close>

fun le_sum :: "byte list \<Rightarrow> nat" where
  "le_sum [] = 0"
| "le_sum [a] = unat a"
| "le_sum (a # b # xs) = unat a + 256 * unat b + le_sum xs"

fun be_sum :: "byte list \<Rightarrow> nat" where
  "be_sum [] = 0"
| "be_sum [a] = 256 * unat a"
| "be_sum (a # b # xs) = 256 * unat a + unat b + be_sum xs"

lemma word_bound: "unat (a :: byte) + 256 * unat (b :: byte) \<le> 65535" "256 * unat a + unat b \<le> 65535"
  using unat_byte [of a] unat_byte [of b] by linarith+

lemma oc_sum_eq: "oc_sum xs = oc (be_sum xs)"
proof (induction xs rule: oc_sum.induct)
  case (2 a)
  show ?case using word_bound(2) [of a 0] by (simp add: oc_def)
next
  case (3 a b xs)
  then show ?case by (simp add: oc_add_oc word_bound)
qed (simp add: oc_def)

lemma swap_sum: "\<exists>k. 256 * le_sum xs = be_sum xs + 65535 * k"
proof (induction xs rule: le_sum.induct)
  case (3 a b xs)
  then obtain k where "256 * le_sum xs = be_sum xs + 65535 * k" ..
  then have "256 * le_sum (a # b # xs) = be_sum (a # b # xs) + 65535 * (unat b + k)"
    by simp
  then show ?case ..
qed auto

lemma le_sum_zero: "le_sum xs = 0 \<longleftrightarrow> be_sum xs = 0"
  by (induction xs rule: le_sum.induct) auto

lemma le_sum_le: "le_sum xs \<le> 65535 * ((length xs + 1) div 2)"
proof (induction xs rule: le_sum.induct)
  case (2 a)
  show ?case using word_bound(1) [of a 0] by simp
next
  case (3 a b xs)
  then show ?case using word_bound(1) [of a b] by simp
qed simp

lemma le_sum_append: "even (length xs) \<Longrightarrow> le_sum (xs @ ys) = le_sum xs + le_sum ys"
  by (induction xs rule: le_sum.induct) auto

lemma be_sum_append: "even (length xs) \<Longrightarrow> be_sum (xs @ ys) = be_sum xs + be_sum ys"
  by (induction xs rule: be_sum.induct) auto

lemma le_sum_update:
  "even k \<Longrightarrow> Suc k < length xs \<Longrightarrow> xs ! k = 0 \<Longrightarrow> xs ! Suc k = 0 \<Longrightarrow>
     le_sum (xs[k := a, Suc k := b]) = le_sum xs + unat a + 256 * unat b"
proof (induction xs arbitrary: k rule: le_sum.induct)
  case (3 c d xs)
  show ?case
  proof (cases k)
    case 0
    with 3 show ?thesis by simp
  next
    case (Suc j)
    then obtain i where "k = Suc (Suc i)"
      using "3.prems"(1) by (metis even_Suc not0_implies_Suc odd_pos gr0_implies_Suc)
    with 3 show ?thesis by simp
  qed
qed auto

text \<open>What the loops compute.\<close>

lemma checksum_loop_eq:
  "unat acc + le_sum (read_bytes m p n) < 2 ^ 32 \<Longrightarrow>
     unat (checksum_loop m p n acc) = unat acc + le_sum (read_bytes m p n)"
proof (induction m p n acc rule: checksum_loop.induct)
  case (1 m p n acc)
  consider "n = 0" | "n = 1" | j where "n = Suc (Suc j)"
    by (cases n; cases "n - 1") auto
  then show ?case
  proof cases
    case 1
    then show ?thesis by (simp add: checksum_loop.simps)
  next
    case 2
    then show ?thesis
      using "1.prems" by (simp add: checksum_loop.simps read_bytes_Suc unat_word_ariths unat_ucast_byte)
  next
    case 3
    have bytes: "le_sum (read_bytes m p n) = unat (read16 m p) + le_sum (read_bytes m (p + 2) (n - 2))"
      by (simp add: 3 read_bytes_Suc unat_read16)
    have "unat (read16 m p) < 65536"
      using word_bound(1) [of "m p" "m (p + 1)"] by (simp add: unat_read16)
    then have "unat (ucast (read16 m p) :: u32) = unat (read16 m p)"
      by (simp add: unsigned_ucast_eq take_bit_nat_eq_self)
    then have "unat (acc + ucast (read16 m p)) = unat acc + unat (read16 m p)"
      using "1.prems" unfolding bytes by (simp add: unat_word_ariths)
    moreover have "checksum_loop m p n acc = checksum_loop m (p + 2) (n - 2) (acc + ucast (read16 m p))"
      by (subst checksum_loop.simps) (simp add: 3)
    ultimately show ?thesis
      using "1.IH" "1.prems" 3 unfolding bytes by simp
  qed
qed

lemma fold_sum_eq: "unat (fold_sum s) = oc (unat s)"
proof (induction s rule: fold_sum.induct)
  case (1 s)
  show ?case
  proof (cases "drop_bit 16 s = 0")
    case True
    moreover have "unat (drop_bit 16 s) = unat s div 65536"
      unfolding unat_drop_bit_eq drop_bit_eq_div [of 16 "unat s"] by simp
    ultimately have "unat s div 65536 = 0"
      by (simp only: unat_0)
    then have "unat s \<le> 65535"
      by (simp add: div_eq_0_iff)
    then have "unat s = oc (unat s)"
      by (intro oc_unique) simp_all
    with True show ?thesis
      by (simp add: fold_sum.simps)
  next
    case False
    let ?t = "(s AND 0xFFFF) + drop_bit 16 s"
    have t: "unat ?t = unat s mod 65536 + unat s div 65536"
      using fold_decreases(2) [OF False] .
    have "oc (unat ?t) = oc (unat s)"
    proof (intro oc_unique oc_le)
      have "unat s = unat ?t + 65535 * (unat s div 65536)"
        using div_mult_mod_eq [of "unat s" 65536] t by linarith
      then have "unat s mod 65535 = unat ?t mod 65535"
        by (metis mod_mult_self2)
      then show "oc (unat ?t) mod 65535 = unat s mod 65535"
        by (simp add: oc_mod)
      show "oc (unat ?t) = 0 \<longleftrightarrow> unat s = 0"
        unfolding oc_zero t by auto
    qed
    with False 1 show ?thesis
      by (simp add: fold_sum.simps [of s])
  qed
qed


lemma unat_not_u32:
  assumes "unat (x :: u32) \<le> 65535"
  shows "unat (ucast (NOT x) :: u16) = 65535 - unat x"
proof -
  have "NOT x = - 1 - x"
    by (metis not_eq_complement minus_diff_commute)
  then have "unat (NOT x) = unat (- 1 - x)"
    by simp
  also have "\<dots> = unat (- 1 :: u32) - unat x"
    by (rule unat_sub) simp
  finally have "unat (NOT x) = 4294967295 - unat x"
    by (simp add: unsigned_minus_1_eq_mask mask_eq_exp_minus_1)
  moreover have "4294967295 - unat x = 65535 - unat x + 65535 * 65536"
    using assms by simp
  ultimately have "unat (NOT x) mod 65536 = (65535 - unat x) mod 65536"
    by (simp only: mod_mult_self1)
  also have "\<dots> = 65535 - unat x"
    by (rule mod_less) simp
  finally show ?thesis
    by (simp add: unsigned_ucast_eq take_bit_eq_mod)
qed

text \<open>The complemented sum of a start value and a block, which all checksums are.\<close>

definition sum16 :: "u32 \<Rightarrow> mem \<Rightarrow> addr \<Rightarrow> nat \<Rightarrow> u16" where
  "sum16 acc m p n = ucast (NOT (fold_sum (checksum_loop m p n acc)))"

lemma sum16_eq:
  assumes "unat acc + le_sum (read_bytes m p n) < 2 ^ 32"
  shows "unat (sum16 acc m p n) = 65535 - oc (unat acc + le_sum (read_bytes m p n))"
  unfolding sum16_def using unat_not_u32 [of "fold_sum (checksum_loop m p n acc)"]
  by (simp add: fold_sum_eq checksum_loop_eq [OF assms] oc_le)

text \<open>Exchanging the bytes of all words exchanges the bytes of the sum.\<close>

lemma swap_oc: "256 * (oc (le_sum xs) mod 256) + oc (le_sum xs) div 256 = oc (be_sum xs)" (is "?swap = _")
proof (rule oc_unique)
  let ?v = "oc (le_sum xs)"
  have "?v div 256 < 256"
    using oc_le [of "le_sum xs"] by (intro less_mult_imp_div_less) simp
  moreover have "?v mod 256 < 256"
    by simp
  ultimately show "?swap \<le> 65535"
    by linarith
  have "256 * ?v = ?swap + 65535 * (?v div 256)"
    using div_mult_mod_eq [of ?v 256] by linarith
  then have "?swap mod 65535 = 256 * ?v mod 65535"
    by (metis mod_mult_self2)
  also have "\<dots> = 256 * le_sum xs mod 65535"
    by (metis mod_mult_right_eq oc_mod)
  also have "\<dots> = be_sum xs mod 65535"
    using swap_sum [of xs] by auto
  finally show "?swap mod 65535 = be_sum xs mod 65535" .
  have "?swap = 0 \<longleftrightarrow> ?v = 0"
    using div_mult_mod_eq [of ?v 256] by auto
  then show "?swap = 0 \<longleftrightarrow> be_sum xs = 0"
    by (simp add: le_sum_zero)
qed

lemma swap_complement:
  assumes "v \<le> (65535 :: nat)"
  shows "256 * ((65535 - v) mod 256) + (65535 - v) div 256 = 65535 - (256 * (v mod 256) + v div 256)"
proof -
  define h l where "h = v div 256" and "l = v mod 256"
  moreover have "v div 256 < 256"
    using assms by (intro less_mult_imp_div_less) simp
  ultimately have v: "v = 256 * h + l" "l < 256" "h < 256"
    by simp_all
  then obtain a b where ab: "a = 255 - h" "b = 255 - l" "b < 256"
    by auto
  have "65535 - v = 256 * a + b"
    using v unfolding ab by auto
  then have "(65535 - v) mod 256 = b" "(65535 - v) div 256 = a"
    using ab(3) by simp_all
  moreover have "v mod 256 = l" "v div 256 = h"
    using v by simp_all
  ultimately show ?thesis
    using v unfolding ab by simp
qed

lemma sum16_rfc1071:
  assumes "unat acc = le_sum ps" and "even (length ps)" and "length ps + n \<le> 131072"
  shows "unat (htons (sum16 acc m p n)) = rfc1071 (ps @ read_bytes m p n)"
proof -
  let ?xs = "ps @ read_bytes m p n"
  have le: "unat acc + le_sum (read_bytes m p n) = le_sum ?xs"
    using assms(1,2) by (simp add: le_sum_append)
  have "(length ?xs + 1) div 2 \<le> 65536"
    using assms(3) by simp
  then have "65535 * ((length ?xs + 1) div 2) \<le> 65535 * 65536"
    by (rule mult_le_mono2)
  then have bound: "le_sum ?xs < 2 ^ 32"
    using le_sum_le [of ?xs] by simp
  let ?v = "oc (le_sum ?xs)"
  have "unat (sum16 acc m p n) = 65535 - ?v"
    using sum16_eq [of acc m p n] bound unfolding le by simp
  moreover have "256 * ((65535 - ?v) mod 256) + (65535 - ?v) div 256 = 65535 - (256 * (?v mod 256) + ?v div 256)"
    by (rule swap_complement) (rule oc_le)
  ultimately show ?thesis
    by (simp only: unat_htons swap_oc rfc1071_def oc_sum_eq)
qed

text \<open>Storing the checksum in a field that was zero makes the checksum zero, which is what a receiver verifies.\<close>

lemma bytes_of_u16: "unat (ucast (c :: u16) :: byte) + 256 * unat (ucast (drop_bit 8 c) :: byte) = unat c"
proof -
  have "unat (drop_bit 8 c) = unat c div 256"
    unfolding unat_drop_bit_eq drop_bit_eq_div [of 8 "unat c"] by simp
  moreover have "unat c div 256 < 256"
    using unsigned_less [of c, where 'a = nat] by (intro less_mult_imp_div_less) simp
  ultimately have "unat (ucast (drop_bit 8 c) :: byte) = unat c div 256"
    by (simp add: unsigned_ucast_eq take_bit_nat_eq_self)
  moreover have "unat (ucast c :: byte) = unat c mod 256"
    by (simp add: unsigned_ucast_eq take_bit_eq_mod)
  ultimately show ?thesis
    by simp
qed

lemma oc_complement: "oc (n + (65535 - oc n)) = 65535"
proof (rule oc_unique [symmetric])
  have le: "oc n \<le> n"
    by (cases n) (simp_all add: oc_def mod_less_eq_dividend)
  have "(n - oc n) mod 65535 = 0"
    using le oc_mod [of n] mod_eq_dvd_iff_nat [of "oc n" n 65535] by (simp add: mod_0_imp_dvd)
  moreover have "n + (65535 - oc n) = n - oc n + 65535"
    using le oc_le [of n] by simp
  ultimately show "65535 mod 65535 = (n + (65535 - oc n)) mod 65535"
    by simp
  show "(65535 :: nat) = 0 \<longleftrightarrow> n + (65535 - oc n) = 0"
    using le oc_le [of n] by auto
qed simp

lemma sum16_verifies:
  assumes small: "unat acc \<le> 655350" "n \<le> 131000" and k: "even k" "k + 1 < n" and zero: "m (p + k) = 0" "m (p + k + 1) = 0"
    and c: "c = sum16 acc m p n" and m': "m' = write_bytes m (p + k) [ucast c, ucast (drop_bit 8 c)]"
  shows "sum16 acc m' p n = 0"
proof -
  let ?xs = "read_bytes m p n" and ?ys = "read_bytes m' p n"
  let ?L = "unat acc + le_sum ?xs"
  have "(length ?xs + 1) div 2 \<le> 65500"
    using small(2) by simp
  then have "65535 * ((length ?xs + 1) div 2) \<le> 65535 * 65500"
    by (rule mult_le_mono2)
  then have bound: "?L + 65535 < 2 ^ 32"
    using le_sum_le [of ?xs] small(1) by simp
  have "?ys = ?xs[k := ucast c, Suc k := ucast (drop_bit 8 c)]"
    using k unfolding m' by (auto intro!: nth_equalityI simp: write_bytes_def nth_list_update nth_Cons')
  then have "le_sum ?ys = le_sum ?xs + unat c"
    using le_sum_update [of k ?xs "ucast c" "ucast (drop_bit 8 c)"] k zero bytes_of_u16 [of c] by simp
  moreover have "unat c = 65535 - oc ?L"
    using sum16_eq [of acc m p n] bound unfolding c by simp
  ultimately have L: "unat acc + le_sum ?ys = ?L + (65535 - oc ?L)"
    by simp
  then have "unat acc + le_sum ?ys < 2 ^ 32"
    using bound by linarith
  from sum16_eq [OF this] have "unat (sum16 acc m' p n) = 0"
    unfolding L oc_complement by simp
  then show ?thesis
    by (simp only: unat_eq_zero)
qed

text \<open>The pseudo header of TCP: both addresses as they are in the IP header, the protocol, the length.\<close>

definition pseudo_header :: "mem \<Rightarrow> addr \<Rightarrow> nat \<Rightarrow> byte list" where
  "pseudo_header m ip tcp_len = read_bytes m (ip + 12) 8 @ [0, IP_PROTO_TCP, of_nat (tcp_len div 256), of_nat tcp_len]"


lemma halves_of_u32:
  "(le_word [a, b, c, d] :: u32) AND 0xFFFF = ucast (le_word [a, b] :: u16)"
  "drop_bit 16 (le_word [a, b, c, d] :: u32) AND 0xFFFF = ucast (le_word [c, d] :: u16)"
proof -
  have mask: "x AND 0xFFFF = take_bit 16 x" for x :: u32
    by (simp add: take_bit_eq_mask mask_eq_exp_minus_1 and.commute)
  show "(le_word [a, b, c, d] :: u32) AND 0xFFFF = ucast (le_word [a, b] :: u16)"
    unfolding mask by (rule bit_eqI) (auto simp: bit_simps dest: bit_imp_le_length)
  show "drop_bit 16 (le_word [a, b, c, d] :: u32) AND 0xFFFF = ucast (le_word [c, d] :: u16)"
    unfolding mask by (rule bit_eqI) (auto simp: bit_simps dest: bit_imp_le_length)
qed

lemma halves_of_read32:
  "unat (read32 m p AND 0xFFFF) = unat (read16 m p)"
  "unat (drop_bit 16 (read32 m p) AND 0xFFFF) = unat (read16 m (p + 2))"
proof -
  have "read_bytes m p 4 = [m p, m (p + 1), m (p + 2), m (p + 3)]" "read_bytes m p 2 = [m p, m (p + 1)]"
      "read_bytes m (p + 2) 2 = [m (p + 2), m (p + 3)]"
    by (simp_all add: read_bytes_def eval_nat_numeral)
  then show "unat (read32 m p AND 0xFFFF) = unat (read16 m p)"
    "unat (drop_bit 16 (read32 m p) AND 0xFFFF) = unat (read16 m (p + 2))"
    by (simp_all add: read32_def read16_def halves_of_u32 unsigned_ucast_eq take_bit_nat_eq_self
        unsigned_less [THEN less_le_trans] del: le_word.simps)
qed

definition tcp_start :: "mem \<Rightarrow> addr \<Rightarrow> nat \<Rightarrow> u32" where
  "tcp_start m ip tcp_len =
     (let src_ip = read32 m (ip + 12); dst_ip = read32 m (ip + 16)
      in (drop_bit 16 src_ip AND 0xFFFF) + (src_ip AND 0xFFFF) + (drop_bit 16 dst_ip AND 0xFFFF) + (dst_ip AND 0xFFFF)
         + ucast (htons (ucast IP_PROTO_TCP)) + ucast (htons (of_nat tcp_len)))"

lemma checksum_sum16:
  "checksum m p n = sum16 0 m p n" "tcp_checksum m ip tcp n = sum16 (tcp_start m ip n) m tcp n"
  by (simp_all add: checksum_def tcp_checksum_def tcp_start_def sum16_def Let_def)

lemma tcp_start_eq:
  assumes "n < 65536"
  shows "unat (tcp_start m ip n) = le_sum (pseudo_header m ip n)" and "unat (tcp_start m ip n) \<le> 655350"
proof -
  have n: "unat (ucast (htons (of_nat n)) :: u32) = 256 * (n mod 256) + n div 256"
    using assms by (simp add: unsigned_ucast_eq unat_htons unat_of_nat take_bit_nat_eq_self take_bit_eq_mod) 
  have len: "unat (of_nat (n div 256) :: byte) = n div 256" "unat (of_nat n :: byte) = n mod 256"
    using assms by (simp_all add: unat_of_nat take_bit_eq_mod less_mult_imp_div_less)
  have six: "unat IP_PROTO_TCP = 6"
    by (simp add: IP_PROTO_TCP_def)
  have r: "unat (read16 m q) < 65536" for q
    using word_bound(1) [of "m q" "m (q + 1)"] by (simp add: unat_read16)
  have "read_bytes m (ip + 12) 8 = map m [ip + 12, ip + 13, ip + 14, ip + 15, ip + 16, ip + 17, ip + 18, ip + 19]"
    by (simp add: read_bytes_def eval_nat_numeral)
  then have header: "le_sum (pseudo_header m ip n) = unat (read16 m (ip + 12)) + unat (read16 m (ip + 14)) +
      unat (read16 m (ip + 16)) + unat (read16 m (ip + 18)) + 0x600 + (256 * (n mod 256) + n div 256)"
    by (simp add: pseudo_header_def unat_read16 len six ac_simps)
  have proto: "unat (ucast (htons (ucast IP_PROTO_TCP)) :: u32) = 0x600"
    by (simp add: htons_def IP_PROTO_TCP_def)
  have "256 * (n mod 256) + n div 256 < 65536"
    using assms less_mult_imp_div_less [of n 256 256] mod_less_divisor [of 256 n] by simp
  with r [of "ip + 12"] r [of "ip + 14"] r [of "ip + 16"] r [of "ip + 18"]
  have small: "le_sum (pseudo_header m ip n) \<le> 655350"
    unfolding header by linarith
  have "tcp_start m ip n = of_nat (unat (drop_bit 16 (read32 m (ip + 12)) AND 0xFFFF) + unat (read32 m (ip + 12) AND 0xFFFF) +
      unat (drop_bit 16 (read32 m (ip + 16)) AND 0xFFFF) + unat (read32 m (ip + 16) AND 0xFFFF) +
      unat (ucast (htons (ucast IP_PROTO_TCP)) :: u32) + unat (ucast (htons (of_nat n)) :: u32))"
    unfolding tcp_start_def Let_def of_nat_add by (simp only: of_nat_unat ucast_id)
  also have "\<dots> = of_nat (le_sum (pseudo_header m ip n))"
    unfolding halves_of_read32 n proto header by (rule arg_cong [where f = of_nat]) (simp add: add.commute [of ip])
  finally have "unat (tcp_start m ip n) = le_sum (pseudo_header m ip n)"
    using small by (simp add: unat_of_nat take_bit_nat_eq_self)
  with small show "unat (tcp_start m ip n) = le_sum (pseudo_header m ip n)" "unat (tcp_start m ip n) \<le> 655350"
    by simp_all
qed




end
