(* ===== verification/Net.thy ===== *)
theory Net
  imports Kmalloc Net_Checksum "HOL-Library.Monad_Syntax"
begin

text \<open>
  The network stack, \<^verbatim>\<open>kernel/net/tcp_ip.c\<close>: interfaces, the ARP cache, TCP connections over buffers of the
  kernel heap, and the frames it builds and parses byte by byte in memory. The driver of an interface is
  represented by the list of frames handed to it. Lengths are 64-bit words where the source computes with
  them; a call that follows a null buffer is \<^const>\<open>None\<close>.
\<close>

section \<open>Protocol constants\<close>

definition ETH_ALEN :: nat where "ETH_ALEN = 6"
definition ETH_P_IP :: u16 where "ETH_P_IP = 0x0800"
definition ETH_P_ARP :: u16 where "ETH_P_ARP = 0x0806"
definition IP_PROTO_ICMP :: u8 where "IP_PROTO_ICMP = 1"
definition IP_PROTO_UDP :: u8 where "IP_PROTO_UDP = 17"
definition TCP_FIN :: u8 where "TCP_FIN = 0x01"
definition TCP_SYN :: u8 where "TCP_SYN = 0x02"
definition TCP_RST :: u8 where "TCP_RST = 0x04"
definition TCP_PSH :: u8 where "TCP_PSH = 0x08"
definition TCP_ACK :: u8 where "TCP_ACK = 0x10"

abbreviation (input) "ETH_HLEN \<equiv> (14 :: nat)"
abbreviation (input) "sizeof_arp_hdr \<equiv> (28 :: nat)"
abbreviation (input) "sizeof_ip_hdr \<equiv> (20 :: nat)"
abbreviation (input) "sizeof_icmp_hdr \<equiv> (8 :: nat)"
abbreviation (input) "sizeof_udp_hdr \<equiv> (8 :: nat)"
abbreviation (input) "sizeof_tcp_hdr \<equiv> (20 :: nat)"

definition ARP_CACHE_SIZE :: nat where "ARP_CACHE_SIZE = 64"
definition MAX_INTERFACES :: nat where "MAX_INTERFACES = 4"
definition MAX_TCP_CONNECTIONS :: nat where "MAX_TCP_CONNECTIONS = 256"

datatype tcp_state = TCP_CLOSED | TCP_LISTEN | TCP_SYN_SENT | TCP_SYN_RECEIVED | TCP_ESTABLISHED
  | TCP_FIN_WAIT_1 | TCP_FIN_WAIT_2 | TCP_CLOSE_WAIT | TCP_CLOSING | TCP_LAST_ACK | TCP_TIME_WAIT

section \<open>State\<close>

text \<open>The flag \<open>has_send\<close> says that the driver has set the \<open>send\<close> pointer of the interface.\<close>

record net_interface =
  if_name :: "nat \<Rightarrow> byte"
  if_mac :: "nat \<Rightarrow> byte"
  if_ip :: u32
  if_netmask :: u32
  if_gateway :: u32
  if_up :: bool
  rx_packets :: u64
  tx_packets :: u64
  rx_bytes :: u64
  tx_bytes :: u64
  has_send :: bool

record arp_entry =
  arp_ip :: u32
  arp_mac :: "nat \<Rightarrow> byte"
  arp_timestamp :: u64
  arp_valid :: bool

record tcp_connection =
  local_ip :: u32
  local_port :: u16
  remote_ip :: u32
  remote_port :: u16
  conn_state :: tcp_state
  conn_seq :: u32
  conn_ack :: u32
  recv_wnd :: u32
  send_wnd :: u32
  recv_buf :: ptr
  recv_len :: u64
  recv_capacity :: u64
  send_buf :: ptr
  send_len :: u64
  send_capacity :: u64
  in_use :: bool

record net =
  nheap :: kheap
  interfaces :: "nat \<Rightarrow> net_interface"
  num_interfaces :: nat
  arp_cache :: "nat \<Rightarrow> arp_entry"
  tcp_connections :: "nat \<Rightarrow> tcp_connection"
  next_ephemeral_port :: u16
  tcp_isn_counter :: u32
  wire :: "(nat \<times> byte list) list"

abbreviation (input) nmem :: "net \<Rightarrow> mem" where "nmem s \<equiv> kbytes (nheap s)"

definition set_mem :: "net \<Rightarrow> mem \<Rightarrow> net" where
  "set_mem s m = s\<lparr>nheap := (nheap s)\<lparr>kbytes := m\<rparr>\<rparr>"

definition set_conn :: "net \<Rightarrow> nat \<Rightarrow> (tcp_connection \<Rightarrow> tcp_connection) \<Rightarrow> net" where
  "set_conn s c f = s\<lparr>tcp_connections := (tcp_connections s)(c := f (tcp_connections s c))\<rparr>"

section \<open>Fields of packets\<close>

definition put16 :: "mem \<Rightarrow> addr \<Rightarrow> u16 \<Rightarrow> mem" where
  "put16 m a v = write_bytes m a (le_bytes 2 v)"

definition put32 :: "mem \<Rightarrow> addr \<Rightarrow> u32 \<Rightarrow> mem" where
  "put32 m a v = write_bytes m a (le_bytes 4 v)"

text \<open>The loops that copy a hardware address.\<close>

definition put_mac :: "mem \<Rightarrow> addr \<Rightarrow> (nat \<Rightarrow> byte) \<Rightarrow> mem" where
  "put_mac m a mac = write_bytes m a (map mac [0..<ETH_ALEN])"

text \<open>Calling the driver, and the counters that most callers keep.\<close>

definition iface_send :: "net \<Rightarrow> nat \<Rightarrow> byte list \<Rightarrow> net" where
  "iface_send s i packet = (if has_send (interfaces s i) then s\<lparr>wire := wire s @ [(i, packet)]\<rparr> else s)"

definition iface_transmit :: "net \<Rightarrow> nat \<Rightarrow> byte list \<Rightarrow> net" where
  "iface_transmit s i packet =
     (if has_send (interfaces s i)
      then (iface_send s i packet)\<lparr>interfaces := (interfaces s)(i := (interfaces s i)
             \<lparr>tx_packets := tx_packets (interfaces s i) + 1,
              tx_bytes := tx_bytes (interfaces s i) + of_nat (length packet)\<rparr>)\<rparr>
      else s)"

section \<open>ARP\<close>

definition arp_lookup :: "net \<Rightarrow> u32 \<Rightarrow> nat option" where
  "arp_lookup s ip =
     List.find (\<lambda>i. arp_valid (arp_cache s i) \<and> arp_ip (arp_cache s i) = ip) [0..<ARP_CACHE_SIZE]"

fun arp_slot :: "(nat \<Rightarrow> arp_entry) \<Rightarrow> nat list \<Rightarrow> nat \<Rightarrow> u64 \<Rightarrow> nat" where
  "arp_slot cache [] oldest oldest_time = oldest"
| "arp_slot cache (i # is) oldest oldest_time =
     (if \<not> arp_valid (cache i) then i
      else if arp_timestamp (cache i) < oldest_time then arp_slot cache is i (arp_timestamp (cache i))
      else arp_slot cache is oldest oldest_time)"

definition arp_add :: "net \<Rightarrow> u32 \<Rightarrow> addr \<Rightarrow> net" where
  "arp_add s ip mac =
     (let oldest = arp_slot (arp_cache s) [0..<ARP_CACHE_SIZE] 0 (- 1);
          old_mac = arp_mac (arp_cache s oldest)
      in s\<lparr>arp_cache := (arp_cache s)(oldest :=
           \<lparr>arp_ip = ip, arp_mac = (\<lambda>i. if i < ETH_ALEN then nmem s (mac + i) else old_mac i),
            arp_timestamp = 0, arp_valid = True\<rparr>)\<rparr>)"

text \<open>The ARP packets live on the stack and have all their fields set.\<close>

definition arp_packet :: "(nat \<Rightarrow> byte) \<Rightarrow> (nat \<Rightarrow> byte) \<Rightarrow> u16 \<Rightarrow> u32 \<Rightarrow> (nat \<Rightarrow> byte) \<Rightarrow> u32 \<Rightarrow> byte list" where
  "arp_packet dest src opcode sender_ip target_mac target_ip =
     map dest [0..<ETH_ALEN] @ map src [0..<ETH_ALEN] @ le_bytes 2 (htons ETH_P_ARP) @
     le_bytes 2 (htons 1) @ le_bytes 2 (htons ETH_P_IP) @ [of_nat ETH_ALEN, 4] @ le_bytes 2 (htons opcode) @
     map src [0..<ETH_ALEN] @ le_bytes 4 sender_ip @ map target_mac [0..<ETH_ALEN] @ le_bytes 4 target_ip"

definition arp_handle :: "net \<Rightarrow> nat \<Rightarrow> addr \<Rightarrow> net" where
  "arp_handle s i arp =
     (let m = nmem s; iface = interfaces s i;
          opcode = ntohs (read16 m (arp + 6)); sender_mac = (\<lambda>k. m (arp + 8 + k))
      in if opcode = 1
         then if read32 m (arp + 24) = if_ip iface
              then iface_send s i (arp_packet sender_mac (if_mac iface) 2 (if_ip iface) sender_mac (read32 m (arp + 14)))
              else s
         else if opcode = 2 then arp_add s (read32 m (arp + 14)) (arp + 8)
         else s)"

definition arp_send_request :: "net \<Rightarrow> u32 \<Rightarrow> net \<times> int" where
  "arp_send_request s target_ip =
     (if num_interfaces s = 0 then (s, - 1)
      else let iface = interfaces s 0
           in (iface_transmit s 0 (arp_packet (\<lambda>_. 0xFF) (if_mac iface) 1 (if_ip iface) (\<lambda>_. 0) target_ip), 0))"

section \<open>ICMP and UDP\<close>

text \<open>The IP header that the three sending functions fill in; only the checksum is computed last.\<close>

definition fill_ip :: "mem \<Rightarrow> addr \<Rightarrow> u16 \<Rightarrow> u16 \<Rightarrow> u16 \<Rightarrow> u8 \<Rightarrow> u32 \<Rightarrow> u32 \<Rightarrow> mem" where
  "fill_ip m ip total_len ident flags_frag protocol src_ip dst_ip =
     (let m = m(ip := 0x45, ip + 1 := 0);
          m = put16 m (ip + 2) (htons total_len);
          m = put16 m (ip + 4) ident;
          m = put16 m (ip + 6) flags_frag;
          m = m(ip + 8 := 64, ip + 9 := protocol);
          m = put32 m (ip + 12) src_ip;
          m = put32 m (ip + 16) dst_ip;
          m = put16 m (ip + 10) 0
      in put16 m (ip + 10) (checksum m ip sizeof_ip_hdr))"

definition icmp_send_echo :: "net \<Rightarrow> u32 \<Rightarrow> u16 \<Rightarrow> u16 \<Rightarrow> (net \<times> int) option" where
  "icmp_send_echo s dest_ip ident sq =
     (if num_interfaces s = 0 then Some (s, - 1)
      else do {
        let total_len = ETH_HLEN + sizeof_ip_hdr + sizeof_icmp_hdr;
        (h, r) \<leftarrow> kmalloc (nheap s) total_len GFP_KERNEL;
        case r of None \<Rightarrow> Some (s\<lparr>nheap := h\<rparr>, - 1)
        | Some packet \<Rightarrow> do {
            let iface = interfaces s 0;
            let ip = packet + ETH_HLEN;
            let icmp = packet + ETH_HLEN + sizeof_ip_hdr;
            let m = put16 (kbytes h) (packet + 12) (htons ETH_P_IP);
            let m = put_mac m (packet + 6) (if_mac iface);
            let m = fill_ip m ip (of_nat (sizeof_ip_hdr + sizeof_icmp_hdr)) (htons 1) 0 IP_PROTO_ICMP (if_ip iface) dest_ip;
            let m = m(icmp := 8, icmp + 1 := 0);
            let m = put16 m (icmp + 4) (htons ident);
            let m = put16 m (icmp + 6) (htons sq);
            let m = put16 m (icmp + 2) 0;
            let m = put16 m (icmp + 2) (checksum m icmp sizeof_icmp_hdr);
            let s1 = iface_transmit (s\<lparr>nheap := h\<lparr>kbytes := m\<rparr>\<rparr>) 0 (read_bytes m packet total_len);
            h1 \<leftarrow> kfree (nheap s1) (Some packet);
            Some (s1\<lparr>nheap := h1\<rparr>, 0)
          }
      })"

definition udp_send :: "net \<Rightarrow> u32 \<Rightarrow> u16 \<Rightarrow> u16 \<Rightarrow> addr \<Rightarrow> u64 \<Rightarrow> (net \<times> int) option" where
  "udp_send s dest_ip src_port dest_port data len =
     (if num_interfaces s = 0 then Some (s, - 1)
      else do {
        let total_len = unat (of_nat (ETH_HLEN + sizeof_ip_hdr + sizeof_udp_hdr) + len);
        (h, r) \<leftarrow> kmalloc (nheap s) total_len GFP_KERNEL;
        case r of None \<Rightarrow> Some (s\<lparr>nheap := h\<rparr>, - 1)
        | Some packet \<Rightarrow> do {
            let iface = interfaces s 0;
            let ip = packet + ETH_HLEN;
            let udp = packet + ETH_HLEN + sizeof_ip_hdr;
            let payload = packet + ETH_HLEN + sizeof_ip_hdr + sizeof_udp_hdr;
            let m = put16 (kbytes h) (packet + 12) (htons ETH_P_IP);
            let m = put_mac m (packet + 6) (if_mac iface);
            let m = fill_ip m ip (of_nat (sizeof_ip_hdr + sizeof_udp_hdr) + ucast len) (htons 1) 0 IP_PROTO_UDP (if_ip iface) dest_ip;
            let m = put16 m udp (htons src_port);
            let m = put16 m (udp + 2) (htons dest_port);
            let m = put16 m (udp + 4) (htons (of_nat sizeof_udp_hdr + ucast len));
            let m = put16 m (udp + 6) 0;
            let m = memcpy_loop m payload data (unat len);
            let s1 = iface_transmit (s\<lparr>nheap := h\<lparr>kbytes := m\<rparr>\<rparr>) 0 (read_bytes m packet total_len);
            h1 \<leftarrow> kfree (nheap s1) (Some packet);
            Some (s1\<lparr>nheap := h1\<rparr>, sint (ucast len :: u32))
          }
      })"

section \<open>Initialisation\<close>

definition tcpip_init :: "net \<Rightarrow> net" where
  "tcpip_init s =
     (let n = num_interfaces s; lo = interfaces s n
      in s\<lparr>arp_cache := (\<lambda>i. if i < ARP_CACHE_SIZE then (arp_cache s i)\<lparr>arp_valid := False\<rparr> else arp_cache s i),
           tcp_connections := (\<lambda>c. if c < MAX_TCP_CONNECTIONS then (tcp_connections s c)\<lparr>in_use := False\<rparr>
             else tcp_connections s c),
           num_interfaces := n + 1,
           interfaces := (interfaces s)(n := lo\<lparr>if_name := (if_name lo)(0 := 0x6C, 1 := 0x6F, 2 := 0),
             if_ip := 0x7F000001, if_netmask := 0xFF000000, if_gateway := 0, if_up := True\<rparr>)\<rparr>)"

fun copy_ifname :: "mem \<Rightarrow> addr \<Rightarrow> nat list \<Rightarrow> (nat \<Rightarrow> byte) \<Rightarrow> (nat \<Rightarrow> byte)" where
  "copy_ifname m name [] dst = dst"
| "copy_ifname m name (i # is) dst =
     (if m (name + i) = 0 then dst else copy_ifname m name is (dst(i := m (name + i))))"

definition net_add_interface :: "net \<Rightarrow> addr \<Rightarrow> addr \<Rightarrow> u32 \<Rightarrow> u32 \<Rightarrow> u32 \<Rightarrow> net \<times> nat option" where
  "net_add_interface s name mac ip netmask gateway =
     (if num_interfaces s \<ge> MAX_INTERFACES then (s, None)
      else let n = num_interfaces s; iface = interfaces s n; m = nmem s
           in (s\<lparr>num_interfaces := n + 1,
                 interfaces := (interfaces s)(n := iface
                   \<lparr>if_name := copy_ifname m name [0..<15] (if_name iface),
                    if_mac := (\<lambda>i. if i < ETH_ALEN then m (mac + i) else if_mac iface i),
                    if_ip := ip, if_netmask := netmask, if_gateway := gateway, if_up := True, has_send := False\<rparr>)\<rparr>,
               Some n))"


text \<open>
  What the driver does with the stack when it starts, \<^verbatim>\<open>drivers/network/virtio_net.c\<close>: it adds its interface
  and sets the send function.
\<close>

definition virtio_net_register :: "net \<Rightarrow> addr \<Rightarrow> addr \<Rightarrow> net" where
  "virtio_net_register s name mac =
     (let (s, r) = net_add_interface s name mac 0x0A00020F 0xFFFFFF00 0x0A000202
      in case r of None \<Rightarrow> s
         | Some i \<Rightarrow> s\<lparr>interfaces := (interfaces s)(i := (interfaces s i)\<lparr>has_send := True\<rparr>)\<rparr>)"

section \<open>Reading fields back\<close>

lemma le_bytes_2: "le_bytes 2 v = [ucast v, ucast (drop_bit 8 v)]"
  by (simp add: le_bytes_def eval_nat_numeral)

lemma le_bytes_4: "le_bytes 4 v = [ucast v, ucast (drop_bit 8 v), ucast (drop_bit 16 v), ucast (drop_bit 24 v)]"
  by (simp add: le_bytes_def eval_nat_numeral)

lemma le_word_le_bytes: "le_word (le_bytes 2 (v :: u16)) = v" "le_word (le_bytes 4 (w :: u32)) = w"
proof -
  show "le_word (le_bytes 2 v) = v"
    unfolding le_bytes_2 by (rule bit_eqI) (auto simp: bit_simps)
  show "le_word (le_bytes 4 w) = w"
  proof (rule bit_word_eqI)
    fix n
    assume "n < LENGTH(32)"
    then consider "n < 8" | "8 \<le> n" "n < 16" | "16 \<le> n" "n < 24" | "24 \<le> n" "n < 32"
      by fastforce
    then show "bit (le_word (le_bytes 4 w) :: u32) n = bit w n"
      unfolding le_bytes_4 by cases (auto simp: bit_simps)
  qed
qed

named_theorems packet_simps \<open>reads of packet fields after writes\<close>

lemma put16_read [packet_simps]: "read16 (put16 m a v) a = v"
  using read_write_same [of m a "le_bytes 2 v"] by (simp add: put16_def read16_def le_word_le_bytes)

lemma put32_read [packet_simps]: "read32 (put32 m a v) a = v"
  using read_write_same [of m a "le_bytes 4 v"] by (simp add: put32_def read32_def le_word_le_bytes)

lemma put_outside [packet_simps]:
  "x < a \<or> a + 2 \<le> x \<Longrightarrow> put16 m a v x = m x" "x < a \<or> a + 4 \<le> x \<Longrightarrow> put32 m a w x = m x"
  "x < a \<or> a + 6 \<le> x \<Longrightarrow> put_mac m a mac x = m x"
  by (simp_all add: put16_def put32_def put_mac_def write_bytes_outside ETH_ALEN_def)

lemma read16_frame [packet_simps]:
  "b + 2 \<le> a \<or> a + 2 \<le> b \<Longrightarrow> read16 (put16 m a v) b = read16 m b"
  "b + 2 \<le> a \<or> a + 4 \<le> b \<Longrightarrow> read16 (put32 m a w) b = read16 m b"
  "b + 2 \<le> a \<or> a + 6 \<le> b \<Longrightarrow> read16 (put_mac m a mac) b = read16 m b"
  "b + 2 \<le> a \<or> a + 1 \<le> b \<Longrightarrow> read16 (m(a := x)) b = read16 m b"
  by (rule reads_cong(1) [where n = 2]; auto simp: put_outside)+

lemma read32_frame [packet_simps]:
  "b + 4 \<le> a \<or> a + 2 \<le> b \<Longrightarrow> read32 (put16 m a v) b = read32 m b"
  "b + 4 \<le> a \<or> a + 4 \<le> b \<Longrightarrow> read32 (put32 m a w) b = read32 m b"
  "b + 4 \<le> a \<or> a + 6 \<le> b \<Longrightarrow> read32 (put_mac m a mac) b = read32 m b"
  "b + 4 \<le> a \<or> a + 1 \<le> b \<Longrightarrow> read32 (m(a := x)) b = read32 m b"
  by (rule reads_cong(2) [where n = 4]; auto simp: put_outside)+

lemma htons_htons [simp]: "htons (htons v) = v"
  unfolding htons_def byte_mask by (rule bit_eqI) (auto simp: bit_simps dest: bit_imp_le_length)

lemma bit_htonl:
  "bit (htonl v) n \<longleftrightarrow> (if n < 8 then bit v (n + 24) else if n < 16 then bit v (n + 8)
     else if n < 24 then bit v (n - 8) else n < 32 \<and> bit v (n - 24))"
proof -
  define M :: u32 where "M = 0xFF00"
  then have "M = push_bit 8 (mask 8)"
    by (simp add: mask_eq_exp_minus_1 push_bit_eq_mult)
  then have mask: "bit M n \<longleftrightarrow> 8 \<le> n \<and> n < 16" for n
    by (simp only: bit_push_bit_iff bit_mask_iff) auto
  consider "n < 8" | "8 \<le> n" "n < 16" | "16 \<le> n" "n < 24" | "24 \<le> n"
    by linarith
  then show ?thesis
    unfolding htonl_def byte_mask M_def [symmetric]
    by cases (auto simp: bit_simps mask add.commute dest: bit_imp_le_length)
qed

lemma byte_cases:
  assumes "n < (32 :: nat)"
  obtains k where "n = k" "k < 8" | k where "n = k + 8" "k < 8" | k where "n = k + 16" "k < 8" | k where "n = k + 24" "k < 8"
proof -
  consider "n < 8" | "8 \<le> n" "n < 16" | "16 \<le> n" "n < 24" | "24 \<le> n"
    by linarith
  then show ?thesis
  proof cases
    case 2 then show ?thesis using that(2) [of "n - 8"] by simp
  next
    case 3 then show ?thesis using that(3) [of "n - 16"] by simp
  next
    case 4 then show ?thesis using that(4) [of "n - 24"] assms by simp
  qed (use that(1) in blast)
qed

lemma htonl_htonl [simp]: "htonl (htonl v) = v"
proof (rule bit_word_eqI)
  fix n
  assume "n < LENGTH(32)"
  then have "n < 32" by simp
  then show "bit (htonl (htonl v)) n = bit v n"
    by (cases rule: byte_cases) (simp_all add: bit_htonl add.commute)
qed

lemma checksum_loop_cong:
  "(\<And>i. i < n \<Longrightarrow> m' (p + i) = m (p + i)) \<Longrightarrow> checksum_loop m' p n acc = checksum_loop m p n acc"
proof (induction m p n acc rule: checksum_loop.induct)
  case (1 m p n acc)
  have "read16 m' p = read16 m p" if "1 < n"
    using that 1 by (intro reads_cong(1) [where n = 2]) simp_all
  moreover have "checksum_loop m' (p + 2) (n - 2) x = checksum_loop m (p + 2) (n - 2) x"
    if "1 < n" "x = acc + ucast (read16 m p)" for x
  proof -
    have "m' (p + 2 + i) = m (p + 2 + i)" if "i < n - 2" for i
      using "1.prems" [of "2 + i"] that by (simp add: ac_simps)
    with that "1.IH" show ?thesis by blast
  qed
  moreover have "m' p = m p" if "n = 1"
    using "1.prems" [of 0] that by simp
  ultimately show ?case
    by (subst (1 2) checksum_loop.simps) auto
qed

lemma checksum_cong: "(\<And>i. i < n \<Longrightarrow> m' (p + i) = m (p + i)) \<Longrightarrow> checksum m' p n = checksum m p n"
  using checksum_loop_cong [of n m' p m 0] by (simp add: checksum_def)

section \<open>The IP header\<close>

lemma fill_ip_outside: "x < ip \<or> ip + 20 \<le> x \<Longrightarrow> fill_ip m ip len ident fr proto src dst x = m x"
  by (auto simp: fill_ip_def Let_def packet_simps)

lemma fill_ip_fields:
  "fill_ip m ip len ident fr proto src dst ip = 0x45"
  "read16 (fill_ip m ip len ident fr proto src dst) (ip + 2) = htons len"
  "fill_ip m ip len ident fr proto src dst (ip + 9) = proto"
  "read32 (fill_ip m ip len ident fr proto src dst) (ip + 12) = src"
  "read32 (fill_ip m ip len ident fr proto src dst) (ip + 16) = dst"
  by (simp_all add: fill_ip_def Let_def packet_simps)

lemma fill_ip_verifies: "checksum (fill_ip m ip len ident fr proto src dst) ip 20 = 0"
proof -
  define z where "z = put16 (put32 (put32 ((put16 (put16 (put16 (m(ip := 0x45, ip + 1 := 0)) (ip + 2) (htons len))
    (ip + 4) ident) (ip + 6) fr)(ip + 8 := 64, ip + 9 := proto)) (ip + 12) src) (ip + 16) dst) (ip + 10) 0"
  have "fill_ip m ip len ident fr proto src dst = put16 z (ip + 10) (checksum z ip 20)"
    by (simp add: fill_ip_def z_def Let_def)
  moreover have "z (ip + 10) = 0" "z (ip + 10 + 1) = 0"
    by (simp_all add: z_def put16_def le_bytes_2 write_bytes_def)
  ultimately show ?thesis
    unfolding checksum_sum16 by (intro sum16_verifies [of 0 20 10 z ip "sum16 0 z ip 20"]) (simp_all add: put16_def le_bytes_2)
qed

end
