(* ===== verification/Tcp.thy ===== *)
theory Tcp
  imports Net
begin

text \<open>
  TCP in \<^verbatim>\<open>kernel/net/tcp_ip.c\<close>: connections with their buffers, the segments that are sent, the state
  machine that received segments drive, and the way of a frame from the driver to it.
\<close>

section \<open>Connections\<close>

definition tcp_alloc_connection :: "net \<Rightarrow> (net \<times> nat option) option" where
  "tcp_alloc_connection s =
     (case List.find (\<lambda>c. \<not> in_use (tcp_connections s c)) [0..<MAX_TCP_CONNECTIONS] of
        None \<Rightarrow> Some (s, None)
      | Some c \<Rightarrow> do {
          (h1, rbuf) \<leftarrow> kmalloc (nheap s) 65536 GFP_KERNEL;
          (h2, sbuf) \<leftarrow> kmalloc h1 65536 GFP_KERNEL;
          Some (set_conn (s\<lparr>nheap := h2\<rparr>) c (\<lambda>conn. conn\<lparr>in_use := True, conn_state := TCP_CLOSED,
            recv_capacity := 65536, send_capacity := 65536, recv_buf := rbuf, send_buf := sbuf,
            recv_len := 0, send_len := 0, recv_wnd := 65535, send_wnd := 65535\<rparr>), Some c)
        })"

definition tcp_free_connection :: "net \<Rightarrow> nat \<Rightarrow> net option" where
  "tcp_free_connection s c =
     do {
       let conn = tcp_connections s c;
       h1 \<leftarrow> (if recv_buf conn \<noteq> None then kfree (nheap s) (recv_buf conn) else Some (nheap s));
       h2 \<leftarrow> (if send_buf conn \<noteq> None then kfree h1 (send_buf conn) else Some h1);
       Some (set_conn (s\<lparr>nheap := h2\<rparr>) c (\<lambda>conn. conn\<lparr>in_use := False\<rparr>))
     }"

section \<open>Sending\<close>

definition fill_tcp :: "mem \<Rightarrow> addr \<Rightarrow> tcp_connection \<Rightarrow> u8 \<Rightarrow> mem" where
  "fill_tcp m tcp conn flags =
     (let m = put16 m tcp (htons (local_port conn));
          m = put16 m (tcp + 2) (htons (remote_port conn));
          m = put32 m (tcp + 4) (htonl (conn_seq conn));
          m = put32 m (tcp + 8) (htonl (conn_ack conn));
          m = m(tcp + 12 := of_nat (sizeof_tcp_hdr div 4 * 16), tcp + 13 := flags);
          m = put16 m (tcp + 14) (htons (ucast (recv_wnd conn)));
          m = put16 m (tcp + 18) 0
      in put16 m (tcp + 16) 0)"

definition tcp_frame :: "mem \<Rightarrow> addr \<Rightarrow> net_interface \<Rightarrow> tcp_connection \<Rightarrow> u8 \<Rightarrow> ptr \<Rightarrow> u64 \<Rightarrow> mem" where
  "tcp_frame m packet iface conn flags data data_len =
     (let tcp_len = of_nat sizeof_tcp_hdr + data_len;
          ip = packet + ETH_HLEN; tcp = packet + ETH_HLEN + sizeof_ip_hdr; payload = tcp + sizeof_tcp_hdr;
          m = put16 m (packet + 12) (htons ETH_P_IP);
          m = put_mac m (packet + 6) (if_mac iface);
          m = put_mac m packet (\<lambda>_. 0xFF);
          m = fill_ip m ip (of_nat sizeof_ip_hdr + ucast tcp_len) (htons (ucast (conn_seq conn))) (htons 0x4000) IP_PROTO_TCP
                (local_ip conn) (remote_ip conn);
          m = fill_tcp m tcp conn flags;
          m = (case data of None \<Rightarrow> m | Some d \<Rightarrow> if data_len > 0 then memcpy_loop m payload d (unat data_len) else m)
      in put16 m (tcp + 16) (tcp_checksum m ip tcp (unat tcp_len)))"

definition tcp_send_packet :: "net \<Rightarrow> nat \<Rightarrow> u8 \<Rightarrow> ptr \<Rightarrow> u64 \<Rightarrow> (net \<times> int) option" where
  "tcp_send_packet s c flags data data_len =
     (if num_interfaces s = 0 then Some (s, - 1)
      else do {
        let total_len = unat (of_nat (ETH_HLEN + sizeof_ip_hdr + sizeof_tcp_hdr) + data_len);
        (h, r) \<leftarrow> kmalloc (nheap s) total_len GFP_KERNEL;
        case r of None \<Rightarrow> Some (s\<lparr>nheap := h\<rparr>, - 1)
        | Some packet \<Rightarrow> do {
            let m = tcp_frame (kbytes h) packet (interfaces s 0) (tcp_connections s c) flags data data_len;
            let s1 = iface_transmit (s\<lparr>nheap := h\<lparr>kbytes := m\<rparr>\<rparr>) 0 (read_bytes m packet total_len);
            h1 \<leftarrow> kfree (nheap s1) (Some packet);
            Some (s1\<lparr>nheap := h1\<rparr>, 0)
          }
      })"

definition tcp_generate_isn :: "net \<Rightarrow> net \<times> u32" where
  "tcp_generate_isn s =
     (let n = tcp_isn_counter s * 1103515245 + 12345 in (s\<lparr>tcp_isn_counter := n\<rparr>, n))"

definition tcp_connect :: "net \<Rightarrow> u32 \<Rightarrow> u16 \<Rightarrow> (net \<times> int) option" where
  "tcp_connect s dest_ip dest_port =
     do {
       (s, r) \<leftarrow> tcp_alloc_connection s;
       case r of None \<Rightarrow> Some (s, - 1)
       | Some c \<Rightarrow>
           if num_interfaces s = 0 then do { s \<leftarrow> tcp_free_connection s c; Some (s, - 1) }
           else do {
             let port = next_ephemeral_port s;
             let s = s\<lparr>next_ephemeral_port := (if port + 1 > 65000 then 49152 else port + 1)\<rparr>;
             let (s, isn) = tcp_generate_isn s;
             let s = set_conn s c (\<lambda>conn. conn\<lparr>local_ip := if_ip (interfaces s 0), local_port := port,
               remote_ip := dest_ip, remote_port := dest_port, conn_seq := isn, conn_ack := 0,
               conn_state := TCP_SYN_SENT\<rparr>);
             (s, ret) \<leftarrow> tcp_send_packet s c TCP_SYN None 0;
             if ret < 0 then do { s \<leftarrow> tcp_free_connection s c; Some (s, - 1) }
             else Some (set_conn s c (\<lambda>conn. conn\<lparr>conn_seq := conn_seq conn + 1\<rparr>), int c)
           }
     }"

text \<open>The loop that appends to a buffer: \<open>buf[len++] = data[i]\<close>.\<close>

fun append_loop :: "nat \<Rightarrow> mem \<Rightarrow> addr \<Rightarrow> u64 \<Rightarrow> addr \<Rightarrow> mem \<times> u64" where
  "append_loop 0 m buf len data = (m, len)"
| "append_loop (Suc n) m buf len data = append_loop n (m(buf + unat len := m data)) buf (len + 1) (data + 1)"

definition append_buf :: "mem \<Rightarrow> ptr \<Rightarrow> u64 \<Rightarrow> addr \<Rightarrow> u64 \<Rightarrow> (mem \<times> u64) option" where
  "append_buf m buf len data n =
     (if n = 0 then Some (m, len)
      else case buf of None \<Rightarrow> None | Some b \<Rightarrow> Some (append_loop (unat n) m b len data))"

definition tcp_send :: "net \<Rightarrow> nat \<Rightarrow> addr \<Rightarrow> u64 \<Rightarrow> (net \<times> int) option" where
  "tcp_send s c data len =
     (let conn = tcp_connections s c
      in if conn_state conn \<noteq> TCP_ESTABLISHED then Some (s, - 1)
         else if send_len conn + len > send_capacity conn then Some (s, - 1)
         else do {
           (m, l) \<leftarrow> append_buf (nmem s) (send_buf conn) (send_len conn) data len;
           let s = set_conn (set_mem s m) c (\<lambda>conn. conn\<lparr>send_len := l\<rparr>);
           (s, ret) \<leftarrow> tcp_send_packet s c (TCP_PSH OR TCP_ACK) (Some data) len;
           if ret = 0
           then Some (set_conn s c (\<lambda>conn. conn\<lparr>conn_seq := conn_seq conn + ucast len\<rparr>), sint (ucast len :: u32))
           else Some (s, - 1)
         })"

section \<open>Receiving\<close>

definition tcp_recv :: "net \<Rightarrow> nat \<Rightarrow> addr \<Rightarrow> u64 \<Rightarrow> (net \<times> int) option" where
  "tcp_recv s c data len =
     (let conn = tcp_connections s c
      in if recv_len conn = 0 then Some (s, 0)
         else case recv_buf conn of None \<Rightarrow> None
         | Some b \<Rightarrow>
             let to_copy = (if len < recv_len conn then len else recv_len conn);
                 m = memcpy_loop (nmem s) data b (unat to_copy);
                 m = memcpy_loop m b (b + unat to_copy) (unat (recv_len conn - to_copy))
             in Some (set_conn (set_mem s m) c (\<lambda>conn. conn\<lparr>recv_len := recv_len conn - to_copy\<rparr>),
                  sint (ucast to_copy :: u32)))"

definition tcp_close :: "net \<Rightarrow> nat option \<Rightarrow> (net \<times> int) option" where
  "tcp_close s r =
     (case r of None \<Rightarrow> Some (s, - 1)
      | Some c \<Rightarrow>
          if \<not> in_use (tcp_connections s c) then Some (s, - 1)
          else (case conn_state (tcp_connections s c) of
             TCP_ESTABLISHED \<Rightarrow> do {
               (s, ret) \<leftarrow> tcp_send_packet (set_conn s c (\<lambda>conn. conn\<lparr>conn_state := TCP_FIN_WAIT_1\<rparr>)) c (TCP_FIN OR TCP_ACK) None 0;
               Some (set_conn s c (\<lambda>conn. conn\<lparr>conn_seq := conn_seq conn + 1\<rparr>), 0)
             }
           | TCP_CLOSE_WAIT \<Rightarrow> do {
               (s, ret) \<leftarrow> tcp_send_packet (set_conn s c (\<lambda>conn. conn\<lparr>conn_state := TCP_LAST_ACK\<rparr>)) c (TCP_FIN OR TCP_ACK) None 0;
               Some (set_conn s c (\<lambda>conn. conn\<lparr>conn_seq := conn_seq conn + 1\<rparr>), 0)
             }
           | TCP_SYN_SENT \<Rightarrow> do { s \<leftarrow> tcp_free_connection s c; Some (s, 0) }
           | TCP_LISTEN \<Rightarrow> do { s \<leftarrow> tcp_free_connection s c; Some (s, 0) }
           | _ \<Rightarrow> Some (s, 0)))"

definition tcp_find_connection :: "net \<Rightarrow> u32 \<Rightarrow> u16 \<Rightarrow> u32 \<Rightarrow> u16 \<Rightarrow> nat option" where
  "tcp_find_connection s rip rport lip lport =
     List.find (\<lambda>i. let c = tcp_connections s i in in_use c \<and> remote_ip c = rip \<and> remote_port c = rport \<and>
       local_ip c = lip \<and> local_port c = lport) [0..<MAX_TCP_CONNECTIONS]"

text \<open>Sending the acknowledgement, whose result is ignored.\<close>

definition send_ack :: "net \<Rightarrow> nat \<Rightarrow> net option" where
  "send_ack s c = map_option fst (tcp_send_packet s c TCP_ACK None 0)"

text \<open>The state machine for a segment that belongs to connection \<open>c\<close>.\<close>

definition segment_established :: "net \<Rightarrow> nat \<Rightarrow> u32 \<Rightarrow> u8 \<Rightarrow> addr \<Rightarrow> u64 \<Rightarrow> net option" where
  "segment_established s c sq flags data data_len =
     (let conn = tcp_connections s c
      in if flags AND TCP_FIN \<noteq> 0
         then send_ack (set_conn s c (\<lambda>conn. conn\<lparr>conn_ack := sq + ucast data_len + 1, conn_state := TCP_CLOSE_WAIT\<rparr>)) c
         else if data_len > 0
         then if recv_len conn + data_len \<le> recv_capacity conn
              then do {
                (m, l) \<leftarrow> append_buf (nmem s) (recv_buf conn) (recv_len conn) data data_len;
                send_ack (set_conn (set_mem s m) c (\<lambda>conn. conn\<lparr>recv_len := l, conn_ack := sq + ucast data_len\<rparr>)) c
              }
              else Some s
         else Some s)"

definition segment_fin_wait_1 :: "net \<Rightarrow> nat \<Rightarrow> u32 \<Rightarrow> u8 \<Rightarrow> net option" where
  "segment_fin_wait_1 s c sq flags =
     (let s = (if flags AND TCP_ACK \<noteq> 0 then set_conn s c (\<lambda>conn. conn\<lparr>conn_state := TCP_FIN_WAIT_2\<rparr>) else s)
      in if flags AND TCP_FIN \<noteq> 0
         then do {
           s \<leftarrow> send_ack (set_conn s c (\<lambda>conn. conn\<lparr>conn_ack := sq + 1\<rparr>)) c;
           Some (set_conn s c (\<lambda>conn. conn\<lparr>conn_state :=
             (if conn_state conn = TCP_FIN_WAIT_2 then TCP_TIME_WAIT else TCP_CLOSING)\<rparr>))
         }
         else Some s)"

definition tcp_state_machine :: "net \<Rightarrow> nat \<Rightarrow> u32 \<Rightarrow> u8 \<Rightarrow> addr \<Rightarrow> u64 \<Rightarrow> net option" where
  "tcp_state_machine s c sq flags data data_len =
     (case conn_state (tcp_connections s c) of
        TCP_SYN_SENT \<Rightarrow>
          if flags AND (TCP_SYN OR TCP_ACK) = (TCP_SYN OR TCP_ACK)
          then send_ack (set_conn s c (\<lambda>conn. conn\<lparr>conn_ack := sq + 1, conn_state := TCP_ESTABLISHED\<rparr>)) c
          else if flags AND TCP_RST \<noteq> 0
          then tcp_free_connection (set_conn s c (\<lambda>conn. conn\<lparr>conn_state := TCP_CLOSED\<rparr>)) c
          else Some s
      | TCP_ESTABLISHED \<Rightarrow> segment_established s c sq flags data data_len
      | TCP_FIN_WAIT_1 \<Rightarrow> segment_fin_wait_1 s c sq flags
      | TCP_FIN_WAIT_2 \<Rightarrow>
          if flags AND TCP_FIN \<noteq> 0
          then do {
            s \<leftarrow> send_ack (set_conn s c (\<lambda>conn. conn\<lparr>conn_ack := sq + 1\<rparr>)) c;
            Some (set_conn s c (\<lambda>conn. conn\<lparr>conn_state := TCP_TIME_WAIT\<rparr>))
          }
          else Some s
      | TCP_CLOSING \<Rightarrow>
          Some (if flags AND TCP_ACK \<noteq> 0 then set_conn s c (\<lambda>conn. conn\<lparr>conn_state := TCP_TIME_WAIT\<rparr>) else s)
      | TCP_LAST_ACK \<Rightarrow>
          if flags AND TCP_ACK \<noteq> 0
          then tcp_free_connection (set_conn s c (\<lambda>conn. conn\<lparr>conn_state := TCP_CLOSED\<rparr>)) c
          else Some s
      | TCP_TIME_WAIT \<Rightarrow> tcp_free_connection s c
      | _ \<Rightarrow> Some s)"

definition tcp_handle_segment :: "net \<Rightarrow> u32 \<Rightarrow> u32 \<Rightarrow> addr \<Rightarrow> u64 \<Rightarrow> net option" where
  "tcp_handle_segment s src_ip dst_ip tcp tcp_len =
     (let m = nmem s;
          src_port = ntohs (read16 m tcp); dst_port = ntohs (read16 m (tcp + 2));
          sq = ntohl (read32 m (tcp + 4)); flags = m (tcp + 13)
      in case tcp_find_connection s src_ip src_port dst_ip dst_port of
           None \<Rightarrow> Some s
         | Some c \<Rightarrow>
             let header_len = ucast (drop_bit 4 (m (tcp + 12)) AND 0xF) * 4;
                 data_len = tcp_len - header_len
             in tcp_state_machine s c sq flags (tcp + unat header_len) data_len)"

section \<open>From the driver\<close>

definition ip_handle :: "net \<Rightarrow> nat \<Rightarrow> addr \<Rightarrow> u64 \<Rightarrow> net option" where
  "ip_handle s i ip len =
     (let m = nmem s
      in if drop_bit 4 (m ip) \<noteq> 4 then Some s
         else let ip_hlen = ucast (m ip AND 0xF) * 4;
                  total_len = ucast (ntohs (read16 m (ip + 2)))
              in if len < total_len then Some s
                 else let payload = ip + unat ip_hlen; payload_len = total_len - ip_hlen
                      in if m (ip + 9) = IP_PROTO_TCP
                         then tcp_handle_segment s (read32 m (ip + 12)) (read32 m (ip + 16)) payload payload_len
                         else Some s)"

definition net_rx :: "net \<Rightarrow> nat \<Rightarrow> addr \<Rightarrow> u64 \<Rightarrow> net option" where
  "net_rx s i data len =
     (if len < of_nat ETH_HLEN then Some s
      else let m = nmem s; ty = ntohs (read16 m (data + 12));
               s = s\<lparr>interfaces := (interfaces s)(i := (interfaces s i)
                 \<lparr>rx_packets := rx_packets (interfaces s i) + 1, rx_bytes := rx_bytes (interfaces s i) + len\<rparr>)\<rparr>;
               payload = data + ETH_HLEN; payload_len = len - of_nat ETH_HLEN
           in if ty = ETH_P_ARP then Some (if payload_len \<ge> of_nat sizeof_arp_hdr then arp_handle s i payload else s)
              else if ty = ETH_P_IP
              then if payload_len \<ge> of_nat sizeof_ip_hdr then ip_handle s i payload payload_len else Some s
              else Some s)"

end
