(* ===== verification/Tcp_Spec.thy ===== *)
theory Tcp_Spec
  imports Tcp
begin

text \<open>
  What TCP promises: the frames that are sent, the delivery of data from one machine to another, the
  state diagram, and the buffers of the connections as blocks of the kernel heap.
\<close>

section \<open>Frames\<close>

text \<open>A field of a frame as a number in network order.\<close>

definition be_nat :: "byte list \<Rightarrow> nat" where
  "be_nat xs = foldl (\<lambda>n b. 256 * n + unat b) 0 xs"

definition field :: "byte list \<Rightarrow> nat \<Rightarrow> nat \<Rightarrow> nat" where
  "field f off n = be_nat (take n (drop off f))"

text \<open>
  A frame that carries a segment of a connection: Ethernet type, IP header with a valid checksum, TCP
  header, payload, and a valid checksum over pseudo header, header and payload. The sum of a valid message
  is all ones. The addresses go out in the byte order of the machine.
\<close>

definition carries :: "byte list \<Rightarrow> tcp_connection \<Rightarrow> u8 \<Rightarrow> byte list \<Rightarrow> bool" where
  "carries f conn flags payload \<longleftrightarrow> length f = 54 + length payload \<and>
     field f 12 2 = 0x0800 \<and> field f 14 1 = 0x45 \<and> field f 16 2 = 40 + length payload \<and> field f 23 1 = 6 \<and>
     field f 26 4 = unat (htonl (local_ip conn)) \<and> field f 30 4 = unat (htonl (remote_ip conn)) \<and>
     field f 34 2 = unat (local_port conn) \<and> field f 36 2 = unat (remote_port conn) \<and>
     field f 38 4 = unat (conn_seq conn) \<and> field f 42 4 = unat (conn_ack conn) \<and>
     field f 46 1 = 0x50 \<and> field f 47 1 = unat flags \<and> drop 54 f = payload \<and>
     oc_sum (take 20 (drop 14 f)) = 65535 \<and>
     oc_sum (take 8 (drop 26 f) @ [0, 6, of_nat ((20 + length payload) div 256), of_nat (20 + length payload)] @ drop 34 f) = 65535"

lemma drop_read_bytes: "drop k (read_bytes m p n) = read_bytes m (p + k) (n - k)"
  by (auto intro!: nth_equalityI simp: ac_simps)

lemma be_nat_htons: "be_nat (read_bytes m p 2) = unat (htons (read16 m p))"
proof -
  have "be_nat (read_bytes m p 2) = 256 * unat (m p) + unat (m (p + 1))"
    by (simp add: be_nat_def read_bytes_def eval_nat_numeral)
  then show ?thesis
    using unat_byte [of "m p"] by (simp add: unat_htons unat_read16)
qed

lemma htonl_rev: "htonl (le_word [a, b, c, d]) = le_word [d, c, b, a]"
proof (rule bit_word_eqI)
  fix n
  assume "n < LENGTH(32)"
  then have "n < 32" by simp
  then show "bit (htonl (le_word [a, b, c, d])) n = bit (le_word [d, c, b, a] :: u32) n"
    by (cases rule: byte_cases) (auto simp: bit_htonl bit_simps dest: bit_imp_le_length)
qed

lemma unat_low_byte:
  assumes "unat (x :: u32) < 16777216"
  shows "unat (ucast (b :: byte) OR push_bit 8 x) = unat b + 256 * unat x"
proof -
  have b: "unat (ucast b :: u32) = unat b"
    by (simp add: unat_ucast_byte)
  have x: "unat (push_bit 8 x) = 256 * unat x"
    using assms unfolding unsigned_push_bit_eq by (simp add: push_bit_eq_mult take_bit_nat_eq_self)
  have "(ucast b :: u32) AND push_bit 8 x = 0"
    by (rule bit_eqI) (auto simp: bit_simps dest: bit_imp_le_length)
  then have "unat (ucast b OR push_bit 8 x) = unat (ucast b + push_bit 8 x)"
    by (simp add: disjunctive_add_eq_or)
  also have "\<dots> = unat b + 256 * unat x"
    using unat_byte [of b] assms unfolding b [symmetric] x [symmetric]
    by (intro unat_add_lem [THEN iffD1]) (simp only: b x, simp)
  finally show ?thesis .
qed

lemma unat_le_word4: "unat (le_word [a, b, c, d] :: u32) = unat a + 256 * unat b + 65536 * unat c + 16777216 * unat d"
proof -
  have d: "unat (le_word [d] :: u32) = unat d"
    by (simp add: unat_ucast_byte)
  have c: "unat (le_word [c, d] :: u32) = unat c + 256 * unat d"
    using unat_byte [of d] d by (subst le_word.simps, subst unat_low_byte) simp_all
  have b: "unat (le_word [b, c, d] :: u32) = unat b + 256 * unat c + 65536 * unat d"
    using unat_byte [of c] unat_byte [of d] c by (subst le_word.simps, subst unat_low_byte) (simp_all del: le_word.simps)
  show ?thesis
    using unat_byte [of b] unat_byte [of c] unat_byte [of d] b
    by (subst le_word.simps, subst unat_low_byte) (simp_all del: le_word.simps)
qed

lemma be_nat_htonl: "be_nat (read_bytes m p 4) = unat (htonl (read32 m p))"
proof -
  have "read_bytes m p 4 = [m p, m (p + 1), m (p + 2), m (p + 3)]"
    by (simp add: read_bytes_def eval_nat_numeral)
  then show ?thesis
    by (simp add: be_nat_def read32_def htonl_rev unat_le_word4 del: le_word.simps)
qed

lemma fill_tcp_outside: "x < tcp \<or> tcp + 20 \<le> x \<Longrightarrow> fill_tcp m tcp conn flags x = m x"
  by (auto simp: fill_tcp_def Let_def packet_simps)

lemma fill_tcp_fields:
  "read16 (fill_tcp m tcp conn flags) tcp = htons (local_port conn)"
  "read16 (fill_tcp m tcp conn flags) (tcp + 2) = htons (remote_port conn)"
  "read32 (fill_tcp m tcp conn flags) (tcp + 4) = htonl (conn_seq conn)"
  "read32 (fill_tcp m tcp conn flags) (tcp + 8) = htonl (conn_ack conn)"
  "fill_tcp m tcp conn flags (tcp + 12) = 0x50" "fill_tcp m tcp conn flags (tcp + 13) = flags"
  "fill_tcp m tcp conn flags (tcp + 16) = 0" "fill_tcp m tcp conn flags (tcp + 17) = 0"
  by (simp_all add: fill_tcp_def Let_def packet_simps) (simp_all add: put16_def le_bytes_2 write_bytes_def)


lemma tcp_start_cong:
  "(\<And>i. i < 20 \<Longrightarrow> m' (ip + i) = m (ip + i)) \<Longrightarrow> tcp_start m' ip n = tcp_start m ip n"
  using reads_cong(2) [of 4 m' "ip + 12" m] reads_cong(2) [of 4 m' "ip + 16" m]
  by (simp add: tcp_start_def Let_def add.assoc)

text \<open>The frame before the TCP checksum is stored.\<close>

definition tcp_frame0 :: "mem \<Rightarrow> addr \<Rightarrow> net_interface \<Rightarrow> tcp_connection \<Rightarrow> u8 \<Rightarrow> byte list \<Rightarrow> mem" where
  "tcp_frame0 m p iface conn flags payload =
     write_bytes (fill_tcp (fill_ip (put_mac (put_mac (put16 m (p + 12) (htons ETH_P_IP)) (p + 6) (if_mac iface)) p (\<lambda>_. 0xFF))
       (p + 14) (of_nat (40 + length payload)) (htons (ucast (conn_seq conn))) (htons 0x4000) IP_PROTO_TCP (local_ip conn) (remote_ip conn))
       (p + 34) conn flags) (p + 54) payload"

text \<open>Payload that is given as a block of memory apart from the packet.\<close>

definition payload_at :: "mem \<Rightarrow> ptr \<Rightarrow> u64 \<Rightarrow> addr \<Rightarrow> byte list \<Rightarrow> bool" where
  "payload_at m data n p xs \<longleftrightarrow> length xs = unat n \<and> unat n \<le> 65495 \<and>
     (case data of None \<Rightarrow> n = 0 | Some d \<Rightarrow> xs = read_bytes m d (unat n) \<and> (n = 0 \<or> disjoint_ranges d (unat n) p (54 + unat n)))"

lemma tcp_frame0_outside:
  "x < p \<or> p + 54 + length xs \<le> x \<Longrightarrow> tcp_frame0 m p iface conn flags xs x = m x"
  by (auto simp: tcp_frame0_def write_bytes_outside fill_tcp_outside fill_ip_outside packet_simps)

lemma tcp_frame_eq:
  assumes "payload_at m data n p xs"
  shows "tcp_frame m p iface conn flags data n =
    put16 (tcp_frame0 m p iface conn flags xs) (p + 50) (tcp_checksum (tcp_frame0 m p iface conn flags xs) (p + 14) (p + 34) (20 + length xs))"
proof -
  have n: "length xs = unat n" "unat n \<le> 65495"
    using assms by (auto simp: payload_at_def)
  have len: "unat (of_nat 20 + n) = 20 + length xs"
    using n by (simp add: unat_word_ariths)
  have "of_nat 20 + n = of_nat (20 + length xs)"
    using n(1) by simp
  moreover have "ucast (of_nat (20 + length xs) :: u64) = (of_nat (20 + length xs) :: u16)"
    using n by (simp only: unsigned_of_nat) (simp add: take_bit_nat_eq_self)
  ultimately have len16: "of_nat 20 + ucast (of_nat 20 + n) = (of_nat (40 + length xs) :: u16)"
    by (simp only:) simp
  define m1 where "m1 = fill_tcp (fill_ip (put_mac (put_mac (put16 m (p + 12) (htons ETH_P_IP)) (p + 6) (if_mac iface)) p (\<lambda>_. 0xFF))
       (p + 14) (of_nat (40 + length xs)) (htons (ucast (conn_seq conn))) (htons 0x4000) IP_PROTO_TCP (local_ip conn) (remote_ip conn))
       (p + 34) conn flags"
  have m1: "m1 x = m x" if "x < p \<or> p + 54 \<le> x" for x
    using that unfolding m1_def by (auto simp: fill_tcp_outside fill_ip_outside packet_simps)
  have copy: "(case data of None \<Rightarrow> m1 | Some d \<Rightarrow> if n > 0 then memcpy_loop m1 (p + 54) d (unat n) else m1) = write_bytes m1 (p + 54) xs"
  proof (cases data)
    case None
    then have "xs = []"
      using assms n(1) by (simp add: payload_at_def)
    with None show ?thesis by simp
  next
    case (Some d)
    show ?thesis
    proof (cases "n = 0")
      case True
      then show ?thesis using Some n(1) by simp
    next
      case False
      have "read_bytes m1 d (unat n) = xs" and "disjoint_ranges d (unat n) p (54 + unat n)"
        using assms Some False m1 by (auto simp: payload_at_def disjoint_ranges_def intro!: read_bytes_cong)
      then have "memcpy_loop m1 (p + 54) d (unat n) = write_bytes m1 (p + 54) xs"
        by (subst memcpy_loop_upward) (auto simp: disjoint_ranges_def)
      with Some False show ?thesis
        by (simp add: word_gt_0)
    qed
  qed
  have addrs: "p + 14 + 20 = p + 34" "p + 34 + 20 = p + 54" "p + 34 + 16 = p + 50"
    by simp_all
  show ?thesis
    unfolding tcp_frame_def Let_def len len16 addrs tcp_frame0_def
    unfolding m1_def [symmetric] copy by (rule refl)
qed


lemma read_write_bytes_fields [packet_simps]:
  "b + 2 \<le> a \<or> a + length xs \<le> b \<Longrightarrow> read16 (write_bytes m a xs) b = read16 m b"
  "b + 4 \<le> a \<or> a + length xs \<le> b \<Longrightarrow> read32 (write_bytes m a xs) b = read32 m b"
  by (rule reads_cong(1) [where n = 2] reads_cong(2) [where n = 4]; auto simp: write_bytes_outside)+

lemma read_fill_fields [packet_simps]:
  "b + 2 \<le> a \<or> a + 20 \<le> b \<Longrightarrow> read16 (fill_tcp m a conn flags) b = read16 m b"
  "b + 4 \<le> a \<or> a + 20 \<le> b \<Longrightarrow> read32 (fill_tcp m a conn flags) b = read32 m b"
  "b + 2 \<le> a \<or> a + 20 \<le> b \<Longrightarrow> read16 (fill_ip m a len ident fr proto src dst) b = read16 m b"
  by (rule reads_cong(1) [where n = 2] reads_cong(2) [where n = 4]; auto simp: fill_tcp_outside fill_ip_outside)+

lemmas frame_simps = packet_simps write_bytes_outside fill_tcp_outside fill_ip_outside

lemma fill_ip_at:
  "a = ip \<Longrightarrow> fill_ip m ip len ident fr proto src dst a = 0x45"
  "a = ip + 2 \<Longrightarrow> read16 (fill_ip m ip len ident fr proto src dst) a = htons len"
  "a = ip + 9 \<Longrightarrow> fill_ip m ip len ident fr proto src dst a = proto"
  "a = ip + 12 \<Longrightarrow> read32 (fill_ip m ip len ident fr proto src dst) a = src"
  "a = ip + 16 \<Longrightarrow> read32 (fill_ip m ip len ident fr proto src dst) a = dst"
  by (simp_all only: fill_ip_fields)

lemma fill_tcp_at:
  "a = tcp \<Longrightarrow> read16 (fill_tcp m tcp conn flags) a = htons (local_port conn)"
  "a = tcp + 2 \<Longrightarrow> read16 (fill_tcp m tcp conn flags) a = htons (remote_port conn)"
  "a = tcp + 4 \<Longrightarrow> read32 (fill_tcp m tcp conn flags) a = htonl (conn_seq conn)"
  "a = tcp + 8 \<Longrightarrow> read32 (fill_tcp m tcp conn flags) a = htonl (conn_ack conn)"
  "a = tcp + 12 \<Longrightarrow> fill_tcp m tcp conn flags a = 0x50"
  "a = tcp + 13 \<Longrightarrow> fill_tcp m tcp conn flags a = flags"
  "a = tcp + 16 \<Longrightarrow> fill_tcp m tcp conn flags a = 0"
  "a = tcp + 17 \<Longrightarrow> fill_tcp m tcp conn flags a = 0"
  by (simp_all only: fill_tcp_fields)

lemma tcp_frame0_fields:
  fixes p :: addr
  defines "f \<equiv> tcp_frame0"
  shows "read16 (f m p iface conn flags xs) (p + 12) = htons ETH_P_IP" and "f m p iface conn flags xs (p + 14) = 0x45"
    and "read16 (f m p iface conn flags xs) (p + 16) = htons (of_nat (40 + length xs))"
    and "f m p iface conn flags xs (p + 23) = IP_PROTO_TCP"
    and "read32 (f m p iface conn flags xs) (p + 26) = local_ip conn"
    and "read32 (f m p iface conn flags xs) (p + 30) = remote_ip conn"
    and "read16 (f m p iface conn flags xs) (p + 34) = htons (local_port conn)"
    and "read16 (f m p iface conn flags xs) (p + 36) = htons (remote_port conn)"
    and "read32 (f m p iface conn flags xs) (p + 38) = htonl (conn_seq conn)"
    and "read32 (f m p iface conn flags xs) (p + 42) = htonl (conn_ack conn)"
    and "f m p iface conn flags xs (p + 46) = 0x50" and "f m p iface conn flags xs (p + 47) = flags"
    and "f m p iface conn flags xs (p + 50) = 0" and "f m p iface conn flags xs (p + 51) = 0"
    and "read_bytes (f m p iface conn flags xs) (p + 54) (length xs) = xs"
    and "checksum (f m p iface conn flags xs) (p + 14) 20 = 0"
proof -
  show "checksum (f m p iface conn flags xs) (p + 14) 20 = 0"
    unfolding f_def tcp_frame0_def
    by (rule trans [OF checksum_cong fill_ip_verifies]) (simp add: frame_simps)
qed (simp_all add: f_def tcp_frame0_def frame_simps fill_ip_at fill_tcp_at)


lemma tcp_frame_fields:
  assumes data: "payload_at m data n p xs" and f: "f = tcp_frame m p iface conn flags data n"
  shows "read16 f (p + 12) = htons ETH_P_IP" and "f (p + 14) = 0x45"
    and "read16 f (p + 16) = htons (of_nat (40 + length xs))" and "f (p + 23) = IP_PROTO_TCP"
    and "read32 f (p + 26) = local_ip conn" and "read32 f (p + 30) = remote_ip conn"
    and "read16 f (p + 34) = htons (local_port conn)" and "read16 f (p + 36) = htons (remote_port conn)"
    and "read32 f (p + 38) = htonl (conn_seq conn)" and "read32 f (p + 42) = htonl (conn_ack conn)"
    and "f (p + 46) = 0x50" and "f (p + 47) = flags" and "read_bytes f (p + 54) (length xs) = xs"
    and "checksum f (p + 14) 20 = 0" and "tcp_checksum f (p + 14) (p + 34) (20 + length xs) = 0"
    and "x < p \<or> p + 54 + length xs \<le> x \<Longrightarrow> f x = m x"
proof -
  let ?f0 = "tcp_frame0 m p iface conn flags xs"
  let ?c = "tcp_checksum ?f0 (p + 14) (p + 34) (20 + length xs)"
  have f: "f = put16 ?f0 (p + 50) ?c"
    using tcp_frame_eq [OF data] f by simp
  have len: "length xs \<le> 65495"
    using data by (auto simp: payload_at_def)
  show "read_bytes f (p + 54) (length xs) = xs"
    using tcp_frame0_fields(15) unfolding f put16_def by (subst read_write_disjoint) (auto simp: disjoint_ranges_def)
  show "checksum f (p + 14) 20 = 0"
    unfolding f by (rule trans [OF checksum_cong tcp_frame0_fields(16)]) (simp add: packet_simps)
  have addrs: "p + 34 + 16 = p + 50" "p + 50 + 1 = p + 51"
    by simp_all
  have "tcp_start f (p + 14) (20 + length xs) = tcp_start ?f0 (p + 14) (20 + length xs)"
    unfolding f by (rule tcp_start_cong) (simp add: packet_simps)
  moreover have "sum16 (tcp_start ?f0 (p + 14) (20 + length xs)) f (p + 34) (20 + length xs) = 0"
    using len tcp_start_eq(2) [of "20 + length xs" ?f0 "p + 14"] tcp_frame0_fields(13,14) [of m p iface conn flags xs]
    unfolding f by (intro sum16_verifies [where k = 16 and p = "p + 34" and m = ?f0 and c = ?c, unfolded addrs])
      (simp_all add: put16_def le_bytes_2 checksum_sum16)
  ultimately show "tcp_checksum f (p + 14) (p + 34) (20 + length xs) = 0"
    by (simp only: checksum_sum16)
  show "x < p \<or> p + 54 + length xs \<le> x \<Longrightarrow> f x = m x"
    unfolding f by (auto simp: packet_simps tcp_frame0_outside)
qed (simp_all add: tcp_frame_eq [OF data] f packet_simps tcp_frame0_fields)


lemma field_read:
  "off + 1 \<le> n \<Longrightarrow> field (read_bytes m p n) off 1 = unat (m (p + off))"
  "off + 2 \<le> n \<Longrightarrow> field (read_bytes m p n) off 2 = unat (htons (read16 m (p + off)))"
  "off + 4 \<le> n \<Longrightarrow> field (read_bytes m p n) off 4 = unat (htonl (read32 m (p + off)))"
proof -
  have part: "take k (drop off (read_bytes m p n)) = read_bytes m (p + off) k" if "off + k \<le> n" for k
    using that by (auto intro!: nth_equalityI simp: ac_simps)
  show "field (read_bytes m p n) off 1 = unat (m (p + off))" if "off + 1 \<le> n"
    unfolding field_def part [OF that] by (simp add: be_nat_def read_bytes_Suc)
  show "field (read_bytes m p n) off 2 = unat (htons (read16 m (p + off)))" if "off + 2 \<le> n"
    unfolding field_def part [OF that] by (rule be_nat_htons)
  show "field (read_bytes m p n) off 4 = unat (htonl (read32 m (p + off)))" if "off + 4 \<le> n"
    unfolding field_def part [OF that] by (rule be_nat_htonl)
qed

lemma verified_sum:
  assumes "sum16 acc m p n = 0" and "unat acc = le_sum ps" and "even (length ps)" and "length ps + n \<le> 131072"
  shows "oc_sum (ps @ read_bytes m p n) = 65535"
proof -
  have "rfc1071 (ps @ read_bytes m p n) = unat (htons 0)"
    using sum16_rfc1071 [OF assms(2-4), of m p] assms(1) by simp
  then show ?thesis
    using oc_le [of "be_sum (ps @ read_bytes m p n)"] by (simp add: rfc1071_def oc_sum_eq htons_def)
qed

lemma tcp_frame_carries:
  assumes data: "payload_at m data n p xs"
  shows "carries (read_bytes (tcp_frame m p iface conn flags data n) p (54 + length xs)) conn flags xs"
proof -
  define f where "f = tcp_frame m p iface conn flags data n"
  note fields = tcp_frame_fields [OF data f_def]
  have len: "length xs \<le> 65495"
    using data by (auto simp: payload_at_def)
  have ip: "oc_sum (read_bytes f (p + 14) 20) = 65535"
    using fields(14) verified_sum [of 0 f "p + 14" 20 "[]"] by (simp add: checksum_sum16)
  have "oc_sum (pseudo_header f (p + 14) (20 + length xs) @ read_bytes f (p + 34) (20 + length xs)) = 65535"
    using fields(15) len unfolding checksum_sum16
    by (intro verified_sum [OF _ tcp_start_eq(1)]) (auto simp: pseudo_header_def)
  then have tcp: "oc_sum (read_bytes f (p + 26) 8 @ [0, 6, of_nat ((20 + length xs) div 256), of_nat (20 + length xs)]
      @ read_bytes f (p + 34) (20 + length xs)) = 65535"
    by (simp add: pseudo_header_def IP_PROTO_TCP_def add.commute [of p])
  have "unat (of_nat (40 + length xs) :: u16) = 40 + length xs"
    using len by (simp add: unat_of_nat take_bit_nat_eq_self del: of_nat_add)
  then show ?thesis
    unfolding carries_def f_def [symmetric]
    using ip tcp by (simp add: field_read field_read [unfolded One_nat_def] fields drop_read_bytes min_def ETH_P_IP_def IP_PROTO_TCP_def)
qed


text \<open>
  A caller's data that stays where it is while a packet is allocated: it lies in a block in use, or
  outside the heap.
\<close>

definition stable :: "kheap \<Rightarrow> addr \<Rightarrow> nat \<Rightarrow> bool" where
  "stable h d n \<longleftrightarrow> n = 0 \<or> d + n \<le> heap_start h \<or> heap_end h \<le> d \<or> (\<exists>(b, k) \<in> live h. b \<le> d \<and> d + n \<le> b + k)"

lemma stable_apart:
  assumes "heap_inv h'" and "live h' = insert (p, k) (live h)" and "(p, k) \<notin> live h" and "stable h d n"
    and "heap_start h' = heap_start h" and "heap_end h' = heap_end h" and "0 < n"
  shows "disjoint_ranges d n p k"
proof -
  consider "d + n \<le> heap_start h \<or> heap_end h \<le> d" | b l where "(b, l) \<in> live h" "b \<le> d" "d + n \<le> b + l"
    using assms(4,7) by (auto simp: stable_def)
  then show ?thesis
  proof cases
    case 1
    then show ?thesis
      using live_bounds [OF assms(1), of p k] assms(2,5,6) by (auto simp: disjoint_ranges_def)
  next
    case 2
    moreover from 2(1) assms(3) have "(p, k) \<noteq> (b, l)"
      by auto
    ultimately show ?thesis
      using live_disjoint [OF assms(1), of p k b l] assms(2) by (auto simp: disjoint_ranges_def)
  qed
qed

text \<open>What a send leaves alone: the connections, the interfaces but for the counters, the blocks in use and their contents.\<close>

definition same_net :: "net \<Rightarrow> net \<Rightarrow> bool" where
  "same_net s s' \<longleftrightarrow> heap_inv (nheap s') \<and> live (nheap s') = live (nheap s) \<and>
     heap_start (nheap s') = heap_start (nheap s) \<and> heap_end (nheap s') = heap_end (nheap s) \<and>
     tcp_connections s' = tcp_connections s \<and> num_interfaces s' = num_interfaces s \<and> arp_cache s' = arp_cache s \<and>
     next_ephemeral_port s' = next_ephemeral_port s \<and> tcp_isn_counter s' = tcp_isn_counter s \<and>
     (\<forall>i. has_send (interfaces s' i) = has_send (interfaces s i) \<and> if_ip (interfaces s' i) = if_ip (interfaces s i) \<and>
        if_mac (interfaces s' i) = if_mac (interfaces s i)) \<and>
     (\<forall>d n. stable (nheap s) d n \<longrightarrow> read_bytes (nmem s') d n = read_bytes (nmem s) d n)"

lemma transmit_fields [simp]:
  "nheap (iface_transmit s i p) = nheap s" "num_interfaces (iface_transmit s i p) = num_interfaces s"
  "arp_cache (iface_transmit s i p) = arp_cache s" "tcp_connections (iface_transmit s i p) = tcp_connections s"
  "next_ephemeral_port (iface_transmit s i p) = next_ephemeral_port s"
  "tcp_isn_counter (iface_transmit s i p) = tcp_isn_counter s"
  "has_send (interfaces (iface_transmit s i p) j) = has_send (interfaces s j)"
  "if_ip (interfaces (iface_transmit s i p) j) = if_ip (interfaces s j)"
  "if_mac (interfaces (iface_transmit s i p) j) = if_mac (interfaces s j)"
  "wire (iface_transmit s i p) = (if has_send (interfaces s i) then wire s @ [(i, p)] else wire s)"
  by (simp_all add: iface_transmit_def iface_send_def)

lemma tcp_send_packet_result:
  assumes inv: "heap_inv (nheap s)" and "unat n \<le> 65495"
    and data: "case data of None \<Rightarrow> n = 0 \<and> xs = [] | Some d \<Rightarrow> stable (nheap s) d (unat n) \<and> xs = read_bytes (nmem s) d (unat n)"
  obtains (no_interface) "num_interfaces s = 0" "tcp_send_packet s c flags data n = Some (s, - 1)"
  | (no_memory) "num_interfaces s \<noteq> 0" "tcp_send_packet s c flags data n = Some (s, - 1)"
      "\<forall>(b, k) \<in> free_blocks (nheap s). k < 54 + unat n + header_size + MIN_ALLOC"
  | (sent) s' f where "num_interfaces s \<noteq> 0" "tcp_send_packet s c flags data n = Some (s', 0)" "same_net s s'"
      "carries f (tcp_connections s c) flags xs"
      "wire s' = (if has_send (interfaces s 0) then wire s @ [(0, f)] else wire s)"
proof (cases "num_interfaces s = 0")
  case True
  then show ?thesis
    by (intro no_interface) (simp_all add: tcp_send_packet_def)
next
  case iface: False
  have total: "unat (of_nat (14 + 20 + 20) + n) = 54 + unat n"
    using assms(2) by (simp add: unat_word_ariths)
  have call: "tcp_send_packet s c flags data n = do {
      (h, r) \<leftarrow> kmalloc (nheap s) (54 + unat n) GFP_KERNEL;
      case r of None \<Rightarrow> Some (s\<lparr>nheap := h\<rparr>, - 1)
      | Some packet \<Rightarrow> do {
          let m = tcp_frame (kbytes h) packet (interfaces s 0) (tcp_connections s c) flags data n;
          let s1 = iface_transmit (s\<lparr>nheap := h\<lparr>kbytes := m\<rparr>\<rparr>) 0 (read_bytes m packet (54 + unat n));
          h1 \<leftarrow> kfree (nheap s1) (Some packet);
          Some (s1\<lparr>nheap := h1\<rparr>, 0)
        }
      }"
    unfolding tcp_send_packet_def total if_not_P [OF iface] Let_def by (rule refl)
  from inv show ?thesis
  proof (cases rule: kmalloc_result [where sz = "54 + unat n" and flags = GFP_KERNEL])
    case none
    then have "tcp_send_packet s c flags data n = Some (s, - 1)"
      unfolding call by simp
    moreover have "\<forall>(b, k) \<in> free_blocks (nheap s). k < 54 + unat n + header_size + MIN_ALLOC"
      using none(2) assms(2) by (auto simp: MAX_ALLOC_def)
    ultimately show ?thesis
      using iface by (intro no_memory)
  next
    case (some h p k)
    have h: "kbytes h = nmem s"
      using some(8) by simp
    let ?m = "tcp_frame (nmem s) p (interfaces s 0) (tcp_connections s c) flags data n"
    let ?f = "read_bytes ?m p (54 + unat n)"
    have apart: "disjoint_ranges d l p k" if "stable (nheap s) d l" "0 < l" for d l
      using stable_apart [OF some(2,4,5) that(1) some(9,10) that(2)] .
    have len: "length xs = unat n"
      using data by (auto split: option.splits)
    have payload: "payload_at (nmem s) data n p xs"
    proof (cases data)
      case None
      with data len show ?thesis by (simp add: payload_at_def)
    next
      case (Some d)
      with data have "n = 0 \<or> disjoint_ranges d (unat n) p k"
        using apart [of d "unat n"] by (auto simp: unat_gt_0)
      with Some data assms(2) some(3) len show ?thesis
        by (auto simp: payload_at_def disjoint_ranges_def)
    qed
    let ?h = "h\<lparr>kbytes := ?m\<rparr>"
    have "heap_inv ?h" "(p, k) \<in> live ?h"
      using some(2,4) by (simp_all add: heap_inv_bytes live_bytes)
    then obtain h1 where h1: "kfree ?h (Some p) = Some h1" "heap_inv h1" "live h1 = live ?h - {(p, k)}"
        "kbytes h1 = ?m" "heap_start h1 = heap_start h" "heap_end h1 = heap_end h"
      by (rule kfree_live) simp
    let ?s1 = "iface_transmit (s\<lparr>nheap := ?h\<rparr>) 0 ?f"
    let ?s' = "?s1\<lparr>nheap := h1\<rparr>"
    have "tcp_send_packet s c flags data n = Some (?s', 0)"
      unfolding call using some(1) h1(1) by (simp add: h Let_def)
    moreover have "read_bytes ?m d l = read_bytes (nmem s) d l" if "stable (nheap s) d l" for d l
      using apart [OF that] tcp_frame_fields(16) [OF payload refl] some(3) len
      by (intro read_bytes_cong) (auto simp: disjoint_ranges_def)
    then have "same_net s ?s'"
      using h1 some(4,5,9,10) by (auto simp: same_net_def live_bytes)
    moreover have "carries ?f (tcp_connections s c) flags xs"
      using tcp_frame_carries [OF payload] len by simp
    moreover have "wire ?s' = (if has_send (interfaces s 0) then wire s @ [(0, ?f)] else wire s)"
      by simp
    ultimately show ?thesis
      using iface sent by blast
  qed
qed


section \<open>Connections and their buffers\<close>

text \<open>
  The buffers of a connection in use, and the invariant: they are blocks of the heap that no other
  connection has, the lengths stay within the buffers, and the blocks in use are those buffers and a set
  \<open>B\<close> that belongs to the rest of the kernel.
\<close>

definition conn_bufs :: "tcp_connection \<Rightarrow> addr set" where
  "conn_bufs conn = (if in_use conn then set_option (recv_buf conn) \<union> set_option (send_buf conn) else {})"

abbreviation (input) own :: "net \<Rightarrow> nat \<Rightarrow> addr set" where
  "own s c \<equiv> conn_bufs (tcp_connections s c)"

definition conn_ok :: "kheap \<Rightarrow> tcp_connection \<Rightarrow> bool" where
  "conn_ok h conn \<longleftrightarrow> (in_use conn \<longrightarrow>
     (\<forall>b \<in> conn_bufs conn. \<exists>k \<ge> 65536. (b, k) \<in> live h) \<and> (recv_buf conn \<noteq> None \<longrightarrow> recv_buf conn \<noteq> send_buf conn) \<and>
     recv_capacity conn = 65536 \<and> send_capacity conn = 65536 \<and> unat (recv_len conn) \<le> 65536 \<and> unat (send_len conn) \<le> 65536 \<and>
     conn_state conn \<notin> {TCP_CLOSED, TCP_LISTEN, TCP_SYN_RECEIVED})"

definition net_inv :: "(addr \<times> nat) set \<Rightarrow> net \<Rightarrow> bool" where
  "net_inv B s \<longleftrightarrow> heap_inv (nheap s) \<and> (\<forall>c < MAX_TCP_CONNECTIONS. conn_ok (nheap s) (tcp_connections s c)) \<and>
     (\<forall>c < MAX_TCP_CONNECTIONS. \<forall>d < MAX_TCP_CONNECTIONS. c \<noteq> d \<longrightarrow> own s c \<inter> own s d = {}) \<and>
     B \<subseteq> live (nheap s) \<and>
     (\<forall>b k. (b, k) \<in> live (nheap s) \<longrightarrow> ((b, k) \<in> B \<longleftrightarrow> (\<forall>c < MAX_TCP_CONNECTIONS. b \<notin> own s c)))"

lemma net_invD:
  assumes "net_inv B s"
  shows "heap_inv (nheap s)" and "c < MAX_TCP_CONNECTIONS \<Longrightarrow> conn_ok (nheap s) (tcp_connections s c)"
    and "c < MAX_TCP_CONNECTIONS \<Longrightarrow> d < MAX_TCP_CONNECTIONS \<Longrightarrow> c \<noteq> d \<Longrightarrow> own s c \<inter> own s d = {}"
    and "B \<subseteq> live (nheap s)"
    and "(b, k) \<in> live (nheap s) \<Longrightarrow> (b, k) \<in> B \<longleftrightarrow> (\<forall>c < MAX_TCP_CONNECTIONS. b \<notin> own s c)"
  using assms by (auto simp: net_inv_def)

lemma net_inv_cong:
  assumes "net_inv B s" and "heap_inv (nheap s')" and "live (nheap s') = live (nheap s)"
    and "tcp_connections s' = tcp_connections s"
  shows "net_inv B s'"
  using assms by (simp add: net_inv_def conn_ok_def)

lemma net_inv_same: "same_net s s' \<Longrightarrow> net_inv B s \<Longrightarrow> net_inv B s'"
  by (erule net_inv_cong) (auto simp: same_net_def)

lemma net_inv_mem [simp]: "net_inv B (set_mem s m) \<longleftrightarrow> net_inv B s"
  by (simp add: net_inv_def set_mem_def heap_inv_bytes live_bytes conn_ok_def)

lemma net_inv_conn:
  assumes inv: "net_inv B s" and c: "c < MAX_TCP_CONNECTIONS"
    and same: "conn_bufs (f (tcp_connections s c)) = own s c" and ok: "conn_ok (nheap s) (f (tcp_connections s c))"
  shows "net_inv B (set_conn s c f)"
proof -
  have own: "own (set_conn s c f) d = own s d" for d
    by (simp add: set_conn_def same)
  show ?thesis
    using inv c ok unfolding net_inv_def own by (auto simp: set_conn_def)
qed

text \<open>A block of the kernel, or memory outside the heap, is apart from every buffer.\<close>

definition foreign :: "(addr \<times> nat) set \<Rightarrow> net \<Rightarrow> addr \<Rightarrow> nat \<Rightarrow> bool" where
  "foreign B s d n \<longleftrightarrow> n = 0 \<or> d + n \<le> heap_start (nheap s) \<or> heap_end (nheap s) \<le> d \<or> (\<exists>(b, k) \<in> B. b \<le> d \<and> d + n \<le> b + k)"

lemma foreign_stable: "net_inv B s \<Longrightarrow> foreign B s d n \<Longrightarrow> stable (nheap s) d n"
  using net_invD(4) [of B s] by (fastforce simp: foreign_def stable_def)

lemma foreign_apart:
  assumes inv: "net_inv B s" and d: "foreign B s d n" "0 < n" and c: "c < MAX_TCP_CONNECTIONS" and b: "b \<in> own s c"
  shows "disjoint_ranges d n b 65536"
proof -
  obtain k where k: "65536 \<le> k" "(b, k) \<in> live (nheap s)"
    using net_invD(2) [OF inv c] b by (auto simp: conn_ok_def conn_bufs_def split: if_splits)
  then have "(b, k) \<notin> B"
    using net_invD(5) [OF inv, of b k] c b by blast
  consider "d + n \<le> heap_start (nheap s) \<or> heap_end (nheap s) \<le> d" | a l where "(a, l) \<in> B" "a \<le> d" "d + n \<le> a + l"
    using d by (auto simp: foreign_def)
  then show ?thesis
  proof cases
    case 1
    then show ?thesis
      using live_bounds [OF net_invD(1) [OF inv] k(2)] k(1) by (auto simp: disjoint_ranges_def)
  next
    case 2
    then have "(a, l) \<in> live (nheap s)" "(a, l) \<noteq> (b, k)"
      using net_invD(4) [OF inv] \<open>(b, k) \<notin> B\<close> by auto
    from live_disjoint [OF net_invD(1) [OF inv] this(1) k(2) this(2)] 2 k(1) show ?thesis
      by (auto simp: disjoint_ranges_def)
  qed
qed


lemma conn_ok_live:
  assumes "conn_ok h conn" and "\<And>b k. b \<in> conn_bufs conn \<Longrightarrow> (b, k) \<in> live h \<Longrightarrow> (b, k) \<in> live h'"
  shows "conn_ok h' conn"
  using assms unfolding conn_ok_def by metis

lemma conn_ok_unused: "\<not> in_use conn \<Longrightarrow> conn_ok h conn"
  by (simp add: conn_ok_def)

lemma kfree_buf:
  assumes inv: "heap_inv h" and r: "\<And>b. r = Some b \<Longrightarrow> \<exists>k. (b, k) \<in> live h"
  obtains h' where "(if r \<noteq> None then kfree h r else Some h) = Some h'" and "heap_inv h'"
    and "live h' = {(b, k). (b, k) \<in> live h \<and> b \<notin> set_option r}" and "kbytes h' = kbytes h"
    and "heap_start h' = heap_start h" and "heap_end h' = heap_end h"
proof (cases r)
  case None
  with inv that [of h] show ?thesis by simp
next
  case (Some b)
  then obtain k where k: "(b, k) \<in> live h"
    using r by blast
  obtain h' where h': "kfree h (Some b) = Some h'" "heap_inv h'" "live h' = live h - {(b, k)}" "kbytes h' = kbytes h"
      "heap_start h' = heap_start h" "heap_end h' = heap_end h"
    using kfree_live [OF inv k] by metis
  moreover have "live h - {(b, k)} = {(a, l). (a, l) \<in> live h \<and> a \<notin> {b}}"
    using live_functional [OF inv k] by auto
  ultimately show ?thesis
    using that [of h'] Some by simp
qed

text \<open>What the operations on connections leave alone.\<close>

definition same_stack :: "net \<Rightarrow> net \<Rightarrow> bool" where
  "same_stack s s' \<longleftrightarrow> num_interfaces s' = num_interfaces s \<and>
     heap_start (nheap s') = heap_start (nheap s) \<and> heap_end (nheap s') = heap_end (nheap s) \<and>
     (\<forall>i. has_send (interfaces s' i) = has_send (interfaces s i) \<and> if_ip (interfaces s' i) = if_ip (interfaces s i) \<and>
        if_mac (interfaces s' i) = if_mac (interfaces s i))"

lemma same_net_rest: "same_net s s' \<Longrightarrow> same_stack s s'"
  by (simp add: same_net_def same_stack_def)

lemma same_stack_refl [simp]: "same_stack s s"
  by (simp add: same_stack_def)

lemma same_stack_trans: "same_stack s t \<Longrightarrow> same_stack t u \<Longrightarrow> same_stack s u"
  by (simp add: same_stack_def)

lemma same_stack_set [simp]: "same_stack s (set_conn t c f) = same_stack s t" "same_stack s (set_mem t m) = same_stack s t"
  "same_stack (set_conn t c f) s = same_stack t s" "same_stack (set_mem t m) s = same_stack t s"
  by (simp_all add: same_stack_def set_conn_def set_mem_def)

lemma set_conn_get [simp]: "tcp_connections (set_conn s c f) = (tcp_connections s)(c := f (tcp_connections s c))"
  "nheap (set_conn s c f) = nheap s" "num_interfaces (set_conn s c f) = num_interfaces s" "interfaces (set_conn s c f) = interfaces s"
  "wire (set_conn s c f) = wire s" "arp_cache (set_conn s c f) = arp_cache s"
  by (simp_all add: set_conn_def)

lemma set_mem_get [simp]: "tcp_connections (set_mem s m) = tcp_connections s" "kbytes (nheap (set_mem s m)) = m"
  "live (nheap (set_mem s m)) = live (nheap s)" "num_interfaces (set_mem s m) = num_interfaces s"
  "interfaces (set_mem s m) = interfaces s" "wire (set_mem s m) = wire s" "heap_inv (nheap (set_mem s m)) = heap_inv (nheap s)"
  "heap_start (nheap (set_mem s m)) = heap_start (nheap s)" "heap_end (nheap (set_mem s m)) = heap_end (nheap s)"
  by (simp_all add: set_mem_def live_bytes heap_inv_bytes)

lemma set_conn_id [simp]: "set_conn s c (\<lambda>conn. conn) = s"
  by (simp add: set_conn_def)

lemma free_connection:
  assumes inv: "net_inv B s" and c: "c < MAX_TCP_CONNECTIONS" "in_use (tcp_connections s c)"
    and f: "recv_buf (f (tcp_connections s c)) = recv_buf (tcp_connections s c)"
      "send_buf (f (tcp_connections s c)) = send_buf (tcp_connections s c)"
  obtains s' where "tcp_free_connection (set_conn s c f) c = Some s'" and "net_inv B s'"
    and "tcp_connections s' = (tcp_connections s)(c := (f (tcp_connections s c))\<lparr>in_use := False\<rparr>)"
    and "same_stack s s'" and "nmem s' = nmem s" and "wire s' = wire s"
proof -
  let ?conn = "tcp_connections s c"
  have ok: "conn_ok (nheap s) ?conn"
    using net_invD(2) [OF inv c(1)] .
  have own: "own s c = set_option (recv_buf ?conn) \<union> set_option (send_buf ?conn)"
    using c(2) by (simp add: conn_bufs_def)
  have bufs: "\<exists>k. (b, k) \<in> live (nheap s)" if "b \<in> own s c" for b
    using ok c(2) that by (auto simp: conn_ok_def)
  obtain h1 where h1: "(if recv_buf ?conn \<noteq> None then kfree (nheap s) (recv_buf ?conn) else Some (nheap s)) = Some h1"
      "heap_inv h1" "live h1 = {(b, k). (b, k) \<in> live (nheap s) \<and> b \<notin> set_option (recv_buf ?conn)}"
      "kbytes h1 = nmem s" "heap_start h1 = heap_start (nheap s)" "heap_end h1 = heap_end (nheap s)"
  proof (rule kfree_buf [OF net_invD(1) [OF inv], of "recv_buf ?conn"])
    show "\<exists>k. (b, k) \<in> live (nheap s)" if "recv_buf ?conn = Some b" for b
      using bufs [of b] that own by simp
  qed
  have "\<exists>k. (b, k) \<in> live h1" if "send_buf ?conn = Some b" for b
    using bufs [of b] that ok c(2) own h1(3) by (auto simp: conn_ok_def)
  with h1(2) obtain h2 where h2: "(if send_buf ?conn \<noteq> None then kfree h1 (send_buf ?conn) else Some h1) = Some h2"
      "heap_inv h2" "live h2 = {(b, k). (b, k) \<in> live h1 \<and> b \<notin> set_option (send_buf ?conn)}"
      "kbytes h2 = nmem s" "heap_start h2 = heap_start (nheap s)" "heap_end h2 = heap_end (nheap s)"
    unfolding h1(4-6) [symmetric] by (rule kfree_buf [of h1 "send_buf ?conn"])
  let ?s' = "set_conn (s\<lparr>nheap := h2\<rparr>) c (\<lambda>_. (f ?conn)\<lparr>in_use := False\<rparr>)"
  have live: "live h2 = {(b, k). (b, k) \<in> live (nheap s) \<and> b \<notin> own s c}"
    using h1(3) h2(3) own by auto
  have own': "own ?s' d = (if d = c then {} else own s d)" for d
    by (simp add: conn_bufs_def)
  have "net_inv B ?s'"
    unfolding net_inv_def
  proof (intro conjI allI impI)
    show "heap_inv (nheap ?s')"
      using h2(2) by simp
    fix d
    assume d: "d < MAX_TCP_CONNECTIONS"
    show "conn_ok (nheap ?s') (tcp_connections ?s' d)"
    proof (cases "d = c")
      case True
      then show ?thesis by (simp add: conn_ok_unused)
    next
      case False
      then show ?thesis
        using conn_ok_live [OF net_invD(2) [OF inv d], of h2] net_invD(3) [OF inv d c(1)] live by auto
    qed
    show "own ?s' d \<inter> own ?s' e = {}" if "e < MAX_TCP_CONNECTIONS" "d \<noteq> e" for e
      using net_invD(3) [OF inv d that] unfolding own' by auto
  next
    show "B \<subseteq> live (nheap ?s')"
      using net_invD(4,5) [OF inv] c(1) live by auto
    show "(b, k) \<in> B \<longleftrightarrow> (\<forall>d < MAX_TCP_CONNECTIONS. b \<notin> own ?s' d)" if "(b, k) \<in> live (nheap ?s')" for b k
      using that net_invD(5) [OF inv, of b k] live unfolding own' by auto
  qed
  moreover have "tcp_free_connection (set_conn s c f) c = Some ?s'"
    unfolding tcp_free_connection_def Let_def set_conn_get fun_upd_same f h1(1) Option.bind.simps h2(1)
    by (simp add: set_conn_def)
  moreover have "same_stack s ?s'"
    using h2(5,6) by (simp add: same_stack_def)
  ultimately show ?thesis
    using that [of ?s'] h2(4) by simp
qed


lemma kmalloc_buf:
  assumes "heap_inv h"
  obtains h' r where "kmalloc h 65536 GFP_KERNEL = Some (h', r)" and "heap_inv h'" and "kbytes h' = kbytes h"
    and "heap_start h' = heap_start h" and "heap_end h' = heap_end h" and "live h \<subseteq> live h'"
    and "\<forall>b k. (b, k) \<in> live h' \<longrightarrow> (b, k) \<in> live h \<or> r = Some b"
    and "\<forall>b. r = Some b \<longrightarrow> (\<exists>k \<ge> 65536. (b, k) \<in> live h') \<and> (\<forall>k. (b, k) \<notin> live h)"
  using assms
proof (cases rule: kmalloc_result [where sz = 65536 and flags = GFP_KERNEL])
  case none
  with assms that [of h None] show ?thesis by simp
next
  case (some h' p n)
  have fresh: "(p, k) \<notin> live h" for k
    using live_functional [OF some(2), of p n k] some(4,5) by auto
  have "live h \<subseteq> live h'" "\<And>b k. (b, k) \<in> live h' \<Longrightarrow> (b, k) \<in> live h \<or> Some p = Some b"
    using some(4) by auto
  moreover have "(\<exists>k \<ge> 65536. (b, k) \<in> live h') \<and> (\<forall>k. (b, k) \<notin> live h)" if "Some p = Some b" for b
    using that some(3,4) fresh by auto
  ultimately show ?thesis
    using that [of h' "Some p"] some by simp
qed

lemma alloc_connection:
  assumes inv: "net_inv B s"
  obtains (full) "tcp_alloc_connection s = Some (s, None)"
  | (new) s' c conn where "tcp_alloc_connection s = Some (s', Some c)" and "c < MAX_TCP_CONNECTIONS"
      and "\<not> in_use (tcp_connections s c)" and "tcp_connections s' = (tcp_connections s)(c := conn)" and "in_use conn"
      and "same_stack s s'" and "nmem s' = nmem s" and "wire s' = wire s"
      and "\<And>f. f conn = conn\<lparr>conn_state := TCP_SYN_SENT\<rparr> \<Longrightarrow> net_inv B (set_conn s' c f)"
proof (cases "List.find (\<lambda>c. \<not> in_use (tcp_connections s c)) [0..<MAX_TCP_CONNECTIONS]")
  case None
  then show ?thesis
    by (intro full) (simp add: tcp_alloc_connection_def)
next
  case (Some c)
  then have c: "c < MAX_TCP_CONNECTIONS" "\<not> in_use (tcp_connections s c)"
    by (auto simp: find_Some_iff)
  obtain h1 r1 where h1: "kmalloc (nheap s) 65536 GFP_KERNEL = Some (h1, r1)" "heap_inv h1" "kbytes h1 = nmem s"
      "heap_start h1 = heap_start (nheap s)" "heap_end h1 = heap_end (nheap s)" "live (nheap s) \<subseteq> live h1"
      "\<forall>b k. (b, k) \<in> live h1 \<longrightarrow> (b, k) \<in> live (nheap s) \<or> r1 = Some b"
      "\<forall>b. r1 = Some b \<longrightarrow> (\<exists>k \<ge> 65536. (b, k) \<in> live h1) \<and> (\<forall>k. (b, k) \<notin> live (nheap s))"
    using net_invD(1) [OF inv] by (rule kmalloc_buf)
  obtain h2 r2 where h2: "kmalloc h1 65536 GFP_KERNEL = Some (h2, r2)" "heap_inv h2" "kbytes h2 = kbytes h1"
      "heap_start h2 = heap_start h1" "heap_end h2 = heap_end h1" "live h1 \<subseteq> live h2"
      "\<forall>b k. (b, k) \<in> live h2 \<longrightarrow> (b, k) \<in> live h1 \<or> r2 = Some b"
      "\<forall>b. r2 = Some b \<longrightarrow> (\<exists>k \<ge> 65536. (b, k) \<in> live h2) \<and> (\<forall>k. (b, k) \<notin> live h1)"
    using h1(2) by (rule kmalloc_buf)
  define conn where "conn = (tcp_connections s c)\<lparr>in_use := True, conn_state := TCP_CLOSED,
    recv_capacity := 65536, send_capacity := 65536, recv_buf := r1, send_buf := r2,
    recv_len := 0, send_len := 0, recv_wnd := 65535, send_wnd := 65535\<rparr>"
  let ?s' = "set_conn (s\<lparr>nheap := h2\<rparr>) c (\<lambda>_. conn)"
  have "tcp_alloc_connection s = Some (?s', Some c)"
    using Some h1(1) h2(1) by (simp add: tcp_alloc_connection_def conn_def set_conn_def)
  moreover have "net_inv B (set_conn ?s' c f)" if f: "f conn = conn\<lparr>conn_state := TCP_SYN_SENT\<rparr>" for f
  proof -
    let ?t = "set_conn ?s' c f"
    have own_c: "own ?t c = set_option r1 \<union> set_option r2"
      using f by (simp add: conn_def conn_bufs_def)
    have own: "own ?t d = own s d" if "d \<noteq> c" for d
      using that by simp
    have new: "b \<notin> own ?t c" if "(b, k) \<in> live (nheap s)" for b k
      using that h1(6,8) h2(8) unfolding own_c by auto
    have old: "\<exists>k. (b, k) \<in> live (nheap s)" if "b \<in> own s d" "d < MAX_TCP_CONNECTIONS" for b d
      using net_invD(2) [OF inv that(2)] that(1) by (auto simp: conn_ok_def conn_bufs_def split: if_splits)
    have disj: "own s d \<inter> own ?t c = {}" if "d < MAX_TCP_CONNECTIONS" for d
      using old [OF _ that] new by blast
    show ?thesis
      unfolding net_inv_def
    proof (intro conjI allI impI)
      show "heap_inv (nheap ?t)"
        using h2(2) by simp
      fix d
      assume d: "d < MAX_TCP_CONNECTIONS"
      show "conn_ok (nheap ?t) (tcp_connections ?t d)"
      proof (cases "d = c")
        case True
        have "r1 \<noteq> r2" if "r1 \<noteq> None"
          using that h1(8) h2(8) by auto
        moreover have "\<exists>k \<ge> 65536. (b, k) \<in> live h2" if "b \<in> set_option r1 \<union> set_option r2" for b
          using that h1(8) h2(6,8) by fastforce
        ultimately show ?thesis
          using True f by (auto simp: conn_ok_def conn_bufs_def conn_def)
      next
        case False
        then show ?thesis
          using conn_ok_live [OF net_invD(2) [OF inv d], of h2] h1(6) h2(6) by auto
      qed
      show "own ?t d \<inter> own ?t e = {}" if e: "e < MAX_TCP_CONNECTIONS" "d \<noteq> e" for e
      proof -
        consider "d = c" "e \<noteq> c" | "e = c" "d \<noteq> c" | "d \<noteq> c" "e \<noteq> c"
          using e(2) by blast
        then show ?thesis
        proof cases
          case 1
          show ?thesis unfolding 1(1) own [OF 1(2)] using disj [OF e(1)] by (simp only: Int_commute)
        next
          case 2
          show ?thesis unfolding 2(1) own [OF 2(2)] by (rule disj [OF d])
        next
          case 3
          show ?thesis unfolding own [OF 3(1)] own [OF 3(2)] by (rule net_invD(3) [OF inv d e])
        qed
      qed
    next
      show "B \<subseteq> live (nheap ?t)"
        using net_invD(4) [OF inv] h1(6) h2(6) by auto
      show "(b, k) \<in> B \<longleftrightarrow> (\<forall>d < MAX_TCP_CONNECTIONS. b \<notin> own ?t d)" if "(b, k) \<in> live (nheap ?t)" for b k
      proof (cases "(b, k) \<in> live (nheap s)")
        case True
        have "own s c = {}"
          using c(2) by (simp add: conn_bufs_def)
        then show ?thesis
          using net_invD(5) [OF inv True] new [OF True] own by (metis empty_iff)
      next
        case False
        then have "b \<in> own ?t c"
          using that h1(7) h2(7) unfolding own_c by auto
        then show ?thesis
          using False net_invD(4) [OF inv] c(1) by auto
      qed
    qed
  qed
  ultimately show ?thesis
    using new [of ?s' c conn] c h1 h2 by (simp add: conn_def same_stack_def)
qed


section \<open>Appending to a buffer\<close>

lemma append_loop_eq:
  "unat len + n \<le> 2 ^ 64 \<Longrightarrow> append_loop n m b len d = (memcpy_loop m (b + unat len) d n, len + of_nat n)"
proof (induction n arbitrary: m len d)
  case (Suc n)
  show ?case
  proof (cases "n = 0")
    case False
    then have "unat (len + 1) = unat len + 1"
      using Suc.prems by (simp add: unat_word_ariths)
    with Suc show ?thesis
      by (simp add: ac_simps fun_upd_def)
  qed (simp add: fun_upd_def)
qed simp

lemma append_buf_eq:
  assumes "buf = Some b" and "unat len + unat n \<le> 65536" and "n = 0 \<or> disjoint_ranges d (unat n) b 65536"
  shows "append_buf m buf len d n = Some (write_bytes m (b + unat len) (read_bytes m d (unat n)), len + n)"
  using assms by (auto simp: append_buf_def append_loop_eq memcpy_loop_upward disjoint_ranges_def)

text \<open>A write into a buffer does not change memory elsewhere.\<close>

lemma stable_write:
  assumes inv: "net_inv B s" and c: "c < MAX_TCP_CONNECTIONS" "b \<in> own s c" and d: "foreign B s d n"
    and w: "off + length xs \<le> 65536"
  shows "read_bytes (write_bytes (nmem s) (b + off) xs) d n = read_bytes (nmem s) d n"
proof (cases "n = 0")
  case False
  then show ?thesis
    using foreign_apart [OF inv d _ c] w by (intro read_write_disjoint) (auto simp: disjoint_ranges_def)
qed simp

section \<open>The state diagram\<close>

text \<open>The states of the protocol, and the transitions that its state diagram allows without passive opens.\<close>

fun tcp_edge :: "tcp_state \<Rightarrow> tcp_state \<Rightarrow> bool" where
  "tcp_edge TCP_CLOSED t \<longleftrightarrow> t = TCP_SYN_SENT"
| "tcp_edge TCP_SYN_SENT t \<longleftrightarrow> t = TCP_ESTABLISHED \<or> t = TCP_CLOSED"
| "tcp_edge TCP_ESTABLISHED t \<longleftrightarrow> t = TCP_FIN_WAIT_1 \<or> t = TCP_CLOSE_WAIT"
| "tcp_edge TCP_FIN_WAIT_1 t \<longleftrightarrow> t = TCP_FIN_WAIT_2 \<or> t = TCP_CLOSING"
| "tcp_edge TCP_FIN_WAIT_2 t \<longleftrightarrow> t = TCP_TIME_WAIT"
| "tcp_edge TCP_CLOSING t \<longleftrightarrow> t = TCP_TIME_WAIT"
| "tcp_edge TCP_CLOSE_WAIT t \<longleftrightarrow> t = TCP_LAST_ACK"
| "tcp_edge TCP_LAST_ACK t \<longleftrightarrow> t = TCP_CLOSED"
| "tcp_edge TCP_TIME_WAIT t \<longleftrightarrow> t = TCP_CLOSED"
| "tcp_edge _ _ \<longleftrightarrow> False"

definition view :: "tcp_connection \<Rightarrow> tcp_state" where
  "view conn = (if in_use conn then conn_state conn else TCP_CLOSED)"

definition good_step :: "(addr \<times> nat) set \<Rightarrow> net \<Rightarrow> net \<Rightarrow> bool" where
  "good_step B s s' \<longleftrightarrow> net_inv B s' \<and> same_stack s s' \<and>
     (\<forall>c. tcp_edge\<^sup>*\<^sup>* (view (tcp_connections s c)) (view (tcp_connections s' c)))"

lemma good_refl: "net_inv B s \<Longrightarrow> good_step B s s"
  by (simp add: good_step_def)

lemma good_trans: "good_step B s t \<Longrightarrow> good_step B t u \<Longrightarrow> good_step B s u"
  unfolding good_step_def by (meson same_stack_trans rtranclp_trans)

lemma good_same: "same_net s s' \<Longrightarrow> net_inv B s \<Longrightarrow> good_step B s s'"
  using net_inv_same same_net_rest by (auto simp: good_step_def same_net_def)

lemma good_mem: "net_inv B s \<Longrightarrow> good_step B s (set_mem s m)"
  by (simp add: good_step_def)

text \<open>An update of one connection that keeps its buffers.\<close>

lemma good_conn:
  assumes inv: "net_inv B s" and c: "c < MAX_TCP_CONNECTIONS" "in_use (tcp_connections s c)"
    and f: "in_use (f (tcp_connections s c))" "recv_buf (f (tcp_connections s c)) = recv_buf (tcp_connections s c)"
      "send_buf (f (tcp_connections s c)) = send_buf (tcp_connections s c)"
      "recv_capacity (f (tcp_connections s c)) = recv_capacity (tcp_connections s c)"
      "send_capacity (f (tcp_connections s c)) = send_capacity (tcp_connections s c)"
      "unat (recv_len (f (tcp_connections s c))) \<le> 65536" "unat (send_len (f (tcp_connections s c))) \<le> 65536"
    and st: "conn_state (f (tcp_connections s c)) \<notin> {TCP_CLOSED, TCP_LISTEN, TCP_SYN_RECEIVED}"
    and edge: "tcp_edge\<^sup>*\<^sup>* (conn_state (tcp_connections s c)) (conn_state (f (tcp_connections s c)))"
  shows "good_step B s (set_conn s c f)"
proof -
  have "conn_bufs (f (tcp_connections s c)) = own s c"
    using c(2) f by (simp add: conn_bufs_def)
  moreover have "conn_ok (nheap s) (f (tcp_connections s c))"
    using net_invD(2) [OF inv c(1)] c(2) f st by (simp add: conn_ok_def conn_bufs_def)
  ultimately show ?thesis
    using net_inv_conn [OF inv c(1)] c(2) f(1) edge by (simp add: good_step_def view_def)
qed

lemma conn_lens:
  assumes "net_inv B s" and "c < MAX_TCP_CONNECTIONS" and "in_use (tcp_connections s c)"
  shows "unat (recv_len (tcp_connections s c)) \<le> 65536" and "unat (send_len (tcp_connections s c)) \<le> 65536"
    and "recv_capacity (tcp_connections s c) = 65536" and "send_capacity (tcp_connections s c) = 65536"
    and "conn_state (tcp_connections s c) \<notin> {TCP_CLOSED, TCP_LISTEN, TCP_SYN_RECEIVED}"
  using net_invD(2) [OF assms(1,2)] assms(3) by (auto simp: conn_ok_def)

lemma good_free:
  assumes "net_inv B s" and "c < MAX_TCP_CONNECTIONS" "in_use (tcp_connections s c)"
    and "recv_buf (f (tcp_connections s c)) = recv_buf (tcp_connections s c)"
      "send_buf (f (tcp_connections s c)) = send_buf (tcp_connections s c)"
    and edge: "tcp_edge\<^sup>*\<^sup>* (conn_state (tcp_connections s c)) TCP_CLOSED"
  obtains s' where "tcp_free_connection (set_conn s c f) c = Some s'" and "good_step B s s'" and "\<not> in_use (tcp_connections s' c)"
proof -
  from free_connection [where f = f, OF assms(1-5)] obtain s' where
    s': "tcp_free_connection (set_conn s c f) c = Some s'" "net_inv B s'"
      "tcp_connections s' = (tcp_connections s)(c := (f (tcp_connections s c))\<lparr>in_use := False\<rparr>)" "same_stack s s'"
    by metis
  moreover have "good_step B s s'" "\<not> in_use (tcp_connections s' c)"
    using s' edge assms(3) by (simp_all add: good_step_def view_def)
  ultimately show ?thesis
    using that by blast
qed

lemma good_send:
  assumes inv: "net_inv B s" and n: "unat n \<le> 65495"
    and data: "case data of None \<Rightarrow> n = 0 | Some d \<Rightarrow> stable (nheap s) d (unat n)"
  shows "\<exists>s' r. tcp_send_packet s c flags data n = Some (s', r) \<and> (r = 0 \<or> r = - 1) \<and> same_net s s'"
proof -
  let ?xs = "case data of None \<Rightarrow> [] | Some d \<Rightarrow> read_bytes (nmem s) d (unat n)"
  have "case data of None \<Rightarrow> n = 0 \<and> ?xs = [] | Some d \<Rightarrow> stable (nheap s) d (unat n) \<and> ?xs = read_bytes (nmem s) d (unat n)"
    using data by (auto split: option.splits)
  from net_invD(1) [OF inv] n this show ?thesis
  proof (cases rule: tcp_send_packet_result [where c = c and flags = flags])
    case no_interface
    then show ?thesis using net_invD(1) [OF inv] by (auto simp: same_net_def)
  next
    case no_memory
    then show ?thesis using net_invD(1) [OF inv] by (auto simp: same_net_def)
  qed blast
qed

lemma good_ack:
  assumes "net_inv B s"
  obtains s' where "send_ack s c = Some s'" and "same_net s s'"
proof -
  from good_send [OF assms, of 0 None c TCP_ACK] obtain s' r where
    "tcp_send_packet s c TCP_ACK None 0 = Some (s', r)" "same_net s s'"
    by auto
  with that [of s'] show ?thesis by (simp add: send_ack_def)
qed


lemma ack_after:
  assumes "good_step B s t"
  obtains s' where "send_ack t c = Some s'" and "good_step B s s'" and "tcp_connections s' = tcp_connections t" and "same_net t s'"
proof -
  have "net_inv B t"
    using assms by (simp add: good_step_def)
  from good_ack [OF this] obtain s' where "send_ack t c = Some s'" "same_net t s'"
    by metis
  then show ?thesis
    using that [of s'] good_trans [OF assms good_same] \<open>net_inv B t\<close> by (simp add: same_net_def)
qed

lemma edge_path: "tcp_edge p q \<Longrightarrow> tcp_edge\<^sup>*\<^sup>* p q" "tcp_edge p q \<Longrightarrow> tcp_edge q r \<Longrightarrow> tcp_edge\<^sup>*\<^sup>* p r"
  by auto

lemma segment_established_good:
  assumes inv: "net_inv B s" and c: "c < MAX_TCP_CONNECTIONS" "in_use (tcp_connections s c)"
    and st: "conn_state (tcp_connections s c) = TCP_ESTABLISHED"
    and data: "foreign B s data (unat n)" "unat n \<le> 65535"
  shows "case segment_established s c sq flags data n of None \<Rightarrow> recv_buf (tcp_connections s c) = None | Some s' \<Rightarrow> good_step B s s'"
proof -
  note lens = conn_lens [OF inv c]
  consider "flags AND TCP_FIN \<noteq> 0" | "flags AND TCP_FIN = 0" "n > 0" "recv_len (tcp_connections s c) + n \<le> 65536"
    | "flags AND TCP_FIN = 0" "\<not> (n > 0 \<and> recv_len (tcp_connections s c) + n \<le> 65536)"
    by blast
  then show ?thesis
  proof cases
    case 1
    let ?t = "set_conn s c (\<lambda>conn. conn\<lparr>conn_ack := sq + ucast n + 1, conn_state := TCP_CLOSE_WAIT\<rparr>)"
    have "good_step B s ?t"
      using lens c st by (intro good_conn [OF inv]) (auto intro: edge_path)
    then obtain s' where "send_ack ?t c = Some s'" "good_step B s s'"
      by (rule ack_after)
    with 1 show ?thesis
      by (simp add: segment_established_def Let_def)
  next
    case 2
    show ?thesis
    proof (cases "recv_buf (tcp_connections s c)")
      case None
      with 2 lens(3) show ?thesis
        by (auto simp: segment_established_def append_buf_def Let_def word_gt_0)
    next
      case (Some b)
      have len: "unat (recv_len (tcp_connections s c) + n) = unat (recv_len (tcp_connections s c)) + unat n"
        using lens(1) data(2) by (simp add: unat_word_ariths)
      with 2(3) have fits: "unat (recv_len (tcp_connections s c)) + unat n \<le> 65536"
        by (simp add: word_le_nat_alt)
      have "b \<in> own s c"
        using Some c(2) by (simp add: conn_bufs_def)
      then have "disjoint_ranges data (unat n) b 65536"
        using 2(2) by (intro foreign_apart [OF inv data(1) _ c(1)]) (simp_all add: word_gt_0 unat_gt_0)
      from append_buf_eq [OF Some fits, OF disjI2, OF this, of "nmem s"] obtain m where
        app: "append_buf (nmem s) (recv_buf (tcp_connections s c)) (recv_len (tcp_connections s c)) data n =
          Some (m, recv_len (tcp_connections s c) + n)"
        by blast
      let ?t = "set_conn (set_mem s m) c (\<lambda>conn. conn\<lparr>recv_len := recv_len (tcp_connections s c) + n, conn_ack := sq + ucast n\<rparr>)"
      have "good_step B (set_mem s m) ?t"
        using lens c st fits len inv by (intro good_conn) auto
      then have "good_step B s ?t"
        using good_trans good_mem [OF inv] by blast
      then obtain s' where "send_ack ?t c = Some s'" "good_step B s s'"
        by (rule ack_after)
      with 2 lens(3) app show ?thesis
        by (simp add: segment_established_def Let_def)
    qed
  next
    case 3
    with lens(3) good_refl [OF inv] show ?thesis
      by (auto simp: segment_established_def Let_def)
  qed
qed

lemma segment_fin_wait_1_good:
  assumes inv: "net_inv B s" and c: "c < MAX_TCP_CONNECTIONS" "in_use (tcp_connections s c)"
    and st: "conn_state (tcp_connections s c) = TCP_FIN_WAIT_1"
  shows "\<exists>s'. segment_fin_wait_1 s c sq flags = Some s' \<and> good_step B s s'"
proof -
  note lens = conn_lens [OF inv c]
  define t where "t = (if flags AND TCP_ACK \<noteq> 0 then set_conn s c (\<lambda>conn. conn\<lparr>conn_state := TCP_FIN_WAIT_2\<rparr>) else s)"
  have t: "good_step B s t"
    using lens c st good_refl [OF inv] unfolding t_def
    by (auto intro!: good_conn [OF inv] edge_path)
  then have inv_t: "net_inv B t" and c_t: "in_use (tcp_connections t c)" "conn_state (tcp_connections t c) \<in> {TCP_FIN_WAIT_1, TCP_FIN_WAIT_2}"
    using c st by (auto simp: good_step_def t_def)
  have "good_step B t (set_conn t c (\<lambda>conn. conn\<lparr>conn_ack := sq + 1\<rparr>))"
    using conn_lens [OF inv_t c(1) c_t(1)] c_t by (intro good_conn [OF inv_t c(1)]) auto
  from good_trans [OF t this] obtain u where
    u: "send_ack (set_conn t c (\<lambda>conn. conn\<lparr>conn_ack := sq + 1\<rparr>)) c = Some u" "good_step B s u"
      "tcp_connections u = (tcp_connections t)(c := (tcp_connections t c)\<lparr>conn_ack := sq + 1\<rparr>)"
    unfolding set_conn_get [symmetric] by (rule ack_after)
  let ?f = "\<lambda>conn. conn\<lparr>conn_state := (if conn_state conn = TCP_FIN_WAIT_2 then TCP_TIME_WAIT else TCP_CLOSING)\<rparr>"
  have inv_u: "net_inv B u" and c_u: "in_use (tcp_connections u c)"
    using u c_t by (auto simp: good_step_def)
  have "good_step B u (set_conn u c ?f)"
    using conn_lens [OF inv_u c(1) c_u] c_t u(3) by (intro good_conn [OF inv_u c(1) c_u]) (auto intro: edge_path)
  then have "good_step B s (set_conn u c ?f)"
    using good_trans u(2) by blast
  moreover have "segment_fin_wait_1 s c sq flags = (if flags AND TCP_FIN \<noteq> 0 then Some (set_conn u c ?f) else Some t)"
    using u(1) unfolding segment_fin_wait_1_def t_def [symmetric] by (simp add: Let_def)
  ultimately show ?thesis
    using t by auto
qed


lemma tcp_state_machine_good:
  assumes inv: "net_inv B s" and c: "c < MAX_TCP_CONNECTIONS" "in_use (tcp_connections s c)"
    and data: "foreign B s data (unat n)" "unat n \<le> 65535"
  shows "case tcp_state_machine s c sq flags data n of None \<Rightarrow> recv_buf (tcp_connections s c) = None | Some s' \<Rightarrow> good_step B s s'"
proof -
  note lens = conn_lens [OF inv c]
  have free: "\<exists>s'. tcp_free_connection (set_conn s c f) c = Some s' \<and> good_step B s s'"
    if "f = (\<lambda>conn. conn) \<or> f = (\<lambda>conn. conn\<lparr>conn_state := TCP_CLOSED\<rparr>)" "tcp_edge (conn_state (tcp_connections s c)) TCP_CLOSED" for f
  proof -
    have "recv_buf (f (tcp_connections s c)) = recv_buf (tcp_connections s c)"
        "send_buf (f (tcp_connections s c)) = send_buf (tcp_connections s c)"
      using that(1) by auto
    from good_free [where f = f, OF inv c this edge_path(1) [OF that(2)]] show ?thesis
      by metis
  qed
  show ?thesis
  proof (cases "conn_state (tcp_connections s c)")
    case TCP_SYN_SENT
    let ?t = "set_conn s c (\<lambda>conn. conn\<lparr>conn_ack := sq + 1, conn_state := TCP_ESTABLISHED\<rparr>)"
    have "good_step B s ?t"
      using lens c TCP_SYN_SENT by (intro good_conn [OF inv]) (auto intro: edge_path)
    then obtain s' where "send_ack ?t c = Some s'" "good_step B s s'"
      by (rule ack_after)
    with TCP_SYN_SENT free [of "\<lambda>conn. conn\<lparr>conn_state := TCP_CLOSED\<rparr>"] good_refl [OF inv] show ?thesis
      by (auto simp: tcp_state_machine_def)
  next
    case TCP_ESTABLISHED
    then show ?thesis
      using segment_established_good [OF inv c _ data] by (simp add: tcp_state_machine_def)
  next
    case TCP_FIN_WAIT_1
    then show ?thesis
      using segment_fin_wait_1_good [OF inv c, of sq flags] by (auto simp: tcp_state_machine_def)
  next
    case TCP_FIN_WAIT_2
    let ?t = "set_conn s c (\<lambda>conn. conn\<lparr>conn_ack := sq + 1\<rparr>)"
    have "good_step B s ?t"
      using lens c TCP_FIN_WAIT_2 by (intro good_conn [OF inv]) auto
    then obtain u where u: "send_ack ?t c = Some u" "good_step B s u" "tcp_connections u = tcp_connections ?t"
      by (rule ack_after)
    then have inv_u: "net_inv B u" and c_u: "in_use (tcp_connections u c)"
      using c by (auto simp: good_step_def)
    have "good_step B u (set_conn u c (\<lambda>conn. conn\<lparr>conn_state := TCP_TIME_WAIT\<rparr>))"
      using conn_lens [OF inv_u c(1) c_u] c_u u(3) TCP_FIN_WAIT_2
      by (intro good_conn [OF inv_u c(1)]) (auto intro: edge_path)
    from good_trans [OF u(2) this] u(1) TCP_FIN_WAIT_2 good_refl [OF inv] show ?thesis
      by (simp add: tcp_state_machine_def)
  next
    case TCP_CLOSING
    then have "good_step B s (set_conn s c (\<lambda>conn. conn\<lparr>conn_state := TCP_TIME_WAIT\<rparr>))"
      using lens c by (intro good_conn [OF inv]) (auto intro: edge_path)
    with TCP_CLOSING good_refl [OF inv] show ?thesis
      by (simp add: tcp_state_machine_def)
  next
    case TCP_LAST_ACK
    with free [of "\<lambda>conn. conn\<lparr>conn_state := TCP_CLOSED\<rparr>"] good_refl [OF inv] show ?thesis
      by (auto simp: tcp_state_machine_def)
  next
    case TCP_TIME_WAIT
    with free [of "\<lambda>conn. conn"] show ?thesis
      by (auto simp: tcp_state_machine_def)
  qed (use good_refl [OF inv] lens in \<open>auto simp: tcp_state_machine_def\<close>)
qed

lemma find_connection:
  assumes "tcp_find_connection s rip rport lip lport = Some c"
  shows "c < MAX_TCP_CONNECTIONS" and "in_use (tcp_connections s c)"
  using assms by (auto simp: tcp_find_connection_def find_Some_iff Let_def)

lemma foreign_sub: "foreign B s d n \<Longrightarrow> d \<le> d' \<Longrightarrow> d' + n' \<le> d + n \<Longrightarrow> foreign B s d' n'"
  by (fastforce simp: foreign_def)

text \<open>
  A frame whose lengths fit: the IP header and the TCP header together are not longer than the total length.
\<close>

definition ihl :: "mem \<Rightarrow> addr \<Rightarrow> nat" where
  "ihl m ip = 4 * unat (m ip AND 0xF)"

definition doff :: "mem \<Rightarrow> addr \<Rightarrow> nat" where
  "doff m tcp = 4 * unat (drop_bit 4 (m tcp) AND 0xF)"

definition fitting_frame :: "mem \<Rightarrow> addr \<Rightarrow> bool" where
  "fitting_frame m data \<longleftrightarrow>
     (let ip = data + 14; tcp = ip + ihl m ip in ihl m ip + doff m (tcp + 12) \<le> unat (ntohs (read16 m (ip + 2))))"


lemma nibble_len: "unat (ucast (x :: byte) * 4 :: u64) = 4 * unat x"
  using unat_byte [of x] by (simp add: unat_word_ariths unat_ucast_byte)

lemma header_lengths:
  "unat (ucast (m ip AND 0xF) * 4 :: u64) = ihl m ip" "unat (ucast (drop_bit 4 (m tcp) AND 0xF) * 4 :: u64) = doff m tcp"
  by (simp_all only: nibble_len ihl_def doff_def)

lemma unat_total: "unat (ucast (x :: u16) :: u64) = unat x" "unat (x :: u16) < 65536"
  using unsigned_less [of x, where 'a = nat] by (simp_all add: unsigned_ucast_eq take_bit_nat_eq_self)

lemma good_counters:
  assumes "net_inv B s" and "nheap s' = nheap s" and "tcp_connections s' = tcp_connections s" and "num_interfaces s' = num_interfaces s"
    and "\<And>i. has_send (interfaces s' i) = has_send (interfaces s i) \<and> if_ip (interfaces s' i) = if_ip (interfaces s i) \<and>
        if_mac (interfaces s' i) = if_mac (interfaces s i)"
  shows "good_step B s s'"
  using assms net_inv_cong [OF assms(1), of s'] net_invD(1) [OF assms(1)] by (simp add: good_step_def same_stack_def)

lemma arp_handle_good: "net_inv B s \<Longrightarrow> good_step B s (arp_handle s i arp)"
  by (rule good_counters) (auto simp: arp_handle_def Let_def iface_send_def arp_add_def)

lemma tcp_handle_segment_good:
  assumes inv: "net_inv B s" and frame: "foreign B s tcp (unat len)" "doff (nmem s) (tcp + 12) \<le> unat len" "unat len \<le> 65535"
    and run: "tcp_handle_segment s src dst tcp len = Some s'"
  shows "good_step B s s'"
proof -
  let ?hl = "ucast (drop_bit 4 (nmem s (tcp + 12)) AND 0xF) * 4 :: u64"
  have hl: "unat ?hl = doff (nmem s) (tcp + 12)"
    by (rule header_lengths)
  with frame(2) have len: "unat (len - ?hl) = unat len - unat ?hl"
    by (intro unat_sub) (simp add: word_le_nat_alt)
  have f: "foreign B s (tcp + unat ?hl) (unat (len - ?hl))"
    using frame(2) hl len by (intro foreign_sub [OF frame(1)]) simp_all
  have n: "unat (len - ?hl) \<le> 65535"
    using len frame(3) by simp
  show ?thesis
  proof (cases "tcp_find_connection s src (ntohs (read16 (nmem s) tcp)) dst (ntohs (read16 (nmem s) (tcp + 2)))")
    case None
    with run good_refl [OF inv] show ?thesis
      by (simp add: tcp_handle_segment_def Let_def)
  next
    case (Some c)
    with run have "tcp_state_machine s c (ntohl (read32 (nmem s) (tcp + 4))) (nmem s (tcp + 13)) (tcp + unat ?hl) (len - ?hl) = Some s'"
      by (simp add: tcp_handle_segment_def Let_def)
    with tcp_state_machine_good [OF inv find_connection [OF Some] f n, of "ntohl (read32 (nmem s) (tcp + 4))" "nmem s (tcp + 13)"]
    show ?thesis
      by simp
  qed
qed

lemma ip_handle_good:
  assumes inv: "net_inv B s" and frame: "foreign B s ip (unat len)"
    and fit: "ihl (nmem s) ip + doff (nmem s) (ip + ihl (nmem s) ip + 12) \<le> unat (ntohs (read16 (nmem s) (ip + 2)))"
    and run: "ip_handle s i ip len = Some s'"
  shows "good_step B s s'"
proof -
  let ?hl = "ucast (nmem s ip AND 0xF) * 4 :: u64"
  let ?total = "ucast (ntohs (read16 (nmem s) (ip + 2))) :: u64"
  have hl: "unat ?hl = ihl (nmem s) ip"
    by (rule header_lengths)
  have fit': "unat ?hl + doff (nmem s) (ip + unat ?hl + 12) \<le> unat ?total"
    using fit unfolding hl unat_total(1) .
  then have le: "unat ?hl \<le> unat ?total"
    by linarith
  then have len: "unat (?total - ?hl) = unat ?total - unat ?hl"
    by (intro unat_sub) (simp only: word_le_nat_alt)
  let ?tcp = "tcp_handle_segment s (read32 (nmem s) (ip + 12)) (read32 (nmem s) (ip + 16)) (ip + unat ?hl) (?total - ?hl)"
  have eq: "ip_handle s i ip len = (if drop_bit 4 (nmem s ip) \<noteq> 4 then Some s else if len < ?total then Some s
      else if nmem s (ip + 9) = IP_PROTO_TCP then ?tcp else Some s)"
    by (simp only: ip_handle_def Let_def)
  have "s' = s \<or> \<not> len < ?total \<and> ?tcp = Some s'"
    using run unfolding eq by (metis option.inject)
  then consider "s' = s" | "?total \<le> len" "?tcp = Some s'"
    unfolding not_less by blast
  then show ?thesis
  proof cases
    case 2
    have "foreign B s (ip + unat ?hl) (unat (?total - ?hl))"
    proof (rule foreign_sub [OF frame])
      have "unat ?total \<le> unat len"
        using 2(1) by (simp only: word_le_nat_alt)
      with le show "ip + unat ?hl + unat (?total - ?hl) \<le> ip + unat len"
        unfolding len by linarith
    qed simp
    moreover have "doff (nmem s) (ip + unat ?hl + 12) \<le> unat (?total - ?hl)"
      using fit' unfolding len by linarith
    moreover have "unat (?total - ?hl) \<le> 65535"
      using unat_total(2) [of "ntohs (read16 (nmem s) (ip + 2))"] unfolding len unat_total(1) by linarith
    ultimately show ?thesis
      using 2(2) tcp_handle_segment_good [OF inv] by blast
  qed (use good_refl [OF inv] in simp)
qed

lemma net_rx_good:
  assumes inv: "net_inv B s" and frame: "foreign B s d (unat len)" and fit: "fitting_frame (nmem s) d" and run: "net_rx s i d len = Some s'"
  shows "good_step B s s'"
proof -
  define t where "t = s\<lparr>interfaces := (interfaces s)(i := (interfaces s i)
     \<lparr>rx_packets := rx_packets (interfaces s i) + 1, rx_bytes := rx_bytes (interfaces s i) + len\<rparr>)\<rparr>"
  have step: "good_step B s t"
    unfolding t_def by (rule good_counters [OF inv]) auto
  then have inv': "net_inv B t"
    by (simp add: good_step_def)
  have heap: "nheap t = nheap s"
    by (simp add: t_def)
  let ?ty = "ntohs (read16 (nmem s) (d + 12))"
  have rx: "net_rx s i d len = (if len < 14 then Some s
      else if ?ty = ETH_P_ARP then Some (if len - 14 \<ge> 28 then arp_handle t i (d + 14) else t)
      else if ?ty = ETH_P_IP then if len - 14 \<ge> 20 then ip_handle t i (d + 14) (len - 14) else Some t else Some t)"
    by (simp add: net_rx_def Let_def t_def)
  have "s' = s \<or> s' = t \<or> s' = arp_handle t i (d + 14) \<or> 14 \<le> len \<and> ip_handle t i (d + 14) (len - 14) = Some s'"
    using run unfolding rx by (auto simp: not_less split: if_splits)
  then consider "s' = s" | "s' = t" | "s' = arp_handle t i (d + 14)" | "14 \<le> len" "ip_handle t i (d + 14) (len - 14) = Some s'"
    by blast
  then show ?thesis
  proof cases
    case 1
    then show ?thesis using good_refl [OF inv] by simp
  next
    case 2
    then show ?thesis using step by simp
  next
    case 3
    then show ?thesis using good_trans [OF step arp_handle_good [OF inv']] by simp
  next
    case 4
    then have "unat (len - 14) = unat len - 14"
      by (simp add: unat_sub)
    moreover have "14 \<le> unat len"
      using 4(1) by (simp add: word_le_nat_alt)
    ultimately have "foreign B s (d + 14) (unat (len - 14))"
      by (intro foreign_sub [OF frame]) simp_all
    then have f: "foreign B t (d + 14) (unat (len - 14))"
      by (simp add: foreign_def heap)
    have "good_step B t s'"
      using fit by (intro ip_handle_good [OF inv' f _ 4(2)]) (simp add: fitting_frame_def Let_def heap)
    then show ?thesis
      using good_trans [OF step] by blast
  qed
qed


lemma good_inv: "good_step B s t \<Longrightarrow> net_inv B t"
  by (simp add: good_step_def)

lemma set_conn_twice [simp]: "set_conn (set_conn s c f) c g = set_conn s c (\<lambda>conn. g (f conn))"
  by (simp add: set_conn_def)

lemma good_free_id:
  assumes "net_inv B s" and "c < MAX_TCP_CONNECTIONS" "in_use (tcp_connections s c)"
    and "tcp_edge (conn_state (tcp_connections s c)) TCP_CLOSED"
  shows "\<exists>s'. tcp_free_connection s c = Some s' \<and> good_step B s s' \<and> \<not> in_use (tcp_connections s' c)"
  using good_free [where f = "\<lambda>conn. conn", OF assms(1-3) refl refl edge_path(1) [OF assms(4)]] by (metis set_conn_id)

lemma tcp_connect_good:
  assumes inv: "net_inv B s"
  shows "\<exists>s' r. tcp_connect s ip port = Some (s', r) \<and> good_step B s s' \<and>
    (r = - 1 \<or> (\<exists>c < MAX_TCP_CONNECTIONS. r = int c \<and> \<not> in_use (tcp_connections s c) \<and> view (tcp_connections s' c) = TCP_SYN_SENT))"
  using inv
proof (cases rule: alloc_connection)
  case full
  with good_refl [OF inv] show ?thesis by (simp add: tcp_connect_def)
next
  case (new s1 c conn)
  define t where "t = set_conn s1 c (\<lambda>conn. conn\<lparr>conn_state := TCP_SYN_SENT\<rparr>)"
  have inv_t: "net_inv B t"
    unfolding t_def by (rule new(9)) simp
  have t: "good_step B s t"
    using inv_t new(3,4,6) by (auto simp: good_step_def t_def view_def intro: edge_path)
  have in_t: "in_use (tcp_connections t c)" "conn_state (tcp_connections t c) = TCP_SYN_SENT"
    using new(4,5) by (simp_all add: t_def)
  show ?thesis
  proof (cases "num_interfaces s1 = 0")
    case True
    have "recv_buf conn = recv_buf (tcp_connections t c)" "send_buf conn = send_buf (tcp_connections t c)"
        "tcp_edge\<^sup>*\<^sup>* (conn_state (tcp_connections t c)) TCP_CLOSED"
      using new(4) in_t(2) by (auto simp: t_def intro: edge_path)
    then obtain s2 where "tcp_free_connection (set_conn t c (\<lambda>_. conn)) c = Some s2" "good_step B t s2"
      by (rule good_free [where f = "\<lambda>_. conn", OF inv_t new(2) in_t(1)])
    moreover have "set_conn t c (\<lambda>_. conn) = s1"
      using new(4) by (simp add: t_def set_conn_def fun_upd_idem_iff)
    ultimately show ?thesis
      using new(1) True good_trans [OF t] by (auto simp: tcp_connect_def)
  next
    case False
    define lp where "lp = next_ephemeral_port s1"
    define isn where "isn = tcp_isn_counter s1 * 1103515245 + 12345"
    let ?F = "\<lambda>conn. conn\<lparr>local_ip := if_ip (interfaces s1 0), local_port := lp,
               remote_ip := ip, remote_port := port, conn_seq := isn, conn_ack := 0, conn_state := TCP_SYN_SENT\<rparr>"
    define u where "u = set_conn (s1\<lparr>next_ephemeral_port := (if lp + 1 > 65000 then 49152 else lp + 1), tcp_isn_counter := isn\<rparr>) c ?F"
    have "good_step B t (set_conn t c ?F)"
      using conn_lens [OF inv_t new(2) in_t(1)] in_t by (intro good_conn [OF inv_t new(2)]) auto
    moreover have "good_step B (set_conn t c ?F) u"
      by (rule good_counters [OF good_inv [OF calculation]]) (simp_all add: u_def t_def)
    ultimately have u: "good_step B s u"
      using t good_trans by blast
    obtain v r where v: "tcp_send_packet u c TCP_SYN None 0 = Some (v, r)" "r = 0 \<or> r = - 1" "same_net u v"
      using good_send [OF good_inv [OF u], of 0 None c TCP_SYN] by auto
    then have sv: "good_step B s v" and conn_v: "tcp_connections v = tcp_connections u"
      using good_trans [OF u good_same] good_inv [OF u] by (auto simp: same_net_def)
    have in_v: "in_use (tcp_connections v c)" "conn_state (tcp_connections v c) = TCP_SYN_SENT"
      using new(4,5) by (simp_all add: conn_v u_def)
    have "tcp_connect s ip port = do { (s, ret) \<leftarrow> tcp_send_packet u c TCP_SYN None 0;
        if ret < 0 then do { s \<leftarrow> tcp_free_connection s c; Some (s, - 1) }
        else Some (set_conn s c (\<lambda>conn. conn\<lparr>conn_seq := conn_seq conn + 1\<rparr>), int c) }"
      unfolding u_def lp_def isn_def using new(1) False
      by (simp add: tcp_connect_def tcp_generate_isn_def Let_def split del: if_split)
    then have call: "tcp_connect s ip port = (if r < 0 then do { s \<leftarrow> tcp_free_connection v c; Some (s, - 1) }
        else Some (set_conn v c (\<lambda>conn. conn\<lparr>conn_seq := conn_seq conn + 1\<rparr>), int c))"
      using v(1) by simp
    obtain s2 where s2: "tcp_free_connection v c = Some s2" "good_step B s s2"
      using good_free_id [OF good_inv [OF sv] new(2) in_v(1)] in_v(2) good_trans [OF sv] by auto
    have "good_step B v (set_conn v c (\<lambda>conn. conn\<lparr>conn_seq := conn_seq conn + 1\<rparr>))"
      using conn_lens [OF good_inv [OF sv] new(2) in_v(1)] in_v by (intro good_conn [OF good_inv [OF sv] new(2)]) auto
    then have "good_step B s (set_conn v c (\<lambda>conn. conn\<lparr>conn_seq := conn_seq conn + 1\<rparr>))"
      using good_trans [OF sv] by blast
    with s2 v(2) new(2,3) in_v show ?thesis
      unfolding call by (auto simp: view_def)
  qed
qed


lemma tcp_close_good:
  assumes inv: "net_inv B s" and c: "c < MAX_TCP_CONNECTIONS"
  shows "\<exists>s' r. tcp_close s (Some c) = Some (s', r) \<and> good_step B s s' \<and>
    (in_use (tcp_connections s c) \<longrightarrow> r = 0 \<and> view (tcp_connections s' c) \<notin> {TCP_SYN_SENT, TCP_ESTABLISHED, TCP_CLOSE_WAIT})"
proof (cases "in_use (tcp_connections s c)")
  case False
  with good_refl [OF inv] show ?thesis by (simp add: tcp_close_def)
next
  case True
  note lens = conn_lens [OF inv c True]
  have fin: "\<exists>s' r. tcp_send_packet (set_conn s c (\<lambda>conn. conn\<lparr>conn_state := q\<rparr>)) c (TCP_FIN OR TCP_ACK) None 0 = Some (s', r) \<and>
      good_step B s (set_conn s' c (\<lambda>conn. conn\<lparr>conn_seq := conn_seq conn + 1\<rparr>)) \<and>
      view (tcp_connections (set_conn s' c (\<lambda>conn. conn\<lparr>conn_seq := conn_seq conn + 1\<rparr>)) c) = q"
    if q: "tcp_edge (conn_state (tcp_connections s c)) q" "q \<notin> {TCP_CLOSED, TCP_LISTEN, TCP_SYN_RECEIVED}" for q
  proof -
    let ?t = "set_conn s c (\<lambda>conn. conn\<lparr>conn_state := q\<rparr>)"
    have t: "good_step B s ?t"
      using lens True q by (intro good_conn [OF inv c]) (auto intro: edge_path)
    obtain u r where u: "tcp_send_packet ?t c (TCP_FIN OR TCP_ACK) None 0 = Some (u, r)" "same_net ?t u"
      using good_send [OF good_inv [OF t], of 0 None c "TCP_FIN OR TCP_ACK"] by auto
    have su: "good_step B s u" and conn_u: "tcp_connections u = tcp_connections ?t"
      using u(2) good_trans [OF t good_same] good_inv [OF t] by (auto simp: same_net_def)
    have in_u: "in_use (tcp_connections u c)" "conn_state (tcp_connections u c) = q"
      using True by (simp_all add: conn_u)
    have "good_step B u (set_conn u c (\<lambda>conn. conn\<lparr>conn_seq := conn_seq conn + 1\<rparr>))"
      using conn_lens [OF good_inv [OF su] c in_u(1)] in_u q(2) by (intro good_conn [OF good_inv [OF su] c]) auto
    with good_trans [OF su] u(1) in_u show ?thesis
      by (auto simp: view_def)
  qed
  show ?thesis
  proof (cases "conn_state (tcp_connections s c)")
    case TCP_ESTABLISHED
    with fin [of TCP_FIN_WAIT_1] True show ?thesis
      by (auto simp: tcp_close_def)
  next
    case TCP_CLOSE_WAIT
    with fin [of TCP_LAST_ACK] True show ?thesis
      by (auto simp: tcp_close_def)
  next
    case TCP_SYN_SENT
    with good_free_id [OF inv c True] TCP_SYN_SENT True show ?thesis
      by (auto simp: tcp_close_def view_def)
  qed (use lens True good_refl [OF inv] in \<open>auto simp: tcp_close_def view_def\<close>)
qed

lemma carries_send_len [simp]: "carries f (conn\<lparr>send_len := l\<rparr>) flags xs = carries f conn flags xs"
  by (simp add: carries_def)

lemma small_int: "unat (n :: u64) \<le> 65536 \<Longrightarrow> sint (ucast n :: u32) = int (unat n)"
proof -
  assume n: "unat n \<le> 65536"
  then have "unat (ucast n :: u32) = unat n"
    by (simp add: unsigned_ucast_eq take_bit_nat_eq_self)
  then have "uint (ucast n :: u32) = int (unat n)"
    by (metis uint_nat)
  moreover have "signed_take_bit 31 (int (unat n)) = int (unat n)"
  proof (rule signed_take_bit_int_eq_self)
    have "int (unat n) \<le> int 65536"
      using n by (simp only: of_nat_le_iff)
    then show "int (unat n) < 2 ^ 31"
      by (rule le_less_trans) simp
  qed (rule order_trans [of _ 0], simp_all only: of_nat_0_le_iff, simp)
  ultimately show ?thesis
    unfolding sint_uint by simp
qed

lemma free_blocks_set_mem [simp]: "free_blocks (nheap (set_mem s m)) = free_blocks (nheap s)"
  by (simp add: set_mem_def free_blocks_def heap_wf_def)

lemma stable_set_mem [simp]: "stable (nheap (set_mem s m)) d n = stable (nheap s) d n"
  by (simp add: stable_def)

lemma tcp_send_result:
  assumes inv: "net_inv B s" and c: "c < MAX_TCP_CONNECTIONS" "in_use (tcp_connections s c)"
    and st: "conn_state (tcp_connections s c) = TCP_ESTABLISHED" and data: "foreign B s d (unat n)" "unat n \<le> 65495"
    and b: "n = 0 \<or> send_buf (tcp_connections s c) = Some b" and fits: "unat (send_len (tcp_connections s c)) + unat n \<le> 65536"
  obtains (failed) s' where "tcp_send s c d n = Some (s', - 1)" "good_step B s s'" "wire s' = wire s"
      "num_interfaces s = 0 \<or> (\<forall>(b, k) \<in> free_blocks (nheap s). k < 54 + unat n + header_size + MIN_ALLOC)"
  | (sent) s' f where "tcp_send s c d n = Some (s', int (unat n))" "good_step B s s'"
      "carries f (tcp_connections s c) (TCP_PSH OR TCP_ACK) (read_bytes (nmem s) d (unat n))"
      "wire s' = (if has_send (interfaces s 0) then wire s @ [(0, f)] else wire s)"
      "conn_seq (tcp_connections s' c) = conn_seq (tcp_connections s c) + ucast n"
      "send_len (tcp_connections s' c) = send_len (tcp_connections s c) + n"
proof -
  note lens = conn_lens [OF inv c]
  let ?conn = "tcp_connections s c"
  have sum: "unat (send_len ?conn + n) = unat (send_len ?conn) + unat n"
    using fits by (simp add: unat_word_ariths)
  then have room: "\<not> send_len ?conn + n > send_capacity ?conn"
    using fits lens(4) by (simp add: not_less word_le_nat_alt)
  obtain m where app: "append_buf (nmem s) (send_buf ?conn) (send_len ?conn) d n = Some (m, send_len ?conn + n)"
    and keep: "read_bytes m d (unat n) = read_bytes (nmem s) d (unat n)"
  proof (cases "n = 0")
    case True
    with that [of "nmem s"] show ?thesis by (simp add: append_buf_def)
  next
    case False
    then have b: "send_buf ?conn = Some b" "b \<in> own s c"
      using assms(7) c(2) by (simp_all add: conn_bufs_def)
    have "disjoint_ranges d (unat n) b 65536"
      using False by (intro foreign_apart [OF inv data(1) _ c(1) b(2)]) (simp add: unat_gt_0)
    then show ?thesis
      using append_buf_eq [OF b(1) fits] stable_write [OF inv c(1) b(2) data(1)] fits that by auto
  qed
  let ?t = "set_conn (set_mem s m) c (\<lambda>conn. conn\<lparr>send_len := send_len ?conn + n\<rparr>)"
  have "good_step B (set_mem s m) ?t"
    using lens c st fits sum inv by (intro good_conn) auto
  then have t: "good_step B s ?t"
    using good_trans good_mem [OF inv] by blast
  have heap: "heap_inv (nheap ?t)"
    using net_invD(1) [OF inv] by simp
  have call: "tcp_send s c d n = do { (s, ret) \<leftarrow> tcp_send_packet ?t c (TCP_PSH OR TCP_ACK) (Some d) n;
      if ret = 0 then Some (set_conn s c (\<lambda>conn. conn\<lparr>conn_seq := conn_seq conn + ucast n\<rparr>), sint (ucast n :: u32)) else Some (s, - 1) }"
    using app room st by (simp add: tcp_send_def Let_def)
  have "case Some d of None \<Rightarrow> n = 0 \<and> read_bytes (nmem s) d (unat n) = []
      | Some e \<Rightarrow> stable (nheap ?t) e (unat n) \<and> read_bytes (nmem s) d (unat n) = read_bytes (nmem ?t) e (unat n)"
    using foreign_stable [OF inv data(1)] keep by simp
  from heap data(2) this show ?thesis
  proof (cases rule: tcp_send_packet_result [where s = ?t and c = c and flags = "TCP_PSH OR TCP_ACK" and data = "Some d" and n = n
      and xs = "read_bytes (nmem s) d (unat n)"])
    case no_interface
    then have "tcp_send s c d n = Some (?t, - 1)"
      unfolding call by simp
    with t no_interface(1) show ?thesis
      by (intro failed [of ?t]) simp_all
  next
    case no_memory
    then have "tcp_send s c d n = Some (?t, - 1)"
      unfolding call by simp
    with t no_memory(3) show ?thesis
      by (intro failed [of ?t]) simp_all
  next
    case (sent u f)
    note sent' = this
    have su: "good_step B s u" and conn_u: "tcp_connections u = tcp_connections ?t"
      using sent'(3) good_trans [OF t good_same] good_inv [OF t] by (auto simp: same_net_def)
    have in_u: "in_use (tcp_connections u c)" "conn_state (tcp_connections u c) = TCP_ESTABLISHED"
      using c st by (simp_all add: conn_u)
    let ?v = "set_conn u c (\<lambda>conn. conn\<lparr>conn_seq := conn_seq conn + ucast n\<rparr>)"
    have "good_step B u ?v"
      using conn_lens [OF good_inv [OF su] c(1) in_u(1)] in_u by (intro good_conn [OF good_inv [OF su] c(1)]) auto
    then have "good_step B s ?v"
      using good_trans [OF su] by blast
    moreover have "tcp_send s c d n = Some (?v, int (unat n))"
      unfolding call using sent'(2) small_int [of n] data(2) by simp
    ultimately show ?thesis
      using sent'(4,5) by (intro that(2) [of ?v f]) (simp_all add: conn_u)
  qed
qed


lemma tcp_send_good:
  assumes inv: "net_inv B s" and c: "c < MAX_TCP_CONNECTIONS" "in_use (tcp_connections s c)"
    and data: "foreign B s d (unat n)" "unat n \<le> 65495" and run: "tcp_send s c d n = Some (s', r)"
  shows "good_step B s s'"
proof (cases "conn_state (tcp_connections s c) = TCP_ESTABLISHED \<and> \<not> send_len (tcp_connections s c) + n > send_capacity (tcp_connections s c)")
  case True
  note lens = conn_lens [OF inv c]
  have "unat (send_len (tcp_connections s c) + n) = unat (send_len (tcp_connections s c)) + unat n"
    using lens(2) data(2) by (simp add: unat_word_ariths)
  then have fits: "unat (send_len (tcp_connections s c)) + unat n \<le> 65536"
    using True lens(4) by (simp add: not_less word_le_nat_alt)
  show ?thesis
  proof (cases "n = 0 \<or> (\<exists>b. send_buf (tcp_connections s c) = Some b)")
    case b: True
    then obtain b where b: "n = 0 \<or> send_buf (tcp_connections s c) = Some b"
      by blast
    have st: "conn_state (tcp_connections s c) = TCP_ESTABLISHED"
      using True by blast
    have "\<exists>s' r. tcp_send s c d n = Some (s', r) \<and> good_step B s s'"
      by (rule tcp_send_result [OF inv c st data b fits]) blast+
    with run show ?thesis by auto
  next
    case False
    with True run show ?thesis by (auto simp: tcp_send_def append_buf_def Let_def)
  qed
next
  case False
  with run have "s' = s" by (auto simp: tcp_send_def Let_def split: if_splits)
  with good_refl [OF inv] show ?thesis by simp
qed

lemma tcp_recv_result:
  assumes inv: "net_inv B s" and c: "c < MAX_TCP_CONNECTIONS" "in_use (tcp_connections s c)"
    and b: "recv_buf (tcp_connections s c) = Some b" and data: "foreign B s d (unat n)"
  defines "k \<equiv> min (unat n) (unat (recv_len (tcp_connections s c)))"
  obtains s' where "tcp_recv s c d n = Some (s', int k)" and "good_step B s s'" and "wire s' = wire s"
    and "unat (recv_len (tcp_connections s' c)) = unat (recv_len (tcp_connections s c)) - k"
    and "recv_buf (tcp_connections s' c) = Some b"
    and "read_bytes (nmem s') d k = read_bytes (nmem s) b k"
    and "read_bytes (nmem s') b (unat (recv_len (tcp_connections s c)) - k) = read_bytes (nmem s) (b + k) (unat (recv_len (tcp_connections s c)) - k)"
proof -
  note lens = conn_lens [OF inv c]
  let ?l = "recv_len (tcp_connections s c)"
  have kl: "k \<le> unat ?l" "k \<le> unat n"
    by (simp_all add: k_def)
  define tc where "tc = (if n < ?l then n else ?l)"
  have tc: "unat tc = k"
    by (auto simp: tc_def k_def word_less_nat_alt min_def)
  then have "tc \<le> ?l"
    using kl by (simp add: word_le_nat_alt)
  then have rest: "unat (?l - tc) = unat ?l - k"
    by (simp add: unat_sub tc)
  define m1 where "m1 = memcpy_loop (nmem s) d b k"
  define m2 where "m2 = memcpy_loop m1 b (b + k) (unat ?l - k)"
  have apart: "k = 0 \<or> disjoint_ranges d k b 65536"
  proof (cases "k = 0")
    case False
    have "foreign B s d k"
      by (rule foreign_sub [OF data]) (use kl in simp_all)
    then show ?thesis
      using foreign_apart [OF inv _ _ c(1)] False b c(2) by (simp add: conn_bufs_def)
  qed simp
  have m1: "m1 = write_bytes (nmem s) d (read_bytes (nmem s) b k)"
    using apart kl(1) lens(1) unfolding m1_def by (cases "k = 0") (auto simp: memcpy_loop_upward disjoint_ranges_def)
  have m2: "m2 = write_bytes m1 b (read_bytes m1 (b + k) (unat ?l - k))"
    unfolding m2_def by (rule memcpy_loop_upward) simp
  have m1_buf: "read_bytes m1 (b + k) (unat ?l - k) = read_bytes (nmem s) (b + k) (unat ?l - k)"
    using apart kl(1) lens(1) unfolding m1
    by (cases "k = 0") (auto intro!: read_write_disjoint simp: disjoint_ranges_def)
  have m2_d: "read_bytes m2 d k = read_bytes (nmem s) b k"
  proof (cases "k = 0")
    case False
    then have "read_bytes m2 d k = read_bytes m1 d k"
      using apart kl(1) lens(1) unfolding m2 by (intro read_write_disjoint) (auto simp: disjoint_ranges_def)
    then show ?thesis
      using read_write_same [of "nmem s" d "read_bytes (nmem s) b k"] unfolding m1 by simp
  qed simp
  have m2_b: "read_bytes m2 b (unat ?l - k) = read_bytes (nmem s) (b + k) (unat ?l - k)"
    using read_write_same [of m1 b "read_bytes m1 (b + k) (unat ?l - k)"] unfolding m2 m1_buf by simp
  let ?t = "set_conn (set_mem s m2) c (\<lambda>conn. conn\<lparr>recv_len := recv_len conn - tc\<rparr>)"
  show ?thesis
  proof (cases "?l = 0")
    case True
    then have "k = 0"
      by (simp add: k_def)
    with True good_refl [OF inv] b that [of s] show ?thesis
      by (simp add: tcp_recv_def)
  next
    case False
    have "tcp_recv s c d n = Some (?t, sint (ucast tc :: u32))"
      using False b rest unfolding m2_def m1_def
      by (simp add: tcp_recv_def Let_def tc_def [symmetric] tc)
    moreover have "sint (ucast tc :: u32) = int k"
      using small_int [of tc] kl lens(1) unfolding tc by simp
    moreover have "good_step B (set_mem s m2) ?t"
      using lens c rest inv by (intro good_conn) auto
    then have "good_step B s ?t"
      using good_trans good_mem [OF inv] by blast
    ultimately show ?thesis
      using that [of ?t] b rest m2_d m2_b by simp
  qed
qed

lemma tcp_recv_good:
  assumes inv: "net_inv B s" and c: "c < MAX_TCP_CONNECTIONS" "in_use (tcp_connections s c)" and data: "foreign B s d (unat n)"
    and run: "tcp_recv s c d n = Some (s', r)"
  shows "good_step B s s'"
proof (cases "recv_buf (tcp_connections s c)")
  case None
  with run have "s' = s" by (auto simp: tcp_recv_def Let_def split: if_splits)
  with good_refl [OF inv] show ?thesis by simp
next
  case (Some b)
  have "\<exists>s' r. tcp_recv s c d n = Some (s', r) \<and> good_step B s s'"
    by (rule tcp_recv_result [OF inv c Some data]) blast
  with run show ?thesis by auto
qed


section \<open>Steps of the stack\<close>

text \<open>
  Calls of the kernel and frames from the driver, in any order. The caller's data, the destination of a
  read and the frames are not in the buffers of TCP; the frames have headers that fit their lengths.
\<close>

inductive net_step :: "(addr \<times> nat) set \<Rightarrow> net \<Rightarrow> net \<Rightarrow> bool" for B where
  connect: "tcp_connect s ip port = Some (s', r) \<Longrightarrow> net_step B s s'"
| send: "c < MAX_TCP_CONNECTIONS \<Longrightarrow> in_use (tcp_connections s c) \<Longrightarrow> foreign B s d (unat n) \<Longrightarrow> unat n \<le> 65495 \<Longrightarrow>
    tcp_send s c d n = Some (s', r) \<Longrightarrow> net_step B s s'"
| recv: "c < MAX_TCP_CONNECTIONS \<Longrightarrow> in_use (tcp_connections s c) \<Longrightarrow> foreign B s d (unat n) \<Longrightarrow>
    tcp_recv s c d n = Some (s', r) \<Longrightarrow> net_step B s s'"
| close: "c < MAX_TCP_CONNECTIONS \<Longrightarrow> tcp_close s (Some c) = Some (s', r) \<Longrightarrow> net_step B s s'"
| receive: "foreign B s d (unat len) \<Longrightarrow> fitting_frame (nmem s) d \<Longrightarrow> net_rx s i d len = Some s' \<Longrightarrow> net_step B s s'"

inductive_cases net_step_cases: "net_step B s s'"

lemma net_step_good: "net_step B s s' \<Longrightarrow> net_inv B s \<Longrightarrow> good_step B s s'"
proof (induction rule: net_step.induct)
  case (connect s ip port s' r)
  then show ?case using tcp_connect_good [OF connect(2), of ip port] by auto
next
  case (send c s d n s' r)
  then show ?case using tcp_send_good by blast
next
  case (recv c s d n s' r)
  then show ?case using tcp_recv_good by blast
next
  case (close c s s' r)
  then show ?case using tcp_close_good [OF close(3,1)] by auto
next
  case (receive s d len i s')
  then show ?case using net_rx_good by blast
qed

text \<open>A machine whose components each follow a transition diagram while an invariant is kept.\<close>

locale tracked_machine =
  fixes step :: "'s \<Rightarrow> 's \<Rightarrow> bool" and good :: "'s \<Rightarrow> bool" and look :: "'s \<Rightarrow> 'c \<Rightarrow> 'q" and edge :: "'q \<Rightarrow> 'q \<Rightarrow> bool"
  assumes keep: "step s s' \<Longrightarrow> good s \<Longrightarrow> good s'"
    and track: "step s s' \<Longrightarrow> good s \<Longrightarrow> edge\<^sup>*\<^sup>* (look s c) (look s' c)"
begin

lemma run_keep: "step\<^sup>*\<^sup>* s s' \<Longrightarrow> good s \<Longrightarrow> good s'"
  by (induction rule: rtranclp_induct) (auto intro: keep)

lemma run_track: "step\<^sup>*\<^sup>* s s' \<Longrightarrow> good s \<Longrightarrow> edge\<^sup>*\<^sup>* (look s c) (look s' c)"
proof (induction rule: rtranclp_induct)
  case (step t u)
  then show ?case using track [OF step(2)] run_keep [OF step(1)] by (meson rtranclp_trans)
qed simp

end

interpretation tcp: tracked_machine "net_step B" "net_inv B" "\<lambda>s c. view (tcp_connections s c)" tcp_edge
  by unfold_locales (use net_step_good in \<open>auto simp: good_step_def\<close>)

lemma idle_blocks:
  assumes "net_inv B s" and "\<forall>c < MAX_TCP_CONNECTIONS. \<not> in_use (tcp_connections s c)"
  shows "live (nheap s) = B"
  using net_invD(4,5) [OF assms(1)] assms(2) by (force simp: conn_bufs_def)


text \<open>A segment is sent in one frame, which the driver gets: Ethernet, IP and TCP header have the fields of
  the connection, the payload is the caller's data, and both checksums verify. The packet's memory is
  given back. Sending fails only without an interface or without memory for the packet, and then nothing
  changes.\<close>

theorem tcp_send_packet_frame:
  assumes "heap_inv (nheap s)" and "unat n \<le> 65495" and "stable (nheap s) d (unat n)"
  shows "(num_interfaces s = 0 \<or> (\<forall>(b, k) \<in> free_blocks (nheap s). k < 54 + unat n + header_size + MIN_ALLOC)) \<and>
      tcp_send_packet s c flags (Some d) n = Some (s, - 1) \<or>
    (\<exists>s' f. tcp_send_packet s c flags (Some d) n = Some (s', 0) \<and> same_net s s' \<and>
      carries f (tcp_connections s c) flags (read_bytes (nmem s) d (unat n)) \<and>
      wire s' = (if has_send (interfaces s 0) then wire s @ [(0, f)] else wire s))"
proof -
  have "case Some d of None \<Rightarrow> n = 0 \<and> read_bytes (nmem s) d (unat n) = []
      | Some e \<Rightarrow> stable (nheap s) e (unat n) \<and> read_bytes (nmem s) d (unat n) = read_bytes (nmem s) e (unat n)"
    using assms(3) by simp
  from assms(1,2) this show ?thesis
    by (rule tcp_send_packet_result [where s = s and c = c and flags = flags and data = "Some d" and n = n
      and xs = "read_bytes (nmem s) d (unat n)"]) blast+
qed

end
