(* ===== verification/Tcp_Delivery.thy ===== *)
theory Tcp_Delivery
  imports Tcp_Spec
begin

text \<open>
  From one machine to another: a frame that the sender's driver got, put into the memory of the receiver,
  extends the stream of the connection by the data that was sent, and reading takes the stream apart in
  order. Then what happens where the stack does not do what it means to: segments whose lengths do not fit,
  addresses in the wrong byte order, and interface 0 after booting.
\<close>

section \<open>Receiving a frame\<close>

text \<open>The bytes that a connection has received and nobody has read.\<close>

definition received :: "net \<Rightarrow> nat \<Rightarrow> byte list" where
  "received s c = (case recv_buf (tcp_connections s c) of None \<Rightarrow> []
     | Some b \<Rightarrow> read_bytes (nmem s) b (unat (recv_len (tcp_connections s c))))"

lemma unat_htonl_eq: "unat (htonl x) = unat y \<Longrightarrow> x = htonl y"
  by (metis htonl_htonl unsigned_word_eqI)

lemma frame_in_memory:
  assumes f: "carries f conn flags xs" and m: "read_bytes m a (length f) = f" and len: "length xs \<le> 65495"
  shows "ntohs (read16 m (a + 12)) = ETH_P_IP" and "m (a + 14) = 0x45"
    and "ntohs (read16 m (a + 16)) = of_nat (40 + length xs)" and "m (a + 23) = IP_PROTO_TCP"
    and "read32 m (a + 26) = local_ip conn" and "read32 m (a + 30) = remote_ip conn"
    and "ntohs (read16 m (a + 34)) = local_port conn" and "ntohs (read16 m (a + 36)) = remote_port conn"
    and "ntohl (read32 m (a + 38)) = conn_seq conn" and "m (a + 46) = 0x50" and "m (a + 47) = flags"
    and "read_bytes m (a + 54) (length xs) = xs"
proof -
  have n: "length f = 54 + length xs" and c: "field f 12 2 = 0x0800" "field f 14 1 = 0x45" "field f 16 2 = 40 + length xs"
      "field f 23 1 = 6" "field f 26 4 = unat (htonl (local_ip conn))" "field f 30 4 = unat (htonl (remote_ip conn))"
      "field f 34 2 = unat (local_port conn)" "field f 36 2 = unat (remote_port conn)"
      "field f 38 4 = unat (conn_seq conn)" "field f 46 1 = 0x50" "field f 47 1 = unat flags" "drop 54 f = xs"
    using f by (auto simp: carries_def)
  have two: "field f k 2 = unat (htons (read16 m (a + k)))" if "k + 2 \<le> 54" for k
    using field_read(2) [of k "length f" m a] that n unfolding m by simp
  have four: "field f k 4 = unat (htonl (read32 m (a + k)))" if "k + 4 \<le> 54" for k
    using field_read(3) [of k "length f" m a] that n unfolding m by simp
  have one: "field f k 1 = unat (m (a + k))" if "k + 1 \<le> 54" for k
    using field_read(1) [of k "length f" m a] that n unfolding m by simp
  show "read_bytes m (a + 54) (length xs) = xs"
    using drop_read_bytes [of 54 m a "length f"] c(12) n unfolding m by simp
  have "unat (ntohs (read16 m (a + 12))) = unat ETH_P_IP"
    using two [of 12] c(1) by (simp add: ntohs_def ETH_P_IP_def)
  then show "ntohs (read16 m (a + 12)) = ETH_P_IP"
    by (rule unsigned_word_eqI)
  have "unat (ntohs (read16 m (a + 16))) = unat (of_nat (40 + length xs) :: u16)"
    using two [of 16] c(3) len by (simp add: ntohs_def unat_of_nat take_bit_nat_eq_self del: of_nat_add)
  then show "ntohs (read16 m (a + 16)) = of_nat (40 + length xs)"
    by (rule unsigned_word_eqI)
  show "ntohs (read16 m (a + 34)) = local_port conn" "ntohs (read16 m (a + 36)) = remote_port conn"
    using two [of 34] two [of 36] c(7,8) by (simp_all add: ntohs_def word_unat_eq_iff)
  show "ntohl (read32 m (a + 38)) = conn_seq conn"
    using four [of 38] c(9) by (simp add: ntohl_def word_unat_eq_iff)
  show "read32 m (a + 26) = local_ip conn" "read32 m (a + 30) = remote_ip conn"
    using unat_htonl_eq [OF trans [OF four [of 26, symmetric] c(5)]] unat_htonl_eq [OF trans [OF four [of 30, symmetric] c(6)]]
    by simp_all
  have "unat (m (a + 14)) = unat (0x45 :: byte)" "unat (m (a + 23)) = unat IP_PROTO_TCP" "unat (m (a + 46)) = unat (0x50 :: byte)"
      "unat (m (a + 47)) = unat flags"
    using one [of 14] one [of 23] one [of 46] one [of 47] c(2,4,10,11) by (simp_all add: IP_PROTO_TCP_def)
  then show "m (a + 14) = 0x45" "m (a + 23) = IP_PROTO_TCP" "m (a + 46) = 0x50" "m (a + 47) = flags"
    by (auto intro: unsigned_word_eqI)
qed

text \<open>The counters of the interface, which \<open>net_rx\<close> updates first.\<close>

definition count_rx :: "net \<Rightarrow> nat \<Rightarrow> u64 \<Rightarrow> net" where
  "count_rx s i len = s\<lparr>interfaces := (interfaces s)(i := (interfaces s i)
     \<lparr>rx_packets := rx_packets (interfaces s i) + 1, rx_bytes := rx_bytes (interfaces s i) + len\<rparr>)\<rparr>"

lemma count_rx_get [simp]: "nheap (count_rx s i l) = nheap s" "tcp_connections (count_rx s i l) = tcp_connections s"
  by (simp_all add: count_rx_def)

lemma received_count [simp]: "received (count_rx s i l) c = received s c"
  by (simp add: received_def split: option.split)

lemma net_rx_frame:
  assumes f: "carries f conn flags xs" and m: "read_bytes (nmem s) a (length f) = f" and len: "length xs \<le> 65495"
    and c: "tcp_find_connection s (local_ip conn) (local_port conn) (remote_ip conn) (remote_port conn) = Some c"
  shows "net_rx s i a (of_nat (length f)) =
    tcp_state_machine (count_rx s i (of_nat (length f))) c (conn_seq conn) flags (a + 54) (of_nat (length xs))"
proof -
  note fields = frame_in_memory [OF f m len]
  let ?s = "count_rx s i (of_nat (length f))"
  have n: "length f = 54 + length xs"
    using f by (simp add: carries_def)
  have mem: "nmem ?s = nmem s" "tcp_find_connection ?s = tcp_find_connection s"
    by (simp_all add: count_rx_def tcp_find_connection_def fun_eq_iff)
  have total: "ucast (of_nat (40 + length xs) :: u16) = (of_nat (40 + length xs) :: u64)"
    using len by (simp only: unsigned_of_nat) (simp add: take_bit_nat_eq_self)
  have unat_f: "unat (of_nat (k + length xs) :: u64) = k + length xs" if "k \<le> 54" for k
    using len that by (simp add: unat_of_nat take_bit_nat_eq_self del: of_nat_add)
  have nibbles: "ucast ((0x45 :: byte) AND 0xF) * 4 = (20 :: u64)" "drop_bit 4 (0x45 :: byte) = 4"
      "ucast (drop_bit 4 (0x50 :: byte) AND 0xF) * 4 = (20 :: u64)" "unat (20 :: u64) = 20" "ETH_P_IP \<noteq> ETH_P_ARP"
    by (simp_all add: ETH_P_IP_def ETH_P_ARP_def)
  have addrs: "a + 14 + 2 = a + 16" "a + 14 + 9 = a + 23" "a + 14 + 12 = a + 26" "a + 14 + 16 = a + 30" "a + 14 + 20 = a + 34"
      "a + 34 + 2 = a + 36" "a + 34 + 4 = a + 38" "a + 34 + 12 = a + 46" "a + 34 + 13 = a + 47" "a + 34 + 20 = a + 54"
    by simp_all
  have tcp: "tcp_handle_segment ?s (local_ip conn) (remote_ip conn) (a + 34) (of_nat (20 + length xs)) =
      tcp_state_machine ?s c (conn_seq conn) flags (a + 54) (of_nat (length xs))"
    unfolding tcp_handle_segment_def Let_def addrs mem fields c by (simp only: option.case nibbles addrs) simp
  have "\<not> (of_nat (40 + length xs) :: u64) < of_nat (40 + length xs)"
    by simp
  then have ip: "ip_handle ?s i (a + 14) (of_nat (40 + length xs)) =
      tcp_handle_segment ?s (local_ip conn) (remote_ip conn) (a + 34) (of_nat (20 + length xs))"
    unfolding ip_handle_def Let_def addrs mem fields total nibbles by (simp add: addrs)
  have "(of_nat (length f) :: u64) - of_nat 14 = of_nat (40 + length xs)"
    by (simp add: n)
  moreover have "\<not> (of_nat (length f) :: u64) < of_nat 14" "(of_nat 20 :: u64) \<le> of_nat (40 + length xs)"
    using unat_f [of 54] unat_f [of 40] unfolding n by (simp_all add: word_less_nat_alt word_le_nat_alt del: of_nat_add)
  ultimately show ?thesis
    unfolding net_rx_def Let_def fields using ip tcp nibbles(5) by (simp only: if_False if_True count_rx_def [symmetric] simp_thms)
qed


lemma received_same:
  assumes inv: "net_inv B s" and c: "c < MAX_TCP_CONNECTIONS" "in_use (tcp_connections s c)"
    and same: "same_net s s'"
  shows "received s' c = received s c"
proof (cases "recv_buf (tcp_connections s c)")
  case (Some b)
  then have "b \<in> own s c"
    using c(2) by (simp add: conn_bufs_def)
  then obtain k where "65536 \<le> k" "(b, k) \<in> live (nheap s)"
    using net_invD(2) [OF inv c(1)] c(2) by (auto simp: conn_ok_def)
  then have "stable (nheap s) b (unat (recv_len (tcp_connections s c)))"
    using conn_lens(1) [OF inv c] by (auto simp: stable_def intro!: bexI [of _ "(b, k)"])
  with same Some show ?thesis
    by (simp add: received_def same_net_def)
qed (use same in \<open>simp add: received_def same_net_def\<close>)

text \<open>A data segment in the established state.\<close>

lemma segment_data:
  assumes inv: "net_inv B s" and c: "c < MAX_TCP_CONNECTIONS" "in_use (tcp_connections s c)"
    and st: "conn_state (tcp_connections s c) = TCP_ESTABLISHED" and b: "recv_buf (tcp_connections s c) = Some b"
    and data: "foreign B s d (unat n)" and n: "0 < n" and fits: "unat (recv_len (tcp_connections s c)) + unat n \<le> 65536"
    and flags: "flags AND TCP_FIN = 0"
  obtains s' where "segment_established s c sq flags d n = Some s'" and "good_step B s s'"
    and "received s' c = received s c @ read_bytes (nmem s) d (unat n)"
    and "conn_ack (tcp_connections s' c) = sq + ucast n" and "conn_state (tcp_connections s' c) = TCP_ESTABLISHED"
    and "in_use (tcp_connections s' c)" and "recv_buf (tcp_connections s' c) = Some b"
proof -
  note lens = conn_lens [OF inv c]
  let ?l = "recv_len (tcp_connections s c)"
  let ?xs = "read_bytes (nmem s) d (unat n)"
  have sum: "unat (?l + n) = unat ?l + unat n"
    using fits by (simp add: unat_word_ariths)
  then have room: "?l + n \<le> recv_capacity (tcp_connections s c)"
    using fits lens(3) by (simp add: word_le_nat_alt)
  have own: "b \<in> own s c"
    using b c(2) by (simp add: conn_bufs_def)
  have apart: "disjoint_ranges d (unat n) b 65536"
    using n by (intro foreign_apart [OF inv data _ c(1) own]) (simp add: word_gt_0 unat_gt_0)
  let ?m = "write_bytes (nmem s) (b + unat ?l) ?xs"
  let ?t = "set_conn (set_mem s ?m) c (\<lambda>conn. conn\<lparr>recv_len := ?l + n, conn_ack := sq + ucast n\<rparr>)"
  have app: "append_buf (nmem s) (recv_buf (tcp_connections s c)) ?l d n = Some (?m, ?l + n)"
    using append_buf_eq [OF b fits] apart by blast
  have "good_step B (set_mem s ?m) ?t"
    using lens c st fits sum inv by (intro good_conn) auto
  then have t: "good_step B s ?t"
    using good_trans good_mem [OF inv] by blast
  then obtain s' where s': "send_ack ?t c = Some s'" "good_step B s s'" "tcp_connections s' = tcp_connections ?t" "same_net ?t s'"
    by (rule ack_after)
  have "received s' c = received ?t c"
    using c s'(4) by (intro received_same [OF good_inv [OF t]]) simp_all
  also have "\<dots> = read_bytes ?m b (unat ?l) @ read_bytes ?m (b + unat ?l) (unat n)"
    using b by (simp add: received_def sum read_bytes_add)
  also have "read_bytes ?m b (unat ?l) = read_bytes (nmem s) b (unat ?l)"
    by (rule read_write_disjoint) (simp add: disjoint_ranges_def)
  also have "read_bytes ?m (b + unat ?l) (unat n) = ?xs"
    using read_write_same [of "nmem s" "b + unat ?l" ?xs] by simp
  finally have "received s' c = received s c @ ?xs"
    using b by (simp add: received_def)
  moreover have "segment_established s c sq flags d n = Some s'"
    using flags n room app s'(1) by (simp add: segment_established_def Let_def)
  ultimately show ?thesis
    using that [of s'] s'(2,3) st c(2) b by simp
qed


lemma not_minus_one: "(- 1 :: int) \<noteq> uint (n :: u64)"
  using uint_ge_0 [of n] by linarith

lemma send_succeeded:
  assumes inv: "net_inv B s" and c: "c < MAX_TCP_CONNECTIONS" "in_use (tcp_connections s c)"
    and data: "foreign B s d (unat n)" "unat n \<le> 65495" "0 < n" and run: "tcp_send s c d n = Some (s', int (unat n))"
  obtains f where "carries f (tcp_connections s c) (TCP_PSH OR TCP_ACK) (read_bytes (nmem s) d (unat n))"
    and "wire s' = (if has_send (interfaces s 0) then wire s @ [(0, f)] else wire s)"
    and "conn_seq (tcp_connections s' c) = conn_seq (tcp_connections s c) + ucast n"
proof -
  let ?conn = "tcp_connections s c"
  have st: "conn_state ?conn = TCP_ESTABLISHED"
    using run by (auto simp: tcp_send_def Let_def not_minus_one split: if_splits)
  with run have "\<not> send_len ?conn + n > send_capacity ?conn"
    by (auto simp: tcp_send_def Let_def not_minus_one split: if_splits)
  moreover have "unat (send_len ?conn + n) = unat (send_len ?conn) + unat n"
    using conn_lens(2) [OF inv c] data(2) by (simp add: unat_word_ariths)
  ultimately have fits: "unat (send_len ?conn) + unat n \<le> 65536"
    using conn_lens(4) [OF inv c] by (simp add: not_less word_le_nat_alt)
  obtain b where "send_buf ?conn = Some b"
    using run st data(3) by (cases "send_buf ?conn") (auto simp: tcp_send_def append_buf_def Let_def word_gt_0 not_minus_one split: if_splits)
  then have b: "n = 0 \<or> send_buf ?conn = Some b" ..
  show ?thesis
    by (rule tcp_send_result [OF inv c st data(1,2) b fits]) (use run that in \<open>auto simp: not_minus_one not_minus_one [symmetric]\<close>)
qed

lemma recv_takes:
  assumes inv: "net_inv B s" and c: "c < MAX_TCP_CONNECTIONS" "in_use (tcp_connections s c)"
    and b: "recv_buf (tcp_connections s c) = Some b" and data: "foreign B s d (unat n)"
  shows "\<exists>s' r. tcp_recv s c d n = Some (s', int r) \<and> r = min (unat n) (length (received s c)) \<and>
    read_bytes (nmem s') d r @ received s' c = received s c"
proof -
  let ?l = "recv_len (tcp_connections s c)"
  let ?k = "min (unat n) (unat ?l)"
  obtain s' where s': "tcp_recv s c d n = Some (s', int ?k)"
      "unat (recv_len (tcp_connections s' c)) = unat ?l - ?k" "recv_buf (tcp_connections s' c) = Some b"
      "read_bytes (nmem s') d ?k = read_bytes (nmem s) b ?k"
      "read_bytes (nmem s') b (unat ?l - ?k) = read_bytes (nmem s) (b + ?k) (unat ?l - ?k)"
    by (rule tcp_recv_result [OF inv c b data])
  have "read_bytes (nmem s) b ?k @ read_bytes (nmem s) (b + ?k) (unat ?l - ?k) = read_bytes (nmem s) b (?k + (unat ?l - ?k))"
    by (simp only: read_bytes_add)
  then have "read_bytes (nmem s') d ?k @ received s' c = received s c"
    using s'(2-5) b by (simp add: received_def)
  with s'(1) b show ?thesis
    by (intro exI [of _ s'] exI [of _ ?k]) (simp add: received_def)
qed

text \<open>C10. Data that \<open>tcp_send\<close> accepted reaches the other machine: the frame that the driver got, put anywhere
  outside the buffers of the receiver and passed to \<open>net_rx\<close>, appends exactly that data to the stream of the
  matching connection, which acknowledges it with the sender's next sequence number, and \<open>tcp_recv\<close> takes
  the stream apart from the front.\<close>

theorem tcp_delivers:
  assumes "net_inv B s" and "c < MAX_TCP_CONNECTIONS" and "in_use (tcp_connections s c)" and "has_send (interfaces s 0)"
    and "foreign B s d (unat n)" and n: "unat n \<le> 65495" "0 < n" and sent: "tcp_send s c d n = Some (s', int (unat n))"
    and t: "net_inv C t" and e: "tcp_find_connection t (local_ip (tcp_connections s c)) (local_port (tcp_connections s c))
      (remote_ip (tcp_connections s c)) (remote_port (tcp_connections s c)) = Some e"
    and st: "conn_state (tcp_connections t e) = TCP_ESTABLISHED" and b: "recv_buf (tcp_connections t e) = Some b"
    and fits: "unat (recv_len (tcp_connections t e)) + unat n \<le> 65536"
  shows "\<exists>f. wire s' = wire s @ [(0, f)] \<and>
    (\<forall>a. read_bytes (nmem t) a (length f) = f \<and> foreign C t a (length f) \<longrightarrow>
      (\<exists>t'. net_rx t i a (of_nat (length f)) = Some t' \<and> net_inv C t' \<and>
         received t' e = received t e @ read_bytes (nmem s) d (unat n) \<and>
         conn_ack (tcp_connections t' e) = conn_seq (tcp_connections s' c) \<and>
         (\<forall>out k. foreign C t' out (unat k) \<longrightarrow>
            (\<exists>t'' r. tcp_recv t' e out k = Some (t'', int r) \<and> r = min (unat k) (length (received t' e)) \<and>
               read_bytes (nmem t'') out r @ received t'' e = received t' e))))"
proof -
  let ?xs = "read_bytes (nmem s) d (unat n)"
  obtain f where f: "carries f (tcp_connections s c) (TCP_PSH OR TCP_ACK) ?xs" "wire s' = wire s @ [(0, f)]"
      "conn_seq (tcp_connections s' c) = conn_seq (tcp_connections s c) + ucast n"
    using send_succeeded [OF assms(1-3,5) n sent] assms(4) by metis
  note e' = find_connection [OF e]
  have "\<exists>t'. net_rx t i a (of_nat (length f)) = Some t' \<and> net_inv C t' \<and> received t' e = received t e @ ?xs \<and>
      conn_ack (tcp_connections t' e) = conn_seq (tcp_connections s' c) \<and>
      (\<forall>out k. foreign C t' out (unat k) \<longrightarrow>
            (\<exists>t'' r. tcp_recv t' e out k = Some (t'', int r) \<and> r = min (unat k) (length (received t' e)) \<and>
               read_bytes (nmem t'') out r @ received t'' e = received t' e))"
    if a: "read_bytes (nmem t) a (length f) = f" "foreign C t a (length f)" for a
  proof -
    let ?t = "count_rx t i (of_nat (length f))"
    have rx: "net_rx t i a (of_nat (length f)) = tcp_state_machine ?t e (conn_seq (tcp_connections s c)) (TCP_PSH OR TCP_ACK) (a + 54) n"
      using net_rx_frame [OF f(1) a(1) _ e, of i] n(1) by simp
    have len: "length f = 54 + unat n" and xs: "read_bytes (nmem t) (a + 54) (unat n) = ?xs"
      using f(1) frame_in_memory(12) [OF f(1) a(1)] n(1) by (auto simp: carries_def)
    have inv: "net_inv C ?t"
      using net_inv_cong [OF t, of ?t] net_invD(1) [OF t] by simp
    have data: "foreign C ?t (a + 54) (unat n)"
      using foreign_sub [OF a(2), of "a + 54" "unat n"] len by (simp add: foreign_def)
    have flags: "(TCP_PSH OR TCP_ACK) AND TCP_FIN = 0"
      by (simp add: TCP_PSH_def TCP_ACK_def TCP_FIN_def)
    have est: "conn_state (tcp_connections ?t e) = TCP_ESTABLISHED" "recv_buf (tcp_connections ?t e) = Some b" "in_use (tcp_connections ?t e)"
        "unat (recv_len (tcp_connections ?t e)) + unat n \<le> 65536"
      using st b e'(2) fits by simp_all
    obtain t' where t': "segment_established ?t e (conn_seq (tcp_connections s c)) (TCP_PSH OR TCP_ACK) (a + 54) n = Some t'"
        "good_step C ?t t'" "received t' e = received ?t e @ read_bytes (nmem ?t) (a + 54) (unat n)"
        "conn_ack (tcp_connections t' e) = conn_seq (tcp_connections s c) + ucast n"
        "in_use (tcp_connections t' e)" "recv_buf (tcp_connections t' e) = Some b"
      by (rule segment_data [OF inv e'(1) est(3,1,2) data n(2) est(4) flags])
    have "received t' e = received t e @ ?xs"
      using t'(3) xs by simp
    moreover have "net_rx t i a (of_nat (length f)) = Some t'"
      using rx t'(1) est(1) by (simp add: tcp_state_machine_def)
    ultimately show ?thesis
      using t'(4) f(3) good_inv [OF t'(2)] recv_takes [OF good_inv [OF t'(2)] e'(1) t'(5,6)] by metis
  qed
  with f(2) show ?thesis by blast
qed


section \<open>Where the stack goes wrong\<close>

lemma doff_le: "doff m tcp \<le> 60"
proof -
  have "drop_bit 4 (m tcp) AND 0xF = take_bit 4 (drop_bit 4 (m tcp))"
    by (simp add: take_bit_eq_mask mask_eq_exp_minus_1 and.commute)
  moreover have "unat (take_bit 4 (drop_bit 4 (m tcp))) < 16"
    unfolding unsigned_take_bit_eq using take_bit_nat_less_exp [of 4 "unat (drop_bit 4 (m tcp))"] by simp
  ultimately have "unat (drop_bit 4 (m tcp) AND 0xF) < 16"
    by (simp only:)
  then show ?thesis
    unfolding doff_def by linarith
qed

lemma unat_neg:
  assumes "0 < unat (l :: u64)"
  shows "unat (- l) = 2 ^ 64 - unat l"
proof -
  have "(unat l + unat (- l)) mod 2 ^ 64 = unat (l + - l)"
    unfolding unat_word_ariths by simp
  then have mod: "(unat l + unat (- l)) mod 2 ^ 64 = 0"
    by simp
  have "unat l < 2 ^ 64" "unat (- l) < 2 ^ 64"
    using unsigned_less [of l, where 'a = nat] unsigned_less [of "- l", where 'a = nat] by simp_all
  moreover from mod obtain q where q: "unat l + unat (- l) = 2 ^ 64 * q"
    by (auto simp: mod_eq_0_iff_dvd)
  ultimately have "q < 2" "0 < q"
    using assms by (auto intro: gr0I)
  then have "q = 1" by simp
  with q show ?thesis by simp
qed



lemma run_rest: "(net_step B)\<^sup>*\<^sup>* s t \<Longrightarrow> net_inv B s \<Longrightarrow> same_stack s t"
proof (induction rule: rtranclp_induct)
  case (step t u)
  then have "good_step B t u"
    using net_step_good tcp.run_keep by blast
  with step show ?case
    using same_stack_trans by (auto simp: good_step_def)
qed simp

lemma silent_transmit: "\<not> has_send (interfaces s i) \<Longrightarrow> iface_transmit s i f = s"
  by (simp add: iface_transmit_def)

lemma silent_sends:
  assumes "\<not> has_send (interfaces s 0)"
  shows "tcp_send_packet s c flags data n = Some (s', r) \<Longrightarrow> wire s' = wire s"
    and "udp_send s ip sport dport d n = Some (s', r) \<Longrightarrow> wire s' = wire s"
    and "icmp_send_echo s ip ident sq = Some (s', r) \<Longrightarrow> wire s' = wire s"
    and "wire (fst (arp_send_request s ip)) = wire s"
  using assms
  by (auto simp: tcp_send_packet_def udp_send_def icmp_send_echo_def arp_send_request_def Let_def silent_transmit
      split: if_splits option.splits Option.bind_splits)


text \<open>The address of an interface is in host order, and ARP compares it with the bytes of the packet as they
  are: a request for the address \<open>x\<close> is answered exactly if the interface has the address \<open>x\<close> with its bytes
  reversed. The Ethernet interface with the address 10.0.2.15 does not answer for 10.0.2.15, but for
  15.2.0.10.\<close>

theorem arp_reversed_address:
  assumes "ntohs (read16 (nmem s) (arp + 6)) = 1" and "has_send (interfaces s i)"
    and x: "be_nat (read_bytes (nmem s) (arp + 24) 4) = unat x"
  shows "wire (arp_handle s i arp) \<noteq> wire s \<longleftrightarrow> if_ip (interfaces s i) = htonl x"
proof -
  have "unat (htonl (read32 (nmem s) (arp + 24))) = unat x"
    using x by (simp only: be_nat_htonl)
  then have "read32 (nmem s) (arp + 24) = htonl x"
    by (rule unat_htonl_eq)
  with assms(1,2) show ?thesis
    by (auto simp: arp_handle_def Let_def iface_send_def)
qed


section \<open>Witnesses\<close>

text \<open>The memory of the stack before it starts, and the machine after booting.\<close>

definition zero_iface :: net_interface where
  "zero_iface = \<lparr>if_name = \<lambda>_. 0, if_mac = \<lambda>_. 0, if_ip = 0, if_netmask = 0, if_gateway = 0, if_up = False,
     rx_packets = 0, tx_packets = 0, rx_bytes = 0, tx_bytes = 0, has_send = False\<rparr>"

definition zero_conn :: tcp_connection where
  "zero_conn = \<lparr>local_ip = 0, local_port = 0, remote_ip = 0, remote_port = 0, conn_state = TCP_CLOSED, conn_seq = 0,
     conn_ack = 0, recv_wnd = 0, send_wnd = 0, recv_buf = None, recv_len = 0, recv_capacity = 0, send_buf = None,
     send_len = 0, send_capacity = 0, in_use = False\<rparr>"

definition zero_net :: net where
  "zero_net = \<lparr>nheap = boot_heap, interfaces = \<lambda>_. zero_iface, num_interfaces = 0,
     arp_cache = \<lambda>_. \<lparr>arp_ip = 0, arp_mac = \<lambda>_. 0, arp_timestamp = 0, arp_valid = False\<rparr>,
     tcp_connections = \<lambda>_. zero_conn, next_ephemeral_port = 49152, tcp_isn_counter = 0x12345678, wire = []\<rparr>"

definition booted_net :: net where
  "booted_net = virtio_net_register (tcpip_init zero_net) 0 0"

lemma booted_net_inv: "net_inv {} booted_net"
proof -
  have heap: "nheap booted_net = boot_heap"
    by (simp add: booted_net_def virtio_net_register_def net_add_interface_def tcpip_init_def zero_net_def Let_def split: prod.split)
  have conns: "\<not> in_use (tcp_connections booted_net c)" for c
    by (simp add: booted_net_def virtio_net_register_def net_add_interface_def tcpip_init_def zero_net_def zero_conn_def Let_def split: prod.split)
  show ?thesis
    using conns boot_heap_inv boot_heap_live unfolding net_inv_def heap by (auto simp: conn_ok_def conn_bufs_def)
qed



text \<open>A request for 10.0.2.15 at address 0 of the memory.\<close>

definition request_net :: net where
  "request_net = set_mem booted_net ((\<lambda>_. 0)(7 := 1, 24 := 10, 26 := 2, 27 := 15))"

theorem arp_reversed_address_witness: "wire (arp_handle request_net 1 0) = wire request_net"
proof -
  have mem: "nmem request_net = (\<lambda>_. 0)(7 := 1, 24 := 10, 26 := 2, 27 := 15)"
    by (simp add: request_net_def)
  have upts: "[0..<2] = [0, 1 :: nat]" "[0..<4] = [0, 1, 2, 3 :: nat]"
    by (simp_all add: upt_rec)
  have "read_bytes (nmem request_net) 6 2 = [0, 1]" "read_bytes (nmem request_net) 24 4 = [10, 0, 2, 15]"
    unfolding read_bytes_def mem upts by simp_all
  then have "ntohs (read16 (nmem request_net) (0 + 6)) = 1" "be_nat (read_bytes (nmem request_net) (0 + 24) 4) = unat (0x0A00020F :: u32)"
    by (simp_all add: read16_def ntohs_def htons_def be_nat_def)
  moreover have "has_send (interfaces request_net 1)" "if_ip (interfaces request_net 1) = 0x0A00020F"
    by (simp_all add: request_net_def booted_net_def virtio_net_register_def net_add_interface_def tcpip_init_def zero_net_def
        zero_iface_def Let_def MAX_INTERFACES_def)
  ultimately show ?thesis
    using arp_reversed_address [of request_net 0 1 "0x0A00020F"] by (simp add: htonl_def)
qed


text \<open>A machine with an established connection: its two buffers and a free block in the heap, and a driver.\<close>

definition link_heap :: kheap where
  "link_heap = (raw_heap 0)\<lparr>heap_end := 196864, free_list := Some 131264, heap_total := 196864, kheap_used := 131264,
     heap_initialized := True,
     hdr := (\<lambda>a. if a = 0 \<or> a = 65632 then \<lparr>bsize = 65632, bmagic = BLOCK_MAGIC_USED, bflags = 0, bnext = None, bprev = None\<rparr>
       else \<lparr>bsize = 65600, bmagic = BLOCK_MAGIC_FREE, bflags = 1, bnext = None, bprev = None\<rparr>)\<rparr>"

definition link_conn :: tcp_connection where
  "link_conn = zero_conn\<lparr>conn_state := TCP_ESTABLISHED, in_use := True, recv_buf := Some 40, recv_capacity := 65536,
     send_buf := Some 65672, send_capacity := 65536\<rparr>"

definition link_net :: net where
  "link_net = zero_net\<lparr>nheap := link_heap, tcp_connections := (\<lambda>_. zero_conn)(0 := link_conn), num_interfaces := 1,
     interfaces := (\<lambda>_. zero_iface\<lparr>has_send := True\<rparr>)\<rparr>"

lemma link_heap_wf: "heap_wf link_heap [0, 65632, 131264] [131264]"
  by (simp add: link_heap_def raw_heap_def heap_wf_def free_structure_def used_size_def)

lemma link_heap_live: "live link_heap = {(40, 65592), (65672, 65592)}"
proof -
  have "set [0, 65632, 131264 :: nat] - set [131264] = {0, 65632}"
    by auto
  then show ?thesis
    unfolding live_eq [OF link_heap_wf] by (simp add: link_heap_def block_data_def)
qed

lemma link_net_inv: "net_inv {} link_net"
proof -
  have heap: "nheap link_net = link_heap" "heap_inv link_heap"
    using link_heap_wf by (auto simp: link_net_def heap_inv_def)
  have conns: "tcp_connections link_net c = (if c = 0 then link_conn else zero_conn)" for c
    by (simp add: link_net_def)
  have bufs: "conn_bufs link_conn = {40, 65672}" "conn_bufs zero_conn = {}"
    by (auto simp: conn_bufs_def link_conn_def zero_conn_def)
  have "conn_ok link_heap link_conn" "conn_ok link_heap zero_conn"
    unfolding conn_ok_def bufs link_heap_live by (auto simp: link_conn_def zero_conn_def)
  then show ?thesis
    using heap(2) unfolding net_inv_def heap(1) conns link_heap_live by (auto simp: bufs MAX_TCP_CONNECTIONS_def)
qed

lemma link_find: "tcp_find_connection (set_mem link_net m) 0 0 0 0 = Some 0"
proof -
  have "[0..<MAX_TCP_CONNECTIONS] = 0 # [Suc 0..<MAX_TCP_CONNECTIONS]"
    by (simp add: upt_conv_Cons MAX_TCP_CONNECTIONS_def del: upt_Suc)
  then show ?thesis
    by (simp add: tcp_find_connection_def link_net_def link_conn_def zero_conn_def)
qed

lemma link_send:
  obtains s' where "tcp_send link_net 0 200000 1 = Some (s', int (unat (1 :: u64)))"
proof -
  have conn: "tcp_connections link_net 0 = link_conn"
    by (simp add: link_net_def)
  have fits: "unat (send_len (tcp_connections link_net 0)) + unat (1 :: u64) \<le> 65536"
    by (simp add: conn link_conn_def zero_conn_def)
  have "(131264, 65600) \<in> free_blocks (nheap link_net)"
    using free_blocks_eq [OF link_heap_wf] by (simp add: link_net_def link_heap_def)
  then have "\<exists>(b, k) \<in> free_blocks (nheap link_net). 54 + unat (1 :: u64) + header_size + MIN_ALLOC \<le> k"
    by (intro bexI [of _ "(131264, 65600)"]) simp_all
  then have room: "\<not> (\<forall>(b, k) \<in> free_blocks (nheap link_net). k < 54 + unat (1 :: u64) + header_size + MIN_ALLOC)"
    by fastforce
  have ok: "num_interfaces link_net \<noteq> 0"
    by (simp add: link_net_def)
  have "0 < MAX_TCP_CONNECTIONS" "in_use (tcp_connections link_net 0)" "conn_state (tcp_connections link_net 0) = TCP_ESTABLISHED"
      "foreign {} link_net 200000 (unat (1 :: u64))" "unat (1 :: u64) \<le> 65495"
      "(1 :: u64) = 0 \<or> send_buf (tcp_connections link_net 0) = Some 65672"
    unfolding conn by (simp_all add: MAX_TCP_CONNECTIONS_def link_conn_def foreign_def link_net_def link_heap_def)
  from link_net_inv this fits show ?thesis
  proof (cases rule: tcp_send_result)
    case (failed s')
    with room ok show ?thesis by metis
  next
    case (sent s' f)
    then show ?thesis by (intro that)
  qed
qed

text \<open>The receiver has the frame in memory behind its heap.\<close>

theorem tcp_delivers_witness:
  "\<exists>s' f t'. tcp_send link_net 0 200000 1 = Some (s', 1) \<and> wire s' = [(0, f)] \<and>
     net_rx (set_mem link_net (write_bytes (nmem link_net) 200000 f)) 0 200000 (of_nat (length f)) = Some t' \<and>
     received t' 0 = [nmem link_net 200000]"
proof -
  obtain s' where s': "tcp_send link_net 0 200000 1 = Some (s', int (unat (1 :: u64)))"
    by (rule link_send)
  have conn: "tcp_connections link_net 0 = link_conn" and wire: "wire link_net = []" and drv: "has_send (interfaces link_net 0)"
    by (simp_all add: link_net_def zero_net_def)
  have sender: "0 < MAX_TCP_CONNECTIONS" "in_use (tcp_connections link_net 0)" "foreign {} link_net 200000 (unat (1 :: u64))"
      "unat (1 :: u64) \<le> 65495" "(0 :: u64) < 1"
    unfolding conn by (simp_all add: MAX_TCP_CONNECTIONS_def link_conn_def foreign_def link_net_def link_heap_def)
  obtain f where f: "wire s' = [(0, f)]"
    by (rule send_succeeded [OF link_net_inv sender(1-5) s']) (use drv wire in simp)
  let ?t = "set_mem link_net (write_bytes (nmem link_net) 200000 f)"
  have t: "net_inv {} ?t"
    using link_net_inv net_invD(1) [OF link_net_inv] by (intro net_inv_cong [OF link_net_inv]) simp_all
  have est: "conn_state (tcp_connections ?t 0) = TCP_ESTABLISHED" "recv_buf (tcp_connections ?t 0) = Some 40"
      "unat (recv_len (tcp_connections ?t 0)) + unat (1 :: u64) \<le> 65536"
    by (simp_all add: conn link_conn_def zero_conn_def)
  have find: "tcp_find_connection ?t (local_ip (tcp_connections link_net 0)) (local_port (tcp_connections link_net 0))
      (remote_ip (tcp_connections link_net 0)) (remote_port (tcp_connections link_net 0)) = Some 0"
    using link_find unfolding conn by (simp add: link_conn_def zero_conn_def)
  have here: "read_bytes (nmem ?t) 200000 (length f) = f \<and> foreign {} ?t 200000 (length f)"
    using read_write_same [of "nmem link_net" 200000 f] by (simp add: foreign_def link_net_def link_heap_def)
  obtain g where g: "wire s' = wire link_net @ [(0, g)]"
    and deliver: "\<forall>a. read_bytes (nmem ?t) a (length g) = g \<and> foreign {} ?t a (length g) \<longrightarrow>
      (\<exists>t'. net_rx ?t 0 a (of_nat (length g)) = Some t' \<and> net_inv {} t' \<and>
         received t' 0 = received ?t 0 @ read_bytes (nmem link_net) 200000 (unat (1 :: u64)) \<and>
         conn_ack (tcp_connections t' 0) = conn_seq (tcp_connections s' 0) \<and>
         (\<forall>out k. foreign {} t' out (unat k) \<longrightarrow>
            (\<exists>t'' r. tcp_recv t' 0 out k = Some (t'', int r) \<and> r = min (unat k) (length (received t' 0)) \<and>
               read_bytes (nmem t'') out r @ received t'' 0 = received t' 0)))"
    using tcp_delivers [OF link_net_inv sender(1,2) drv sender(3-5) s' t find est, of 0] by (elim exE conjE)
  have "g = f"
    using g f wire by simp
  then obtain t' where t': "net_rx ?t 0 200000 (of_nat (length f)) = Some t'"
      "received t' 0 = received ?t 0 @ read_bytes (nmem link_net) 200000 (unat (1 :: u64))"
    using deliver [THEN spec, of 200000] here by (elim impE exE conjE) simp_all
  have "received ?t 0 = []" "read_bytes (nmem link_net) 200000 (unat (1 :: u64)) = [nmem link_net 200000]"
    by (simp_all add: received_def conn link_conn_def zero_conn_def read_bytes_def)
  with s' f t' show ?thesis
    by (intro exI [of _ s'] exI [of _ f] exI [of _ t']) simp
qed

text \<open>A segment of 20 bytes at address 1000 that states a header of 60 bytes, while 40 bytes are unread.\<close>

definition short_net :: net where
  "short_net = set_conn (set_mem link_net ((\<lambda>_. 0)(1012 := 0xF0))) 0 (\<lambda>conn. conn\<lparr>recv_len := 40\<rparr>)"

lemma short_find: "tcp_find_connection short_net 0 0 0 0 = Some 0"
proof -
  have "[0..<MAX_TCP_CONNECTIONS] = 0 # [Suc 0..<MAX_TCP_CONNECTIONS]"
    by (simp add: upt_conv_Cons MAX_TCP_CONNECTIONS_def del: upt_Suc)
  then show ?thesis
    by (simp add: tcp_find_connection_def short_net_def link_net_def link_conn_def zero_conn_def)
qed


end
