(* ===== verification/Aslr.thy ===== *)
theory Aslr
  imports Prelude
begin

text \<open>
  Address space randomisation, \<^verbatim>\<open>kernel/mm/aslr.c\<close>: a linear congruential generator that is seeded from the
  counters of the timer, and the offsets that are taken from it. A reading of the two counters is an
  argument.
\<close>

section \<open>Model\<close>

definition LCG_MULTIPLIER :: u64 where "LCG_MULTIPLIER = 6364136223846793005"
definition LCG_INCREMENT :: u64 where "LCG_INCREMENT = 1442695040888963407"

abbreviation (input) "ASLR_STACK_BITS \<equiv> (12 :: nat)"
abbreviation (input) "ASLR_HEAP_BITS \<equiv> (12 :: nat)"
abbreviation (input) "ASLR_MMAP_BITS \<equiv> (16 :: nat)"
abbreviation (input) "ASLR_EXEC_BITS \<equiv> (16 :: nat)"

record aslr =
  aslr_seed :: u64
  aslr_initialized :: bool

type_synonym counters = "u64 \<times> u64"

definition get_hardware_entropy :: "counters \<Rightarrow> u64" where
  "get_hardware_entropy c = fst c XOR snd c"

definition next_random :: "aslr \<Rightarrow> aslr \<times> u64" where
  "next_random s = (let x = aslr_seed s * LCG_MULTIPLIER + LCG_INCREMENT in (s\<lparr>aslr_seed := x\<rparr>, x))"

definition aslr_init :: "aslr \<Rightarrow> counters \<Rightarrow> counters \<Rightarrow> aslr" where
  "aslr_init s c1 c2 =
     (let entropy1 = get_hardware_entropy c1; entropy2 = get_hardware_entropy c2;
          s = s\<lparr>aslr_seed := entropy1 XOR push_bit 13 entropy2 XOR drop_bit 7 entropy2\<rparr>;
          s = ((fst \<circ> next_random) ^^ 8) s
      in s\<lparr>aslr_initialized := True\<rparr>)"

text \<open>The part of the seed that \<open>aslr_init\<close> writes to the log.\<close>

definition aslr_logged :: "aslr \<Rightarrow> u64" where
  "aslr_logged s = aslr_seed s AND 0xFFFFFFFF"

definition aslr_random :: "aslr \<Rightarrow> counters \<Rightarrow> counters \<Rightarrow> aslr \<times> u64" where
  "aslr_random s c1 c2 = next_random (if aslr_initialized s then s else aslr_init s c1 c2)"

definition aslr_offset :: "nat \<Rightarrow> nat \<Rightarrow> aslr \<Rightarrow> counters \<Rightarrow> counters \<Rightarrow> aslr \<times> u64" where
  "aslr_offset bits shift s c1 c2 =
     (let (s, random) = aslr_random s c1 c2 in (s, push_bit shift (random AND (push_bit bits 1 - 1))))"

definition aslr_stack_offset :: "aslr \<Rightarrow> counters \<Rightarrow> counters \<Rightarrow> aslr \<times> u64" where
  "aslr_stack_offset = aslr_offset ASLR_STACK_BITS 12"

definition aslr_heap_offset :: "aslr \<Rightarrow> counters \<Rightarrow> counters \<Rightarrow> aslr \<times> u64" where
  "aslr_heap_offset = aslr_offset ASLR_HEAP_BITS 12"

definition aslr_exec_offset :: "aslr \<Rightarrow> counters \<Rightarrow> counters \<Rightarrow> aslr \<times> u64" where
  "aslr_exec_offset = aslr_offset ASLR_EXEC_BITS 16"

definition aslr_mmap_offset :: "aslr \<Rightarrow> counters \<Rightarrow> counters \<Rightarrow> aslr \<times> u64" where
  "aslr_mmap_offset = aslr_offset ASLR_MMAP_BITS 12"

section \<open>Offsets\<close>

lemma mask_and: "x AND (push_bit n 1 - 1) = take_bit n (x :: u64)"
  by (simp add: take_bit_eq_mask mask_eq_exp_minus_1 push_bit_of_1 and.commute)

lemma aslr_offset_eq:
  "aslr_offset bits shift s c1 c2 =
     (let r = aslr_random s c1 c2 in (fst r, push_bit shift (take_bit bits (snd r))))"
  unfolding aslr_offset_def mask_and Let_def by (simp split: prod.split)

lemma aslr_offset_bounds:
  assumes "bits + shift \<le> 64"
  shows "\<exists>k < 2 ^ bits. unat (snd (aslr_offset bits shift s c1 c2)) = k * 2 ^ shift"
proof -
  let ?r = "snd (aslr_random s c1 c2)"
  have k: "unat (take_bit bits ?r) < 2 ^ bits"
    unfolding unsigned_take_bit_eq by (rule take_bit_nat_less_exp)
  then have "unat (take_bit bits ?r) * 2 ^ shift < 2 ^ bits * 2 ^ shift"
    by simp
  also have "\<dots> \<le> (2 :: nat) ^ 64"
    using power_increasing [OF assms, of "2 :: nat"] by (simp add: power_add)
  finally have "unat (push_bit shift (take_bit bits ?r)) = unat (take_bit bits ?r) * 2 ^ shift"
    unfolding unsigned_push_bit_eq push_bit_eq_mult [of shift "unat _"] by (simp add: take_bit_nat_eq_self)
  with k show ?thesis
    by (auto simp: aslr_offset_eq Let_def)
qed

text \<open>The initialised flag stays, and the low bits of the generator only depend on its low bits.\<close>

lemma next_random_initialized [simp]: "aslr_initialized (fst (next_random s)) = aslr_initialized s"
  by (simp add: next_random_def Let_def)

lemma aslr_init_initialized [simp]: "aslr_initialized (aslr_init s c1 c2)"
  by (simp add: aslr_init_def Let_def)

lemma low_bits_step:
  assumes "take_bit n x = take_bit n (y :: u64)" and n: "n \<le> 64"
  shows "take_bit n (x * a + b) = take_bit n (y * a + b)"
proof -
  have low: "uint (take_bit n z) = take_bit n (uint z)" for z :: u64
    by (rule unsigned_take_bit_eq)
  have "(2 :: int) ^ n dvd 2 ^ 64"
    using n by (rule le_imp_power_dvd)
  then have wrap: "(c mod 2 ^ 64 + d) mod 2 ^ n = (c + d) mod (2 ^ n :: int)" for c d
    by (metis mod_add_left_eq mod_mod_cancel)
  have "uint (take_bit n (z * a + b)) = (uint z * uint a + uint b) mod 2 ^ n" for z
    using wrap [of "uint z * uint a mod 2 ^ 64 + uint b" 0] wrap [of "uint z * uint a" "uint b"]
    unfolding low uint_word_ariths by (simp add: take_bit_eq_mod)
  then have step: "uint (take_bit n (z * a + b)) = (uint (take_bit n z) * uint a + uint b) mod 2 ^ n" for z
    unfolding low take_bit_eq_mod [of n "uint z"] by (metis mod_add_left_eq mod_mult_left_eq)
  have "uint (take_bit n (x * a + b)) = uint (take_bit n (y * a + b))"
    unfolding step assms(1) ..
  then show ?thesis
    by (rule word_uint_eqI)
qed

lemma aslr_random_low_bits:
  assumes "aslr_initialized s" and "aslr_initialized t" and "take_bit n (aslr_seed s) = take_bit n (aslr_seed t)" and "n \<le> 64"
  shows "take_bit n (snd (aslr_random s c1 c2)) = take_bit n (snd (aslr_random t d1 d2))"
    and "take_bit n (aslr_seed (fst (aslr_random s c1 c2))) = take_bit n (aslr_seed (fst (aslr_random t d1 d2)))"
    and "aslr_initialized (fst (aslr_random s c1 c2))" and "aslr_initialized (fst (aslr_random t d1 d2))"
  using assms(1,2) low_bits_step [OF assms(3,4)] by (simp_all add: aslr_random_def next_random_def Let_def)

text \<open>Any sequence of requests, each with its counter readings.\<close>

datatype offset_kind = Stack_offset | Heap_offset | Exec_offset | Mmap_offset

fun aslr_call :: "offset_kind \<Rightarrow> aslr \<Rightarrow> counters \<Rightarrow> counters \<Rightarrow> aslr \<times> u64" where
  "aslr_call Stack_offset = aslr_stack_offset"
| "aslr_call Heap_offset = aslr_heap_offset"
| "aslr_call Exec_offset = aslr_exec_offset"
| "aslr_call Mmap_offset = aslr_mmap_offset"

fun aslr_calls :: "(offset_kind \<times> counters \<times> counters) list \<Rightarrow> aslr \<Rightarrow> u64 list" where
  "aslr_calls [] s = []"
| "aslr_calls ((c, c1, c2) # cs) s = (let (s, x) = aslr_call c s c1 c2 in x # aslr_calls cs s)"

lemma aslr_call_offset: "\<exists>bits \<le> 16. \<exists>shift. aslr_call c = aslr_offset bits shift"
proof (cases c)
  case Stack_offset
  then show ?thesis by (intro exI [of _ 12] exI conjI) (simp_all add: aslr_stack_offset_def)
next
  case Heap_offset
  then show ?thesis by (intro exI [of _ 12] exI conjI) (simp_all add: aslr_heap_offset_def)
next
  case Exec_offset
  then show ?thesis by (intro exI [of _ 16] exI conjI) (simp_all add: aslr_exec_offset_def)
next
  case Mmap_offset
  then show ?thesis by (intro exI [of _ 16] exI conjI) (simp_all add: aslr_mmap_offset_def)
qed

text \<open>The log line of \<open>aslr_init\<close> is enough to predict every offset the kernel will ever use: what it shows
  of the seed determines all of them, whatever the rest of the seed and the counters are.\<close>

theorem aslr_predictable:
  assumes "aslr_initialized s" and "aslr_initialized t" and "aslr_logged s = aslr_logged t" and "map fst cs = map fst ds"
  shows "aslr_calls cs s = aslr_calls ds t"
proof -
  have "take_bit 32 (aslr_seed s) = take_bit 32 (aslr_seed t)"
    using assms(3) mask_and [of _ 32] by (simp add: aslr_logged_def)
  then have "take_bit 16 (take_bit 32 (aslr_seed s)) = take_bit 16 (take_bit 32 (aslr_seed t))"
    by simp
  then have "take_bit 16 (aslr_seed s) = take_bit 16 (aslr_seed t)"
    by simp
  with assms(1,2,4) show ?thesis
  proof (induction cs arbitrary: ds s t)
    case (Cons x xs)
    obtain c c1 c2 where x: "x = (c, c1, c2)"
      by (cases x)
    with Cons.prems obtain d1 d2 ys where ds: "ds = (c, d1, d2) # ys" "map fst xs = map fst ys"
      by (cases ds) auto
    obtain bits shift where c: "bits \<le> 16" "aslr_call c = aslr_offset bits shift"
      using aslr_call_offset by blast
    have "(16 :: nat) \<le> 64"
      by simp
    note low = aslr_random_low_bits [OF Cons.prems(1,2,4) this]
    have "take_bit bits (take_bit 16 (snd (aslr_random s c1 c2))) = take_bit bits (take_bit 16 (snd (aslr_random t d1 d2)))"
      by (simp only: low(1) [of c1 c2 d1 d2])
    then have "take_bit bits (snd (aslr_random s c1 c2)) = take_bit bits (snd (aslr_random t d1 d2))"
      using c(1) by simp
    moreover have "aslr_calls xs (fst (aslr_random s c1 c2)) = aslr_calls ys (fst (aslr_random t d1 d2))"
      using Cons.IH [OF low(3,4) ds(2) low(2)] .
    ultimately show ?case
      unfolding x ds(1) by (simp add: c(2) aslr_offset_eq Let_def)
  qed simp
qed

end
