(* ===== verification/Vfs_Compat.thy ===== *)
theory Vfs_Compat
  imports Kernel_String
begin

text \<open>
  The compatibility layer through which programs are found, \<^verbatim>\<open>kernel/fs/vfs_compat.c\<close>: a pool of 32 nodes,
  and two files that are linked into the kernel. The contents of the two files are generated when the kernel
  is built and are fields of the state that nothing changes; the pointer that a node keeps to them is a
  constructor of \<open>file_data\<close>.
\<close>

section \<open>Model\<close>

definition MAX_VFS_NODES :: nat where "MAX_VFS_NODES = 32"

datatype file_data = No_data | Doom_binary | Doom_wad

record vfs_node =
  node_name :: "nat \<Rightarrow> byte"
  node_size :: nat
  node_is_dir :: int
  node_internal :: file_data

record compat =
  cwd :: "nat \<Rightarrow> byte"
  node_pool :: "nat \<Rightarrow> vfs_node"
  node_used :: "nat \<Rightarrow> bool"
  doom_binary :: "byte list"
  doom_wad :: "byte list"

text \<open>A path in memory against a string literal, which ends with a NUL.\<close>

fun strcmp_simple :: "mem \<Rightarrow> addr \<Rightarrow> byte list \<Rightarrow> int" where
  "strcmp_simple m s1 [] = uint (m s1)"
| "strcmp_simple m s1 (c # cs) = (if m s1 \<noteq> 0 \<and> m s1 = c then strcmp_simple m (s1 + 1) cs else uint (m s1) - uint c)"

definition literal :: "string \<Rightarrow> byte list" where
  "literal str = map (\<lambda>c. of_nat (of_char c)) str"

text \<open>The first argument is the number of characters for which there is room before the NUL.\<close>

fun strcpy_safe_loop :: "nat \<Rightarrow> (nat \<Rightarrow> byte) \<Rightarrow> (nat \<Rightarrow> byte) \<Rightarrow> nat \<Rightarrow> (nat \<Rightarrow> byte)" where
  "strcpy_safe_loop 0 dst src i = dst(i := 0)"
| "strcpy_safe_loop (Suc k) dst src i =
     (if src i = 0 then dst(i := 0) else strcpy_safe_loop k (dst(i := src i)) src (i + 1))"

definition strcpy_safe :: "(nat \<Rightarrow> byte) \<Rightarrow> (nat \<Rightarrow> byte) \<Rightarrow> nat \<Rightarrow> (nat \<Rightarrow> byte)" where
  "strcpy_safe dst src max_len = strcpy_safe_loop (unat (of_nat max_len - 1 :: u64)) dst src 0"

definition alloc_node :: "compat \<Rightarrow> compat \<times> nat option" where
  "alloc_node v =
     (case List.find (\<lambda>i. \<not> node_used v i) [0..<MAX_VFS_NODES] of
        None \<Rightarrow> (v, None)
      | Some i \<Rightarrow> (v\<lparr>node_used := (node_used v)(i := True)\<rparr>, Some i))"

definition free_node :: "compat \<Rightarrow> nat \<Rightarrow> compat" where
  "free_node v i = (if i < MAX_VFS_NODES then v\<lparr>node_used := (node_used v)(i := False)\<rparr> else v)"

text \<open>The assignments that follow an allocation in three functions.\<close>

definition fill_node :: "compat \<Rightarrow> mem \<Rightarrow> addr \<Rightarrow> nat \<Rightarrow> nat \<Rightarrow> int \<Rightarrow> file_data \<Rightarrow> compat" where
  "fill_node v m path i sz is_dir internal =
     v\<lparr>node_pool := (node_pool v)(i :=
        \<lparr>node_name = strcpy_safe (node_name (node_pool v i)) (\<lambda>k. m (path + k)) 256,
         node_size = sz, node_is_dir = is_dir, node_internal = internal\<rparr>)\<rparr>"

definition wad_paths :: "byte list list" where
  "wad_paths = map literal [''/DOOM1.WAD'', ''DOOM1.WAD'', ''/data/DOOM1.WAD'', ''/games/doom1.wad'', ''/games/DOOM1.WAD'',
     ''games/doom1.wad'', ''/doom1.wad'', ''doom1.wad'']"

definition vfs_lookup :: "compat \<Rightarrow> mem \<Rightarrow> addr \<Rightarrow> compat \<times> nat option" where
  "vfs_lookup v m path =
     (case alloc_node v of
        (v, None) \<Rightarrow> (v, None)
      | (v, Some i) \<Rightarrow>
          (let v = (if m path = 0x2F \<and> m (path + 1) = 0 then fill_node v m path i 0 1 No_data
                    else if strcmp_simple m path (literal ''/bin/doom'') = 0
                    then fill_node v m path i (length (doom_binary v)) 0 Doom_binary
                    else if \<exists>p \<in> set wad_paths. strcmp_simple m path p = 0
                    then fill_node v m path i (length (doom_wad v)) 0 Doom_wad
                    else fill_node v m path i 0 0 No_data)
           in (v, Some i)))"

definition vfs_open_handle :: "compat \<Rightarrow> mem \<Rightarrow> addr \<Rightarrow> compat \<times> nat option" where
  "vfs_open_handle v m path = vfs_lookup v m path"

definition vfs_close_handle :: "compat \<Rightarrow> nat option \<Rightarrow> compat" where
  "vfs_close_handle v node = (case node of None \<Rightarrow> v | Some i \<Rightarrow> free_node v i)"

text \<open>The two branches with data differ in the array they read.\<close>

definition read_embedded :: "byte list \<Rightarrow> nat \<Rightarrow> mem \<Rightarrow> addr \<Rightarrow> nat \<Rightarrow> nat \<Rightarrow> mem \<times> int" where
  "read_embedded data node_sz m buf sz offset =
     (let avail = (if node_sz > offset then node_sz - offset else 0);
          to_read = (if sz < avail then sz else avail)
      in (write_bytes m buf (take to_read (drop offset data)), sint (of_nat to_read :: 32 word)))"

definition vfs_read_compat :: "compat \<Rightarrow> nat option \<Rightarrow> mem \<Rightarrow> ptr \<Rightarrow> nat \<Rightarrow> nat \<Rightarrow> mem \<times> int" where
  "vfs_read_compat v node m buf sz offset =
     (case (node, buf) of
        (Some i, Some b) \<Rightarrow>
          (case node_internal (node_pool v i) of
             Doom_binary \<Rightarrow> read_embedded (doom_binary v) (node_size (node_pool v i)) m b sz offset
           | Doom_wad \<Rightarrow> read_embedded (doom_wad v) (node_size (node_pool v i)) m b sz offset
           | No_data \<Rightarrow> (m, 0))
      | _ \<Rightarrow> (m, - 1))"

definition vfs_write_compat :: "compat \<Rightarrow> nat option \<Rightarrow> mem \<Rightarrow> addr \<Rightarrow> nat \<Rightarrow> int" where
  "vfs_write_compat v node m buf sz = 0"

definition vfs_is_dir :: "compat \<Rightarrow> nat option \<Rightarrow> int" where
  "vfs_is_dir v node = (case node of None \<Rightarrow> 0 | Some i \<Rightarrow> node_is_dir (node_pool v i))"

definition make_node :: "compat \<Rightarrow> mem \<Rightarrow> addr \<Rightarrow> int \<Rightarrow> compat \<times> nat option" where
  "make_node v m path is_dir =
     (case alloc_node v of (v, None) \<Rightarrow> (v, None) | (v, Some i) \<Rightarrow> (fill_node v m path i 0 is_dir No_data, Some i))"

definition vfs_create_compat :: "compat \<Rightarrow> mem \<Rightarrow> addr \<Rightarrow> compat \<times> nat option" where
  "vfs_create_compat v m path = make_node v m path 0"

definition vfs_mkdir_compat :: "compat \<Rightarrow> mem \<Rightarrow> addr \<Rightarrow> compat \<times> nat option" where
  "vfs_mkdir_compat v m path = make_node v m path 1"

definition vfs_set_cwd :: "compat \<Rightarrow> mem \<Rightarrow> addr \<Rightarrow> compat \<times> int" where
  "vfs_set_cwd v m path = (v\<lparr>cwd := strcpy_safe (cwd v) (\<lambda>k. m (path + k)) 256\<rparr>, 0)"

definition vfs_get_cwd_path :: "compat \<Rightarrow> mem \<Rightarrow> addr \<Rightarrow> nat \<Rightarrow> mem \<times> int" where
  "vfs_get_cwd_path v m buf sz =
     (let d = strcpy_safe (\<lambda>k. m (buf + k)) (cwd v) sz in ((\<lambda>a. if buf \<le> a then d (a - buf) else m a), 0))"

section \<open>Nodes in use\<close>

definition used_nodes :: "compat \<Rightarrow> nat set" where
  "used_nodes v = {i. i < MAX_VFS_NODES \<and> node_used v i}"

lemma finite_used_nodes [simp]: "finite (used_nodes v)"
  by (simp add: used_nodes_def)

lemma used_nodes_le: "card (used_nodes v) \<le> MAX_VFS_NODES"
proof -
  have "used_nodes v \<subseteq> {..<MAX_VFS_NODES}"
    by (auto simp: used_nodes_def)
  from card_mono [OF _ this] show ?thesis by simp
qed

lemma alloc_node_cases:
  obtains (full) "alloc_node v = (v, None)" "card (used_nodes v) = MAX_VFS_NODES"
  | (node) i where "alloc_node v = (v\<lparr>node_used := (node_used v)(i := True)\<rparr>, Some i)" "i < MAX_VFS_NODES" "\<not> node_used v i"
      "card (used_nodes v) < MAX_VFS_NODES"
proof (cases "List.find (\<lambda>i. \<not> node_used v i) [0..<MAX_VFS_NODES]")
  case None
  then have "used_nodes v = {..<MAX_VFS_NODES}"
    by (auto simp: find_None_iff used_nodes_def)
  with None show ?thesis
    by (intro full) (simp_all add: alloc_node_def)
next
  case (Some i)
  then have i: "i < MAX_VFS_NODES" "\<not> node_used v i"
    by (auto simp: find_Some_iff)
  then have "used_nodes v \<subset> {..<MAX_VFS_NODES}"
    by (auto simp: used_nodes_def)
  from psubset_card_mono [OF _ this] Some i show ?thesis
    by (intro node [of i]) (simp_all add: alloc_node_def)
qed

lemma fill_node_used [simp]: "node_used (fill_node v m path i n d x) = node_used v" "used_nodes (fill_node v m path i n d x) = used_nodes v"
    "doom_binary (fill_node v m path i n d x) = doom_binary v" "doom_wad (fill_node v m path i n d x) = doom_wad v"
    "node_size (node_pool (fill_node v m path i n d x) i) = n" "node_is_dir (node_pool (fill_node v m path i n d x) i) = d"
    "node_internal (node_pool (fill_node v m path i n d x) i) = x"
  by (simp_all add: fill_node_def used_nodes_def)

text \<open>What a lookup finds.\<close>

definition node_contents :: "compat \<Rightarrow> file_data \<Rightarrow> byte list" where
  "node_contents v d = (case d of No_data \<Rightarrow> [] | Doom_binary \<Rightarrow> doom_binary v | Doom_wad \<Rightarrow> doom_wad v)"

definition found :: "mem \<Rightarrow> addr \<Rightarrow> int \<times> file_data" where
  "found m path =
     (if m path = 0x2F \<and> m (path + 1) = 0 then (1, No_data)
      else if strcmp_simple m path (literal ''/bin/doom'') = 0 then (0, Doom_binary)
      else if \<exists>p \<in> set wad_paths. strcmp_simple m path p = 0 then (0, Doom_wad)
      else (0, No_data))"

lemma vfs_lookup_eq:
  "vfs_lookup v m path =
     (case alloc_node v of (v, None) \<Rightarrow> (v, None)
      | (v, Some i) \<Rightarrow> (fill_node v m path i (length (node_contents v (snd (found m path)))) (fst (found m path)) (snd (found m path)), Some i))"
  by (simp add: vfs_lookup_def found_def node_contents_def Let_def split: prod.split option.split)

lemma vfs_lookup_cases:
  obtains (full) "vfs_lookup v m path = (v, None)" "card (used_nodes v) = MAX_VFS_NODES"
  | (node) v' i where "vfs_lookup v m path = (v', Some i)" "i < MAX_VFS_NODES" "\<not> node_used v i" "used_nodes v' = insert i (used_nodes v)"
      "card (used_nodes v) < MAX_VFS_NODES" "card (used_nodes v') = card (used_nodes v) + 1"
      "doom_binary v' = doom_binary v" "doom_wad v' = doom_wad v" "node_internal (node_pool v' i) = snd (found m path)"
      "node_is_dir (node_pool v' i) = fst (found m path)" "node_size (node_pool v' i) = length (node_contents v (snd (found m path)))"
proof (cases rule: alloc_node_cases [of v])
  case full
  then show ?thesis by (intro that(1)) (simp_all add: vfs_lookup_eq)
next
  case (node i)
  let ?v = "v\<lparr>node_used := (node_used v)(i := True)\<rparr>"
  have used: "used_nodes ?v = insert i (used_nodes v)" "i \<notin> used_nodes v" "node_contents ?v = node_contents v"
    using node(2,3) by (auto simp: used_nodes_def node_contents_def split: file_data.split)
  let ?d = "found m path"
  show ?thesis
    by (rule that(2) [of "fill_node ?v m path i (length (node_contents ?v (snd ?d))) (fst ?d) (snd ?d)" i])
      (use node used in \<open>simp_all add: vfs_lookup_eq\<close>)
qed

lemma literal_compare: "strcmp_simple m p cs = 0 \<longleftrightarrow> cstr m p cs" if "0 \<notin> set cs"
  using that by (induction cs arbitrary: p) (auto simp: uint_0_iff)

lemma read_embedded_all:
  assumes "length data < 2 ^ 31"
  shows "read_embedded data (length data) m buf (length data) 0 = (write_bytes m buf data, int (length data))"
proof -
  have "sint (of_nat (length data) :: 32 word) = int (length data)"
    using assms by (simp add: signed_of_nat signed_take_bit_int_eq_self)
  then show ?thesis
    by (simp add: read_embedded_def Let_def)
qed

end
