(* ===== verification/Process.thy ===== *)
theory Process
  imports Kmalloc Elf Aslr Vfs_Compat "HOL-Library.Monad_Syntax"
begin

text \<open>
  Processes, \<^verbatim>\<open>kernel/core/process.c\<close> in the ARM64 configuration: the table of 16 processes, creation from
  an ELF image, round-robin scheduling by yielding and by the timer, exit and killing.

  A function that switches context is given the registers that \<^verbatim>\<open>switch_context\<close> saves, and returns what the
  processor does next: it returns to its caller, it returns after an idle wait, or it continues in a saved
  context; the caller then goes on when somebody switches back to the saved registers. The process table
  lock is taken with interrupts off on a single processor and has no effect on the state.
\<close>

section \<open>State\<close>

definition PROCESS_NAME_MAX :: nat where "PROCESS_NAME_MAX = 32"
definition PROCESS_STACK_SIZE :: nat where "PROCESS_STACK_SIZE = 0x100000"
definition MAX_PROCESSES :: nat where "MAX_PROCESSES = 16"
definition PROGRAM_LOAD_BASE :: u64 where "PROGRAM_LOAD_BASE = 0x44000000"

datatype proc_state = PROC_STATE_FREE | PROC_STATE_READY | PROC_STATE_RUNNING | PROC_STATE_BLOCKED | PROC_STATE_ZOMBIE

record proc_context =
  ctx_x :: "nat \<Rightarrow> u64"
  ctx_sp :: u64
  ctx_pc :: u64
  ctx_pstate :: u64

record process =
  proc_pid :: int
  proc_name :: "nat \<Rightarrow> byte"
  proc_state :: proc_state
  load_base :: u64
  load_size :: u64
  stack_base :: ptr
  stack_size :: nat
  proc_entry :: u64
  proc_ctx :: proc_context
  exit_status :: int
  parent_pid :: int

text \<open>The last two fields are addresses that the linker fixes: the entry wrapper and the table of kernel functions.\<close>

record procs =
  pheap :: kheap
  files :: compat
  randomness :: aslr
  proc_table :: "nat \<Rightarrow> process"
  current_pid :: int
  next_pid :: int
  current_process :: "nat option"
  kernel_context :: proc_context
  program_base :: u64
  next_load_addr :: u64
  entry_wrapper :: u64
  kapi :: u64

datatype outcome = Return | Idle | Switch proc_context

definition set_proc :: "procs \<Rightarrow> nat \<Rightarrow> (process \<Rightarrow> process) \<Rightarrow> procs" where
  "set_proc s i f = s\<lparr>proc_table := (proc_table s)(i := f (proc_table s i))\<rparr>"

definition zero_ctx :: proc_context where
  "zero_ctx = \<lparr>ctx_x = (\<lambda>_. 0), ctx_sp = 0, ctx_pc = 0, ctx_pstate = 0\<rparr>"

definition ALIGN_64K :: "u64 \<Rightarrow> u64" where
  "ALIGN_64K x = (x + 0xFFFF) AND NOT 0xFFFF"

section \<open>The table\<close>

definition process_init :: "procs \<Rightarrow> procs" where
  "process_init s =
     s\<lparr>proc_table := (\<lambda>i. if i < MAX_PROCESSES
         then (proc_table s i)\<lparr>proc_state := PROC_STATE_FREE, proc_pid := 0, proc_ctx := zero_ctx\<rparr> else proc_table s i),
       current_pid := - 1, current_process := None, next_pid := 1,
       program_base := ALIGN_64K PROGRAM_LOAD_BASE, next_load_addr := ALIGN_64K PROGRAM_LOAD_BASE\<rparr>"

definition find_free_slot_unlocked :: "procs \<Rightarrow> nat option" where
  "find_free_slot_unlocked s = List.find (\<lambda>i. proc_state (proc_table s i) = PROC_STATE_FREE) [0..<MAX_PROCESSES]"

definition process_current :: "procs \<Rightarrow> nat option" where
  "process_current s = (if current_pid s < 0 then None else Some (nat (current_pid s)))"

definition process_get :: "procs \<Rightarrow> int \<Rightarrow> nat option" where
  "process_get s pid =
     List.find (\<lambda>i. proc_pid (proc_table s i) = pid \<and> proc_state (proc_table s i) \<noteq> PROC_STATE_FREE) [0..<MAX_PROCESSES]"

definition process_count_ready :: "procs \<Rightarrow> nat" where
  "process_count_ready s =
     length (filter (\<lambda>i. proc_state (proc_table s i) = PROC_STATE_READY \<or> proc_state (proc_table s i) = PROC_STATE_RUNNING)
       [0..<MAX_PROCESSES])"

text \<open>The results are the memory, the return value and what is stored through the last argument.\<close>

definition process_get_info :: "procs \<Rightarrow> int \<Rightarrow> ptr \<Rightarrow> int \<Rightarrow> (mem \<times> int \<times> proc_state option) option" where
  "process_get_info s index name name_size =
     (let m = kbytes (pheap s); p = proc_table s (nat index)
      in if index < 0 \<or> index \<ge> int MAX_PROCESSES then Some (m, 0, None)
         else if proc_state p = PROC_STATE_FREE then Some (m, 0, None)
         else case name of
           Some d \<Rightarrow>
             if name_size > 0
             then do {
               n \<leftarrow> strlen (proc_name p) 0;
               let n = (if int n \<ge> name_size then nat (name_size - 1) else n);
               Some (write_bytes m d (read_bytes (proc_name p) 0 n @ [0]), 1, Some (proc_state p))
             }
             else Some (m, 1, Some (proc_state p))
         | None \<Rightarrow> Some (m, 1, Some (proc_state p)))"

section \<open>Creation\<close>

definition reserve_slot :: "procs \<Rightarrow> procs \<times> nat option" where
  "reserve_slot s =
     (case find_free_slot_unlocked s of
        None \<Rightarrow> (s, None)
      | Some slot \<Rightarrow> ((set_proc s slot (\<lambda>p. p\<lparr>proc_state := PROC_STATE_READY, proc_pid := next_pid s\<rparr>))
                        \<lparr>next_pid := next_pid s + 1\<rparr>, Some slot))"

text \<open>The name is copied into the array of the structure; the array behaves as memory from address 0 on.\<close>

definition copy_proc_name :: "(nat \<Rightarrow> byte) \<Rightarrow> mem \<Rightarrow> addr \<Rightarrow> (nat \<Rightarrow> byte)" where
  "copy_proc_name name m path =
     (\<lambda>i. if i < PROCESS_NAME_MAX - 1 then (if \<exists>k \<le> i. m (path + k) = 0 then 0 else m (path + i))
          else if i = PROCESS_NAME_MAX - 1 then 0 else name i)"

definition initial_context :: "procs \<Rightarrow> u64 \<Rightarrow> addr \<Rightarrow> int \<Rightarrow> u64 \<Rightarrow> proc_context" where
  "initial_context s entry stack argc argv =
     (let stack_top = (of_nat stack + of_nat PROCESS_STACK_SIZE) AND NOT 0xF
      in \<lparr>ctx_x = (ctx_x zero_ctx)(19 := entry, 20 := kapi s, 21 := of_int argc, 22 := argv),
          ctx_sp = stack_top, ctx_pc = entry_wrapper s, ctx_pstate = 0x3c5\<rparr>)"

definition setup_process :: "procs \<Rightarrow> nat \<Rightarrow> addr \<Rightarrow> elf_load_info \<Rightarrow> int \<Rightarrow> u64 \<Rightarrow> (procs \<times> int) option" where
  "setup_process s slot path info argc argv =
     do {
       let s = (set_proc s slot (\<lambda>p. p\<lparr>proc_pid := next_pid s, proc_name := copy_proc_name (proc_name p) (kbytes (pheap s)) path,
           proc_state := PROC_STATE_READY, load_base := info_base info, load_size := info_size info, proc_entry := info_entry info,
           parent_pid := current_pid s, exit_status := 0, stack_size := PROCESS_STACK_SIZE\<rparr>))\<lparr>next_pid := next_pid s + 1\<rparr>;
       (h, r) \<leftarrow> kmalloc (pheap s) PROCESS_STACK_SIZE 0;
       let s = set_proc (s\<lparr>pheap := h\<rparr>) slot (\<lambda>p. p\<lparr>stack_base := r\<rparr>);
       case r of
         None \<Rightarrow> Some (set_proc s slot (\<lambda>p. p\<lparr>proc_state := PROC_STATE_FREE\<rparr>), - 1)
       | Some stack \<Rightarrow>
           let s = set_proc s slot (\<lambda>p. p\<lparr>proc_ctx := initial_context s (proc_entry p) stack argc argv\<rparr>)
           in Some (s, proc_pid (proc_table s slot))
     }"

text \<open>
  From the file in memory to the process; every return releases the file. A load that writes into the heap
  has no result, see \<^const>\<open>loads_into_heap\<close>.
\<close>

definition load_program ::
    "procs \<Rightarrow> nat \<Rightarrow> addr \<Rightarrow> addr \<Rightarrow> nat \<Rightarrow> int \<Rightarrow> u64 \<Rightarrow> counters \<Rightarrow> counters \<Rightarrow> (procs \<times> int) option" where
  "load_program s slot path data sz argc argv c1 c2 =
     (if elf_calc_size (kbytes (pheap s)) data sz = 0
      then do { h \<leftarrow> kfree (pheap s) (Some data); Some (s\<lparr>pheap := h\<rparr>, - 1) }
      else do {
        let (rnd, aslr_off) = aslr_exec_offset (randomness s) c1 c2;
        let load_addr = ALIGN_64K (next_load_addr s + aslr_off);
        (m, err, info) \<leftarrow> elf_load_at (kbytes (pheap s)) data sz load_addr;
        if loads_into_heap (pheap s) m then None
        else do {
          h \<leftarrow> kfree ((pheap s)\<lparr>kbytes := m\<rparr>) (Some data);
          let s = s\<lparr>pheap := h, randomness := rnd\<rparr>;
          case (err = 0, info) of
            (True, Some info) \<Rightarrow>
              setup_process (s\<lparr>next_load_addr := ALIGN_64K (load_addr + info_size info + 0x10000)\<rparr>) slot path info argc argv
          | _ \<Rightarrow> Some (s, - 1)
        }
      })"

definition process_create :: "procs \<Rightarrow> addr \<Rightarrow> int \<Rightarrow> u64 \<Rightarrow> counters \<Rightarrow> counters \<Rightarrow> (procs \<times> int) option" where
  "process_create s path argc argv c1 c2 =
     (case reserve_slot s of
        (s, None) \<Rightarrow> Some (s, - 1)
      | (s, Some slot) \<Rightarrow>
          (case vfs_lookup (files s) (kbytes (pheap s)) path of
             (v, None) \<Rightarrow> Some (s\<lparr>files := v\<rparr>, - 1)
           | (v, Some file) \<Rightarrow>
               let s = s\<lparr>files := v\<rparr>; sz = node_size (node_pool v file)
               in if vfs_is_dir v (Some file) \<noteq> 0 then Some (s, - 1)
                  else if sz = 0 then Some (s, - 1)
                  else do {
                    (h, r) \<leftarrow> kmalloc (pheap s) sz 0;
                    let s = s\<lparr>pheap := h\<rparr>;
                    case r of
                      None \<Rightarrow> Some (s, - 1)
                    | Some data \<Rightarrow> do {
                        let (m, bytes) = vfs_read_compat v (Some file) (kbytes h) (Some data) sz 0;
                        let s = s\<lparr>pheap := h\<lparr>kbytes := m\<rparr>\<rparr>;
                        if bytes \<noteq> sint (of_nat sz :: 32 word)
                        then do { h \<leftarrow> kfree (pheap s) (Some data); Some (s\<lparr>pheap := h\<rparr>, - 1) }
                        else load_program s slot path data sz argc argv c1 c2
                      }
                  }))"

definition process_start :: "procs \<Rightarrow> int \<Rightarrow> int" where
  "process_start s pid =
     (case process_get s pid of None \<Rightarrow> - 1
      | Some i \<Rightarrow> if proc_state (proc_table s i) \<noteq> PROC_STATE_READY then - 1 else 0)"

section \<open>Killing\<close>

definition kill_slot :: "procs \<Rightarrow> nat \<Rightarrow> procs option" where
  "kill_slot s i =
     do {
       h \<leftarrow> (case stack_base (proc_table s i) of None \<Rightarrow> Some (pheap s) | Some b \<Rightarrow> kfree (pheap s) (Some b));
       Some (set_proc (s\<lparr>pheap := h\<rparr>) i (\<lambda>p. p\<lparr>stack_base := None, proc_state := PROC_STATE_FREE, proc_pid := 0\<rparr>))
     }"

text \<open>The work stack is a list with its top in front.\<close>

fun scan_children :: "procs \<Rightarrow> int \<Rightarrow> nat list \<Rightarrow> int list \<Rightarrow> (procs \<times> int list) option" where
  "scan_children s parent [] work = Some (s, work)"
| "scan_children s parent (i # is) work =
     (let p = proc_table s i
      in if proc_state p \<noteq> PROC_STATE_FREE \<and> parent_pid p = parent
         then let work = (if length work < MAX_PROCESSES then proc_pid p # work else work)
              in if int i \<noteq> current_pid s
                 then do { s \<leftarrow> kill_slot s i; scan_children s parent is work }
                 else scan_children s parent is work
         else scan_children s parent is work)"

partial_function (option) kill_loop :: "procs \<Rightarrow> int list \<Rightarrow> procs option" where
  "kill_loop s work =
     (case work of [] \<Rightarrow> Some s
      | parent # rest \<Rightarrow> do { (s, work) \<leftarrow> scan_children s parent [0..<MAX_PROCESSES] rest; kill_loop s work })"

definition kill_children :: "procs \<Rightarrow> int \<Rightarrow> procs option" where
  "kill_children s pid = kill_loop s [pid]"

definition process_kill :: "procs \<Rightarrow> int \<Rightarrow> (procs \<times> int) option" where
  "process_kill s pid =
     (if pid \<le> 0 then Some (s, - 1)
      else case process_get s pid of
        None \<Rightarrow> Some (s, - 1)
      | Some slot \<Rightarrow>
          if int slot = current_pid s then Some (s, - 1)
          else do { s \<leftarrow> kill_children s pid; s \<leftarrow> kill_slot s slot; Some (s, 0) })"

definition process_exit :: "procs \<Rightarrow> proc_context \<Rightarrow> int \<Rightarrow> (procs \<times> outcome) option" where
  "process_exit s regs status =
     (if current_pid s < 0 then Some (s, Return)
      else do {
        let slot = nat (current_pid s);
        s \<leftarrow> kill_children s (proc_pid (proc_table s slot));
        let s = (set_proc s slot (\<lambda>p. p\<lparr>exit_status := status, proc_state := PROC_STATE_FREE\<rparr>))
              \<lparr>current_pid := - 1, current_process := None\<rparr>;
        if ctx_pc (kernel_context s) = 0 \<or> ctx_sp (kernel_context s) = 0 then None
        else Some (set_proc s slot (\<lambda>p. p\<lparr>proc_ctx := regs\<rparr>), Switch (kernel_context s))
      })"

section \<open>Scheduling\<close>

text \<open>The slots in the order in which both schedulers look at them.\<close>

definition ring :: "int \<Rightarrow> nat list" where
  "ring old = map (\<lambda>i. ((if old \<ge> 0 then nat old + 1 else 0) + i) mod MAX_PROCESSES) [0..<MAX_PROCESSES]"

definition save_context :: "procs \<Rightarrow> int \<Rightarrow> proc_context \<Rightarrow> procs" where
  "save_context s old regs =
     (if old \<ge> 0 then set_proc s (nat old) (\<lambda>p. p\<lparr>proc_ctx := regs\<rparr>) else s\<lparr>kernel_context := regs\<rparr>)"

definition process_schedule :: "procs \<Rightarrow> proc_context \<Rightarrow> procs \<times> outcome" where
  "process_schedule s regs =
     (let old = current_pid s; old_state = proc_state (proc_table s (nat old))
      in case List.find (\<lambda>i. proc_state (proc_table s i) = PROC_STATE_READY) (ring old) of
           None \<Rightarrow>
             if old \<ge> 0 \<and> old_state = PROC_STATE_RUNNING then (s, Return)
             else if old \<ge> 0
             then (save_context (s\<lparr>current_pid := - 1, current_process := None\<rparr>) old regs, Switch (kernel_context s))
             else (s, Idle)
         | Some n \<Rightarrow>
             if int n = old \<and> old_state = PROC_STATE_RUNNING then (s, Return)
             else if int n = old \<and> old_state = PROC_STATE_READY
             then (set_proc s n (\<lambda>p. p\<lparr>proc_state := PROC_STATE_RUNNING\<rparr>), Idle)
             else
               let s = (if old \<ge> 0 \<and> old_state = PROC_STATE_RUNNING
                        then set_proc s (nat old) (\<lambda>p. p\<lparr>proc_state := PROC_STATE_READY\<rparr>) else s);
                   s = (set_proc s n (\<lambda>p. p\<lparr>proc_state := PROC_STATE_RUNNING\<rparr>))\<lparr>current_pid := int n, current_process := Some n\<rparr>
               in (save_context s old regs, Switch (proc_ctx (proc_table s n))))"

definition process_yield :: "procs \<Rightarrow> proc_context \<Rightarrow> procs \<times> outcome" where
  "process_yield s regs =
     process_schedule (if current_pid s \<ge> 0 then set_proc s (nat (current_pid s)) (\<lambda>p. p\<lparr>proc_state := PROC_STATE_READY\<rparr>) else s) regs"

fun irq_scan :: "procs \<Rightarrow> nat list \<Rightarrow> procs" where
  "irq_scan s [] = s"
| "irq_scan s (i # is) =
     (let old = current_pid s; p = proc_table s i
      in if proc_state p = PROC_STATE_READY
         then if int i \<noteq> old
              then if ctx_sp (proc_ctx p) = 0 \<or> ctx_pc (proc_ctx p) = 0 then irq_scan s is
                   else let s = (if old \<ge> 0 \<and> proc_state (proc_table s (nat old)) = PROC_STATE_RUNNING
                                 then set_proc s (nat old) (\<lambda>p. p\<lparr>proc_state := PROC_STATE_READY\<rparr>) else s)
                        in (set_proc s i (\<lambda>p. p\<lparr>proc_state := PROC_STATE_RUNNING\<rparr>))\<lparr>current_pid := int i, current_process := Some i\<rparr>
              else s
         else irq_scan s is)"

definition process_schedule_from_irq :: "procs \<Rightarrow> procs" where
  "process_schedule_from_irq s =
     (let ready_count = process_count_ready s
      in if current_pid s \<ge> 0 \<and> ready_count \<le> 1 then s
         else if current_pid s < 0 \<and> ready_count = 0 then s
         else irq_scan s (ring (current_pid s)))"

text \<open>
  The interrupt handler in \<^verbatim>\<open>kernel/arch/arm64/boot.S\<close> around it: the registers of a process are saved before the
  call, those of the kernel after it if a process is to run. For the kernel the word saved as program counter
  is the link register.
\<close>

definition irq_handler :: "procs \<Rightarrow> proc_context \<Rightarrow> (procs \<times> outcome) option" where
  "irq_handler s regs =
     (case current_process s of
        None \<Rightarrow>
          let s = process_schedule_from_irq s
          in (case current_process s of None \<Rightarrow> Some (s, Return)
              | Some i \<Rightarrow> Some (s\<lparr>kernel_context := regs\<lparr>ctx_pc := ctx_x regs 30\<rparr>\<rparr>, Switch (proc_ctx (proc_table s i))))
      | Some old \<Rightarrow>
          let s = process_schedule_from_irq (set_proc s old (\<lambda>p. p\<lparr>proc_ctx := regs\<rparr>))
          in (case current_process s of None \<Rightarrow> None | Some i \<Rightarrow> Some (s, Switch (proc_ctx (proc_table s i)))))"

section \<open>Executing and waiting\<close>

text \<open>
  \<open>process_exec_args\<close> up to its wait loop, which calls \<open>process_schedule\<close> until the poll gives the status.
\<close>

definition exec_begin :: "procs \<Rightarrow> addr \<Rightarrow> int \<Rightarrow> u64 \<Rightarrow> counters \<Rightarrow> counters \<Rightarrow> (procs \<times> (int + nat)) option" where
  "exec_begin s path argc argv c1 c2 =
     do {
       (s, pid) \<leftarrow> process_create s path argc argv c1 c2;
       if pid < 0 then Some (s, Inl pid)
       else case List.find (\<lambda>i. proc_pid (proc_table s i) = pid) [0..<MAX_PROCESSES] of
         None \<Rightarrow> Some (s, Inl (- 1))
       | Some slot \<Rightarrow> Some (s, Inr slot)
     }"

definition exec_poll :: "procs \<Rightarrow> nat \<Rightarrow> int option" where
  "exec_poll s slot =
     (if proc_state (proc_table s slot) \<noteq> PROC_STATE_FREE \<and> proc_state (proc_table s slot) \<noteq> PROC_STATE_ZOMBIE then None
      else Some (exit_status (proc_table s slot)))"

end
