(* ===== verification/Process_Spec.thy ===== *)
theory Process_Spec
  imports Process
begin

text \<open>
  Correctness of the process table: an invariant that every operation keeps, what killing does to the tree
  of processes, round-robin scheduling, and the limits of process creation.
\<close>

section \<open>The invariant\<close>

abbreviation active :: "procs \<Rightarrow> nat \<Rightarrow> bool" where
  "active s i \<equiv> proc_state (proc_table s i) \<noteq> PROC_STATE_FREE"

abbreviation pid_of :: "procs \<Rightarrow> nat \<Rightarrow> int" where
  "pid_of s i \<equiv> proc_pid (proc_table s i)"

abbreviation parent_of :: "procs \<Rightarrow> nat \<Rightarrow> int" where
  "parent_of s i \<equiv> parent_pid (proc_table s i)"

text \<open>Process numbers only grow and are larger than the slot; a stack belongs to one slot and is a block of the heap.\<close>

definition table_pids_ok :: "procs \<Rightarrow> bool" where
  "table_pids_ok s \<longleftrightarrow> 0 < next_pid s \<and>
     (\<forall>i < MAX_PROCESSES. 0 \<le> pid_of s i \<and> pid_of s i < next_pid s \<and> parent_of s i < next_pid s \<and>
        (active s i \<longrightarrow> int i < pid_of s i \<and> parent_of s i < pid_of s i)) \<and>
     (\<forall>i < MAX_PROCESSES. \<forall>j < MAX_PROCESSES. i \<noteq> j \<and> pid_of s i = pid_of s j \<longrightarrow> pid_of s i = 0)"

definition stacks_ok :: "procs \<Rightarrow> bool" where
  "stacks_ok s \<longleftrightarrow> heap_inv (pheap s) \<and>
     (\<forall>i < MAX_PROCESSES. \<forall>b. stack_base (proc_table s i) = Some b \<longrightarrow> (\<exists>n \<ge> PROCESS_STACK_SIZE. (b, n) \<in> live (pheap s))) \<and>
     (\<forall>i < MAX_PROCESSES. \<forall>j < MAX_PROCESSES. i \<noteq> j \<and> stack_base (proc_table s i) \<noteq> None \<longrightarrow>
        stack_base (proc_table s i) \<noteq> stack_base (proc_table s j))"

definition current_ok :: "procs \<Rightarrow> bool" where
  "current_ok s \<longleftrightarrow>
     (current_pid s = - 1 \<and> current_process s = None \<or>
      (\<exists>c < MAX_PROCESSES. current_pid s = int c \<and> current_process s = Some c \<and> proc_state (proc_table s c) = PROC_STATE_RUNNING)) \<and>
     (\<forall>i < MAX_PROCESSES. proc_state (proc_table s i) = PROC_STATE_RUNNING \<longrightarrow> current_pid s = int i) \<and>
     (\<forall>i < MAX_PROCESSES. proc_state (proc_table s i) \<in> {PROC_STATE_FREE, PROC_STATE_READY, PROC_STATE_RUNNING})"

definition proc_inv :: "procs \<Rightarrow> bool" where
  "proc_inv s \<longleftrightarrow> table_pids_ok s \<and> stacks_ok s \<and> current_ok s"

abbreviation not_running :: "procs \<Rightarrow> nat \<Rightarrow> bool" where
  "not_running s i \<equiv> proc_state (proc_table s i) \<in> {PROC_STATE_FREE, PROC_STATE_READY}"

lemma current_ok_kernel:
  "current_pid s = - 1 \<Longrightarrow> current_process s = None \<Longrightarrow> (\<And>i. i < MAX_PROCESSES \<Longrightarrow> not_running s i) \<Longrightarrow> current_ok s"
  unfolding current_ok_def by fastforce

lemma current_ok_process:
  "current_pid s = int c \<Longrightarrow> current_process s = Some c \<Longrightarrow> c < MAX_PROCESSES \<Longrightarrow> proc_state (proc_table s c) = PROC_STATE_RUNNING \<Longrightarrow>
     (\<And>i. i < MAX_PROCESSES \<Longrightarrow> i \<noteq> c \<Longrightarrow> not_running s i) \<Longrightarrow> current_ok s"
  unfolding current_ok_def by fastforce

lemma current_ok_cases:
  assumes "current_ok s"
  obtains (kernel) "current_pid s = - 1" "current_process s = None" "\<And>i. i < MAX_PROCESSES \<Longrightarrow> not_running s i"
  | (process) c where "current_pid s = int c" "current_process s = Some c" "c < MAX_PROCESSES" "proc_state (proc_table s c) = PROC_STATE_RUNNING"
      "\<And>i. i < MAX_PROCESSES \<Longrightarrow> i \<noteq> c \<Longrightarrow> not_running s i"
proof -
  have states: "not_running s i \<or> current_pid s = int i" if "i < MAX_PROCESSES" for i
    using assms that unfolding current_ok_def by (metis insert_iff)
  from assms [unfolded current_ok_def, THEN conjunct1] consider "current_pid s = - 1" "current_process s = None"
    | c where "c < MAX_PROCESSES" "current_pid s = int c" "current_process s = Some c" "proc_state (proc_table s c) = PROC_STATE_RUNNING"
    by (elim disjE exE conjE) blast+
  then show ?thesis
  proof cases
    case 1
    then show ?thesis by (intro kernel) (use states in fastforce)+
  next
    case (2 c)
    then show ?thesis by (intro process [of c]) (use states in fastforce)+
  qed
qed

lemma set_proc_get [simp]:
  "proc_table (set_proc s i f) j = (if j = i then f (proc_table s i) else proc_table s j)"
  "pheap (set_proc s i f) = pheap s" "files (set_proc s i f) = files s" "current_pid (set_proc s i f) = current_pid s"
  "next_pid (set_proc s i f) = next_pid s" "current_process (set_proc s i f) = current_process s"
  "kernel_context (set_proc s i f) = kernel_context s" "next_load_addr (set_proc s i f) = next_load_addr s"
  "randomness (set_proc s i f) = randomness s" "kapi (set_proc s i f) = kapi s" "entry_wrapper (set_proc s i f) = entry_wrapper s"
  by (simp_all add: set_proc_def)

section \<open>Killing descendants\<close>

text \<open>A slot whose process was killed.\<close>

definition killed :: "process \<Rightarrow> process" where
  "killed p = p\<lparr>stack_base := None, proc_state := PROC_STATE_FREE, proc_pid := 0\<rparr>"

text \<open>The slots that the search below a process number reaches.\<close>

inductive_set descendants :: "procs \<Rightarrow> int \<Rightarrow> nat set" for s p where
  child: "i < MAX_PROCESSES \<Longrightarrow> active s i \<Longrightarrow> parent_of s i = p \<Longrightarrow> i \<in> descendants s p"
| deeper: "i \<in> descendants s p \<Longrightarrow> j < MAX_PROCESSES \<Longrightarrow> active s j \<Longrightarrow> parent_of s j = pid_of s i \<Longrightarrow> j \<in> descendants s p"

lemma descendants_active: "i \<in> descendants s p \<Longrightarrow> i < MAX_PROCESSES \<and> active s i"
  by (induction rule: descendants.induct) auto

lemma descendants_newer:
  assumes "table_pids_ok s" and "i \<in> descendants s p"
  shows "p < pid_of s i"
  using assms(2)
proof (induction rule: descendants.induct)
  case (child i)
  with assms(1) show ?case by (auto simp: table_pids_ok_def)
next
  case (deeper i j)
  with assms(1) have "parent_of s j < pid_of s j" by (auto simp: table_pids_ok_def)
  with deeper show ?case by simp
qed

text \<open>The blocks that hold the stacks of some slots.\<close>

definition stack_blocks :: "procs \<Rightarrow> nat set \<Rightarrow> (addr \<times> nat) set" where
  "stack_blocks s K = {(b, n) \<in> live (pheap s). \<exists>i \<in> K. stack_base (proc_table s i) = Some b}"

text \<open>\<open>t\<close> is \<open>s\<close> after the processes in the slots \<open>K\<close> were killed.\<close>

definition kill_all :: "procs \<Rightarrow> nat set \<Rightarrow> kheap \<Rightarrow> procs" where
  "kill_all s K h = s\<lparr>pheap := h, proc_table := (\<lambda>i. if i \<in> K then killed (proc_table s i) else proc_table s i)\<rparr>"

definition heap_without :: "procs \<Rightarrow> nat set \<Rightarrow> kheap \<Rightarrow> bool" where
  "heap_without s K h \<longleftrightarrow> heap_inv h \<and> live h = live (pheap s) - stack_blocks s K \<and> kbytes h = kbytes (pheap s) \<and>
     heap_start h = heap_start (pheap s) \<and> heap_end h = heap_end (pheap s)"

lemma kill_all_get [simp]:
  "proc_table (kill_all s K h) i = (if i \<in> K then killed (proc_table s i) else proc_table s i)"
  "pheap (kill_all s K h) = h" "current_pid (kill_all s K h) = current_pid s" "next_pid (kill_all s K h) = next_pid s"
  "current_process (kill_all s K h) = current_process s" "files (kill_all s K h) = files s"
  "kernel_context (kill_all s K h) = kernel_context s"
  by (simp_all add: kill_all_def)

lemma kill_all_insert: "i \<notin> K \<Longrightarrow> set_proc ((kill_all s K h)\<lparr>pheap := h'\<rparr>) i killed = kill_all s (insert i K) h'"
  by (simp add: set_proc_def kill_all_def fun_eq_iff)

lemma kill_all_none: "kill_all s {} (pheap s) = s"
  by (simp add: kill_all_def)

lemma heap_without_none: "heap_inv (pheap s) \<Longrightarrow> heap_without s {} (pheap s)"
  by (simp add: heap_without_def stack_blocks_def)

lemma kill_slot_after:
  assumes h: "heap_without s K h" and s: "stacks_ok s" and i: "i < MAX_PROCESSES" "i \<notin> K" and K: "K \<subseteq> {..<MAX_PROCESSES}"
  shows "\<exists>h'. kill_slot (kill_all s K h) i = Some (kill_all s (insert i K) h') \<and> heap_without s (insert i K) h'"
proof (cases "stack_base (proc_table s i)")
  case None
  then have "stack_blocks s (insert i K) = stack_blocks s K"
    by (auto simp: stack_blocks_def)
  then have "heap_without s (insert i K) h"
    using h by (simp add: heap_without_def)
  moreover have "kill_slot (kill_all s K h) i = Some (kill_all s (insert i K) h)"
    using None i(2) kill_all_insert [OF i(2), where s = s and h = h and h' = h] by (simp add: kill_slot_def killed_def [abs_def])
  ultimately show ?thesis by blast
next
  case (Some b)
  then obtain n where n: "(b, n) \<in> live (pheap s)"
    using s i(1) unfolding stacks_ok_def by blast
  have "stack_base (proc_table s j) \<noteq> Some b" if "j \<in> K" for j
    using s Some i K that unfolding stacks_ok_def by (metis lessThan_iff option.distinct(1) subsetD)
  then have "(b, n) \<notin> stack_blocks s K"
    by (auto simp: stack_blocks_def)
  with n h have hv: "heap_inv h" "(b, n) \<in> live h"
    by (simp_all add: heap_without_def)
  obtain h' where h': "kfree h (Some b) = Some h'" "heap_inv h'"
      "live h' = live h - {(b, n)}" "kbytes h' = kbytes h" "bmagic (hdr h' (data_to_block b)) = BLOCK_MAGIC_FREE"
      "heap_start h' = heap_start h" "heap_end h' = heap_end h"
      "heap_total h' = heap_total h" "kheap_used h' + (n + header_size) = kheap_used h"
    by (rule kfree_live [OF hv])
  have "n = k" if "(b, k) \<in> live (pheap s)" for k
    using live_functional [OF _ n that] s by (simp add: stacks_ok_def)
  then have "{(c, k) \<in> live (pheap s). c = b} = {(b, n)}"
    using n by blast
  moreover have "stack_blocks s (insert i K) = stack_blocks s K \<union> {(c, k) \<in> live (pheap s). c = b}"
    unfolding stack_blocks_def using Some by auto
  ultimately have "stack_blocks s (insert i K) = insert (b, n) (stack_blocks s K)"
    by simp
  then have "heap_without s (insert i K) h'"
    using h h' by (auto simp: heap_without_def)
  moreover have "kill_slot (kill_all s K h) i = Some (kill_all s (insert i K) h')"
    using Some i(2) h'(1) kill_all_insert [OF i(2), where s = s and h = h and h' = h'] by (simp add: kill_slot_def killed_def [abs_def])
  ultimately show ?thesis by blast
qed

text \<open>One pass over the table kills the children of one process and pushes their numbers.\<close>

definition children_in :: "procs \<Rightarrow> int \<Rightarrow> nat list \<Rightarrow> nat list" where
  "children_in s q is = filter (\<lambda>i. active s i \<and> parent_of s i = q) is"

lemma scan_children_result:
  assumes s: "stacks_ok s" and "heap_without s K h" and "K \<subseteq> {..<MAX_PROCESSES}"
    and "set is \<subseteq> {..<MAX_PROCESSES}" and "distinct is" and "set (children_in s q is) \<inter> K = {}"
    and "length work + length (children_in s q is) \<le> MAX_PROCESSES"
  shows "\<exists>h'. scan_children (kill_all s K h) q is work =
      Some (kill_all s (K \<union> {i \<in> set (children_in s q is). int i \<noteq> current_pid s}) h', rev (map (pid_of s) (children_in s q is)) @ work) \<and>
    heap_without s (K \<union> {i \<in> set (children_in s q is). int i \<noteq> current_pid s}) h'"
  using assms(2-)
proof (induction "is" arbitrary: K h work)
  case Nil
  then show ?case by (auto simp: children_in_def)
next
  case (Cons i "is")
  show ?case
  proof (cases "active s i \<and> parent_of s i = q")
    case True
    then have xs: "children_in s q (i # is) = i # children_in s q is"
      by (simp add: children_in_def)
    have iK: "i \<notin> K" and rest: "set (children_in s q is) \<inter> K = {}" and i: "i < MAX_PROCESSES"
      using Cons.prems by (auto simp: xs)
    have "i \<notin> set (children_in s q is)"
      using Cons.prems(4) by (auto simp: children_in_def)
    have len: "length work < MAX_PROCESSES" "length (pid_of s i # work) + length (children_in s q is) \<le> MAX_PROCESSES"
      using Cons.prems(6) by (simp_all add: xs)
    show ?thesis
    proof (cases "int i = current_pid s")
      case cur: True
      have "{j \<in> set (children_in s q (i # is)). int j \<noteq> current_pid s} = {j \<in> set (children_in s q is). int j \<noteq> current_pid s}"
        using cur by (auto simp: xs)
      with Cons.IH [OF Cons.prems(1,2) _ _ rest len(2)] Cons.prems(3,4) True iK len(1) cur show ?thesis
        by (simp add: xs)
    next
      case other: False
      obtain h1 where h1: "kill_slot (kill_all s K h) i = Some (kill_all s (insert i K) h1)" "heap_without s (insert i K) h1"
        using kill_slot_after [OF Cons.prems(1) s i iK Cons.prems(2)] by blast
      have "insert i K \<union> {j \<in> set (children_in s q is). int j \<noteq> current_pid s} =
          K \<union> {j \<in> set (children_in s q (i # is)). int j \<noteq> current_pid s}"
        using other by (auto simp: xs)
      moreover have "set (children_in s q is) \<inter> insert i K = {}"
        using rest \<open>i \<notin> set (children_in s q is)\<close> by simp
      ultimately show ?thesis
        using Cons.IH [OF h1(2) _ _ _ _ len(2)] Cons.prems(2-4) i True iK len(1) other h1(1) by (simp add: xs)
    qed
  next
    case False
    then have xs: "children_in s q (i # is) = children_in s q is"
      by (auto simp: children_in_def)
    have "\<not> (proc_state (proc_table (kill_all s K h) i) \<noteq> PROC_STATE_FREE \<and> parent_pid (proc_table (kill_all s K h) i) = q)"
      using False by (simp add: killed_def)
    then have "scan_children (kill_all s K h) q (i # is) work = scan_children (kill_all s K h) q is work"
      by (simp only: scan_children.simps Let_def if_False)
    then show ?thesis
      using Cons.IH [OF Cons.prems(1,2) _ _ Cons.prems(5,6) [unfolded xs]] Cons.prems(3,4) by (simp add: xs)
  qed
qed

text \<open>
  The search: \<open>D\<close> are the process numbers that were taken from the work stack, and the slots found so far are
  exactly the children of those.
\<close>

definition found_below :: "procs \<Rightarrow> int set \<Rightarrow> nat set" where
  "found_below s D = {i. i < MAX_PROCESSES \<and> active s i \<and> parent_of s i \<in> D}"

lemma finite_found [simp]: "finite (found_below s D)"
  by (simp add: found_below_def)

lemma found_insert: "found_below s (insert q D) = found_below s D \<union> set (children_in s q [0..<MAX_PROCESSES])"
  by (auto simp: found_below_def children_in_def)

lemma pid_unique:
  "table_pids_ok s \<Longrightarrow> i < MAX_PROCESSES \<Longrightarrow> j < MAX_PROCESSES \<Longrightarrow> active s i \<Longrightarrow> pid_of s i = pid_of s j \<Longrightarrow> i = j"
  unfolding table_pids_ok_def by (metis less_le_not_le of_nat_0_le_iff order_less_le_trans)

text \<open>What holds between two passes: the numbers on the work stack and in \<open>D\<close> are the root and the found slots.\<close>

definition search_ok :: "procs \<Rightarrow> int \<Rightarrow> int set \<Rightarrow> int list \<Rightarrow> bool" where
  "search_ok s p D work \<longleftrightarrow> distinct work \<and> set work \<inter> D = {} \<and>
     set work \<union> D = insert p (pid_of s ` found_below s D) \<and> found_below s D \<subseteq> descendants s p \<and> (p \<in> D \<or> work = [p])"

lemma search_start: "search_ok s p {} [p]"
  by (simp add: search_ok_def found_below_def)

lemma search_end:
  assumes "search_ok s p D []"
  shows "found_below s D = descendants s p"
proof -
  have D: "D = insert p (pid_of s ` found_below s D)"
    using assms by (simp add: search_ok_def)
  have "i \<in> found_below s D" if "i \<in> descendants s p" for i
    using that
  proof (induction rule: descendants.induct)
    case (child i)
    then show ?case using D by (auto simp: found_below_def)
  next
    case (deeper i j)
    then have "pid_of s i \<in> D" using D by blast
    with deeper show ?case by (simp add: found_below_def)
  qed
  with assms show ?thesis
    by (auto simp: search_ok_def)
qed

lemma search_step:
  assumes ok: "search_ok s p D (q # rest)" and pids: "table_pids_ok s"
  defines "xs \<equiv> children_in s q [0..<MAX_PROCESSES]"
  shows "set xs \<inter> found_below s D = {}" and "length rest + length xs \<le> MAX_PROCESSES"
    and "search_ok s p (insert q D) (rev (map (pid_of s) xs) @ rest)"
proof -
  let ?F = "found_below s D"
  have q: "q \<notin> D" "q \<in> insert p (pid_of s ` ?F)" and rest: "set rest \<union> D \<subseteq> insert p (pid_of s ` ?F)" "distinct rest" "q \<notin> set rest" "set rest \<inter> D = {}"
    and sub: "?F \<subseteq> descendants s p"
    using ok by (auto simp: search_ok_def)
  have xs: "i < MAX_PROCESSES \<and> active s i \<and> parent_of s i = q" if "i \<in> set xs" for i
    using that by (auto simp: xs_def children_in_def)
  have dist: "distinct xs"
    by (simp add: xs_def children_in_def)
  show disj: "set xs \<inter> ?F = {}"
    using xs q(1) by (auto simp: found_below_def)
  have desc: "set xs \<subseteq> descendants s p"
    using xs q(2) sub descendants.intros by blast
  have new: "pid_of s i \<notin> insert p (pid_of s ` ?F)" if i: "i \<in> set xs" for i
  proof -
    have "p < pid_of s i"
      using descendants_newer [OF pids] desc i by blast
    moreover have "pid_of s i \<noteq> pid_of s j" if "j \<in> ?F" for j
      using pid_unique [OF pids, of i j] xs [OF i] that disj i by (auto simp: found_below_def)
    ultimately show ?thesis by auto
  qed
  have inj: "inj_on (pid_of s) (set xs)"
    using pid_unique [OF pids] xs by (blast intro: inj_onI)
  have card: "card (?F \<union> set xs) \<le> MAX_PROCESSES"
    using card_mono [of "{..<MAX_PROCESSES}" "?F \<union> set xs"] xs by (auto simp: found_below_def)
  have "length rest \<le> card ?F"
  proof (cases "p \<in> D")
    case True
    then have "set rest \<subseteq> pid_of s ` ?F"
      using rest(1,4) by auto
    then have "card (set rest) \<le> card (pid_of s ` ?F)"
      by (intro card_mono) simp_all
    with card_image_le [of ?F "pid_of s"] rest(2) show ?thesis
      by (simp add: distinct_card)
  next
    case False
    with ok show ?thesis by (simp add: search_ok_def)
  qed
  with card show "length rest + length xs \<le> MAX_PROCESSES"
    using card_Un_disjoint [of ?F "set xs"] disj distinct_card [OF dist] by (simp add: Int_commute)
  have q_new: "pid_of s i \<noteq> q" if "i \<in> set xs" for i
    using pids xs [OF that] by (auto simp: table_pids_ok_def)
  have "set rest \<union> insert q D = insert p (pid_of s ` ?F)"
    using ok by (auto simp: search_ok_def)
  moreover have "p \<in> insert q D"
    using ok by (auto simp: search_ok_def)
  ultimately show "search_ok s p (insert q D) (rev (map (pid_of s) xs) @ rest)"
    unfolding search_ok_def found_insert xs_def [symmetric] image_Un
    using dist inj rest new q_new sub desc by (auto simp: distinct_map)
qed

definition victims :: "procs \<Rightarrow> nat set \<Rightarrow> nat set" where
  "victims s F = {i \<in> F. int i \<noteq> current_pid s}"

lemma kill_loop_result:
  assumes pids: "table_pids_ok s" and stacks: "stacks_ok s"
  shows "search_ok s p D work \<Longrightarrow> heap_without s (victims s (found_below s D)) h \<Longrightarrow>
    \<exists>h'. kill_loop (kill_all s (victims s (found_below s D)) h) work = Some (kill_all s (victims s (descendants s p)) h') \<and>
      heap_without s (victims s (descendants s p)) h'"
proof (induction "MAX_PROCESSES + 1 - card D" arbitrary: D work h rule: less_induct)
  case less
  show ?case
  proof (cases work)
    case Nil
    then have "found_below s D = descendants s p"
      using less.prems(1) search_end by simp
    with less.prems(2) Nil show ?thesis
      by (intro exI [of _ h]) (simp add: kill_loop.simps)
  next
    case (Cons q rest)
    let ?F = "found_below s D" and ?xs = "children_in s q [0..<MAX_PROCESSES]"
    note step = search_step [OF less.prems(1) [unfolded Cons] pids]
    have "victims s ?F \<subseteq> {..<MAX_PROCESSES}" "set ?xs \<inter> victims s ?F = {}"
      using step(1) by (auto simp: victims_def found_below_def)
    moreover have "set [0..<MAX_PROCESSES] \<subseteq> {..<MAX_PROCESSES}"
      by auto
    ultimately obtain h' where
        h': "scan_children (kill_all s (victims s ?F) h) q [0..<MAX_PROCESSES] rest =
          Some (kill_all s (victims s ?F \<union> {i \<in> set ?xs. int i \<noteq> current_pid s}) h', rev (map (pid_of s) ?xs) @ rest)"
        "heap_without s (victims s ?F \<union> {i \<in> set ?xs. int i \<noteq> current_pid s}) h'"
      using scan_children_result [OF stacks less.prems(2) _ _ distinct_upt _ step(2)] by blast
    have eq: "victims s ?F \<union> {i \<in> set ?xs. int i \<noteq> current_pid s} = victims s (found_below s (insert q D))"
      by (auto simp: victims_def found_insert)
    have D: "q \<notin> D" "insert q D \<subseteq> insert p (pid_of s ` {..<MAX_PROCESSES})"
      using less.prems(1) unfolding Cons search_ok_def found_below_def by auto
    then have fin: "finite D"
      by (auto intro: finite_subset)
    have "card (insert q D) \<le> card (insert p (pid_of s ` {..<MAX_PROCESSES}))"
      by (intro card_mono D(2)) simp
    also have "\<dots> \<le> MAX_PROCESSES + 1"
      using card_image_le [of "{..<MAX_PROCESSES}" "pid_of s"] card_insert_le_m1 [of "MAX_PROCESSES + 1"] by simp
    finally have "MAX_PROCESSES + 1 - card (insert q D) < MAX_PROCESSES + 1 - card D"
      using D(1) fin by simp
    from less.hyps [OF this step(3) h'(2) [unfolded eq]] h'(1) show ?thesis
      unfolding Cons eq by (subst kill_loop.simps) simp
  qed
qed

lemma kill_children_result:
  assumes "table_pids_ok s" and "stacks_ok s"
  shows "\<exists>h'. kill_children s p = Some (kill_all s (victims s (descendants s p)) h') \<and>
      heap_without s (victims s (descendants s p)) h'"
proof -
  have "victims s (found_below s {}) = {}"
    by (auto simp: victims_def found_below_def)
  moreover have "heap_without s {} (pheap s)"
    using assms(2) by (intro heap_without_none) (simp add: stacks_ok_def)
  ultimately show ?thesis
    using kill_loop_result [OF assms search_start, of "pheap s" p] by (simp add: kill_children_def kill_all_none)
qed

section \<open>Every operation keeps the invariant\<close>

lemma table_pids_ok_cong:
  assumes "next_pid t = next_pid s"
    and "\<And>i. i < MAX_PROCESSES \<Longrightarrow> pid_of t i = pid_of s i \<and> parent_of t i = parent_of s i \<and> (active t i \<longrightarrow> active s i)"
  shows "table_pids_ok s \<Longrightarrow> table_pids_ok t"
  using assms unfolding table_pids_ok_def by auto

lemma stacks_ok_cong:
  assumes "pheap t = pheap s" and "\<And>i. i < MAX_PROCESSES \<Longrightarrow> stack_base (proc_table t i) = stack_base (proc_table s i)"
  shows "stacks_ok s \<Longrightarrow> stacks_ok t"
  using assms unfolding stacks_ok_def by auto

lemma stacks_ok_heap:
  assumes "stacks_ok s" and "heap_inv h" and "live (pheap s) \<subseteq> live h"
  shows "stacks_ok (s\<lparr>pheap := h\<rparr>)"
  using assms unfolding stacks_ok_def by (simp, meson subsetD)

lemma other_fields [simp]:
  "table_pids_ok (s\<lparr>pheap := h\<rparr>) = table_pids_ok s" "table_pids_ok (s\<lparr>files := v\<rparr>) = table_pids_ok s" "table_pids_ok (s\<lparr>randomness := r\<rparr>) = table_pids_ok s"
  "table_pids_ok (s\<lparr>next_load_addr := a\<rparr>) = table_pids_ok s" "table_pids_ok (s\<lparr>kernel_context := k\<rparr>) = table_pids_ok s"
  "stacks_ok (s\<lparr>files := v\<rparr>) = stacks_ok s" "stacks_ok (s\<lparr>randomness := r\<rparr>) = stacks_ok s"
  "stacks_ok (s\<lparr>next_load_addr := a\<rparr>) = stacks_ok s" "stacks_ok (s\<lparr>kernel_context := k\<rparr>) = stacks_ok s"
  "current_ok (s\<lparr>pheap := h\<rparr>) = current_ok s" "current_ok (s\<lparr>files := v\<rparr>) = current_ok s" "current_ok (s\<lparr>randomness := r\<rparr>) = current_ok s"
  "current_ok (s\<lparr>next_load_addr := a\<rparr>) = current_ok s" "current_ok (s\<lparr>kernel_context := k\<rparr>) = current_ok s"
  by (simp_all add: table_pids_ok_def stacks_ok_def current_ok_def)

subsection \<open>Killing and exit\<close>

lemma kill_all_inv:
  assumes inv: "proc_inv s" and h: "heap_without s K h" and K: "K \<subseteq> {..<MAX_PROCESSES}" "\<And>i. i \<in> K \<Longrightarrow> int i \<noteq> current_pid s"
  shows "proc_inv (kill_all s K h)"
proof -
  have "table_pids_ok (kill_all s K h)"
    using inv unfolding proc_inv_def table_pids_ok_def by (auto simp: killed_def)
  moreover have "current_ok (kill_all s K h)"
  proof -
    have "current_ok s"
      using inv by (simp add: proc_inv_def)
    then show ?thesis
    proof (cases rule: current_ok_cases)
      case kernel
      then show ?thesis by (intro current_ok_kernel) (auto simp: killed_def)
    next
      case (process c)
      then have "c \<notin> K" using K(2) by force
      with process show ?thesis by (intro current_ok_process [of _ c]) (auto simp: killed_def)
    qed
  qed
  moreover have "stacks_ok (kill_all s K h)"
  proof -
    have st: "stacks_ok s"
      using inv by (simp add: proc_inv_def)
    have "\<exists>n \<ge> PROCESS_STACK_SIZE. (b, n) \<in> live h" if i: "i < MAX_PROCESSES" "i \<notin> K" "stack_base (proc_table s i) = Some b" for i b
    proof -
      obtain n where n: "n \<ge> PROCESS_STACK_SIZE" "(b, n) \<in> live (pheap s)"
        using st i unfolding stacks_ok_def by blast
      have "stack_base (proc_table s j) \<noteq> Some b" if "j \<in> K" for j
        using st i K(1) that unfolding stacks_ok_def by (metis lessThan_iff option.distinct(1) subsetD)
      then have "(b, n) \<notin> stack_blocks s K"
        by (auto simp: stack_blocks_def)
      with n h show ?thesis
        by (auto simp: heap_without_def)
    qed
    then show ?thesis
      using st h unfolding stacks_ok_def heap_without_def by (auto simp: killed_def)
  qed
  ultimately show ?thesis
    by (simp add: proc_inv_def)
qed

lemma victims_bounds: "victims s (descendants s p) \<subseteq> {..<MAX_PROCESSES}" "i \<in> victims s F \<Longrightarrow> int i \<noteq> current_pid s"
  using descendants_active by (auto simp: victims_def)

lemma kill_children_inv:
  assumes inv: "proc_inv s"
  obtains h where "kill_children s p = Some (kill_all s (victims s (descendants s p)) h)"
    and "heap_without s (victims s (descendants s p)) h" and "proc_inv (kill_all s (victims s (descendants s p)) h)"
proof -
  obtain h where h: "kill_children s p = Some (kill_all s (victims s (descendants s p)) h)" "heap_without s (victims s (descendants s p)) h"
    using kill_children_result [of s p] inv unfolding proc_inv_def by blast
  moreover have "proc_inv (kill_all s (victims s (descendants s p)) h)"
    by (rule kill_all_inv [OF inv h(2)]) (use victims_bounds in auto)
  ultimately show ?thesis
    using that by blast
qed

lemma process_exit_inv:
  assumes inv: "proc_inv s" and run: "process_exit s regs status = Some (s', r)"
  shows "proc_inv s'"
proof (cases "current_pid s < 0")
  case True
  with inv run show ?thesis by (simp add: process_exit_def)
next
  case False
  then obtain c where c: "c < MAX_PROCESSES" "current_pid s = int c"
    using inv unfolding proc_inv_def current_ok_def by auto
  obtain h where h: "kill_children s (pid_of s c) = Some (kill_all s (victims s (descendants s (pid_of s c))) h)"
      "heap_without s (victims s (descendants s (pid_of s c))) h" "proc_inv (kill_all s (victims s (descendants s (pid_of s c))) h)"
    by (rule kill_children_inv [OF inv])
  define t where "t = kill_all s (victims s (descendants s (pid_of s c))) h"
  have t: "proc_inv t" "current_pid t = int c"
    using h(3) c(2) by (simp_all add: t_def)
  let ?t = "set_proc ((set_proc t c (\<lambda>p. p\<lparr>exit_status := status, proc_state := PROC_STATE_FREE\<rparr>))\<lparr>current_pid := - 1, current_process := None\<rparr>) c
      (\<lambda>p. p\<lparr>proc_ctx := regs\<rparr>)"
  have s': "s' = ?t"
    using run h(1) False c(2) unfolding t_def [symmetric] by (auto simp: process_exit_def Let_def split: if_splits)
  have get: "proc_table ?t i = (if i = c then (proc_table t c)\<lparr>exit_status := status, proc_state := PROC_STATE_FREE, proc_ctx := regs\<rparr> else proc_table t i)"
      "pheap ?t = pheap t" "next_pid ?t = next_pid t" "current_pid ?t = - 1" "current_process ?t = None" for i
    by (simp_all add: set_proc_def)
  have "table_pids_ok ?t"
    by (rule table_pids_ok_cong [of _ t]) (use t(1) in \<open>simp_all add: get proc_inv_def\<close>)
  moreover have "stacks_ok ?t"
    by (rule stacks_ok_cong [of _ t]) (use t(1) in \<open>simp_all add: get proc_inv_def\<close>)
  moreover have "current_ok ?t"
  proof (rule current_ok_kernel)
    show "not_running ?t i" if "i < MAX_PROCESSES" for i
      using t that unfolding get proc_inv_def by (auto elim!: current_ok_cases)
  qed (simp_all add: get)
  ultimately show ?thesis
    unfolding s' by (simp add: proc_inv_def)
qed

lemma process_get_Some: "process_get s pid = Some i \<Longrightarrow> i < MAX_PROCESSES \<and> pid_of s i = pid \<and> active s i"
  by (auto simp: process_get_def find_Some_iff)

text \<open>The whole effect of \<open>process_kill\<close>: it kills the process and everything below it.\<close>

lemma process_kill_result:
  assumes inv: "proc_inv s" and i: "process_get s pid = Some i" "int i \<noteq> current_pid s"
  obtains h where "process_kill s pid = Some (kill_all s (insert i (victims s (descendants s pid))) h, 0)"
    and "heap_without s (insert i (victims s (descendants s pid))) h" and "proc_inv (kill_all s (insert i (victims s (descendants s pid))) h)"
proof -
  let ?K = "victims s (descendants s pid)"
  have slot: "i < MAX_PROCESSES" "pid_of s i = pid" "active s i"
    using process_get_Some [OF i(1)] by auto
  obtain h where h: "kill_children s pid = Some (kill_all s ?K h)" "heap_without s ?K h"
    using kill_children_inv [OF inv] by blast
  have "i \<notin> descendants s pid"
    using descendants_newer [of s i pid] inv slot(2) by (auto simp: proc_inv_def)
  then have K: "i \<notin> ?K" "insert i ?K \<subseteq> {..<MAX_PROCESSES}"
    using slot(1) victims_bounds(1) by (auto simp: victims_def)
  obtain h' where h': "kill_slot (kill_all s ?K h) i = Some (kill_all s (insert i ?K) h')" "heap_without s (insert i ?K) h'"
    using kill_slot_after [OF h(2) _ slot(1) K(1)] inv K(2) by (auto simp: proc_inv_def)
  have "0 < pid"
    using inv slot by (force simp: proc_inv_def table_pids_ok_def)
  then have "process_kill s pid = Some (kill_all s (insert i ?K) h', 0)"
    using i h(1) h'(1) by (simp add: process_kill_def)
  moreover have "proc_inv (kill_all s (insert i ?K) h')"
    by (rule kill_all_inv [OF inv h'(2) K(2)]) (use i(2) victims_bounds(2) in auto)
  ultimately show ?thesis
    using that h'(2) by blast
qed

lemma process_kill_inv:
  assumes inv: "proc_inv s" and run: "process_kill s pid = Some (s', r)"
  shows "proc_inv s'"
proof (cases "\<exists>i. process_get s pid = Some i \<and> int i \<noteq> current_pid s")
  case True
  then obtain i where "process_get s pid = Some i" "int i \<noteq> current_pid s" by blast
  from inv this show ?thesis
    by (rule process_kill_result) (use run in simp)
next
  case False
  with inv run show ?thesis
    by (auto simp: process_kill_def split: if_splits option.splits)
qed

subsection \<open>Scheduling\<close>

definition ring_start :: "int \<Rightarrow> nat" where
  "ring_start old = (if old \<ge> 0 then nat old + 1 else 0)"

lemma length_ring [simp]: "length (ring old) = MAX_PROCESSES"
  by (simp add: ring_def)

lemma nth_ring: "k < MAX_PROCESSES \<Longrightarrow> ring old ! k = (ring_start old + k) mod MAX_PROCESSES"
  by (simp add: ring_def ring_start_def)

text \<open>Where a slot stands in the order.\<close>

definition turn :: "int \<Rightarrow> nat \<Rightarrow> nat" where
  "turn old j = (j + 15 * ring_start old) mod MAX_PROCESSES"

lemma turn_less: "turn old j < MAX_PROCESSES"
  by (simp add: turn_def MAX_PROCESSES_def)

lemma ring_turn: "j < MAX_PROCESSES \<Longrightarrow> ring old ! turn old j = j"
proof -
  assume j: "j < MAX_PROCESSES"
  have "(ring_start old + turn old j) mod MAX_PROCESSES = (j + 16 * ring_start old) mod MAX_PROCESSES"
    unfolding turn_def mod_add_right_eq by (simp add: algebra_simps)
  with j show ?thesis
    by (simp add: nth_ring [OF turn_less] MAX_PROCESSES_def)
qed

lemma set_ring [simp]: "set (ring old) = {..<MAX_PROCESSES}"
proof -
  have "j \<in> set (ring old)" if "j < MAX_PROCESSES" for j
    using ring_turn [OF that, of old] turn_less [of old j] nth_mem [of "turn old j" "ring old"] by simp
  then show ?thesis
    by (auto simp: ring_def MAX_PROCESSES_def)
qed

definition next_ready :: "procs \<Rightarrow> nat option" where
  "next_ready s = List.find (\<lambda>i. proc_state (proc_table s i) = PROC_STATE_READY) (ring (current_pid s))"

lemma next_ready_Some:
  "next_ready s = Some n \<Longrightarrow> n < MAX_PROCESSES \<and> proc_state (proc_table s n) = PROC_STATE_READY"
  unfolding next_ready_def find_Some_iff by (metis length_ring lessThan_iff nth_mem set_ring)

lemma next_ready_None: "next_ready s = None \<longleftrightarrow> (\<forall>i < MAX_PROCESSES. proc_state (proc_table s i) \<noteq> PROC_STATE_READY)"
  by (auto simp: next_ready_def find_None_iff)

text \<open>A switch only touches states, contexts and the current process.\<close>

definition only_switched :: "procs \<Rightarrow> procs \<Rightarrow> bool" where
  "only_switched s t \<longleftrightarrow> pheap t = pheap s \<and> next_pid t = next_pid s \<and> files t = files s \<and>
     (\<forall>i. pid_of t i = pid_of s i \<and> parent_of t i = parent_of s i \<and> stack_base (proc_table t i) = stack_base (proc_table s i) \<and>
        (active t i \<longleftrightarrow> active s i))"

lemma only_switched_inv: "only_switched s t \<Longrightarrow> table_pids_ok s \<Longrightarrow> stacks_ok s \<Longrightarrow> table_pids_ok t \<and> stacks_ok t"
  using table_pids_ok_cong [of t s] stacks_ok_cong [of t s] by (simp add: only_switched_def)

lemma only_switched_refl [simp]: "only_switched s s"
  by (simp add: only_switched_def)

lemma only_switched_trans: "only_switched s t \<Longrightarrow> only_switched t u \<Longrightarrow> only_switched s u"
  by (simp add: only_switched_def)

lemma only_switched_ctx [simp]: "only_switched s (set_proc s i (\<lambda>p. p\<lparr>proc_ctx := r\<rparr>))" "only_switched s (s\<lparr>kernel_context := r\<rparr>)"
  by (simp_all add: only_switched_def)

text \<open>The state of the current process is ready while it yields.\<close>

definition switchable :: "procs \<Rightarrow> bool" where
  "switchable s \<longleftrightarrow>
     (current_pid s = - 1 \<and> current_process s = None \<or>
      (\<exists>c < MAX_PROCESSES. current_pid s = int c \<and> current_process s = Some c \<and>
         proc_state (proc_table s c) \<in> {PROC_STATE_READY, PROC_STATE_RUNNING})) \<and>
     (\<forall>i < MAX_PROCESSES. int i \<noteq> current_pid s \<longrightarrow> not_running s i)"

lemma current_ok_switchable: "current_ok s \<Longrightarrow> switchable s"
  unfolding switchable_def by (erule current_ok_cases) auto

definition switched_to :: "procs \<Rightarrow> nat \<Rightarrow> proc_context \<Rightarrow> procs" where
  "switched_to s n regs =
     (let s1 = (if current_pid s \<ge> 0 \<and> proc_state (proc_table s (nat (current_pid s))) = PROC_STATE_RUNNING
                then set_proc s (nat (current_pid s)) (\<lambda>p. p\<lparr>proc_state := PROC_STATE_READY\<rparr>) else s)
      in save_context ((set_proc s1 n (\<lambda>p. p\<lparr>proc_state := PROC_STATE_RUNNING\<rparr>))\<lparr>current_pid := int n, current_process := Some n\<rparr>)
           (current_pid s) regs)"

lemma process_schedule_eq:
  "fst (process_schedule s regs) =
     (case next_ready s of
        None \<Rightarrow> if current_pid s \<ge> 0 \<and> proc_state (proc_table s (nat (current_pid s))) = PROC_STATE_RUNNING then s
          else if current_pid s \<ge> 0 then save_context (s\<lparr>current_pid := - 1, current_process := None\<rparr>) (current_pid s) regs else s
      | Some n \<Rightarrow> if int n = current_pid s \<and> proc_state (proc_table s (nat (current_pid s))) = PROC_STATE_RUNNING then s
          else if int n = current_pid s \<and> proc_state (proc_table s (nat (current_pid s))) = PROC_STATE_READY
          then set_proc s n (\<lambda>p. p\<lparr>proc_state := PROC_STATE_RUNNING\<rparr>)
          else switched_to s n regs)"
  by (auto simp: process_schedule_def next_ready_def switched_to_def Let_def split: option.split)

lemma schedule_switches:
  assumes nxt: "next_ready s = Some n" and s: "switchable s" and t_def: "t = fst (process_schedule s regs)"
  shows "current_pid t = int n" and "current_process t = Some n" and "only_switched s t"
    and "proc_state (proc_table t i) = (if i = n then PROC_STATE_RUNNING else if int i = current_pid s then PROC_STATE_READY
           else proc_state (proc_table s i))"
proof -
  have n: "n < MAX_PROCESSES" "proc_state (proc_table s n) = PROC_STATE_READY"
    using next_ready_Some [OF nxt] by auto
  note defs = t_def process_schedule_eq nxt switched_to_def Let_def save_context_def
  have "(current_pid t = int n \<and> current_process t = Some n \<and> only_switched s t) \<and>
    proc_state (proc_table t i) = (if i = n then PROC_STATE_RUNNING else if int i = current_pid s then PROC_STATE_READY
           else proc_state (proc_table s i))" for i
  proof (cases "current_pid s = - 1")
    case True
    then show ?thesis
      using n by (simp add: defs only_switched_def set_proc_def)
  next
    case False
    then obtain c where c: "current_pid s = int c" "current_process s = Some c" "proc_state (proc_table s c) \<in> {PROC_STATE_READY, PROC_STATE_RUNNING}"
      using s by (auto simp: switchable_def)
    show ?thesis
    proof (cases "n = c")
      case True
      with n c show ?thesis by (simp add: defs only_switched_def set_proc_def)
    next
      case False
      with n c show ?thesis by (auto simp: defs only_switched_def set_proc_def)
    qed
  qed
  then show "current_pid t = int n" "current_process t = Some n" "only_switched s t"
    "proc_state (proc_table t i) = (if i = n then PROC_STATE_RUNNING else if int i = current_pid s then PROC_STATE_READY
           else proc_state (proc_table s i))"
    by blast+
qed

lemma process_schedule_inv:
  assumes pids: "table_pids_ok s" "stacks_ok s" and s: "switchable s"
  shows "proc_inv (fst (process_schedule s regs))" and "only_switched s (fst (process_schedule s regs))"
proof -
  have "proc_inv (fst (process_schedule s regs)) \<and> only_switched s (fst (process_schedule s regs))"
  proof (cases "next_ready s")
    case None
    then have none: "\<forall>i < MAX_PROCESSES. proc_state (proc_table s i) \<noteq> PROC_STATE_READY"
      by (simp add: next_ready_None)
    from s consider "current_pid s = - 1" "current_process s = None"
      | c where "c < MAX_PROCESSES" "current_pid s = int c" "current_process s = Some c" "proc_state (proc_table s c) = PROC_STATE_RUNNING"
      using none by (auto simp: switchable_def)
    then have "fst (process_schedule s regs) = s \<and> current_ok s"
    proof cases
      case 1
      then show ?thesis
        using None s by (auto simp: process_schedule_eq switchable_def intro!: current_ok_kernel)
    next
      case (2 c)
      then show ?thesis
        using None s by (auto simp: process_schedule_eq switchable_def intro!: current_ok_process [of _ c])
    qed
    with pids show ?thesis by (simp add: proc_inv_def)
  next
    case (Some n)
    note t = schedule_switches [OF Some s refl]
    have "current_ok (fst (process_schedule s regs))"
      by (rule current_ok_process [of _ n])
        (use next_ready_Some [OF Some] s in \<open>auto simp: t switchable_def\<close>)
    with only_switched_inv [OF t(3) pids] t(3) show ?thesis
      by (simp add: proc_inv_def)
  qed
  then show "proc_inv (fst (process_schedule s regs))" "only_switched s (fst (process_schedule s regs))"
    by simp_all
qed

text \<open>The state in which \<open>process_yield\<close> calls the scheduler.\<close>

definition yielding :: "procs \<Rightarrow> procs" where
  "yielding s = (if current_pid s \<ge> 0 then set_proc s (nat (current_pid s)) (\<lambda>p. p\<lparr>proc_state := PROC_STATE_READY\<rparr>) else s)"

lemma process_yield_eq: "process_yield s regs = process_schedule (yielding s) regs"
  by (simp add: process_yield_def yielding_def)

lemma yielding_ok:
  assumes "current_ok s"
  shows "switchable (yielding s)" and "only_switched s (yielding s)" and "current_pid (yielding s) = current_pid s"
    and "i < MAX_PROCESSES \<Longrightarrow> proc_state (proc_table (yielding s) i) = (if int i = current_pid s then PROC_STATE_READY else proc_state (proc_table s i))"
  using assms by (cases rule: current_ok_cases; auto simp: yielding_def switchable_def only_switched_def)+

lemma process_yield_inv:
  assumes "proc_inv s"
  shows "proc_inv (fst (process_yield s regs))" and "only_switched s (fst (process_yield s regs))"
proof -
  have y: "switchable (yielding s)" "only_switched s (yielding s)" and s: "table_pids_ok s" "stacks_ok s"
    using assms yielding_ok [of s] by (simp_all add: proc_inv_def)
  note z = process_schedule_inv [OF _ _ y(1), of regs] only_switched_inv [OF y(2) s]
  show "proc_inv (fst (process_yield s regs))" "only_switched s (fst (process_yield s regs))"
    using z only_switched_trans [OF y(2)] unfolding process_yield_eq by blast+
qed

subsection \<open>The timer interrupt\<close>

definition irq_switch :: "procs \<Rightarrow> nat \<Rightarrow> procs" where
  "irq_switch s i =
     (let s1 = (if current_pid s \<ge> 0 \<and> proc_state (proc_table s (nat (current_pid s))) = PROC_STATE_RUNNING
                then set_proc s (nat (current_pid s)) (\<lambda>p. p\<lparr>proc_state := PROC_STATE_READY\<rparr>) else s)
      in (set_proc s1 i (\<lambda>p. p\<lparr>proc_state := PROC_STATE_RUNNING\<rparr>))\<lparr>current_pid := int i, current_process := Some i\<rparr>)"

lemma irq_scan_cases:
  obtains (stay) "irq_scan s is = s"
  | (switch) i where "i \<in> set is" "proc_state (proc_table s i) = PROC_STATE_READY" "int i \<noteq> current_pid s"
      "ctx_sp (proc_ctx (proc_table s i)) \<noteq> 0" "ctx_pc (proc_ctx (proc_table s i)) \<noteq> 0" "irq_scan s is = irq_switch s i"
proof -
  have "irq_scan s is = s \<or> (\<exists>i \<in> set is. proc_state (proc_table s i) = PROC_STATE_READY \<and> int i \<noteq> current_pid s \<and>
      ctx_sp (proc_ctx (proc_table s i)) \<noteq> 0 \<and> ctx_pc (proc_ctx (proc_table s i)) \<noteq> 0 \<and> irq_scan s is = irq_switch s i)"
    by (induction "is") (auto simp: irq_switch_def Let_def)
  then show ?thesis
    using that by blast
qed

lemma irq_switch_ok:
  assumes s: "current_ok s" and i: "i < MAX_PROCESSES" "proc_state (proc_table s i) = PROC_STATE_READY" "int i \<noteq> current_pid s"
  shows "current_ok (irq_switch s i)" and "only_switched s (irq_switch s i)" and "current_process (irq_switch s i) = Some i"
  using s
proof (cases rule: current_ok_cases)
  case kernel
  then show "current_ok (irq_switch s i)"
    using i by (intro current_ok_process [of _ i]) (auto simp: irq_switch_def set_proc_def)
next
  case (process c)
  then show "current_ok (irq_switch s i)"
    using i by (intro current_ok_process [of _ i]) (auto simp: irq_switch_def set_proc_def)
next
  show "only_switched s (irq_switch s i)" "current_process (irq_switch s i) = Some i"
    using i by (auto simp: irq_switch_def only_switched_def set_proc_def Let_def)
qed

lemma schedule_from_irq_ok:
  assumes "current_ok s"
  shows "current_ok (process_schedule_from_irq s)" and "only_switched s (process_schedule_from_irq s)"
    and "current_process s \<noteq> None \<Longrightarrow> current_process (process_schedule_from_irq s) \<noteq> None"
proof -
  consider "process_schedule_from_irq s = s" | i where "i < MAX_PROCESSES" "proc_state (proc_table s i) = PROC_STATE_READY"
      "int i \<noteq> current_pid s" "process_schedule_from_irq s = irq_switch s i"
  proof (cases "process_schedule_from_irq s = s")
    case False
    then have "process_schedule_from_irq s = irq_scan s (ring (current_pid s))"
      by (simp add: process_schedule_from_irq_def Let_def split: if_splits)
    with False that(2) show ?thesis
      by (cases rule: irq_scan_cases [of s "ring (current_pid s)"]) auto
  qed (rule that(1))
  then have "current_ok (process_schedule_from_irq s) \<and> only_switched s (process_schedule_from_irq s) \<and>
      (current_process s \<noteq> None \<longrightarrow> current_process (process_schedule_from_irq s) \<noteq> None)"
    using assms irq_switch_ok by cases simp_all
  then show "current_ok (process_schedule_from_irq s)" "only_switched s (process_schedule_from_irq s)"
      "current_process s \<noteq> None \<Longrightarrow> current_process (process_schedule_from_irq s) \<noteq> None"
    by blast+
qed

lemma current_ok_ctx [simp]: "current_ok (set_proc s i (\<lambda>p. p\<lparr>proc_ctx := r\<rparr>)) = current_ok s"
proof -
  have "proc_state (proc_table (set_proc s i (\<lambda>p. p\<lparr>proc_ctx := r\<rparr>)) j) = proc_state (proc_table s j)" for j
    by simp
  then show ?thesis
    by (simp only: current_ok_def set_proc_get(4,6))
qed

lemma irq_handler_inv:
  assumes inv: "proc_inv s"
  shows "\<exists>s' r. irq_handler s regs = Some (s', r) \<and> proc_inv s' \<and> only_switched s s'"
proof (cases "current_process s")
  case None
  let ?t = "process_schedule_from_irq s"
  have t: "current_ok ?t" "only_switched s ?t"
    using schedule_from_irq_ok inv by (simp_all add: proc_inv_def)
  with inv only_switched_inv [OF t(2)] have "proc_inv ?t"
    by (simp add: proc_inv_def)
  moreover have "only_switched s (?t\<lparr>kernel_context := k\<rparr>)" for k
    using only_switched_trans [OF t(2)] by simp
  ultimately show ?thesis
    using None t(2) by (auto simp: irq_handler_def Let_def proc_inv_def split: option.split)
next
  case (Some c)
  let ?s = "set_proc s c (\<lambda>p. p\<lparr>proc_ctx := regs\<rparr>)"
  let ?t = "process_schedule_from_irq ?s"
  have t: "current_ok ?t" "only_switched ?s ?t" "current_process ?t \<noteq> None"
    using schedule_from_irq_ok [of ?s] inv Some by (simp_all add: proc_inv_def)
  then have sw: "only_switched s ?t"
    using only_switched_trans only_switched_ctx(1) by blast
  with inv only_switched_inv [OF sw] t(1) have "proc_inv ?t"
    by (simp add: proc_inv_def)
  with Some t(3) sw show ?thesis
    by (auto simp: irq_handler_def Let_def)
qed

section \<open>Fairness of yielding\<close>

fun yields :: "proc_context list \<Rightarrow> procs \<Rightarrow> procs" where
  "yields [] s = s"
| "yields (r # rs) s = yields rs (fst (process_yield s r))"

lemma mod_16_inside: "(j + 15 * (x mod 16 + 1)) mod 16 = (j + 15 * (x + 1)) mod (16 :: nat)"
proof -
  define q r where "q = x div 16" and r: "r = x mod 16"
  then have "x = 16 * q + r"
    by simp
  then have "j + 15 * (x + 1) = (j + 15 * (r + 1)) + 16 * (15 * q)"
    by simp
  then show ?thesis
    unfolding r [symmetric] by (simp only: mod_mult_self2)
qed

lemma turn_advance:
  assumes "k < turn old j" and "n = ring old ! k"
  shows "turn (int n) j = turn old j - k - 1"
proof -
  let ?T = "turn old j"
  have k: "k < MAX_PROCESSES"
    using assms(1) turn_less [of old j] by simp
  have "turn (int n) j = (j + 15 * (n + 1)) mod 16"
    by (simp add: turn_def ring_start_def MAX_PROCESSES_def)
  also have "\<dots> = (j + 15 * ((ring_start old + k) + 1)) mod 16"
    unfolding assms(2) nth_ring [OF k] MAX_PROCESSES_def by (rule mod_16_inside)
  also have "\<dots> = (?T + 15 * (k + 1)) mod 16"
    unfolding turn_def MAX_PROCESSES_def mod_add_left_eq by (simp add: algebra_simps)
  also have "?T + 15 * (k + 1) = (?T - k - 1) + 16 * (k + 1)"
    using assms(1) by simp
  also have "\<dots> mod 16 = ?T - k - 1"
    using turn_less [of old j] unfolding mod_mult_self2 by (simp add: MAX_PROCESSES_def)
  finally show ?thesis .
qed

lemma yield_turn:
  assumes inv: "proc_inv s" and j: "j < MAX_PROCESSES" "proc_state (proc_table s j) = PROC_STATE_READY"
    and t_def: "t = fst (process_yield s r)"
  shows "current_pid t = int j \<or>
    proc_state (proc_table t j) = PROC_STATE_READY \<and> turn (current_pid t) j < turn (current_pid s) j"
proof -
  note y = yielding_ok [of s]
  have ok: "current_ok s" and jy: "proc_state (proc_table (yielding s) j) = PROC_STATE_READY"
    using inv y(4) j by (simp_all add: proc_inv_def)
  obtain n where n: "next_ready (yielding s) = Some n"
    using next_ready_None [of "yielding s"] j(1) jy by (cases "next_ready (yielding s)") auto
  note sw = schedule_switches [OF n y(1) [OF ok] refl, of r, folded process_yield_eq]
  obtain k where k: "k < MAX_PROCESSES" "n = ring (current_pid s) ! k"
      "\<And>i. i < k \<Longrightarrow> proc_state (proc_table (yielding s) (ring (current_pid s) ! i)) \<noteq> PROC_STATE_READY"
    using n unfolding next_ready_def find_Some_iff y(3) [OF ok] by auto
  have "k \<le> turn (current_pid s) j"
    using k(3) [of "turn (current_pid s) j"] ring_turn [OF j(1)] jy by (metis leI)
  show ?thesis
  proof (cases "n = j")
    case True
    with sw(1) show ?thesis by (simp add: t_def)
  next
    case False
    then have "k < turn (current_pid s) j"
      using \<open>k \<le> turn (current_pid s) j\<close> k(2) ring_turn [OF j(1)] by (metis le_neq_implies_less)
    then have "turn (int n) j < turn (current_pid s) j"
      using turn_advance [OF _ k(2)] by simp
    moreover have "proc_state (proc_table t j) = PROC_STATE_READY"
      using sw(4) [of j] False jy by (simp add: t_def)
    ultimately show ?thesis
      using sw(1) by (simp add: t_def)
  qed
qed

lemma yields_reach:
  "proc_inv s \<Longrightarrow> j < MAX_PROCESSES \<Longrightarrow> proc_state (proc_table s j) = PROC_STATE_READY \<Longrightarrow> turn (current_pid s) j < length rs \<Longrightarrow>
     \<exists>k \<le> Suc (turn (current_pid s) j). 0 < k \<and> current_pid (yields (take k rs) s) = int j"
proof (induction "turn (current_pid s) j" arbitrary: s rs rule: less_induct)
  case less
  then obtain r rs' where rs: "rs = r # rs'"
    by (cases rs) auto
  let ?t = "fst (process_yield s r)"
  from yield_turn [OF less.prems(1-3) refl] show ?case
  proof
    assume "current_pid ?t = int j"
    then show ?thesis
      by (intro exI [of _ 1]) (simp add: rs)
  next
    assume t: "proc_state (proc_table ?t j) = PROC_STATE_READY \<and> turn (current_pid ?t) j < turn (current_pid s) j"
    then have "turn (current_pid ?t) j < length rs'"
      using less.prems(4) by (simp add: rs)
    with less.hyps [of ?t rs'] t process_yield_inv(1) [OF less.prems(1)] less.prems(2) obtain k where
      "k \<le> Suc (turn (current_pid ?t) j)" "current_pid (yields (take k rs') ?t) = int j"
      by blast
    with t show ?thesis
      by (intro exI [of _ "Suc k"]) (simp add: rs)
  qed
qed

text \<open>C30. Yielding is fair: as long as every process that runs yields, a process that is ready gets the processor
  after at most 16 yields, whoever runs now and in whatever states the other slots are.\<close>

theorem process_round_robin:
  assumes "proc_inv s" and "j < MAX_PROCESSES" and "proc_state (proc_table s j) = PROC_STATE_READY" and "length rs = MAX_PROCESSES"
  shows "\<exists>k \<le> MAX_PROCESSES. 0 < k \<and> current_pid (yields (take k rs) s) = int j"
proof -
  have "turn (current_pid s) j < length rs"
    using turn_less assms(4) by simp
  from yields_reach [OF assms(1-3) this] turn_less [of "current_pid s" j] show ?thesis
    by (meson Suc_leI le_trans)
qed

end
