(* ===== verification/Process_Run.thy ===== *)
theory Process_Run
  imports Process_Spec
begin

text \<open>
  Process creation, and runs of the whole component: the invariant holds in every state that any sequence of
  operations reaches.
\<close>

section \<open>Reserving a slot\<close>

lemma pids_okD:
  assumes "table_pids_ok s" and "i < MAX_PROCESSES"
  shows "0 \<le> pid_of s i" and "pid_of s i < next_pid s" and "parent_of s i < next_pid s"
    and "active s i \<Longrightarrow> int i < pid_of s i" and "active s i \<Longrightarrow> parent_of s i < pid_of s i"
  using assms unfolding table_pids_ok_def by blast+

text \<open>The process numbers of the lower slots are distinct and positive, so the next one is larger than the slot.\<close>

lemma slot_below_next:
  assumes pids: "table_pids_ok s" and lower: "\<And>i. i < n \<Longrightarrow> active s i" and n: "n < MAX_PROCESSES"
  shows "int n < next_pid s"
proof -
  have "pid_of s i \<in> {1..<next_pid s}" if "i < n" for i
    using pids_okD(2,4) [OF pids, of i] lower [OF that] that n by simp
  then have sub: "pid_of s ` {..<n} \<subseteq> {1..<next_pid s}"
    by blast
  have "inj_on (pid_of s) {..<n}"
    using pid_unique [OF pids] lower n by (auto intro!: inj_onI)
  then have "card (pid_of s ` {..<n}) = n"
    by (simp add: card_image)
  with card_mono [OF _ sub] have "n \<le> nat (next_pid s - 1)"
    by simp
  moreover have "0 < next_pid s"
    using pids by (simp add: table_pids_ok_def)
  ultimately show ?thesis
    by linarith
qed

definition with_slot :: "procs \<Rightarrow> nat \<Rightarrow> procs" where
  "with_slot s slot = (set_proc s slot (\<lambda>p. p\<lparr>proc_state := PROC_STATE_READY, proc_pid := next_pid s\<rparr>))\<lparr>next_pid := next_pid s + 1\<rparr>"

lemma with_slot_get [simp]:
  "proc_table (with_slot s slot) i = (if i = slot then (proc_table s i)\<lparr>proc_state := PROC_STATE_READY, proc_pid := next_pid s\<rparr> else proc_table s i)"
  "pheap (with_slot s slot) = pheap s" "files (with_slot s slot) = files s" "next_pid (with_slot s slot) = next_pid s + 1"
  "current_pid (with_slot s slot) = current_pid s" "current_process (with_slot s slot) = current_process s"
  "randomness (with_slot s slot) = randomness s" "next_load_addr (with_slot s slot) = next_load_addr s"
  "kapi (with_slot s slot) = kapi s" "entry_wrapper (with_slot s slot) = entry_wrapper s"
  by (simp_all add: with_slot_def set_proc_def)

lemma ready_slot_current_ok:
  assumes "current_ok s" and "not_running s slot" and "slot < MAX_PROCESSES"
    and "current_pid t = current_pid s" and "current_process t = current_process s"
    and "\<And>i. i \<noteq> slot \<Longrightarrow> proc_state (proc_table t i) = proc_state (proc_table s i)" and "not_running t slot"
  shows "current_ok t"
  using assms(1)
proof (cases rule: current_ok_cases)
  case kernel
  then have "not_running t i" if "i < MAX_PROCESSES" for i
    using assms(6,7) that by (cases "i = slot") auto
  with kernel assms(4,5) show ?thesis
    by (intro current_ok_kernel) auto
next
  case (process c)
  then have "c \<noteq> slot" using assms(2) by auto
  moreover have "not_running t i" if "i < MAX_PROCESSES" "i \<noteq> c" for i
    using assms(6,7) process(5) that by (cases "i = slot") auto
  ultimately show ?thesis
    using process assms(4-6) by (intro current_ok_process [of _ c]) auto
qed

lemma reserve_cases:
  assumes inv: "proc_inv s"
  obtains (full) "reserve_slot s = (s, None)" and "\<forall>i < MAX_PROCESSES. active s i"
  | (slot) slot where "reserve_slot s = (with_slot s slot, Some slot)" and "slot < MAX_PROCESSES" and "\<not> active s slot" and "proc_inv (with_slot s slot)"
proof (cases "find_free_slot_unlocked s")
  case None
  then show ?thesis
    by (intro full) (simp_all add: reserve_slot_def, simp add: find_free_slot_unlocked_def find_None_iff)
next
  case (Some slot)
  then have slot: "slot < MAX_PROCESSES" "\<not> active s slot" and lower: "\<And>i. i < slot \<Longrightarrow> active s i"
    by (auto simp: find_free_slot_unlocked_def find_Some_iff)
  have parts: "table_pids_ok s" "stacks_ok s" "current_ok s"
    using inv by (simp_all add: proc_inv_def)
  have "int slot < next_pid s"
    using slot_below_next [OF parts(1) lower slot(1)] by simp
  then have "table_pids_ok (with_slot s slot)"
    using parts(1) slot(1) unfolding table_pids_ok_def by (auto simp: less_imp_neq add_strict_increasing)
  moreover have "stacks_ok (with_slot s slot)"
    by (rule stacks_ok_cong [OF _ _ parts(2)]) simp_all
  moreover have "current_ok (with_slot s slot)"
    by (rule ready_slot_current_ok [OF parts(3) _ slot(1)]) (use slot(2) in simp_all)
  ultimately show ?thesis
    using slot Some by (intro that(2) [of slot]) (simp_all add: proc_inv_def reserve_slot_def with_slot_def)
qed

section \<open>Setting up the structure\<close>

text \<open>The slot after all fields but the stack and the context were set.\<close>

definition described :: "procs \<Rightarrow> nat \<Rightarrow> addr \<Rightarrow> elf_load_info \<Rightarrow> procs" where
  "described s slot path info =
     (set_proc s slot (\<lambda>p. p\<lparr>proc_pid := next_pid s, proc_name := copy_proc_name (proc_name p) (kbytes (pheap s)) path,
        proc_state := PROC_STATE_READY, load_base := info_base info, load_size := info_size info, proc_entry := info_entry info,
        parent_pid := current_pid s, exit_status := 0, stack_size := PROCESS_STACK_SIZE\<rparr>))\<lparr>next_pid := next_pid s + 1\<rparr>"

lemma described_get [simp]:
  "proc_table (described s slot path info) i =
     (if i = slot then (proc_table s i)\<lparr>proc_pid := next_pid s, proc_name := copy_proc_name (proc_name (proc_table s i)) (kbytes (pheap s)) path,
        proc_state := PROC_STATE_READY, load_base := info_base info, load_size := info_size info, proc_entry := info_entry info,
        parent_pid := current_pid s, exit_status := 0, stack_size := PROCESS_STACK_SIZE\<rparr> else proc_table s i)"
  "pheap (described s slot path info) = pheap s" "files (described s slot path info) = files s"
  "next_pid (described s slot path info) = next_pid s + 1" "current_pid (described s slot path info) = current_pid s"
  "current_process (described s slot path info) = current_process s" "kapi (described s slot path info) = kapi s"
  "entry_wrapper (described s slot path info) = entry_wrapper s"
  by (simp_all add: described_def set_proc_def)

lemma setup_process_eq:
  "setup_process s slot path info argc argv =
     (case kmalloc (pheap s) PROCESS_STACK_SIZE 0 of None \<Rightarrow> None
      | Some (h, r) \<Rightarrow>
          let t = set_proc ((described s slot path info)\<lparr>pheap := h\<rparr>) slot (\<lambda>p. p\<lparr>stack_base := r\<rparr>)
          in (case r of None \<Rightarrow> Some (set_proc t slot (\<lambda>p. p\<lparr>proc_state := PROC_STATE_FREE\<rparr>), - 1)
              | Some stack \<Rightarrow>
                  Some (set_proc t slot (\<lambda>p. p\<lparr>proc_ctx := initial_context t (proc_entry p) stack argc argv\<rparr>), next_pid s)))"
  unfolding setup_process_def described_def [symmetric] Let_def by (auto split: option.split prod.split)

lemma parent_older:
  assumes "proc_inv s"
  shows "current_pid s < next_pid s"
proof -
  have "current_ok s" and pids: "table_pids_ok s"
    using assms by (simp_all add: proc_inv_def)
  then show ?thesis
  proof (cases rule: current_ok_cases)
    case kernel
    with pids show ?thesis by (simp add: table_pids_ok_def)
  next
    case (process c)
    with pids_okD(2,4) [OF pids, of c] show ?thesis by simp
  qed
qed

lemma described_pids:
  assumes inv: "proc_inv s" and slot: "slot < MAX_PROCESSES" "active s slot"
  shows "table_pids_ok (described s slot path info)"
proof -
  have pids: "table_pids_ok s" and "current_pid s < next_pid s" and "int slot < next_pid s"
    using inv parent_older [OF inv] pids_okD(2,4) [of s slot] slot by (auto simp: proc_inv_def)
  then show ?thesis
    unfolding table_pids_ok_def by (auto simp: less_imp_neq add_strict_increasing)
qed

lemma new_stack_ok:
  assumes st: "stacks_ok s" and h: "heap_inv h" "live h = insert (b, n) (live (pheap s))" "(b, n) \<notin> live (pheap s)" "PROCESS_STACK_SIZE \<le> n"
    and t: "pheap t = h" "stack_base (proc_table t slot) = Some b"
      "\<And>i. i \<noteq> slot \<Longrightarrow> stack_base (proc_table t i) = stack_base (proc_table s i)"
  shows "stacks_ok t"
proof -
  have new: "stack_base (proc_table s i) \<noteq> Some b" if i: "i < MAX_PROCESSES" for i
  proof
    assume "stack_base (proc_table s i) = Some b"
    then obtain k where "(b, k) \<in> live (pheap s)"
      using st i unfolding stacks_ok_def by blast
    with h(2,3) live_functional [OF h(1), of b n k] show False
      by simp
  qed
  have "\<exists>k \<ge> PROCESS_STACK_SIZE. (c, k) \<in> live h" if "i < MAX_PROCESSES" "stack_base (proc_table t i) = Some c" for i c
    using that st t(2,3) h(2,4) unfolding stacks_ok_def by (cases "i = slot") (auto, metis)
  moreover have "stack_base (proc_table t i) \<noteq> stack_base (proc_table t j)"
    if "i < MAX_PROCESSES" "j < MAX_PROCESSES" "i \<noteq> j" "stack_base (proc_table t i) \<noteq> None" for i j
    using that st t(2,3) new unfolding stacks_ok_def by (metis (full_types))
  ultimately show ?thesis
    using h(1) t(1) unfolding stacks_ok_def by blast
qed

lemma setup_process_cases:
  assumes inv: "proc_inv s" and slot: "slot < MAX_PROCESSES" "proc_state (proc_table s slot) = PROC_STATE_READY"
  obtains (no_memory) s' where "setup_process s slot path info argc argv = Some (s', - 1)" "proc_inv s'" "files s' = files s"
      "\<forall>(b, n) \<in> free_blocks (pheap s). n < PROCESS_STACK_SIZE + header_size + MIN_ALLOC"
  | (created) s' b n where "setup_process s slot path info argc argv = Some (s', next_pid s)" "proc_inv s'" "files s' = files s"
      "pid_of s' slot = next_pid s" "parent_of s' slot = current_pid s" "proc_state (proc_table s' slot) = PROC_STATE_READY"
      "stack_base (proc_table s' slot) = Some b" "(b, n) \<in> live (pheap s')" "PROCESS_STACK_SIZE \<le> n" "kbytes (pheap s') = kbytes (pheap s)"
      "proc_ctx (proc_table s' slot) = initial_context s (info_entry info) b argc argv"
      "\<And>i. i \<noteq> slot \<Longrightarrow> proc_table s' i = proc_table s i" "current_pid s' = current_pid s"
proof -
  let ?d = "described s slot path info"
  have parts: "stacks_ok s" "current_ok s" "heap_inv (pheap s)"
    using inv by (simp_all add: proc_inv_def stacks_ok_def)
  have pids: "table_pids_ok ?d"
    using slot by (intro described_pids [OF inv slot(1)]) simp
  from parts(3) show ?thesis
  proof (cases rule: kmalloc_result [where sz = PROCESS_STACK_SIZE and flags = 0])
    case none
    let ?s = "set_proc (set_proc (?d\<lparr>pheap := pheap s\<rparr>) slot (\<lambda>p. p\<lparr>stack_base := None\<rparr>)) slot (\<lambda>p. p\<lparr>proc_state := PROC_STATE_FREE\<rparr>)"
    have "table_pids_ok ?s"
      by (rule table_pids_ok_cong [OF _ _ pids]) simp_all
    moreover have "stacks_ok ?s"
      using parts(1) unfolding stacks_ok_def by simp
    moreover have "current_ok ?s"
      by (rule ready_slot_current_ok [OF parts(2) _ slot(1)]) (use slot(2) in simp_all)
    ultimately have "proc_inv ?s"
      by (simp add: proc_inv_def)
    with none show ?thesis
      by (intro no_memory [of ?s]) (simp_all add: setup_process_eq PROCESS_STACK_SIZE_def MAX_ALLOC_def)
  next
    case (some h b n)
    let ?t = "set_proc (?d\<lparr>pheap := h\<rparr>) slot (\<lambda>p. p\<lparr>stack_base := Some b\<rparr>)"
    let ?s = "set_proc ?t slot (\<lambda>p. p\<lparr>proc_ctx := initial_context ?t (proc_entry p) b argc argv\<rparr>)"
    have "table_pids_ok ?s"
      by (rule table_pids_ok_cong [OF _ _ pids]) simp_all
    moreover have "stacks_ok ?s"
      by (rule new_stack_ok [OF parts(1) some(2,4,5,3), where slot = slot]) simp_all
    moreover have "current_ok ?s"
      by (rule ready_slot_current_ok [OF parts(2) _ slot(1)]) (use slot(2) in simp_all)
    ultimately have "proc_inv ?s"
      by (simp add: proc_inv_def)
    moreover have "kbytes h = kbytes (pheap s)"
      using some(8) by simp
    moreover have "initial_context ?t = initial_context s"
      by (simp add: initial_context_def fun_eq_iff)
    ultimately show ?thesis
      using some(1,3,4) by (intro created [of ?s b n]) (simp_all add: setup_process_eq)
  qed
qed

section \<open>Creation\<close>

text \<open>What a successful creation leaves in its slot.\<close>

definition new_process :: "procs \<Rightarrow> procs \<Rightarrow> nat \<Rightarrow> int \<Rightarrow> bool" where
  "new_process s s' slot pid \<longleftrightarrow> slot < MAX_PROCESSES \<and> \<not> active s slot \<and> 0 < pid \<and> pid_of s' slot = pid \<and>
     parent_of s' slot = current_pid s \<and> proc_state (proc_table s' slot) = PROC_STATE_READY \<and>
     (\<exists>b n. stack_base (proc_table s' slot) = Some b \<and> (b, n) \<in> live (pheap s') \<and> PROCESS_STACK_SIZE \<le> n) \<and>
     (\<forall>i. i \<noteq> slot \<longrightarrow> proc_table s' i = proc_table s i) \<and> current_pid s' = current_pid s"

lemma kfree_data:
  assumes h: "heap_inv h" "live h = insert (d, n) L" "(d, n) \<notin> L" and m: "kbytes g = m" "g = h\<lparr>kbytes := m\<rparr>"
  obtains h' where "kfree g (Some d) = Some h'" and "heap_inv h'" and "live h' = L" and "kbytes h' = m"
    and "heap_start h' = heap_start h" and "heap_end h' = heap_end h"
proof -
  have g: "heap_inv g" "(d, n) \<in> live g" "live g = insert (d, n) L"
    using h(1,2) unfolding m(2) heap_inv_bytes live_bytes by simp_all
  obtain h' where h': "kfree g (Some d) = Some h'" "heap_inv h'" "live h' = live g - {(d, n)}" "kbytes h' = kbytes g"
      "bmagic (hdr h' (data_to_block d)) = BLOCK_MAGIC_FREE"
      "heap_start h' = heap_start g" "heap_end h' = heap_end g" "heap_total h' = heap_total g" "kheap_used h' + (n + header_size) = kheap_used g"
    by (rule kfree_live [OF g(1,2)])
  have "live h' = L"
    using h'(3) h(3) g(3) by simp
  with h' that [of h'] m show ?thesis by simp
qed

lemma proc_inv_heap:
  assumes "proc_inv s" and "heap_inv h" and "live (pheap s) \<subseteq> live h"
  shows "proc_inv (s\<lparr>pheap := h\<rparr>)"
  using assms stacks_ok_heap [of s h] by (simp add: proc_inv_def)

lemma load_program_inv:
  assumes inv: "proc_inv s" and slot: "slot < MAX_PROCESSES" "proc_state (proc_table s slot) = PROC_STATE_READY"
    and h: "heap_inv h" "live h = insert (d, n) (live (pheap s))" "(d, n) \<notin> live (pheap s)"
    and run: "load_program (s\<lparr>pheap := h\<rparr>) slot path d sz argc argv c1 c2 = Some (s', r)"
  shows "proc_inv s' \<and> files s' = files s \<and>
    (r = - 1 \<or> r = next_pid s \<and> pid_of s' slot = r \<and> parent_of s' slot = current_pid s \<and> proc_state (proc_table s' slot) = PROC_STATE_READY \<and>
       (\<exists>b n. stack_base (proc_table s' slot) = Some b \<and> (b, n) \<in> live (pheap s') \<and> PROCESS_STACK_SIZE \<le> n) \<and>
       (\<forall>i. i \<noteq> slot \<longrightarrow> proc_table s' i = proc_table s i) \<and> current_pid s' = current_pid s)"
proof (cases "elf_calc_size (kbytes h) d sz = 0")
  case True
  obtain h' where h': "kfree h (Some d) = Some h'" "heap_inv h'" "live h' = live (pheap s)"
    by (rule kfree_data [OF h, of h "kbytes h"]) simp_all
  with True run have "s' = s\<lparr>pheap := h'\<rparr>" "r = - 1"
    by (simp_all add: load_program_def)
  with h'(2,3) proc_inv_heap [OF inv] show ?thesis by simp
next
  case False
  obtain rnd off where off: "aslr_exec_offset (randomness s) c1 c2 = (rnd, off)"
    by (cases "aslr_exec_offset (randomness s) c1 c2")
  let ?la = "ALIGN_64K (next_load_addr s + off)"
  obtain m err info where load: "elf_load_at (kbytes h) d sz ?la = Some (m, err, info)"
    using run False off by (cases "elf_load_at (kbytes h) d sz ?la") (auto simp: load_program_def Let_def)
  obtain h' where h': "kfree (h\<lparr>kbytes := m\<rparr>) (Some d) = Some h'" "heap_inv h'" "live h' = live (pheap s)"
    by (rule kfree_data [OF h, of "h\<lparr>kbytes := m\<rparr>" m]) simp_all
  let ?t = "s\<lparr>pheap := h', randomness := rnd\<rparr>"
  have t: "proc_inv ?t"
    using proc_inv_heap [OF inv h'(2)] h'(3) by (simp add: proc_inv_def)
  have eq: "(case (err = 0, info) of
      (True, Some info) \<Rightarrow> setup_process (?t\<lparr>next_load_addr := ALIGN_64K (?la + info_size info + 0x10000)\<rparr>) slot path info argc argv
      | _ \<Rightarrow> Some (?t, - 1)) = Some (s', r)"
    using run False load h'(1) off by (simp add: load_program_def Let_def split: if_splits)
  show ?thesis
  proof (cases "err = 0 \<and> info \<noteq> None")
    case True
    then obtain i where i: "info = Some i" "err = 0" by blast
    let ?u = "?t\<lparr>next_load_addr := ALIGN_64K (?la + info_size i + 0x10000)\<rparr>"
    have u: "proc_inv ?u" "proc_state (proc_table ?u slot) = PROC_STATE_READY"
      using t slot(2) by (simp_all add: proc_inv_def)
    have set: "setup_process ?u slot path i argc argv = Some (s', r)"
      using eq i by simp
    from u(1) slot(1) u(2) show ?thesis
    proof (cases rule: setup_process_cases [where path = path and info = i and argc = argc and argv = argv])
      case (no_memory u')
      with set show ?thesis by simp
    next
      case (created u' b k)
      with set show ?thesis by auto
    qed
  next
    case False
    then have "s' = ?t \<and> r = - 1"
      using eq by (cases info; cases "err = 0") simp_all
    with t show ?thesis by simp
  qed
qed

lemma process_create_inv:
  assumes inv: "proc_inv s" and run: "process_create s path argc argv c1 c2 = Some (s', r)"
  shows "proc_inv s' \<and> used_nodes (files s) \<subseteq> used_nodes (files s') \<and>
    (r = - 1 \<or> (\<exists>slot. new_process s s' slot r) \<and> card (used_nodes (files s')) = card (used_nodes (files s)) + 1)"
  using inv
proof (cases rule: reserve_cases)
  case full
  with run inv show ?thesis by (simp add: process_create_def)
next
  case (slot slot)
  let ?s = "with_slot s slot"
  note res = slot(1) and inv' = slot(4)
  show ?thesis
  proof (cases rule: vfs_lookup_cases [of "files s" "kbytes (pheap s)" path])
    case full
    with run res have "s' = ?s\<lparr>files := files s\<rparr>" "r = - 1"
      by (simp_all add: process_create_def)
    with inv' show ?thesis by (simp add: proc_inv_def)
  next
    case (node v nd)
    let ?t = "?s\<lparr>files := v\<rparr>"
    let ?sz = "node_size (node_pool v nd)"
    have t: "proc_inv ?t" "proc_state (proc_table ?t slot) = PROC_STATE_READY"
      using inv' by (simp_all add: proc_inv_def)
    have nodes: "used_nodes (files s) \<subseteq> used_nodes v" "card (used_nodes v) = card (used_nodes (files s)) + 1"
      using node(4,6) by auto
    show ?thesis
    proof (cases "vfs_is_dir v (Some nd) \<noteq> 0 \<or> ?sz = 0")
      case True
      then have "s' = ?t \<and> r = - 1"
        using run res node(1) by (auto simp: process_create_def Let_def split: if_splits)
      with t(1) nodes show ?thesis by simp
    next
      case False
      have "heap_inv (pheap ?t)"
        using t(1) by (simp add: proc_inv_def stacks_ok_def)
      then show ?thesis
      proof (cases rule: kmalloc_result [where sz = ?sz and flags = 0])
        case none
        then have "s' = ?t \<and> r = - 1"
          using run res node(1) False by (auto simp: process_create_def Let_def)
        with t(1) nodes show ?thesis by simp
      next
        case (some h d n)
        let ?rd = "vfs_read_compat v (Some nd) (kbytes h) (Some d) ?sz 0"
        let ?h = "h\<lparr>kbytes := fst ?rd\<rparr>"
        have h: "heap_inv ?h" "live ?h = insert (d, n) (live (pheap ?t))" "(d, n) \<notin> live (pheap ?t)"
          using some(2,4,5) unfolding heap_inv_bytes live_bytes by simp_all
        have cont: "(if snd ?rd \<noteq> sint (of_nat ?sz :: 32 word)
            then kfree ?h (Some d) \<bind> (\<lambda>g. Some (?t\<lparr>pheap := g\<rparr>, - 1))
            else load_program (?t\<lparr>pheap := ?h\<rparr>) slot path d ?sz argc argv c1 c2) = Some (s', r)"
          using run res node(1) False some(1) by (simp add: process_create_def Let_def split: prod.splits if_splits)
        show ?thesis
        proof (cases "snd ?rd \<noteq> sint (of_nat ?sz :: 32 word)")
          case True
          obtain h' where h': "kfree ?h (Some d) = Some h'" "heap_inv h'" "live h' = live (pheap ?t)"
            by (rule kfree_data [OF some(2,4,5), of ?h "fst ?rd"]) simp_all
          with True cont have "s' = ?t\<lparr>pheap := h'\<rparr>" "r = - 1"
            by simp_all
          with h'(2,3) proc_inv_heap [OF t(1)] nodes show ?thesis by simp
        next
          case False
          then have "load_program (?t\<lparr>pheap := ?h\<rparr>) slot path d ?sz argc argv c1 c2 = Some (s', r)"
            using cont by simp
          from load_program_inv [OF t(1) slot(2) t(2) h this] have res: "proc_inv s'" "files s' = v"
              "r = - 1 \<or> r = next_pid s + 1 \<and> pid_of s' slot = r \<and> parent_of s' slot = current_pid s \<and>
                proc_state (proc_table s' slot) = PROC_STATE_READY \<and>
                (\<exists>b n. stack_base (proc_table s' slot) = Some b \<and> (b, n) \<in> live (pheap s') \<and> PROCESS_STACK_SIZE \<le> n) \<and>
                (\<forall>i. i \<noteq> slot \<longrightarrow> proc_table s' i = proc_table s i) \<and> current_pid s' = current_pid s"
            by simp_all
          have "0 < next_pid s"
            using inv by (simp add: proc_inv_def table_pids_ok_def)
          with res slot(2,3) have "r = - 1 \<or> new_process s s' slot r"
            unfolding new_process_def by auto
          with res(1,2) nodes show ?thesis by blast
        qed
      qed
    qed
  qed
qed

section \<open>Runs\<close>

text \<open>
  One operation. The registers, the arguments and the counters are arbitrary; a call that does not return is
  no step. Creation and killing are steps of whoever runs, the kernel or a process.
\<close>

inductive proc_step :: "procs \<Rightarrow> procs \<Rightarrow> bool" where
  create: "process_create s path argc argv c1 c2 = Some (s', r) \<Longrightarrow> proc_step s s'"
| exit: "process_exit s regs status = Some (s', r) \<Longrightarrow> proc_step s s'"
| kill: "process_kill s pid = Some (s', r) \<Longrightarrow> proc_step s s'"
| yield: "proc_step s (fst (process_yield s regs))"
| schedule: "proc_step s (fst (process_schedule s regs))"
| timer: "irq_handler s regs = Some (s', r) \<Longrightarrow> proc_step s s'"

inductive_cases proc_stepE: "proc_step s s'"

lemma proc_step_inv: "proc_step s s' \<Longrightarrow> proc_inv s \<Longrightarrow> proc_inv s'"
proof (induction rule: proc_step.induct)
  case (schedule s regs)
  then show ?case
    using process_schedule_inv(1) current_ok_switchable by (auto simp: proc_inv_def)
next
  case (timer s regs s' r)
  then show ?case using irq_handler_inv [of s regs] by auto
qed (use process_create_inv process_exit_inv process_kill_inv process_yield_inv(1) in blast)+

lemma proc_run_inv: "proc_step\<^sup>*\<^sup>* s s' \<Longrightarrow> proc_inv s \<Longrightarrow> proc_inv s'"
  by (induction rule: rtranclp_induct) (auto intro: proc_step_inv)

text \<open>The table as the loader of the kernel leaves it, and the state after \<open>process_init\<close>.\<close>

definition fresh_table :: "procs \<Rightarrow> bool" where
  "fresh_table s \<longleftrightarrow> heap_inv (pheap s) \<and> (\<forall>i < MAX_PROCESSES. stack_base (proc_table s i) = None \<and> parent_of s i = 0)"

lemma process_init_inv:
  assumes "fresh_table s"
  shows "proc_inv (process_init s)"
proof -
  have get: "proc_table (process_init s) i = (if i < MAX_PROCESSES
         then (proc_table s i)\<lparr>proc_state := PROC_STATE_FREE, proc_pid := 0, proc_ctx := zero_ctx\<rparr> else proc_table s i)"
      "pheap (process_init s) = pheap s" "next_pid (process_init s) = 1" "current_pid (process_init s) = - 1"
      "current_process (process_init s) = None" for i
    by (simp_all add: process_init_def)
  have "table_pids_ok (process_init s)"
    using assms unfolding table_pids_ok_def by (auto simp: get fresh_table_def)
  moreover have "stacks_ok (process_init s)"
    using assms unfolding stacks_ok_def by (simp add: get fresh_table_def)
  moreover have "current_ok (process_init s)"
    by (rule current_ok_kernel) (simp_all add: get)
  ultimately show ?thesis
    by (simp add: proc_inv_def)
qed


text \<open>C14. In every state of the component \<open>process_kill\<close> of another process returns and kills exactly that process and
  the processes below it in the tree of parent numbers, except the one that is running: their slots become
  free, their stacks go back to the heap, and every other slot and all other memory stay as they are. In
  particular the work stack of \<open>kill_children\<close> never overflows and its loop ends.\<close>

theorem process_kill_tree:
  assumes inv: "proc_inv s" and i: "process_get s pid = Some i" "int i \<noteq> current_pid s"
  shows "\<exists>s'. process_kill s pid = Some (s', 0) \<and> proc_inv s' \<and>
    (\<forall>j. proc_table s' j = (if j = i \<or> j \<in> descendants s pid \<and> int j \<noteq> current_pid s then killed (proc_table s j) else proc_table s j)) \<and>
    live (pheap s') = live (pheap s) - stack_blocks s (insert i (descendants s pid - {j. int j = current_pid s})) \<and>
    kbytes (pheap s') = kbytes (pheap s) \<and> current_pid s' = current_pid s"
proof -
  let ?K = "insert i (victims s (descendants s pid))"
  obtain h where h: "process_kill s pid = Some (kill_all s ?K h, 0)" "heap_without s ?K h" "proc_inv (kill_all s ?K h)"
    by (rule process_kill_result [OF inv i])
  have "?K = insert i (descendants s pid - {j. int j = current_pid s})"
    by (auto simp: victims_def)
  with h show ?thesis
    by (intro exI [of _ "kill_all s ?K h"]) (auto simp: heap_without_def victims_def)
qed


section \<open>The limit on creation\<close>

text \<open>Steps with the number of processes created so far.\<close>

inductive proc_trace :: "procs \<Rightarrow> nat \<Rightarrow> procs \<Rightarrow> bool" for s0 where
  start: "proc_trace s0 0 s0"
| created: "proc_trace s0 n s \<Longrightarrow> process_create s path argc argv c1 c2 = Some (s', r) \<Longrightarrow> r \<noteq> - 1 \<Longrightarrow> proc_trace s0 (Suc n) s'"
| other: "proc_trace s0 n s \<Longrightarrow> proc_step s s' \<Longrightarrow> proc_trace s0 n s'"

lemma only_switched_files: "only_switched s t \<Longrightarrow> files t = files s"
  by (simp add: only_switched_def)

lemma proc_step_nodes:
  assumes "proc_step s s'" and inv: "proc_inv s"
  shows "used_nodes (files s) \<subseteq> used_nodes (files s')"
  using assms(1)
proof cases
  case (create path argc argv c1 c2 r)
  with process_create_inv [OF inv] show ?thesis by blast
next
  case (exit regs status r)
  show ?thesis
  proof (cases "current_pid s < 0")
    case True
    with exit show ?thesis by (simp add: process_exit_def)
  next
    case False
    obtain h where "kill_children s (pid_of s (nat (current_pid s))) =
        Some (kill_all s (victims s (descendants s (pid_of s (nat (current_pid s))))) h)"
      using kill_children_inv [OF inv] by blast
    with exit False show ?thesis
      by (auto simp: process_exit_def Let_def split: if_splits)
  qed
next
  case (kill pid r)
  show ?thesis
  proof (cases "\<exists>i. process_get s pid = Some i \<and> int i \<noteq> current_pid s")
    case True
    then obtain i where i: "process_get s pid = Some i" "int i \<noteq> current_pid s" by blast
    show ?thesis
      by (rule process_kill_result [OF inv i]) (use kill in simp)
  next
    case False
    with kill show ?thesis
      by (auto simp: process_kill_def split: if_splits option.splits)
  qed
next
  case (yield regs)
  then show ?thesis
    using only_switched_files [OF process_yield_inv(2) [OF inv]] by simp
next
  case (schedule regs)
  then show ?thesis
    using only_switched_files [OF process_schedule_inv(2)] inv current_ok_switchable by (auto simp: proc_inv_def)
next
  case (timer regs r)
  then show ?thesis
    using irq_handler_inv [OF inv, of regs] only_switched_files by force
qed

text \<open>Whatever the system does, at most 32 processes can be created between two starts of the kernel: each creation
  takes a node of the compatibility file system, and no code gives it back.\<close>

theorem process_creation_limit:
  assumes "proc_inv s0" and "proc_trace s0 n s"
  shows "proc_inv s \<and> n + card (used_nodes (files s0)) \<le> card (used_nodes (files s)) \<and> n \<le> 32"
proof -
  have "proc_inv s \<and> n + card (used_nodes (files s0)) \<le> card (used_nodes (files s))"
    using assms(2)
  proof (induction rule: proc_trace.induct)
    case start
    with assms(1) show ?case by simp
  next
    case (created n s path argc argv c1 c2 s' r)
    then show ?case using process_create_inv [of s] by fastforce
  next
    case (other n s s')
    then have "card (used_nodes (files s)) \<le> card (used_nodes (files s'))"
      by (intro card_mono proc_step_nodes) simp_all
    with other proc_step_inv show ?case by fastforce
  qed
  moreover have "card (used_nodes (files s)) \<le> 32"
    using used_nodes_le by (simp add: MAX_VFS_NODES_def)
  ultimately show ?thesis by linarith
qed

end
