(* ===== verification/Process_Load.thy ===== *)
theory Process_Load
  imports Process_Run
begin

text \<open>
  Creation that succeeds, from the path to the first context, through the compatibility file system, the heap
  and the ELF loader; where programs are loaded after booting; and concrete process tables.
\<close>

section \<open>A program is loaded\<close>

text \<open>
  What creation needs of the program that is linked into the kernel: wherever the file lies in the heap, it is an
  executable image with the program headers \<open>phs\<close>, and its segments lie outside the heap.
\<close>

definition program_image :: "byte list \<Rightarrow> Elf64_Phdr list \<Rightarrow> addr \<Rightarrow> addr \<Rightarrow> bool" where
  "program_image img phs lo hi \<longleftrightarrow>
     (\<forall>m d. lo \<le> d \<and> d + length img \<le> hi \<and> read_bytes m d (length img) = img \<longrightarrow>
        exec_image m d (length img) phs \<and> elf_calc_size m d (length img) \<noteq> 0) \<and>
     (\<forall>ph \<in> set phs. loads ph \<longrightarrow> unat (p_vaddr ph) + seg_len ph \<le> lo \<or> hi \<le> unat (p_vaddr ph))"

text \<open>The contents of a segment and the entry point, read from the file.\<close>

definition segment_of :: "byte list \<Rightarrow> Elf64_Phdr \<Rightarrow> byte list" where
  "segment_of img ph = take (unat (p_filesz ph)) (drop (unat (p_offset ph)) img) @ replicate (unat (p_memsz ph) - unat (p_filesz ph)) 0"

definition entry_of :: "byte list \<Rightarrow> u64" where
  "entry_of img = le_word (take 8 (drop 24 img))"

lemma read_part: "k + n \<le> N \<Longrightarrow> read_bytes m (d + k) n = take n (drop k (read_bytes m d N))"
  by (rule nth_equalityI) (simp_all add: add.assoc)

lemma image_parts:
  assumes im: "exec_image m d (length img) phs" and img: "read_bytes m d (length img) = img"
  shows "e_entry m d = entry_of img" and "ph \<in> set phs \<Longrightarrow> loads ph \<Longrightarrow> seg_contents m d ph = segment_of img ph"
proof -
  have sz: "64 \<le> length img"
    using im by (auto simp: exec_image_def elf_validate_def split: if_splits)
  then show "e_entry m d = entry_of img"
    using read_part [of 24 8 "length img" m d] img by (simp add: e_entry_def entry_of_def read64_def)
  show "seg_contents m d ph = segment_of img ph" if "ph \<in> set phs" "loads ph"
  proof -
    have "unat (p_offset ph) + unat (p_filesz ph) \<le> length img"
      using im that unfolding exec_image_def by blast
    from read_part [OF this, of m d] img show ?thesis
      by (simp add: seg_contents_def segment_of_def)
  qed
qed

lemma room_less: "room h j \<Longrightarrow> k \<le> j \<Longrightarrow> room h k"
  unfolding room_def by (auto intro: le_trans)

lemma load_program_ok:
  assumes inv: "proc_inv s" and slot: "slot < MAX_PROCESSES" "proc_state (proc_table s slot) = PROC_STATE_READY"
    and h: "heap_inv h" "live h = insert (d, n) (live (pheap s))" "(d, n) \<notin> live (pheap s)" "length img \<le> n"
    and bounds: "heap_start h = heap_start (pheap s)" "heap_end h = heap_end (pheap s)"
    and img: "program_image img phs (heap_start (pheap s)) (heap_end (pheap s))" "read_bytes (kbytes h) d (length img) = img"
    and room: "room h (PROCESS_STACK_SIZE + header_size + MIN_ALLOC)"
  shows "\<exists>s' b k. load_program (s\<lparr>pheap := h\<rparr>) slot path d (length img) argc argv c1 c2 = Some (s', next_pid s) \<and> proc_inv s' \<and>
    files s' = files s \<and> pid_of s' slot = next_pid s \<and> parent_of s' slot = current_pid s \<and>
    proc_state (proc_table s' slot) = PROC_STATE_READY \<and>
    stack_base (proc_table s' slot) = Some b \<and> (b, k) \<in> live (pheap s') \<and> PROCESS_STACK_SIZE \<le> k \<and>
    (\<forall>i. i \<noteq> slot \<longrightarrow> proc_table s' i = proc_table s i) \<and> current_pid s' = current_pid s \<and>
    proc_ctx (proc_table s' slot) = initial_context s (entry_of img) b argc argv \<and>
    (\<forall>ph \<in> set phs. loads ph \<longrightarrow> read_bytes (kbytes (pheap s')) (unat (p_vaddr ph)) (seg_len ph) = segment_of img ph)"
proof -
  have "heap_start (pheap s) \<le> d" "d + length img \<le> heap_end (pheap s)"
    using live_bounds [OF h(1), of d n] h(2,4) bounds by simp_all
  then have im: "exec_image (kbytes h) d (length img) phs" "elf_calc_size (kbytes h) d (length img) \<noteq> 0"
    using img unfolding program_image_def by blast+
  note parts = image_parts [OF im(1) img(2)]
  obtain rnd off where off: "aslr_exec_offset (randomness s) c1 c2 = (rnd, off)"
    by (cases "aslr_exec_offset (randomness s) c1 c2")
  let ?la = "ALIGN_64K (next_load_addr s + off)"
  obtain m info where load: "elf_load_at (kbytes h) d (length img) ?la = Some (m, 0, Some info)" "info_entry info = entry_of img"
      "\<forall>ph \<in> set phs. loads ph \<longrightarrow> read_bytes m (unat (p_vaddr ph)) (seg_len ph) = seg_contents (kbytes h) d ph"
      "\<forall>a. (\<forall>ph \<in> set phs. loads ph \<longrightarrow> a < unat (p_vaddr ph) \<or> unat (p_vaddr ph) + seg_len ph \<le> a) \<longrightarrow> m a = kbytes h a"
    using elf_load_image [OF im(1), of ?la] unfolding parts(1) by blast
  have "m a = kbytes h a" if a: "heap_start h \<le> a" "a < heap_end h" for a
  proof -
    have "a < unat (p_vaddr ph) \<or> unat (p_vaddr ph) + seg_len ph \<le> a" if "ph \<in> set phs" "loads ph" for ph
    proof -
      have "unat (p_vaddr ph) + seg_len ph \<le> heap_start h \<or> heap_end h \<le> unat (p_vaddr ph)"
        using img(1) [unfolded program_image_def, THEN conjunct2] that unfolding bounds by blast
      with a show ?thesis by linarith
    qed
    with load(4) show ?thesis by blast
  qed
  then have outside: "\<not> loads_into_heap h m"
    by (auto simp: loads_into_heap_def)
  obtain h' where h': "kfree (h\<lparr>kbytes := m\<rparr>) (Some d) = Some h'" "heap_inv h'" "live h' = live (pheap s)" "kbytes h' = m"
    by (rule kfree_data [OF h(1-3), of "h\<lparr>kbytes := m\<rparr>" m]) simp_all
  have room': "room h' (PROCESS_STACK_SIZE + header_size + MIN_ALLOC)"
    by (rule kfree_room [where n = n, OF _ _ h'(1)]) (use h(1,2) room in \<open>simp_all add: heap_inv_bytes live_bytes room_bytes\<close>)
  let ?u = "s\<lparr>pheap := h', randomness := rnd, next_load_addr := ALIGN_64K (?la + info_size info + 0x10000)\<rparr>"
  have u: "proc_inv ?u" "proc_state (proc_table ?u slot) = PROC_STATE_READY"
    using proc_inv_heap [OF inv h'(2)] h'(3) slot(2) by (simp_all add: proc_inv_def)
  have run: "load_program (s\<lparr>pheap := h\<rparr>) slot path d (length img) argc argv c1 c2 = setup_process ?u slot path info argc argv"
    using im(2) off load(1) outside h'(1) by (simp add: load_program_def Let_def)
  from u(1) slot(1) u(2) show ?thesis
  proof (cases rule: setup_process_cases [where path = path and info = info and argc = argc and argv = argv])
    case (no_memory s')
    with room' show ?thesis by (fastforce simp: room_def)
  next
    case (created s' b k)
    moreover have "initial_context ?u = initial_context s"
      by (simp add: initial_context_def fun_eq_iff)
    ultimately show ?thesis
      unfolding run using load(2,3) parts(2) h'(4) by (intro exI [of _ s'] exI [of _ b] exI [of _ k]) simp
  qed
qed

lemma found_doom:
  assumes "cstr m path (literal ''/bin/doom'')"
  shows "found m path = (0, Doom_binary)"
proof -
  have "0 \<notin> set (literal ''/bin/doom'')"
    using assms by (rule cstr_nz)
  then have "strcmp_simple m path (literal ''/bin/doom'') = 0"
    using assms literal_compare by blast
  moreover have "m (path + 1) \<noteq> 0"
    using cstr_nth [OF assms, of 1] by (simp add: literal_def)
  ultimately show ?thesis
    by (simp add: found_def)
qed

lemma process_create_result:
  assumes inv: "proc_inv s" and free: "i < MAX_PROCESSES" "\<not> active s i" and nodes: "card (used_nodes (files s)) < MAX_VFS_NODES"
    and path: "cstr (kbytes (pheap s)) path (literal ''/bin/doom'')"
    and img: "doom_binary (files s) = img" "img \<noteq> []" "length img \<le> MAX_ALLOC" "program_image img phs (heap_start (pheap s)) (heap_end (pheap s))"
    and room: "room (pheap s) (length img + PROCESS_STACK_SIZE + 2 * (header_size + MIN_ALLOC))"
  shows "\<exists>s' slot. process_create s path argc argv c1 c2 = Some (s', next_pid s + 1) \<and> proc_inv s' \<and>
    new_process s s' slot (next_pid s + 1) \<and>
    (\<forall>ph \<in> set phs. loads ph \<longrightarrow> read_bytes (kbytes (pheap s')) (unat (p_vaddr ph)) (seg_len ph) = segment_of img ph) \<and>
    ctx_pc (proc_ctx (proc_table s' slot)) = entry_wrapper s \<and> ctx_x (proc_ctx (proc_table s' slot)) 19 = entry_of img"
  using inv
proof (cases rule: reserve_cases)
  case full
  with free show ?thesis by blast
next
  case (slot slot)
  let ?s = "with_slot s slot"
  note found = found_doom [OF path]
  obtain v nd where node: "vfs_lookup (files s) (kbytes (pheap s)) path = (v, Some nd)" "doom_binary v = img"
      "node_internal (node_pool v nd) = Doom_binary" "node_is_dir (node_pool v nd) = 0" "node_size (node_pool v nd) = length img"
    by (rule vfs_lookup_cases [of "files s" "kbytes (pheap s)" path]) (use nodes found img(1) in \<open>auto simp: node_contents_def\<close>)
  let ?t = "?s\<lparr>files := v\<rparr>"
  have t: "proc_inv ?t" "proc_state (proc_table ?t slot) = PROC_STATE_READY" "next_pid ?t = next_pid s + 1" "pheap ?t = pheap s"
    using slot(4) by (simp_all add: proc_inv_def)
  have heap: "heap_inv (pheap s)"
    using inv by (simp add: proc_inv_def stacks_ok_def)
  have sz: "0 < length img" "length img < 2 ^ 31"
    using img(2,3) by (simp_all add: MAX_ALLOC_def)
  have small: "room (pheap s) (length img + header_size + MIN_ALLOC)"
    by (rule room_less [OF room]) simp
  from heap obtain h d n where h: "kmalloc (pheap s) (length img) 0 = Some (h, Some d)" "heap_inv h" "length img \<le> n"
      "live h = insert (d, n) (live (pheap s))" "(d, n) \<notin> live (pheap s)" "kbytes h = kbytes (pheap s)"
      "heap_start h = heap_start (pheap s)" "heap_end h = heap_end (pheap s)" "room h (PROCESS_STACK_SIZE + header_size + MIN_ALLOC)"
  proof (cases rule: kmalloc_result [where sz = "length img" and flags = 0])
    case none
    with small sz(1) img(3) show ?thesis by (fastforce simp: room_def)
  next
    case (some h d n)
    have "room h (PROCESS_STACK_SIZE + header_size + MIN_ALLOC)"
      by (rule some(13)) (use room in \<open>simp_all add: algebra_simps\<close>)
    with some(1-5,8-10) that show ?thesis by simp
  qed
  let ?h = "h\<lparr>kbytes := write_bytes (kbytes h) d img\<rparr>"
  have read: "vfs_read_compat v (Some nd) (kbytes h) (Some d) (length img) 0 = (write_bytes (kbytes h) d img, int (length img))"
    using node(2,3,5) read_embedded_all [OF sz(2)] by (simp add: vfs_read_compat_def)
  have int: "sint (of_nat (length img) :: 32 word) = int (length img)"
    using sz(2) by (simp add: signed_of_nat signed_take_bit_int_eq_self)
  have run: "process_create s path argc argv c1 c2 = load_program (?t\<lparr>pheap := ?h\<rparr>) slot path d (length img) argc argv c1 c2"
    using slot(1) node h(1) sz(1) read int by (simp add: process_create_def vfs_is_dir_def Let_def)
  have h': "heap_inv ?h" "live ?h = insert (d, n) (live (pheap ?t))" "(d, n) \<notin> live (pheap ?t)" "length img \<le> n"
      "heap_start ?h = heap_start (pheap ?t)" "heap_end ?h = heap_end (pheap ?t)"
      "program_image img phs (heap_start (pheap ?t)) (heap_end (pheap ?t))" "read_bytes (kbytes ?h) d (length img) = img"
      "room ?h (PROCESS_STACK_SIZE + header_size + MIN_ALLOC)"
    using h img(4) read_write_same [of "kbytes h" d img] by (simp_all add: heap_inv_bytes live_bytes room_bytes)
  obtain s' b k where s': "load_program (?t\<lparr>pheap := ?h\<rparr>) slot path d (length img) argc argv c1 c2 = Some (s', next_pid ?t)" "proc_inv s'"
      "pid_of s' slot = next_pid ?t" "parent_of s' slot = current_pid ?t" "proc_state (proc_table s' slot) = PROC_STATE_READY"
      "stack_base (proc_table s' slot) = Some b" "(b, k) \<in> live (pheap s')" "PROCESS_STACK_SIZE \<le> k"
      "\<forall>i. i \<noteq> slot \<longrightarrow> proc_table s' i = proc_table ?t i" "current_pid s' = current_pid ?t"
      "proc_ctx (proc_table s' slot) = initial_context ?t (entry_of img) b argc argv"
      "\<forall>ph \<in> set phs. loads ph \<longrightarrow> read_bytes (kbytes (pheap s')) (unat (p_vaddr ph)) (seg_len ph) = segment_of img ph"
    using load_program_ok [OF t(1) slot(2) t(2) h'] by blast
  have "0 < next_pid s"
    using inv by (simp add: proc_inv_def table_pids_ok_def)
  then have "new_process s s' slot (next_pid s + 1)"
    unfolding new_process_def using s'(3-10) slot(2,3) by auto
  moreover have "ctx_pc (proc_ctx (proc_table s' slot)) = entry_wrapper s" "ctx_x (proc_ctx (proc_table s' slot)) 19 = entry_of img"
    using s'(11) by (simp_all add: initial_context_def Let_def)
  ultimately show ?thesis
    using s'(1,2,12) run t(3) by (intro exI [of _ s'] exI [of _ slot]) simp
qed


section \<open>Where programs go\<close>

lemma unat_ALIGN_64K:
  assumes "unat x + 0xFFFF < 2 ^ 64"
  shows "unat (ALIGN_64K x) = (unat x + 0xFFFF) div 2 ^ 16 * 2 ^ 16"
proof -
  have "ALIGN_64K x = (x + 0xFFFF) AND NOT (mask 16)"
    by (simp add: ALIGN_64K_def mask_eq_exp_minus_1)
  moreover have "unat (x + 0xFFFF) = unat x + 0xFFFF"
    using assms by (simp add: unat_word_ariths)
  ultimately show ?thesis
    by (simp only: unat_and_not_mask)
qed


section \<open>A program for the witnesses\<close>

lemma sample_bytes: "read_bytes sample_image 1000 124 = image_bytes"
proof -
  have "length image_bytes = 124" by code_simp
  then show ?thesis
    using read_write_same [of "\<lambda>_. 0" 1000 image_bytes] by (simp add: sample_image_def)
qed

text \<open>The sample image of the ELF loader at any place in memory.\<close>

lemma sample_anywhere:
  assumes img: "read_bytes m d 124 = image_bytes" and d: "5008 \<le> d" "d + 124 < 2 ^ 64"
  shows "exec_image m d 124 [sample_phdr]" and "elf_calc_size m d 124 \<noteq> 0"
proof -
  have same: "read_bytes m (d + k) n = read_bytes sample_image (1000 + k) n" if "k + n \<le> 124" for k n
    unfolding read_part [OF that] img sample_bytes ..
  have ident: "e_ident m d k = e_ident sample_image 1000 k" if "k < 124" for k
    using same [of k 1] that by (simp add: e_ident_def read_bytes_def)
  have fields: "e_type m d = e_type sample_image 1000" "e_machine m d = e_machine sample_image 1000" "e_phoff m d = e_phoff sample_image 1000"
      "e_phentsize m d = e_phentsize sample_image 1000" "e_phnum m d = e_phnum sample_image 1000"
    by (simp_all add: e_type_def e_machine_def e_phoff_def e_phentsize_def e_phnum_def read16_def read64_def same)
  have "elf_validate m d 124 = elf_validate sample_image 1000 124"
    by (simp add: elf_validate_def ident fields)
  then have valid: "elf_validate m d 124 = 0"
    using sample_image_fields(1) by simp
  have phdr: "phdr_at m (d + 64) = phdr_at sample_image 1064"
    by (simp add: phdr_at_def read32_def read64_def add.assoc same)
  show "exec_image m d 124 [sample_phdr]"
    using valid d by (simp add: exec_image_def fields phdr sample_image_fields)
      (simp add: sample_phdr_def seg_len_def disjoint_ranges_def)
  have "phdr_addr m d 0 = d + 64"
    using d u64_offset [of d 64] by (simp add: phdr_addr_def fields sample_image_fields)
  then have "calc_size_loop m d [0..<unat (e_phnum m d)] (- 1) 0 = (5000, 5008)"
    by (simp add: fields sample_image_fields phdr sample_phdr_def Let_def)
  with valid show "elf_calc_size m d 124 \<noteq> 0"
    by (simp add: elf_calc_size_def)
qed

lemma sample_program:
  assumes "5008 \<le> lo" and "hi < 2 ^ 64"
  shows "program_image image_bytes [sample_phdr] lo hi"
proof -
  have "length image_bytes = 124" "seg_len sample_phdr = 8" "unat (p_vaddr sample_phdr) = 5000"
    by code_simp+
  then show ?thesis
    unfolding program_image_def using sample_anywhere assms by auto
qed

section \<open>Concrete tables\<close>

definition blank_process :: process where
  "blank_process = \<lparr>proc_pid = 0, proc_name = \<lambda>_. 0, proc_state = PROC_STATE_FREE, load_base = 0, load_size = 0, stack_base = None,
     stack_size = 0, proc_entry = 0, proc_ctx = zero_ctx, exit_status = 0, parent_pid = 0\<rparr>"

text \<open>The kernel before \<open>process_init\<close>, with the path at address 4096.\<close>

definition unbooted :: procs where
  "unbooted = \<lparr>pheap = boot_heap\<lparr>kbytes := write_bytes (\<lambda>_. 0) 4096 (literal ''/bin/doom'' @ [0])\<rparr>,
     files = \<lparr>cwd = \<lambda>_. 0, node_pool = \<lambda>_. \<lparr>node_name = \<lambda>_. 0, node_size = 0, node_is_dir = 0, node_internal = No_data\<rparr>,
       node_used = \<lambda>_. False, doom_binary = image_bytes, doom_wad = []\<rparr>,
     randomness = \<lparr>aslr_seed = 0, aslr_initialized = False\<rparr>, proc_table = \<lambda>_. blank_process, current_pid = 0, next_pid = 0,
     current_process = None, kernel_context = zero_ctx, program_base = 0, next_load_addr = 0, entry_wrapper = 0x40200000, kapi = 0x40300000\<rparr>"

definition booted :: procs where
  "booted = process_init unbooted"

text \<open>A running process in slot 0, and one below it that is ready.\<close>

definition family :: procs where
  "family = booted\<lparr>next_pid := 5, current_pid := 0, current_process := Some 0,
     proc_table := (\<lambda>_. blank_process)(0 := blank_process\<lparr>proc_pid := 2, proc_state := PROC_STATE_RUNNING, parent_pid := - 1\<rparr>,
       1 := blank_process\<lparr>proc_pid := 3, proc_state := PROC_STATE_READY\<rparr>, 2 := blank_process\<lparr>proc_pid := 4, proc_state := PROC_STATE_READY, parent_pid := 3\<rparr>)\<rparr>"

lemma fresh_unbooted: "fresh_table unbooted"
  using boot_heap_inv by (simp add: fresh_table_def unbooted_def blank_process_def heap_inv_bytes)

lemma family_inv: "proc_inv family"
proof -
  have "table_pids_ok family"
    by (auto simp: table_pids_ok_def family_def blank_process_def MAX_PROCESSES_def)
  moreover have "stacks_ok family"
    using boot_heap_inv by (simp add: stacks_ok_def family_def booted_def process_init_def unbooted_def blank_process_def heap_inv_bytes)
  moreover have "current_ok family"
    by (rule current_ok_process [of _ 0]) (auto simp: family_def blank_process_def MAX_PROCESSES_def)
  ultimately show ?thesis
    by (simp add: proc_inv_def)
qed


theorem process_kill_tree_witness:
  "\<exists>s'. process_kill family 3 = Some (s', 0) \<and> \<not> active s' 1 \<and> \<not> active s' 2 \<and> active s' 0"
proof -
  have get: "process_get family 3 = Some 1"
    by (simp add: process_get_def family_def blank_process_def MAX_PROCESSES_def upt_rec)
  have cur: "int 1 \<noteq> current_pid family"
    by (simp add: family_def)
  have two: "2 \<in> descendants family 3"
    by (rule descendants.child) (simp_all add: family_def blank_process_def MAX_PROCESSES_def)
  have zero: "0 \<notin> descendants family 3"
    using descendants_newer [of family 0 3] family_inv by (auto simp: proc_inv_def family_def)
  obtain s' where s': "process_kill family 3 = Some (s', 0)"
      "\<forall>j. proc_table s' j = (if j = 1 \<or> j \<in> descendants family 3 \<and> int j \<noteq> current_pid family then killed (proc_table family j) else proc_table family j)"
    using process_kill_tree [OF family_inv get cur] by blast
  have "\<not> active s' 1" "\<not> active s' 2" "active s' 0"
    using s'(2) two zero by (auto simp: killed_def family_def)
  with s'(1) show ?thesis by blast
qed

theorem process_round_robin_witness:
  "\<exists>k \<le> 16. 0 < k \<and> current_pid (yields (take k (replicate 16 zero_ctx)) family) = 2"
proof -
  have "2 < MAX_PROCESSES" "proc_state (proc_table family 2) = PROC_STATE_READY" "length (replicate 16 zero_ctx) = MAX_PROCESSES"
    by (simp_all add: family_def MAX_PROCESSES_def)
  from process_round_robin [OF family_inv this] show ?thesis
    by (simp add: MAX_PROCESSES_def)
qed

text \<open>The running process creates another one.\<close>

lemma family_room: "room (pheap family) (length image_bytes + PROCESS_STACK_SIZE + 2 * (header_size + MIN_ALLOC))"
proof -
  have "(HEAP_BASE, bsize (hdr boot_heap HEAP_BASE)) \<in> free_blocks boot_heap"
    by (simp add: free_blocks_eq [OF boot_heap_wf])
  moreover have "length image_bytes = 124"
    by code_simp
  then have "length image_bytes + PROCESS_STACK_SIZE + 2 * (header_size + MIN_ALLOC) \<le> bsize (hdr boot_heap HEAP_BASE)"
    by (simp add: PROCESS_STACK_SIZE_def boot_heap_def kmalloc_init_def raw_heap_def Let_def HEAP_BASE_def PMM_MEMORY_BASE_def
        DEFAULT_HEAP_SIZE_def MIN_HEAP_SIZE_def)
  ultimately have "room boot_heap (length image_bytes + PROCESS_STACK_SIZE + 2 * (header_size + MIN_ALLOC))"
    unfolding room_def by blast
  then show ?thesis
    by (simp add: family_def booted_def process_init_def unbooted_def room_bytes)
qed

lemma family_ready:
  "3 < MAX_PROCESSES" "\<not> active family 3" "card (used_nodes (files family)) < MAX_VFS_NODES"
  "cstr (kbytes (pheap family)) 4096 (literal ''/bin/doom'')" "doom_binary (files family) = image_bytes" "image_bytes \<noteq> []"
  "length image_bytes \<le> MAX_ALLOC" "program_image image_bytes [sample_phdr] (heap_start (pheap family)) (heap_end (pheap family))"
proof -
  have "length image_bytes = 124"
    by code_simp
  then show "image_bytes \<noteq> []" "length image_bytes \<le> MAX_ALLOC"
    by (auto simp: MAX_ALLOC_def)
  show "3 < MAX_PROCESSES" "\<not> active family 3" "doom_binary (files family) = image_bytes"
    by (simp_all add: family_def booted_def process_init_def unbooted_def blank_process_def MAX_PROCESSES_def)
  show "card (used_nodes (files family)) < MAX_VFS_NODES"
    by (simp add: used_nodes_def family_def booted_def process_init_def unbooted_def MAX_VFS_NODES_def)
  have "0 \<notin> set (literal ''/bin/doom'')"
    by (simp add: literal_def)
  then show "cstr (kbytes (pheap family)) 4096 (literal ''/bin/doom'')"
    using cstr_write by (simp add: family_def booted_def process_init_def unbooted_def)
  show "program_image image_bytes [sample_phdr] (heap_start (pheap family)) (heap_end (pheap family))"
    by (rule sample_program) (simp_all add: family_def booted_def process_init_def unbooted_def boot_heap_def kmalloc_init_def raw_heap_def
        Let_def HEAP_BASE_def PMM_MEMORY_BASE_def DEFAULT_HEAP_SIZE_def MIN_HEAP_SIZE_def)
qed


lemma family_creates: "\<exists>s'. process_create family 4096 0 0 (1, 2) (3, 4) = Some (s', 6)"
proof -
  have "next_pid family = 5"
    by (simp add: family_def)
  with process_create_result [OF family_inv family_ready family_room, of 0 0 "(1, 2)" "(3, 4)"] show ?thesis
    by auto
qed


theorem process_creation_limit_witness: "\<exists>s. proc_trace family 1 s \<and> 1 \<le> card (used_nodes (files s))"
proof -
  obtain s' where s': "process_create family 4096 0 0 (1, 2) (3, 4) = Some (s', 6)"
    using family_creates by blast
  have "proc_trace family (Suc 0) s'"
    by (rule proc_trace.created [OF proc_trace.start s']) simp
  with process_creation_limit [OF family_inv this] show ?thesis
    by (intro exI [of _ s']) simp
qed


end
