(* ===== verification/Socket.thy ===== *)
theory Socket
  imports Kmalloc "HOL-Library.Monad_Syntax"
begin

text \<open>
  The socket table, \<^verbatim>\<open>kernel/net/socket.c\<close>: 256 pointers to socket structures on the kernel heap. The
  theory models every operation on the table, specifies the calls as operations on a finite map from
  descriptors to sockets, and proves that the table implements the map and stays well-formed while the
  rest of the kernel uses the heap. The byte order and checksum routines of the file are in
  \<open>Net_Checksum\<close>.
\<close>

section \<open>State\<close>

definition MAX_SOCKETS :: nat where "MAX_SOCKETS = 256"

abbreviation (input) "EAGAIN \<equiv> (11 :: int)"
abbreviation (input) "EMFILE \<equiv> (24 :: int)"
abbreviation (input) "ESOCKTNOSUPPORT \<equiv> (94 :: int)"
abbreviation (input) "EOPNOTSUPP \<equiv> (95 :: int)"
abbreviation (input) "EAFNOSUPPORT \<equiv> (97 :: int)"
abbreviation (input) "ENOTCONN \<equiv> (107 :: int)"

abbreviation (input) "AF_INET \<equiv> (2 :: int)"
abbreviation (input) "AF_INET6 \<equiv> (10 :: int)"
abbreviation (input) "SOCK_STREAM \<equiv> (1 :: int)"
abbreviation (input) "SOCK_DGRAM \<equiv> (2 :: int)"
abbreviation (input) "SOCK_RAW \<equiv> (3 :: int)"
abbreviation (input) "SS_UNCONNECTED \<equiv> (1 :: int)"
abbreviation (input) "SS_CONNECTING \<equiv> (2 :: int)"
abbreviation (input) "SS_CONNECTED \<equiv> (3 :: int)"

abbreviation (input) "sizeof_sockaddr \<equiv> (16 :: nat)"
abbreviation (input) "sizeof_sockaddr_storage \<equiv> (128 :: nat)"
abbreviation (input) "sizeof_socket \<equiv> (280 :: nat)"

text \<open>The two addresses are the bytes of a \<^verbatim>\<open>struct sockaddr_storage\<close>, the family first.\<close>

record socket =
  sock_type :: int
  sock_protocol :: int
  sock_state :: int
  local_addr :: "byte list"
  remote_addr :: "byte list"
  sk :: ptr

text \<open>Socket structures live at the addresses the heap gave out.\<close>

record sock_sys =
  sheap :: kheap
  socks :: "addr \<Rightarrow> socket"
  socket_table :: "ptr list"
  next_sockfd :: nat

section \<open>Operations\<close>

definition net_init :: "sock_sys \<Rightarrow> sock_sys" where
  "net_init s = s\<lparr>socket_table := replicate MAX_SOCKETS None\<rparr>"

function alloc_sockfd_loop :: "sock_sys \<Rightarrow> nat \<Rightarrow> sock_sys \<times> int" where
  "alloc_sockfd_loop s i =
     (if i < MAX_SOCKETS
      then let fd = (next_sockfd s + i) mod MAX_SOCKETS in
           if socket_table s ! fd = None then (s\<lparr>next_sockfd := fd + 1\<rparr>, int fd)
           else alloc_sockfd_loop s (i + 1)
      else (s, - EMFILE))"
  by pat_completeness auto
termination
  by (relation "measure (\<lambda>(s, i). MAX_SOCKETS - i)") auto

declare alloc_sockfd_loop.simps [simp del]

definition alloc_sockfd :: "sock_sys \<Rightarrow> sock_sys \<times> int" where
  "alloc_sockfd s = alloc_sockfd_loop s 0"

text \<open>The structure \<open>kzalloc\<close> cleared, with the fields that \<open>socket_create\<close> assigns.\<close>

definition fresh_socket :: "int \<Rightarrow> int \<Rightarrow> int \<Rightarrow> socket" where
  "fresh_socket family type protocol =
     (let address = le_bytes 2 (word_of_int family :: u16) @ replicate (sizeof_sockaddr_storage - 2) 0
      in \<lparr>sock_type = type, sock_protocol = protocol, sock_state = SS_UNCONNECTED,
          local_addr = address, remote_addr = address, sk = None\<rparr>)"

definition socket_create :: "sock_sys \<Rightarrow> int \<Rightarrow> int \<Rightarrow> int \<Rightarrow> (sock_sys \<times> int) option" where
  "socket_create s family type protocol =
     (if family \<noteq> AF_INET \<and> family \<noteq> AF_INET6 then Some (s, - EAFNOSUPPORT)
      else if type \<noteq> SOCK_STREAM \<and> type \<noteq> SOCK_DGRAM \<and> type \<noteq> SOCK_RAW then Some (s, - ESOCKTNOSUPPORT)
      else let (s1, fd) = alloc_sockfd s in
           if fd < 0 then Some (s1, fd)
           else do {
             (h, r) \<leftarrow> kzalloc (sheap s1) sizeof_socket GFP_KERNEL;
             (case r of
                None \<Rightarrow> Some (s1\<lparr>sheap := h\<rparr>, - ENOMEM)
              | Some sock \<Rightarrow>
                  Some (s1\<lparr>sheap := h, socks := (socks s1)(sock := fresh_socket family type protocol),
                           socket_table := (socket_table s1)[nat fd := Some sock]\<rparr>, fd))
           })"

text \<open>The guard of the other calls: the socket a descriptor names.\<close>

definition socket_at :: "sock_sys \<Rightarrow> int \<Rightarrow> ptr" where
  "socket_at s sockfd =
     (if sockfd < 0 \<or> sockfd \<ge> int MAX_SOCKETS then None else socket_table s ! nat sockfd)"

text \<open>The loop that copies an address into a socket, no further than its storage.\<close>

function copy_address :: "mem \<Rightarrow> addr \<Rightarrow> nat \<Rightarrow> byte list \<Rightarrow> nat \<Rightarrow> byte list" where
  "copy_address m src addrlen dst i =
     (if i < addrlen \<and> i < sizeof_sockaddr_storage
      then copy_address m src addrlen (dst[i := m (src + i)]) (i + 1) else dst)"
  by pat_completeness auto
termination
  by (relation "measure (\<lambda>(m, src, addrlen, dst, i). addrlen - i)") auto

declare copy_address.simps [simp del]

definition socket_bind :: "sock_sys \<Rightarrow> int \<Rightarrow> ptr \<Rightarrow> nat \<Rightarrow> sock_sys \<times> int" where
  "socket_bind s sockfd address addrlen =
     (case socket_at s sockfd of
        None \<Rightarrow> (s, - EBADF)
      | Some sock \<Rightarrow>
          if address = None \<or> addrlen < sizeof_sockaddr then (s, - EINVAL)
          else let a = copy_address (kbytes (sheap s)) (the address) addrlen (local_addr (socks s sock)) 0
               in (s\<lparr>socks := (socks s)(sock := (socks s sock)\<lparr>local_addr := a\<rparr>)\<rparr>, 0))"

definition socket_listen :: "sock_sys \<Rightarrow> int \<Rightarrow> int \<Rightarrow> sock_sys \<times> int" where
  "socket_listen s sockfd backlog =
     (case socket_at s sockfd of
        None \<Rightarrow> (s, - EBADF)
      | Some sock \<Rightarrow>
          if sock_type (socks s sock) \<noteq> SOCK_STREAM then (s, - EOPNOTSUPP)
          else (s\<lparr>socks := (socks s)(sock := (socks s sock)\<lparr>sock_state := SS_UNCONNECTED\<rparr>)\<rparr>, 0))"

definition socket_accept :: "sock_sys \<Rightarrow> int \<Rightarrow> sock_sys \<times> int" where
  "socket_accept s sockfd = (if socket_at s sockfd = None then (s, - EBADF) else (s, - EAGAIN))"

definition socket_connect :: "sock_sys \<Rightarrow> int \<Rightarrow> ptr \<Rightarrow> nat \<Rightarrow> sock_sys \<times> int" where
  "socket_connect s sockfd address addrlen =
     (case socket_at s sockfd of
        None \<Rightarrow> (s, - EBADF)
      | Some sock \<Rightarrow>
          if address = None \<or> addrlen < sizeof_sockaddr then (s, - EINVAL)
          else let a = copy_address (kbytes (sheap s)) (the address) addrlen (remote_addr (socks s sock)) 0;
                   s1 = s\<lparr>socks := (socks s)(sock := (socks s sock)\<lparr>remote_addr := a, sock_state := SS_CONNECTING\<rparr>)\<rparr>
               in (s1\<lparr>socks := (socks s1)(sock := (socks s1 sock)\<lparr>sock_state := SS_CONNECTED\<rparr>)\<rparr>, 0))"

text \<open>The conversion of a \<^verbatim>\<open>size_t\<close> to a \<^verbatim>\<open>ssize_t\<close>.\<close>

definition to_ssize :: "nat \<Rightarrow> int" where
  "to_ssize n = sint (of_nat n :: u64)"

definition socket_send :: "sock_sys \<Rightarrow> int \<Rightarrow> ptr \<Rightarrow> nat \<Rightarrow> sock_sys \<times> int" where
  "socket_send s sockfd buf len =
     (case socket_at s sockfd of
        None \<Rightarrow> (s, - EBADF)
      | Some sock \<Rightarrow>
          if buf = None then (s, - EINVAL)
          else if sock_state (socks s sock) \<noteq> SS_CONNECTED \<and> sock_type (socks s sock) = SOCK_STREAM
          then (s, - ENOTCONN)
          else (s, to_ssize len))"

definition socket_recv :: "sock_sys \<Rightarrow> int \<Rightarrow> ptr \<Rightarrow> nat \<Rightarrow> sock_sys \<times> int" where
  "socket_recv s sockfd buf len =
     (case socket_at s sockfd of
        None \<Rightarrow> (s, - EBADF)
      | Some sock \<Rightarrow>
          if buf = None then (s, - EINVAL)
          else if sock_state (socks s sock) \<noteq> SS_CONNECTED \<and> sock_type (socks s sock) = SOCK_STREAM
          then (s, - ENOTCONN)
          else (s, 0))"

definition socket_close :: "sock_sys \<Rightarrow> int \<Rightarrow> (sock_sys \<times> int) option" where
  "socket_close s sockfd =
     (case socket_at s sockfd of
        None \<Rightarrow> Some (s, - EBADF)
      | Some sock \<Rightarrow> do {
          h \<leftarrow> kfree (sheap s) (Some sock);
          Some (s\<lparr>sheap := h, socket_table := (socket_table s)[nat sockfd := None]\<rparr>, 0)
        })"

section \<open>The table as a map\<close>

text \<open>What a descriptor means: nothing, or a socket.\<close>

definition sockets :: "sock_sys \<Rightarrow> int \<Rightarrow> socket option" where
  "sockets s fd = map_option (socks s) (socket_at s fd)"

datatype socket_call =
    Bind int ptr nat
  | Listen int int
  | Accept int
  | Connect int ptr nat
  | Send int ptr nat
  | Recv int ptr nat
  | Close int

fun run_call :: "sock_sys \<Rightarrow> socket_call \<Rightarrow> (sock_sys \<times> int) option" where
  "run_call s (Bind fd a n) = Some (socket_bind s fd a n)"
| "run_call s (Listen fd n) = Some (socket_listen s fd n)"
| "run_call s (Accept fd) = Some (socket_accept s fd)"
| "run_call s (Connect fd a n) = Some (socket_connect s fd a n)"
| "run_call s (Send fd b n) = Some (socket_send s fd b n)"
| "run_call s (Recv fd b n) = Some (socket_recv s fd b n)"
| "run_call s (Close fd) = socket_close s fd"

text \<open>
  The calls as a specification: every call on a descriptor without a socket fails with \<open>-EBADF\<close>, an
  address is stored up to 128 bytes over the old one, and a stream has to be connected before data is
  accepted or asked for.
\<close>

definition store_address :: "mem \<Rightarrow> addr \<Rightarrow> nat \<Rightarrow> byte list \<Rightarrow> byte list" where
  "store_address m src n old = read_bytes m src (min n 128) @ drop (min n 128) old"

definition socket_ready :: "socket \<Rightarrow> bool" where
  "socket_ready k \<longleftrightarrow> sock_state k = SS_CONNECTED \<or> sock_type k \<noteq> SOCK_STREAM"

fun descriptor :: "socket_call \<Rightarrow> int" where
  "descriptor (Bind fd _ _) = fd"
| "descriptor (Listen fd _) = fd"
| "descriptor (Accept fd) = fd"
| "descriptor (Connect fd _ _) = fd"
| "descriptor (Send fd _ _) = fd"
| "descriptor (Recv fd _ _) = fd"
| "descriptor (Close fd) = fd"

fun call_effect :: "mem \<Rightarrow> socket \<Rightarrow> socket_call \<Rightarrow> socket option \<times> int" where
  "call_effect m k (Bind _ (Some a) n) =
     (if n < 16 then (Some k, - EINVAL) else (Some (k\<lparr>local_addr := store_address m a n (local_addr k)\<rparr>), 0))"
| "call_effect m k (Bind _ None _) = (Some k, - EINVAL)"
| "call_effect m k (Listen _ _) =
     (if sock_type k = SOCK_STREAM then (Some (k\<lparr>sock_state := SS_UNCONNECTED\<rparr>), 0) else (Some k, - EOPNOTSUPP))"
| "call_effect m k (Accept _) = (Some k, - EAGAIN)"
| "call_effect m k (Connect _ (Some a) n) =
     (if n < 16 then (Some k, - EINVAL)
      else (Some (k\<lparr>remote_addr := store_address m a n (remote_addr k), sock_state := SS_CONNECTED\<rparr>), 0))"
| "call_effect m k (Connect _ None _) = (Some k, - EINVAL)"
| "call_effect m k (Send _ b n) =
     (Some k, if b = None then - EINVAL else if socket_ready k then to_ssize n else - ENOTCONN)"
| "call_effect m k (Recv _ b n) =
     (Some k, if b = None then - EINVAL else if socket_ready k then 0 else - ENOTCONN)"
| "call_effect m k (Close _) = (None, 0)"

definition call_spec :: "mem \<Rightarrow> (int \<Rightarrow> socket option) \<Rightarrow> socket_call \<Rightarrow> (int \<Rightarrow> socket option) \<times> int" where
  "call_spec m T c =
     (case T (descriptor c) of
        None \<Rightarrow> (T, - EBADF)
      | Some k \<Rightarrow> (let (k', r) = call_effect m k c in (T(descriptor c := k'), r)))"

section \<open>The invariant\<close>

definition socket_ok :: "socket \<Rightarrow> bool" where
  "socket_ok k \<longleftrightarrow> sock_type k \<in> {SOCK_STREAM, SOCK_DGRAM, SOCK_RAW} \<and>
     sock_state k \<in> {SS_UNCONNECTED, SS_CONNECTED} \<and> sk k = None \<and>
     length (local_addr k) = 128 \<and> length (remote_addr k) = 128"

text \<open>
  Each used slot has a block of its own on the heap, large enough for a socket, and a well-formed socket
  in it.
\<close>

definition slot_ok :: "kheap \<Rightarrow> (addr \<Rightarrow> socket) \<Rightarrow> ptr \<Rightarrow> bool" where
  "slot_ok h ks p = (case p of None \<Rightarrow> True
     | Some a \<Rightarrow> (\<exists>n \<ge> sizeof_socket. (a, n) \<in> live h) \<and> socket_ok (ks a))"

definition no_sharing :: "ptr list \<Rightarrow> bool" where
  "no_sharing xs \<longleftrightarrow> (\<forall>i < length xs. \<forall>j < length xs. xs ! i \<noteq> None \<longrightarrow> xs ! i = xs ! j \<longrightarrow> i = j)"

definition sock_inv :: "sock_sys \<Rightarrow> bool" where
  "sock_inv s \<longleftrightarrow> heap_inv (sheap s) \<and> length (socket_table s) = MAX_SOCKETS \<and> next_sockfd s \<le> MAX_SOCKETS \<and>
     (\<forall>p \<in> set (socket_table s). slot_ok (sheap s) (socks s) p) \<and>
     no_sharing (socket_table s)"

lemma MAX_SOCKETS_pos [simp]: "0 < MAX_SOCKETS" "MAX_SOCKETS \<noteq> 0"
  by (simp_all add: MAX_SOCKETS_def)

lemma socket_at_nth:
  "socket_at s fd = Some a \<longleftrightarrow> (\<exists>i < MAX_SOCKETS. fd = int i \<and> socket_table s ! i = Some a)"
  by (auto simp: socket_at_def intro!: exI [of _ "nat fd"])

lemma socket_at_fields [simp]:
  "socket_at (s\<lparr>socks := f\<rparr>) = socket_at s"
  "socket_at (s\<lparr>sheap := h\<rparr>) = socket_at s"
  "socket_at (s\<lparr>next_sockfd := n\<rparr>) = socket_at s"
  by (simp_all add: socket_at_def fun_eq_iff)

lemma socket_at_inj:
  "sock_inv s \<Longrightarrow> socket_at s fd = Some a \<Longrightarrow> socket_at s fd' = Some a \<Longrightarrow> fd' = fd"
  by (auto simp: socket_at_nth sock_inv_def no_sharing_def)

lemma sock_inv_slot:
  assumes "sock_inv s" and "socket_at s fd = Some a"
  obtains n where "(a, n) \<in> live (sheap s)" and "sizeof_socket \<le> n" and "socket_ok (socks s a)"
    and "Some a \<in> set (socket_table s)"
proof -
  from assms obtain i where i: "i < length (socket_table s)" "socket_table s ! i = Some a"
    by (auto simp: socket_at_nth sock_inv_def)
  then have mem: "Some a \<in> set (socket_table s)"
    by (metis nth_mem)
  with assms(1) have "slot_ok (sheap s) (socks s) (Some a)"
    by (auto simp: sock_inv_def)
  with mem that show ?thesis
    by (auto simp: slot_ok_def)
qed

text \<open>Changing one socket in place changes one entry of the map, since no two slots share a structure.\<close>

lemma update_socket:
  assumes inv: "sock_inv s" and at: "socket_at s fd = Some a" and ok: "socket_ok k"
  shows "sock_inv (s\<lparr>socks := (socks s)(a := k)\<rparr>)"
    and "sockets (s\<lparr>socks := (socks s)(a := k)\<rparr>) = (sockets s)(fd \<mapsto> k)"
proof -
  show "sock_inv (s\<lparr>socks := (socks s)(a := k)\<rparr>)"
    using inv ok by (auto simp: sock_inv_def slot_ok_def split: option.splits)
  have "map_option ((socks s)(a := k)) (socket_at s x) = ((sockets s)(fd \<mapsto> k)) x" for x
    using socket_at_inj [OF inv at, of x] at by (cases "socket_at s x") (auto simp: sockets_def)
  then show "sockets (s\<lparr>socks := (socks s)(a := k)\<rparr>) = (sockets s)(fd \<mapsto> k)"
    by (auto simp: sockets_def [of "s\<lparr>socks := _\<rparr>"])
qed

lemma copy_address_eq:
  "length dst = 128 \<Longrightarrow> i \<le> min n 128 \<Longrightarrow>
     copy_address m src n dst i = take i dst @ read_bytes m (src + i) (min n 128 - i) @ drop (min n 128) dst"
proof (induction m src n dst i rule: copy_address.induct)
  case (1 m src n dst i)
  show ?case
  proof (cases "i < n \<and> i < 128")
    case True
    then have "copy_address m src n dst i = copy_address m src n (dst[i := m (src + i)]) (i + 1)"
      by (subst copy_address.simps) simp
    also have "\<dots> = take (i + 1) (dst[i := m (src + i)]) @ read_bytes m (src + (i + 1)) (min n 128 - (i + 1)) @
        drop (min n 128) (dst[i := m (src + i)])"
      using 1 True by simp
    also have "take (i + 1) (dst[i := m (src + i)]) = take i dst @ [m (src + i)]"
      using 1(2) True by (simp add: take_Suc_conv_app_nth)
    also have "drop (min n 128) (dst[i := m (src + i)]) = drop (min n 128) dst"
      using True by simp
    also have "(take i dst @ [m (src + i)]) @ read_bytes m (src + (i + 1)) (min n 128 - (i + 1)) @ drop (min n 128) dst
        = take i dst @ read_bytes m (src + i) (Suc (min n 128 - (i + 1))) @ drop (min n 128) dst"
      by (simp add: read_bytes_Suc)
    also have "Suc (min n 128 - (i + 1)) = min n 128 - i"
      using True by arith
    finally show ?thesis .
  next
    case False
    with 1(3) have "i = min n 128" and "copy_address m src n dst i = dst"
      by (auto simp: copy_address.simps)
    then show ?thesis by simp
  qed
qed

lemma copy_address_store: "length dst = 128 \<Longrightarrow> copy_address m src n dst 0 = store_address m src n dst"
  by (simp add: copy_address_eq store_address_def)

lemma length_store_address [simp]: "length old = 128 \<Longrightarrow> length (store_address m src n old) = 128"
  by (auto simp: store_address_def)

section \<open>The calls implement their specification\<close>

text \<open>The blocks in use that belong to somebody else.\<close>

definition other_blocks :: "sock_sys \<Rightarrow> (addr \<times> nat) set" where
  "other_blocks s = {(a, n) \<in> live (sheap s). Some a \<notin> set (socket_table s)}"

definition implements :: "sock_sys \<Rightarrow> (int \<Rightarrow> socket option) \<Rightarrow> sock_sys \<Rightarrow> bool" where
  "implements s T s' \<longleftrightarrow> sock_inv s' \<and> sockets s' = T \<and> other_blocks s' = other_blocks s"

lemma implements_same [simp]: "sock_inv s \<Longrightarrow> implements s (sockets s) s"
  by (simp add: implements_def)

lemma implements_update:
  assumes "sock_inv s" and "socket_at s fd = Some a" and "socket_ok k"
  shows "implements s ((sockets s)(fd \<mapsto> k)) (s\<lparr>socks := (socks s)(a := k)\<rparr>)"
  using update_socket [OF assms] by (simp add: implements_def other_blocks_def)

lemma set_clear_slot:
  assumes "no_sharing xs" and "i < length xs" and "xs ! i = Some a"
  shows "set (xs[i := None]) = insert None (set xs - {Some a})"
proof -
  have "xs ! j = xs ! i \<longleftrightarrow> j = i" if "j < length xs" for j
    using assms that unfolding no_sharing_def by (metis option.distinct(1))
  then have "x \<in> set xs - {Some a} \<longleftrightarrow> (\<exists>j < length xs. j \<noteq> i \<and> xs ! j = x)" for x
    using assms(2,3) by (auto simp: in_set_conv_nth)
  moreover have "x \<in> set (xs[i := None]) \<longleftrightarrow> x = None \<or> (\<exists>j < length xs. j \<noteq> i \<and> xs ! j = x)" for x
    using assms(2) by (auto simp: in_set_conv_nth nth_list_update)
  ultimately show ?thesis
    by (intro set_eqI) (simp only: insert_iff)
qed

lemma no_sharing_clear: "no_sharing xs \<Longrightarrow> no_sharing (xs[i := None])"
  by (cases "i < length xs") (auto simp: no_sharing_def nth_list_update split: if_splits)

lemma no_sharing_set: "no_sharing xs \<Longrightarrow> Some a \<notin> set xs \<Longrightarrow> no_sharing (xs[i := Some a])"
  by (cases "i < length xs") (auto simp: no_sharing_def nth_list_update in_set_conv_nth split: if_splits)

lemma close_refines:
  assumes inv: "sock_inv s" and at: "socket_at s fd = Some a"
  shows "\<exists>s'. socket_close s fd = Some (s', 0) \<and> implements s ((sockets s)(fd := None)) s'"
proof -
  from at obtain i where i: "i < MAX_SOCKETS" "fd = int i" "socket_table s ! i = Some a"
    by (auto simp: socket_at_nth)
  from inv have len: "length (socket_table s) = MAX_SOCKETS" and ns: "no_sharing (socket_table s)"
    and hinv: "heap_inv (sheap s)" and nx: "next_sockfd s \<le> MAX_SOCKETS"
    and slots: "\<forall>p \<in> set (socket_table s). slot_ok (sheap s) (socks s) p"
    by (simp_all add: sock_inv_def)
  obtain n where n: "(a, n) \<in> live (sheap s)" "Some a \<in> set (socket_table s)"
    using sock_inv_slot [OF inv at] by metis
  obtain h where h: "kfree (sheap s) (Some a) = Some h" "heap_inv h" "live h = live (sheap s) - {(a, n)}"
    using kernel_heap.release_ok [OF hinv n(1)] by blast
  let ?s = "s\<lparr>sheap := h, socket_table := (socket_table s)[i := None]\<rparr>"
  have set: "set (socket_table ?s) = insert None (set (socket_table s) - {Some a})"
    using set_clear_slot [OF ns, of i a] i len by simp
  have "slot_ok h (socks s) p" if "p \<in> set (socket_table ?s)" for p
    using that slots unfolding set by (auto simp: slot_ok_def h(3) split: option.splits)
  then have "sock_inv ?s"
    using h(2) len nx no_sharing_clear [OF ns] by (simp add: sock_inv_def)
  moreover have "sockets ?s = (sockets s)(fd := None)"
    using i len by (auto simp: sockets_def socket_at_def fun_eq_iff nth_list_update nat_eq_iff)
  moreover have "(b, k) \<in> live (sheap s) \<Longrightarrow> b = a \<Longrightarrow> k = n" for b k
    using live_functional [OF hinv] n(1) by blast
  then have "other_blocks ?s = other_blocks s"
    using n(2) by (auto simp: other_blocks_def h(3) set [simplified])
  moreover have "socket_close s fd = Some (?s, 0)"
    using at h(1) i(2) by (simp add: socket_close_def)
  ultimately show ?thesis
    by (auto simp: implements_def)
qed

lemma call_refines:
  assumes inv: "sock_inv s"
  shows "\<exists>s' T r. run_call s c = Some (s', r) \<and> call_spec (kbytes (sheap s)) (sockets s) c = (T, r) \<and>
    implements s T s'"
proof (cases "socket_at s (descriptor c)")
  case None
  then show ?thesis
    using inv by (cases c) (simp_all add: call_spec_def sockets_def socket_bind_def socket_listen_def
      socket_accept_def socket_connect_def socket_send_def socket_recv_def socket_close_def)
next
  case (Some a)
  obtain ok: "socket_ok (socks s a)"
    using sock_inv_slot [OF inv Some] by metis
  note upd = implements_update [OF inv Some]
  have at: "sockets s (descriptor c) = Some (socks s a)"
    using Some by (simp add: sockets_def)
  have same: "(sockets s)(descriptor c \<mapsto> socks s a) = sockets s"
    using at by (simp add: fun_upd_idem)
  note defs = call_spec_def socket_bind_def socket_listen_def socket_accept_def socket_connect_def
    socket_send_def socket_recv_def socket_ready_def Let_def
  show ?thesis
  proof (cases c)
    case (Close fd)
    with close_refines [OF inv, of fd a] Some at show ?thesis
      by (auto simp: call_spec_def)
  next
    case (Bind fd p n)
    with Some at same inv upd [of "(socks s a)\<lparr>local_addr := store_address (kbytes (sheap s)) (the p) n (local_addr (socks s a))\<rparr>"] ok show ?thesis
      by (cases p) (auto simp: defs socket_ok_def copy_address_store)
  next
    case (Connect fd p n)
    with Some at same inv upd [of "(socks s a)\<lparr>remote_addr := store_address (kbytes (sheap s)) (the p) n (remote_addr (socks s a)), sock_state := SS_CONNECTED\<rparr>"] ok show ?thesis
      by (cases p) (auto simp: defs socket_ok_def copy_address_store)
  next
    case (Listen fd n)
    with Some at same inv upd [of "(socks s a)\<lparr>sock_state := SS_UNCONNECTED\<rparr>"] ok show ?thesis
      by (auto simp: defs socket_ok_def)
  qed (use Some at same inv in \<open>auto simp: defs\<close>)
qed

section \<open>Creating sockets\<close>

text \<open>The search takes the first free slot from \<open>next_sockfd\<close> on, cyclically.\<close>

abbreviation probe :: "sock_sys \<Rightarrow> nat \<Rightarrow> nat" where
  "probe s k \<equiv> (next_sockfd s + k) mod MAX_SOCKETS"

definition first_free :: "sock_sys \<Rightarrow> nat \<Rightarrow> bool" where
  "first_free s fd \<longleftrightarrow> (\<exists>k < MAX_SOCKETS. fd = probe s k \<and> socket_table s ! fd = None \<and>
     (\<forall>j < k. socket_table s ! probe s j \<noteq> None))"

lemma alloc_sockfd_loop_cases:
  assumes "i \<le> MAX_SOCKETS" and "\<forall>j < i. socket_table s ! probe s j \<noteq> None"
  obtains (found) fd where "first_free s fd" and "alloc_sockfd_loop s i = (s\<lparr>next_sockfd := fd + 1\<rparr>, int fd)"
  | (full) "\<forall>j < MAX_SOCKETS. socket_table s ! probe s j \<noteq> None" and "alloc_sockfd_loop s i = (s, - EMFILE)"
  using assms
proof (induction s i rule: alloc_sockfd_loop.induct)
  case (1 s i)
  show ?case
  proof (cases "i < MAX_SOCKETS")
    case False
    then have "alloc_sockfd_loop s i = (s, - EMFILE)"
      by (simp add: alloc_sockfd_loop.simps [of s i])
    moreover from False 1(4,5) have "\<forall>j < MAX_SOCKETS. socket_table s ! probe s j \<noteq> None"
      by auto
    ultimately show ?thesis by (rule 1(3) [rotated])
  next
    case True
    show ?thesis
    proof (cases "socket_table s ! probe s i = None")
      case free: True
      with True 1(5) have "first_free s (probe s i)"
        by (auto simp: first_free_def)
      moreover from True free
      have "alloc_sockfd_loop s i = (s\<lparr>next_sockfd := probe s i + 1\<rparr>, int (probe s i))"
        by (simp add: alloc_sockfd_loop.simps [of s i] Let_def)
      ultimately show ?thesis by (rule 1(2))
    next
      case used: False
      have step: "alloc_sockfd_loop s i = alloc_sockfd_loop s (i + 1)"
        using True used by (auto simp: alloc_sockfd_loop.simps [of s i] Let_def)
      show ?thesis
      proof (rule 1(1) [OF True refl used])
        show "i + 1 \<le> MAX_SOCKETS" using True by simp
        show "\<forall>j < i + 1. socket_table s ! probe s j \<noteq> None"
          using 1(5) used by (auto simp: less_Suc_eq)
      qed (use 1(2,3) step in auto)
    qed
  qed
qed

lemma probe_onto: "fd < MAX_SOCKETS \<Longrightarrow> \<exists>k < MAX_SOCKETS. fd = probe s k"
proof -
  assume fd: "fd < MAX_SOCKETS"
  let ?n = "next_sockfd s mod MAX_SOCKETS"
  let ?k = "(fd + MAX_SOCKETS - ?n) mod MAX_SOCKETS"
  have "?n < MAX_SOCKETS" by simp
  then have "?n + (fd + MAX_SOCKETS - ?n) = fd + MAX_SOCKETS" by linarith
  then have "(?n + (fd + MAX_SOCKETS - ?n)) mod MAX_SOCKETS = fd"
    using fd by simp
  then have "probe s ?k = fd"
    by (metis mod_add_left_eq mod_add_right_eq)
  then show ?thesis
    by (metis MAX_SOCKETS_pos(1) mod_less_divisor)
qed

lemma alloc_sockfd_cases:
  obtains (found) fd where "first_free s fd" and "fd < MAX_SOCKETS" and "socket_table s ! fd = None"
      and "alloc_sockfd s = (s\<lparr>next_sockfd := fd + 1\<rparr>, int fd)"
  | (full) "\<forall>fd < MAX_SOCKETS. socket_table s ! fd \<noteq> None" and "alloc_sockfd s = (s, - EMFILE)"
proof (rule alloc_sockfd_loop_cases [of 0 s])
  fix fd
  assume found: "first_free s fd" "alloc_sockfd_loop s 0 = (s\<lparr>next_sockfd := fd + 1\<rparr>, int fd)"
  from found(1) have "fd < MAX_SOCKETS" and "socket_table s ! fd = None"
    by (auto simp: first_free_def)
  with found show ?thesis
    using that(1) by (simp add: alloc_sockfd_def)
next
  assume full: "\<forall>j < MAX_SOCKETS. socket_table s ! probe s j \<noteq> None" "alloc_sockfd_loop s 0 = (s, - EMFILE)"
  then have "\<forall>fd < MAX_SOCKETS. socket_table s ! fd \<noteq> None"
    using probe_onto [of _ s] by metis
  with full(2) show ?thesis
    using that(2) by (simp add: alloc_sockfd_def)
qed simp_all

lemma fresh_socket_ok:
  "type = SOCK_STREAM \<or> type = SOCK_DGRAM \<or> type = SOCK_RAW \<Longrightarrow> socket_ok (fresh_socket family type protocol)"
  by (auto simp: socket_ok_def fresh_socket_def Let_def)

lemma set_free_slot:
  "i < length xs \<Longrightarrow> xs ! i = None \<Longrightarrow>
     set xs \<subseteq> insert None (set (xs[i := Some a])) \<and> set (xs[i := Some a]) \<subseteq> insert (Some a) (set xs)"
  using set_update_subset_insert [of xs i "Some a"]
  by (auto simp: in_set_conv_nth) (metis nth_list_update_neq)

lemma install_socket:
  assumes inv: "sock_inv s" and fd: "fd < MAX_SOCKETS" "socket_table s ! fd = None"
    and h: "heap_inv h" "live h = insert (a, n) (live (sheap s))" "(a, n) \<notin> live (sheap s)" "sizeof_socket \<le> n"
    and k: "socket_ok k"
  shows "implements s ((sockets s)(int fd \<mapsto> k))
    (s\<lparr>next_sockfd := fd + 1, sheap := h, socks := (socks s)(a := k),
       socket_table := (socket_table s)[fd := Some a]\<rparr>)" (is "implements s _ ?s")
proof -
  from inv have len: "length (socket_table s) = MAX_SOCKETS" and ns: "no_sharing (socket_table s)"
    and slots: "\<And>p. p \<in> set (socket_table s) \<Longrightarrow> slot_ok (sheap s) (socks s) p"
    by (simp_all add: sock_inv_def)
  have new: "m = n" if "(a, m) \<in> live h" for m
    using live_functional [OF h(1) that, of n] h(2) by simp
  then have fresh: "(a, m) \<notin> live (sheap s)" for m
    by (metis h(2,3) insertCI)
  have unused: "Some a \<notin> set (socket_table s)"
    using slots [of "Some a"] fresh by (auto simp: slot_ok_def)
  have sub: "set (socket_table s) \<subseteq> insert None (set (socket_table ?s))"
    "set (socket_table ?s) \<subseteq> insert (Some a) (set (socket_table s))"
    using set_free_slot [of fd "socket_table s" a] fd len by auto
  have "slot_ok h ((socks s)(a := k)) p" if "p \<in> set (socket_table ?s)" for p
  proof (cases "p = Some a")
    case True
    with h(2,4) k show ?thesis by (auto simp: slot_ok_def)
  next
    case False
    with that sub(2) have "slot_ok (sheap s) (socks s) p"
      by (auto intro: slots)
    with False h(2) show ?thesis by (auto simp: slot_ok_def split: option.splits)
  qed
  then have "sock_inv ?s"
    using h(1) len fd(1) no_sharing_set [OF ns unused] by (simp add: sock_inv_def)
  moreover have "sockets ?s = (sockets s)(int fd \<mapsto> k)"
  proof
    fix x
    have "socket_at s x \<noteq> Some a"
      using unused len by (auto simp: socket_at_nth) (metis nth_mem)
    then show "sockets ?s x = ((sockets s)(int fd \<mapsto> k)) x"
      using fd(1) len
      by (cases "socket_table s ! nat x") (auto simp: sockets_def socket_at_def nth_list_update)
  qed
  moreover have "Some a \<in> set (socket_table ?s)"
    using fd(1) len by (simp add: set_update_memI)
  then have "other_blocks ?s = other_blocks s"
    using sub fresh unfolding other_blocks_def by (auto simp: h(2))
  ultimately show ?thesis
    by (simp add: implements_def)
qed

section \<open>Properties of the socket table\<close>

text \<open>The outcomes of \<open>socket_create\<close>, in the order in which it checks for them.\<close>

definition create_spec :: "sock_sys \<Rightarrow> int \<Rightarrow> int \<Rightarrow> int \<Rightarrow> sock_sys \<Rightarrow> int \<Rightarrow> bool" where
  "create_spec s family type protocol s' r \<longleftrightarrow>
     (if family \<noteq> AF_INET \<and> family \<noteq> AF_INET6 then s' = s \<and> r = - EAFNOSUPPORT
      else if type \<noteq> SOCK_STREAM \<and> type \<noteq> SOCK_DGRAM \<and> type \<noteq> SOCK_RAW then s' = s \<and> r = - ESOCKTNOSUPPORT
      else if \<forall>fd < MAX_SOCKETS. socket_table s ! fd \<noteq> None then s' = s \<and> r = - EMFILE
      else (\<exists>fd. first_free s fd \<and> r = int fd \<and> next_sockfd s' = fd + 1 \<and>
              implements s ((sockets s)(r \<mapsto> fresh_socket family type protocol)) s') \<or>
           r = - ENOMEM \<and> \<not> room (sheap s) (sizeof_socket + header_size + MIN_ALLOC) \<and>
             sheap s' = sheap s \<and> implements s (sockets s) s')"

text \<open>On a well-formed table \<open>socket_create\<close> returns. A family or a type it does not know, and a table
  without a free slot, are refused with their error codes and no change. Otherwise the descriptor is the
  first free one from \<open>next_sockfd\<close> on, cyclically, and stands for a new unconnected socket, while every
  other descriptor keeps its socket and every block of the rest of the kernel stays as it was. Only a heap
  without a large enough free block makes the call fail with \<open>-ENOMEM\<close>, and then no descriptor
  changes.\<close>

theorem socket_create_correct:
  assumes inv: "sock_inv s"
  shows "\<exists>s' r. socket_create s family type protocol = Some (s', r) \<and> create_spec s family type protocol s' r"
proof -
  have hinv: "heap_inv (sheap s)"
    using inv by (simp add: sock_inv_def)
  consider (bad) "family \<noteq> AF_INET \<and> family \<noteq> AF_INET6 \<or> type \<noteq> SOCK_STREAM \<and> type \<noteq> SOCK_DGRAM \<and> type \<noteq> SOCK_RAW"
    | (good) "family = AF_INET \<or> family = AF_INET6" "type = SOCK_STREAM \<or> type = SOCK_DGRAM \<or> type = SOCK_RAW"
    by blast
  then show ?thesis
  proof cases
    case bad
    then show ?thesis by (auto simp: socket_create_def create_spec_def)
  next
    case good
    show ?thesis
    proof (cases rule: alloc_sockfd_cases [of s])
      case full
      with good show ?thesis by (auto simp: socket_create_def create_spec_def)
    next
      case (found fd)
      have some: "\<exists>fd < MAX_SOCKETS. socket_table s ! fd = None"
        using found by blast
      show ?thesis
        using hinv
      proof (cases rule: kernel_heap.alloc_returns [where n = sizeof_socket and flags = "GFP_KERNEL OR GFP_ZERO"])
        case failed
        let ?s = "s\<lparr>next_sockfd := fd + 1\<rparr>"
        have "sock_inv ?s"
          using inv found(2) by (simp add: sock_inv_def)
        then have "implements s (sockets s) ?s"
          by (simp add: implements_def other_blocks_def sockets_def [abs_def])
        moreover have "\<not> room (sheap s) (sizeof_socket + header_size + MIN_ALLOC)"
          using kmalloc_room [OF hinv, of sizeof_socket "GFP_KERNEL OR GFP_ZERO"] failed
          by (auto simp: MAX_ALLOC_def)
        moreover have "socket_create s family type protocol = Some (?s, - ENOMEM)"
          using good found(4) failed by (auto simp: socket_create_def kzalloc_def)
        ultimately show ?thesis
          using good some by (auto simp: create_spec_def)
      next
        case (granted h a n)
        from install_socket [OF inv found(2,3) granted(2,4,5,3) fresh_socket_ok [OF good(2), of family protocol]]
          found(1,4) granted(1) good some
        show ?thesis
          by (auto simp: create_spec_def socket_create_def kzalloc_def)
      qed
    qed
  qed
qed

text \<open>C31. On a well-formed table every call on a descriptor returns, and its result and its effect are those
  of the specification on the map from descriptors to sockets: one entry changes and no other, and the
  blocks of the rest of the kernel stay as they are. Closing gives the structure back to the heap.\<close>

theorem socket_calls_refine:
  assumes "sock_inv s"
  shows "\<exists>s' T r. run_call s c = Some (s', r) \<and> call_spec (kbytes (sheap s)) (sockets s) c = (T, r) \<and>
    implements s T s'"
  using assms by (rule call_refines)

text \<open>
  The life of the table: sockets are created, used and closed, the table is set up again, and the rest of
  the kernel takes and releases blocks of its own.
\<close>

inductive sock_step :: "sock_sys \<Rightarrow> sock_sys \<Rightarrow> bool" where
  create: "socket_create s family type protocol = Some (s', r) \<Longrightarrow> sock_step s s'"
| call: "run_call s c = Some (s', r) \<Longrightarrow> sock_step s s'"
| init: "sock_step s (net_init s)"
| elsewhere: "heap_inv h \<Longrightarrow> live (sheap s) - other_blocks s \<subseteq> live h \<Longrightarrow> sock_step s (s\<lparr>sheap := h\<rparr>)"

lemma sock_inv_step: "sock_step s s' \<Longrightarrow> sock_inv s \<Longrightarrow> sock_inv s'"
proof (induction rule: sock_step.induct)
  case (create s family type protocol s' r)
  with socket_create_correct [of s family type protocol] show ?case
    by (auto simp: create_spec_def implements_def split: if_splits)
next
  case (call s c s' r)
  with call_refines [of s c] show ?case
    by (auto simp: implements_def)
next
  case (init s)
  then show ?case
    by (auto simp: sock_inv_def net_init_def slot_ok_def no_sharing_def)
next
  case (elsewhere h s)
  have "slot_ok h (socks s) p" if "p \<in> set (socket_table s)" for p
  proof -
    from elsewhere.prems that have "slot_ok (sheap s) (socks s) p"
      by (simp add: sock_inv_def)
    with elsewhere.hyps(2) that show ?thesis
      by (auto simp: slot_ok_def other_blocks_def split: option.splits)
  qed
  with elsewhere show ?case
    by (simp add: sock_inv_def)
qed

text \<open>C32. From the start of the system on the socket table is well-typed: every descriptor in use has a
  structure of its own in a heap block of at least its size, of one of the three types, connected or not,
  with full addresses, whatever sequence of socket calls and foreign heap operations has run.\<close>

theorem socket_table_invariant:
  assumes "heap_inv (sheap s)" and "next_sockfd s = 0" and "sock_step\<^sup>*\<^sup>* (net_init s) s'"
  shows "sock_inv s'"
  using assms(3)
proof (induction rule: rtranclp_induct)
  case base
  from assms(1,2) show ?case
    by (auto simp: sock_inv_def net_init_def slot_ok_def no_sharing_def)
next
  case (step y z)
  then show ?case by (blast intro: sock_inv_step)
qed

section \<open>Witnesses\<close>

text \<open>The table at start-up, and the same system with one connected stream socket in slot 5.\<close>

definition boot_sockets :: sock_sys where
  "boot_sockets = \<lparr>sheap = boot_heap, socks = (\<lambda>_. fresh_socket 2 1 6), socket_table = replicate MAX_SOCKETS None,
     next_sockfd = 0\<rparr>"

lemma boot_sockets_inv: "sock_inv boot_sockets"
  using boot_heap_inv by (auto simp: sock_inv_def boot_sockets_def slot_ok_def no_sharing_def)

lemma boot_sockets_first: "first_free boot_sockets fd \<Longrightarrow> fd = 0"
  by (auto simp: first_free_def boot_sockets_def MAX_SOCKETS_def) (metis not_gr_zero)

lemma boot_heap_size: "352 \<le> bsize (hdr boot_heap HEAP_BASE)"
  by (simp add: boot_heap_def kmalloc_init_def raw_heap_def Let_def HEAP_BASE_def PMM_MEMORY_BASE_def
      DEFAULT_HEAP_SIZE_def MIN_HEAP_SIZE_def)

lemma socket_create_correct_witness:
  "\<exists>s'. socket_create boot_sockets 2 1 6 = Some (s', 0) \<and> sockets s' = [0 \<mapsto> fresh_socket 2 1 6]"
proof -
  have "\<not> (\<forall>fd < MAX_SOCKETS. socket_table boot_sockets ! fd \<noteq> None)"
    by (auto simp: boot_sockets_def intro!: exI [of _ 0])
  moreover have "sockets boot_sockets = Map.empty"
    by (auto simp: sockets_def socket_at_def boot_sockets_def fun_eq_iff)
  moreover have "room (sheap boot_sockets) (sizeof_socket + header_size + MIN_ALLOC)"
    using boot_heap_size by (simp add: boot_sockets_def room_def free_blocks_eq [OF boot_heap_wf])
  ultimately show ?thesis
    using socket_create_correct [OF boot_sockets_inv, of 2 1 6]
    by (auto simp: create_spec_def implements_def dest!: boot_sockets_first split: if_splits)
qed

definition used_sockets :: sock_sys where
  "used_sockets = \<lparr>sheap = (raw_heap 0)\<lparr>heap_end := 416, free_list := Some 352, heap_total := 416, kheap_used := 352,
       heap_initialized := True,
       hdr := (\<lambda>a. if a = 0 then \<lparr>bsize = 352, bmagic = BLOCK_MAGIC_USED, bflags = 0, bnext = None, bprev = None\<rparr>
         else \<lparr>bsize = 64, bmagic = BLOCK_MAGIC_FREE, bflags = 1, bnext = None, bprev = None\<rparr>)\<rparr>,
     socks = (\<lambda>_. (fresh_socket 2 1 6)\<lparr>sock_state := SS_CONNECTED\<rparr>),
     socket_table = (replicate MAX_SOCKETS None)[5 := Some 40], next_sockfd = 6\<rparr>"

lemma used_sockets_wf: "heap_wf (sheap used_sockets) [0, 352] [352]"
  by (simp add: used_sockets_def raw_heap_def heap_wf_def free_structure_def used_size_def)

lemma used_sockets_live: "live (sheap used_sockets) = {(40, 312)}"
proof -
  have "set [0, 352 :: nat] - set [352] = {0}"
    by auto
  then show ?thesis
    unfolding live_eq [OF used_sockets_wf] by (simp add: used_sockets_def block_data_def)
qed

lemma used_sockets_inv: "sock_inv used_sockets"
proof -
  have "heap_inv (sheap used_sockets)"
    using used_sockets_wf unfolding heap_inv_def by blast
  moreover have "set (socket_table used_sockets) \<subseteq> {None, Some 40}"
    using set_update_subset_insert [of "replicate MAX_SOCKETS None" 5 "Some 40"]
    by (auto simp: used_sockets_def)
  then have "\<forall>p \<in> set (socket_table used_sockets). slot_ok (sheap used_sockets) (socks used_sockets) p"
    using fresh_socket_ok [of 1 2 6] used_sockets_live
    by (auto simp: slot_ok_def used_sockets_def socket_ok_def split: option.splits)
  moreover have "no_sharing (socket_table used_sockets)"
    using no_sharing_set [of "replicate MAX_SOCKETS None" 40 5]
    by (simp add: used_sockets_def no_sharing_def)
  ultimately show ?thesis
    by (simp add: sock_inv_def) (simp add: used_sockets_def MAX_SOCKETS_def)
qed

lemma socket_calls_refine_witness:
  "\<exists>s'. run_call used_sockets (Close 5) = Some (s', 0) \<and> sockets s' 5 = None \<and> sock_inv s'"
proof -
  have "sockets used_sockets 5 \<noteq> None"
    by (simp add: sockets_def socket_at_def used_sockets_def MAX_SOCKETS_def)
  then show ?thesis
    using socket_calls_refine [OF used_sockets_inv, of "Close 5"]
    by (auto simp: call_spec_def implements_def dest: sym)
qed

lemma socket_table_invariant_witness:
  "\<exists>s' r. socket_create (net_init boot_sockets) 10 2 17 = Some (s', r) \<and> sock_inv s'"
proof -
  have "sock_inv (net_init boot_sockets)"
    using boot_sockets_inv by (simp add: net_init_def boot_sockets_def)
  then obtain s' r where run: "socket_create (net_init boot_sockets) 10 2 17 = Some (s', r)"
    using socket_create_correct by blast
  then have "sock_step\<^sup>*\<^sup>* (net_init boot_sockets) s'"
    by (blast intro: sock_step.create)
  then have "sock_inv s'"
    by (rule socket_table_invariant [rotated 2]) (simp_all add: boot_sockets_def boot_heap_inv)
  with run show ?thesis by blast
qed

end
