(* ===== verification/Spec2Isabelle.thy ===== *)
theory Spec2Isabelle
  imports Libc_Stdlib Pipe Signal Syscall_Files Vmm_User Spinlock Tcp_Delivery Process_Load Socket
begin

text \<open>
  Verification of the GC-AOS kernel and its C library (the C sources under \<^verbatim>\<open>src/kernel\<close> and
  \<^verbatim>\<open>src/libc\<close>), by a shallow embedding: every C function of the parts below is a HOL function on an
  explicit state, written from the source statement by statement.

  \<^bold>\<open>The program.\<close> At boot the kernel sets up a page allocator for the physical memory, page tables and a
  heap; on these rest the scheduler with its tasks and signals, pipes, a RAM file system below a virtual
  file system layer, a network stack above one driver, a loader for ELF programs,
  processes that run them and system calls. User programs are linked with a small C library.

  \<^bold>\<open>Theories and sources.\<close>
  \<^item> \<open>Prelude\<close>: machine words, byte memory with block reads and writes, C strings in memory, error
    numbers, and the collections \<open>mem_simps\<close> and \<open>inv_intros\<close>. \<open>Linked_Lists\<close>: doubly and singly linked lists
    in a store, shared by the heap, the run queue and the directories.
  \<^item> \<open>Kernel_String\<close> (\<^verbatim>\<open>kernel/lib/string.c\<close>), \<open>Libc_String\<close> (\<^verbatim>\<open>libc/src/string.c\<close>) and \<open>Libc_Stdlib\<close>
    (\<^verbatim>\<open>libc/src/stdlib.c\<close>): the memory and string routines against block reads and writes; the locales
    \<open>block_copy\<close> and \<open>block_move\<close> are the contract of the copying routines and are interpreted for the
    kernel, the C library and the ELF loader.
  \<^item> \<open>Kmalloc\<close> (\<^verbatim>\<open>kernel/mm/kmalloc.c\<close>): the first-fit heap. The invariant says that the blocks tile the heap
    and that the free list is a doubly linked list of free blocks; \<open>live\<close> is the set of blocks in use. The
    locale \<open>heap_allocator\<close> is the contract its clients use.
  \<^item> \<open>Pmm\<close> (\<^verbatim>\<open>kernel/mm/pmm.c\<close>): the page bitmap and the buddy lists; \<open>pmm_step\<close> is the relation of all its
    operations.
  \<^item> \<open>Vmm\<close> (\<^verbatim>\<open>kernel/mm/vmm.c\<close>) and \<open>Vmm_Spec\<close>: page tables in physical memory, taken from static tables and
    from the page allocator. The specification is the table walk of the architecture, \<open>mmu_walk\<close>; the
    invariant says that the tables below a root form a tree apart from the supply of new tables. The locale
    \<open>page_mapper\<close> carries the all-or-nothing argument for ranges. \<open>Vmm_User\<close>: user mappings and areas.
  \<^item> \<open>Spinlock\<close> (\<^verbatim>\<open>kernel/sync/spinlock.c\<close>): the lock routines of the four configurations as instructions that
    processors interleave (\<open>spin_step\<close>); locale \<open>lock_machine\<close>.
  \<^item> \<open>Pipe\<close> (\<^verbatim>\<open>kernel/ipc/pipe.c\<close>): the ring buffer, the calls of one thread, and threads that interleave at
    the points where the source gives the lock away (\<open>pipe_run\<close>); locale \<open>byte_queue\<close>.
  \<^item> \<open>Sched\<close> (\<^verbatim>\<open>kernel/sched/sched.c\<close>) and \<open>Signal\<close> (\<^verbatim>\<open>kernel/sched/signal.c\<close>): task pool, run queue, signal
    delivery; \<open>sched_step\<close> and \<open>sig_step\<close> are the relations of their operations; locale \<open>linked_queue\<close>.
  \<^item> \<open>Elf\<close> (\<^verbatim>\<open>kernel/loader/elf.c\<close>): validation, loading and relocation over byte memory.
  \<^item> \<open>Ramfs\<close> (\<^verbatim>\<open>kernel/fs/ramfs.c\<close>) and \<open>Ramfs_Spec\<close>: inodes and file data as blocks of the kernel heap,
    refined to a table of files and directories (\<open>fs_rep\<close>). \<open>Vfs\<close> (\<^verbatim>\<open>kernel/fs/vfs.c\<close>) and \<open>Vfs_Spec\<close>: paths,
    open files and mounts on top of it. \<open>Vfs_Frame\<close>: what opening, reading, writing, seeking and closing keep of the
    files of others, also when memory runs out.
  \<^item> \<open>Net_Checksum\<close>, \<open>Net\<close> and \<open>Tcp\<close> (\<^verbatim>\<open>kernel/net/tcp_ip.c\<close>, byte order in \<^verbatim>\<open>kernel/net/socket.c\<close>): packets in
    memory of the kernel heap, interfaces, ARP, ICMP, UDP and the TCP connections; the driver is the list \<open>wire\<close>
    of frames that it was given. \<open>Tcp_Spec\<close>: the separation of the connection buffers as invariant, the relation
    \<open>net_step\<close> of all operations, and the automaton \<open>tcp_edge\<close> that runs refine (locale \<open>tracked_machine\<close>).
    \<open>Tcp_Delivery\<close>: data from one machine to another, and what goes wrong. \<open>Socket\<close> (\<^verbatim>\<open>kernel/net/socket.c\<close>): the
    socket table on the heap, refined to a map from descriptors to sockets (\<open>call_spec\<close>, \<open>implements\<close>).
  \<^item> \<open>Aslr\<close> (\<^verbatim>\<open>kernel/mm/aslr.c\<close>), \<open>Vfs_Compat\<close> (\<^verbatim>\<open>kernel/fs/vfs_compat.c\<close>) and \<open>Process\<close> (\<^verbatim>\<open>kernel/core/process.c\<close>
    with the interrupt handler of \<^verbatim>\<open>kernel/arch/arm64/boot.S\<close>): processes over the heap, the ELF loader and the file
    layer; a switch of context is a result of the function that makes it. \<open>Process_Spec\<close>: the invariant of the
    table, the descendants that killing reaches, and the turns of the round-robin order. \<open>Process_Run\<close>: creation and
    the relation \<open>proc_step\<close> of all operations. \<open>Process_Load\<close>: a program from its path to its first context.
  \<^item> \<open>Syscall\<close> (\<^verbatim>\<open>kernel/syscall/syscall.c\<close>): descriptors, the check of user pointers, the handlers and the
    dispatcher over the file system, the scheduler and the ELF loader. \<open>Syscall_Spec\<close>: the invariant of the
    descriptor table and each handler. \<open>Syscall_Run\<close>: the relation \<open>syscall_step\<close> of all calls and the invariant
    of the kernel. \<open>Syscall_Files\<close>: what single calls do.
  \<^item> This theory: properties that span components.

  \<^bold>\<open>Conventions.\<close> Structures are records with the fields of the source, pools of structures are functions of
  their index or address, a null pointer is \<^const>\<open>None\<close>. Sizes and addresses inside objects are natural
  numbers; where the source can wrap around, the value is a word or the wrap is written out. Error returns
  are the negated error numbers. A loop whose end depends on data (a terminator, a linked list, a lock) is
  a \<open>partial_function\<close> into an option type or returns an option: \<^const>\<open>None\<close> is a call that does not return or
  that follows a null or wild pointer. The theorems state the result as \<^const>\<open>Some\<close>, so that they include
  that the call returns; no fuel is used. Output with \<^verbatim>\<open>printk\<close> and cache maintenance have no effect on the
  states.

  \<^bold>\<open>What the lemmas show.\<close> For each component an invariant and that every operation keeps it; the result
  and the effect of each operation on every branch, with what it leaves unchanged; for the file system and
  the page tables that the detailed state refines an abstract table or translation, and for TCP that each
  connection follows its automaton and that data arrives as it was sent. Where the source does
  not do what it means to, the behaviour is stated as a theorem of its own: the scheduler never rotates,
  \<open>sched_kill_task\<close> sends its signal where nobody looks, \<open>do_waitpid\<close> does not wait, a seek to the end of a
  file uses an old size, a switch to a new address space unmaps the kernel, the page allocator hands
  out the pages of the heap, the network stack sends through the loopback interface, programs are loaded into
  the heap, a process outlives the creator that should take it along, a user buffer may cover the kernel, and
  a mapping of almost the largest length is empty.

  \<^bold>\<open>Bounds.\<close> The statements about allocation succeed with a free block of a given size (\<open>room\<close>); page
  memory is at most 4 GB, as the bitmap of the source allows; file positions stay below \<open>2^63\<close>.

  \<^bold>\<open>Not modelled.\<close> Device drivers, boot code and inline assembly have no state in HOL; the graphical
  interface, media decoders, image data and the Doom port are not kernel logic. The slab allocator
  (its pages come from a stub that always fails), the alternative schedulers, the event queues, formatted
  output and the disk file systems are not modelled either.
\<close>

section \<open>Page allocator and kernel heap\<close>

text \<open>C36. The kernel heap takes the fixed region at \<open>HEAP_BASE\<close>, and nothing reserves that region in the
  page allocator: with a kernel image that ends below the heap, as the layout intends, the page allocator
  hands out after boot every page of the memory that \<open>kmalloc_init\<close> makes a free block of the heap.\<close>

theorem pmm_hands_out_heap:
  assumes "early_bitmap s = (\<lambda>_. 0)" and "early_mode s"
    and mem: "configured_memory_base s = PMM_MEMORY_BASE" "configured_memory_size s = n * PAGE_SIZE"
    and "configured_memory_size s \<le> PMM_MAX_MEMORY_SIZE"
    and kernel: "PMM_MEMORY_BASE \<le> kernel_start" "kernel_end \<le> HEAP_BASE"
    and ram: "HEAP_BASE < PMM_MEMORY_BASE + n * PAGE_SIZE"
    and "phys_total h = n * PAGE_SIZE" and "\<not> heap_lock h"
  shows "\<exists>s'. pmm_init s kernel_start kernel_end = (s', 0) \<and>
    free_blocks (kmalloc_init h) = {(HEAP_BASE, heap_total (kmalloc_init h))} \<and>
    (\<forall>k < n. HEAP_BASE \<le> PMM_MEMORY_BASE + k * PAGE_SIZE \<and>
        PMM_MEMORY_BASE + k * PAGE_SIZE < HEAP_BASE + heap_total (kmalloc_init h) \<longrightarrow>
      (\<exists>j s1 s2. take_pages j s' = Some s1 \<and>
         pmm_alloc_page s1 = Some (s2, PMM_MEMORY_BASE + k * PAGE_SIZE)))"
proof -
  have "0 < (0x40000 :: nat)" "configured_memory_base s = 0x40000 * PAGE_SIZE"
      "0x40000 * PAGE_SIZE \<le> kernel_start" "kernel_end \<le> (0x40000 + n) * PAGE_SIZE"
    using mem(1) kernel ram by (simp_all add: PMM_MEMORY_BASE_def HEAP_BASE_def)
  from pmm_init_state [OF assms(1,2) this(1,2) mem(2) assms(5) this(3,4)] obtain s' where
    s': "pmm_init s kernel_start kernel_end = (s', 0)" "pmm_inv s'" "total_pages s' = n"
      "memory_start s' = 0x40000 * PAGE_SIZE"
      "free_pages s' = {k. k < n \<and> (page_addr s' (k + 1) \<le> kernel_start \<or> kernel_end \<le> page_addr s' k)}"
    by blast
  have base: "memory_start s' = PMM_MEMORY_BASE"
    by (simp add: s'(4) PMM_MEMORY_BASE_def)
  have "k \<in> free_pages s'" if "k < n" "HEAP_BASE \<le> PMM_MEMORY_BASE + k * PAGE_SIZE" for k
    using that kernel(2) by (simp add: s'(5) base)
  then have "\<exists>j s1 s2. take_pages j s' = Some s1 \<and> pmm_alloc_page s1 = Some (s2, PMM_MEMORY_BASE + k * PAGE_SIZE)"
    if "k < n" "HEAP_BASE \<le> PMM_MEMORY_BASE + k * PAGE_SIZE" for k
    using that take_pages_until [OF s'(2) _ refl] unfolding base by blast
  moreover have "free_blocks (kmalloc_init h) = {(HEAP_BASE, heap_total (kmalloc_init h))}"
    using assms(9,10) by (intro kmalloc_init_correct [THEN conjunct2, THEN conjunct2, THEN conjunct1]) simp_all
  ultimately show ?thesis
    using s'(1) by blast
qed

lemma pmm_hands_out_heap_witness:
  "\<exists>s' j s1 s2. pmm_init pmm_boot 0x40200000 0x40600000 = (s', 0) \<and> take_pages j s' = Some s1 \<and>
     pmm_alloc_page s1 = Some (s2, HEAP_BASE)"
proof -
  let ?h = "raw_heap (262144 * PAGE_SIZE)"
  have page: "HEAP_BASE = PMM_MEMORY_BASE + 8192 * PAGE_SIZE" and "0 < heap_total (kmalloc_init ?h)"
    by (simp_all add: kmalloc_init_def raw_heap_def HEAP_BASE_def PMM_MEMORY_BASE_def DEFAULT_HEAP_SIZE_def
        MIN_HEAP_SIZE_def Let_def)
  then have "HEAP_BASE \<le> PMM_MEMORY_BASE + 8192 * PAGE_SIZE \<and>
      PMM_MEMORY_BASE + 8192 * PAGE_SIZE < HEAP_BASE + heap_total (kmalloc_init ?h)"
    by simp
  moreover have "\<exists>s'. pmm_init pmm_boot 0x40200000 0x40600000 = (s', 0) \<and>
    free_blocks (kmalloc_init ?h) = {(HEAP_BASE, heap_total (kmalloc_init ?h))} \<and>
    (\<forall>k < 262144. HEAP_BASE \<le> PMM_MEMORY_BASE + k * PAGE_SIZE \<and>
        PMM_MEMORY_BASE + k * PAGE_SIZE < HEAP_BASE + heap_total (kmalloc_init ?h) \<longrightarrow>
      (\<exists>j s1 s2. take_pages j s' = Some s1 \<and>
         pmm_alloc_page s1 = Some (s2, PMM_MEMORY_BASE + k * PAGE_SIZE)))"
    by (rule pmm_hands_out_heap)
      (simp_all add: pmm_boot_def MEMORY_BASE_def MEMORY_SIZE_def PMM_MAX_MEMORY_SIZE_def PMM_MEMORY_BASE_def
        HEAP_BASE_def raw_heap_def)
  moreover have "(8192 :: nat) < 262144" by simp
  ultimately show ?thesis
    unfolding page by blast
qed

end
